(* ===== verification/Prelude.thy ===== *)
theory Prelude
  imports Main "HOL-Library.Word"
begin

text \<open>
  Shared vocabulary of the CuoreOS development.

  \<^item> the fixed-width integers of \<^verbatim>\<open>stdint.h\<close> as words, and the outcome of a kernel routine that
    may call \<^verbatim>\<open>panic\<close> (declared in \<^verbatim>\<open>src/panic.h\<close>, it never returns) as a sum;
  \<^item> the macros of \<^verbatim>\<open>src/abs.h\<close> and \<^verbatim>\<open>src/mem/mem.h\<close> that several components use;
  \<^item> the collections \<open>kernel_simps\<close> and \<open>word_nat\<close> and the generic lemmas on words, lists and
    sums that the component theories share.
\<close>

unbundle bit_operations_syntax

section \<open>Machine integers and outcomes\<close>

type_synonym u8 = "8 word"
type_synonym u16 = "16 word"
type_synonym u32 = "32 word"
type_synonym u64 = "64 word"

text \<open>A call to \<^verbatim>\<open>panic(header, msg)\<close> halts the machine; it is the left summand of a result.\<close>

datatype panic = Panic string string

type_synonym 'a outcome = "panic + 'a"

definition and_then :: "'e + 'a \<Rightarrow> ('a \<Rightarrow> 'e + 'b) \<Rightarrow> 'e + 'b" where
  "and_then m f = (case m of Inl e \<Rightarrow> Inl e | Inr x \<Rightarrow> f x)"

named_theorems kernel_simps "definitions and facts that evaluate the model on concrete inputs"
named_theorems word_nat "facts that read words as natural numbers"

lemma and_then_Inl [simp, kernel_simps]: "and_then (Inl e) f = Inl e"
  by (simp add: and_then_def)

lemma and_then_Inr [simp, kernel_simps]: "and_then (Inr x) f = f x"
  by (simp add: and_then_def)

lemma and_then_eq_Inr:
  "and_then m f = Inr y \<longleftrightarrow> (\<exists>x. m = Inr x \<and> f x = Inr y)"
  by (cases m) simp_all

section \<open>Macros of abs.h and mem.h\<close>

definition ALIGN :: "u64 \<Rightarrow> u64 \<Rightarrow> u64" where
  "ALIGN alignment sz = (sz + (alignment - 1)) AND NOT (alignment - 1)"

definition SMAX :: "'a::linorder \<Rightarrow> 'a \<Rightarrow> 'a" where
  "SMAX a b = (if b < a then a else b)"

definition SMIN :: "'a::linorder \<Rightarrow> 'a \<Rightarrow> 'a" where
  "SMIN a b = (if a < b then a else b)"

definition PAGE_SIZE :: u64 where "PAGE_SIZE = 4096"
definition PAGE_SIZE_2MB :: u64 where "PAGE_SIZE_2MB = 0x200000"
definition PAGE_SIZE_1GB :: u64 where "PAGE_SIZE_1GB = 0x40000000"

lemma SMAX_max [simp]: "SMAX a b = max a b"
  by (auto simp: SMAX_def max_def)

lemma SMIN_min [simp]: "SMIN a b = min a b"
  by (auto simp: SMIN_def min_def)

section \<open>Words as natural numbers\<close>

lemma unat_plus_small [word_nat]:
  fixes a b :: "'a::len word"
  shows "unat a + unat b < 2 ^ LENGTH('a) \<Longrightarrow> unat (a + b) = unat a + unat b"
  by (simp add: unat_word_ariths)

lemma unat_mult_small [word_nat]:
  fixes a b :: "'a::len word"
  shows "unat a * unat b < 2 ^ LENGTH('a) \<Longrightarrow> unat (a * b) = unat a * unat b"
  by (simp add: unat_word_ariths)

lemma unat_minus_le [word_nat]:
  fixes a b :: "'a::len word"
  shows "b \<le> a \<Longrightarrow> unat (a - b) = unat a - unat b"
  by (simp add: unat_sub)

lemma unat_less_exp: "unat (x :: 'a::len word) < 2 ^ LENGTH('a)"
  by simp

lemma unat_bounds [simp]:
  "unat (a :: u8) < 256" "unat (b :: u16) < 65536" "unat (c :: u32) < 4294967296"
  "unat (d :: u64) < 18446744073709551616"
  using unat_less_exp [of a] unat_less_exp [of b] unat_less_exp [of c] unat_less_exp [of d]
  by simp_all

lemma of_nat_unat_id: "(of_nat (unat w) :: 'a::len word) = w"
  by simp

lemma unat_lt_64: "unat (x :: u64) < 2 ^ 64"
  using unat_less_exp [of x] by simp

lemma unat_of_nat_small [word_nat]: "n < 2 ^ LENGTH('a) \<Longrightarrow> unat (of_nat n :: 'a::len word) = n"
  by (simp add: unat_of_nat)

lemma unat_offset [word_nat]: "unat p + i < 2 ^ 64 \<Longrightarrow> unat (p + of_nat i :: u64) = unat p + i"
proof -
  assume a: "unat p + i < 2 ^ 64"
  then have "i < 2 ^ 64" by linarith
  then have "unat (of_nat i :: u64) = i" by (simp add: unat_of_nat)
  then show ?thesis using a by (simp add: unat_plus_small)
qed

lemma unat_ucast_up [word_nat]:
  assumes "LENGTH('a) \<le> LENGTH('b)"
  shows "unat (ucast (x :: 'a::len word) :: 'b::len word) = unat x"
proof -
  have "(2::nat) ^ LENGTH('a) \<le> 2 ^ LENGTH('b)" using assms by (intro power_increasing) simp_all
  then have "unat x < 2 ^ LENGTH('b)" using unat_less_exp [of x] by linarith
  then show ?thesis by (simp add: unsigned_ucast_eq take_bit_nat_eq_self)
qed

text \<open>A counter below a bound does not wrap, which ends every counting loop.\<close>

lemma unat_inc [word_nat]: "i < (t :: 'a::len word) \<Longrightarrow> unat (i + 1) = Suc (unat i)"
proof -
  assume "i < t"
  then have "Suc (unat i) \<le> unat t" by (simp add: word_less_nat_alt)
  then have "Suc (unat i) < 2 ^ LENGTH('a)" using unat_less_exp [of t] by linarith
  then show ?thesis by (simp add: unat_word_ariths)
qed

lemma inc_decreases: "i < (t :: 'a::len word) \<Longrightarrow> unat t - unat (i + 1) < unat t - unat i"
  using unat_inc [of i t] by (simp add: word_less_nat_alt)

lemma and_not_mask_eq:
  fixes x :: "'a::len word"
  shows "x AND NOT (mask n) = push_bit n (drop_bit n x)"
  by (rule bit_eqI) (auto simp: bit_simps)

lemma unat_and_not_mask:
  fixes x :: "'a::len word"
  shows "unat (x AND NOT (mask n)) = (unat x div 2 ^ n) * 2 ^ n"
proof -
  have "unat x div 2 ^ n * 2 ^ n \<le> unat x" by simp
  also have "unat x < 2 ^ LENGTH('a)" by simp
  finally have lt: "unat x div 2 ^ n * 2 ^ n < 2 ^ LENGTH('a)" .
  have "unat (push_bit n (drop_bit n x)) = take_bit LENGTH('a) (push_bit n (unat (drop_bit n x)))"
    by (simp add: unsigned_push_bit_eq)
  also have "\<dots> = take_bit LENGTH('a) (unat x div 2 ^ n * 2 ^ n)"
    by (simp only: unat_drop_bit_eq) (simp only: drop_bit_eq_div push_bit_eq_mult)
  also have "\<dots> = unat x div 2 ^ n * 2 ^ n"
    using lt by (simp add: take_bit_nat_eq_self)
  finally show ?thesis by (simp add: and_not_mask_eq)
qed

lemma unat_and_mask:
  fixes x :: "'a::len word"
  shows "unat (x AND mask n) = unat x mod 2 ^ n"
  unfolding take_bit_eq_mask [symmetric] unsigned_take_bit_eq by (rule take_bit_eq_mod)

lemma unat_drop_bit [word_nat]: "unat (drop_bit n (w :: 'a::len word)) = unat w div 2 ^ n"
  unfolding unat_drop_bit_eq by (rule drop_bit_eq_div)

lemma unat_mask: "unat (mask n :: 'a::len word) = mask (min LENGTH('a) n)"
  by (simp only: unat_eq_nat_uint uint_mask_eq nat_mask_eq)

lemma minus_one_eq_mask:
  shows "(2 ^ n :: 'a::len word) - 1 = mask n"
  by (simp add: mask_eq_decr_exp)

lemma page_masks:
  "(0xFFF :: u64) = mask 12" "(0x1FFFFF :: u64) = mask 21" "(0x1FF :: u64) = mask 9"
  "(0xFF :: u64) = mask 8" "(15 :: u64) = mask 4"
  by (simp_all add: mask_eq_decr_exp)

text \<open>
  \<open>ALIGN\<close> rounds up to the next multiple of a power of two, as long as the addition in the macro
  does not wrap around.
\<close>

lemma unat_ALIGN [word_nat]:
  assumes "n < 64" and "unat x + (2 ^ n - 1) < 2 ^ 64"
  shows "unat (ALIGN (2 ^ n) x) = ((unat x + (2 ^ n - 1)) div 2 ^ n) * 2 ^ n"
proof -
  have m: "unat (mask n :: u64) = 2 ^ n - 1"
    using assms(1) by (simp only: unat_mask) (simp add: min_def mask_eq_exp_minus_1)
  have "unat (x + mask n) = unat x + (2 ^ n - 1)"
    using assms(2) by (simp add: unat_word_ariths m)
  then show ?thesis
    by (simp add: ALIGN_def minus_one_eq_mask unat_and_not_mask)
qed

lemma round_up_bounds:
  fixes x m :: nat
  assumes "0 < m"
  shows "x \<le> ((x + (m - 1)) div m) * m" and "((x + (m - 1)) div m) * m < x + m"
    and "m dvd ((x + (m - 1)) div m) * m"
proof -
  let ?s = "x + (m - 1)"
  have "?s div m * m + ?s mod m = ?s" by simp
  moreover have "?s mod m \<le> m - 1" using assms by (metis Suc_pred' less_Suc_eq_le mod_less_divisor)
  ultimately show "x \<le> ?s div m * m" by linarith
  have "?s div m * m \<le> ?s" by simp
  with assms show "?s div m * m < x + m" by linarith
  show "m dvd ?s div m * m" by simp
qed

section \<open>Characters\<close>

lemma unat_of_char [simp]: "unat (of_char c :: u8) = of_char c"
proof -
  have "unat (of_nat (of_char c) :: u8) = of_char c" by (simp add: unat_of_nat)
  then show ?thesis by (simp only: of_nat_of_char)
qed

lemma char_of_byte [simp]: "char_of (unat (of_char c :: u8)) = c"
  by simp

section \<open>Lists\<close>

lemma nth_list_update_if:
  "j < length xs \<Longrightarrow> xs[i := v] ! j = (if i = j then v else xs ! j)"
  by (cases "i = j") simp_all

lemma find_append:
  "find P (xs @ ys) = (case find P xs of None \<Rightarrow> find P ys | Some x \<Rightarrow> Some x)"
  by (induction xs) simp_all

lemma takeWhile_append_stop:
  "list_all P xs \<Longrightarrow> \<not> P y \<Longrightarrow> takeWhile P (xs @ y # ys) = xs"
  by (induction xs) simp_all

lemma dropWhile_append_stop:
  "list_all P xs \<Longrightarrow> \<not> P y \<Longrightarrow> dropWhile P (xs @ y # ys) = y # ys"
  by (induction xs) simp_all

end
