(* ===== verification/Avl.thy ===== *)
theory Avl
  imports Prelude
begin

text \<open>
  The intrusive AVL tree of \<^verbatim>\<open>src/datatype/avl.c\<close>.

  A node owns its two subtrees and nothing else points into the tree, so a pointer to a node is
  modelled by the tree rooted there: \<open>AvlNil\<close> is \<^verbatim>\<open>NULL\<close>, and \<open>AvlNode l a h r\<close> is a node with
  children \<open>l\<close> and \<open>r\<close>, the stored \<^verbatim>\<open>height\<close> field \<open>h\<close> and the structure \<open>a\<close> it is embedded in
  (the C code reaches it with \<^verbatim>\<open>GET_CONTAINER\<close>). The callbacks are a record of functions: \<open>compare\<close>
  orders two containers, \<open>update\<close> recomputes the fields of a container from its two subtrees; a
  \<^verbatim>\<open>NULL\<close> update callback is \<open>None\<close>. Heights are C \<^verbatim>\<open>int\<close>s no larger than the number of nodes.

  The locale \<open>avl_order\<close> states what a client's callbacks promise; inside it the operations are
  shown to implement ordered lists of containers and to keep the tree balanced and every container
  up to date.
\<close>

section \<open>Nodes and callbacks\<close>

datatype 'a avl_node = AvlNil | AvlNode "'a avl_node" 'a int "'a avl_node"

record 'a avl_callbacks =
  compare :: "'a \<Rightarrow> 'a \<Rightarrow> int"
  update :: "('a avl_node \<Rightarrow> 'a \<Rightarrow> 'a avl_node \<Rightarrow> 'a) option"

fun AVL_GET_HEIGHT :: "'a avl_node \<Rightarrow> int" where
  "AVL_GET_HEIGHT AvlNil = 0"
| "AVL_GET_HEIGHT (AvlNode l a h r) = h"

fun AVL_GET_BALANCE :: "'a avl_node \<Rightarrow> int" where
  "AVL_GET_BALANCE AvlNil = 0"
| "AVL_GET_BALANCE (AvlNode l a h r) = AVL_GET_HEIGHT l - AVL_GET_HEIGHT r"

definition apply_update :: "'a avl_callbacks \<Rightarrow> 'a avl_node \<Rightarrow> 'a \<Rightarrow> 'a avl_node \<Rightarrow> 'a" where
  "apply_update cb l a r = (case update cb of None \<Rightarrow> a | Some u \<Rightarrow> u l a r)"

fun update_node :: "'a avl_callbacks \<Rightarrow> 'a avl_node \<Rightarrow> 'a avl_node" where
  "update_node cb AvlNil = AvlNil"
| "update_node cb (AvlNode l a h r) =
     (let lh = AVL_GET_HEIGHT l; rh = AVL_GET_HEIGHT r
      in AvlNode l (apply_update cb l a r) (1 + (if lh > rh then lh else rh)) r)"

section \<open>Rotations and rebalancing\<close>

text \<open>
  The rotations dereference the child they lift. The callers test the balance factor first, so the
  child exists; the remaining equations only make the functions total.
\<close>

fun rotate_right :: "'a avl_callbacks \<Rightarrow> 'a avl_node \<Rightarrow> 'a avl_node" where
  "rotate_right cb (AvlNode (AvlNode xl x xh t) y yh yr) =
     update_node cb (AvlNode xl x xh (update_node cb (AvlNode t y yh yr)))"
| "rotate_right cb n = n"

fun rotate_left :: "'a avl_callbacks \<Rightarrow> 'a avl_node \<Rightarrow> 'a avl_node" where
  "rotate_left cb (AvlNode xl x xh (AvlNode t y yh yr)) =
     update_node cb (AvlNode (update_node cb (AvlNode xl x xh t)) y yh yr)"
| "rotate_left cb n = n"

fun set_left :: "'a avl_node \<Rightarrow> 'a avl_node \<Rightarrow> 'a avl_node" where
  "set_left (AvlNode l a h r) l' = AvlNode l' a h r"
| "set_left AvlNil l' = AvlNil"

fun set_right :: "'a avl_node \<Rightarrow> 'a avl_node \<Rightarrow> 'a avl_node" where
  "set_right (AvlNode l a h r) r' = AvlNode l a h r'"
| "set_right AvlNil r' = AvlNil"

fun left :: "'a avl_node \<Rightarrow> 'a avl_node" where
  "left (AvlNode l a h r) = l"
| "left AvlNil = AvlNil"

fun right :: "'a avl_node \<Rightarrow> 'a avl_node" where
  "right (AvlNode l a h r) = r"
| "right AvlNil = AvlNil"

definition rebalance :: "'a avl_callbacks \<Rightarrow> 'a avl_node \<Rightarrow> 'a avl_node" where
  "rebalance cb n0 =
     (let n = update_node cb n0; bal = AVL_GET_BALANCE n in
      if bal > 1 then
        rotate_right cb (if AVL_GET_BALANCE (left n) < 0
                         then set_left n (rotate_left cb (left n)) else n)
      else if bal < -1 then
        rotate_left cb (if AVL_GET_BALANCE (right n) > 0
                        then set_right n (rotate_right cb (right n)) else n)
      else n)"

section \<open>Insertion, deletion and search\<close>

text \<open>
  \<open>unlink_leftmost\<close> is called on a node, never on \<^verbatim>\<open>NULL\<close>: it takes the node's fields. Its second
  result is the unlinked node (container and stored height).
\<close>

fun unlink_leftmost ::
  "'a avl_callbacks \<Rightarrow> 'a avl_node \<Rightarrow> 'a \<Rightarrow> int \<Rightarrow> 'a avl_node \<Rightarrow> 'a avl_node \<times> 'a \<times> int" where
  "unlink_leftmost cb AvlNil a h r = (r, a, h)"
| "unlink_leftmost cb (AvlNode ll la lh lr) a h r =
     (case unlink_leftmost cb ll la lh lr of
        (l', out) \<Rightarrow> (rebalance cb (AvlNode l' a h r), out))"

text \<open>\<open>avl_insert cb root n\<close> inserts the detached container \<open>n\<close> (its links are \<^verbatim>\<open>NULL\<close>).\<close>

fun avl_insert :: "'a avl_callbacks \<Rightarrow> 'a avl_node \<Rightarrow> 'a \<Rightarrow> 'a avl_node" where
  "avl_insert cb AvlNil n = update_node cb (AvlNode AvlNil n 0 AvlNil)"
| "avl_insert cb (AvlNode l a h r) n =
     (let cmp = compare cb n a in
      if cmp < 0 then rebalance cb (AvlNode (avl_insert cb l n) a h r)
      else if cmp > 0 then rebalance cb (AvlNode l a h (avl_insert cb r n))
      else AvlNode l a h r)"

text \<open>\<open>avl_delete\<close> threads the out-parameter: the container removed, or the value passed in.\<close>

fun avl_delete ::
  "'a avl_callbacks \<Rightarrow> 'a avl_node \<Rightarrow> 'a \<Rightarrow> 'a option \<Rightarrow> 'a avl_node \<times> 'a option" where
  "avl_delete cb AvlNil key out = (AvlNil, out)"
| "avl_delete cb (AvlNode l a h r) key out =
     (let cmp = compare cb key a in
      if cmp < 0 then
        (case avl_delete cb l key out of (l', out') \<Rightarrow> (rebalance cb (AvlNode l' a h r), out'))
      else if cmp > 0 then
        (case avl_delete cb r key out of (r', out') \<Rightarrow> (rebalance cb (AvlNode l a h r'), out'))
      else
        (case l of
           AvlNil \<Rightarrow> (r, Some a)
         | _ \<Rightarrow>
           (case r of
              AvlNil \<Rightarrow> (l, Some a)
            | AvlNode rl ra rh rr \<Rightarrow>
                (case unlink_leftmost cb rl ra rh rr of
                   (new_right, succ, sh) \<Rightarrow> (rebalance cb (AvlNode l succ sh new_right), Some a)))))"

fun avl_find :: "'a avl_callbacks \<Rightarrow> 'a avl_node \<Rightarrow> 'a \<Rightarrow> 'a option" where
  "avl_find cb AvlNil key = None"
| "avl_find cb (AvlNode l a h r) key =
     (let cmp = compare cb key a in
      if cmp < 0 then avl_find cb l key
      else if cmp > 0 then avl_find cb r key
      else Some a)"

fun avl_get_min :: "'a avl_node \<Rightarrow> 'a option" where
  "avl_get_min AvlNil = None"
| "avl_get_min (AvlNode AvlNil a h r) = Some a"
| "avl_get_min (AvlNode l a h r) = avl_get_min l"

fun avl_get_max :: "'a avl_node \<Rightarrow> 'a option" where
  "avl_get_max AvlNil = None"
| "avl_get_max (AvlNode l a h AvlNil) = Some a"
| "avl_get_max (AvlNode l a h r) = avl_get_max r"

section \<open>Abstraction and invariants\<close>

fun inorder :: "'a avl_node \<Rightarrow> 'a list" where
  "inorder AvlNil = []"
| "inorder (AvlNode l a h r) = inorder l @ a # inorder r"

fun tree_height :: "'a avl_node \<Rightarrow> nat" where
  "tree_height AvlNil = 0"
| "tree_height (AvlNode l a h r) = Suc (max (tree_height l) (tree_height r))"

text \<open>Every stored height and every container agrees with the subtrees below it.\<close>

fun avl_fresh :: "'a avl_callbacks \<Rightarrow> 'a avl_node \<Rightarrow> bool" where
  "avl_fresh cb AvlNil = True"
| "avl_fresh cb (AvlNode l a h r) =
     (avl_fresh cb l \<and> avl_fresh cb r \<and>
      h = 1 + max (AVL_GET_HEIGHT l) (AVL_GET_HEIGHT r) \<and> apply_update cb l a r = a)"

fun avl_balanced :: "'a avl_node \<Rightarrow> bool" where
  "avl_balanced AvlNil = True"
| "avl_balanced (AvlNode l a h r) =
     (avl_balanced l \<and> avl_balanced r \<and> \<bar>AVL_GET_HEIGHT l - AVL_GET_HEIGHT r\<bar> \<le> 1)"

definition avl_wf :: "'a avl_callbacks \<Rightarrow> 'a avl_node \<Rightarrow> bool" where
  "avl_wf cb t \<longleftrightarrow> avl_fresh cb t \<and> avl_balanced t"

text \<open>
  The abstract operations on the ordered list of keys: insertion keeps an element that is already
  there, deletion removes the element with the given key.
\<close>

fun ins_by :: "('c \<Rightarrow> 'k::linorder) \<Rightarrow> 'c \<Rightarrow> 'c list \<Rightarrow> 'c list" where
  "ins_by k x [] = [x]"
| "ins_by k x (y # ys) =
     (if k x < k y then x # y # ys else if k y < k x then y # ins_by k x ys else y # ys)"

fun del_by :: "('c \<Rightarrow> 'k::linorder) \<Rightarrow> 'k \<Rightarrow> 'c list \<Rightarrow> 'c list" where
  "del_by k x [] = []"
| "del_by k x (y # ys) = (if k y = x then ys else y # del_by k x ys)"

abbreviation sorted_by :: "('c \<Rightarrow> 'k::linorder) \<Rightarrow> 'c list \<Rightarrow> bool" where
  "sorted_by k xs \<equiv> sorted_wrt (\<lambda>a b. k a < k b) xs"

lemma set_ins_by: "set (ins_by k x ys) \<subseteq> insert x (set ys)"
  by (induction ys) auto

lemma sorted_ins_by: "sorted_by k ys \<Longrightarrow> sorted_by k (ins_by k x ys)"
proof (induction ys)
  case (Cons y ys)
  then show ?case using set_ins_by [of k x ys] by fastforce
qed simp

lemma set_del_by: "set (del_by k x ys) \<subseteq> set ys"
  by (induction ys) auto

lemma sorted_del_by: "sorted_by k ys \<Longrightarrow> sorted_by k (del_by k x ys)"
proof (induction ys)
  case (Cons y ys)
  then show ?case using set_del_by [of k x ys] by auto
qed simp

lemma ins_by_append:
  assumes "sorted_by k (xs @ y # ys)"
  shows "ins_by k x (xs @ y # ys) =
    (if k x < k y then ins_by k x xs @ y # ys
     else if k y < k x then xs @ y # ins_by k x ys else xs @ y # ys)"
  using assms by (induction xs) auto

lemma del_by_notin: "x \<notin> k ` set ys \<Longrightarrow> del_by k x ys = ys"
  by (induction ys) auto

lemma del_by_append:
  assumes "sorted_by k (xs @ y # ys)"
  shows "del_by k x (xs @ y # ys) =
    (if x < k y then del_by k x xs @ y # ys
     else if k y < x then xs @ y # del_by k x ys else xs @ ys)"
  using assms
proof (induction xs)
  case Nil
  then show ?case by (auto intro!: del_by_notin dest: less_trans)
next
  case (Cons z xs)
  then show ?case by auto
qed

section \<open>Structural lemmas\<close>

lemma inorder_Nil_iff [simp]: "inorder t = [] \<longleftrightarrow> t = AvlNil"
  by (cases t) auto

lemma get_min_hd: "avl_get_min t = (if t = AvlNil then None else Some (hd (inorder t)))"
  by (induction t rule: avl_get_min.induct) (auto simp: hd_append)

lemma get_max_last: "avl_get_max t = (if t = AvlNil then None else Some (last (inorder t)))"
  by (induction t rule: avl_get_max.induct) (auto simp: last_append)

lemma height_cases:
  "avl_fresh cb t \<Longrightarrow> 0 \<le> AVL_GET_HEIGHT t \<and> (AVL_GET_HEIGHT t = 0 \<longleftrightarrow> t = AvlNil)"
  by (induction t) auto

lemma height_nonneg: "avl_fresh cb t \<Longrightarrow> 0 \<le> AVL_GET_HEIGHT t"
  by (simp add: height_cases)

lemma fresh_tree_height: "avl_fresh cb t \<Longrightarrow> AVL_GET_HEIGHT t = int (tree_height t)"
  by (induction t) auto

lemma update_node_height [simp]:
  "AVL_GET_HEIGHT (update_node cb (AvlNode l a h r)) = 1 + max (AVL_GET_HEIGHT l) (AVL_GET_HEIGHT r)"
  by (simp add: Let_def max_def)

lemma update_node_balanced [simp]:
  "avl_balanced (update_node cb (AvlNode l a h r)) =
     (avl_balanced l \<and> avl_balanced r \<and> \<bar>AVL_GET_HEIGHT l - AVL_GET_HEIGHT r\<bar> \<le> 1)"
  by (simp add: Let_def)

lemma rebalance_node:
  "rebalance cb (AvlNode l a h r) =
     (let a' = apply_update cb l a r; h' = 1 + max (AVL_GET_HEIGHT l) (AVL_GET_HEIGHT r) in
      if AVL_GET_HEIGHT l - AVL_GET_HEIGHT r > 1 then
        rotate_right cb (AvlNode (if AVL_GET_BALANCE l < 0 then rotate_left cb l else l) a' h' r)
      else if AVL_GET_HEIGHT l - AVL_GET_HEIGHT r < -1 then
        rotate_left cb (AvlNode l a' h' (if AVL_GET_BALANCE r > 0 then rotate_right cb r else r))
      else update_node cb (AvlNode l a h r))"
  by (simp add: rebalance_def Let_def max_def)

lemma rotate_updated_child [simp]:
  "rotate_right cb (AvlNode (update_node cb (AvlNode xl x xh t)) y yh yr) =
     update_node cb (AvlNode xl (apply_update cb xl x t)
       (1 + max (AVL_GET_HEIGHT xl) (AVL_GET_HEIGHT t)) (update_node cb (AvlNode t y yh yr)))"
  "rotate_left cb (AvlNode xl x xh (update_node cb (AvlNode t y yh yr))) =
     update_node cb (AvlNode (update_node cb (AvlNode xl x xh t)) (apply_update cb t y yr)
       (1 + max (AVL_GET_HEIGHT t) (AVL_GET_HEIGHT yr)) yr)"
  by (simp_all add: Let_def max_def)

declare update_node.simps(2) [simp del]

text \<open>How far the height of a rebalanced node can be from the heights of its subtrees.\<close>

definition rebalanced_height :: "int \<Rightarrow> int \<Rightarrow> int \<Rightarrow> bool" where
  "rebalanced_height a b x \<longleftrightarrow>
     max a b \<le> x \<and> x \<le> 1 + max a b \<and> (\<bar>a - b\<bar> \<le> 1 \<longrightarrow> x = 1 + max a b)"

lemma rebalanced_height_grow:
  assumes "\<bar>l - r\<bar> \<le> 1"
  shows "a \<in> {l, l + 1} \<Longrightarrow> rebalanced_height a r x \<Longrightarrow> x \<in> {1 + max l r, 1 + max l r + 1}"
    and "b \<in> {r, r + 1} \<Longrightarrow> rebalanced_height l b x \<Longrightarrow> x \<in> {1 + max l r, 1 + max l r + 1}"
  using assms unfolding rebalanced_height_def max_def by (auto split: if_splits)

lemma rebalanced_height_shrink:
  assumes "\<bar>l - r\<bar> \<le> 1"
  shows "a \<in> {l - 1, l} \<Longrightarrow> rebalanced_height a r x \<Longrightarrow> x \<in> {1 + max l r - 1, 1 + max l r}"
    and "b \<in> {r - 1, r} \<Longrightarrow> rebalanced_height l b x \<Longrightarrow> x \<in> {1 + max l r - 1, 1 + max l r}"
  using assms unfolding rebalanced_height_def max_def by (auto split: if_splits)

text \<open>
  What a client's callbacks promise: \<open>compare\<close> orders the containers by a key of the part \<open>core\<close>
  that \<open>update\<close> leaves alone, and updating twice changes nothing.
\<close>

locale avl_order =
  fixes cb :: "'a avl_callbacks"
    and core :: "'a \<Rightarrow> 'c"
    and key :: "'c \<Rightarrow> 'k::linorder"
  assumes compare_less: "compare cb a b < 0 \<longleftrightarrow> key (core a) < key (core b)"
    and compare_greater: "compare cb a b > 0 \<longleftrightarrow> key (core b) < key (core a)"
    and core_update: "core (apply_update cb l a r) = core a"
    and update_idem: "apply_update cb l (apply_update cb l a r) r = apply_update cb l a r"
begin

definition cores :: "'a avl_node \<Rightarrow> 'c list" where
  "cores t = map core (inorder t)"

lemma cores_simps [simp]:
  "cores AvlNil = []"
  "cores (AvlNode l a h r) = cores l @ core a # cores r"
  by (simp_all add: cores_def)

lemma cores_update_node [simp]: "cores (update_node cb t) = cores t"
  by (cases t) (simp_all add: update_node.simps Let_def core_update)

lemma cores_rotate [simp]:
  "cores (rotate_right cb t) = cores t" "cores (rotate_left cb t) = cores t"
proof -
  show "cores (rotate_right cb t) = cores t"
    by (cases "(cb, t)" rule: rotate_right.cases) simp_all
  show "cores (rotate_left cb t) = cores t"
    by (cases "(cb, t)" rule: rotate_left.cases) simp_all
qed

lemma cores_set_child:
  "cores l' = cores (left t) \<Longrightarrow> cores (set_left t l') = cores t"
  "cores r' = cores (right t) \<Longrightarrow> cores (set_right t r') = cores t"
  by (cases t, simp_all)+

lemma cores_rebalance [simp]: "cores (rebalance cb t) = cores t"
  by (simp add: rebalance_def Let_def cores_set_child)

lemma cores_insert:
  "sorted_by key (cores t) \<Longrightarrow> cores (avl_insert cb t n) = ins_by key (core n) (cores t)"
proof (induction t)
  case (AvlNode l a h r)
  then show ?case
    by (auto simp: Let_def ins_by_append compare_less compare_greater sorted_wrt_append)
qed (simp add: Let_def core_update)

lemma cores_unlink_leftmost:
  "unlink_leftmost cb l a h r = (t, s, sh) \<Longrightarrow> core s # cores t = cores l @ core a # cores r"
  by (induction l arbitrary: a h r t s sh) (fastforce split: prod.splits)+

lemma compare_zero: "\<not> compare cb a b < 0 \<Longrightarrow> \<not> compare cb a b > 0 \<Longrightarrow> key (core a) = key (core b)"
  by (simp add: compare_less compare_greater)

lemma cores_delete:
  "sorted_by key (cores t) \<Longrightarrow>
     cores (fst (avl_delete cb t k out)) = del_by key (key (core k)) (cores t)"
proof (induction t)
  case (AvlNode l a h r)
  show ?case
  proof (cases "compare cb k a < 0 \<or> compare cb k a > 0")
    case True
    with AvlNode show ?thesis
      by (auto simp: Let_def del_by_append compare_less compare_greater sorted_wrt_append
          split: prod.splits)
  next
    case False
    then have "key (core k) = key (core a)" using compare_zero by blast
    with False AvlNode.prems show ?thesis
      by (auto simp: Let_def del_by_append split: prod.splits avl_node.splits
          dest!: cores_unlink_leftmost)
  qed
qed simp

lemma delete_out:
  "snd (avl_delete cb t k out) = (case avl_find cb t k of None \<Rightarrow> out | Some a \<Rightarrow> Some a)"
proof (induction t)
  case (AvlNode l a h r)
  consider (lt) "compare cb k a < 0" | (gt) "compare cb k a > 0" | (eq) "compare cb k a = 0"
    by linarith
  then show ?case
  proof cases
    case lt
    with AvlNode.IH(1) show ?thesis by (simp add: Let_def case_prod_unfold)
  next
    case gt
    with AvlNode.IH(2) show ?thesis by (simp add: Let_def case_prod_unfold)
  next
    case eq
    then show ?thesis by (cases l; cases r) (simp_all add: Let_def case_prod_unfold)
  qed
qed simp

lemma find_sorted:
  "sorted_by key (cores t) \<Longrightarrow>
     map_option core (avl_find cb t k) = find (\<lambda>c. key c = key (core k)) (cores t)"
proof (induction t)
  case (AvlNode l a h r)
  have L: "find (\<lambda>c. key c = key (core k)) (cores l) = None" if "\<not> key (core k) < key (core a)"
    using AvlNode.prems that by (fastforce simp: find_None_iff sorted_wrt_append)
  have R: "find (\<lambda>c. key c = key (core k)) (cores r) = None" if "\<not> key (core a) < key (core k)"
    using AvlNode.prems that by (fastforce simp: find_None_iff sorted_wrt_append)
  show ?case
    using AvlNode L R
    by (auto simp: Let_def find_append compare_less compare_greater sorted_wrt_append
        split: option.splits)
qed simp

lemma fresh_update_node [simp]:
  "avl_fresh cb (update_node cb (AvlNode l a h r)) = (avl_fresh cb l \<and> avl_fresh cb r)"
  by (auto simp: update_node.simps Let_def update_idem max_def)

text \<open>Rebalancing repairs a difference of two; the height grows by at most one.\<close>

lemma rebalance_left_heavy:
  assumes l: "avl_wf cb l" and r: "avl_wf cb r"
    and d: "AVL_GET_HEIGHT l = AVL_GET_HEIGHT r + 2"
  shows "avl_wf cb (rebalance cb (AvlNode l a h r)) \<and>
    AVL_GET_HEIGHT (rebalance cb (AvlNode l a h r)) \<in> {AVL_GET_HEIGHT l, AVL_GET_HEIGHT l + 1}"
proof -
  obtain ll la lh lr where L: "l = AvlNode ll la lh lr"
    using d height_nonneg [of cb r] r by (cases l) (auto simp: avl_wf_def)
  show ?thesis
  proof (cases "AVL_GET_HEIGHT ll < AVL_GET_HEIGHT lr")
    case False
    then show ?thesis using assms
      by (auto simp: rebalance_node Let_def L avl_wf_def)
  next
    case True
    then obtain m1 m mh m2 where M: "lr = AvlNode m1 m mh m2"
      using l height_nonneg [of cb ll] by (cases lr) (auto simp: L avl_wf_def)
    show ?thesis using assms True
      by (auto simp: rebalance_node Let_def L M avl_wf_def)
  qed
qed

lemma rebalance_right_heavy:
  assumes l: "avl_wf cb l" and r: "avl_wf cb r"
    and d: "AVL_GET_HEIGHT r = AVL_GET_HEIGHT l + 2"
  shows "avl_wf cb (rebalance cb (AvlNode l a h r)) \<and>
    AVL_GET_HEIGHT (rebalance cb (AvlNode l a h r)) \<in> {AVL_GET_HEIGHT r, AVL_GET_HEIGHT r + 1}"
proof -
  obtain rl ra rh rr where R: "r = AvlNode rl ra rh rr"
    using d height_nonneg [of cb l] l by (cases r) (auto simp: avl_wf_def)
  show ?thesis
  proof (cases "AVL_GET_HEIGHT rr < AVL_GET_HEIGHT rl")
    case False
    then show ?thesis using assms
      by (auto simp: rebalance_node Let_def R avl_wf_def)
  next
    case True
    then obtain m1 m mh m2 where M: "rl = AvlNode m1 m mh m2"
      using r height_nonneg [of cb rr] by (cases rl) (auto simp: R avl_wf_def)
    show ?thesis using assms True
      by (auto simp: rebalance_node Let_def R M avl_wf_def)
  qed
qed

lemma rebalance_even:
  assumes "avl_wf cb l" and "avl_wf cb r" and "\<bar>AVL_GET_HEIGHT l - AVL_GET_HEIGHT r\<bar> \<le> 1"
  shows "avl_wf cb (rebalance cb (AvlNode l a h r)) \<and>
    AVL_GET_HEIGHT (rebalance cb (AvlNode l a h r)) = 1 + max (AVL_GET_HEIGHT l) (AVL_GET_HEIGHT r)"
  using assms by (auto simp: rebalance_node Let_def avl_wf_def)

lemma rebalance_wf:
  assumes "avl_wf cb l" and "avl_wf cb r" and "\<bar>AVL_GET_HEIGHT l - AVL_GET_HEIGHT r\<bar> \<le> 2"
  shows "avl_wf cb (rebalance cb (AvlNode l a h r))"
    and "rebalanced_height (AVL_GET_HEIGHT l) (AVL_GET_HEIGHT r)
           (AVL_GET_HEIGHT (rebalance cb (AvlNode l a h r)))"
proof -
  consider "AVL_GET_HEIGHT l = AVL_GET_HEIGHT r + 2" | "AVL_GET_HEIGHT r = AVL_GET_HEIGHT l + 2"
    | "\<bar>AVL_GET_HEIGHT l - AVL_GET_HEIGHT r\<bar> \<le> 1"
    using assms(3) by linarith
  then have "avl_wf cb (rebalance cb (AvlNode l a h r)) \<and>
    rebalanced_height (AVL_GET_HEIGHT l) (AVL_GET_HEIGHT r)
      (AVL_GET_HEIGHT (rebalance cb (AvlNode l a h r)))"
    using rebalance_left_heavy [of l r a h] rebalance_right_heavy [of l r a h]
      rebalance_even [of l r a h] assms(1,2) unfolding rebalanced_height_def
    by cases auto
  then show "avl_wf cb (rebalance cb (AvlNode l a h r))"
    and "rebalanced_height (AVL_GET_HEIGHT l) (AVL_GET_HEIGHT r)
           (AVL_GET_HEIGHT (rebalance cb (AvlNode l a h r)))"
    by blast+
qed

lemma wf_node:
  "avl_wf cb (AvlNode l a h r) \<Longrightarrow>
     avl_wf cb l \<and> avl_wf cb r \<and> \<bar>AVL_GET_HEIGHT l - AVL_GET_HEIGHT r\<bar> \<le> 1 \<and>
     h = 1 + max (AVL_GET_HEIGHT l) (AVL_GET_HEIGHT r)"
  by (auto simp: avl_wf_def)

lemma insert_wf:
  "avl_wf cb t \<Longrightarrow> avl_wf cb (avl_insert cb t n) \<and>
     AVL_GET_HEIGHT (avl_insert cb t n) \<in> {AVL_GET_HEIGHT t, AVL_GET_HEIGHT t + 1}"
proof (induction t)
  case (AvlNode l a h r)
  have wf: "avl_wf cb l" "avl_wf cb r" and bal: "\<bar>AVL_GET_HEIGHT l - AVL_GET_HEIGHT r\<bar> \<le> 1"
    and h: "h = 1 + max (AVL_GET_HEIGHT l) (AVL_GET_HEIGHT r)"
    using wf_node [OF AvlNode.prems] by auto
  have L: "avl_wf cb (avl_insert cb l n)"
    "AVL_GET_HEIGHT (avl_insert cb l n) \<in> {AVL_GET_HEIGHT l, AVL_GET_HEIGHT l + 1}"
    using AvlNode.IH(1) wf by blast+
  have R: "avl_wf cb (avl_insert cb r n)"
    "AVL_GET_HEIGHT (avl_insert cb r n) \<in> {AVL_GET_HEIGHT r, AVL_GET_HEIGHT r + 1}"
    using AvlNode.IH(2) wf by blast+
  have dl: "\<bar>AVL_GET_HEIGHT (avl_insert cb l n) - AVL_GET_HEIGHT r\<bar> \<le> 2" using L(2) bal by auto
  have dr: "\<bar>AVL_GET_HEIGHT l - AVL_GET_HEIGHT (avl_insert cb r n)\<bar> \<le> 2" using R(2) bal by auto
  have "AVL_GET_HEIGHT (rebalance cb (AvlNode (avl_insert cb l n) a h r)) \<in> {h, h + 1}"
    using rebalanced_height_grow(1) [OF bal L(2) rebalance_wf(2) [OF L(1) wf(2) dl]]
    by (simp only: h)
  moreover have "AVL_GET_HEIGHT (rebalance cb (AvlNode l a h (avl_insert cb r n))) \<in> {h, h + 1}"
    using rebalanced_height_grow(2) [OF bal R(2) rebalance_wf(2) [OF wf(1) R(1) dr]]
    by (simp only: h)
  ultimately show ?case
    using rebalance_wf(1) [OF L(1) wf(2) dl] rebalance_wf(1) [OF wf(1) R(1) dr] AvlNode.prems
    by (simp add: Let_def)
qed (simp add: avl_wf_def)

lemma unlink_leftmost_wf:
  "avl_wf cb l \<Longrightarrow> avl_wf cb r \<Longrightarrow> \<bar>AVL_GET_HEIGHT l - AVL_GET_HEIGHT r\<bar> \<le> 1 \<Longrightarrow>
     unlink_leftmost cb l a h r = (t, s) \<Longrightarrow>
     avl_wf cb t \<and> AVL_GET_HEIGHT t \<in>
       {1 + max (AVL_GET_HEIGHT l) (AVL_GET_HEIGHT r) - 1, 1 + max (AVL_GET_HEIGHT l) (AVL_GET_HEIGHT r)}"
proof (induction l arbitrary: a h r t s)
  case AvlNil
  then show ?case using height_nonneg [of cb r] by (auto simp: avl_wf_def)
next
  case (AvlNode ll la lh lr)
  obtain l' s' where u: "unlink_leftmost cb ll la lh lr = (l', s')" by (cases "unlink_leftmost cb ll la lh lr")
  note lw = wf_node [OF AvlNode.prems(1)]
  have l': "avl_wf cb l'" "AVL_GET_HEIGHT l' \<in> {lh - 1, lh}"
    using AvlNode.IH(1) [OF _ _ _ u] lw by simp_all
  have t: "t = rebalance cb (AvlNode l' a h r)" using AvlNode.prems(4) u by simp
  have bal: "\<bar>lh - AVL_GET_HEIGHT r\<bar> \<le> 1" using AvlNode.prems(3) by simp
  have d: "\<bar>AVL_GET_HEIGHT l' - AVL_GET_HEIGHT r\<bar> \<le> 2" using l'(2) bal by auto
  show ?case
    using rebalanced_height_shrink(1) [OF bal l'(2) rebalance_wf(2) [OF l'(1) AvlNode.prems(2) d]]
      rebalance_wf(1) [OF l'(1) AvlNode.prems(2) d]
    unfolding t by simp
qed

lemma delete_root_wf:
  assumes wf: "avl_wf cb l" "avl_wf cb r" and bal: "\<bar>AVL_GET_HEIGHT l - AVL_GET_HEIGHT r\<bar> \<le> 1"
    and eq: "compare cb k a = 0"
  shows "avl_wf cb (fst (avl_delete cb (AvlNode l a h r) k out)) \<and>
    AVL_GET_HEIGHT (fst (avl_delete cb (AvlNode l a h r) k out)) \<in>
      {1 + max (AVL_GET_HEIGHT l) (AVL_GET_HEIGHT r) - 1, 1 + max (AVL_GET_HEIGHT l) (AVL_GET_HEIGHT r)}"
proof (cases "l = AvlNil \<or> r = AvlNil")
  case True
  then show ?thesis
    using eq wf bal height_nonneg [of cb l] height_nonneg [of cb r]
    by (cases l; cases r) (auto simp: avl_wf_def)
next
  case False
  then obtain ll la lh lr rl ra rh rr
    where l: "l = AvlNode ll la lh lr" and r: "r = AvlNode rl ra rh rr"
    by (cases l; cases r) auto
  obtain nr s sh where u: "unlink_leftmost cb rl ra rh rr = (nr, s, sh)"
    by (metis prod_cases3)
  have nr: "avl_wf cb nr" "AVL_GET_HEIGHT nr \<in> {AVL_GET_HEIGHT r - 1, AVL_GET_HEIGHT r}"
    using unlink_leftmost_wf [OF _ _ _ u] wf_node [OF wf(2) [unfolded r]] by (simp_all add: r)
  have d: "fst (avl_delete cb (AvlNode l a h r) k out) = rebalance cb (AvlNode l s sh nr)"
    using eq by (simp add: l r u)
  have b: "\<bar>AVL_GET_HEIGHT l - AVL_GET_HEIGHT nr\<bar> \<le> 2" using nr(2) bal by auto
  show ?thesis
    using rebalanced_height_shrink(2) [OF bal nr(2) rebalance_wf(2) [OF wf(1) nr(1) b]]
      rebalance_wf(1) [OF wf(1) nr(1) b] unfolding d by blast
qed

lemma delete_wf:
  "avl_wf cb t \<Longrightarrow> avl_wf cb (fst (avl_delete cb t k out)) \<and>
     AVL_GET_HEIGHT (fst (avl_delete cb t k out)) \<in> {AVL_GET_HEIGHT t - 1, AVL_GET_HEIGHT t}"
proof (induction t)
  case (AvlNode l a h r)
  have wf: "avl_wf cb l" "avl_wf cb r" and bal: "\<bar>AVL_GET_HEIGHT l - AVL_GET_HEIGHT r\<bar> \<le> 1"
    and h: "h = 1 + max (AVL_GET_HEIGHT l) (AVL_GET_HEIGHT r)"
    using wf_node [OF AvlNode.prems] by auto
  consider (lt) "compare cb k a < 0" | (gt) "compare cb k a > 0" | (eq) "compare cb k a = 0"
    by linarith
  then show ?case
  proof cases
    case lt
    have L: "avl_wf cb (fst (avl_delete cb l k out))"
      "AVL_GET_HEIGHT (fst (avl_delete cb l k out)) \<in> {AVL_GET_HEIGHT l - 1, AVL_GET_HEIGHT l}"
      using AvlNode.IH(1) wf by blast+
    have d: "\<bar>AVL_GET_HEIGHT (fst (avl_delete cb l k out)) - AVL_GET_HEIGHT r\<bar> \<le> 2"
      using L(2) bal by auto
    show ?thesis
      using rebalanced_height_shrink(1) [OF bal L(2) rebalance_wf(2) [OF L(1) wf(2) d]]
        rebalance_wf(1) [OF L(1) wf(2) d] lt h by (simp add: Let_def case_prod_unfold)
  next
    case gt
    have R: "avl_wf cb (fst (avl_delete cb r k out))"
      "AVL_GET_HEIGHT (fst (avl_delete cb r k out)) \<in> {AVL_GET_HEIGHT r - 1, AVL_GET_HEIGHT r}"
      using AvlNode.IH(2) wf by blast+
    have d: "\<bar>AVL_GET_HEIGHT l - AVL_GET_HEIGHT (fst (avl_delete cb r k out))\<bar> \<le> 2"
      using R(2) bal by auto
    show ?thesis
      using rebalanced_height_shrink(2) [OF bal R(2) rebalance_wf(2) [OF wf(1) R(1) d]]
        rebalance_wf(1) [OF wf(1) R(1) d] gt h by (simp add: Let_def case_prod_unfold)
  next
    case eq
    show ?thesis using delete_root_wf [OF wf bal eq] h by simp
  qed
qed (simp add: avl_wf_def)

lemmas tree_specs = cores_insert cores_delete delete_out find_sorted

end

end
