(* ===== verification/Vmm.thy ===== *)
theory Vmm
  imports Avl
begin

text \<open>
  The virtual address allocator of \<^verbatim>\<open>src/mem/vmm.c\<close>: a set of address ranges in an AVL tree ordered
  by start address and augmented with the extent of each subtree and the largest gap inside it.

  The static variables of the file are the record \<open>vmm_state\<close>. A node taken from the early pool or
  from \<^verbatim>\<open>malloc\<close> is zeroed by \<^verbatim>\<open>pool_alloc_node\<close>, so its address does not matter and the tree holds
  the nodes by value. Whether the heap can serve a node (\<^verbatim>\<open>malloc(sizeof(VMMNode))\<close> returns
  non-\<^verbatim>\<open>NULL\<close>) is the argument \<open>malloc_ok\<close>; \<^verbatim>\<open>heap.c\<close> is a client of this file.
\<close>

section \<open>Nodes\<close>

record VMMNode =
  start :: u64
  page_count :: u64
  max_gap :: u64
  subtree_start :: u64
  subtree_end :: u64
  heap_allocated :: bool

definition zero_node :: VMMNode where
  "zero_node = \<lparr>start = 0, page_count = 0, max_gap = 0, subtree_start = 0, subtree_end = 0,
                heap_allocated = False\<rparr>"

record vmm_state =
  vmm_pool_base :: u64
  vmm_pool_end :: u64
  vmm_root :: "VMMNode avl_node"
  early_pool_count :: nat
  vmm_heap_available :: bool

definition VMM_EARLY_POOL :: nat where "VMM_EARLY_POOL = 64"

definition align_up :: "u64 \<Rightarrow> u64 \<Rightarrow> u64" where
  "align_up addr align =
     (let aligned = (addr + align - 1) AND NOT (align - 1)
      in if aligned < addr then addr else aligned)"

fun VMM_MAX_GAP :: "VMMNode avl_node \<Rightarrow> u64" where
  "VMM_MAX_GAP AvlNil = 0"
| "VMM_MAX_GAP (AvlNode l a h r) = max_gap a"

fun vmm_subtree_end :: "VMMNode avl_node \<Rightarrow> u64" where
  "vmm_subtree_end AvlNil = 0"
| "vmm_subtree_end (AvlNode l a h r) = subtree_end a"

fun vmm_subtree_start :: "VMMNode avl_node \<Rightarrow> u64" where
  "vmm_subtree_start AvlNil = - 1"
| "vmm_subtree_start (AvlNode l a h r) = subtree_start a"

definition vmm_node_cmp :: "VMMNode \<Rightarrow> VMMNode \<Rightarrow> int" where
  "vmm_node_cmp va vb =
     (if start va < start vb then -1 else if start va > start vb then 1 else 0)"

definition vmm_node_update ::
  "VMMNode avl_node \<Rightarrow> VMMNode \<Rightarrow> VMMNode avl_node \<Rightarrow> VMMNode" where
  "vmm_node_update lc node rc =
     (let nend = start node + page_count node * PAGE_SIZE;
          sub_start = (case lc of AvlNil \<Rightarrow> start node | AvlNode _ l _ _ \<Rightarrow> subtree_start l);
          sub_end = (case rc of AvlNil \<Rightarrow> nend
                     | AvlNode _ r _ _ \<Rightarrow> if subtree_end r > nend then subtree_end r else nend);
          gap_il = (case lc of AvlNil \<Rightarrow> 0
                    | AvlNode _ l _ _ \<Rightarrow>
                        if start node \<ge> subtree_end l
                        then (start node - subtree_end l) div PAGE_SIZE else 0);
          gap_ir = (case rc of AvlNil \<Rightarrow> 0
                    | AvlNode _ r _ _ \<Rightarrow>
                        if subtree_start r \<ge> nend
                        then (subtree_start r - nend) div PAGE_SIZE else 0)
      in node\<lparr>subtree_start := sub_start, subtree_end := sub_end,
              max_gap := SMAX (SMAX (VMM_MAX_GAP lc) (VMM_MAX_GAP rc)) (SMAX gap_il gap_ir)\<rparr>)"

definition vmm_avl_cb :: "VMMNode avl_callbacks" where
  "vmm_avl_cb = \<lparr>compare = vmm_node_cmp, update = Some vmm_node_update\<rparr>"

section \<open>Node pool\<close>

definition pool_alloc_node :: "bool \<Rightarrow> vmm_state \<Rightarrow> (vmm_state \<times> VMMNode) outcome" where
  "pool_alloc_node malloc_ok st =
     (if vmm_heap_available st then
        (if \<not> malloc_ok then Inl (Panic ''VMM'' ''malloc failed'') else Inr (st, zero_node))
      else if early_pool_count st \<ge> VMM_EARLY_POOL then Inl (Panic ''VMM'' ''early pool exhausted'')
      else Inr (st\<lparr>early_pool_count := early_pool_count st + 1\<rparr>, zero_node))"

text \<open>Whether \<^verbatim>\<open>free(node)\<close> is called on a released node.\<close>

definition pool_free_node :: "VMMNode \<Rightarrow> bool" where
  "pool_free_node node = heap_allocated node"

definition vmm_switch_to_heap :: "vmm_state \<Rightarrow> vmm_state" where
  "vmm_switch_to_heap st = st\<lparr>vmm_heap_available := True\<rparr>"

section \<open>Allocation and release\<close>

fun vmm_find_gap :: "u64 \<Rightarrow> VMMNode avl_node \<Rightarrow> u64 \<Rightarrow> u64 \<Rightarrow> u64 \<Rightarrow> u64" where
  "vmm_find_gap pool_end AvlNil base pages align = 0"
| "vmm_find_gap pool_end (AvlNode l n h r) base pages align =
     (let span = pages * PAGE_SIZE;
          sub_start = subtree_start n;
          aligned_base = align_up base align in
      if sub_start \<ge> aligned_base + span
      then (if aligned_base + span \<le> pool_end then aligned_base else 0)
      else if max_gap n < pages then 0
      else
        (let addr = vmm_find_gap pool_end l base pages align in
         if addr \<noteq> 0 then addr
         else
           (let lend = vmm_subtree_end l;
                base1 = (if l \<noteq> AvlNil \<and> lend > base then lend else base);
                aligned1 = align_up base1 align in
            if start n \<ge> aligned1 + span
            then (if aligned1 + span \<le> pool_end then aligned1 else 0)
            else
              (let nend = start n + page_count n * PAGE_SIZE;
                   base2 = (if nend > base1 then nend else base1)
               in vmm_find_gap pool_end r base2 pages align))))"

definition vmm_init :: "u64 \<Rightarrow> u64 \<Rightarrow> nat \<Rightarrow> vmm_state" where
  "vmm_init hhdm_offset max_ram paging_level =
     \<lparr>vmm_pool_base = hhdm_offset + max_ram,
      vmm_pool_end = (if paging_level = 5 then 0xFFFFFFFFFFE00000 else 0xFFFFF00000000000),
      vmm_root = AvlNil, early_pool_count = 0, vmm_heap_available = False\<rparr>"

definition vmm_alloc_aligned ::
  "bool \<Rightarrow> u64 \<Rightarrow> u64 \<Rightarrow> vmm_state \<Rightarrow> (vmm_state \<times> u64) outcome" where
  "vmm_alloc_aligned malloc_ok count align st =
     (if count = 0 then Inr (st, 0)
      else
        (let found = vmm_find_gap (vmm_pool_end st) (vmm_root st) (vmm_pool_base st) count align;
             tail0 = (if vmm_root st \<noteq> AvlNil then vmm_subtree_end (vmm_root st)
                      else vmm_pool_base st);
             tail1 = align_up tail0 align;
             tail2 = (if tail1 < vmm_pool_base st then vmm_pool_base st else tail1);
             addr = (if found = 0 then tail2 else found) in
         if addr + count * PAGE_SIZE > vmm_pool_end st
         then Inl (Panic ''VMM'' ''out of virtual address space'')
         else and_then (pool_alloc_node malloc_ok st) (\<lambda>(st', n).
           Inr (st'\<lparr>vmm_root :=
                  avl_insert vmm_avl_cb (vmm_root st') (n\<lparr>start := addr, page_count := count\<rparr>)\<rparr>,
                addr))))"

definition vmm_alloc_pages :: "bool \<Rightarrow> u64 \<Rightarrow> vmm_state \<Rightarrow> (vmm_state \<times> u64) outcome" where
  "vmm_alloc_pages malloc_ok count st = vmm_alloc_aligned malloc_ok count PAGE_SIZE st"

definition vmm_alloc_pages_2mb :: "bool \<Rightarrow> u64 \<Rightarrow> vmm_state \<Rightarrow> (vmm_state \<times> u64) outcome" where
  "vmm_alloc_pages_2mb malloc_ok count st = vmm_alloc_aligned malloc_ok count PAGE_SIZE_2MB st"

text \<open>The third result says whether the node went back to the heap.\<close>

definition vmm_free_pages :: "u64 \<Rightarrow> u64 \<Rightarrow> vmm_state \<Rightarrow> vmm_state \<times> u64 \<times> bool" where
  "vmm_free_pages virt count st =
     (if virt = 0 then (st, 0, False)
      else if vmm_root st = AvlNil then (st, 0, False)
      else
        (case avl_delete vmm_avl_cb (vmm_root st) (zero_node\<lparr>start := virt\<rparr>) None of
           (new_root, out) \<Rightarrow>
             (let st' = st\<lparr>vmm_root := new_root\<rparr> in
              case out of
                None \<Rightarrow> (st', 0, False)
              | Some node \<Rightarrow>
                  if page_count node \<noteq> count then (st', 0, pool_free_node node)
                  else (st', start node, pool_free_node node))))"

section \<open>The tree as a list of ranges\<close>

definition range_of :: "VMMNode \<Rightarrow> u64 \<times> u64" where
  "range_of n = (start n, page_count n)"

lemma update_range: "range_of (apply_update vmm_avl_cb l a r) = range_of a"
  by (simp add: range_of_def apply_update_def vmm_avl_cb_def vmm_node_update_def Let_def)

lemma update_twice:
  "apply_update vmm_avl_cb l (apply_update vmm_avl_cb l a r) r = apply_update vmm_avl_cb l a r"
  by (cases l; cases r)
     (simp_all add: apply_update_def vmm_avl_cb_def vmm_node_update_def Let_def cong: if_cong)

interpretation vt: avl_order vmm_avl_cb range_of fst
proof
  fix a b :: VMMNode
  show "compare vmm_avl_cb a b < 0 \<longleftrightarrow> fst (range_of a) < fst (range_of b)"
    by (simp add: vmm_avl_cb_def vmm_node_cmp_def range_of_def)
  show "compare vmm_avl_cb a b > 0 \<longleftrightarrow> fst (range_of b) < fst (range_of a)"
    by (auto simp: vmm_avl_cb_def vmm_node_cmp_def range_of_def)
qed (simp_all add: update_range update_twice)

definition ranges :: "VMMNode avl_node \<Rightarrow> (u64 \<times> u64) list" where
  "ranges t = map range_of (inorder t)"

lemma cores_ranges: "vt.cores t = ranges t"
  by (simp add: vt.cores_def ranges_def)

text \<open>First byte and first byte past the end of a range, as unbounded numbers.\<close>

definition lo :: "u64 \<times> u64 \<Rightarrow> nat" where "lo p = unat (fst p)"
definition hi :: "u64 \<times> u64 \<Rightarrow> nat" where "hi p = unat (fst p) + unat (snd p) * 4096"

definition range_ok :: "nat \<Rightarrow> nat \<Rightarrow> u64 \<times> u64 \<Rightarrow> bool" where
  "range_ok b e p \<longleftrightarrow> b \<le> lo p \<and> lo p < hi p \<and> hi p \<le> e"

definition ranges_ok :: "nat \<Rightarrow> nat \<Rightarrow> (u64 \<times> u64) list \<Rightarrow> bool" where
  "ranges_ok b e ps \<longleftrightarrow> list_all (range_ok b e) ps \<and> sorted_wrt (\<lambda>p q. hi p \<le> lo q) ps"

definition vmm_inv :: "vmm_state \<Rightarrow> bool" where
  "vmm_inv st \<longleftrightarrow>
     avl_wf vmm_avl_cb (vmm_root st) \<and> 0 < unat (vmm_pool_base st) \<and>
     unat (vmm_pool_base st) \<le> unat (vmm_pool_end st) \<and>
     ranges_ok (unat (vmm_pool_base st)) (unat (vmm_pool_end st)) (ranges (vmm_root st))"

section \<open>Address arithmetic\<close>

lemma align_up_spec:
  assumes "k < 64" and "unat b + 2 ^ k < 2 ^ 64"
  shows "unat b \<le> unat (align_up b (2 ^ k))" "unat (align_up b (2 ^ k)) < unat b + 2 ^ k"
    "2 ^ k dvd unat (align_up b (2 ^ k))"
proof -
  let ?m = "(2::nat) ^ k"
  have u: "unat (ALIGN (2 ^ k) b) = (unat b + (?m - 1)) div ?m * ?m"
    using assms by (intro unat_ALIGN) auto
  have ge: "unat b \<le> unat (ALIGN (2 ^ k) b)" using round_up_bounds(1) [of ?m "unat b"] by (simp only: u) simp
  then have eq: "align_up b (2 ^ k) = ALIGN (2 ^ k) b"
    by (simp add: align_up_def ALIGN_def Let_def word_less_nat_alt add_diff_eq)
  show "unat b \<le> unat (align_up b (2 ^ k))" using ge by (simp add: eq)
  show "unat (align_up b (2 ^ k)) < unat b + 2 ^ k"
    using round_up_bounds(2) [of ?m "unat b"] by (simp only: eq u) simp
  show "2 ^ k dvd unat (align_up b (2 ^ k))" by (simp add: eq u)
qed

lemma node_end:
  assumes "hi (range_of n) < 2 ^ 64"
  shows "unat (start n + page_count n * PAGE_SIZE) = hi (range_of n)"
proof -
  have "unat (page_count n) * 4096 < 2 ^ 64"
    using assms by (simp add: hi_def range_of_def)
  then have "unat (page_count n * PAGE_SIZE) = unat (page_count n) * 4096"
    by (simp add: PAGE_SIZE_def unat_mult_small)
  then show ?thesis
    using assms by (simp add: hi_def range_of_def unat_plus_small)
qed

lemma span_end:
  assumes "unat a + unat c * 4096 < 2 ^ 64"
  shows "unat (a + c * PAGE_SIZE) = unat a + unat c * 4096"
  using node_end [of "zero_node\<lparr>start := a, page_count := c\<rparr>"] assms
  by (simp add: hi_def range_of_def)

section \<open>The augmentation\<close>

lemma ranges_simps [simp]:
  "ranges AvlNil = []" "ranges (AvlNode l a h r) = ranges l @ range_of a # ranges r"
  by (simp_all add: ranges_def)

lemma ranges_Nil_iff [simp]: "ranges t = [] \<longleftrightarrow> t = AvlNil"
  by (simp add: ranges_def)

lemma ranges_ok_append [simp]:
  "ranges_ok b e (xs @ y # ys) \<longleftrightarrow>
     ranges_ok b e xs \<and> ranges_ok b e ys \<and> range_ok b e y \<and>
     (\<forall>x\<in>set xs. hi x \<le> lo y) \<and> (\<forall>z\<in>set ys. hi y \<le> lo z) \<and> (\<forall>x\<in>set xs. \<forall>z\<in>set ys. hi x \<le> lo z)"
  by (auto simp: ranges_ok_def sorted_wrt_append)

lemma ranges_ok_Nil [simp]: "ranges_ok b e []"
  by (simp add: ranges_ok_def)

lemma ranges_ok_member: "ranges_ok b e ps \<Longrightarrow> p \<in> set ps \<Longrightarrow> range_ok b e p"
  by (simp add: ranges_ok_def list_all_iff)

lemma fresh_root:
  "avl_fresh vmm_avl_cb (AvlNode l a h r) \<Longrightarrow> a = vmm_node_update l a r"
  by (simp add: apply_update_def vmm_avl_cb_def)

lemma subtree_start_update:
  "subtree_start (vmm_node_update l a r) = (if l = AvlNil then start a else vmm_subtree_start l)"
  by (cases l) (simp_all add: vmm_node_update_def Let_def)

lemma subtree_end_update:
  "subtree_end (vmm_node_update l a r) =
     (let nend = start a + page_count a * PAGE_SIZE in
      if r \<noteq> AvlNil \<and> nend < vmm_subtree_end r then vmm_subtree_end r else nend)"
  by (cases r) (simp_all add: vmm_node_update_def Let_def)

lemma subtree_start_first:
  "avl_fresh vmm_avl_cb t \<Longrightarrow> t \<noteq> AvlNil \<Longrightarrow> vmm_subtree_start t = fst (hd (ranges t))"
proof (induction t)
  case (AvlNode l a h r)
  have "vmm_subtree_start (AvlNode l a h r) = (if l = AvlNil then start a else vmm_subtree_start l)"
    using fresh_root [OF AvlNode.prems(1)] subtree_start_update [of l a r] by simp
  then show ?case
    using AvlNode.IH(1) AvlNode.prems(1) by (auto simp: hd_append range_of_def ranges_def)
qed simp

lemma subtree_end_last:
  "avl_fresh vmm_avl_cb t \<Longrightarrow> t \<noteq> AvlNil \<Longrightarrow> ranges_ok b e (ranges t) \<Longrightarrow> e < 2 ^ 64 \<Longrightarrow>
     unat (vmm_subtree_end t) = hi (last (ranges t))"
proof (induction t)
  case (AvlNode l a h r)
  have nend: "unat (start a + page_count a * PAGE_SIZE) = hi (range_of a)"
    using AvlNode.prems(3,4) by (intro node_end) (auto simp: range_ok_def)
  have s: "vmm_subtree_end (AvlNode l a h r) =
      (let nend = start a + page_count a * PAGE_SIZE in
       if r \<noteq> AvlNil \<and> nend < vmm_subtree_end r then vmm_subtree_end r else nend)"
    using fresh_root [OF AvlNode.prems(1)] subtree_end_update [of l a r] by simp
  show ?case
  proof (cases "r = AvlNil")
    case True
    then show ?thesis using s nend by (simp add: Let_def)
  next
    case False
    have IH: "unat (vmm_subtree_end r) = hi (last (ranges r))"
      using AvlNode.IH(2) AvlNode.prems False by simp
    have "last (ranges r) \<in> set (ranges r)" using False by (intro last_in_set) simp
    then have "hi (range_of a) < hi (last (ranges r))"
      using AvlNode.prems(3) ranges_ok_member [of b e "ranges r"] by (fastforce simp: range_ok_def)
    then show ?thesis
      using s nend IH False by (simp add: Let_def word_less_nat_alt ranges_def)
  qed
qed simp

lemma hi_le_last: "ranges_ok b e ps \<Longrightarrow> p \<in> set ps \<Longrightarrow> hi p \<le> hi (last ps)"
proof (induction ps rule: rev_induct)
  case (snoc x xs)
  then show ?case using ranges_ok_append [of b e xs x "[]"] by (fastforce simp: range_ok_def)
qed simp

section \<open>The gap search\<close>

text \<open>
  A non-zero answer of the search is aligned, not below \<open>base\<close>, and lies between the ranges of the
  subtree: it splits them into those that end before it and a non-empty rest that starts after it.
\<close>

definition gap_at :: "nat \<Rightarrow> nat \<Rightarrow> (u64 \<times> u64) list \<Rightarrow> bool" where
  "gap_at a len ps \<longleftrightarrow>
     (\<exists>xs y ys. ps = xs @ y # ys \<and> (\<forall>x\<in>set xs. hi x \<le> a) \<and> a + len \<le> lo y)"

lemma gap_at_first: "ps \<noteq> [] \<Longrightarrow> a + len \<le> lo (hd ps) \<Longrightarrow> gap_at a len ps"
  unfolding gap_at_def by (metis append_Nil empty_iff empty_set list.collapse)

lemma gap_at_middle: "\<forall>x\<in>set xs. hi x \<le> a \<Longrightarrow> a + len \<le> lo y \<Longrightarrow> gap_at a len (xs @ y # ys)"
  unfolding gap_at_def by blast

lemma gap_at_left: "gap_at a len xs \<Longrightarrow> gap_at a len (xs @ ys)"
  unfolding gap_at_def by (metis append.assoc append_Cons)

lemma gap_at_right: "gap_at a len ys \<Longrightarrow> \<forall>x\<in>set xs. hi x \<le> a \<Longrightarrow> gap_at a len (xs @ ys)"
  unfolding gap_at_def by (metis (no_types, lifting) UnE append.assoc set_append)

lemma find_gap_sound:
  assumes k: "k < 64" and room: "unat pe + unat pages * 4096 + 2 ^ k < 2 ^ 64"
  shows "avl_fresh vmm_avl_cb t \<Longrightarrow> ranges_ok b (unat pe) (ranges t) \<Longrightarrow> unat base \<le> unat pe \<Longrightarrow>
    vmm_find_gap pe t base pages (2 ^ k) = addr \<Longrightarrow> addr \<noteq> 0 \<Longrightarrow>
    unat base \<le> unat addr \<and> 2 ^ k dvd unat addr \<and> gap_at (unat addr) (unat pages * 4096) (ranges t)"
proof (induction t arbitrary: base)
  case (AvlNode l n h r)
  have al: "unat x \<le> unat (align_up x (2 ^ k))" "2 ^ k dvd unat (align_up x (2 ^ k))"
    "unat (align_up x (2 ^ k) + pages * PAGE_SIZE) = unat (align_up x (2 ^ k)) + unat pages * 4096"
    if "unat x \<le> unat pe" for x
  proof -
    have "unat x + 2 ^ k < 2 ^ 64" using that room by linarith
    from align_up_spec [OF k this]
    show "unat x \<le> unat (align_up x (2 ^ k))" "2 ^ k dvd unat (align_up x (2 ^ k))"
      "unat (align_up x (2 ^ k) + pages * PAGE_SIZE) = unat (align_up x (2 ^ k)) + unat pages * 4096"
      using that room by (simp_all add: span_end)
  qed
  have fl: "avl_fresh vmm_avl_cb l" and fr: "avl_fresh vmm_avl_cb r"
    and okl: "ranges_ok b (unat pe) (ranges l)" and okr: "ranges_ok b (unat pe) (ranges r)"
    and okn: "range_ok b (unat pe) (range_of n)" using AvlNode.prems(1,2) by auto
  have pe: "unat pe < 2 ^ 64" by simp
  define base1 where "base1 = (if l \<noteq> AvlNil \<and> vmm_subtree_end l > base then vmm_subtree_end l else base)"
  define base2 where "base2 = (if start n + page_count n * PAGE_SIZE > base1
    then start n + page_count n * PAGE_SIZE else base1)"
  have hl: "hi x \<le> unat base1" if "x \<in> set (ranges l)" for x
  proof -
    have "l \<noteq> AvlNil" using that by auto
    then show ?thesis
      using hi_le_last [OF okl that] subtree_end_last [OF fl _ okl pe]
      by (auto simp: base1_def word_less_nat_alt)
  qed
  have b1: "unat base \<le> unat base1" "unat base1 \<le> unat pe"
    using AvlNode.prems(3) subtree_end_last [OF fl _ okl pe] ranges_ok_member [OF okl]
      last_in_set [of "ranges l"]
    by (auto simp: base1_def word_less_nat_alt range_ok_def)
  have nend: "unat (start n + page_count n * PAGE_SIZE) = hi (range_of n)"
    using okn pe unfolding range_ok_def by (intro node_end) linarith
  have b2: "unat base1 \<le> unat base2" "unat base2 \<le> unat pe" "hi (range_of n) \<le> unat base2"
    using b1 nend okn by (auto simp: base2_def word_less_nat_alt range_ok_def)
  have first: "subtree_start n = fst (hd (ranges (AvlNode l n h r)))"
    using subtree_start_first [OF AvlNode.prems(1)] by simp
  show ?case
  proof (cases "subtree_start n \<ge> align_up base (2 ^ k) + pages * PAGE_SIZE")
    case True
    then have a: "addr = align_up base (2 ^ k)"
      using AvlNode.prems(4,5) by (auto simp: Let_def split: if_splits)
    have "gap_at (unat addr) (unat pages * 4096) (ranges (AvlNode l n h r))"
      using True al(3) [OF AvlNode.prems(3)]
      by (intro gap_at_first) (simp_all add: a first word_le_nat_alt lo_def)
    then show ?thesis using al(1,2) [OF AvlNode.prems(3)] by (simp add: a)
  next
    case no_first: False
    then have big: "\<not> max_gap n < pages" using AvlNode.prems(4,5) by (auto simp: Let_def)
    show ?thesis
    proof (cases "vmm_find_gap pe l base pages (2 ^ k) = 0")
      case False
      then have "vmm_find_gap pe l base pages (2 ^ k) = addr"
        using AvlNode.prems(4) no_first big by (simp add: Let_def)
      from AvlNode.IH(1) [OF fl okl AvlNode.prems(3) this AvlNode.prems(5)]
      show ?thesis using gap_at_left by auto
    next
      case no_left: True
      show ?thesis
      proof (cases "start n \<ge> align_up base1 (2 ^ k) + pages * PAGE_SIZE")
        case True
        then have a: "addr = align_up base1 (2 ^ k)"
          using AvlNode.prems(4,5) no_first big no_left
          by (auto simp: Let_def base1_def split: if_splits)
        have "\<forall>x\<in>set (ranges l). hi x \<le> unat addr"
          using hl al(1) [OF b1(2)] unfolding a by (meson order_trans)
        then have "gap_at (unat addr) (unat pages * 4096) (ranges (AvlNode l n h r))"
          using True al(3) [OF b1(2)]
          by (simp add: gap_at_middle a word_le_nat_alt lo_def range_of_def)
        then show ?thesis using al(1,2) [OF b1(2)] b1(1) by (simp add: a)
      next
        case False
        then have v: "vmm_find_gap pe r base2 pages (2 ^ k) = addr"
          using AvlNode.prems(4) no_first big no_left
          unfolding vmm_find_gap.simps Let_def base1_def [symmetric] base2_def [symmetric] by simp
        note R = AvlNode.IH(2) [OF fr okr b2(2) v AvlNode.prems(5)]
        have "\<forall>x\<in>set (ranges l @ [range_of n]). hi x \<le> unat addr"
          using hl b2 R by fastforce
        then have "gap_at (unat addr) (unat pages * 4096) ((ranges l @ [range_of n]) @ ranges r)"
          using R gap_at_right by blast
        then show ?thesis using R b1 b2 by simp
      qed
    qed
  qed
qed simp

section \<open>Contracts of the operations\<close>

lemma sorted_starts:
  "ranges_ok b e ps \<Longrightarrow> sorted_by fst ps"
proof (induction ps)
  case (Cons p ps)
  have "range_ok b e p" "ranges_ok b e ps" "\<forall>q\<in>set ps. hi p \<le> lo q"
    using Cons.prems ranges_ok_append [of b e "[]" p ps] by simp_all
  then show ?case using Cons.IH by (fastforce simp: range_ok_def lo_def word_less_nat_alt)
qed simp

lemma ranges_insert:
  assumes "ranges_ok b e (ranges t)"
  shows "ranges (avl_insert vmm_avl_cb t n) = ins_by fst (range_of n) (ranges t)"
  using vt.cores_insert [of t n] sorted_starts [OF assms] by (simp add: cores_ranges)

lemma ins_by_between:
  assumes "\<forall>x\<in>set xs. fst x < fst p" and "\<forall>y\<in>set ys. fst p < fst y"
  shows "ins_by fst p (xs @ ys) = xs @ p # ys"
  using assms by (induction xs) (cases ys, auto)

text \<open>A range that fits between the others is inserted between them.\<close>

lemma insert_between:
  assumes ok: "ranges_ok b e (xs @ ys)" and p: "range_ok b e p"
    and x: "\<forall>x\<in>set xs. hi x \<le> lo p" and y: "\<forall>y\<in>set ys. hi p \<le> lo y"
  shows "ins_by fst p (xs @ ys) = xs @ p # ys" and "ranges_ok b e (xs @ p # ys)"
proof -
  have m: "range_ok b e q" if "q \<in> set xs \<union> set ys" for q
    using ranges_ok_member [OF ok] that by auto
  show "ins_by fst p (xs @ ys) = xs @ p # ys"
    using x y p m by (intro ins_by_between)
      (fastforce simp: range_ok_def lo_def word_less_nat_alt)+
  show "ranges_ok b e (xs @ p # ys)"
    using ok p x y by (auto simp: ranges_ok_def sorted_wrt_append)
qed

lemma gap_splits:
  assumes ok: "ranges_ok b e ps" and g: "gap_at a len ps"
  obtains xs ys where "ps = xs @ ys" and "\<forall>x\<in>set xs. hi x \<le> a" and "\<forall>y\<in>set ys. a + len \<le> lo y"
proof -
  obtain xs y ys where ps: "ps = xs @ y # ys" and xs: "\<forall>x\<in>set xs. hi x \<le> a" and y: "a + len \<le> lo y"
    using g unfolding gap_at_def by blast
  have "\<forall>z\<in>set (y # ys). a + len \<le> lo z"
    using ok y unfolding ps by (fastforce simp: range_ok_def)
  then show thesis using that [of xs "y # ys"] ps xs by simp
qed

text \<open>
  The address \<open>vmm_alloc_aligned\<close> chooses, before the overflow and pool checks: it is aligned, in or
  above the pool, and splits the allocated ranges.
\<close>

definition vmm_choice :: "vmm_state \<Rightarrow> u64 \<Rightarrow> u64 \<Rightarrow> u64" where
  "vmm_choice st count align =
     (let found = vmm_find_gap (vmm_pool_end st) (vmm_root st) (vmm_pool_base st) count align;
          tail1 = align_up (if vmm_root st \<noteq> AvlNil then vmm_subtree_end (vmm_root st)
                            else vmm_pool_base st) align
      in if found = 0 then (if tail1 < vmm_pool_base st then vmm_pool_base st else tail1) else found)"

lemma vmm_choice_spec:
  assumes inv: "vmm_inv st" and k: "k < 64"
    and room: "unat (vmm_pool_end st) + unat count * 4096 + 2 ^ k < 2 ^ 64"
    and a: "a = vmm_choice st count (2 ^ k)"
  shows "unat (vmm_pool_base st) \<le> unat a" and "2 ^ k dvd unat a"
    and "\<exists>xs ys. ranges (vmm_root st) = xs @ ys \<and> (\<forall>x\<in>set xs. hi x \<le> unat a) \<and>
           (\<forall>y\<in>set ys. unat a + unat count * 4096 \<le> lo y)"
    and "unat a + unat count * 4096 < 2 ^ 64"
proof -
  let ?pb = "unat (vmm_pool_base st)" and ?pe = "unat (vmm_pool_end st)" and ?t = "vmm_root st"
  let ?tail = "if ?t \<noteq> AvlNil then vmm_subtree_end ?t else vmm_pool_base st"
  have fresh: "avl_fresh vmm_avl_cb ?t" and ok: "ranges_ok ?pb ?pe (ranges ?t)" and pbe: "?pb \<le> ?pe"
    using inv by (auto simp: vmm_inv_def avl_wf_def)
  have "?pb \<le> unat a \<and> 2 ^ k dvd unat a \<and>
    (\<exists>xs ys. ranges ?t = xs @ ys \<and> (\<forall>x\<in>set xs. hi x \<le> unat a) \<and>
      (\<forall>y\<in>set ys. unat a + unat count * 4096 \<le> lo y)) \<and> unat a + unat count * 4096 < 2 ^ 64"
  proof (cases "vmm_find_gap (vmm_pool_end st) ?t (vmm_pool_base st) count (2 ^ k) = 0")
    case False
    then have "vmm_find_gap (vmm_pool_end st) ?t (vmm_pool_base st) count (2 ^ k) = a" and "a \<noteq> 0"
      by (simp_all add: a vmm_choice_def)
    note g = find_gap_sound [OF k room fresh ok pbe this]
    obtain xs y ys where sp: "ranges ?t = xs @ y # ys" "unat a + unat count * 4096 \<le> lo y"
      using g unfolding gap_at_def by blast
    have g3: "gap_at (unat a) (unat count * 4096) (ranges ?t)" using g by blast
    have "lo y < 2 ^ 64" by (simp add: lo_def)
    then have "unat a + unat count * 4096 < 2 ^ 64" using sp(2) by linarith
    moreover obtain us vs where "ranges ?t = us @ vs" "\<forall>x\<in>set us. hi x \<le> unat a"
      "\<forall>y\<in>set vs. unat a + unat count * 4096 \<le> lo y"
      using gap_splits [OF ok g3] by blast
    ultimately show ?thesis using g by blast
  next
    case True
    have tl: "?pb \<le> unat ?tail \<and> unat ?tail \<le> ?pe \<and> (\<forall>x\<in>set (ranges ?t). hi x \<le> unat ?tail)"
    proof (cases "?t = AvlNil")
      case False
      have "unat (vmm_subtree_end ?t) = hi (last (ranges ?t))"
        using subtree_end_last [OF fresh False ok] by simp
      moreover have "range_ok ?pb ?pe (last (ranges ?t))"
        using ranges_ok_member [OF ok] False by simp
      ultimately show ?thesis using False hi_le_last [OF ok] by (auto simp: range_ok_def)
    qed (simp add: pbe)
    then have "unat ?tail + 2 ^ k < 2 ^ 64" using room by linarith
    note s = align_up_spec [OF k this]
    have "?pb \<le> unat (align_up ?tail (2 ^ k))" using s(1) tl by linarith
    then have av: "a = align_up ?tail (2 ^ k)"
      unfolding a vmm_choice_def by (simp add: True Let_def word_less_nat_alt)
    have "\<forall>x\<in>set (ranges ?t). hi x \<le> unat a" using s(1) tl unfolding av by fastforce
    moreover have "unat a + unat count * 4096 < 2 ^ 64"
      using s(2) tl room unfolding av by linarith
    ultimately show ?thesis using s tl unfolding av by (intro conjI exI [of _ "ranges ?t"] exI [of _ "[]"]) auto
  qed
  then show "?pb \<le> unat a" "2 ^ k dvd unat a" "unat a + unat count * 4096 < 2 ^ 64"
    "\<exists>xs ys. ranges ?t = xs @ ys \<and> (\<forall>x\<in>set xs. hi x \<le> unat a) \<and>
       (\<forall>y\<in>set ys. unat a + unat count * 4096 \<le> lo y)" by blast+
qed

lemma alloc_via_choice:
  "count \<noteq> 0 \<Longrightarrow> vmm_alloc_aligned mok count align st =
     (let addr = vmm_choice st count align in
      if addr + count * PAGE_SIZE > vmm_pool_end st
      then Inl (Panic ''VMM'' ''out of virtual address space'')
      else and_then (pool_alloc_node mok st) (\<lambda>(st', n).
        Inr (st'\<lparr>vmm_root :=
               avl_insert vmm_avl_cb (vmm_root st') (n\<lparr>start := addr, page_count := count\<rparr>)\<rparr>, addr)))"
  by (simp add: vmm_alloc_aligned_def vmm_choice_def Let_def)

lemma pool_alloc_node_keeps:
  "pool_alloc_node mok st = Inr (st', n) \<Longrightarrow>
     vmm_root st' = vmm_root st \<and> vmm_pool_base st' = vmm_pool_base st \<and>
     vmm_pool_end st' = vmm_pool_end st \<and> n = zero_node"
  by (auto simp: pool_alloc_node_def split: if_splits)

lemma alloc_result:
  assumes inv: "vmm_inv st" and k: "k < 64" and c: "count \<noteq> 0"
    and room: "unat (vmm_pool_end st) + unat count * 4096 + 2 ^ k < 2 ^ 64"
    and res: "vmm_alloc_aligned mok count (2 ^ k) st = Inr (st', addr)"
  obtains xs ys where "ranges (vmm_root st) = xs @ ys"
    and "ranges (vmm_root st') = xs @ (addr, count) # ys"
    and "range_ok (unat (vmm_pool_base st)) (unat (vmm_pool_end st)) (addr, count)"
    and "2 ^ k dvd unat addr" and "vmm_inv st'"
proof -
  let ?pb = "unat (vmm_pool_base st)" and ?pe = "unat (vmm_pool_end st)"
  have addr: "addr = vmm_choice st count (2 ^ k)"
    and fits: "\<not> vmm_pool_end st < addr + count * PAGE_SIZE"
    and root: "vmm_root st' = avl_insert vmm_avl_cb (vmm_root st)
      (zero_node\<lparr>start := addr, page_count := count\<rparr>)"
    and same: "vmm_pool_base st' = vmm_pool_base st" "vmm_pool_end st' = vmm_pool_end st"
    using res by (auto simp: alloc_via_choice [OF c] Let_def and_then_eq_Inr
        dest!: pool_alloc_node_keeps split: if_splits)
  note ch = vmm_choice_spec [OF inv k room addr]
  have ok: "ranges_ok ?pb ?pe (ranges (vmm_root st))" using inv by (simp add: vmm_inv_def)
  have p: "range_ok ?pb ?pe (addr, count)"
    using ch(1,4) fits c span_end [OF ch(4)]
    by (simp add: range_ok_def lo_def hi_def word_less_nat_alt unat_gt_0)
  obtain xs ys where sp: "ranges (vmm_root st) = xs @ ys" "\<forall>x\<in>set xs. hi x \<le> lo (addr, count)"
    "\<forall>y\<in>set ys. hi (addr, count) \<le> lo y"
    using ch(3) by (auto simp: lo_def hi_def)
  note ins = insert_between [OF ok [unfolded sp(1)] p sp(2,3)]
  have r: "ranges (vmm_root st') = xs @ (addr, count) # ys"
    using ranges_insert [OF ok] ins(1) by (simp add: root sp(1) range_of_def)
  have "vmm_inv st'"
    using inv ins(2) r vt.insert_wf [of "vmm_root st"] unfolding vmm_inv_def root same by simp
  then show thesis using that sp(1) r p ch(2) by blast
qed


text \<open>When every range leaves room behind it, the chosen address fits the pool.\<close>

lemma choice_fits:
  assumes inv: "vmm_inv st" and k: "k < 64"
    and room: "unat (vmm_pool_end st) + unat count * 4096 + 2 ^ k < 2 ^ 64"
    and b: "unat (vmm_pool_base st) + 2 ^ k + unat count * 4096 \<le> unat (vmm_pool_end st)"
    and p: "\<forall>p\<in>set (ranges (vmm_root st)). hi p + 2 ^ k + unat count * 4096 \<le> unat (vmm_pool_end st)"
  shows "unat (vmm_choice st count (2 ^ k)) + unat count * 4096 \<le> unat (vmm_pool_end st)"
proof -
  let ?pb = "unat (vmm_pool_base st)" and ?pe = "unat (vmm_pool_end st)" and ?t = "vmm_root st"
  let ?tail = "if ?t \<noteq> AvlNil then vmm_subtree_end ?t else vmm_pool_base st"
  have fresh: "avl_fresh vmm_avl_cb ?t" and ok: "ranges_ok ?pb ?pe (ranges ?t)" and pbe: "?pb \<le> ?pe"
    using inv by (auto simp: vmm_inv_def avl_wf_def)
  show ?thesis
  proof (cases "vmm_find_gap (vmm_pool_end st) ?t (vmm_pool_base st) count (2 ^ k) = 0")
    case False
    then have "vmm_find_gap (vmm_pool_end st) ?t (vmm_pool_base st) count (2 ^ k)
        = vmm_choice st count (2 ^ k)" and "vmm_choice st count (2 ^ k) \<noteq> 0"
      by (simp_all add: vmm_choice_def)
    from find_gap_sound [OF k room fresh ok pbe this] obtain xs y ys
      where "ranges ?t = xs @ y # ys" "unat (vmm_choice st count (2 ^ k)) + unat count * 4096 \<le> lo y"
      unfolding gap_at_def by blast
    moreover from this have "range_ok ?pb ?pe y" using ranges_ok_member [OF ok] by simp
    ultimately show ?thesis by (simp add: range_ok_def)
  next
    case True
    have tl: "unat ?tail + 2 ^ k + unat count * 4096 \<le> ?pe"
    proof (cases "?t = AvlNil")
      case False
      then have "last (ranges ?t) \<in> set (ranges ?t)" by simp
      then show ?thesis using subtree_end_last [OF fresh False ok] False p by auto
    qed (use b in simp)
    then have "unat ?tail + 2 ^ k < 2 ^ 64" using room by linarith
    from align_up_spec(2) [OF k this] tl b show ?thesis
      by (simp add: vmm_choice_def True Let_def)
  qed
qed

lemma del_by_filter: "sorted_by k xs \<Longrightarrow> del_by k x xs = filter (\<lambda>c. k c \<noteq> x) xs"
proof (induction xs)
  case (Cons a xs)
  have "k a = x \<Longrightarrow> filter (\<lambda>c. k c \<noteq> x) xs = xs"
    using Cons.prems by (fastforce simp: filter_id_conv)
  then show ?case using Cons by simp
qed simp

lemma ranges_ok_filter: "ranges_ok b e ps \<Longrightarrow> ranges_ok b e (filter P ps)"
  by (auto simp: ranges_ok_def list_all_iff sorted_wrt_filter)

lemma find_start:
  assumes "sorted_by fst ps"
  shows "find (\<lambda>c. fst c = v) ps = Some p \<longleftrightarrow> p \<in> set ps \<and> fst p = v"
  using assms by (induction ps) force+

lemma free_result:
  assumes inv: "vmm_inv st" and v: "virt \<noteq> 0"
    and res: "vmm_free_pages virt count st = (st', ret, freed)"
  shows "ranges (vmm_root st') = filter (\<lambda>p. fst p \<noteq> virt) (ranges (vmm_root st))" (is ?R)
    and "ret = (if (virt, count) \<in> set (ranges (vmm_root st)) then virt else 0)"
    and "vmm_inv st'" and "early_pool_count st' = early_pool_count st"
    and "vmm_heap_available st' = vmm_heap_available st"
proof -
  let ?ps = "ranges (vmm_root st)" and ?key = "zero_node\<lparr>start := virt\<rparr>"
  have ok: "ranges_ok (unat (vmm_pool_base st)) (unat (vmm_pool_end st)) ?ps"
    using inv by (simp add: vmm_inv_def)
  note so = sorted_starts [OF ok]
  have del: "ranges (fst (avl_delete vmm_avl_cb (vmm_root st) ?key None)) = filter (\<lambda>p. fst p \<noteq> virt) ?ps"
    using vt.cores_delete [of "vmm_root st"] so
    by (simp add: cores_ranges del_by_filter range_of_def)
  have st': "st' = st\<lparr>vmm_root := fst (avl_delete vmm_avl_cb (vmm_root st) ?key None)\<rparr>"
    using res v by (auto simp: vmm_free_pages_def Let_def split: if_splits prod.splits option.splits)
  show ?R using del by (simp add: st')
  show "vmm_inv st'"
    using inv vt.delete_wf [of "vmm_root st"] ranges_ok_filter [OF ok] del
    by (simp add: vmm_inv_def st')
  show "early_pool_count st' = early_pool_count st" "vmm_heap_available st' = vmm_heap_available st"
    by (simp_all add: st')
  have out: "map_option range_of (snd (avl_delete vmm_avl_cb (vmm_root st) ?key None)) =
      find (\<lambda>c. fst c = virt) ?ps"
    using vt.find_sorted [of "vmm_root st" ?key] so
    by (auto simp: vt.delete_out cores_ranges range_of_def split: option.splits)
  have ret: "ret = (case find (\<lambda>c. fst c = virt) ?ps of None \<Rightarrow> 0
      | Some p \<Rightarrow> if snd p \<noteq> count then 0 else fst p)"
    using res v unfolding out [symmetric]
    by (auto simp: vmm_free_pages_def Let_def range_of_def split: if_splits prod.splits option.splits)
  have uniq: "p = q" if "p \<in> set ?ps" "q \<in> set ?ps" "fst p = virt" "fst q = virt" for p q
    using that find_start [OF so, of virt p] find_start [OF so, of virt q] by simp
  show "ret = (if (virt, count) \<in> set ?ps then virt else 0)"
  proof (cases "find (\<lambda>c. fst c = virt) ?ps")
    case None
    then have "(virt, count) \<notin> set ?ps" by (auto simp: find_None_iff)
    then show ?thesis using None by (simp add: ret)
  next
    case (Some p)
    then have p: "p \<in> set ?ps" "fst p = virt" using find_start [OF so] by blast+
    have "(virt, count) \<in> set ?ps \<longleftrightarrow> snd p = count"
      using p uniq [OF p(1) _ p(2), of "(virt, count)"] by (metis fst_conv prod.collapse snd_conv)
    then show ?thesis using Some p by (simp add: ret)
  qed
qed

text \<open>
  The states the kernel reaches before \<^verbatim>\<open>vmm_switch_to_heap\<close> by allocations and releases, with the
  number of successful allocations so far. Which requests are made is the parameter \<open>req\<close>, a predicate
  on the page count and the alignment; the rules restrict neither.
\<close>

inductive vmm_reach :: "(u64 \<Rightarrow> u64 \<Rightarrow> bool) \<Rightarrow> u64 \<Rightarrow> u64 \<Rightarrow> nat \<Rightarrow> nat \<Rightarrow> vmm_state \<Rightarrow> bool"
  for req off ram level where
  vmm_reach_init: "vmm_reach req off ram level 0 (vmm_init off ram level)"
| vmm_reach_alloc:
    "vmm_reach req off ram level n st \<Longrightarrow> req count align \<Longrightarrow>
       vmm_alloc_aligned mok count align st = Inr (st', addr) \<Longrightarrow>
       vmm_reach req off ram level (if count = 0 then n else Suc n) st'"
| vmm_reach_free:
    "vmm_reach req off ram level n st \<Longrightarrow> vmm_free_pages virt count st = (st', ret, freed) \<Longrightarrow>
       vmm_reach req off ram level n st'"

text \<open>A request that neither wraps around the address space nor has an alignment that is not a power of two.\<close>

definition sane_request :: "u64 \<Rightarrow> u64 \<Rightarrow> u64 \<Rightarrow> bool" where
  "sane_request pool_end count align \<longleftrightarrow>
     (\<exists>k<64. align = 2 ^ k \<and> unat pool_end + unat count * 4096 + 2 ^ k < 2 ^ 64)"

lemma alloc_counts:
  assumes "vmm_alloc_aligned mok count align st = Inr (st', addr)" and "count \<noteq> 0"
    and "\<not> vmm_heap_available st"
  shows "early_pool_count st' = Suc (early_pool_count st)" "early_pool_count st < VMM_EARLY_POOL"
    "\<not> vmm_heap_available st'" "vmm_pool_end st' = vmm_pool_end st"
  using assms by (auto simp: vmm_alloc_aligned_def pool_alloc_node_def Let_def and_then_eq_Inr split: if_splits)

lemma alloc_zero: "vmm_alloc_aligned mok 0 align st = Inr (st', addr) \<Longrightarrow> st' = st"
  by (simp add: vmm_alloc_aligned_def)

lemma free_keeps:
  assumes "vmm_free_pages virt count st = (st', ret, freed)"
  shows "vmm_pool_end st' = vmm_pool_end st" "early_pool_count st' = early_pool_count st"
    "vmm_heap_available st' = vmm_heap_available st"
  using assms by (auto simp: vmm_free_pages_def Let_def split: if_splits prod.splits option.splits)

lemma free_null: "vmm_free_pages 0 count st = (st, 0, False)"
  by (simp add: vmm_free_pages_def)

lemma reach_counts:
  assumes "vmm_reach req off ram level n st"
  shows "\<not> vmm_heap_available st \<and> early_pool_count st = n \<and> n \<le> VMM_EARLY_POOL \<and>
    vmm_pool_end st = vmm_pool_end (vmm_init off ram level)"
  using assms
proof induction
  case vmm_reach_init
  then show ?case by (simp add: vmm_init_def)
next
  case (vmm_reach_alloc n st count align mok st' addr)
  show ?case
  proof (cases "count = 0")
    case True
    then show ?thesis using vmm_reach_alloc by (auto dest: alloc_zero)
  next
    case False
    then show ?thesis using vmm_reach_alloc alloc_counts [OF vmm_reach_alloc.hyps(3) False] by auto
  qed
next
  case (vmm_reach_free n st virt count st' ret freed)
  then show ?case using free_keeps by metis
qed

lemma reach_inv:
  assumes "vmm_reach req off ram level n st" and "0 < unat (off + ram)"
    and "off + ram \<le> vmm_pool_end (vmm_init off ram level)"
    and sane: "\<forall>count align. req count align \<longrightarrow> sane_request (vmm_pool_end (vmm_init off ram level)) count align"
  shows "vmm_inv st"
  using assms(1)
proof induction
  case vmm_reach_init
  then show ?case using assms(2,3) by (simp add: vmm_inv_def vmm_init_def avl_wf_def word_le_nat_alt)
next
  case (vmm_reach_alloc n st count align mok st' addr)
  obtain k where k: "k < 64" "align = 2 ^ k"
    "unat (vmm_pool_end st) + unat count * 4096 + 2 ^ k < 2 ^ 64"
    using sane vmm_reach_alloc.hyps(2) reach_counts [OF vmm_reach_alloc.hyps(1)] unfolding sane_request_def by metis
  show ?case
  proof (cases "count = 0")
    case True
    then show ?thesis using vmm_reach_alloc by (auto dest: alloc_zero)
  next
    case False
    then show ?thesis
      using alloc_result [OF vmm_reach_alloc.IH k(1) False k(3)] vmm_reach_alloc.hyps(3) k(2) by blast
  qed
next
  case (vmm_reach_free n st virt count st' ret freed)
  then show ?case by (cases "virt = 0") (auto simp: free_null free_result)
qed

lemma alloc_apart:
  assumes "vmm_inv st" and "k < 64" and "count \<noteq> 0"
    and "unat (vmm_pool_end st) + unat count * 4096 + 2 ^ k < 2 ^ 64"
    and "vmm_alloc_aligned mok count (2 ^ k) st = Inr (st', addr)"
  shows "vmm_inv st' \<and> 2 ^ k dvd unat addr \<and> unat (vmm_pool_base st) \<le> unat addr \<and>
    unat addr + unat count * 4096 \<le> unat (vmm_pool_end st) \<and>
    (\<forall>p\<in>set (ranges (vmm_root st)). hi p \<le> unat addr \<or> unat addr + unat count * 4096 \<le> lo p) \<and>
    set (ranges (vmm_root st')) = insert (addr, count) (set (ranges (vmm_root st)))"
proof -
  obtain xs ys where r: "ranges (vmm_root st) = xs @ ys" "ranges (vmm_root st') = xs @ (addr, count) # ys"
    and ok: "range_ok (unat (vmm_pool_base st)) (unat (vmm_pool_end st)) (addr, count)"
    and d: "2 ^ k dvd unat addr" and inv: "vmm_inv st'"
    using alloc_result [OF assms] by blast
  have "ranges_ok (unat (vmm_pool_base st')) (unat (vmm_pool_end st')) (xs @ (addr, count) # ys)"
    using inv r(2) by (simp add: vmm_inv_def)
  then have "\<forall>p\<in>set (xs @ ys). hi p \<le> unat addr \<or> unat addr + unat count * 4096 \<le> lo p"
    by (auto simp: lo_def hi_def)
  then show ?thesis using r ok d inv by (auto simp: range_ok_def lo_def hi_def)
qed

section \<open>Properties\<close>

text \<open>
  C1. From a well-formed state, whatever \<^verbatim>\<open>vmm_alloc_aligned\<close> returns is aligned, lies in the pool,
  overlaps no range handed out before and is recorded; the tree stays a balanced search tree with
  correct augmentation. The alignment is a power of two, and the request does not wrap around the
  address space when added to the pool's end.
\<close>

theorem vmm_alloc_sound:
  assumes "vmm_inv st" and "k < 64" and "count \<noteq> 0"
    and "unat (vmm_pool_end st) + unat count * 4096 + 2 ^ k < 2 ^ 64"
    and "vmm_alloc_aligned mok count (2 ^ k) st = Inr (st', addr)"
  shows "vmm_inv st' \<and> 2 ^ k dvd unat addr \<and> unat (vmm_pool_base st) \<le> unat addr \<and>
    unat addr + unat count * 4096 \<le> unat (vmm_pool_end st) \<and>
    (\<forall>p\<in>set (ranges (vmm_root st)). hi p \<le> unat addr \<or> unat addr + unat count * 4096 \<le> lo p) \<and>
    set (ranges (vmm_root st')) = insert (addr, count) (set (ranges (vmm_root st)))"
  using assms by (rule alloc_apart)

definition demo_vmm :: vmm_state where
  "demo_vmm = vmm_init 0xFFFF800000000000 0x40000000 4"

definition demo_addr :: u64 where "demo_addr = 0xFFFF800040000000"

definition demo_node :: VMMNode where
  "demo_node = vmm_node_update AvlNil (zero_node\<lparr>start := demo_addr, page_count := 3\<rparr>) AvlNil"

definition demo_vmm1 :: vmm_state where
  "demo_vmm1 = demo_vmm\<lparr>early_pool_count := 1, vmm_root := AvlNode AvlNil demo_node 1 AvlNil\<rparr>"

lemma demo_alloc: "vmm_alloc_aligned False 3 (2 ^ 12) demo_vmm = Inr (demo_vmm1, demo_addr)"
  by (simp add: demo_vmm1_def demo_node_def demo_addr_def demo_vmm_def vmm_init_def
      vmm_alloc_aligned_def align_up_def PAGE_SIZE_def pool_alloc_node_def VMM_EARLY_POOL_def
      update_node.simps apply_update_def vmm_avl_cb_def)

lemma demo_inv: "vmm_inv demo_vmm"
  by (simp add: vmm_inv_def demo_vmm_def vmm_init_def avl_wf_def)

lemma demo_inv1: "vmm_inv demo_vmm1"
  by (rule alloc_result [OF demo_inv _ _ _ demo_alloc]) (simp_all add: demo_vmm_def vmm_init_def)

theorem vmm_alloc_sound_witness:
  "vmm_inv demo_vmm1 \<and> (2::nat) ^ 12 dvd unat demo_addr \<and>
   set (ranges (vmm_root demo_vmm1)) = {(demo_addr, 3)}"
  using vmm_alloc_sound [OF demo_inv _ _ _ demo_alloc]
  by (simp add: demo_vmm_def vmm_init_def)

text \<open>
  C2. An allocation does not fail while there is room: when a node can be had (an early pool slot,
  or \<^verbatim>\<open>malloc\<close> after \<^verbatim>\<open>vmm_switch_to_heap\<close>) and every range ends at least the request plus one
  alignment unit below the pool's end, \<^verbatim>\<open>vmm_alloc_aligned\<close> returns an address and does not panic.
\<close>

theorem vmm_alloc_progress:
  assumes "vmm_inv st" and "k < 64" and "count \<noteq> 0"
    and "unat (vmm_pool_end st) + unat count * 4096 + 2 ^ k < 2 ^ 64"
    and "if vmm_heap_available st then mok else early_pool_count st < VMM_EARLY_POOL"
    and "unat (vmm_pool_base st) + 2 ^ k + unat count * 4096 \<le> unat (vmm_pool_end st)"
    and "\<forall>p\<in>set (ranges (vmm_root st)). hi p + 2 ^ k + unat count * 4096 \<le> unat (vmm_pool_end st)"
  shows "\<exists>st' addr. vmm_alloc_aligned mok count (2 ^ k) st = Inr (st', addr)"
proof -
  note f = choice_fits [OF assms(1,2,4,6,7)]
  have "unat (vmm_choice st count (2 ^ k)) + unat count * 4096 < 2 ^ 64" using f assms(4) by linarith
  then have "\<not> vmm_choice st count (2 ^ k) + count * PAGE_SIZE > vmm_pool_end st"
    using f by (simp add: word_less_nat_alt span_end)
  then show ?thesis
    using assms(5) by (simp add: alloc_via_choice [OF assms(3)] Let_def pool_alloc_node_def split: if_splits)
qed

theorem vmm_alloc_progress_witness:
  "\<exists>st' addr. vmm_alloc_aligned False 3 (2 ^ 12) demo_vmm1 = Inr (st', addr)"
  by (rule vmm_alloc_progress [OF demo_inv1])
     (simp_all add: demo_vmm1_def demo_vmm_def vmm_init_def VMM_EARLY_POOL_def demo_node_def
       range_of_def hi_def demo_addr_def vmm_node_update_def Let_def)

text \<open>
  C3. \<^verbatim>\<open>vmm_free_pages\<close> removes exactly the range that starts at the address and keeps the tree
  well-formed. It returns the address only when the page count matches the recorded one; with another
  count it returns 0, and the range is gone all the same.
\<close>

theorem vmm_free_spec:
  assumes "vmm_inv st" and "virt \<noteq> 0" and "vmm_free_pages virt count st = (st', ret, freed)"
  shows "vmm_inv st' \<and> ranges (vmm_root st') = filter (\<lambda>p. fst p \<noteq> virt) (ranges (vmm_root st)) \<and>
    ret = (if (virt, count) \<in> set (ranges (vmm_root st)) then virt else 0)"
  using free_result [OF assms] by simp

theorem vmm_free_spec_witness:
  "vmm_free_pages demo_addr 5 demo_vmm1 = (demo_vmm1\<lparr>vmm_root := AvlNil\<rparr>, 0, False) \<and>
   vmm_inv (demo_vmm1\<lparr>vmm_root := AvlNil\<rparr>) \<and> (demo_addr, 5) \<notin> set (ranges (vmm_root demo_vmm1))"
proof -
  have f: "vmm_free_pages demo_addr 5 demo_vmm1 = (demo_vmm1\<lparr>vmm_root := AvlNil\<rparr>, 0, False)"
    by (simp add: vmm_free_pages_def demo_vmm1_def demo_node_def demo_addr_def vmm_avl_cb_def
        vmm_node_cmp_def vmm_node_update_def Let_def pool_free_node_def zero_node_def)
  have "demo_addr \<noteq> 0" by (simp add: demo_addr_def)
  from vmm_free_spec [OF demo_inv1 this f] f show ?thesis
    by (auto simp: demo_vmm1_def demo_node_def vmm_node_update_def Let_def range_of_def)
qed

text \<open>
  Releasing what an allocation returned, with the same page count, gives the address back and
  restores the recorded ranges.
\<close>

theorem vmm_alloc_free_roundtrip:
  assumes "vmm_inv st" and "k < 64" and "count \<noteq> 0"
    and "unat (vmm_pool_end st) + unat count * 4096 + 2 ^ k < 2 ^ 64"
    and "vmm_alloc_aligned mok count (2 ^ k) st = Inr (st1, addr)"
    and "vmm_free_pages addr count st1 = (st2, ret, freed)"
  shows "ret = addr \<and> ranges (vmm_root st2) = ranges (vmm_root st) \<and> vmm_inv st2"
proof -
  obtain xs ys where r: "ranges (vmm_root st) = xs @ ys" "ranges (vmm_root st1) = xs @ (addr, count) # ys"
    and ok: "range_ok (unat (vmm_pool_base st)) (unat (vmm_pool_end st)) (addr, count)"
    and inv: "vmm_inv st1"
    using alloc_result [OF assms(1-5)] by blast
  have a: "addr \<noteq> 0" using ok assms(1) by (auto simp: range_ok_def lo_def vmm_inv_def)
  have "sorted_by fst (xs @ (addr, count) # ys)"
    using inv r(2) sorted_starts by (metis vmm_inv_def)
  then have "filter (\<lambda>p. fst p \<noteq> addr) xs = xs" "filter (\<lambda>p. fst p \<noteq> addr) ys = ys"
    unfolding sorted_wrt_append filter_id_conv by fastforce+
  then show ?thesis using free_result [OF inv a assms(6)] r by simp
qed

theorem vmm_alloc_free_roundtrip_witness:
  "ranges (vmm_root (demo_vmm1\<lparr>vmm_root := AvlNil\<rparr>)) = ranges (vmm_root demo_vmm) \<and>
   vmm_inv (demo_vmm1\<lparr>vmm_root := AvlNil\<rparr>)"
proof -
  have "vmm_free_pages demo_addr 3 demo_vmm1 = (demo_vmm1\<lparr>vmm_root := AvlNil\<rparr>, demo_addr, False)"
    by (simp add: vmm_free_pages_def demo_vmm1_def demo_node_def demo_addr_def vmm_avl_cb_def
        vmm_node_cmp_def vmm_node_update_def Let_def pool_free_node_def zero_node_def)
  from vmm_alloc_free_roundtrip [OF demo_inv _ _ _ demo_alloc this] show ?thesis
    by (simp add: demo_vmm_def vmm_init_def)
qed

text \<open>
  C4. Whatever allocations and releases follow \<^verbatim>\<open>vmm_init\<close>, a release never gives an early pool slot
  back, so at most 64 allocations succeed before the switch to heap nodes; \<^verbatim>\<open>vmm_switch_to_heap\<close> has no
  caller in the repository, and the next request then panics. The state stays well-formed as long as
  every request has a power of two as its alignment and does not wrap around when its size and
  alignment are added to the pool's end. \<^verbatim>\<open>vmm_alloc_aligned\<close> checks neither (see
  \<open>vmm_huge_request_succeeds\<close>). The pool is non-empty and does not start at address 0.
\<close>

theorem vmm_reachable:
  assumes "vmm_reach req off ram level n st" and "0 < unat (off + ram)"
    and "off + ram \<le> vmm_pool_end (vmm_init off ram level)"
  shows "early_pool_count st = n \<and> n \<le> 64 \<and>
    (n = 64 \<longrightarrow> count \<noteq> 0 \<longrightarrow> (\<exists>msg. vmm_alloc_aligned mok count align st = Inl (Panic ''VMM'' msg))) \<and>
    ((\<forall>count align. req count align \<longrightarrow> sane_request (vmm_pool_end (vmm_init off ram level)) count align) \<longrightarrow>
       vmm_inv st)"
  using reach_counts [OF assms(1)] reach_inv [OF assms]
  by (auto simp: VMM_EARLY_POOL_def vmm_alloc_aligned_def pool_alloc_node_def Let_def)

lemma demo_reach:
  "vmm_reach (\<lambda>count align. count = 3 \<and> align = 4096) 0xFFFF800000000000 0x40000000 4 (Suc 0) demo_vmm1"
  using vmm_reach_alloc [OF vmm_reach_init, of "\<lambda>count align. count = 3 \<and> align = 4096" 3 4096 False
      "0xFFFF800000000000" "0x40000000" 4] demo_alloc
  by (simp add: demo_vmm_def)

theorem vmm_reachable_witness:
  "vmm_inv demo_vmm1 \<and> early_pool_count demo_vmm1 = 1"
proof -
  have "sane_request (vmm_pool_end (vmm_init 0xFFFF800000000000 0x40000000 4)) 3 4096"
    unfolding sane_request_def by (rule exI [of _ 12]) (simp add: vmm_init_def)
  with vmm_reachable [OF demo_reach] show ?thesis by (simp add: vmm_init_def)
qed

text \<open>
  A request of \<open>2 ^ 52\<close> pages, whose size in bytes wraps to 0, passes the check against the pool's end
  and is recorded; the state is no longer well-formed.
\<close>

theorem vmm_huge_request_succeeds:
  "\<exists>st'. vmm_alloc_aligned mok (2 ^ 52) 4096 demo_vmm = Inr (st', demo_addr) \<and> \<not> vmm_inv st'"
proof -
  let ?n = "vmm_node_update AvlNil (zero_node\<lparr>start := demo_addr, page_count := 2 ^ 52\<rparr>) AvlNil"
  let ?st = "demo_vmm\<lparr>early_pool_count := 1, vmm_root := AvlNode AvlNil ?n 1 AvlNil\<rparr>"
  have "vmm_alloc_aligned mok (2 ^ 52) 4096 demo_vmm = Inr (?st, demo_addr)"
    by (simp add: demo_addr_def demo_vmm_def vmm_init_def
      vmm_alloc_aligned_def align_up_def PAGE_SIZE_def pool_alloc_node_def VMM_EARLY_POOL_def
      update_node.simps apply_update_def vmm_avl_cb_def)
  moreover have "\<not> vmm_inv ?st"
    by (simp add: vmm_inv_def demo_vmm_def vmm_init_def vmm_node_update_def Let_def range_of_def range_ok_def
        hi_def lo_def demo_addr_def ranges_ok_def)
  ultimately show ?thesis by blast
qed

end
