(* ===== verification/Klist.thy ===== *)
theory Klist
  imports Prelude
begin

text \<open>
  The circular doubly-linked list of \<^verbatim>\<open>src/datatype/list.h\<close>. The link fields of all nodes form a store,
  two functions from addresses to addresses; an operation is the sequence of its assignments, each
  reading the store the previous one left. \<open>ring st h xs\<close> says that head \<open>h\<close> heads a well-formed list
  of the nodes \<open>xs\<close>.
\<close>

record list_store =
  lprev :: "u64 \<Rightarrow> u64"
  lnext :: "u64 \<Rightarrow> u64"

definition set_next :: "u64 \<Rightarrow> u64 \<Rightarrow> list_store \<Rightarrow> list_store" where
  "set_next p v st = st\<lparr>lnext := (lnext st)(p := v)\<rparr>"

definition set_prev :: "u64 \<Rightarrow> u64 \<Rightarrow> list_store \<Rightarrow> list_store" where
  "set_prev p v st = st\<lparr>lprev := (lprev st)(p := v)\<rparr>"

definition list_init :: "u64 \<Rightarrow> list_store \<Rightarrow> list_store" where
  "list_init head st = set_next head head (set_prev head head st)"

definition list_add :: "u64 \<Rightarrow> u64 \<Rightarrow> list_store \<Rightarrow> list_store" where
  "list_add head node st =
     (let st1 = set_next node (lnext st head) st;
          st2 = set_prev node head st1;
          st3 = set_prev (lnext st2 head) node st2
      in set_next head node st3)"

definition list_add_tail :: "u64 \<Rightarrow> u64 \<Rightarrow> list_store \<Rightarrow> list_store" where
  "list_add_tail head node st =
     (let st1 = set_prev node (lprev st head) st;
          st2 = set_next node head st1;
          st3 = set_next (lprev st2 head) node st2
      in set_prev head node st3)"

definition list_del :: "u64 \<Rightarrow> list_store \<Rightarrow> list_store" where
  "list_del node st =
     (let st1 = set_next (lprev st node) (lnext st node) st;
          st2 = set_prev (lnext st1 node) (lprev st1 node) st1
      in set_next node 0 (set_prev node 0 st2))"

definition list_is_empty :: "u64 \<Rightarrow> list_store \<Rightarrow> bool" where
  "list_is_empty head st = (lnext st head = head)"

section \<open>Rings\<close>

fun chain :: "list_store \<Rightarrow> u64 \<Rightarrow> u64 list \<Rightarrow> bool" where
  "chain st a [] = True"
| "chain st a (b # bs) \<longleftrightarrow> lnext st a = b \<and> lprev st b = a \<and> chain st b bs"

definition ring :: "list_store \<Rightarrow> u64 \<Rightarrow> u64 list \<Rightarrow> bool" where
  "ring st h xs \<longleftrightarrow> distinct (h # xs) \<and> chain st h (xs @ [h])"

lemma set_links [simp]:
  "lnext (set_next p v st) = (lnext st)(p := v)" "lprev (set_next p v st) = lprev st"
  "lprev (set_prev p v st) = (lprev st)(p := v)" "lnext (set_prev p v st) = lnext st"
  by (simp_all add: set_next_def set_prev_def)

lemma chain_append: "chain st a (xs @ b # ys) \<longleftrightarrow> chain st a (xs @ [b]) \<and> chain st b ys"
  by (induction xs arbitrary: a) auto

lemma chain_last: "chain st a (xs @ [b]) \<Longrightarrow> lprev st b = last (a # xs) \<and> lnext st (last (a # xs)) = b"
  by (induction xs arbitrary: a) auto

text \<open>A chain depends on the next links of all but its last node and on the previous links of all but its first.\<close>

lemma chain_frame:
  assumes "chain st a (xs @ [b])" and "\<forall>x\<in>set (a # xs). lnext st' x = lnext st x"
    and "\<forall>x\<in>set (xs @ [b]). lprev st' x = lprev st x"
  shows "chain st' a (xs @ [b])"
  using assms by (induction xs arbitrary: a) auto

lemma ring_add:
  assumes r: "ring st h xs" and n: "n \<notin> set (h # xs)"
  shows "ring (list_add h n st) h (n # xs)"
proof -
  obtain y ys where y: "xs @ [h] = y # ys" by (cases xs) auto
  have c: "lnext st h = y" "chain st y ys" using r by (simp_all add: ring_def y)
  have yn: "y \<noteq> n" using n y by (cases xs) auto
  have "chain (list_add h n st) y ys"
  proof (cases xs)
    case (Cons x zs)
    then have "chain st x (zs @ [h])" "x = y" "ys = zs @ [h]" using c y by auto
    then show ?thesis using r n Cons
      by (auto intro!: chain_frame [of st] simp: list_add_def Let_def ring_def)
  qed (use y in auto)
  then show ?thesis using n r c(1) yn by (auto simp: ring_def y list_add_def Let_def)
qed

lemma ring_add_tail:
  assumes r: "ring st h xs" and n: "n \<notin> set (h # xs)"
  shows "ring (list_add_tail h n st) h (xs @ [n])"
proof -
  let ?l = "last (h # xs)" and ?st = "list_add_tail h n st"
  have l: "lprev st h = ?l" "chain st h (xs @ [h])" using r chain_last by (auto simp: ring_def)
  have ln: "?l \<noteq> n" using n by auto
  have st: "lprev ?st = ((lprev st)(n := ?l))(h := n)" "lnext ?st = ((lnext st)(n := h))(?l := n)"
    using l(1) ln n by (simp_all add: list_add_tail_def Let_def)
  have "chain ?st h (xs @ [n])"
  proof (cases xs rule: rev_cases)
    case (snoc zs z)
    then have "chain st h (zs @ [z])" using l(2) chain_append [of st h zs z "[h]"] by simp
    then have "chain ?st h (zs @ [z])" using r n snoc l
      by (auto intro!: chain_frame [of st] simp: st ring_def)
    moreover have "chain ?st z [n]" using snoc n by (auto simp: st)
    ultimately show ?thesis using chain_append [of ?st h zs z "[n]"] snoc by simp
  qed (use n in \<open>auto simp: st\<close>)
  moreover have "chain ?st n [h]" using ln by (simp add: st)
  ultimately show ?thesis
    using n r chain_append [of ?st h xs n "[h]"] by (auto simp: ring_def)
qed

lemma ring_del:
  assumes r: "ring st h (xs @ n # ys)"
  shows "ring (list_del n st) h (xs @ ys) \<and> lnext (list_del n st) n = 0 \<and> lprev (list_del n st) n = 0"
proof -
  let ?p = "last (h # xs)" and ?st = "list_del n st"
  obtain y zs where y: "ys @ [h] = y # zs" by (cases ys) auto
  have d: "distinct (h # xs @ n # ys)" using r by (simp add: ring_def)
  have c: "chain st h (xs @ [n])" "lnext st n = y" "lprev st y = n" "chain st y zs"
    using r chain_append [of st h xs n "ys @ [h]"] by (simp_all add: ring_def y)
  have p: "lprev st n = ?p" "lnext st ?p = n" using chain_last [OF c(1)] by simp_all
  have yh: "y \<in> set ys \<or> y = h" using y by (cases ys) auto
  then have ne: "?p \<noteq> n" "y \<noteq> n" using d by auto
  have st: "lnext ?st = ((lnext st)(?p := y))(n := 0)" "lprev ?st = ((lprev st)(y := ?p))(n := 0)"
    using p c ne by (simp_all add: list_del_def Let_def)
  have "chain ?st y zs"
  proof (cases ys)
    case (Cons w ws)
    then have "chain st w (ws @ [h])" "w = y" "zs = ws @ [h]" using c y by auto
    moreover have "?p \<notin> set ys" using d last_in_set [of "h # xs"] by (auto simp del: last.simps)
    ultimately show ?thesis using d Cons by (auto intro!: chain_frame [of st] simp: st)
  qed (use y in auto)
  moreover have "chain ?st h (xs @ [y])"
  proof (cases xs rule: rev_cases)
    case (snoc vs v)
    then have "chain st h (vs @ [v])" using c(1) chain_append [of st h vs v "[n]"] by simp
    then have "chain ?st h (vs @ [v])" using d snoc yh
      by (auto intro!: chain_frame [of st] simp: st)
    moreover have "chain ?st v [y]" using snoc ne by (auto simp: st)
    ultimately show ?thesis using chain_append [of ?st h vs v "[y]"] snoc by simp
  qed (use ne in \<open>auto simp: st\<close>)
  ultimately have "chain ?st h ((xs @ ys) @ [h])" 
    using chain_append [of ?st h xs y zs] by (simp add: y)
  then show ?thesis using d by (auto simp: ring_def st)
qed

section \<open>Properties\<close>

text \<open>
  C6. On every well-formed list, the empty one included, the operations are those of a sequence:
  \<^verbatim>\<open>list_init\<close> makes an empty list, \<^verbatim>\<open>list_is_empty\<close> recognises it, \<^verbatim>\<open>list_add\<close> prepends and
  \<^verbatim>\<open>list_add_tail\<close> appends a node that is not on the list, and \<^verbatim>\<open>list_del\<close> removes a node wherever it is
  and clears its links.
\<close>

theorem list_refines:
  assumes "ring st h xs"
  shows "ring (list_init h st') h [] \<and> (list_is_empty h st \<longleftrightarrow> xs = []) \<and>
    (\<forall>x. x \<notin> set (h # xs) \<longrightarrow> ring (list_add h x st) h (x # xs) \<and> ring (list_add_tail h x st) h (xs @ [x])) \<and>
    (\<forall>as n bs. xs = as @ n # bs \<longrightarrow>
       ring (list_del n st) h (as @ bs) \<and> lnext (list_del n st) n = 0 \<and> lprev (list_del n st) n = 0)"
proof -
  have "list_is_empty h st \<longleftrightarrow> xs = []"
    using assms by (cases xs) (auto simp: ring_def list_is_empty_def)
  moreover have "ring (list_init h st') h []" by (simp add: ring_def list_init_def)
  ultimately show ?thesis using ring_add [OF assms] ring_add_tail [OF assms] ring_del assms by blast
qed

text \<open>The first insertion into a fresh list, at either end, and the removal of its only node.\<close>

theorem list_refines_witness:
  "ring (list_add 16 8 (list_init 16 \<lparr>lprev = (\<lambda>_. 0), lnext = (\<lambda>_. 0)\<rparr>)) 16 [8] \<and>
   ring (list_add_tail 16 8 (list_init 16 \<lparr>lprev = (\<lambda>_. 0), lnext = (\<lambda>_. 0)\<rparr>)) 16 [8] \<and>
   ring (list_del 8 (list_add 16 8 (list_init 16 \<lparr>lprev = (\<lambda>_. 0), lnext = (\<lambda>_. 0)\<rparr>))) 16 []"
proof -
  let ?st = "list_init 16 \<lparr>lprev = (\<lambda>_. 0), lnext = (\<lambda>_. 0)\<rparr>"
  have "ring ?st 16 []" by (simp add: ring_def list_init_def)
  from list_refines [OF this] have "ring (list_add 16 8 ?st) 16 [8]" "ring (list_add_tail 16 8 ?st) 16 [8]" by auto
  moreover from list_refines [OF this(1)] have "ring (list_del 8 (list_add 16 8 ?st)) 16 ([] @ [])" by blast
  ultimately show ?thesis by simp
qed

end
