(* ===== verification/Port_IO.thy ===== *)
theory Port_IO
  imports Prelude
begin

text \<open>
  Port I/O (\<^verbatim>\<open>src/cpu/io.c\<close>, one machine instruction per function) and the CMOS register access of
  \<^verbatim>\<open>src/drivers/CMOS.c\<close>.

  The devices behind the ports are not part of the program. A driver's effect is the sequence of its
  port accesses, the \<open>trace\<close> (oldest first), and the value a read returns is an arbitrary function of
  the accesses made so far: the parameter \<open>hw\<close>. Every deterministic device is such a function.
\<close>

datatype io_event =
    OutB u16 u8 | OutW u16 u16 | OutL u16 u32
  | InB u16 u8 | InW u16 u16 | InL u16 u32

type_synonym trace = "io_event list"

record hw =
  inb_val :: "trace \<Rightarrow> u16 \<Rightarrow> u8"
  inw_val :: "trace \<Rightarrow> u16 \<Rightarrow> u16"
  inl_val :: "trace \<Rightarrow> u16 \<Rightarrow> u32"

definition outb :: "u16 \<Rightarrow> u8 \<Rightarrow> trace \<Rightarrow> trace" where
  "outb port val tr = tr @ [OutB port val]"

definition inb :: "hw \<Rightarrow> u16 \<Rightarrow> trace \<Rightarrow> u8 \<times> trace" where
  "inb hw port tr = (let v = inb_val hw tr port in (v, tr @ [InB port v]))"

definition outw :: "u16 \<Rightarrow> u16 \<Rightarrow> trace \<Rightarrow> trace" where
  "outw port val tr = tr @ [OutW port val]"

definition inw :: "hw \<Rightarrow> u16 \<Rightarrow> trace \<Rightarrow> u16 \<times> trace" where
  "inw hw port tr = (let v = inw_val hw tr port in (v, tr @ [InW port v]))"

definition outl :: "u16 \<Rightarrow> u32 \<Rightarrow> trace \<Rightarrow> trace" where
  "outl port val tr = tr @ [OutL port val]"

definition inl :: "hw \<Rightarrow> u16 \<Rightarrow> trace \<Rightarrow> u32 \<times> trace" where
  "inl hw port tr = (let v = inl_val hw tr port in (v, tr @ [InL port v]))"

text \<open>\<^verbatim>\<open>rep insw\<close> and \<^verbatim>\<open>rep outsw\<close> over a buffer of 16-bit words.\<close>

primrec insw :: "hw \<Rightarrow> u16 \<Rightarrow> nat \<Rightarrow> trace \<Rightarrow> u16 list \<times> trace" where
  "insw hw port 0 tr = ([], tr)"
| "insw hw port (Suc n) tr =
     (case inw hw port tr of (v, tr1) \<Rightarrow>
      case insw hw port n tr1 of (vs, tr2) \<Rightarrow> (v # vs, tr2))"

primrec outsw :: "u16 \<Rightarrow> u16 list \<Rightarrow> trace \<Rightarrow> trace" where
  "outsw port [] tr = tr"
| "outsw port (v # vs) tr = outsw port vs (outw port v tr)"

section \<open>CMOS registers\<close>

definition CMOS_ADDR :: u16 where "CMOS_ADDR = 0x70"
definition CMOS_DATA :: u16 where "CMOS_DATA = 0x71"

definition cmos_write :: "u8 \<Rightarrow> u8 \<Rightarrow> trace \<Rightarrow> trace" where
  "cmos_write reg v tr = outb CMOS_DATA v (outb CMOS_ADDR reg tr)"

definition cmos_read :: "hw \<Rightarrow> u8 \<Rightarrow> trace \<Rightarrow> u8 \<times> trace" where
  "cmos_read hw reg tr = inb hw CMOS_DATA (outb CMOS_ADDR reg tr)"

section \<open>Traces\<close>

text \<open>Programs only append to the trace: nothing a driver did is undone.\<close>

lemma io_appends [simp]:
  "outb p b tr = tr @ [OutB p b]" "outw p w tr = tr @ [OutW p w]" "outl p l tr = tr @ [OutL p l]"
  by (simp_all add: outb_def outw_def outl_def)

lemma insw_length: "insw hw port n tr = (vs, tr') \<Longrightarrow> length vs = n \<and> tr' = tr @ map (InW port) vs"
proof (induction n arbitrary: tr vs tr')
  case (Suc n)
  obtain us tr1 where u: "insw hw port n (tr @ [InW port (inw_val hw tr port)]) = (us, tr1)" by force
  then show ?case using Suc.prems Suc.IH [OF u] by (auto simp: inw_def Let_def)
qed simp

lemma outsw_trace: "outsw port vs tr = tr @ map (OutW port) vs"
  by (induction vs arbitrary: tr) simp_all

end
