(* ===== verification/CharDev.thy ===== *)
theory CharDev
  imports Port_IO
begin

text \<open>
  Character devices: \<^verbatim>\<open>src/devices/char.c\<close> and the two drivers that provide one, the Bochs debug port
  (\<^verbatim>\<open>src/drivers/E9.c\<close>) and the transmit side of the serial port (\<^verbatim>\<open>src/drivers/UART16550.c\<close>).

  A \<^verbatim>\<open>putc\<close> callback acts on a state \<open>'s\<close>; its result is \<open>None\<close> when it does not return (the serial
  driver waits for the transmitter). A \<^verbatim>\<open>NULL\<close> device or callback is \<open>None\<close>. The locale \<open>char_dev\<close> is
  what the clients rely on: the characters handed to \<^verbatim>\<open>putc\<close> come out in order.
\<close>

type_synonym 's putc_fn = "char \<Rightarrow> 's \<Rightarrow> 's option"

record 's kernel_char_dev_t =
  DevCAP :: u64
  putc :: "'s putc_fn option"
  initialized :: bool

definition CHAR_IS_ERROR_HANDLER :: u64 where "CHAR_IS_ERROR_HANDLER = push_bit 0 1"

section \<open>Writing strings\<close>

text \<open>
  The loop of \<^verbatim>\<open>dev_puts\<close>; the string is the list of its characters before the terminator.
\<close>

fun puts_loop :: "'s putc_fn \<Rightarrow> string \<Rightarrow> 's \<Rightarrow> 's option" where
  "puts_loop f [] s = Some s"
| "puts_loop f (c # cs) s = (case f c s of None \<Rightarrow> None | Some s' \<Rightarrow> puts_loop f cs s')"

text \<open>\<^verbatim>\<open>dev_puts\<close> calls the callback without a check: with a \<^verbatim>\<open>NULL\<close> callback it jumps to address 0.\<close>

datatype puts_error = NullCallback

definition dev_puts :: "'s kernel_char_dev_t \<Rightarrow> string \<Rightarrow> 's \<Rightarrow> puts_error + 's option" where
  "dev_puts dev cs s =
     (if cs = [] then Inr (Some s)
      else case putc dev of None \<Rightarrow> Inl NullCallback | Some f \<Rightarrow> Inr (puts_loop f cs s))"

section \<open>Drivers\<close>

definition BOCHS_E9_PORT :: u16 where "BOCHS_E9_PORT = 0xE9"

definition E9_putc :: "char \<Rightarrow> trace \<Rightarrow> trace option" where
  "E9_putc c tr = Some (outb BOCHS_E9_PORT (of_char c) tr)"

definition e9_dev :: "trace kernel_char_dev_t" where
  "e9_dev = \<lparr>DevCAP = CHAR_IS_ERROR_HANDLER, putc = Some E9_putc, initialized = True\<rparr>"

definition UART_COM1 :: u16 where "UART_COM1 = 0x3F8"
definition UART_DATA :: u16 where "UART_DATA = 0"
definition UART_IER :: u16 where "UART_IER = 1"
definition UART_FCR :: u16 where "UART_FCR = 2"
definition UART_LCR :: u16 where "UART_LCR = 3"
definition UART_MCR :: u16 where "UART_MCR = 4"
definition UART_LSR :: u16 where "UART_LSR = 5"
definition UART_LSR_RX_READY :: u8 where "UART_LSR_RX_READY = 0x01"
definition UART_LSR_TX_EMPTY :: u8 where "UART_LSR_TX_EMPTY = 0x20"

partial_function (option) uart16550_wait_tx :: "hw \<Rightarrow> trace \<Rightarrow> trace option" where
  "uart16550_wait_tx hw tr =
     (case inb hw (UART_COM1 + UART_LSR) tr of
        (v, tr') \<Rightarrow> if v AND UART_LSR_TX_EMPTY \<noteq> 0 then Some tr' else uart16550_wait_tx hw tr')"

definition uart16550_putc :: "hw \<Rightarrow> char \<Rightarrow> trace \<Rightarrow> trace option" where
  "uart16550_putc hw c tr =
     (case uart16550_wait_tx hw tr of
        None \<Rightarrow> None
      | Some tr' \<Rightarrow> Some (outb (UART_COM1 + UART_DATA) (of_char c) tr'))"

definition uart16550_dev :: "hw \<Rightarrow> trace kernel_char_dev_t" where
  "uart16550_dev hw = \<lparr>DevCAP = CHAR_IS_ERROR_HANDLER, putc = Some (uart16550_putc hw), initialized = False\<rparr>"

text \<open>The register writes of \<^verbatim>\<open>uart16550_init\<close>, after the device registration.\<close>

definition uart16550_init_regs :: "trace \<Rightarrow> trace" where
  "uart16550_init_regs tr0 =
     (let tr1 = outb (UART_COM1 + UART_IER) 0x00 tr0;
          tr2 = outb (UART_COM1 + UART_LCR) 0x80 tr1;
          tr3 = outb (UART_COM1 + UART_DATA) 0x01 tr2;
          tr4 = outb (UART_COM1 + UART_IER) 0x00 tr3;
          tr5 = outb (UART_COM1 + UART_LCR) 0x03 tr4;
          tr6 = outb (UART_COM1 + UART_FCR) 0xC7 tr5
      in outb (UART_COM1 + UART_MCR) 0x0B tr6)"

section \<open>The interface\<close>

locale char_dev =
  fixes put :: "'s putc_fn" and out :: "'s \<Rightarrow> string" and ready :: "'s \<Rightarrow> bool"
  assumes put_ready: "ready s \<Longrightarrow> \<exists>s'. put c s = Some s' \<and> ready s'"
    and put_out: "ready s \<Longrightarrow> put c s = Some s' \<Longrightarrow> out s' = out s @ [c]"
begin

lemma puts_out: "ready s \<Longrightarrow> \<exists>s'. puts_loop put cs s = Some s' \<and> ready s' \<and> out s' = out s @ cs"
proof (induction cs arbitrary: s)
  case (Cons c cs)
  obtain s1 where "put c s = Some s1" "ready s1" using put_ready [OF Cons.prems] by blast
  then show ?case using Cons.IH [of s1] put_out [OF Cons.prems] by auto
qed simp

lemma dev_puts_out:
  "putc dev = Some put \<Longrightarrow> ready s \<Longrightarrow>
     \<exists>s'. dev_puts dev cs s = Inr (Some s') \<and> ready s' \<and> out s' = out s @ cs"
  using puts_out [of s cs] by (auto simp: dev_puts_def)

end

text \<open>The characters that reached a data port, in the order they were written.\<close>

fun port_text :: "u16 \<Rightarrow> trace \<Rightarrow> string" where
  "port_text port [] = []"
| "port_text port (OutB p v # tr) =
     (if p = port then char_of (unat v) # port_text port tr else port_text port tr)"
| "port_text port (_ # tr) = port_text port tr"

lemma port_text_append [simp]: "port_text port (tr @ tr') = port_text port tr @ port_text port tr'"
  by (induction port tr rule: port_text.induct) simp_all

interpretation e9: char_dev E9_putc "port_text BOCHS_E9_PORT" "\<lambda>_. True"
  by unfold_locales (auto simp: E9_putc_def)

section \<open>The serial transmitter\<close>

text \<open>
  The line status reads \<^verbatim>\<open>uart16550_wait_tx\<close> makes before the transmitter is empty. The hypothesis on
  the hardware is that it becomes empty after finitely many of them.
\<close>

primrec lsr_polls :: "hw \<Rightarrow> nat \<Rightarrow> trace \<Rightarrow> trace" where
  "lsr_polls hw 0 tr = tr"
| "lsr_polls hw (Suc n) tr = lsr_polls hw n (snd (inb hw (UART_COM1 + UART_LSR) tr))"

definition tx_drains :: "hw \<Rightarrow> bool" where
  "tx_drains hw \<longleftrightarrow>
     (\<forall>tr. \<exists>n. inb_val hw (lsr_polls hw n tr) (UART_COM1 + UART_LSR) AND UART_LSR_TX_EMPTY \<noteq> 0)"

lemma wait_tx_returns:
  "inb_val hw (lsr_polls hw n tr) (UART_COM1 + UART_LSR) AND UART_LSR_TX_EMPTY \<noteq> 0 \<Longrightarrow>
     \<exists>tr'. uart16550_wait_tx hw tr = Some tr' \<and> port_text p tr' = port_text p tr"
proof (induction n arbitrary: tr)
  case 0
  then show ?case by (subst uart16550_wait_tx.simps) (simp add: inb_def Let_def)
next
  case (Suc n)
  have t: "port_text p (snd (inb hw q tr)) = port_text p tr" for q by (simp add: inb_def Let_def)
  from Suc.IH [of "snd (inb hw (UART_COM1 + UART_LSR) tr)"] Suc.prems show ?case
    by (subst uart16550_wait_tx.simps) (auto simp: case_prod_unfold t)
qed

lemma uart_char_dev:
  "tx_drains hw \<Longrightarrow> char_dev (uart16550_putc hw) (port_text (UART_COM1 + UART_DATA)) (\<lambda>_. True)"
proof unfold_locales
  fix c s s'
  assume d: "tx_drains hw"
  obtain tr' where w: "uart16550_wait_tx hw s = Some tr'"
      "port_text (UART_COM1 + UART_DATA) tr' = port_text (UART_COM1 + UART_DATA) s"
    using d wait_tx_returns unfolding tx_drains_def by metis
  show "\<exists>s'. uart16550_putc hw c s = Some s' \<and> True" by (simp add: uart16550_putc_def w)
  show "port_text (UART_COM1 + UART_DATA) s' = port_text (UART_COM1 + UART_DATA) s @ [c]"
    if "uart16550_putc hw c s = Some s'"
    using that w by (auto simp: uart16550_putc_def)
qed

section \<open>Properties\<close>

text \<open>
  \<^verbatim>\<open>dev_puts\<close> on the debug port and on the serial port returns and the device receives exactly
  the characters of the string, in order; the serial hardware's transmitter must become empty after
  finitely many status reads.
\<close>

theorem dev_puts_delivers:
  assumes "tx_drains hw"
  shows "(\<exists>tr'. dev_puts e9_dev cs tr = Inr (Some tr') \<and>
      port_text 0xE9 tr' = port_text 0xE9 tr @ cs) \<and>
    (\<exists>tr'. dev_puts (uart16550_dev hw) cs tr = Inr (Some tr') \<and>
      port_text 0x3F8 tr' = port_text 0x3F8 tr @ cs)"
proof -
  have uart: "\<exists>tr'. dev_puts (uart16550_dev hw) cs tr = Inr (Some tr') \<and> True \<and>
      port_text (UART_COM1 + UART_DATA) tr' = port_text (UART_COM1 + UART_DATA) tr @ cs"
    by (rule char_dev.dev_puts_out [OF uart_char_dev [OF assms]]) (simp_all add: uart16550_dev_def)
  have "\<exists>tr'. dev_puts e9_dev cs tr = Inr (Some tr') \<and> True \<and>
      port_text BOCHS_E9_PORT tr' = port_text BOCHS_E9_PORT tr @ cs"
    by (rule e9.dev_puts_out) (simp_all add: e9_dev_def)
  then show ?thesis using uart by (simp add: BOCHS_E9_PORT_def UART_COM1_def UART_DATA_def)
qed

text \<open>A serial port whose transmitter is empty at every second status read.\<close>

definition slow_uart :: hw where
  "slow_uart = \<lparr>inb_val = (\<lambda>tr p. if odd (length tr) then 0x20 else 0), inw_val = (\<lambda>_ _. 0), inl_val = (\<lambda>_ _. 0)\<rparr>"

theorem dev_puts_delivers_witness:
  "\<exists>tr'. dev_puts (uart16550_dev slow_uart) ''ok'' [] = Inr (Some tr') \<and> port_text 0x3F8 tr' = ''ok''"
proof -
  have "\<exists>n. inb_val slow_uart (lsr_polls slow_uart n tr) (UART_COM1 + UART_LSR) AND UART_LSR_TX_EMPTY \<noteq> 0" for tr
    by (rule exI [of _ "if odd (length tr) then 0 else 1"])
       (simp add: slow_uart_def UART_LSR_TX_EMPTY_def inb_def Let_def)
  then have "tx_drains slow_uart" by (simp add: tx_drains_def)
  from dev_puts_delivers [OF this, of "''ok''" "[]"] show ?thesis by simp
qed

end
