(* ===== verification/Logbuf.thy ===== *)
theory Logbuf
  imports CharDev
begin

text \<open>
  The kernel log of \<^verbatim>\<open>src/logbuf.c\<close>: a ring of 16384 characters with a read and a write position. The
  static variables are the record \<open>logbuf\<close>; the positions are the 32-bit counters of the code, and
  \<^verbatim>\<open>logbuf_write\<close> mixes them with a 64-bit length, so its comparisons are on 64-bit words.

  \<open>log_text\<close> is the abstract view, the characters \<^verbatim>\<open>logbuf_flush\<close> emits.
\<close>

definition LOGBUF_SIZE :: nat where "LOGBUF_SIZE = 16384"

record logbuf =
  buffer :: "nat \<Rightarrow> char"
  write_pos :: u32
  read_pos :: u32
  wrapped :: bool

definition logbuf_putc :: "char \<Rightarrow> logbuf \<Rightarrow> logbuf" where
  "logbuf_putc c lb =
     (let w = (write_pos lb + 1) mod of_nat LOGBUF_SIZE;
          lb' = lb\<lparr>buffer := (buffer lb)(unat (write_pos lb) := c), write_pos := w\<rparr>
      in if w = read_pos lb
         then lb'\<lparr>read_pos := (read_pos lb + 1) mod of_nat LOGBUF_SIZE, wrapped := True\<rparr>
         else lb')"

text \<open>\<^verbatim>\<open>memcpy\<close> of a piece of the string into the ring, starting at an index.\<close>

definition copy_into :: "(nat \<Rightarrow> char) \<Rightarrow> nat \<Rightarrow> string \<Rightarrow> nat \<Rightarrow> char" where
  "copy_into b i cs = (\<lambda>j. if i \<le> j \<and> j < i + length cs then cs ! (j - i) else b j)"

definition logbuf_write :: "string \<Rightarrow> logbuf \<Rightarrow> logbuf" where
  "logbuf_write str lb =
     (let len = of_nat (length str) :: u64;
          space_until_end = of_nat LOGBUF_SIZE - ucast (write_pos lb) :: u64;
          first_chunk = (if len < space_until_end then len else space_until_end);
          second_chunk = len - first_chunk;
          b1 = copy_into (buffer lb) (unat (write_pos lb)) (take (unat first_chunk) str);
          b2 = (if second_chunk > 0 then copy_into b1 0 (drop (unat first_chunk) str) else b1);
          w64 = (ucast (write_pos lb) + len) mod of_nat LOGBUF_SIZE;
          lb' = lb\<lparr>buffer := b2, write_pos := ucast w64\<rparr>;
          r64 = ucast (read_pos lb) :: u64 in
      if len \<ge> of_nat LOGBUF_SIZE then lb'\<lparr>read_pos := ucast w64, wrapped := True\<rparr>
      else if w64 > r64 \<and> w64 - len < r64 then lb'\<lparr>read_pos := ucast w64, wrapped := True\<rparr>
      else if w64 < r64 \<and> w64 + of_nat LOGBUF_SIZE - len < r64
           then lb'\<lparr>read_pos := ucast w64, wrapped := True\<rparr>
      else lb')"

partial_function (option) flush_loop ::
  "'s putc_fn \<Rightarrow> (nat \<Rightarrow> char) \<Rightarrow> u32 \<Rightarrow> u32 \<Rightarrow> 's \<Rightarrow> 's option" where
  "flush_loop f b cur w s =
     (if cur = w then Some s
      else case f (b (unat cur)) s of
             None \<Rightarrow> None
           | Some s' \<Rightarrow> flush_loop f b ((cur + 1) mod of_nat LOGBUF_SIZE) w s')"

text \<open>\<^verbatim>\<open>logbuf_flush\<close> does nothing without a device or a callback; \<open>None\<close> means it does not return.\<close>

definition logbuf_flush :: "'s kernel_char_dev_t option \<Rightarrow> logbuf \<Rightarrow> 's \<Rightarrow> 's option" where
  "logbuf_flush target lb s =
     (case target of
        None \<Rightarrow> Some s
      | Some dev \<Rightarrow>
          (case putc dev of
             None \<Rightarrow> Some s
           | Some f \<Rightarrow> flush_loop f (buffer lb) (read_pos lb) (write_pos lb) s))"

definition logbuf_clear :: "logbuf \<Rightarrow> logbuf" where
  "logbuf_clear lb = lb\<lparr>read_pos := write_pos lb\<rparr>"

section \<open>The log as a text\<close>

definition log_inv :: "logbuf \<Rightarrow> bool" where
  "log_inv lb \<longleftrightarrow> unat (write_pos lb) < LOGBUF_SIZE \<and> unat (read_pos lb) < LOGBUF_SIZE"

definition ring_slice :: "(nat \<Rightarrow> char) \<Rightarrow> nat \<Rightarrow> nat \<Rightarrow> string" where
  "ring_slice b r n = map (\<lambda>i. b ((r + i) mod LOGBUF_SIZE)) [0..<n]"

definition ring_dist :: "nat \<Rightarrow> nat \<Rightarrow> nat" where
  "ring_dist r w = (if r \<le> w then w - r else w + LOGBUF_SIZE - r)"

definition log_text :: "logbuf \<Rightarrow> string" where
  "log_text lb = ring_slice (buffer lb) (unat (read_pos lb))
     (ring_dist (unat (read_pos lb)) (unat (write_pos lb)))"

lemma wrap_mod: "x < 2 * n \<Longrightarrow> x mod n = (if x < n then x else x - n :: nat)"
  by (simp add: mod_if)

lemma unat_size: "unat (of_nat LOGBUF_SIZE :: u32) = 16384" "unat (of_nat LOGBUF_SIZE :: u64) = 16384"
  by (simp_all add: LOGBUF_SIZE_def)

lemma unat_next:
  "unat p < LOGBUF_SIZE \<Longrightarrow> unat ((p + 1) mod of_nat LOGBUF_SIZE :: u32) = (unat p + 1) mod LOGBUF_SIZE"
  by (simp add: unat_mod_distrib LOGBUF_SIZE_def unat_word_ariths)

lemma length_ring_slice [simp]: "length (ring_slice b r n) = n"
  by (simp add: ring_slice_def)

lemma ring_slice_Suc: "ring_slice b r (Suc n) = ring_slice b r n @ [b ((r + n) mod LOGBUF_SIZE)]"
  by (simp add: ring_slice_def)

lemma ring_slice_add:
  "ring_slice b r (m + n) = ring_slice b r m @ ring_slice b ((r + m) mod LOGBUF_SIZE) n"
  by (induction n) (simp_all add: ring_slice_Suc mod_add_left_eq add.assoc, simp add: ring_slice_def)

lemma ring_slice_shift: "ring_slice b r (Suc n) = b (r mod LOGBUF_SIZE) # ring_slice b ((r + 1) mod LOGBUF_SIZE) n"
  using ring_slice_add [of b r 1 n] by (simp add: ring_slice_def)

lemma ring_slice_cong:
  "(\<And>i. i < n \<Longrightarrow> b ((r + i) mod LOGBUF_SIZE) = b' ((r + i) mod LOGBUF_SIZE)) \<Longrightarrow>
     ring_slice b r n = ring_slice b' r n"
  by (simp add: ring_slice_def)

lemma ring_dist_lt: "r < LOGBUF_SIZE \<Longrightarrow> w < LOGBUF_SIZE \<Longrightarrow> ring_dist r w < LOGBUF_SIZE"
  by (auto simp: ring_dist_def)

lemma ring_dist_end: "r < LOGBUF_SIZE \<Longrightarrow> w < LOGBUF_SIZE \<Longrightarrow> (r + ring_dist r w) mod LOGBUF_SIZE = w"
  by (auto simp: ring_dist_def)

lemma ring_dist_next:
  "r < LOGBUF_SIZE \<Longrightarrow> w < LOGBUF_SIZE \<Longrightarrow> r \<noteq> w \<Longrightarrow>
     ring_dist r w = Suc (ring_dist ((r + 1) mod LOGBUF_SIZE) w)"
  by (cases "r + 1 = LOGBUF_SIZE") (auto simp: ring_dist_def)

lemma ring_index_inj:
  "r < LOGBUF_SIZE \<Longrightarrow> i < LOGBUF_SIZE \<Longrightarrow> j < LOGBUF_SIZE \<Longrightarrow>
     (r + i) mod LOGBUF_SIZE = (r + j) mod LOGBUF_SIZE \<longleftrightarrow> i = j"
  by (auto simp: mod_if split: if_splits)

section \<open>Writing one character\<close>

text \<open>A full ring (one slot always stays empty) forgets its oldest character.\<close>

definition bounded_snoc :: "char \<Rightarrow> string \<Rightarrow> string" where
  "bounded_snoc c t = (if length t = LOGBUF_SIZE - 1 then tl t else t) @ [c]"

lemma putc_text:
  assumes "log_inv lb"
  shows "log_inv (logbuf_putc c lb)" "log_text (logbuf_putc c lb) = bounded_snoc c (log_text lb)"
proof -
  let ?r = "unat (read_pos lb)" and ?w = "unat (write_pos lb)"
  let ?n = "ring_dist ?r ?w" and ?b = "(buffer lb)(?w := c)"
  have r: "?r < LOGBUF_SIZE" and w: "?w < LOGBUF_SIZE" using assms by (auto simp: log_inv_def)
  note nw = unat_next [OF w] and nr = unat_next [OF r]
  have pos: "x mod LOGBUF_SIZE < LOGBUF_SIZE" for x by (simp add: LOGBUF_SIZE_def)
  show inv: "log_inv (logbuf_putc c lb)"
    using r w pos by (auto simp: log_inv_def logbuf_putc_def Let_def nw nr)
  have old: "ring_slice ?b ?r ?n = log_text lb"
    unfolding log_text_def
  proof (rule ring_slice_cong)
    fix i
    assume i: "i < ?n"
    then have "(?r + i) mod LOGBUF_SIZE \<noteq> (?r + ?n) mod LOGBUF_SIZE"
      using ring_index_inj [OF r] ring_dist_lt [OF r w] by simp
    then show "?b ((?r + i) mod LOGBUF_SIZE) = buffer lb ((?r + i) mod LOGBUF_SIZE)"
      using ring_dist_end [OF r w] by simp
  qed
  have ext: "ring_slice ?b ?r (Suc ?n) = log_text lb @ [c]"
    by (simp add: ring_slice_Suc old ring_dist_end [OF r w])
  have full: "(write_pos lb + 1) mod of_nat LOGBUF_SIZE = read_pos lb \<longleftrightarrow> ?n = LOGBUF_SIZE - 1"
    unfolding word_unat_eq_iff nw using r w
    by (cases "?w + 1 = LOGBUF_SIZE") (auto simp: ring_dist_def)
  have fields: "buffer (logbuf_putc c lb) = ?b" "unat (write_pos (logbuf_putc c lb)) = (?w + 1) mod LOGBUF_SIZE"
    "unat (read_pos (logbuf_putc c lb)) = (if ?n = LOGBUF_SIZE - 1 then (?r + 1) mod LOGBUF_SIZE else ?r)"
    using full by (simp_all add: logbuf_putc_def Let_def nw nr del: One_nat_def)
  have len: "length (log_text lb) = ?n" by (simp add: log_text_def)
  show "log_text (logbuf_putc c lb) = bounded_snoc c (log_text lb)"
  proof (cases "?n = LOGBUF_SIZE - 1")
    case True
    have d: "ring_dist ((?r + 1) mod LOGBUF_SIZE) ((?w + 1) mod LOGBUF_SIZE) = ?n"
      using True r w by (cases "?r + 1 = LOGBUF_SIZE"; cases "?w + 1 = LOGBUF_SIZE") (auto simp: ring_dist_def)
    have "log_text (logbuf_putc c lb) = ring_slice ?b ((?r + 1) mod LOGBUF_SIZE) ?n"
      unfolding log_text_def [of "logbuf_putc c lb"] fields using True d by simp
    also have "\<dots> = tl (ring_slice ?b ?r (Suc ?n))" by (simp add: ring_slice_shift)
    also have "\<dots> = tl (log_text lb @ [c])" by (simp only: ext)
    also have "\<dots> = tl (log_text lb) @ [c]"
      using True len by (cases "log_text lb") (simp_all add: LOGBUF_SIZE_def)
    finally show ?thesis using True len by (simp add: bounded_snoc_def)
  next
    case False
    then have "ring_dist ?r ((?w + 1) mod LOGBUF_SIZE) = Suc ?n"
      using r w by (cases "?w + 1 = LOGBUF_SIZE") (auto simp: ring_dist_def)
    then have "log_text (logbuf_putc c lb) = log_text lb @ [c]"
      unfolding log_text_def [of "logbuf_putc c lb"] fields using False ext by simp
    then show ?thesis using False len by (simp add: bounded_snoc_def)
  qed
qed

section \<open>Writing a string\<close>

lemma sub_below_wraps:
  assumes "unat a < 2 ^ 32" and "unat n < 2 ^ 32" and "unat r < 2 ^ 32"
  shows "(a :: u64) - n < r \<longleftrightarrow> unat n \<le> unat a \<and> unat a - unat n < unat r"
proof (cases "n \<le> a")
  case True
  then show ?thesis by (simp add: word_less_nat_alt unat_minus_le word_le_nat_alt)
next
  case False
  have "unat (a - n) = unat a + 2 ^ 64 - unat n"
    using False by (simp add: unat_sub_if' word_le_nat_alt)
  then have "\<not> unat (a - n) < unat r" using assms by simp
  then show ?thesis using False by (simp add: word_less_nat_alt word_le_nat_alt)
qed

lemma write_fields:
  assumes inv: "log_inv lb" and L: "length str < LOGBUF_SIZE"
  defines "w \<equiv> unat (write_pos lb)" and "r \<equiv> unat (read_pos lb)"
  defines "w' \<equiv> (w + length str) mod LOGBUF_SIZE"
  shows "unat (write_pos (logbuf_write str lb)) = w'"
    and "unat (read_pos (logbuf_write str lb)) =
      (if (r < w' \<and> length str \<le> w' \<and> w' - length str < r) \<or>
          (w' < r \<and> w' + LOGBUF_SIZE - length str < r) then w' else r)"
    and "buffer (logbuf_write str lb) =
      (let first = min (length str) (LOGBUF_SIZE - w)
       in copy_into (copy_into (buffer lb) w (take first str)) 0 (drop first str))"
proof -
  let ?len = "of_nat (length str) :: u64" and ?S = "of_nat LOGBUF_SIZE :: u64"
  let ?w = "ucast (write_pos lb) :: u64" and ?r = "ucast (read_pos lb) :: u64"
  let ?w64 = "(?w + ?len) mod ?S"
  have lens: "unat ?len = length str" "unat ?S = LOGBUF_SIZE" "unat ?w = w" "unat ?r = r"
    using L by (simp_all add: unat_of_nat LOGBUF_SIZE_def w_def r_def unat_ucast_up)
  have lt: "w < LOGBUF_SIZE" "r < LOGBUF_SIZE" using inv by (simp_all add: log_inv_def w_def r_def)
  have w64: "unat ?w64 = w'"
    using lens lt L by (simp add: unat_mod_distrib unat_word_ariths w'_def LOGBUF_SIZE_def)
  have w32: "unat (ucast ?w64 :: u32) = w'"
    using w64 by (simp add: unsigned_ucast_eq take_bit_eq_mod w'_def LOGBUF_SIZE_def)
  have c1: "\<not> ?len \<ge> ?S" using L lens by (simp add: word_le_nat_alt)
  have w': "w' < LOGBUF_SIZE" by (simp add: w'_def LOGBUF_SIZE_def)
  have c2: "?w64 > ?r \<and> ?w64 - ?len < ?r \<longleftrightarrow> r < w' \<and> length str \<le> w' \<and> w' - length str < r"
    using sub_below_wraps [of ?w64 ?len ?r] lens lt L w' w64
    by (simp add: word_less_nat_alt LOGBUF_SIZE_def)
  have "unat (?w64 + ?S - ?len) = w' + LOGBUF_SIZE - length str"
    using lens lt L w64 w' by (simp add: unat_minus_le word_le_nat_alt unat_word_ariths LOGBUF_SIZE_def)
  then have c3: "?w64 < ?r \<and> ?w64 + ?S - ?len < ?r \<longleftrightarrow> w' < r \<and> w' + LOGBUF_SIZE - length str < r"
    using lens w64 by (simp add: word_less_nat_alt)
  show "unat (write_pos (logbuf_write str lb)) = w'"
    using w32 by (simp add: logbuf_write_def Let_def)
  show "unat (read_pos (logbuf_write str lb)) =
      (if (r < w' \<and> length str \<le> w' \<and> w' - length str < r) \<or>
          (w' < r \<and> w' + LOGBUF_SIZE - length str < r) then w' else r)"
    using w32 unfolding logbuf_write_def Let_def c2 c3 using c1 by (simp add: r_def)
  let ?space = "?S - ?w"
  have space: "unat ?space = LOGBUF_SIZE - w" using lens lt by (simp add: unat_minus_le word_le_nat_alt)
  let ?first = "if ?len < ?space then ?len else ?space"
  have first: "unat ?first = min (length str) (LOGBUF_SIZE - w)"
    using lens space by (simp add: word_less_nat_alt min_def)
  then have "unat (?len - ?first) = length str - unat ?first"
    using lens by (simp add: unat_minus_le word_le_nat_alt)
  then have second: "?len - ?first > 0 \<longleftrightarrow> unat ?first < length str"
    using lens by (metis unat_gt_0 word_neq_0_conv zero_less_diff)
  have none: "copy_into b 0 (drop (length str) str) = b" for b by (auto simp: copy_into_def)
  show "buffer (logbuf_write str lb) =
      (let first = min (length str) (LOGBUF_SIZE - w)
       in copy_into (copy_into (buffer lb) w (take first str)) 0 (drop first str))"
    unfolding logbuf_write_def Let_def second first
    using none by (auto simp: w_def [symmetric])
qed

lemma two_chunks:
  fixes b :: "nat \<Rightarrow> char"
  assumes "w < LOGBUF_SIZE" and "length str < LOGBUF_SIZE"
  defines "b' \<equiv> let first = min (length str) (LOGBUF_SIZE - w)
    in copy_into (copy_into b w (take first str)) 0 (drop first str)"
  shows "i < length str \<Longrightarrow> b' ((w + i) mod LOGBUF_SIZE) = str ! i"
    and "length str \<le> i \<Longrightarrow> i < LOGBUF_SIZE \<Longrightarrow> b' ((w + i) mod LOGBUF_SIZE) = b ((w + i) mod LOGBUF_SIZE)"
proof -
  have m: "i < LOGBUF_SIZE \<Longrightarrow>
      (w + i) mod LOGBUF_SIZE = (if w + i < LOGBUF_SIZE then w + i else w + i - LOGBUF_SIZE)"
    using assms(1) by (simp add: mod_if)
  show "b' ((w + i) mod LOGBUF_SIZE) = str ! i" if "i < length str"
    using that assms(1,2) m unfolding b'_def
    by (auto simp: copy_into_def Let_def min_def intro!: arg_cong [of _ _ "nth str"])
  show "b' ((w + i) mod LOGBUF_SIZE) = b ((w + i) mod LOGBUF_SIZE)" if "length str \<le> i" "i < LOGBUF_SIZE"
    using that assms(1,2) m unfolding b'_def by (auto simp: copy_into_def Let_def min_def)
qed

lemma write_text:
  assumes inv: "log_inv lb" and fits: "length (log_text lb) + length str < LOGBUF_SIZE"
  shows "log_inv (logbuf_write str lb)" "log_text (logbuf_write str lb) = log_text lb @ str"
proof -
  let ?r = "unat (read_pos lb)" and ?w = "unat (write_pos lb)" and ?b = "buffer (logbuf_write str lb)"
  let ?n = "ring_dist ?r ?w" and ?w' = "(?w + length str) mod LOGBUF_SIZE"
  have lt: "?r < LOGBUF_SIZE" "?w < LOGBUF_SIZE" using inv by (auto simp: log_inv_def)
  have n: "length (log_text lb) = ?n" by (simp add: log_text_def)
  have L: "length str < LOGBUF_SIZE" using fits by simp
  note f = write_fields [OF inv L]
  have m: "?w' = (if ?w + length str < LOGBUF_SIZE then ?w + length str else ?w + length str - LOGBUF_SIZE)"
    using lt L by (simp add: mod_if)
  have "\<not> ((?r < ?w' \<and> length str \<le> ?w' \<and> ?w' - length str < ?r) \<or>
      (?w' < ?r \<and> ?w' + LOGBUF_SIZE - length str < ?r))"
    and d: "ring_dist ?r ?w' = ?n + length str"
    using fits lt n unfolding m ring_dist_def by (auto split: if_splits)
  then have r: "unat (read_pos (logbuf_write str lb)) = ?r" by (simp only: f(2)) simp
  have pos: "?w' < LOGBUF_SIZE" by (simp add: LOGBUF_SIZE_def)
  show "log_inv (logbuf_write str lb)" using lt pos by (simp add: log_inv_def f(1) r)
  have new: "ring_slice ?b ?w (length str) = str"
    by (rule nth_equalityI)
       (simp_all add: ring_slice_def f(3) two_chunks(1) [OF lt(2) L, of _ "buffer lb"])
  have old: "ring_slice ?b ?r ?n = log_text lb"
    unfolding log_text_def
  proof (rule ring_slice_cong)
    fix i
    assume i: "i < ?n"
    have e: "?w + (LOGBUF_SIZE - ?n + i) = ?r + i + (if ?r \<le> ?w then LOGBUF_SIZE else 0)"
      using lt by (simp add: ring_dist_def)
    have "(?r + i) mod LOGBUF_SIZE = (?w + (LOGBUF_SIZE - ?n + i)) mod LOGBUF_SIZE" by (simp only: e) simp
    then show "?b ((?r + i) mod LOGBUF_SIZE) = buffer lb ((?r + i) mod LOGBUF_SIZE)"
      using two_chunks(2) [OF lt(2) L, of "LOGBUF_SIZE - ?n + i" "buffer lb"] i fits n ring_dist_lt [OF lt]
      by (simp add: f(3))
  qed
  show "log_text (logbuf_write str lb) = log_text lb @ str"
    unfolding log_text_def [of "logbuf_write str lb"] f(1) r d ring_slice_add ring_dist_end [OF lt]
    by (simp add: old new)
qed

section \<open>Emitting the log\<close>

context char_dev
begin

lemma flush_out:
  assumes "ready s" and "r < LOGBUF_SIZE" and "unat w < LOGBUF_SIZE" and "unat cur = r"
  shows "\<exists>s'. flush_loop put b cur w s = Some s' \<and> ready s' \<and>
    out s' = out s @ ring_slice b r (ring_dist r (unat w))"
  using assms
proof (induction "ring_dist r (unat w)" arbitrary: r cur s)
  case 0
  then have "cur = w" by (auto simp: ring_dist_def word_unat_eq_iff split: if_splits)
  then show ?case using 0 by (subst flush_loop.simps) (simp add: ring_slice_def)
next
  case (Suc n)
  have ne: "r \<noteq> unat w" using Suc.hyps(2) by (auto simp: ring_dist_def)
  then have cw: "cur \<noteq> w" using Suc.prems(4) by auto
  have next_pos: "unat ((cur + 1) mod of_nat LOGBUF_SIZE :: u32) = (r + 1) mod LOGBUF_SIZE"
    using unat_next [of cur] Suc.prems by simp
  have d: "ring_dist r (unat w) = Suc (ring_dist ((r + 1) mod LOGBUF_SIZE) (unat w))"
    using ring_dist_next Suc.prems ne by blast
  obtain s1 where s1: "put (b r) s = Some s1" "ready s1" using put_ready [OF Suc.prems(1)] by blast
  note o1 = put_out [OF Suc.prems(1) s1(1)]
  have "\<exists>s'. flush_loop put b ((cur + 1) mod of_nat LOGBUF_SIZE) w s1 = Some s' \<and> ready s' \<and>
    out s' = out s1 @ ring_slice b ((r + 1) mod LOGBUF_SIZE) (ring_dist ((r + 1) mod LOGBUF_SIZE) (unat w))"
    using Suc.hyps(2) d s1(2) Suc.prems(3) next_pos
    by (intro Suc.hyps(1)) (simp_all add: LOGBUF_SIZE_def)
  then show ?case
    using s1(1) o1 cw Suc.prems by (subst flush_loop.simps) (simp add: d ring_slice_shift)
qed

lemma logbuf_flush_out:
  "putc dev = Some put \<Longrightarrow> ready s \<Longrightarrow> log_inv lb \<Longrightarrow>
     \<exists>s'. logbuf_flush (Some dev) lb s = Some s' \<and> ready s' \<and> out s' = out s @ log_text lb"
  using flush_out [of s "unat (read_pos lb)" "write_pos lb" "read_pos lb" "buffer lb"]
  by (simp add: logbuf_flush_def log_text_def log_inv_def)

end

section \<open>Properties\<close>

text \<open>
  C7. \<^verbatim>\<open>logbuf_putc\<close> is a bounded queue: it appends the character, and drops the oldest one exactly
  when 16383 characters are stored; the positions stay inside the array.
\<close>

theorem logbuf_putc_bounded_queue:
  assumes "log_inv lb"
  shows "log_inv (logbuf_putc c lb) \<and>
    log_text (logbuf_putc c lb) =
      (if length (log_text lb) = 16383 then tl (log_text lb) else log_text lb) @ [c]"
  using putc_text [OF assms, of c] by (simp add: bounded_snoc_def LOGBUF_SIZE_def)

definition empty_log :: logbuf where
  "empty_log = \<lparr>buffer = (\<lambda>_. CHR 0x00), write_pos = 0, read_pos = 0, wrapped = False\<rparr>"

lemma empty_log_inv: "log_inv empty_log" "log_text empty_log = []"
  by (simp_all add: log_inv_def empty_log_def LOGBUF_SIZE_def log_text_def ring_slice_def ring_dist_def)

theorem logbuf_putc_bounded_queue_witness: "log_text (logbuf_putc (CHR ''a'') empty_log) = ''a''"
  using logbuf_putc_bounded_queue [OF empty_log_inv(1), of "CHR ''a''"] by (simp add: empty_log_inv(2))

text \<open>
  \<^verbatim>\<open>logbuf_write\<close> appends the string whenever it fits beside what is stored, across the end of
  the array or not, and a following \<^verbatim>\<open>logbuf_flush\<close> hands the device the whole stored text and then the
  string.
\<close>

theorem logbuf_write_flush:
  assumes "log_inv lb" and "length (log_text lb) + length str < 16384"
  shows "log_inv (logbuf_write str lb) \<and> log_text (logbuf_write str lb) = log_text lb @ str \<and>
    (\<exists>tr'. logbuf_flush (Some e9_dev) (logbuf_write str lb) tr = Some tr' \<and>
       port_text 0xE9 tr' = port_text 0xE9 tr @ log_text lb @ str)"
proof -
  have fits: "length (log_text lb) + length str < LOGBUF_SIZE" using assms(2) by (simp add: LOGBUF_SIZE_def)
  note w = write_text [OF assms(1) fits]
  have "\<exists>tr'. logbuf_flush (Some e9_dev) (logbuf_write str lb) tr = Some tr' \<and> True \<and>
      port_text BOCHS_E9_PORT tr' = port_text BOCHS_E9_PORT tr @ log_text (logbuf_write str lb)"
    by (rule e9.logbuf_flush_out) (simp_all add: e9_dev_def w)
  then show ?thesis using w by (simp add: BOCHS_E9_PORT_def)
qed

theorem logbuf_write_flush_witness:
  "\<exists>tr'. logbuf_flush (Some e9_dev) (logbuf_write ''boot'' empty_log) [] = Some tr' \<and>
     port_text 0xE9 tr' = ''boot''"
  using logbuf_write_flush [OF empty_log_inv(1), of "''boot''" "[]"] by (simp add: empty_log_inv(2))

text \<open>
  A string that wraps past the reader is not noticed: the subtraction \<^verbatim>\<open>write_pos - len\<close> wraps
  around in \<^verbatim>\<open>size_t\<close>, the read position stays, and of stored text and new string together only the
  few characters between the two positions remain, none at all when they meet.
\<close>

theorem logbuf_write_overrun:
  assumes "log_inv lb" and "length str < 16384" and "unat (read_pos lb) \<le> unat (write_pos lb)"
    and "16384 + unat (read_pos lb) \<le> unat (write_pos lb) + length str"
  shows "read_pos (logbuf_write str lb) = read_pos lb \<and>
    length (log_text (logbuf_write str lb)) =
      unat (write_pos lb) + length str - 16384 - unat (read_pos lb)"
proof -
  let ?r = "unat (read_pos lb)" and ?w = "unat (write_pos lb)"
  have L: "length str < LOGBUF_SIZE" using assms(2) by (simp add: LOGBUF_SIZE_def)
  note f = write_fields [OF assms(1) L]
  have m: "(?w + length str) mod LOGBUF_SIZE = ?w + length str - 16384"
    using assms wrap_mod [of "?w + length str" LOGBUF_SIZE] by (simp add: log_inv_def LOGBUF_SIZE_def)
  have "?w < 16384" using assms(1) by (simp add: log_inv_def LOGBUF_SIZE_def)
  then have "unat (read_pos (logbuf_write str lb)) = ?r"
    using assms unfolding f(2) m by (auto simp: LOGBUF_SIZE_def)
  then show ?thesis
    using assms by (auto simp: word_unat_eq_iff log_text_def f(1) m ring_dist_def)
qed

theorem logbuf_write_overrun_witness:
  "length (log_text (logbuf_write (replicate 500 (CHR ''x'')) (empty_log\<lparr>write_pos := 16000, read_pos := 100\<rparr>))) = 16"
  using logbuf_write_overrun [of "empty_log\<lparr>write_pos := 16000, read_pos := 100\<rparr>" "replicate 500 (CHR ''x'')"]
  by (simp add: log_inv_def empty_log_def LOGBUF_SIZE_def)

end
