(* ===== verification/Stdio.thy ===== *)
theory Stdio
  imports Prelude
begin

text \<open>
  Number parsing, line input and formatted output of \<^verbatim>\<open>src/stdio.c\<close>.

  A C string is the list of its characters before the terminator. An output buffer of \<open>n\<close> bytes is a
  list of length \<open>n\<close>, \<open>None\<close> when the pointer is \<^verbatim>\<open>NULL\<close>. The variable arguments are a list of tagged
  values; taking one of the wrong kind, which is undefined in C, is the fault \<open>ArgMismatch\<close>. A format
  that ends inside a directive makes the code step over the terminator: the fault \<open>FormatOverrun\<close>.

  The machine types are kept. The capacity and the position are \<^verbatim>\<open>size_t\<close>, 64-bit words that wrap
  around; a width is a C \<^verbatim>\<open>int\<close>, an integer whose every computation is checked by \<open>checked_int\<close>, since the
  repository is compiled without \<^verbatim>\<open>-fwrapv\<close> and a signed overflow is undefined: the fault
  \<open>SignedOverflow\<close>; the casts \<^verbatim>\<open>(int)len\<close> and \<^verbatim>\<open>(int)ctx.pos\<close> keep the low 32 bits and read them as a
  signed number.
\<close>

section \<open>Numbers\<close>

definition hex_chars :: string where "hex_chars = ''0123456789ABCDEF''"

text \<open>The loop of \<^verbatim>\<open>ptrthex\<close> fills positions 15 down to 0, so each digit goes before the previous one.\<close>

primrec ptrthex_loop :: "nat \<Rightarrow> u64 \<Rightarrow> string \<Rightarrow> string" where
  "ptrthex_loop 0 v acc = acc"
| "ptrthex_loop (Suc k) v acc = ptrthex_loop k (drop_bit 4 v) (hex_chars ! unat (v AND 0xF) # acc)"

definition ptrthex :: "u64 \<Rightarrow> string" where
  "ptrthex v = ptrthex_loop 16 v [] @ [CHR 0x00]"

definition in_chars :: "char \<Rightarrow> char \<Rightarrow> char \<Rightarrow> bool" where
  "in_chars a b c \<longleftrightarrow> (of_char a :: nat) \<le> of_char c \<and> (of_char c :: nat) \<le> of_char b"

definition is_digit :: "char \<Rightarrow> bool" where "is_digit = in_chars (CHR ''0'') (CHR ''9'')"

fun strtoull_hex :: "u64 \<Rightarrow> string \<Rightarrow> u64" where
  "strtoull_hex val [] = val"
| "strtoull_hex val (c # cs) =
     (if is_digit c then strtoull_hex (val * 16 + (of_char c - of_char (CHR ''0''))) cs
      else if in_chars (CHR ''a'') (CHR ''f'') c
           then strtoull_hex (val * 16 + (of_char c - of_char (CHR ''a'') + 10)) cs
      else if in_chars (CHR ''A'') (CHR ''F'') c
           then strtoull_hex (val * 16 + (of_char c - of_char (CHR ''A'') + 10)) cs
      else val)"

fun strtoull_dec :: "u64 \<Rightarrow> string \<Rightarrow> u64" where
  "strtoull_dec val [] = val"
| "strtoull_dec val (c # cs) =
     (if is_digit c then strtoull_dec (val * 10 + (of_char c - of_char (CHR ''0''))) cs else val)"

definition strtoull :: "string \<Rightarrow> u64" where
  "strtoull nptr =
     (case nptr of
        c0 # c1 # rest \<Rightarrow>
          (if c0 = CHR ''0'' \<and> (c1 = CHR ''x'' \<or> c1 = CHR ''X'') then strtoull_hex 0 rest
           else strtoull_dec 0 nptr)
      | _ \<Rightarrow> strtoull_dec 0 nptr)"

section \<open>Line input\<close>

text \<open>
  \<^verbatim>\<open>readline\<close> calls a blocking \<^verbatim>\<open>getc\<close>: the characters it will deliver are the list \<open>input\<close>, and the
  result is \<open>None\<close> when they run out before the line is complete. The result holds the buffer, the
  characters echoed when \<^verbatim>\<open>putc\<close> is given, and the remaining input. The limit is the length of the
  buffer; a limit of 0 makes \<^verbatim>\<open>limit - 1\<close> wrap to the largest \<^verbatim>\<open>size_t\<close>, written here as \<open>bound\<close>.
\<close>

fun readline_loop :: "bool \<Rightarrow> nat \<Rightarrow> string \<Rightarrow> nat \<Rightarrow> string \<Rightarrow> string \<Rightarrow> (nat \<times> string \<times> string \<times> string) option" where
  "readline_loop echo bound b index out input =
     (if index < bound then
        (case input of
           [] \<Rightarrow> None
         | c # input' \<Rightarrow>
             if c = CHR 0x0A \<or> c = CHR 0x0D
             then Some (index, b, (if echo then out @ [CHR 0x0A] else out), input')
             else if c = CHR 0x08 \<or> c = CHR 0x7F then
               (if index > 0
                then readline_loop echo bound b (index - 1)
                       (if echo then out @ [CHR 0x08, CHR 0x20, CHR 0x08] else out) input'
                else readline_loop echo bound b index out input')
             else if in_chars (CHR 0x20) (CHR 0x7E) c
               then readline_loop echo bound (b[index := c]) (index + 1)
                      (if echo then out @ [c] else out) input'
             else readline_loop echo bound b index out input')
      else Some (index, b, out, input))"

declare readline_loop.simps [simp del]

definition readline :: "bool \<Rightarrow> string \<Rightarrow> string \<Rightarrow> (string \<times> string \<times> string) option" where
  "readline echo buffer input =
     (let limit = length buffer;
          bound = (if limit = 0 then 2 ^ 64 - 1 else limit - 1) in
      case readline_loop echo bound buffer 0 [] input of
        None \<Rightarrow> None
      | Some (index, b, out, rest) \<Rightarrow>
          Some (b[index := CHR 0x00], (if index = bound \<and> echo then out @ [CHR 0x0A] else out), rest))"

section \<open>Formatted output: the buffer\<close>

datatype printf_fault = KPanic panic | NullAccess | FormatOverrun | ArgMismatch | SignedOverflow

definition checked_int :: "int \<Rightarrow> printf_fault + int" where
  "checked_int n = (if - (2 ^ 31) \<le> n \<and> n < 2 ^ 31 then Inr n else Inl SignedOverflow)"

definition int_of_size :: "u64 \<Rightarrow> int" where
  "int_of_size n = sint (ucast n :: u32)"

datatype va_arg = ArgInt u32 | ArgLong u64 | ArgStr "string option" | ArgBytes "u8 list option"

record printf_ctx =
  pbuf :: "string option"
  cap :: u64
  pos :: u64

definition write_at :: "string \<Rightarrow> nat \<Rightarrow> string \<Rightarrow> string" where
  "write_at b i cs = take i b @ cs @ drop (i + length cs) b"

definition ctx_putc :: "char \<Rightarrow> printf_ctx \<Rightarrow> printf_fault + printf_ctx" where
  "ctx_putc c ctx =
     (if pos ctx < cap ctx then
        (case pbuf ctx of
           None \<Rightarrow> Inl NullAccess
         | Some b \<Rightarrow> Inr (ctx\<lparr>pbuf := Some (b[unat (pos ctx) := c]), pos := pos ctx + 1\<rparr>))
      else Inr (ctx\<lparr>pos := pos ctx + 1\<rparr>))"

text \<open>
  The bulk copy both writers make, \<^verbatim>\<open>memcpy\<close> or \<^verbatim>\<open>memset\<close> at \<^verbatim>\<open>buf + pos\<close>: the routine of \<^verbatim>\<open>mem.h\<close>
  named by \<open>who\<close> panics when that address is \<^verbatim>\<open>NULL\<close>. It writes nothing when \<open>cs\<close> is empty.
\<close>

definition ctx_bulk :: "string \<Rightarrow> string \<Rightarrow> printf_ctx \<Rightarrow> printf_fault + printf_ctx" where
  "ctx_bulk who cs ctx =
     (case pbuf ctx of
        None \<Rightarrow> (if pos ctx = 0 then Inl (KPanic (Panic ''MEMORY'' who))
                 else if cs \<noteq> [] then Inl NullAccess else Inr ctx)
      | Some b \<Rightarrow> Inr (if cs = [] then ctx else ctx\<lparr>pbuf := Some (write_at b (unat (pos ctx)) cs)\<rparr>))"

definition ctx_write :: "string \<Rightarrow> printf_ctx \<Rightarrow> printf_fault + printf_ctx" where
  "ctx_write s ctx =
     (let n = of_nat (length s) in
      if n = 0 then Inr ctx
      else
        (let avail = (if cap ctx > pos ctx then cap ctx - pos ctx else 0);
             copy = (if n < avail then n else avail)
         in and_then (ctx_bulk ''memcpy dest is null'' (take (unat copy) s) ctx)
              (\<lambda>ctx'. Inr (ctx'\<lparr>pos := pos ctx' + n\<rparr>))))"

definition ctx_pad :: "char \<Rightarrow> int \<Rightarrow> printf_ctx \<Rightarrow> printf_fault + printf_ctx" where
  "ctx_pad ch n ctx =
     (if n \<le> 0 then Inr ctx
      else
        (let avail = (if cap ctx > pos ctx then cap ctx - pos ctx else 0);
             fill = (if of_int n < avail then of_int n else avail)
         in and_then (ctx_bulk ''memset s is null'' (replicate (unat fill) ch) ctx)
              (\<lambda>ctx'. Inr (ctx'\<lparr>pos := pos ctx' + of_int n\<rparr>))))"

section \<open>Formatted output: numbers and strings\<close>

definition map100 :: string where
  "map100 =
     ''0001020304050607080910111213141516171819'' @
     ''2021222324252627282930313233343536373839'' @
     ''4041424344454647484950515253545556575859'' @
     ''6061626364656667686970717273747576777879'' @
     ''8081828384858687888990919293949596979899''"

definition digits_lower :: string where "digits_lower = ''0123456789abcdef''"
definition digits_upper :: string where "digits_upper = ''0123456789ABCDEF''"

definition FLAG_ALT :: u8 where "FLAG_ALT = 1"
definition FLAG_ZERO :: u8 where "FLAG_ZERO = 2"
definition FLAG_LEFT :: u8 where "FLAG_LEFT = 4"
definition FLAG_SPACE :: u8 where "FLAG_SPACE = 8"
definition FLAG_SIGN :: u8 where "FLAG_SIGN = 16"

definition has_flag :: "u8 \<Rightarrow> u8 \<Rightarrow> bool" where
  "has_flag flags f \<longleftrightarrow> flags AND f \<noteq> 0"

text \<open>
  The conversion loops fill \<^verbatim>\<open>tmp\<close> from its end, so a digit goes before those produced earlier: \<open>acc\<close>
  is \<^verbatim>\<open>tmp + i\<close>.
\<close>

lemma div_decreases: "v \<noteq> 0 \<Longrightarrow> 1 < b \<Longrightarrow> unat (v div b :: u64) < unat v"
  by (simp add: unat_div_distrib word_less_nat_alt unat_gt_0)

lemma drop_bit_decreases: "v \<noteq> 0 \<Longrightarrow> 0 < n \<Longrightarrow> unat (drop_bit n v :: u64) < unat v"
  unfolding unat_drop_bit by (intro div_less_dividend) (simp_all add: unat_gt_0 one_less_power del: One_nat_def)

function hex_loop :: "string \<Rightarrow> u64 \<Rightarrow> string \<Rightarrow> string" where
  "hex_loop digits val acc =
     (if val = 0 then acc
      else hex_loop digits (drop_bit 4 val) (digits ! unat (val AND 0xF) # acc))"
  by pat_completeness auto
termination
  by (relation "measure (\<lambda>(d, v, a). unat v)") (simp_all only: in_measure case_prod_conv wf_measure drop_bit_decreases zero_less_numeral not_False_eq_True simp_thms)

function bin_loop :: "u64 \<Rightarrow> string \<Rightarrow> string" where
  "bin_loop val acc =
     (if val = 0 then acc
      else bin_loop (drop_bit 1 val) (char_of (48 + unat (val AND 1)) # acc))"
  by pat_completeness auto
termination
  by (relation "measure (\<lambda>(v, a). unat v)") (simp_all only: in_measure case_prod_conv wf_measure drop_bit_decreases zero_less_one simp_thms)

function dec_loop :: "u64 \<Rightarrow> string \<Rightarrow> string" where
  "dec_loop val acc =
     (if val \<ge> 100 then
        (let rem = unat (val mod 100)
         in dec_loop (val div 100) (map100 ! (2 * rem) # map100 ! (2 * rem + 1) # acc))
      else if val \<ge> 10 then map100 ! (2 * unat val) # map100 ! (2 * unat val + 1) # acc
      else char_of (48 + unat val) # acc)"
  by pat_completeness auto
termination
  by (relation "measure (\<lambda>(v, a). unat v)") (auto intro!: div_decreases)

text \<open>The general loop is reached with base 8 only; a base below 2 would not end.\<close>

function base_loop :: "string \<Rightarrow> u64 \<Rightarrow> u64 \<Rightarrow> string \<Rightarrow> string" where
  "base_loop digits base val acc =
     (if val = 0 \<or> base < 2 then acc
      else base_loop digits base (val div base) (digits ! unat (val mod base) # acc))"
  by pat_completeness auto
termination
  by (relation "measure (\<lambda>(d, b, v, a). unat v)")
     (auto intro!: div_decreases simp: word_less_nat_alt not_less)

declare hex_loop.simps [simp del] bin_loop.simps [simp del] dec_loop.simps [simp del] base_loop.simps [simp del]

definition uint_digits :: "u64 \<Rightarrow> nat \<Rightarrow> bool \<Rightarrow> string" where
  "uint_digits val base upper =
     (let digits = (if upper then digits_upper else digits_lower) in
      if val = 0 then ''0''
      else if base = 16 then hex_loop digits val []
      else if base = 2 then bin_loop val []
      else if base = 10 then dec_loop val []
      else base_loop digits (of_nat base) val [])"

definition fmt_uint ::
  "u64 \<Rightarrow> nat \<Rightarrow> int \<Rightarrow> u8 \<Rightarrow> bool \<Rightarrow> string \<Rightarrow> printf_ctx \<Rightarrow> printf_fault + printf_ctx" where
  "fmt_uint val base width flags upper prefix ctx =
     (let tmp = uint_digits val base upper;
          total = int (length tmp) + int (length prefix);
          padding = (if width > total then width - total else 0) in
      and_then
        (if \<not> has_flag flags FLAG_LEFT then
           (if has_flag flags FLAG_ZERO
            then and_then (ctx_write prefix ctx) (ctx_pad (CHR ''0'') padding)
            else and_then (ctx_pad (CHR 0x20) padding ctx) (ctx_write prefix))
         else ctx_write prefix ctx)
      (\<lambda>ctx1. and_then (ctx_write tmp ctx1)
      (\<lambda>ctx2. if has_flag flags FLAG_LEFT then ctx_pad (CHR 0x20) padding ctx2 else Inr ctx2)))"

definition fmt_signed :: "u64 \<Rightarrow> int \<Rightarrow> u8 \<Rightarrow> printf_ctx \<Rightarrow> printf_fault + printf_ctx" where
  "fmt_signed val width flags ctx =
     (let neg = sint val < 0;
          prefix = (if neg then ''-''
                    else if has_flag flags FLAG_SIGN then ''+''
                    else if has_flag flags FLAG_SPACE then '' '' else []);
          uval = (if neg then (- (val + 1)) + 1 else val)
      in fmt_uint uval 10 width flags False prefix ctx)"

definition fmt_string :: "string option \<Rightarrow> int \<Rightarrow> u8 \<Rightarrow> printf_ctx \<Rightarrow> printf_fault + printf_ctx" where
  "fmt_string s0 width flags ctx =
     (let s = (case s0 of None \<Rightarrow> ''(null)'' | Some s \<Rightarrow> s);
          len = int_of_size (of_nat (length s)) in
      and_then (if width > len then checked_int (width - len) else Inr 0) (\<lambda>padding.
      and_then (if \<not> has_flag flags FLAG_LEFT then ctx_pad (CHR 0x20) padding ctx else Inr ctx)
      (\<lambda>ctx1. and_then (ctx_write s ctx1)
      (\<lambda>ctx2. if has_flag flags FLAG_LEFT then ctx_pad (CHR 0x20) padding ctx2 else Inr ctx2))))"

definition fmt_u8_dec :: "u8 \<Rightarrow> printf_ctx \<Rightarrow> printf_fault + printf_ctx" where
  "fmt_u8_dec v ctx =
     (if v \<ge> 100 then
        (let rem = unat (v mod 100)
         in ctx_write [char_of (48 + unat (v div 100)), map100 ! (2 * rem), map100 ! (2 * rem + 1)] ctx)
      else if v \<ge> 10 then ctx_write [map100 ! (2 * unat v), map100 ! (2 * unat v + 1)] ctx
      else ctx_putc (char_of (48 + unat v)) ctx)"

definition fmt_u8_hex2 :: "u8 \<Rightarrow> printf_ctx \<Rightarrow> printf_fault + printf_ctx" where
  "fmt_u8_hex2 v ctx =
     ctx_write [digits_upper ! unat (drop_bit 4 v), digits_upper ! unat (v AND 0xF)] ctx"

section \<open>Formatted output: directives\<close>

datatype len_mod = LEN_DEFAULT | LEN_HH | LEN_H | LEN_L | LEN_LL | LEN_Z | LEN_J | LEN_T

fun va_int :: "va_arg list \<Rightarrow> printf_fault + (u32 \<times> va_arg list)" where
  "va_int (ArgInt v # args) = Inr (v, args)"
| "va_int _ = Inl ArgMismatch"

fun va_long :: "va_arg list \<Rightarrow> printf_fault + (u64 \<times> va_arg list)" where
  "va_long (ArgLong v # args) = Inr (v, args)"
| "va_long _ = Inl ArgMismatch"

fun va_str :: "va_arg list \<Rightarrow> printf_fault + (string option \<times> va_arg list)" where
  "va_str (ArgStr s # args) = Inr (s, args)"
| "va_str _ = Inl ArgMismatch"

fun va_bytes :: "va_arg list \<Rightarrow> printf_fault + (u8 list option \<times> va_arg list)" where
  "va_bytes (ArgBytes b # args) = Inr (b, args)"
| "va_bytes _ = Inl ArgMismatch"

text \<open>The first character of a list is \<^verbatim>\<open>*p\<close>; the empty list stands at the terminator.\<close>

fun parse_flags :: "u8 \<Rightarrow> string \<Rightarrow> u8 \<times> string" where
  "parse_flags flags [] = (flags, [])"
| "parse_flags flags (c # p) =
     (if c = CHR ''#'' then parse_flags (flags OR FLAG_ALT) p
      else if c = CHR ''0'' then parse_flags (flags OR FLAG_ZERO) p
      else if c = CHR ''-'' then parse_flags (flags OR FLAG_LEFT) p
      else if c = CHR 0x20 then parse_flags (flags OR FLAG_SPACE) p
      else if c = CHR ''+'' then parse_flags (flags OR FLAG_SIGN) p
      else (flags, c # p))"

fun width_digits :: "int \<Rightarrow> string \<Rightarrow> printf_fault + (int \<times> string)" where
  "width_digits w [] = Inr (w, [])"
| "width_digits w (c # p) =
     (if is_digit c
      then (case and_then (checked_int (w * 10)) (\<lambda>w10. checked_int (w10 + (int (of_char c) - 48))) of
              Inl e \<Rightarrow> Inl e
            | Inr w' \<Rightarrow> width_digits w' p)
      else Inr (w, c # p))"

definition parse_width ::
  "u8 \<Rightarrow> string \<Rightarrow> va_arg list \<Rightarrow> printf_fault + (int \<times> u8 \<times> string \<times> va_arg list)" where
  "parse_width flags p args =
     (case p of
        c # p' \<Rightarrow>
          (if c = CHR ''*'' then
             and_then (va_int args) (\<lambda>(w, args').
               if sint w < 0
               then and_then (checked_int (- sint w)) (\<lambda>width. Inr (width, flags OR FLAG_LEFT, p', args'))
               else Inr (sint w, flags, p', args'))
           else and_then (width_digits 0 p) (\<lambda>(w, q). Inr (w, flags, q, args)))
      | [] \<Rightarrow> Inr (0, flags, p, args))"

definition skip_precision :: "string \<Rightarrow> va_arg list \<Rightarrow> printf_fault + (string \<times> va_arg list)" where
  "skip_precision p args =
     (case p of
        c # p' \<Rightarrow>
          (if c = CHR ''.'' then
             (case p' of
                d # p'' \<Rightarrow>
                  (if d = CHR ''*'' then and_then (va_int args) (\<lambda>(_, args'). Inr (p'', args'))
                   else Inr (dropWhile is_digit p', args))
              | [] \<Rightarrow> Inr (p', args))
           else Inr (p, args))
      | [] \<Rightarrow> Inr (p, args))"

definition parse_length :: "string \<Rightarrow> len_mod \<times> string" where
  "parse_length p =
     (case p of
        c # p' \<Rightarrow>
          (if c = CHR ''h'' then
             (case p' of d # p'' \<Rightarrow> if d = CHR ''h'' then (LEN_HH, p'') else (LEN_H, p') | [] \<Rightarrow> (LEN_H, p'))
           else if c = CHR ''l'' then
             (case p' of d # p'' \<Rightarrow> if d = CHR ''l'' then (LEN_LL, p'') else (LEN_L, p') | [] \<Rightarrow> (LEN_L, p'))
           else if c = CHR ''z'' then (LEN_Z, p')
           else if c = CHR ''j'' then (LEN_J, p')
           else if c = CHR ''t'' then (LEN_T, p')
           else (LEN_DEFAULT, p))
      | [] \<Rightarrow> (LEN_DEFAULT, p))"

text \<open>The argument of \<open>%d\<close> and of the unsigned conversions, converted to 64 bits as the code does.\<close>

definition signed_arg :: "len_mod \<Rightarrow> va_arg list \<Rightarrow> printf_fault + (u64 \<times> va_arg list)" where
  "signed_arg lmod args =
     (if lmod \<in> {LEN_LL, LEN_L, LEN_Z, LEN_J, LEN_T} then va_long args
      else and_then (va_int args) (\<lambda>(v, args').
        Inr (if lmod = LEN_H then scast (ucast v :: u16)
             else if lmod = LEN_HH then scast (ucast v :: u8)
             else scast v, args')))"

definition unsigned_arg :: "len_mod \<Rightarrow> va_arg list \<Rightarrow> printf_fault + (u64 \<times> va_arg list)" where
  "unsigned_arg lmod args =
     (if lmod \<in> {LEN_LL, LEN_L, LEN_Z, LEN_J, LEN_T} then va_long args
      else and_then (va_int args) (\<lambda>(v, args').
        Inr (if lmod = LEN_H then ucast (ucast v :: u16)
             else if lmod = LEN_HH then ucast (ucast v :: u8)
             else ucast v, args')))"

definition unsigned_format :: "char \<Rightarrow> u8 \<Rightarrow> u64 \<Rightarrow> nat \<times> bool \<times> string" where
  "unsigned_format c flags val =
     (let alt = has_flag flags FLAG_ALT in
      if c = CHR ''x'' then (16, False, if alt then ''0x'' else [])
      else if c = CHR ''X'' then (16, True, if alt then ''0X'' else [])
      else if c = CHR ''o'' then (8, False, if alt \<and> val \<noteq> 0 then ''0'' else [])
      else if c = CHR ''b'' then (2, False, if alt then ''0b'' else [])
      else (10, False, []))"

definition fmt_ip :: "u8 list \<Rightarrow> printf_ctx \<Rightarrow> printf_fault + printf_ctx" where
  "fmt_ip ip ctx =
     and_then (fmt_u8_dec (ip ! 0) ctx) (\<lambda>c. and_then (ctx_putc (CHR ''.'') c) (\<lambda>c.
     and_then (fmt_u8_dec (ip ! 1) c) (\<lambda>c. and_then (ctx_putc (CHR ''.'') c) (\<lambda>c.
     and_then (fmt_u8_dec (ip ! 2) c) (\<lambda>c. and_then (ctx_putc (CHR ''.'') c) (\<lambda>c.
     fmt_u8_dec (ip ! 3) c))))))"

definition fmt_mac :: "u8 list \<Rightarrow> printf_ctx \<Rightarrow> printf_fault + printf_ctx" where
  "fmt_mac mac ctx =
     and_then (fmt_u8_hex2 (mac ! 0) ctx) (\<lambda>c. and_then (ctx_putc (CHR '':'') c) (\<lambda>c.
     and_then (fmt_u8_hex2 (mac ! 1) c) (\<lambda>c. and_then (ctx_putc (CHR '':'') c) (\<lambda>c.
     and_then (fmt_u8_hex2 (mac ! 2) c) (\<lambda>c. and_then (ctx_putc (CHR '':'') c) (\<lambda>c.
     and_then (fmt_u8_hex2 (mac ! 3) c) (\<lambda>c. and_then (ctx_putc (CHR '':'') c) (\<lambda>c.
     and_then (fmt_u8_hex2 (mac ! 4) c) (\<lambda>c. and_then (ctx_putc (CHR '':'') c) (\<lambda>c.
     fmt_u8_hex2 (mac ! 5) c))))))))))"

text \<open>The conversion switch; \<open>c\<close> is the conversion character, \<^verbatim>\<open>NUL\<close> at the end of the format.\<close>

definition convert ::
  "char \<Rightarrow> len_mod \<Rightarrow> int \<Rightarrow> u8 \<Rightarrow> va_arg list \<Rightarrow> printf_ctx \<Rightarrow> printf_fault + (printf_ctx \<times> va_arg list)" where
  "convert c lmod width flags args ctx =
     (if c = CHR ''d'' \<or> c = CHR ''i'' then
        and_then (signed_arg lmod args) (\<lambda>(val, args').
          and_then (fmt_signed val width flags ctx) (\<lambda>ctx'. Inr (ctx', args')))
      else if c \<in> {CHR ''u'', CHR ''x'', CHR ''X'', CHR ''o'', CHR ''b''} then
        and_then (unsigned_arg lmod args) (\<lambda>(val, args').
          (case unsigned_format c flags val of (base, upper, prefix) \<Rightarrow>
             and_then (fmt_uint val base width flags upper prefix ctx) (\<lambda>ctx'. Inr (ctx', args'))))
      else if c = CHR ''p'' then
        and_then (va_long args) (\<lambda>(val, args').
          (let pwidth = (if width > 0 then width else 18)
           in and_then (fmt_uint val 16 pwidth FLAG_ZERO False ''0x'' ctx) (\<lambda>ctx'. Inr (ctx', args'))))
      else if c = CHR ''s'' then
        and_then (va_str args) (\<lambda>(s, args').
          and_then (fmt_string s width flags ctx) (\<lambda>ctx'. Inr (ctx', args')))
      else if c = CHR ''c'' then
        and_then (va_int args) (\<lambda>(v, args').
          and_then (ctx_putc (char_of (unat (ucast v :: u8))) ctx) (\<lambda>ctx'. Inr (ctx', args')))
      else if c = CHR ''I'' then
        and_then (va_bytes args) (\<lambda>(ip, args').
          (case ip of
             Some bs \<Rightarrow> if length bs < 4 then Inl ArgMismatch
                        else and_then (fmt_ip bs ctx) (\<lambda>ctx'. Inr (ctx', args'))
           | None \<Rightarrow> Inl NullAccess))
      else if c = CHR ''M'' then
        and_then (va_bytes args) (\<lambda>(mac, args').
          (case mac of
             None \<Rightarrow> and_then (fmt_string (Some ''(null)'') width flags ctx) (\<lambda>ctx'. Inr (ctx', args'))
           | Some bs \<Rightarrow> if length bs < 6 then Inl ArgMismatch
                        else and_then (fmt_mac bs ctx) (\<lambda>ctx'. Inr (ctx', args'))))
      else if c = CHR ''%'' then and_then (ctx_putc (CHR ''%'') ctx) (\<lambda>ctx'. Inr (ctx', args))
      else and_then (ctx_putc (CHR ''%'') ctx) (\<lambda>ctx1.
             and_then (ctx_putc c ctx1) (\<lambda>ctx2. Inr (ctx2, args))))"

text \<open>One directive, from after the percent sign; the rest of the format is returned.\<close>

definition directive ::
  "string \<Rightarrow> va_arg list \<Rightarrow> printf_ctx \<Rightarrow> printf_fault + (string \<times> va_arg list \<times> printf_ctx)" where
  "directive p args ctx =
     (case parse_flags 0 p of (flags0, p1) \<Rightarrow>
      let flags1 = (if has_flag flags0 FLAG_LEFT then flags0 AND NOT FLAG_ZERO else flags0) in
      and_then (parse_width flags1 p1 args) (\<lambda>(width, flags, p2, args2).
      and_then (skip_precision p2 args2) (\<lambda>(p3, args3).
      case parse_length p3 of (lmod, p4) \<Rightarrow>
        (case p4 of
           c # p5 \<Rightarrow> and_then (convert c lmod width flags args3 ctx) (\<lambda>(ctx', args'). Inr (p5, args', ctx'))
         | [] \<Rightarrow> and_then (convert (CHR 0x00) lmod width flags args3 ctx) (\<lambda>_. Inl FormatOverrun)))))"

lemma parse_flags_shorter: "length (snd (parse_flags flags p)) \<le> length p"
  by (induction flags p rule: parse_flags.induct) (auto simp: le_SucI)

lemma width_digits_shorter: "width_digits w p = Inr (v, q) \<Longrightarrow> length q \<le> length p"
proof (induction w p rule: width_digits.induct)
  case (2 w c p)
  then show ?case by (fastforce split: if_splits sum.splits)
qed simp

lemma parse_width_shorter: "parse_width flags p args = Inr (w, fl, q, args') \<Longrightarrow> length q \<le> length p"
  by (auto simp: parse_width_def and_then_eq_Inr simp del: width_digits.simps dest!: width_digits_shorter split: list.splits if_splits prod.splits)

lemma skip_precision_shorter: "skip_precision p args = Inr (q, args') \<Longrightarrow> length q \<le> length p"
  using length_dropWhile_le [of is_digit "tl p"]
  by (auto simp: skip_precision_def and_then_eq_Inr split: list.splits if_splits prod.splits)

lemma parse_length_shorter: "length (snd (parse_length p)) \<le> length p"
  by (auto simp: parse_length_def split: list.splits)

lemma spec_shorter:
  assumes "parse_flags 0 p = (flags0, p1)" and "parse_width flags1 p1 args = Inr (w, fl, p2, args2)"
    and "skip_precision p2 args2 = Inr (p3, args3)" and "parse_length p3 = (l, p4)"
  shows "length p4 \<le> length p"
  using parse_flags_shorter [of 0 p] parse_width_shorter [OF assms(2)] skip_precision_shorter [OF assms(3)]
    parse_length_shorter [of p3] assms(1,4) by simp

lemma directive_shorter:
  assumes "directive p args ctx = Inr (p', args', ctx')"
  shows "length p' < length p"
proof -
  obtain flags0 p1 where f: "parse_flags 0 p = (flags0, p1)" by force
  let ?flags1 = "if has_flag flags0 FLAG_LEFT then flags0 AND NOT FLAG_ZERO else flags0"
  obtain w fl p2 args2 p3 args3 where w: "parse_width ?flags1 p1 args = Inr (w, fl, p2, args2)"
    and s: "skip_precision p2 args2 = Inr (p3, args3)"
    using assms by (auto simp: directive_def f and_then_eq_Inr Let_def)
  obtain l p4 where l: "parse_length p3 = (l, p4)" by force
  obtain c where "p4 = c # p'"
    using assms w s l by (auto simp: directive_def f Let_def and_then_eq_Inr split: list.splits)
  then show ?thesis using spec_shorter [OF f w s l] by simp
qed

lemma dropWhile_two: "dropWhile P p = d # e # q \<Longrightarrow> Suc (Suc (length q)) \<le> length p"
  by (metis length_Cons length_dropWhile_le)

text \<open>
  The loop of \<^verbatim>\<open>vsnprintf\<close>: copy the text up to a percent sign, then handle the directive.
\<close>

function format_loop :: "string \<Rightarrow> va_arg list \<Rightarrow> printf_ctx \<Rightarrow> printf_fault + printf_ctx" where
  "format_loop p args ctx =
     (case p of
        [] \<Rightarrow> Inr ctx
      | _ # _ \<Rightarrow>
          and_then (ctx_write (takeWhile (\<lambda>c. c \<noteq> CHR ''%'') p) ctx) (\<lambda>ctx1.
            (case dropWhile (\<lambda>c. c \<noteq> CHR ''%'') p of
               [] \<Rightarrow> Inr ctx1
             | [_] \<Rightarrow> Inr ctx1
             | _ # q \<Rightarrow>
                 (case directive q args ctx1 of
                    Inl e \<Rightarrow> Inl e
                  | Inr (q', args', ctx2) \<Rightarrow> format_loop q' args' ctx2))))"
  by pat_completeness auto
termination
  by (relation "measure (\<lambda>(p, args, ctx). length p)")
     (auto simp del: dropWhile.simps dest!: directive_shorter dropWhile_two)

declare format_loop.simps [simp del]

text \<open>The terminator is stored at position \<^verbatim>\<open>min(pos, cap)\<close>; the position is returned as an \<^verbatim>\<open>int\<close>.\<close>

definition vsnprintf :: "string option \<Rightarrow> u64 \<Rightarrow> string \<Rightarrow> va_arg list \<Rightarrow> printf_fault + (string option \<times> int)" where
  "vsnprintf b bufsz fmt args =
     and_then (format_loop fmt args \<lparr>pbuf = b, cap = (if bufsz > 0 then bufsz - 1 else 0), pos = 0\<rparr>)
       (\<lambda>ctx.
          if bufsz > 0 then
            (case pbuf ctx of
               None \<Rightarrow> Inl NullAccess
             | Some bs \<Rightarrow>
                 Inr (Some (bs[unat (if pos ctx < cap ctx then pos ctx else cap ctx) := CHR 0x00]),
                   int_of_size (pos ctx)))
          else Inr (pbuf ctx, int_of_size (pos ctx)))"

definition snprintf :: "string option \<Rightarrow> u64 \<Rightarrow> string \<Rightarrow> va_arg list \<Rightarrow> printf_fault + (string option \<times> int)" where
  "snprintf b bufsz fmt args = vsnprintf b bufsz fmt args"

section \<open>The text of a format\<close>

text \<open>
  What a format and its arguments denote, without any buffer: the padded conversions, the text of a
  directive, and the text of a whole format, which is the text produced before the first fault, if
  there is one.
\<close>

definition pad_text :: "string \<Rightarrow> string \<Rightarrow> int \<Rightarrow> u8 \<Rightarrow> string" where
  "pad_text prefix body width flags =
     (let n = nat (width - int (length prefix + length body)) in
      if has_flag flags FLAG_LEFT then prefix @ body @ replicate n (CHR 0x20)
      else if has_flag flags FLAG_ZERO then prefix @ replicate n (CHR ''0'') @ body
      else replicate n (CHR 0x20) @ prefix @ body)"

definition sign_text :: "u64 \<Rightarrow> u8 \<Rightarrow> string" where
  "sign_text val flags = (if sint val < 0 then ''-''
     else if has_flag flags FLAG_SIGN then ''+'' else if has_flag flags FLAG_SPACE then '' '' else [])"

definition string_text :: "string option \<Rightarrow> int \<Rightarrow> u8 \<Rightarrow> printf_fault + string" where
  "string_text s0 width flags =
     (let s = (case s0 of None \<Rightarrow> ''(null)'' | Some s \<Rightarrow> s); len = int_of_size (of_nat (length s)) in
      and_then (if width > len then checked_int (width - len) else Inr 0) (\<lambda>n.
        Inr (if has_flag flags FLAG_LEFT then s @ replicate (nat n) (CHR 0x20)
             else replicate (nat n) (CHR 0x20) @ s)))"

definition byte_text :: "u8 \<Rightarrow> string" where
  "byte_text v = uint_digits (ucast v) 10 False"

definition byte_hex :: "u8 \<Rightarrow> string" where
  "byte_hex v = [digits_upper ! (unat v div 16), digits_upper ! (unat v mod 16)]"

definition ip_text :: "u8 list \<Rightarrow> string" where
  "ip_text ip = byte_text (ip ! 0) @ ''.'' @ byte_text (ip ! 1) @ ''.'' @ byte_text (ip ! 2) @ ''.'' @
     byte_text (ip ! 3)"

definition mac_text :: "u8 list \<Rightarrow> string" where
  "mac_text mac = byte_hex (mac ! 0) @ '':'' @ byte_hex (mac ! 1) @ '':'' @ byte_hex (mac ! 2) @ '':'' @
     byte_hex (mac ! 3) @ '':'' @ byte_hex (mac ! 4) @ '':'' @ byte_hex (mac ! 5)"

definition conv_text ::
  "char \<Rightarrow> len_mod \<Rightarrow> int \<Rightarrow> u8 \<Rightarrow> va_arg list \<Rightarrow> printf_fault + (string \<times> va_arg list)" where
  "conv_text c lmod width flags args =
     (if c = CHR ''d'' \<or> c = CHR ''i'' then
        and_then (signed_arg lmod args) (\<lambda>(val, args').
          Inr (pad_text (sign_text val flags) (uint_digits (if sint val < 0 then - val else val) 10 False) width flags,
            args'))
      else if c \<in> {CHR ''u'', CHR ''x'', CHR ''X'', CHR ''o'', CHR ''b''} then
        and_then (unsigned_arg lmod args) (\<lambda>(val, args').
          (case unsigned_format c flags val of (base, upper, prefix) \<Rightarrow>
             Inr (pad_text prefix (uint_digits val base upper) width flags, args')))
      else if c = CHR ''p'' then
        and_then (va_long args) (\<lambda>(val, args').
          Inr (pad_text ''0x'' (uint_digits val 16 False) (if width > 0 then width else 18) FLAG_ZERO, args'))
      else if c = CHR ''s'' then
        and_then (va_str args) (\<lambda>(s, args'). and_then (string_text s width flags) (\<lambda>t. Inr (t, args')))
      else if c = CHR ''c'' then
        and_then (va_int args) (\<lambda>(v, args'). Inr ([char_of (unat (ucast v :: u8))], args'))
      else if c = CHR ''I'' then
        and_then (va_bytes args) (\<lambda>(ip, args').
          (case ip of Some bs \<Rightarrow> if length bs < 4 then Inl ArgMismatch else Inr (ip_text bs, args')
           | None \<Rightarrow> Inl NullAccess))
      else if c = CHR ''M'' then
        and_then (va_bytes args) (\<lambda>(mac, args').
          (case mac of
             None \<Rightarrow> and_then (string_text (Some ''(null)'') width flags) (\<lambda>t. Inr (t, args'))
           | Some bs \<Rightarrow> if length bs < 6 then Inl ArgMismatch else Inr (mac_text bs, args')))
      else if c = CHR ''%'' then Inr (''%'', args)
      else Inr ([CHR ''%'', c], args))"

definition directive_text ::
  "string \<Rightarrow> va_arg list \<Rightarrow> printf_fault + (string \<times> string \<times> va_arg list)" where
  "directive_text p args =
     (case parse_flags 0 p of (flags0, p1) \<Rightarrow>
      let flags1 = (if has_flag flags0 FLAG_LEFT then flags0 AND NOT FLAG_ZERO else flags0) in
      and_then (parse_width flags1 p1 args) (\<lambda>(width, flags, p2, args2).
      and_then (skip_precision p2 args2) (\<lambda>(p3, args3).
      case parse_length p3 of (lmod, p4) \<Rightarrow>
        (case p4 of
           [] \<Rightarrow> Inl FormatOverrun
         | c # p5 \<Rightarrow> and_then (conv_text c lmod width flags args3) (\<lambda>(tx, args'). Inr (tx, p5, args'))))))"

lemma directive_text_shorter:
  assumes "directive_text p args = Inr (tx, p', args')"
  shows "length p' < length p"
proof -
  obtain flags0 p1 where f: "parse_flags 0 p = (flags0, p1)" by force
  let ?flags1 = "if has_flag flags0 FLAG_LEFT then flags0 AND NOT FLAG_ZERO else flags0"
  obtain w fl p2 args2 p3 args3 where w: "parse_width ?flags1 p1 args = Inr (w, fl, p2, args2)"
    and s: "skip_precision p2 args2 = Inr (p3, args3)"
    using assms by (auto simp: directive_text_def f and_then_eq_Inr Let_def)
  obtain l p4 where l: "parse_length p3 = (l, p4)" by force
  obtain c where "p4 = c # p'"
    using assms w s l by (auto simp: directive_text_def f Let_def and_then_eq_Inr split: list.splits)
  then show ?thesis using spec_shorter [OF f w s l] by simp
qed

function format_text :: "string \<Rightarrow> va_arg list \<Rightarrow> string \<times> printf_fault option" where
  "format_text p args =
     (let lit = takeWhile (\<lambda>c. c \<noteq> CHR ''%'') p in
      case dropWhile (\<lambda>c. c \<noteq> CHR ''%'') p of
        [] \<Rightarrow> (lit, None)
      | [_] \<Rightarrow> (lit, None)
      | _ # q \<Rightarrow>
          (case directive_text q args of
             Inl e \<Rightarrow> (lit, Some e)
           | Inr (tx, q', args') \<Rightarrow> (case format_text q' args' of (t, e) \<Rightarrow> (lit @ tx @ t, e))))"
  by pat_completeness auto
termination
  by (relation "measure (\<lambda>(p, args). length p)")
     (auto simp del: dropWhile.simps dest!: directive_text_shorter dropWhile_two)

declare format_text.simps [simp del]

section \<open>The buffer holds a prefix of the text\<close>

text \<open>
  After \<open>out\<close> has been produced into the buffer \<open>b0\<close>, the buffer holds as much of it as fits before
  the last byte, its other bytes are untouched, and the position counts the whole text.
\<close>

definition ctx_of :: "string \<Rightarrow> string \<Rightarrow> printf_ctx" where
  "ctx_of b0 out = \<lparr>pbuf = Some (take (length b0 - 1) out @ drop (min (length out) (length b0 - 1)) b0),
     cap = of_nat (length b0 - 1), pos = of_nat (length out)\<rparr>"

lemma write_at_ctx:
  fixes b0 out s :: string
  assumes "b0 \<noteq> []" and "length out < length b0 - 1"
  defines "k \<equiv> min (length s) (length b0 - 1 - length out)"
  shows "write_at (take (length b0 - 1) out @ drop (min (length out) (length b0 - 1)) b0) (length out) (take k s) =
    take (length b0 - 1) (out @ s) @ drop (min (length (out @ s)) (length b0 - 1)) b0"
proof -
  have "take (length b0 - 1) (out @ s) = out @ take k s" using assms(2) by (simp add: k_def min_def)
  moreover have "min (length (out @ s)) (length b0 - 1) = length out + k"
    using assms(2) by (simp add: k_def)
  ultimately show ?thesis using assms(2) by (simp add: write_at_def k_def add.commute)
qed

lemma ctx_full:
  assumes "\<not> length out < length b0 - 1"
  shows "take (length b0 - 1) (out @ s) = take (length b0 - 1) out"
    "min (length (out @ s)) (length b0 - 1) = min (length out) (length b0 - 1)"
  using assms by simp_all

text \<open>The number of bytes a bulk copy of \<open>n\<close> bytes stores, computed on words.\<close>

lemma avail_word:
  assumes "c < 2 ^ 64" and "p < 2 ^ 64" and "n < 2 ^ 64"
  defines "avail \<equiv> if (of_nat c :: u64) > of_nat p then of_nat c - of_nat p else 0 :: u64"
  shows "unat (if of_nat n < avail then of_nat n else avail) = min n (c - p)"
proof -
  have u: "unat (of_nat c :: u64) = c" "unat (of_nat p :: u64) = p" "unat (of_nat n :: u64) = n"
    using assms by (simp_all add: unat_of_nat take_bit_nat_eq_self)
  have "unat avail = c - p"
    using u unat_sub [of "of_nat p :: u64" "of_nat c"] unfolding avail_def
    by (auto simp: word_less_nat_alt word_le_nat_alt)
  then show ?thesis using u by (auto simp: word_less_nat_alt min_def)
qed

lemma ctx_of_fields:
  "pbuf (ctx_of b0 t) = Some (take (length b0 - 1) t @ drop (min (length t) (length b0 - 1)) b0)"
  "cap (ctx_of b0 t) = of_nat (length b0 - 1)" "pos (ctx_of b0 t) = of_nat (length t)"
  by (simp_all add: ctx_of_def)

lemma bulk_ctx:
  assumes b: "b0 \<noteq> []" "length b0 < 2 ^ 64" and l: "length (out @ s) < 2 ^ 64"
  shows "and_then (ctx_bulk who (take (min (length s) (length b0 - 1 - length out)) s) (ctx_of b0 out))
      (\<lambda>ctx'. Inr (ctx'\<lparr>pos := pos ctx' + of_nat (length s)\<rparr>)) = Inr (ctx_of b0 (out @ s))"
proof -
  have u: "unat (of_nat (length out) :: u64) = length out"
    using l by (simp add: unat_of_nat take_bit_nat_eq_self)
  show ?thesis
  proof (cases "length out < length b0 - 1")
    case True
    then show ?thesis
      using write_at_ctx [OF b(1) True, of s] u
      by (auto simp: ctx_bulk_def ctx_of_def min_def split: if_splits)
  next
    case False
    then show ?thesis using ctx_full [OF False, of s] by (simp add: ctx_bulk_def ctx_of_def)
  qed
qed

lemma ctx_write_text [simp]:
  assumes "b0 \<noteq> []" and "length b0 < 2 ^ 64" and "length out + length s < 2 ^ 64"
  shows "ctx_write s (ctx_of b0 out) = Inr (ctx_of b0 (out @ s))"
proof (cases "s = []")
  case False
  then have "(of_nat (length s) :: u64) \<noteq> 0"
    using assms(3) by (auto simp: word_unat_eq_iff unat_of_nat take_bit_nat_eq_self)
  moreover have "length b0 - 1 < 2 ^ 64" "length out < 2 ^ 64" "length s < 2 ^ 64" "length (out @ s) < 2 ^ 64"
    using assms(2,3) by simp_all
  ultimately show ?thesis
    unfolding ctx_write_def Let_def ctx_of_fields by (simp only: avail_word bulk_ctx [OF assms(1,2)] if_False)
qed (simp add: ctx_write_def)

lemma ctx_pad_text [simp]:
  assumes "b0 \<noteq> []" and "length b0 < 2 ^ 64" and "length out + nat n < 2 ^ 64"
  shows "ctx_pad c n (ctx_of b0 out) = Inr (ctx_of b0 (out @ replicate (nat n) c))"
proof (cases "n \<le> 0")
  case False
  then have "(of_int n :: u64) = of_nat (nat n)" by simp
  moreover have r: "replicate (min (nat n) k) c = take (min (length (replicate (nat n) c)) k) (replicate (nat n) c)" for k
    by simp
  moreover have "length b0 - 1 < 2 ^ 64" "length out < 2 ^ 64" "nat n < 2 ^ 64" "length (out @ replicate (nat n) c) < 2 ^ 64"
    using assms(2,3) by simp_all
  ultimately show ?thesis
    using bulk_ctx [OF assms(1,2), of out "replicate (nat n) c"] False
    unfolding ctx_pad_def Let_def ctx_of_fields by (simp only: avail_word r if_False length_replicate)
qed (simp add: ctx_pad_def)

lemma ctx_putc_text [simp]:
  assumes b: "b0 \<noteq> []" "length b0 < 2 ^ 64" and l: "length out + 1 < 2 ^ 64"
  shows "ctx_putc c (ctx_of b0 out) = Inr (ctx_of b0 (out @ [c]))"
proof -
  have u: "unat (of_nat (length out) :: u64) = length out" "unat (of_nat (length b0 - 1) :: u64) = length b0 - 1"
    using b l by (simp_all add: unat_of_nat take_bit_nat_eq_self)
  show ?thesis
  proof (cases "length out < length b0 - 1")
    case True
    then have "drop (length out) b0 \<noteq> []" by simp
    then obtain d ds where d: "drop (length out) b0 = d # ds" by (cases "drop (length out) b0") auto
    then have "drop (Suc (length out)) b0 = ds" by (metis drop_Suc tl_drop list.sel(3))
    then show ?thesis using True d u
      by (simp add: ctx_putc_def ctx_of_def list_update_append Suc_le_eq min_def word_less_nat_alt add.commute)
  next
    case False
    then show ?thesis using u by (simp add: ctx_putc_def ctx_of_def min_def word_less_nat_alt add.commute)
  qed
qed

text \<open>
  A formatting routine \<open>emits\<close> a text when, on every buffer, it appends that text, or fails with a
  fault that does not depend on the buffer; the position must not wrap around.
\<close>

definition emits :: "(printf_ctx \<Rightarrow> printf_fault + printf_ctx) \<Rightarrow> printf_fault + string \<Rightarrow> bool" where
  "emits f r \<longleftrightarrow> (\<forall>b0 out. b0 \<noteq> [] \<longrightarrow> length b0 < 2 ^ 64 \<longrightarrow>
     (case r of
        Inl e \<Rightarrow> length out < 2 ^ 64 \<longrightarrow> f (ctx_of b0 out) = Inl e
      | Inr tx \<Rightarrow> length out + length tx < 2 ^ 64 \<longrightarrow> f (ctx_of b0 out) = Inr (ctx_of b0 (out @ tx))))"

lemma fmt_uint_emits:
  "emits (fmt_uint val base width flags upper prefix) (Inr (pad_text prefix (uint_digits val base upper) width flags))"
proof -
  have n: "nat (if w > t then w - t else 0) = nat (w - t)" for w t :: int by simp
  show ?thesis by (simp add: emits_def fmt_uint_def Let_def pad_text_def n algebra_simps)
qed

lemma fmt_signed_emits:
  "emits (fmt_signed val width flags)
     (Inr (pad_text (sign_text val flags) (uint_digits (if sint val < 0 then - val else val) 10 False) width flags))"
  using fmt_uint_emits unfolding fmt_signed_def Let_def sign_text_def emits_def by simp

lemma fmt_string_emits: "emits (fmt_string s width flags) (string_text s width flags)"
proof -
  define t where "t = (case s of None \<Rightarrow> ''(null)'' | Some s \<Rightarrow> s)"
  define m where "m = (if width > int_of_size (of_nat (length t)) then checked_int (width - int_of_size (of_nat (length t))) else Inr 0)"
  show ?thesis
    unfolding fmt_string_def [abs_def] string_text_def Let_def t_def [symmetric] m_def [symmetric]
    by (cases m) (simp_all add: emits_def)
qed

lemma fmt_u8_hex2_emits: "emits (fmt_u8_hex2 v) (Inr (byte_hex v))"
proof -
  have "unat (drop_bit 4 v) = unat v div 16" "unat (v AND 0xF) = unat v mod 16"
    using unat_and_mask [of v 4] by (simp_all add: unat_drop_bit mask_eq_exp_minus_1)
  then show ?thesis by (simp add: emits_def fmt_u8_hex2_def byte_hex_def)
qed

lemma small_zero: "CHR ''0'' = char_of (48 :: nat)"
  by code_simp

lemma byte_text_cases:
  "byte_text v =
     (if v \<ge> 100 then [char_of (48 + unat (v div 100)), map100 ! (2 * unat (v mod 100)), map100 ! (2 * unat (v mod 100) + 1)]
      else if v \<ge> 10 then [map100 ! (2 * unat v), map100 ! (2 * unat v + 1)]
      else [char_of (48 + unat v)])"
proof -
  let ?w = "ucast v :: u64"
  have u: "unat ?w = unat v" by (rule unat_ucast_up) simp
  have le: "?w \<ge> 100 \<longleftrightarrow> v \<ge> 100" "?w \<ge> 10 \<longleftrightarrow> v \<ge> 10" by (simp_all add: word_le_nat_alt u)
  have d: "unat (?w div 100) = unat (v div 100)" "unat (?w mod 100) = unat (v mod 100)"
    by (simp_all add: unat_div_distrib unat_mod_distrib u)
  have "unat v < 256" using unsigned_less [of v] by simp
  then have "unat v div 100 < 3" by linarith
  then have small: "\<not> ?w div 100 \<ge> 100" "\<not> ?w div 100 \<ge> 10"
    by (simp_all add: word_le_nat_alt unat_div_distrib u)
  consider "v \<ge> 100" | "\<not> v \<ge> 100" "v \<ge> 10" | "\<not> v \<ge> 100" "\<not> v \<ge> 10" "v \<noteq> 0" | "v = 0" by blast
  then show ?thesis
  proof cases
    case 1
    then have "?w \<noteq> 0" using le by auto
    then show ?thesis using 1 le d small
      by (simp add: byte_text_def uint_digits_def dec_loop.simps [of ?w] dec_loop.simps [of "?w div 100"] Let_def)
  next
    case 2
    then have "?w \<noteq> 0" using le by auto
    then show ?thesis using 2 le u
      by (simp add: byte_text_def uint_digits_def dec_loop.simps [of ?w] Let_def)
  next
    case 3
    then have "?w \<noteq> 0" using u by (simp add: word_unat_eq_iff)
    then show ?thesis using 3 le u
      by (simp add: byte_text_def uint_digits_def dec_loop.simps [of ?w] Let_def)
  qed (use small_zero in \<open>simp add: byte_text_def uint_digits_def\<close>)
qed

lemma fmt_u8_dec_emits: "emits (fmt_u8_dec v) (Inr (byte_text v))"
  by (simp add: emits_def fmt_u8_dec_def byte_text_cases Let_def)

lemma emits_putc: "emits (ctx_putc c) (Inr [c])"
  by (simp add: emits_def)

lemma emits_then:
  "emits f (Inr s) \<Longrightarrow> emits g (Inr t) \<Longrightarrow> emits (\<lambda>c. and_then (f c) g) (Inr (s @ t))"
  by (simp add: emits_def)

lemma emits_putc_then: "emits g (Inr t) \<Longrightarrow> emits (\<lambda>ctx. and_then (ctx_putc c ctx) g) (Inr (c # t))"
  using emits_then [OF emits_putc] by simp

lemma fmt_ip_emits: "emits (fmt_ip ip) (Inr (ip_text ip))"
  unfolding fmt_ip_def [abs_def] ip_text_def append_Cons append_Nil
  by (intro emits_then emits_putc_then fmt_u8_dec_emits)

lemma fmt_mac_emits: "emits (fmt_mac mac) (Inr (mac_text mac))"
  unfolding fmt_mac_def [abs_def] mac_text_def append_Cons append_Nil
  by (intro emits_then emits_putc_then fmt_u8_hex2_emits)

text \<open>The same for a routine that also consumes arguments.\<close>

definition conv_emits ::
  "(printf_ctx \<Rightarrow> printf_fault + (printf_ctx \<times> 'a)) \<Rightarrow> printf_fault + (string \<times> 'a) \<Rightarrow> bool" where
  "conv_emits f r \<longleftrightarrow> (\<forall>b0 out. b0 \<noteq> [] \<longrightarrow> length b0 < 2 ^ 64 \<longrightarrow>
     (case r of
        Inl e \<Rightarrow> length out < 2 ^ 64 \<longrightarrow> f (ctx_of b0 out) = Inl e
      | Inr (tx, x) \<Rightarrow> length out + length tx < 2 ^ 64 \<longrightarrow> f (ctx_of b0 out) = Inr (ctx_of b0 (out @ tx), x)))"

lemma conv_emits_fault: "conv_emits (\<lambda>_. Inl e) (Inl e)"
  by (simp add: conv_emits_def)

lemma conv_emits_text:
  "emits f (Inr t) \<Longrightarrow> conv_emits (\<lambda>ctx. and_then (f ctx) (\<lambda>ctx'. Inr (ctx', x))) (Inr (t, x))"
  by (simp add: conv_emits_def emits_def)

lemma conv_emits_emits:
  "emits f r \<Longrightarrow> conv_emits (\<lambda>ctx. and_then (f ctx) (\<lambda>ctx'. Inr (ctx', x))) (and_then r (\<lambda>t. Inr (t, x)))"
  by (cases r) (simp_all add: conv_emits_def emits_def)

lemma conv_emits_arg:
  "(\<And>a b. conv_emits (g a b) (k a b)) \<Longrightarrow>
     conv_emits (\<lambda>ctx. and_then h (\<lambda>(a, b). g a b ctx)) (and_then h (\<lambda>(a, b). k a b))"
  using conv_emits_fault by (cases h) auto

lemma conv_emits_triple:
  "(\<And>a b c. conv_emits (g a b c) (k a b c)) \<Longrightarrow>
     conv_emits (\<lambda>ctx. case p of (a, b, c) \<Rightarrow> g a b c ctx) (case p of (a, b, c) \<Rightarrow> k a b c)"
  by (cases p) simp

lemma conv_emits_if:
  "(P \<Longrightarrow> conv_emits f r) \<Longrightarrow> (\<not> P \<Longrightarrow> conv_emits g q) \<Longrightarrow>
     conv_emits (\<lambda>ctx. if P then f ctx else g ctx) (if P then r else q)"
  by (cases P) simp_all

lemma conv_emits_option:
  "conv_emits f r \<Longrightarrow> (\<And>x. conv_emits (g x) (q x)) \<Longrightarrow>
     conv_emits (\<lambda>ctx. case m of None \<Rightarrow> f ctx | Some x \<Rightarrow> g x ctx) (case m of None \<Rightarrow> r | Some x \<Rightarrow> q x)"
  by (cases m) simp_all

lemma and_then_assoc: "and_then (and_then m f) g = and_then m (\<lambda>x. and_then (f x) g)"
  by (cases m) simp_all

lemmas fmt_emits = fmt_uint_emits fmt_signed_emits fmt_string_emits fmt_ip_emits fmt_mac_emits emits_putc

lemma convert_emits: "conv_emits (convert c lmod width flags args) (conv_text c lmod width flags args)"
proof -
  have two: "emits (\<lambda>ctx. and_then (ctx_putc a ctx) (ctx_putc b)) (Inr [a, b])" for a b
    by (intro emits_putc_then emits_putc)
  show ?thesis
    unfolding convert_def [abs_def] conv_text_def and_then_assoc [where m = "ctx_putc _ _", symmetric] Let_def
    by (intro conv_emits_if conv_emits_arg conv_emits_triple conv_emits_text conv_emits_emits conv_emits_option
        conv_emits_fault fmt_emits two)
qed

lemma convert_end:
  "\<exists>ctx'. convert (CHR 0x00) lmod width flags args (ctx_of b0 out) = Inr (ctx', args)"
proof -
  have putc: "\<exists>ctx'. ctx_putc c ctx = Inr ctx' \<and> pbuf ctx' \<noteq> None" if "pbuf ctx \<noteq> None" for c ctx
    using that by (auto simp: ctx_putc_def)
  obtain ctx1 where 1: "ctx_putc (CHR ''%'') (ctx_of b0 out) = Inr ctx1" "pbuf ctx1 \<noteq> None"
    using putc [of "ctx_of b0 out" "CHR ''%''"] by (auto simp: ctx_of_fields)
  then show ?thesis using putc [OF 1(2), of "CHR 0x00"] by (auto simp: convert_def)
qed

lemma directive_emits:
  assumes b: "b0 \<noteq> []" "length b0 < 2 ^ 64"
  shows "case directive_text p args of
      Inl e \<Rightarrow> length out < 2 ^ 64 \<longrightarrow> directive p args (ctx_of b0 out) = Inl e
    | Inr (tx, p', args') \<Rightarrow> length out + length tx < 2 ^ 64 \<longrightarrow>
        directive p args (ctx_of b0 out) = Inr (p', args', ctx_of b0 (out @ tx))"
proof -
  obtain flags0 p1 where f: "parse_flags 0 p = (flags0, p1)" by force
  let ?fl = "if has_flag flags0 FLAG_LEFT then flags0 AND NOT FLAG_ZERO else flags0"
  show ?thesis
  proof (cases "parse_width ?fl p1 args")
    case (Inl e)
    then show ?thesis by (simp add: directive_def directive_text_def f Let_def)
  next
    case w: (Inr w)
    obtain width flags p2 args2 where w': "w = (width, flags, p2, args2)" by (cases w) auto
    show ?thesis
    proof (cases "skip_precision p2 args2")
      case (Inl e)
      then show ?thesis using w w' by (simp add: directive_def directive_text_def f Let_def)
    next
      case q: (Inr q)
      obtain p3 args3 l p4 where q': "q = (p3, args3)" "parse_length p3 = (l, p4)" by (cases q) force
      note defs = directive_def directive_text_def f Let_def
      show ?thesis
      proof (cases p4)
        case Nil
        then show ?thesis using w w' q q' convert_end [of l width flags args3 b0 out] by (auto simp: defs)
      next
        case (Cons c p5)
        then show ?thesis
          using w w' q q' convert_emits [of c l width flags args3] b
          by (cases "conv_text c l width flags args3") (auto simp: defs conv_emits_def)
      qed
    qed
  qed
qed

lemma format_loop_step:
  "format_loop p args ctx =
     and_then (ctx_write (takeWhile (\<lambda>c. c \<noteq> CHR ''%'') p) ctx) (\<lambda>ctx1.
       (case dropWhile (\<lambda>c. c \<noteq> CHR ''%'') p of
          [] \<Rightarrow> Inr ctx1
        | [_] \<Rightarrow> Inr ctx1
        | _ # q \<Rightarrow>
            (case directive q args ctx1 of
               Inl e \<Rightarrow> Inl e
             | Inr (q', args', ctx2) \<Rightarrow> format_loop q' args' ctx2)))"
proof (cases p)
  case Nil
  then show ?thesis by (simp add: format_loop.simps ctx_write_def)
qed (simp only: format_loop.simps [of "_ # _"] list.case)

lemma format_loop_emits:
  assumes b: "b0 \<noteq> []" "length b0 < 2 ^ 64"
  shows "length out + length (fst (format_text p args)) < 2 ^ 64 \<Longrightarrow>
    format_loop p args (ctx_of b0 out) =
      (case snd (format_text p args) of
         None \<Rightarrow> Inr (ctx_of b0 (out @ fst (format_text p args)))
       | Some e \<Rightarrow> Inl e)"
proof (induction p args arbitrary: out rule: format_text.induct)
  case (1 p args)
  let ?lit = "takeWhile (\<lambda>c. c \<noteq> CHR ''%'') p" and ?dw = "dropWhile (\<lambda>c. c \<noteq> CHR ''%'') p"
  show ?case
  proof (cases "\<exists>d e q. ?dw = d # e # q")
    case False
    then consider (none) "?dw = []" | (one) d where "?dw = [d]" by (metis neq_Nil_conv)
    then show ?thesis
    proof cases
      case none
      then have t: "format_text p args = (?lit, None)" by (simp only: format_text.simps [of p args] Let_def list.case)
      show ?thesis using "1.prems" b
        unfolding t format_loop_step [of p] none by simp
    next
      case one
      then have t: "format_text p args = (?lit, None)" by (simp only: format_text.simps [of p args] Let_def list.case)
      show ?thesis using "1.prems" b
        unfolding t format_loop_step [of p] one by simp
    qed
  next
    case True
    then obtain d e q where dw: "?dw = d # e # q" by blast
    show ?thesis
    proof (cases "directive_text (e # q) args")
      case (Inl f)
      then have t: "format_text p args = (?lit, Some f)" by (simp add: format_text.simps [of p] dw)
      have "directive (e # q) args (ctx_of b0 (out @ ?lit)) = Inl f"
        using directive_emits [OF b, where p = "e # q" and args = args and out = "out @ ?lit"] "1.prems" Inl t by simp
      then show ?thesis using "1.prems" b
        unfolding t format_loop_step [of p] dw by simp
    next
      case (Inr x)
      obtain tx p' args' where x: "x = (tx, p', args')" by (cases x) auto
      obtain t fe where r: "format_text p' args' = (t, fe)" by force
      have ft: "format_text p args = (?lit @ tx @ t, fe)" using Inr x r by (simp add: format_text.simps [of p] dw)
      have dir: "directive (e # q) args (ctx_of b0 (out @ ?lit)) = Inr (p', args', ctx_of b0 (out @ ?lit @ tx))"
        using directive_emits [OF b, where p = "e # q" and args = args and out = "out @ ?lit"] "1.prems" Inr x ft by simp
      have "format_loop p' args' (ctx_of b0 (out @ ?lit @ tx)) =
          (case fe of None \<Rightarrow> Inr (ctx_of b0 ((out @ ?lit @ tx) @ t)) | Some e \<Rightarrow> Inl e)"
        using "1.IH" [OF refl dw refl _ refl refl, of tx p' args' "out @ ?lit @ tx"] "1.prems" Inr x r ft
        by (simp split: option.splits)
      then show ?thesis using "1.prems" b dir
        unfolding ft format_loop_step [of p] dw by (simp split: option.splits)
    qed
  qed
qed
section \<open>Digits denote the number\<close>

definition digit_char :: "char \<Rightarrow> nat \<Rightarrow> bool" where
  "digit_char c d \<longleftrightarrow> is_digit c \<and> of_char c = 48 + d"

lemma nth_concat_blocks:
  "\<forall>x\<in>set xs. length x = k \<Longrightarrow> j < length xs \<Longrightarrow> i < k \<Longrightarrow> concat xs ! (k * j + i) = xs ! j ! i"
proof (induction xs arbitrary: j)
  case (Cons x xs)
  then show ?case by (cases j) (auto simp: nth_append)
qed simp

definition ten_digits :: string where "ten_digits = ''0123456789''"

lemma length_ten [simp]: "length ten_digits = 10"
  by (simp add: ten_digits_def)

definition pair_row :: "char \<Rightarrow> string" where
  "pair_row a = concat (map (\<lambda>b. [a, b]) ten_digits)"

lemma map100_rows: "map100 = concat (map pair_row ten_digits)"
  by (simp add: map100_def ten_digits_def pair_row_def)

lemma pair_row_nth:
  "j < 10 \<Longrightarrow> pair_row a ! (2 * j) = a" "j < 10 \<Longrightarrow> pair_row a ! (2 * j + 1) = ten_digits ! j"
  "length (pair_row a) = 20"
  using nth_concat_blocks [of "map (\<lambda>b. [a, b]) ten_digits" 2 j 0]
    nth_concat_blocks [of "map (\<lambda>b. [a, b]) ten_digits" 2 j 1]
  by (auto simp: pair_row_def) (simp add: ten_digits_def)

lemma map100_nth:
  assumes "r < 100"
  shows "map100 ! (2 * r) = ten_digits ! (r div 10)" "map100 ! (2 * r + 1) = ten_digits ! (r mod 10)"
proof -
  have len: "\<forall>x\<in>set (map pair_row ten_digits). length x = 20" by (simp add: pair_row_nth)
  have ix: "r div 10 < length (map pair_row ten_digits)" using assms by simp
  have "2 * r = 20 * (r div 10) + 2 * (r mod 10)" by presburger
  then show "map100 ! (2 * r) = ten_digits ! (r div 10)" "map100 ! (2 * r + 1) = ten_digits ! (r mod 10)"
    using nth_concat_blocks [OF len ix, of "2 * (r mod 10)"] nth_concat_blocks [OF len ix, of "2 * (r mod 10) + 1"]
      ix pair_row_nth by (simp_all add: map100_rows)
qed

lemma ten_digit_table: "list_all (\<lambda>d. digit_char (ten_digits ! d) d) [0..<10]"
  by code_simp

lemma ten_digit: "d < 10 \<Longrightarrow> digit_char (ten_digits ! d) d"
  using ten_digit_table by (auto simp: list_all_iff)

lemma map100_digits:
  "r < 100 \<Longrightarrow> digit_char (map100 ! (2 * r)) (r div 10)" "r < 100 \<Longrightarrow> digit_char (map100 ! (2 * r + 1)) (r mod 10)"
  unfolding map100_nth by (auto intro!: ten_digit)

lemma small_digit_table: "list_all (\<lambda>d. digit_char (char_of (48 + d)) d) [0..<10]"
  by code_simp

lemma small_digit: "d < 10 \<Longrightarrow> digit_char (char_of (48 + d)) d"
  using small_digit_table by (auto simp: list_all_iff)

lemma dec_step: "digit_char c d \<Longrightarrow> strtoull_dec val (c # cs) = strtoull_dec (val * 10 + of_nat d) cs"
proof -
  assume c: "digit_char c d"
  then have "(of_char c :: u64) = of_nat (48 + d)" unfolding digit_char_def by (metis of_nat_of_char)
  then show ?thesis using c by (simp add: digit_char_def)
qed

lemma word_split_100:
  "((v div 100) * 10 + of_nat (unat (v mod 100) div 10)) * 10 + of_nat (unat (v mod 100) mod 10) = (v :: u64)"
proof -
  let ?r = "v mod 100"
  have "(of_nat (unat ?r div 10) * 10 + of_nat (unat ?r mod 10) :: u64) = of_nat (unat ?r div 10 * 10 + unat ?r mod 10)"
    by (simp only: of_nat_add of_nat_mult of_nat_numeral)
  also have "\<dots> = of_nat (unat ?r)" by (simp only: div_mult_mod_eq)
  also have "\<dots> = ?r" by (rule of_nat_unat_id)
  finally have r: "(of_nat (unat ?r div 10) * 10 + of_nat (unat ?r mod 10) :: u64) = ?r" .
  have "((v div 100) * 10 + of_nat (unat ?r div 10)) * 10 + of_nat (unat ?r mod 10) =
      (v div 100) * 100 + (of_nat (unat ?r div 10) * 10 + of_nat (unat ?r mod 10))"
    by (simp add: algebra_simps)
  also have "\<dots> = v" unfolding r by (rule div_mult_mod_eq)
  finally show ?thesis .
qed

lemma strtoull_dec_loop: "strtoull_dec 0 (dec_loop v acc) = strtoull_dec v acc"
proof (induction v acc rule: dec_loop.induct)
  case (1 v acc)
  consider (big) "v \<ge> 100" | (two) "\<not> v \<ge> 100" "v \<ge> 10" | (one) "\<not> v \<ge> 10" "\<not> v \<ge> 100" by blast
  then show ?case
  proof cases
    case big
    have lt: "unat (v mod 100) < 100" by (simp add: unat_mod_distrib)
    have "strtoull_dec 0 (dec_loop v acc) =
        strtoull_dec (v div 100) (map100 ! (2 * unat (v mod 100)) # map100 ! (2 * unat (v mod 100) + 1) # acc)"
      using big "1.IH" by (subst dec_loop.simps) (simp add: Let_def)
    then show ?thesis
      by (simp only: dec_step [OF map100_digits(1) [OF lt]] dec_step [OF map100_digits(2) [OF lt]] word_split_100)
  next
    case two
    then have lt: "unat v < 100" by (simp add: word_le_nat_alt)
    have "v mod 100 = v" using two by (intro mod_word_less) (simp add: not_le)
    then have w: "(of_nat (unat v div 10) * 10 + of_nat (unat v mod 10) :: u64) = v"
      using lt word_split_100 [of v] by (metis (no_types) mult_zero_left add_0 div_word_less not_le two(1))
    show ?thesis
      using two dec_step [OF map100_digits(1) [OF lt], of 0] dec_step [OF map100_digits(2) [OF lt]] w
      by (subst dec_loop.simps) simp
  next
    case one
    then have lt: "unat v < 10" by (simp add: word_le_nat_alt)
    show ?thesis using one dec_step [OF small_digit [OF lt], of 0] by (subst dec_loop.simps) simp
  qed
qed

definition hex_digit_char :: "char \<Rightarrow> nat \<Rightarrow> bool" where
  "hex_digit_char c d \<longleftrightarrow>
     (is_digit c \<and> of_char c = 48 + d) \<or>
     (\<not> is_digit c \<and> in_chars (CHR ''a'') (CHR ''f'') c \<and> of_char c = 87 + d) \<or>
     (\<not> is_digit c \<and> \<not> in_chars (CHR ''a'') (CHR ''f'') c \<and> in_chars (CHR ''A'') (CHR ''F'') c \<and> of_char c = 55 + d)"

lemma hex_digit_tables:
  "list_all (\<lambda>d. hex_digit_char (digits_lower ! d) d) [0..<16]"
  "list_all (\<lambda>d. hex_digit_char (digits_upper ! d) d) [0..<16]"
  "list_all (\<lambda>d. hex_digit_char (hex_chars ! d) d) [0..<16]"
  by code_simp+

lemma hex_digits:
  "d < 16 \<Longrightarrow> hex_digit_char (digits_lower ! d) d" "d < 16 \<Longrightarrow> hex_digit_char (digits_upper ! d) d"
  "d < 16 \<Longrightarrow> hex_digit_char (hex_chars ! d) d"
  using hex_digit_tables by (auto simp: list_all_iff)

lemma hex_step: "hex_digit_char c d \<Longrightarrow> strtoull_hex val (c # cs) = strtoull_hex (val * 16 + of_nat d) cs"
proof -
  assume c: "hex_digit_char c d"
  have w: "(of_char c :: u64) = of_nat n" if "of_char c = n" for n
    using that by (metis of_nat_of_char)
  show ?thesis using c unfolding hex_digit_char_def
    by (elim disjE conjE) (simp_all add: w)
qed

lemma nibble: "unat (v AND 0xF :: u64) < 16" "of_nat (unat (v AND 0xF)) = (v AND 0xF :: u64)"
  using unat_and_mask [of v 4] by (simp add: page_masks(5)) (rule of_nat_unat_id)

lemma split_nibble: "drop_bit 4 v * 16 + (v AND 0xF) = (v :: u64)"
proof -
  have "drop_bit 4 v * 16 + (v AND 0xF) = (v div 16) * 16 + v mod 16"
    using word_mod_2p_is_mask [of 4 v] by (simp add: drop_bit_eq_div page_masks(5))
  then show ?thesis by (simp add: div_mult_mod_eq)
qed

lemma strtoull_hex_loop:
  "(\<And>d. d < 16 \<Longrightarrow> hex_digit_char (digits ! d) d) \<Longrightarrow>
     strtoull_hex 0 (hex_loop digits v acc) = strtoull_hex v acc"
proof (induction digits v acc rule: hex_loop.induct)
  case (1 digits v acc)
  show ?case
  proof (cases "v = 0")
    case False
    then have "strtoull_hex 0 (hex_loop digits v acc) =
        strtoull_hex (drop_bit 4 v) (digits ! unat (v AND 0xF) # acc)"
      using 1 by (subst hex_loop.simps) simp
    also have "\<dots> = strtoull_hex v acc"
      by (simp only: hex_step [OF "1.prems" [OF nibble(1)]] nibble(2) split_nibble)
    finally show ?thesis .
  qed (subst hex_loop.simps, simp)
qed

lemma take_bit_nibble: "take_bit n (drop_bit 4 v) * 16 + (v AND 0xF) = take_bit (n + 4) (v :: u64)"
proof -
  have "take_bit n (drop_bit 4 v) * 16 = push_bit 4 (take_bit n (drop_bit 4 v))"
    by (simp add: push_bit_eq_mult)
  moreover have "push_bit 4 (take_bit n (drop_bit 4 v)) + (v AND mask 4) =
      push_bit 4 (take_bit n (drop_bit 4 v)) OR (v AND mask 4)"
    by (rule disjunctive_add) (auto simp: bit_simps)
  moreover have "push_bit 4 (take_bit n (drop_bit 4 v)) OR (v AND mask 4) = take_bit (n + 4) v"
    by (rule bit_eqI) (auto simp: bit_simps)
  ultimately show ?thesis by (simp only: page_masks(5))
qed

lemma strtoull_ptrthex_loop: "strtoull_hex 0 (ptrthex_loop k v acc) = strtoull_hex (take_bit (4 * k) v) acc"
proof (induction k arbitrary: v acc)
  case (Suc k)
  have "strtoull_hex 0 (ptrthex_loop (Suc k) v acc) =
      strtoull_hex (take_bit (4 * k) (drop_bit 4 v)) (hex_chars ! unat (v AND 0xF) # acc)"
    using Suc.IH by simp
  also have "\<dots> = strtoull_hex (take_bit (4 * k + 4) v) acc"
    by (simp only: hex_step [OF hex_digits(3) [OF nibble(1)]] nibble(2) take_bit_nibble)
  finally show ?case by (simp add: add.commute)
qed simp

text \<open>Every number a conversion produces fits the \<^verbatim>\<open>tmp\<close> array, and consists of digits only.\<close>

lemma loop_halves: "v \<noteq> 0 \<Longrightarrow> unat v < 2 ^ Suc n \<Longrightarrow> 2 \<le> b \<Longrightarrow> unat (v div b :: u64) < 2 ^ n"
proof -
  assume v: "unat v < 2 ^ Suc n" and b: "2 \<le> b"
  have "2 \<le> unat b" using b by (simp add: word_le_nat_alt)
  have "unat (v div b) * 2 \<le> unat v div unat b * unat b"
    unfolding unat_div_distrib using \<open>2 \<le> unat b\<close> by (intro mult_left_mono) simp_all
  also have "\<dots> \<le> unat v" by simp
  finally show ?thesis using v by simp
qed

lemma hex_loop_len: "unat v < 2 ^ n \<Longrightarrow> length (hex_loop digits v acc) \<le> length acc + n"
proof (induction digits v acc arbitrary: n rule: hex_loop.induct)
  case (1 digits v acc)
  show ?case
  proof (cases "v = 0 \<or> n = 0")
    case False
    then obtain k where k: "n = Suc k" by (cases n) auto
    have "unat (drop_bit 4 v) < 2 ^ k"
      using loop_halves [of v k "2 ^ 4"] "1.prems" False k by (simp add: drop_bit_eq_div word_le_nat_alt)
    from "1.IH" [OF _ this] False k show ?thesis by (subst hex_loop.simps) simp
  qed (use 1 in \<open>auto simp: hex_loop.simps [of digits v acc] unat_eq_0\<close>)
qed

lemma bin_loop_len: "unat v < 2 ^ n \<Longrightarrow> length (bin_loop v acc) \<le> length acc + n"
proof (induction v acc arbitrary: n rule: bin_loop.induct)
  case (1 v acc)
  show ?case
  proof (cases "v = 0 \<or> n = 0")
    case False
    then obtain k where k: "n = Suc k" by (cases n) auto
    have "unat (drop_bit 1 v) < 2 ^ k"
      using loop_halves [of v k 2] "1.prems" False k by (simp add: drop_bit_eq_div word_le_nat_alt)
    from "1.IH" [OF _ this] False k show ?thesis by (subst bin_loop.simps) simp
  qed (use 1 in \<open>auto simp: bin_loop.simps [of v acc] unat_eq_0\<close>)
qed

lemma base_loop_len: "unat v < 2 ^ n \<Longrightarrow> length (base_loop digits b v acc) \<le> length acc + n"
proof (induction digits b v acc arbitrary: n rule: base_loop.induct)
  case (1 digits b v acc)
  show ?case
  proof (cases "v = 0 \<or> b < 2 \<or> n = 0")
    case False
    then obtain k where k: "n = Suc k" by (cases n) auto
    have "unat (v div b) < 2 ^ k"
      using loop_halves [of v k b] "1.prems" False k by (simp add: not_less)
    from "1.IH" [OF _ this] False k show ?thesis by (subst base_loop.simps) simp
  qed (use 1 in \<open>auto simp: base_loop.simps [of digits b v acc] unat_eq_0\<close>)
qed

text \<open>A decimal text of \<open>n\<close> digits denotes at least \<open>10 ^ (n - 1)\<close>.\<close>

lemma dec_loop_len:
  "\<exists>n. length (dec_loop v acc) = length acc + Suc n \<and> (n = 0 \<or> 10 ^ n \<le> unat v)"
proof (induction v acc rule: dec_loop.induct)
  case (1 v acc)
  show ?case
  proof (cases "v \<ge> 100")
    case True
    have step: "dec_loop v acc = dec_loop (v div 100)
        (map100 ! (2 * unat (v mod 100)) # map100 ! (2 * unat (v mod 100) + 1) # acc)"
      using True by (subst dec_loop.simps) (simp add: Let_def)
    obtain n where n: "length (dec_loop v acc) = length acc + 2 + Suc n"
      "n = 0 \<or> 10 ^ n \<le> unat (v div 100)"
      using "1.IH" [OF True refl] unfolding step by auto
    have "10 ^ (n + 2) \<le> unat v"
    proof (cases "n = 0")
      case False
      then have "10 ^ n * 100 \<le> unat v div 100 * 100" using n(2) by (simp add: unat_div_distrib)
      also have "\<dots> \<le> unat v" by simp
      finally show ?thesis by simp
    qed (use True in \<open>simp add: word_le_nat_alt\<close>)
    then show ?thesis using n(1) by (intro exI [of _ "n + 2"]) simp
  next
    case False
    then show ?thesis
      by (intro exI [of _ "if v \<ge> 10 then 1 else 0"], subst dec_loop.simps) (simp add: word_le_nat_alt)
  qed
qed

lemma dec_len: "length (dec_loop v []) \<le> 20"
proof -
  obtain n where n: "length (dec_loop v []) = Suc n" "n = 0 \<or> 10 ^ n \<le> unat v"
    using dec_loop_len [of v "[]"] by auto
  have "\<not> 20 \<le> n"
  proof
    assume "20 \<le> n"
    then have "(10::nat) ^ 20 \<le> 10 ^ n" by (intro power_increasing) simp_all
    then have "10 ^ 20 \<le> unat v" using n(2) \<open>20 \<le> n\<close> by linarith
    moreover have "(2::nat) ^ 64 < 10 ^ 20" by simp
    ultimately show False using unat_lt_64 [of v] by linarith
  qed
  then show ?thesis using n(1) by simp
qed

lemma dec_loop_digits: "list_all is_digit acc \<Longrightarrow> list_all is_digit (dec_loop v acc)"
proof (induction v acc rule: dec_loop.induct)
  case (1 v acc)
  have d: "is_digit (map100 ! (2 * r)) \<and> is_digit (map100 ! (2 * r + 1))" if "r < 100" for r
    using map100_digits [OF that] by (simp add: digit_char_def)
  show ?case
  proof (cases "v \<ge> 100")
    case True
    have "unat (v mod 100) < 100" by (simp add: unat_mod_distrib)
    then show ?thesis using True 1 d by (subst dec_loop.simps) (simp add: Let_def)
  next
    case False
    then show ?thesis using d [of "unat v"] small_digit [of "unat v"] "1.prems"
      by (subst dec_loop.simps) (auto simp: digit_char_def word_le_nat_alt)
  qed
qed

lemma strtoull_digits: "list_all is_digit cs \<Longrightarrow> strtoull cs = strtoull_dec 0 cs"
proof -
  have "\<not> is_digit (CHR ''x'')" "\<not> is_digit (CHR ''X'')" by (simp_all add: is_digit_def in_chars_def)
  then show "list_all is_digit cs \<Longrightarrow> ?thesis" by (auto simp: strtoull_def split: list.splits)
qed

lemma strtoull_decimal: "strtoull (uint_digits v 10 upper) = v"
proof (cases "v = 0")
  case False
  then show ?thesis
    using dec_loop_digits [of "[]" v] strtoull_dec_loop [of v "[]"]
    by (simp add: uint_digits_def strtoull_digits)
qed (simp add: uint_digits_def strtoull_def is_digit_def in_chars_def)

lemma strtoull_hexadecimal: "strtoull (''0x'' @ uint_digits v 16 upper) = v"
proof (cases "v = 0")
  case False
  then show ?thesis
    using strtoull_hex_loop [of digits_lower v "[]"] strtoull_hex_loop [of digits_upper v "[]"] hex_digits
    by (simp add: uint_digits_def strtoull_def)
qed (simp add: uint_digits_def strtoull_def is_digit_def in_chars_def)

section \<open>Line editing\<close>

text \<open>What \<^verbatim>\<open>readline\<close> should do, on the line typed so far: backspace removes its last character.\<close>

fun edit :: "nat \<Rightarrow> string \<Rightarrow> string \<Rightarrow> (string \<times> string) option" where
  "edit bound line input =
     (if length line < bound then
        (case input of
           [] \<Rightarrow> None
         | c # cs \<Rightarrow>
             if c = CHR 0x0A \<or> c = CHR 0x0D then Some (line, cs)
             else if c = CHR 0x08 \<or> c = CHR 0x7F then edit bound (butlast line) cs
             else if in_chars (CHR 0x20) (CHR 0x7E) c then edit bound (line @ [c]) cs
             else edit bound line cs)
      else Some (line, input))"

declare edit.simps [simp del]

lemma readline_loop_edit:
  "length line \<le> bound \<Longrightarrow> bound < length b \<Longrightarrow> take (length line) b = line \<Longrightarrow>
     (case edit bound line input of
        None \<Rightarrow> readline_loop echo bound b (length line) out input = None
      | Some (l, rest) \<Rightarrow> \<exists>b' out'. readline_loop echo bound b (length line) out input = Some (length l, b', out', rest) \<and>
          take (length l) b' = l \<and> length b' = length b)"
proof (induction bound line input arbitrary: b out rule: edit.induct)
  case (1 bound line input)
  show ?case
  proof (cases "length line < bound")
    case False
    then show ?thesis using "1.prems"
      by (simp add: edit.simps [of bound line] readline_loop.simps [of _ bound b])
  next
    case lt: True
    show ?thesis
    proof (cases input)
      case Nil
      then show ?thesis using lt by (simp add: edit.simps [of bound line] readline_loop.simps [of _ bound b])
    next
      case (Cons c cs)
      consider (nl) "c = CHR 0x0A \<or> c = CHR 0x0D"
        | (bs) "\<not> (c = CHR 0x0A \<or> c = CHR 0x0D)" "c = CHR 0x08 \<or> c = CHR 0x7F"
        | (ch) "\<not> (c = CHR 0x0A \<or> c = CHR 0x0D)" "\<not> (c = CHR 0x08 \<or> c = CHR 0x7F)"
            "in_chars (CHR 0x20) (CHR 0x7E) c"
        | (other) "\<not> (c = CHR 0x0A \<or> c = CHR 0x0D)" "\<not> (c = CHR 0x08 \<or> c = CHR 0x7F)"
            "\<not> in_chars (CHR 0x20) (CHR 0x7E) c" by blast
      then show ?thesis
      proof cases
        case nl
        then show ?thesis using lt "1.prems"
          by (auto simp: Cons edit.simps [of bound line] readline_loop.simps [of _ bound b])
      next
        case bs
        have t: "take (length (butlast line)) b = butlast line"
          using "1.prems"(3) by (metis butlast_conv_take length_butlast take_take min.idem diff_le_self min.absorb1)
        have "length (butlast line) \<le> bound" using "1.prems"(1) by simp
        note IH = "1.IH"(1) [OF lt Cons bs(1) bs(2) this "1.prems"(2) t,
            where out = "if echo \<and> line \<noteq> [] then out @ [CHR 0x08, CHR 0x20, CHR 0x08] else out"]
        have step: "readline_loop echo bound b (length line) out input =
            readline_loop echo bound b (length (butlast line))
              (if echo \<and> line \<noteq> [] then out @ [CHR 0x08, CHR 0x20, CHR 0x08] else out) cs"
          using lt bs by (subst readline_loop.simps) (auto simp: Cons)
        have "edit bound line input = edit bound (butlast line) cs"
          using lt bs by (subst edit.simps) (simp add: Cons)
        then show ?thesis using IH unfolding step by (simp only: length_list_update)
      next
        case ch
        have b: "length line < length b" using lt "1.prems"(2) by simp
        have t: "take (length (line @ [c])) (b[length line := c]) = line @ [c]"
          using b "1.prems"(3) by (simp add: take_Suc_conv_app_nth)
        have "length (line @ [c]) \<le> bound" "bound < length (b[length line := c])" using lt "1.prems"(2) by simp_all
        note IH = "1.IH"(2) [OF lt Cons ch this t, where out = "if echo then out @ [c] else out"]
        have step: "readline_loop echo bound b (length line) out input =
            readline_loop echo bound (b[length line := c]) (length (line @ [c])) (if echo then out @ [c] else out) cs"
          using lt ch by (subst readline_loop.simps) (auto simp: Cons)
        have "edit bound line input = edit bound (line @ [c]) cs"
          using lt ch by (subst edit.simps) (simp add: Cons)
        then show ?thesis using IH unfolding step by (simp only: length_list_update)
      next
        case other
        note IH = "1.IH"(3) [OF lt Cons other "1.prems"]
        have step: "readline_loop echo bound b (length line) out input = readline_loop echo bound b (length line) out cs"
          using lt other by (subst readline_loop.simps) (auto simp: Cons)
        have "edit bound line input = edit bound line cs"
          using lt other by (subst edit.simps) (simp add: Cons)
        then show ?thesis using IH unfolding step by (simp only: length_list_update)
      qed
    qed
  qed
qed

lemma edit_line_ok:
  "edit bound line input = Some (l, rest) \<Longrightarrow> length line \<le> bound \<Longrightarrow>
     list_all (in_chars (CHR 0x20) (CHR 0x7E)) line \<Longrightarrow>
     length l \<le> bound \<and> list_all (in_chars (CHR 0x20) (CHR 0x7E)) l"
proof (induction bound line input rule: edit.induct)
  case (1 bound line input)
  have "list_all (in_chars (CHR 0x20) (CHR 0x7E)) (butlast line)"
    using "1.prems"(3) by (auto simp: list_all_iff dest: in_set_butlastD)
  then show ?case using 1
    by (subst (asm) (4) edit.simps) (auto split: if_splits list.splits)
qed

lemma readline_refines:
  assumes "b \<noteq> []"
  shows "case edit (length b - 1) [] input of
      None \<Rightarrow> readline echo b input = None
    | Some (l, rest) \<Rightarrow> \<exists>b' out. readline echo b input = Some (b', out, rest) \<and> length b' = length b \<and>
        take (length l + 1) b' = l @ [CHR 0x00]"
proof -
  have "0 < length b" using assms by simp
  then have bl: "length b - 1 < length b" "length b \<noteq> 0" by linarith+
  have loop: "case edit (length b - 1) [] input of
      None \<Rightarrow> readline_loop echo (length b - 1) b 0 [] input = None
    | Some (l, rest) \<Rightarrow> \<exists>b' out'. readline_loop echo (length b - 1) b 0 [] input = Some (length l, b', out', rest) \<and>
        take (length l) b' = l \<and> length b' = length b"
    using readline_loop_edit [where line = "[]" and bound = "length b - 1" and b = b and out = "[]" and input = input
        and echo = echo, unfolded list.size take_0] bl(1) by simp
  show ?thesis
  proof (cases "edit (length b - 1) [] input")
    case None
    then show ?thesis using loop bl by (simp add: readline_def Let_def)
  next
    case (Some p)
    obtain l rest where p: "p = (l, rest)" by force
    have "length l \<le> length b - 1" using edit_line_ok Some p by fastforce
    then have l: "length l < length b" using bl by linarith
    obtain b' out' where r: "readline_loop echo (length b - 1) b 0 [] input = Some (length l, b', out', rest)"
      "take (length l) b' = l" "length b' = length b"
      using loop Some p by auto
    have "take (length l + 1) (b'[length l := CHR 0x00]) = l @ [CHR 0x00]"
      using l r(2,3) by (simp add: take_Suc_conv_app_nth)
    then show ?thesis using Some p r bl by (simp add: readline_def Let_def)
  qed
qed

section \<open>The whole call\<close>

lemma terminated:
  assumes "b0 \<noteq> []"
  shows "(take (length b0 - 1) t @ drop (min (length t) (length b0 - 1)) b0)
      [(if length t < length b0 - 1 then length t else length b0 - 1) := CHR 0x00] =
    take (length b0 - 1) t @ CHR 0x00 # drop (min (length t) (length b0 - 1) + 1) b0"
proof -
  let ?m = "min (length t) (length b0 - 1)"
  have i: "(if length t < length b0 - 1 then length t else length b0 - 1) = ?m" by (simp add: min_def)
  have "0 < length b0" using assms by simp
  then have "?m < length b0" by linarith
  then have d: "drop ?m b0 = b0 ! ?m # drop (?m + 1) b0" using Cons_nth_drop_Suc [of ?m b0] by simp
  have l: "length (take (length b0 - 1) t) = ?m" by simp
  show ?thesis unfolding i d using l by (metis list_update_length)
qed

lemma vsnprintf_text:
  assumes b: "b0 \<noteq> []" "length b0 < 2 ^ 64" and t: "length (fst (format_text fmt args)) < 2 ^ 64"
  defines "text \<equiv> fst (format_text fmt args)"
  shows "vsnprintf (Some b0) (of_nat (length b0)) fmt args =
    (case snd (format_text fmt args) of
       Some e \<Rightarrow> Inl e
     | None \<Rightarrow> Inr (Some (take (length b0 - 1) text @ CHR 0x00 # drop (min (length text) (length b0 - 1) + 1) b0),
         int_of_size (of_nat (length text))))"
proof -
  have "0 < length b0" using b by simp
  then have w: "(of_nat (length b0) :: u64) - 1 = of_nat (length b0 - 1)" "(of_nat (length b0) :: u64) > 0"
    using b(2) by (simp_all add: of_nat_diff Suc_leI word_less_nat_alt unat_of_nat take_bit_nat_eq_self)
  have start: "\<lparr>pbuf = Some b0, cap = (if of_nat (length b0) > (0::u64) then of_nat (length b0) - 1 else 0), pos = 0\<rparr> =
      ctx_of b0 []"
    using w by (simp add: ctx_of_def)
  have u: "unat (if (of_nat (length text) :: u64) < of_nat (length b0 - 1) then of_nat (length text)
        else of_nat (length b0 - 1) :: u64) =
      (if length text < length b0 - 1 then length text else length b0 - 1)"
    using b t by (simp add: text_def word_less_nat_alt unat_of_nat take_bit_nat_eq_self)
  have run: "format_loop fmt args (ctx_of b0 []) =
      (case snd (format_text fmt args) of None \<Rightarrow> Inr (ctx_of b0 text) | Some e \<Rightarrow> Inl e)"
    using format_loop_emits [OF b, of "[]" fmt args] t by (simp add: text_def split: option.splits)
  show ?thesis
    unfolding vsnprintf_def start run
    by (cases "snd (format_text fmt args)")
       (simp_all only: option.case and_then_Inl and_then_Inr ctx_of_fields terminated [OF b(1)] w if_True u)
qed

lemma int_of_size_small: "n < 2 ^ 31 \<Longrightarrow> int_of_size (of_nat n) = int n"
proof -
  assume n: "n < 2 ^ 31"
  have "unat (of_nat n :: u64) = n" using n by (simp add: unat_of_nat take_bit_nat_eq_self)
  then have "(ucast (of_nat n :: u64) :: u32) = of_nat n" by (metis of_nat_unat)
  then have "int_of_size (of_nat n) = signed_take_bit 31 (int n)"
    by (simp add: int_of_size_def signed_of_nat)
  also have "\<dots> = int n" using n by (intro signed_take_bit_int_eq_self) simp_all
  finally show ?thesis .
qed

section \<open>Properties\<close>

text \<open>
  C8. For every non-empty buffer \<^verbatim>\<open>vsnprintf\<close> stores as much of the text the format denotes as fits
  before the last byte, terminates it and touches no other byte; it returns the length of the whole
  text converted to \<^verbatim>\<open>int\<close>, which is that length when the text is shorter than \<open>2 ^ 31\<close> characters. A
  faulty format or argument list, and a width that overflows \<^verbatim>\<open>int\<close>, is the same fault for every
  buffer. The buffer's size and the text's length fit \<^verbatim>\<open>size_t\<close>.
\<close>

theorem vsnprintf_truncates:
  assumes "Suc (length b) < 2 ^ 64" and "length (fst (format_text fmt args)) < 2 ^ 64"
  shows "vsnprintf (Some (c # b)) (of_nat (Suc (length b))) fmt args =
     (case format_text fmt args of
        (text, Some e) \<Rightarrow> Inl e
      | (text, None) \<Rightarrow>
          Inr (Some (take (length b) text @ CHR 0x00 # drop (min (length text) (length b)) b),
            int_of_size (of_nat (length text)))) \<and>
    (length (fst (format_text fmt args)) < 2 ^ 31 \<longrightarrow>
       int_of_size (of_nat (length (fst (format_text fmt args)))) = int (length (fst (format_text fmt args))))"
proof -
  have l: "length (c # b) < 2 ^ 64" "c # b \<noteq> []" "length (c # b) = Suc (length b)" using assms(1) by simp_all
  obtain tx fe where t: "format_text fmt args = (tx, fe)" by force
  show ?thesis
    using vsnprintf_text [OF l(2,1) assms(2)] int_of_size_small [of "length tx"]
    unfolding t l(3) by (simp split: option.splits)
qed

lemma demo_format: "format_text ''%5d|%s'' [ArgInt 42, ArgStr (Some ''abc'')] = (''   42|abc'', None)"
  by code_simp

theorem vsnprintf_truncates_witness:
  "vsnprintf (Some ''????????'') 8 ''%5d|%s'' [ArgInt 42, ArgStr (Some ''abc'')] =
     Inr (Some (''   42|a'' @ [CHR 0x00]), 9)"
  using vsnprintf_truncates [of "''???????''" "''%5d|%s''" "[ArgInt 42, ArgStr (Some ''abc'')]" "CHR ''?''"]
  by (simp add: demo_format int_of_size_def)

text \<open>The widths that overflow, and the texts too long for the result.\<close>

lemma width_overflow: "format_text ''%2147483648d'' args = ([], Some SignedOverflow)"
  by (simp add: format_text.simps directive_text_def parse_width_def checked_int_def is_digit_def in_chars_def has_flag_def)

lemma long_result_negative: "int_of_size (2 ^ 31) = - (2 ^ 31)"
  by (simp add: int_of_size_def)

text \<open>
  Printing and parsing are inverse: \<^verbatim>\<open>strtoull\<close> reads back every 64-bit number from its decimal
  text, from its hexadecimal text in either case behind \<open>0x\<close>, and from the sixteen digits of
  \<^verbatim>\<open>ptrthex\<close>; the texts of all bases fit the 66-byte scratch array.
\<close>

theorem number_text_roundtrip:
  "strtoull (uint_digits v 10 upper) = v \<and> strtoull (''0x'' @ uint_digits v 16 upper) = v \<and>
   strtoull (''0x'' @ take 16 (ptrthex v)) = v \<and> length (ptrthex v) = 17 \<and>
   list_all (\<lambda>base. length (uint_digits v base upper) \<le> 64) [2, 8, 10, 16]"
proof -
  have l: "length (ptrthex_loop k w acc) = k + length acc" for k w acc
    by (induction k arbitrary: w acc) simp_all
  have p: "take 16 (ptrthex v) = ptrthex_loop 16 v []" by (simp add: ptrthex_def l)
  have "strtoull_hex 0 (ptrthex_loop 16 v []) = v"
    unfolding strtoull_ptrthex_loop by (simp add: take_bit_word_eq_self)
  then have "strtoull (''0x'' @ take 16 (ptrthex v)) = v" unfolding p by (simp add: strtoull_def)
  moreover have "length (uint_digits v base upper) \<le> 64" if "base \<in> {2, 8, 10, 16}" for base
    using that hex_loop_len [OF unat_lt_64, of _ v "[]"] bin_loop_len [OF unat_lt_64, of v "[]"]
      base_loop_len [OF unat_lt_64, of _ _ v "[]"] dec_len [of v]
    by (auto simp: uint_digits_def Let_def)
  ultimately show ?thesis
    using strtoull_decimal strtoull_hexadecimal by (simp add: ptrthex_def l)
qed

text \<open>
  \<^verbatim>\<open>%ld\<close> prints every 64-bit signed number, the smallest one included, as an optional minus sign
  and the decimal digits of its absolute value, whenever the buffer has room for 22 bytes.
\<close>

theorem snprintf_signed:
  assumes "22 \<le> length b" and "length b < 2 ^ 64"
  shows "\<exists>digits. list_all is_digit digits \<and> digits \<noteq> [] \<and> strtoull digits = of_int \<bar>sint v\<bar> \<and>
    (let text = (if sint v < 0 then ''-'' else []) @ digits in
     snprintf (Some b) (of_nat (length b)) ''%ld'' [ArgLong v] =
       Inr (Some (text @ CHR 0x00 # drop (length text + 1) b), int (length text)))"
proof -
  let ?u = "if sint v < 0 then - v else v"
  let ?d = "uint_digits ?u 10 False" and ?s = "if sint v < 0 then ''-'' else []"
  have bne: "b \<noteq> []" and bl: "0 < length b" using assms by auto
  have nf: "\<not> has_flag 0 f" for f by (simp add: has_flag_def)
  have dir: "format_text ''%ld'' [ArgLong v] = (?s @ ?d, None)"
    by (subst format_text.simps)
       (simp add: directive_text_def parse_width_def skip_precision_def parse_length_def conv_text_def signed_arg_def
         is_digit_def in_chars_def pad_text_def sign_text_def nf format_text.simps)
  have dl: "length ?d \<le> 20" "list_all is_digit ?d" "?d \<noteq> []"
    using dec_len dec_loop_digits [of "[]"] dec_loop_len [of ?u "[]"]
    by (auto simp: uint_digits_def is_digit_def in_chars_def)
  let ?t = "?s @ ?d"
  have tl: "length ?t \<le> length b - 1" using dl(1) assms by (auto split: if_splits)
  then have "take (length b - 1) ?t = ?t" "min (length ?t) (length b - 1) = length ?t" by (simp_all only: take_all min_absorb1)
  moreover have "length ?t < 2 ^ 31" using dl(1) by (auto split: if_splits)
  ultimately have "snprintf (Some b) (of_nat (length b)) ''%ld'' [ArgLong v] =
      Inr (Some (?t @ CHR 0x00 # drop (length ?t + 1) b), int (length ?t))"
    using vsnprintf_text [OF bne assms(2), of "''%ld''" "[ArgLong v]"] int_of_size_small [of "length ?t"]
    unfolding snprintf_def dir by (simp del: of_nat_add length_append)
  moreover have "strtoull ?d = of_int \<bar>sint v\<bar>" by (simp add: strtoull_decimal)
  ultimately show ?thesis using dl(2,3) by (intro exI [of _ ?d]) simp
qed

theorem snprintf_signed_witness:
  "\<exists>digits. strtoull digits = 2 ^ 63 \<and>
     snprintf (Some (replicate 32 (CHR ''?''))) 32 ''%ld'' [ArgLong (2 ^ 63)] =
       Inr (Some (''-'' @ digits @ CHR 0x00 # replicate (30 - length digits) (CHR ''?'')), int (length digits) + 1)"
  using snprintf_signed [of "replicate 32 (CHR ''?'')" "2 ^ 63"] by auto

text \<open>
  \<^verbatim>\<open>readline\<close> implements line editing: the buffer ends up holding the edited line and its
  terminator, the line consists of printable characters and is shorter than the buffer, the rest of
  the input is left, and the call returns exactly when a line end or enough characters arrive.
\<close>

theorem readline_edits:
  assumes "b \<noteq> []"
  shows "(readline echo b input = None \<longleftrightarrow> edit (length b - 1) [] input = None) \<and>
    (\<forall>l rest. edit (length b - 1) [] input = Some (l, rest) \<longrightarrow>
       length l < length b \<and> list_all (in_chars (CHR 0x20) (CHR 0x7E)) l \<and>
       (\<exists>b' out. readline echo b input = Some (b', out, rest) \<and> length b' = length b \<and>
          take (length l + 1) b' = l @ [CHR 0x00]))"
proof -
  have "length l < length b" if "length l \<le> length b - 1" for l :: string
    using that assms by (cases b) simp_all
  then show ?thesis
    using readline_refines [OF assms, where input = input and echo = echo] edit_line_ok [of "length b - 1" "[]" input]
    by (cases "edit (length b - 1) [] input") auto
qed

theorem readline_edits_witness:
  "\<exists>b' out. readline True (replicate 8 (CHR ''?'')) (''lx'' @ [CHR 0x08] @ ''s'' @ [CHR 0x0A] @ ''more'') =
     Some (b', out, ''more'') \<and> take 3 b' = ''ls'' @ [CHR 0x00]"
proof -
  have "edit (length (replicate 8 (CHR ''?'')) - 1) [] (''lx'' @ [CHR 0x08] @ ''s'' @ [CHR 0x0A] @ ''more'') =
      Some (''ls'', ''more'')"
    by (simp add: edit.simps in_chars_def)
  then show ?thesis
    using readline_edits [of "replicate 8 (CHR ''?'')" True "''lx'' @ [CHR 0x08] @ ''s'' @ [CHR 0x0A] @ ''more''"]
    by (simp add: numeral_3_eq_3) blast
qed

end
