(* ===== verification/Klog.thy ===== *)
theory Klog
  imports Logbuf Stdio
begin

text \<open>
  Formatted logging: \<^verbatim>\<open>logbuf_vprintf\<close> and \<^verbatim>\<open>logbuf_printf\<close> of \<^verbatim>\<open>src/logbuf.c\<close> and \<^verbatim>\<open>dev_printf\<close> of
  \<^verbatim>\<open>src/devices/char.c\<close>. Both format into a 1028-byte array on the stack, whose initial contents do not
  matter, and pass the string before its terminator on.
\<close>

definition TEMP_BUF :: u64 where "TEMP_BUF = 1028"

definition c_string :: "string \<Rightarrow> string" where
  "c_string b = takeWhile (\<lambda>c. c \<noteq> CHR 0x00) b"

definition logbuf_vprintf ::
  "string \<Rightarrow> string \<Rightarrow> va_arg list \<Rightarrow> logbuf \<Rightarrow> printf_fault + logbuf" where
  "logbuf_vprintf temp_buf fmt args lb =
     and_then (vsnprintf (Some temp_buf) TEMP_BUF fmt args) (\<lambda>(b, _).
       case b of None \<Rightarrow> Inl NullAccess | Some bs \<Rightarrow> Inr (logbuf_write (c_string bs) lb))"

definition logbuf_printf ::
  "string \<Rightarrow> string \<Rightarrow> va_arg list \<Rightarrow> logbuf \<Rightarrow> printf_fault + logbuf" where
  "logbuf_printf temp_buf fmt args lb = logbuf_vprintf temp_buf fmt args lb"

text \<open>\<open>Inr None\<close> stands for a callback that does not return.\<close>

definition dev_printf ::
  "string \<Rightarrow> 's kernel_char_dev_t option \<Rightarrow> string \<Rightarrow> va_arg list \<Rightarrow> 's \<Rightarrow> printf_fault + 's option" where
  "dev_printf temp_buf dev fmt args s =
     (case dev of
        None \<Rightarrow> Inr (Some s)
      | Some d \<Rightarrow>
          (case putc d of
             None \<Rightarrow> Inr (Some s)
           | Some f \<Rightarrow>
               and_then (vsnprintf (Some temp_buf) TEMP_BUF fmt args) (\<lambda>(b, _).
                 case b of
                   None \<Rightarrow> Inl NullAccess
                 | Some bs \<Rightarrow>
                     (case dev_puts d (c_string bs) s of Inl _ \<Rightarrow> Inl NullAccess | Inr r \<Rightarrow> Inr r))))"

lemma c_string_terminated: "c_string (t @ CHR 0x00 # rest) = c_string t"
  by (induction t) (simp_all add: c_string_def)

lemma vsnprintf_temp:
  assumes l: "length tb = 1028" and t: "length (fst (format_text fmt args)) < 2 ^ 64"
  defines "t \<equiv> fst (format_text fmt args)"
  shows "vsnprintf (Some tb) TEMP_BUF fmt args =
    (case snd (format_text fmt args) of
       Some e \<Rightarrow> Inl e
     | None \<Rightarrow> Inr (Some (take 1027 t @ CHR 0x00 # drop (min (length t) 1027 + 1) tb), int_of_size (of_nat (length t))))"
proof -
  have "tb \<noteq> []" "length tb < 2 ^ 64" "(of_nat (length tb) :: u64) = TEMP_BUF"
    using l by (auto simp: TEMP_BUF_def)
  with vsnprintf_text [OF this(1,2) t] show ?thesis by (simp add: t_def l split: option.splits)
qed

section \<open>Properties\<close>

text \<open>
  A formatted log message either is a faulty format, and then nothing is logged, or it appends to
  the log the text the format denotes, cut at 1027 characters and at a \<^verbatim>\<open>NUL\<close>, provided the log has
  room for it; \<^verbatim>\<open>dev_printf\<close> sends the same text to the debug port.
\<close>

theorem formatted_logging:
  assumes "length tb = 1028" and "log_inv lb" and "length (log_text lb) + 1028 \<le> 16384"
    and "length (fst (format_text fmt args)) < 2 ^ 64"
  shows "case format_text fmt args of
      (_, Some e) \<Rightarrow> logbuf_printf tb fmt args lb = Inl e \<and> dev_printf tb (Some e9_dev) fmt args tr = Inl e
    | (t, None) \<Rightarrow> \<exists>lb' tr'.
        logbuf_printf tb fmt args lb = Inr lb' \<and> log_inv lb' \<and>
        log_text lb' = log_text lb @ c_string (take 1027 t) \<and>
        dev_printf tb (Some e9_dev) fmt args tr = Inr (Some tr') \<and>
        port_text 0xE9 tr' = port_text 0xE9 tr @ c_string (take 1027 t)"
proof -
  obtain t fe where ft: "format_text fmt args = (t, fe)" by force
  note r = vsnprintf_temp [OF assms(1,4), unfolded ft fst_conv snd_conv]
  have e9p: "putc e9_dev = Some E9_putc" by (simp add: e9_dev_def)
  show ?thesis
  proof (cases fe)
    case (Some e)
    then show ?thesis using r ft by (simp add: logbuf_printf_def logbuf_vprintf_def dev_printf_def e9p)
  next
    case None
    let ?b = "take 1027 t @ CHR 0x00 # drop (min (length t) 1027 + 1) tb"
    let ?msg = "c_string (take 1027 t)"
    have "length ?msg \<le> length (take 1027 t)" unfolding c_string_def by (rule length_takeWhile_le)
    then have fits: "length (log_text lb) + length ?msg < LOGBUF_SIZE"
      using assms(3) by (simp add: LOGBUF_SIZE_def)
    obtain tr' where out: "dev_puts e9_dev ?msg tr = Inr (Some tr')"
      "port_text BOCHS_E9_PORT tr' = port_text BOCHS_E9_PORT tr @ ?msg"
      using e9.dev_puts_out [OF e9p] by blast
    have "\<exists>lb' tr'. logbuf_printf tb fmt args lb = Inr lb' \<and> log_inv lb' \<and> log_text lb' = log_text lb @ ?msg \<and>
        dev_printf tb (Some e9_dev) fmt args tr = Inr (Some tr') \<and> port_text 0xE9 tr' = port_text 0xE9 tr @ ?msg"
      using write_text [OF assms(2) fits] out r None
      by (intro exI [of _ "logbuf_write ?msg lb"] exI [of _ tr'])
         (simp add: logbuf_printf_def logbuf_vprintf_def dev_printf_def e9p BOCHS_E9_PORT_def c_string_terminated)
    then show ?thesis using ft None by simp
  qed
qed

theorem formatted_logging_witness:
  "\<exists>lb'. logbuf_printf (replicate 1028 (CHR 0x00)) ''up'' [] empty_log = Inr lb' \<and> log_text lb' = ''up''"
proof -
  have t: "format_text ''up'' [] = (''up'', None)" by (simp add: format_text.simps)
  show ?thesis
    using formatted_logging [of "replicate 1028 (CHR 0x00)" empty_log "''up''" "[]" "[]"]
    by (auto simp: empty_log_inv t c_string_def)
qed

end
