(* ===== verification/Cmdline.thy ===== *)
theory Cmdline
  imports Stdio
begin

text \<open>
  The kernel command line (\<^verbatim>\<open>src/cmdline.c\<close>) and the hash of \<^verbatim>\<open>src/math/fnv1a.c\<close> it is indexed by.

  The registry is the list of its entries; its length is \<^verbatim>\<open>registry_count\<close>. A key or value array holds
  the characters before its terminator. The two log lines of \<^verbatim>\<open>cmdline_init\<close> are left out.
\<close>

section \<open>FNV-1a\<close>

definition FNV_OFFSET_BASIS :: u64 where "FNV_OFFSET_BASIS = 14695981039346656037"
definition FNV_PRIME :: u64 where "FNV_PRIME = 1099511628211"

text \<open>\<^verbatim>\<open>char\<close> is signed on x86-64: a character above 127 is sign-extended before it is mixed in.\<close>

fun fnv1a_loop :: "u64 \<Rightarrow> string \<Rightarrow> u64" where
  "fnv1a_loop h [] = h"
| "fnv1a_loop h (c # cs) = fnv1a_loop ((h XOR scast (of_char c :: u8)) * FNV_PRIME) cs"

definition hash_fnv1a :: "string \<Rightarrow> u64" where
  "hash_fnv1a key = fnv1a_loop FNV_OFFSET_BASIS key"

section \<open>The registry\<close>

definition CMDLINE_MAX_ARGS :: nat where "CMDLINE_MAX_ARGS = 128"

record arg_entry_t =
  key :: string
  val :: string
  hash :: u64
  found :: bool

text \<open>Copy characters while \<open>P\<close> holds, at most \<open>n\<close> of them; the rest of the text is returned.\<close>

fun copy_while :: "nat \<Rightarrow> (char \<Rightarrow> bool) \<Rightarrow> string \<Rightarrow> string \<times> string" where
  "copy_while 0 P cmd = ([], cmd)"
| "copy_while (Suc n) P [] = ([], [])"
| "copy_while (Suc n) P (c # cmd) =
     (if P c then (case copy_while n P cmd of (s, rest) \<Rightarrow> (c # s, rest)) else ([], c # cmd))"

definition key_char :: "char \<Rightarrow> bool" where "key_char c \<longleftrightarrow> c \<noteq> CHR ''='' \<and> c \<noteq> CHR 0x20"
definition value_char :: "char \<Rightarrow> bool" where "value_char c \<longleftrightarrow> c \<noteq> CHR 0x20"

definition parse_value :: "string \<Rightarrow> string \<times> string" where
  "parse_value cmd =
     (case cmd of
        c # cmd' \<Rightarrow> (if c = CHR ''='' then copy_while 63 value_char cmd' else ([], cmd))
      | [] \<Rightarrow> ([], cmd))"

definition make_entry :: "string \<Rightarrow> string \<Rightarrow> arg_entry_t" where
  "make_entry k v = \<lparr>key = k, val = v, hash = hash_fnv1a k, found = True\<rparr>"

lemma copy_while_shorter: "length (snd (copy_while n P cmd)) \<le> length cmd"
  by (induction n P cmd rule: copy_while.induct) (auto simp: case_prod_unfold le_SucI)

lemma copy_while_progress: "P c \<Longrightarrow> length (snd (copy_while (Suc n) P (c # cmd))) \<le> length cmd"
  using copy_while_shorter [of n P cmd] by (simp add: case_prod_unfold)

lemma parse_value_shorter: "length (snd (parse_value cmd)) \<le> length cmd"
  using copy_while_shorter [of 63 value_char "tl cmd"]
  by (auto simp: parse_value_def split: list.splits)

lemma parse_value_progress: "length (snd (parse_value (CHR ''='' # cmd))) \<le> length cmd"
  using copy_while_shorter [of 63 value_char cmd] by (simp add: parse_value_def)

lemma argument_progress:
  assumes "cmd = c # cs" and "c \<noteq> CHR 0x20"
  shows "length (snd (parse_value (snd (copy_while 31 key_char cmd)))) < length cmd"
proof (cases "c = CHR ''=''")
  case True
  have "snd (copy_while 31 key_char cmd) = cmd" by (simp add: assms True key_char_def numeral_eq_Suc)
  then show ?thesis using parse_value_progress [of cs] by (simp add: assms True)
next
  case False
  then have "length (snd (copy_while 31 key_char cmd)) \<le> length cs"
    using copy_while_progress [of key_char c 30 cs] assms by (simp add: key_char_def numeral_eq_Suc)
  then show ?thesis using parse_value_shorter [of "snd (copy_while 31 key_char cmd)"] assms by simp
qed

function cmdline_parse :: "string \<Rightarrow> arg_entry_t list \<Rightarrow> arg_entry_t list outcome" where
  "cmdline_parse cmd0 reg =
     (case dropWhile (\<lambda>c. c = CHR 0x20) cmd0 of
        [] \<Rightarrow> Inr reg
      | c # cs \<Rightarrow>
          (if length reg \<ge> CMDLINE_MAX_ARGS
           then Inl (Panic ''CMDLINE'' ''argument registry overflow! number of arguments exceeds CMDLINE_MAX_ARGS'')
           else
             (let k = copy_while 31 key_char (c # cs);
                  v = parse_value (snd k)
              in cmdline_parse (snd v) (reg @ [make_entry (fst k) (fst v)]))))"
  by pat_completeness auto
termination
proof (relation "measure (\<lambda>(cmd, reg). length cmd)")
  fix cmd0 :: string and reg c cs k v
  assume dw: "dropWhile (\<lambda>c. c = CHR 0x20) cmd0 = c # cs" and kv: "k = copy_while 31 key_char (c # cs)"
    "v = parse_value (snd k)"
  have "c \<noteq> CHR 0x20" using hd_dropWhile [of "\<lambda>c. c = CHR 0x20" cmd0] dw by simp
  then have "length (snd v) < length (c # cs)" unfolding kv by (intro argument_progress) simp_all
  also have "\<dots> \<le> length cmd0" unfolding dw [symmetric] by (rule length_dropWhile_le)
  finally show "((snd v, reg @ [make_entry (fst k) (fst v)]), cmd0, reg) \<in> measure (\<lambda>(cmd, reg). length cmd)"
    by simp
qed simp

declare cmdline_parse.simps [simp del]

fun find_from :: "u64 \<Rightarrow> string \<Rightarrow> int \<Rightarrow> arg_entry_t list \<Rightarrow> int" where
  "find_from target k i [] = -1"
| "find_from target k i (e # es) =
     (if hash e = target \<and> key e = k then i else find_from target k (i + 1) es)"

definition cmdline_find :: "string \<Rightarrow> arg_entry_t list \<Rightarrow> int" where
  "cmdline_find k reg = find_from (hash_fnv1a k) k 0 reg"

definition cmdline_init :: "string option \<Rightarrow> arg_entry_t list \<Rightarrow> arg_entry_t list outcome" where
  "cmdline_init s reg =
     (case s of None \<Rightarrow> Inr reg | Some cmd \<Rightarrow> if cmd = [] then Inr reg else cmdline_parse cmd reg)"

definition cmdline_get_string :: "string \<Rightarrow> arg_entry_t list \<Rightarrow> string option" where
  "cmdline_get_string k reg =
     (let idx = cmdline_find k reg in if idx \<noteq> -1 then Some (val (reg ! nat idx)) else None)"

definition cmdline_get_uint :: "string \<Rightarrow> u64 \<Rightarrow> arg_entry_t list \<Rightarrow> u64" where
  "cmdline_get_uint k default_val reg =
     (let idx = cmdline_find k reg in
      if idx \<noteq> -1 \<and> val (reg ! nat idx) \<noteq> [] then strtoull (val (reg ! nat idx)) else default_val)"

definition cmdline_has_key :: "string \<Rightarrow> arg_entry_t list \<Rightarrow> bool" where
  "cmdline_has_key k reg \<longleftrightarrow> cmdline_find k reg \<noteq> -1"

section \<open>Lookup\<close>

text \<open>Every entry of the registry carries the hash of its key.\<close>

definition registry_ok :: "arg_entry_t list \<Rightarrow> bool" where
  "registry_ok reg \<longleftrightarrow> (\<forall>e\<in>set reg. hash e = hash_fnv1a (key e)) \<and> length reg \<le> CMDLINE_MAX_ARGS"

lemma find_from_spec:
  "\<forall>e\<in>set reg. hash e = hash_fnv1a (key e) \<Longrightarrow>
     (case find_from (hash_fnv1a k) k i reg of j \<Rightarrow>
       if \<exists>e\<in>set reg. key e = k
       then i \<le> j \<and> nat (j - i) < length reg \<and> find (\<lambda>e. key e = k) reg = Some (reg ! nat (j - i))
       else j = -1)"
proof (induction reg arbitrary: i)
  case (Cons e es)
  show ?case
  proof (cases "key e = k")
    case False
    have "find_from (hash_fnv1a k) k i (e # es) = find_from (hash_fnv1a k) k (i + 1) es" using False by simp
    moreover have "nat (j - i) = Suc (nat (j - (i + 1)))" if "i + 1 \<le> j" for j :: int using that by simp
    ultimately show ?thesis using Cons.IH [of "i + 1"] Cons.prems False by (auto split: if_splits)
  qed (use Cons in auto)
qed simp

lemma get_string_find:
  assumes "registry_ok reg"
  shows "cmdline_get_string k reg = map_option val (find (\<lambda>e. key e = k) reg)"
    and "cmdline_has_key k reg \<longleftrightarrow> find (\<lambda>e. key e = k) reg \<noteq> None"
    and "cmdline_get_uint k d reg =
      (case find (\<lambda>e. key e = k) reg of Some e \<Rightarrow> if val e \<noteq> [] then strtoull (val e) else d | None \<Rightarrow> d)"
proof -
  have none: "find (\<lambda>e. key e = k) reg = None \<longleftrightarrow> \<not> (\<exists>e\<in>set reg. key e = k)"
    by (auto simp: find_None_iff)
  note sp = find_from_spec [of reg k 0] assms
  show "cmdline_get_string k reg = map_option val (find (\<lambda>e. key e = k) reg)"
    "cmdline_has_key k reg \<longleftrightarrow> find (\<lambda>e. key e = k) reg \<noteq> None"
    "cmdline_get_uint k d reg =
      (case find (\<lambda>e. key e = k) reg of Some e \<Rightarrow> if val e \<noteq> [] then strtoull (val e) else d | None \<Rightarrow> d)"
    using sp none by (auto simp: cmdline_get_string_def cmdline_has_key_def cmdline_get_uint_def cmdline_find_def
        registry_ok_def Let_def split: if_splits)
qed

section \<open>Parsing what was written\<close>

text \<open>An argument as the boot loader passes it, and the arguments a command line can carry.\<close>

definition render_arg :: "string \<times> string \<Rightarrow> string" where
  "render_arg p = fst p @ CHR ''='' # snd p"

fun render :: "(string \<times> string) list \<Rightarrow> string" where
  "render [] = []"
| "render [p] = render_arg p"
| "render (p # q # ps) = render_arg p @ CHR 0x20 # render (q # ps)"

definition arg_ok :: "string \<times> string \<Rightarrow> bool" where
  "arg_ok p \<longleftrightarrow> fst p \<noteq> [] \<and> length (fst p) \<le> 31 \<and> list_all key_char (fst p) \<and>
     length (snd p) \<le> 63 \<and> list_all value_char (snd p)"

lemma copy_while_exact:
  "list_all P s \<Longrightarrow> length s \<le> n \<Longrightarrow> (rest = [] \<or> \<not> P (hd rest)) \<Longrightarrow> copy_while n P (s @ rest) = (s, rest)"
proof (induction s arbitrary: n)
  case Nil
  then show ?case by (cases n; cases rest) auto
next
  case (Cons c s)
  then show ?case by (cases n) auto
qed

lemma parse_one:
  assumes "arg_ok p" and "rest = [] \<or> hd rest = CHR 0x20" and "length reg < CMDLINE_MAX_ARGS"
  shows "cmdline_parse (render_arg p @ rest) reg = cmdline_parse rest (reg @ [make_entry (fst p) (snd p)])"
proof -
  obtain c cs where k: "fst p = c # cs" using assms(1) by (cases "fst p") (auto simp: arg_ok_def)
  have c: "c \<noteq> CHR 0x20" using assms(1) k by (auto simp: arg_ok_def key_char_def)
  let ?tail = "CHR ''='' # snd p @ rest"
  have key: "copy_while 31 key_char (fst p @ ?tail) = (fst p, ?tail)"
    using assms(1) by (intro copy_while_exact) (auto simp: arg_ok_def key_char_def)
  have v: "parse_value ?tail = (snd p, rest)"
    using assms(1,2) copy_while_exact [of value_char "snd p" 63 rest]
    by (auto simp: parse_value_def arg_ok_def value_char_def)
  show ?thesis
    using key v c assms(3) by (subst cmdline_parse.simps) (simp add: render_arg_def k Let_def)
qed

lemma cmdline_parse_space: "cmdline_parse (CHR 0x20 # cmd) reg = cmdline_parse cmd reg"
  by (subst (1 2) cmdline_parse.simps) simp

lemma parse_render:
  "list_all arg_ok ps \<Longrightarrow> length reg + length ps \<le> CMDLINE_MAX_ARGS \<Longrightarrow>
     cmdline_parse (render ps) reg = Inr (reg @ map (\<lambda>p. make_entry (fst p) (snd p)) ps)"
proof (induction ps arbitrary: reg rule: render.induct)
  case 1
  then show ?case by (simp add: cmdline_parse.simps)
next
  case (2 p)
  then show ?case using parse_one [of p "[]" reg] by (simp add: cmdline_parse.simps [of "[]"])
next
  case (3 p q ps)
  then show ?case using parse_one [of p "CHR 0x20 # render (q # ps)" reg] by (simp add: cmdline_parse_space)
qed

lemma registry_ok_made: "length ps \<le> CMDLINE_MAX_ARGS \<Longrightarrow> registry_ok (map (\<lambda>p. make_entry (fst p) (snd p)) ps)"
  by (auto simp: registry_ok_def make_entry_def)

lemma parse_keeps_ok: "cmdline_parse cmd reg = Inr reg' \<Longrightarrow> registry_ok reg \<Longrightarrow> registry_ok reg'"
proof (induction cmd reg rule: cmdline_parse.induct)
  case (1 cmd0 reg)
  show ?case
  proof (cases "dropWhile (\<lambda>c. c = CHR 0x20) cmd0")
    case Nil
    have "cmdline_parse cmd0 reg = Inr reg" by (subst cmdline_parse.simps) (simp only: Nil list.case)
    then show ?thesis using "1.prems" by simp
  next
    case (Cons c cs)
    let ?k = "copy_while 31 key_char (c # cs)"
    have lt: "\<not> length reg \<ge> CMDLINE_MAX_ARGS"
      and rec: "cmdline_parse (snd (parse_value (snd ?k))) (reg @ [make_entry (fst ?k) (fst (parse_value (snd ?k)))]) = Inr reg'"
      using "1.prems"(1) by (subst (asm) cmdline_parse.simps, simp add: Cons Let_def split: if_splits)+
    have "registry_ok (reg @ [make_entry (fst ?k) (fst (parse_value (snd ?k)))])"
      using "1.prems"(2) lt by (auto simp: registry_ok_def make_entry_def)
    from "1.IH" [OF Cons lt refl refl rec this] show ?thesis .
  qed
qed

lemma find_make_entry:
  "find (\<lambda>e. key e = k) (map (\<lambda>p. make_entry (fst p) (snd p)) ps) =
     map_option (\<lambda>p. make_entry (fst p) (snd p)) (find (\<lambda>p. fst p = k) ps)"
  by (induction ps) (simp_all add: make_entry_def)

section \<open>Properties\<close>

text \<open>
  A command line of at most 128 arguments \<open>key=value\<close>, with keys of 1 to 31 characters and values
  of up to 63, is parsed without a panic into exactly these arguments, and a lookup returns the value
  of the first argument with that key, or reports that there is none.
\<close>

theorem cmdline_roundtrip:
  assumes "list_all arg_ok ps" and "length ps \<le> 128"
  shows "\<exists>reg. cmdline_parse (render ps) [] = Inr reg \<and> registry_ok reg \<and>
    (\<forall>k. cmdline_get_string k reg = map_option snd (find (\<lambda>p. fst p = k) ps) \<and>
         (cmdline_has_key k reg \<longleftrightarrow> k \<in> fst ` set ps))"
proof -
  let ?reg = "map (\<lambda>p. make_entry (fst p) (snd p)) ps"
  have len: "length ps \<le> CMDLINE_MAX_ARGS" using assms(2) by (simp add: CMDLINE_MAX_ARGS_def)
  note ok = registry_ok_made [OF len]
  have "find (\<lambda>p. fst p = k) ps \<noteq> None \<longleftrightarrow> k \<in> fst ` set ps" for k
    by (force simp: find_None_iff)
  moreover have "map_option val (find (\<lambda>e. key e = k) ?reg) = map_option snd (find (\<lambda>p. fst p = k) ps)" for k
    unfolding find_make_entry by (cases "find (\<lambda>p. fst p = k) ps") (simp_all add: make_entry_def)
  ultimately show ?thesis
    using parse_render [OF assms(1), of "[]"] len ok get_string_find [OF ok]
    by (intro exI [of _ ?reg]) (simp add: find_make_entry)
qed

theorem cmdline_roundtrip_witness:
  "\<exists>reg. cmdline_parse ''root=disk0 quiet=1'' [] = Inr reg \<and>
     cmdline_get_string ''quiet'' reg = Some ''1''"
proof -
  let ?ps = "[(''root'', ''disk0''), (''quiet'', ''1'')]"
  have r: "render ?ps = ''root=disk0 quiet=1''" by (simp add: render_arg_def)
  have "list_all arg_ok ?ps" by (simp add: arg_ok_def key_char_def value_char_def)
  then obtain reg where p: "cmdline_parse (render ?ps) [] = Inr reg"
    and g: "\<forall>k. cmdline_get_string k reg = map_option snd (find (\<lambda>p. fst p = k) ?ps)"
    using cmdline_roundtrip [of ?ps] by fastforce
  have "cmdline_get_string ''quiet'' reg = Some ''1''" using g by simp
  then show ?thesis using p unfolding r by blast
qed

text \<open>
  Whatever the boot loader passes, a registry that \<^verbatim>\<open>cmdline_parse\<close> builds keeps the hash of each
  entry's key, so the hash test of the lookup never hides an entry: the lookup functions agree with a
  search by key alone.
\<close>

theorem cmdline_lookup_exact:
  assumes "cmdline_init (Some cmd) [] = Inr reg"
  shows "cmdline_get_string k reg = map_option val (find (\<lambda>e. key e = k) reg) \<and>
    cmdline_get_uint k d reg =
      (case find (\<lambda>e. key e = k) reg of Some e \<Rightarrow> if val e \<noteq> [] then strtoull (val e) else d | None \<Rightarrow> d)"
proof -
  have "registry_ok []" by (simp add: registry_ok_def)
  then have "registry_ok reg" using assms parse_keeps_ok by (auto simp: cmdline_init_def split: if_splits)
  from get_string_find [OF this] show ?thesis by simp
qed

theorem cmdline_lookup_exact_witness:
  "cmdline_get_uint ''baud'' 9600 [make_entry ''baud'' ''0x10''] = 16"
proof -
  have "cmdline_init (Some ''baud=0x10'') [] = Inr [make_entry ''baud'' ''0x10'']"
    using parse_render [of "[(''baud'', ''0x10'')]" "[]"]
    by (simp add: cmdline_init_def render_arg_def arg_ok_def key_char_def value_char_def CMDLINE_MAX_ARGS_def)
  from cmdline_lookup_exact [OF this] show ?thesis
    by (simp add: make_entry_def strtoull_def is_digit_def in_chars_def)
qed

end
