(* ===== verification/MemOps.thy ===== *)
theory MemOps
  imports Prelude
begin

text \<open>
  The memory and string routines of \<^verbatim>\<open>src/mem/mem.h\<close> over a byte-addressed memory.

  A pointer is a 64-bit address (\<^verbatim>\<open>NULL\<close> is 0), the memory a function from addresses to bytes; the
  loops run over \<^verbatim>\<open>size_t\<close> counters. \<^verbatim>\<open>strlen\<close> and \<^verbatim>\<open>strcmp\<close> have no bound of their own: they stop at
  a terminator or panic at a non-canonical address, which an ascending scan always meets, so both are
  total functions here.
\<close>

type_synonym memory = "u64 \<Rightarrow> u8"

section \<open>Address checks\<close>

definition ptr_is_canonical :: "u64 \<Rightarrow> bool" where
  "ptr_is_canonical addr =
     (let shifted = push_bit 7 addr;
          extended = signed_drop_bit 7 shifted
      in addr = extended)"

definition range_is_safe :: "u64 \<Rightarrow> u64 \<Rightarrow> bool" where
  "range_is_safe p n =
     (if n = 0 then True
      else (let end = p + n - 1 in
            if end < p then False
            else if \<not> ptr_is_canonical p \<or> \<not> ptr_is_canonical end then False
            else True))"

section \<open>Block operations\<close>

text \<open>The counting loops: \<open>i\<close> is the loop counter, the other number the remaining iterations.\<close>

primrec memset_loop :: "nat \<Rightarrow> u64 \<Rightarrow> u64 \<Rightarrow> u8 \<Rightarrow> memory \<Rightarrow> memory" where
  "memset_loop 0 i p c m = m"
| "memset_loop (Suc k) i p c m = memset_loop k (i + 1) p c (m(p + i := c))"

definition memset :: "u64 \<Rightarrow> int \<Rightarrow> u64 \<Rightarrow> memory \<Rightarrow> (memory \<times> u64) outcome" where
  "memset s c n m =
     (if s = 0 then Inl (Panic ''MEMORY'' ''memset s is null'')
      else if \<not> range_is_safe s n then Inl (Panic ''MEMORY'' ''memset s is out of range'')
      else Inr (memset_loop (unat n) 0 s (word_of_int c) m, s))"

primrec copy_up :: "nat \<Rightarrow> u64 \<Rightarrow> u64 \<Rightarrow> u64 \<Rightarrow> memory \<Rightarrow> memory" where
  "copy_up 0 i d s m = m"
| "copy_up (Suc k) i d s m = copy_up k (i + 1) d s (m(d + i := m (s + i)))"

text \<open>The descending loop of \<^verbatim>\<open>memmove\<close> runs with counter \<open>i\<close> from \<open>n\<close> to 1 and copies byte \<open>i - 1\<close>.\<close>

primrec copy_down :: "nat \<Rightarrow> u64 \<Rightarrow> u64 \<Rightarrow> memory \<Rightarrow> memory" where
  "copy_down 0 d s m = m"
| "copy_down (Suc k) d s m = copy_down k d s (m(d + of_nat k := m (s + of_nat k)))"

definition memcpy :: "u64 \<Rightarrow> u64 \<Rightarrow> u64 \<Rightarrow> memory \<Rightarrow> (memory \<times> u64) outcome" where
  "memcpy dest src n m =
     (if dest = 0 then Inl (Panic ''MEMORY'' ''memcpy dest is null'')
      else if src = 0 then Inl (Panic ''MEMORY'' ''memcpy src is null'')
      else if \<not> range_is_safe dest n then Inl (Panic ''MEMORY'' ''memcpy dest is out of range'')
      else if \<not> range_is_safe src n then Inl (Panic ''MEMORY'' ''memcpy src is out of range'')
      else Inr (copy_up (unat n) 0 dest src m, dest))"

definition memmove :: "u64 \<Rightarrow> u64 \<Rightarrow> u64 \<Rightarrow> memory \<Rightarrow> (memory \<times> u64) outcome" where
  "memmove dest src n m =
     (if dest = 0 then Inl (Panic ''MEMORY'' ''memmove dest is null'')
      else if src = 0 then Inl (Panic ''MEMORY'' ''memmove src is null'')
      else if \<not> range_is_safe dest n then Inl (Panic ''MEMORY'' ''memmove dest is out of range'')
      else if \<not> range_is_safe src n then Inl (Panic ''MEMORY'' ''memmove src is out of range'')
      else if dest = src then Inr (m, dest)
      else if dest < src then Inr (copy_up (unat n) 0 dest src m, dest)
      else Inr (copy_down (unat n) dest src m, dest))"

primrec memcmp_loop :: "nat \<Rightarrow> u64 \<Rightarrow> u64 \<Rightarrow> u64 \<Rightarrow> memory \<Rightarrow> int" where
  "memcmp_loop 0 i p1 p2 m = 0"
| "memcmp_loop (Suc k) i p1 p2 m =
     (if m (p1 + i) \<noteq> m (p2 + i) then uint (m (p1 + i)) - uint (m (p2 + i))
      else memcmp_loop k (i + 1) p1 p2 m)"

definition memcmp :: "u64 \<Rightarrow> u64 \<Rightarrow> u64 \<Rightarrow> memory \<Rightarrow> int outcome" where
  "memcmp s1 s2 n m =
     (if s1 = 0 then Inl (Panic ''MEMORY'' ''memcmp s1 is null'')
      else if s2 = 0 then Inl (Panic ''MEMORY'' ''memcmp s2 is null'')
      else if \<not> range_is_safe s1 n then Inl (Panic ''MEMORY'' ''memcmp s1 is out of range'')
      else if \<not> range_is_safe s2 n then Inl (Panic ''MEMORY'' ''memcmp s2 is out of range'')
      else Inr (memcmp_loop (unat n) 0 s1 s2 m))"

section \<open>Canonical addresses\<close>

lemma canonical_bits: "ptr_is_canonical a \<longleftrightarrow> (\<forall>n\<in>{57..<64}. bit a n = bit a 56)"
  by (auto simp: ptr_is_canonical_def bit_eq_iff bit_signed_drop_bit_iff bit_simps Let_def)

lemma top_bits: "(\<forall>n\<in>{57..<64::nat}. P n) \<longleftrightarrow> (\<forall>n<8. n \<noteq> 0 \<longrightarrow> P (56 + n))"
proof safe
  fix n :: nat
  assume "\<forall>n<8. n \<noteq> 0 \<longrightarrow> P (56 + n)" and "n \<in> {57..<64}"
  moreover from this have "n - 56 < 8" "n - 56 \<noteq> 0" "56 + (n - 56) = n" by auto
  ultimately show "P n" by metis
qed simp

lemma top_byte:
  "(x::nat) < 2 ^ 64 \<Longrightarrow>
     (x div 2 ^ 56 = 0 \<or> x div 2 ^ 56 = 255) \<longleftrightarrow> (x < 2 ^ 56 \<or> 2 ^ 64 - 2 ^ 56 \<le> x)"
  by simp linarith

lemma canonical_iff: "ptr_is_canonical a \<longleftrightarrow> unat a < 2 ^ 56 \<or> 2 ^ 64 - 2 ^ 56 \<le> unat a"
proof -
  have small: "n < 8" if "bit a (56 + n)" for n
    using bit_imp_le_length [OF that] by simp
  have zero: "drop_bit 56 a = 0 \<longleftrightarrow> (\<forall>n<8. \<not> bit a (56 + n))"
    by (auto simp: bit_eq_iff bit_simps dest: small)
  have ones: "drop_bit 56 a = mask 8 \<longleftrightarrow> (\<forall>n<8. bit a (56 + n))"
    by (auto simp: bit_eq_iff bit_simps dest: small)
  have top: "unat (drop_bit 56 a) = unat a div 2 ^ 56"
    unfolding unat_drop_bit_eq by (rule drop_bit_eq_div)
  have "ptr_is_canonical a \<longleftrightarrow> drop_bit 56 a = 0 \<or> drop_bit 56 a = mask 8"
    unfolding canonical_bits zero ones top_bits by (metis add.right_neutral zero_less_numeral)
  also have "\<dots> \<longleftrightarrow> unat a div 2 ^ 56 = 0 \<or> unat a div 2 ^ 56 = 255"
    unfolding word_unat_eq_iff top by (simp add: unat_mask mask_eq_exp_minus_1)
  also have "\<dots> \<longleftrightarrow> unat a < 2 ^ 56 \<or> 2 ^ 64 - 2 ^ 56 \<le> unat a"
    using top_byte [OF unat_lt_64] .
  finally show ?thesis .
qed

lemma canonical_stop: "\<not> ptr_is_canonical (2 ^ 56)"
  by (simp add: canonical_iff)

lemma safe_no_wrap: "range_is_safe p n \<Longrightarrow> unat p + unat n \<le> 2 ^ 64"
proof (cases "n = 0")
  case False
  assume "range_is_safe p n"
  then have "p \<le> p + (n - 1)" using False by (simp add: range_is_safe_def Let_def not_less add_diff_eq split: if_splits)
  then have "unat (p + (n - 1)) = unat p + unat (n - 1)" by (simp add: unat_plus_simple [symmetric])
  moreover have "unat (n - 1) = unat n - 1" using False by (simp add: unat_minus_one)
  moreover have "0 < unat n" using False by (simp add: unat_gt_0)
  ultimately have "unat p + unat n = unat (p + (n - 1)) + 1" by simp
  then show ?thesis using unat_lt_64 [of "p + (n - 1)"] by linarith
qed (simp add: less_imp_le)

section \<open>Strings\<close>

definition to_stop :: "u64 \<Rightarrow> nat" where
  "to_stop p = unat (2 ^ 56 - p)"

lemma scan_decreases: "ptr_is_canonical p \<Longrightarrow> to_stop (p + 1) < to_stop p"
proof -
  assume "ptr_is_canonical p"
  then have nz: "2 ^ 56 - p \<noteq> 0" using canonical_stop by auto
  have "2 ^ 56 - (p + 1) = (2 ^ 56 - p) - 1" by (simp only: diff_diff_eq)
  then have "to_stop (p + 1) = to_stop p - 1" unfolding to_stop_def by (metis nz unat_minus_one)
  moreover have "0 < to_stop p" using nz unfolding to_stop_def by (metis unat_gt_0)
  ultimately show ?thesis by simp
qed

function strlen_loop :: "memory \<Rightarrow> u64 \<Rightarrow> u64 \<Rightarrow> u64 outcome" where
  "strlen_loop m s len =
     (if \<not> ptr_is_canonical (s + len)
      then Inl (Panic ''STRING'' ''strlen ran into non canonical memory'')
      else if m (s + len) = 0 then Inr len
      else strlen_loop m s (len + 1))"
  by pat_completeness auto
termination
  by (relation "measure (\<lambda>(m, s, len). to_stop (s + len))")
     (auto simp: add.assoc [symmetric] scan_decreases)

definition strlen :: "u64 \<Rightarrow> memory \<Rightarrow> u64 outcome" where
  "strlen s m = (if s = 0 then Inl (Panic ''STRING'' ''strlen s is null'') else strlen_loop m s 0)"

function strcmp_loop :: "memory \<Rightarrow> u64 \<Rightarrow> u64 \<Rightarrow> u64 \<Rightarrow> int outcome" where
  "strcmp_loop m s1 s2 i =
     (if \<not> ptr_is_canonical (s1 + i) \<or> \<not> ptr_is_canonical (s2 + i)
      then Inl (Panic ''STRING'' ''strcmp ran into non canonical memory'')
      else let c1 = m (s1 + i); c2 = m (s2 + i) in
        if c1 \<noteq> c2 then Inr (uint c1 - uint c2)
        else if c1 = 0 then Inr 0
        else strcmp_loop m s1 s2 (i + 1))"
  by pat_completeness auto
termination
  by (relation "measure (\<lambda>(m, s1, s2, i). to_stop (s1 + i))")
     (auto simp: add.assoc [symmetric] scan_decreases)

definition strcmp :: "u64 \<Rightarrow> u64 \<Rightarrow> memory \<Rightarrow> int outcome" where
  "strcmp s1 s2 m =
     (if s1 = 0 then Inl (Panic ''STRING'' ''strcmp s1 is null'')
      else if s2 = 0 then Inl (Panic ''STRING'' ''strcmp s2 is null'')
      else strcmp_loop m s1 s2 0)"

primrec strncmp_loop :: "nat \<Rightarrow> u64 \<Rightarrow> memory \<Rightarrow> u64 \<Rightarrow> u64 \<Rightarrow> int" where
  "strncmp_loop 0 i m s1 s2 = 0"
| "strncmp_loop (Suc k) i m s1 s2 =
     (let c1 = m (s1 + i); c2 = m (s2 + i) in
      if c1 \<noteq> c2 then uint c1 - uint c2
      else if c1 = 0 then 0
      else strncmp_loop k (i + 1) m s1 s2)"

definition strncmp :: "u64 \<Rightarrow> u64 \<Rightarrow> u64 \<Rightarrow> memory \<Rightarrow> int outcome" where
  "strncmp s1 s2 n m =
     (if s1 = 0 then Inl (Panic ''STRING'' ''strncmp s1 is null'')
      else if s2 = 0 then Inl (Panic ''STRING'' ''strncmp s2 is null'')
      else if \<not> range_is_safe s1 n then Inl (Panic ''STRING'' ''strncmp s1 is out of range'')
      else if \<not> range_is_safe s2 n then Inl (Panic ''STRING'' ''strncmp s2 is out of range'')
      else Inr (strncmp_loop (unat n) 0 m s1 s2))"

text \<open>The two loops of \<^verbatim>\<open>strncpy\<close>: copy up to the terminator, then fill with zeros.\<close>

primrec strncpy_loop :: "nat \<Rightarrow> u64 \<Rightarrow> u64 \<Rightarrow> u64 \<Rightarrow> memory \<Rightarrow> memory" where
  "strncpy_loop 0 i dest src m = m"
| "strncpy_loop (Suc k) i dest src m =
     (if m (src + i) \<noteq> 0 then strncpy_loop k (i + 1) dest src (m(dest + i := m (src + i)))
      else memset_loop (Suc k) i dest 0 m)"

definition strncpy :: "u64 \<Rightarrow> u64 \<Rightarrow> u64 \<Rightarrow> memory \<Rightarrow> (memory \<times> u64) outcome" where
  "strncpy dest src n m =
     (if dest = 0 then Inl (Panic ''STRING'' ''strncpy dest is null'')
      else if src = 0 then Inl (Panic ''STRING'' ''strncpy src is null'')
      else if \<not> range_is_safe dest n then Inl (Panic ''STRING'' ''strncpy dest is out of range'')
      else if \<not> range_is_safe src n then Inl (Panic ''STRING'' ''strncpy src is out of range'')
      else Inr (strncpy_loop (unat n) 0 dest src m, dest))"

declare strlen_loop.simps [simp del] strcmp_loop.simps [simp del]


section \<open>What the block operations do\<close>

text \<open>The bytes of \<open>n\<close> consecutive addresses, and membership of an address in a range.\<close>

definition bytes_at :: "memory \<Rightarrow> u64 \<Rightarrow> nat \<Rightarrow> u8 list" where
  "bytes_at m p n = map (\<lambda>i. m (p + of_nat i)) [0..<n]"

definition in_range :: "u64 \<Rightarrow> nat \<Rightarrow> u64 \<Rightarrow> bool" where
  "in_range p n a \<longleftrightarrow> unat p \<le> unat a \<and> unat a < unat p + n"

lemma in_range_offset: "unat p + i < 2 ^ 64 \<Longrightarrow> in_range p n (p + of_nat i) \<longleftrightarrow> i < n"
  unfolding in_range_def by (simp only: unat_offset) simp

lemma in_range_elim:
  assumes "in_range p n a"
  obtains i where "i < n" and "a = p + of_nat i"
proof
  show "unat a - unat p < n" using assms by (auto simp: in_range_def)
  have "unat p + (unat a - unat p) < 2 ^ 64" using assms unat_lt_64 [of a] by (simp add: in_range_def)
  from unat_offset [OF this] show "a = p + of_nat (unat a - unat p)"
    using assms by (simp add: word_unat_eq_iff) (simp add: in_range_def)
qed

lemma memset_loop_spec:
  "unat p + (i + k) \<le> 2 ^ 64 \<Longrightarrow>
     memset_loop k (of_nat i) p c m a =
       (if unat p + i \<le> unat a \<and> unat a < unat p + (i + k) then c else m a)"
proof (induction k arbitrary: i m)
  case (Suc k)
  have eq: "a = p + of_nat i \<longleftrightarrow> unat a = unat p + i"
    using Suc.prems by (simp add: word_unat_eq_iff unat_offset)
  have "memset_loop (Suc k) (of_nat i) p c m a = memset_loop k (of_nat (Suc i)) p c (m(p + of_nat i := c)) a"
    by (simp add: add.commute)
  also have "\<dots> = (if unat p + Suc i \<le> unat a \<and> unat a < unat p + (Suc i + k) then c
      else (m(p + of_nat i := c)) a)"
    using Suc.prems by (intro Suc.IH) simp
  finally show ?case by (cases "unat a = unat p + i") (auto simp: eq)
qed auto

text \<open>
  An ascending copy is exact when the destination does not lie inside the part of the source that is
  still to be read; a descending one when it does not lie before the source.
\<close>

lemma copy_up_spec:
  assumes "unat d + (i + k) \<le> 2 ^ 64" and "unat s + (i + k) \<le> 2 ^ 64"
    and "unat d \<le> unat s \<or> unat s + (i + k) \<le> unat d"
  shows "copy_up k (of_nat i) d s m a =
    (if unat d + i \<le> unat a \<and> unat a < unat d + (i + k) then m (s + (a - d)) else m a)"
  using assms
proof (induction k arbitrary: i m)
  case (Suc k)
  have eq: "x = d + of_nat i \<longleftrightarrow> unat x = unat d + i" for x
    using Suc.prems by (simp add: word_unat_eq_iff unat_offset)
  have ne: "s + (a - d) \<noteq> d + of_nat i" if r: "unat d + Suc i \<le> unat a" "unat a < unat d + (Suc i + k)"
  proof -
    have "unat (a - d) = unat a - unat d" using r by (simp add: unat_minus_le word_le_nat_alt)
    then have "unat (s + (a - d)) = unat s + (unat a - unat d)"
      using r Suc.prems by (simp add: unat_plus_small)
    then show ?thesis unfolding eq using r Suc.prems(3) by linarith
  qed
  let ?m = "m(d + of_nat i := m (s + of_nat i))"
  have "copy_up (Suc k) (of_nat i) d s m a = copy_up k (of_nat (Suc i)) d s ?m a"
    by (simp add: add.commute)
  also have "\<dots> = (if unat d + Suc i \<le> unat a \<and> unat a < unat d + (Suc i + k)
      then ?m (s + (a - d)) else ?m a)"
    using Suc.prems by (intro Suc.IH) auto
  finally have IH: "copy_up (Suc k) (of_nat i) d s m a =
    (if unat d + Suc i \<le> unat a \<and> unat a < unat d + (Suc i + k) then ?m (s + (a - d)) else ?m a)" .
  show ?case
  proof (cases "unat a = unat d + i")
    case True
    then have "a - d = of_nat i" using eq [of a] by simp
    then show ?thesis using True eq unfolding IH by simp
  next
    case False
    then show ?thesis using ne eq [of a] unfolding IH by auto
  qed
qed auto

lemma copy_down_spec:
  assumes "unat d + k \<le> 2 ^ 64" and "unat s \<le> unat d"
  shows "copy_down k d s m a =
    (if unat d \<le> unat a \<and> unat a < unat d + k then m (s + (a - d)) else m a)"
  using assms
proof (induction k arbitrary: m)
  case (Suc k)
  have eq: "x = d + of_nat k \<longleftrightarrow> unat x = unat d + k" for x
    using Suc.prems by (simp add: word_unat_eq_iff unat_offset)
  have ne: "s + (a - d) \<noteq> d + of_nat k" if r: "unat d \<le> unat a" "unat a < unat d + k"
  proof -
    have "unat (a - d) = unat a - unat d" using r by (simp add: unat_minus_le word_le_nat_alt)
    then have "unat (s + (a - d)) = unat s + (unat a - unat d)"
      using r Suc.prems by (simp add: unat_plus_small)
    then show ?thesis unfolding eq using r Suc.prems(2) by linarith
  qed
  let ?m = "m(d + of_nat k := m (s + of_nat k))"
  have IH: "copy_down (Suc k) d s m a =
      (if unat d \<le> unat a \<and> unat a < unat d + k then ?m (s + (a - d)) else ?m a)"
    using Suc.prems by (simp add: Suc.IH del: fun_upd_apply)
  show ?case
  proof (cases "unat a = unat d + k")
    case True
    then have "a - d = of_nat k" using eq [of a] by simp
    then show ?thesis using True eq unfolding IH by simp
  next
    case False
    then show ?thesis using ne eq [of a] unfolding IH by auto
  qed
qed auto

lemma offset_diff [simp]: "s + ((d + x) - d) = s + (x :: u64)"
  by simp

lemma bytes_at_eqI: "(\<And>i. i < n \<Longrightarrow> m' (d + of_nat i) = m (s + of_nat i)) \<Longrightarrow> bytes_at m' d n = bytes_at m s n"
  by (simp add: bytes_at_def)

lemma uint_inject: "uint a = uint b \<longleftrightarrow> a = (b :: 'a::len word)"
  by (simp only: word_uint_eq_iff)

lemma all_less_Suc: "(\<forall>j<Suc k. P j) \<longleftrightarrow> P 0 \<and> (\<forall>j<k. P (Suc j))"
  using less_Suc_eq_0_disj by auto

lemma memcmp_loop_bytes:
  "memcmp_loop k i p1 p2 m = 0 \<longleftrightarrow> (\<forall>j<k. m (p1 + i + of_nat j) = m (p2 + i + of_nat j))"
proof (induction k arbitrary: i)
  case (Suc k)
  show ?case
    by (cases "m (p1 + i) = m (p2 + i)") (simp_all add: Suc.IH all_less_Suc uint_inject add.assoc)
qed simp

section \<open>Strings\<close>

text \<open>
  The zero-terminated string \<open>xs\<close> lies at address \<open>s\<close>, all of it at canonical addresses.
\<close>

definition cstr_at :: "memory \<Rightarrow> u64 \<Rightarrow> u8 list \<Rightarrow> bool" where
  "cstr_at m s xs \<longleftrightarrow> 0 \<notin> set xs \<and> bytes_at m s (length xs) = xs \<and> m (s + of_nat (length xs)) = 0 \<and>
     (\<forall>i\<le>length xs. ptr_is_canonical (s + of_nat i))"

text \<open>What a comparison of two strings returns: the difference at the first position where they differ.\<close>

fun str_order :: "u8 list \<Rightarrow> u8 list \<Rightarrow> int" where
  "str_order [] [] = 0"
| "str_order [] (y # ys) = - uint y"
| "str_order (x # xs) [] = uint x"
| "str_order (x # xs) (y # ys) = (if x = y then str_order xs ys else uint x - uint y)"

lemma str_order_zero: "0 \<notin> set xs \<Longrightarrow> 0 \<notin> set ys \<Longrightarrow> str_order xs ys = 0 \<longleftrightarrow> xs = ys"
  by (induction xs ys rule: str_order.induct) (auto simp: uint_0_iff uint_inject)

lemma bytes_at_Suc: "bytes_at m p (Suc n) = m p # bytes_at m (p + 1) n"
  unfolding bytes_at_def upt_conv_Cons [OF zero_less_Suc] map_Suc_upt [symmetric]
  by (simp add: add_ac)

lemma bytes_at_eval [simp]:
  "bytes_at m p 0 = []" "bytes_at m p (Suc 0) = [m p]" "bytes_at m p (numeral k) = m p # bytes_at m (p + 1) (pred_numeral k)"
  by (simp_all add: numeral_eq_Suc bytes_at_Suc) (simp_all add: bytes_at_def)

lemma replicate_two: "replicate 2 x = [x, x]"
  by (simp add: numeral_2_eq_2)

lemma cstr_at_Cons:
  "cstr_at m s (x # xs) \<longleftrightarrow> x \<noteq> 0 \<and> m s = x \<and> ptr_is_canonical s \<and> cstr_at m (s + 1) xs"
proof -
  have "(\<forall>i\<le>Suc n. P i) \<longleftrightarrow> P 0 \<and> (\<forall>i\<le>n. P (Suc i))" for P :: "nat \<Rightarrow> bool" and n
    using less_Suc_eq_0_disj less_Suc_eq_le by auto
  then show ?thesis by (auto simp: cstr_at_def bytes_at_Suc add_ac)
qed

lemma cstr_at_Nil: "cstr_at m s [] \<longleftrightarrow> m s = 0 \<and> ptr_is_canonical s"
  by (auto simp: cstr_at_def bytes_at_def)

lemma strlen_loop_spec: "cstr_at m (s + len) xs \<Longrightarrow> strlen_loop m s len = Inr (len + of_nat (length xs))"
proof (induction xs arbitrary: len)
  case Nil
  then show ?case by (subst strlen_loop.simps) (simp add: cstr_at_Nil)
next
  case (Cons x xs)
  then show ?case using Cons.IH [of "len + 1"]
    by (subst strlen_loop.simps) (auto simp: cstr_at_Cons add.assoc)
qed

lemma strcmp_loop_spec:
  "cstr_at m (s1 + i) xs \<Longrightarrow> cstr_at m (s2 + i) ys \<Longrightarrow> strcmp_loop m s1 s2 i = Inr (str_order xs ys)"
proof (induction xs ys arbitrary: i rule: str_order.induct)
  case (4 x xs y ys)
  then show ?case using "4.IH" [of "i + 1"]
    by (subst strcmp_loop.simps) (auto simp: cstr_at_Cons add.assoc)
qed (subst strcmp_loop.simps, auto simp: cstr_at_Nil cstr_at_Cons)+

lemma strncmp_loop_spec:
  "cstr_at m (s1 + i) xs \<Longrightarrow> cstr_at m (s2 + i) ys \<Longrightarrow>
     strncmp_loop k i m s1 s2 = str_order (take k xs) (take k ys)"
proof (induction k arbitrary: i xs ys)
  case (Suc k)
  have nil: "s1 + (i + 1) = s1 + i + 1" "s2 + (i + 1) = s2 + i + 1" by simp_all
  show ?case
    using Suc.prems Suc.IH [of "i + 1", unfolded nil]
    by (cases xs; cases ys) (auto simp: cstr_at_Nil cstr_at_Cons Let_def)
qed simp

lemma strncpy_loop_spec:
  assumes "unat d + (i + k) \<le> 2 ^ 64" and "unat s + (i + k) \<le> 2 ^ 64"
    and "unat s + (i + k) \<le> unat d \<or> unat d + (i + k) \<le> unat s"
    and "bytes_at m (s + of_nat i) k = take k (xs @ 0 # zs)" and "0 \<notin> set xs"
  shows "strncpy_loop k (of_nat i) d s m a =
    (if unat d + i \<le> unat a \<and> unat a < unat d + (i + k)
     then (if unat a - (unat d + i) < length xs then xs ! (unat a - (unat d + i)) else 0) else m a)"
  using assms
proof (induction k arbitrary: i xs m)
  case (Suc k)
  have first: "m (s + of_nat i) = (case xs of [] \<Rightarrow> 0 | x # _ \<Rightarrow> x)"
    using Suc.prems(4) by (cases xs) (simp_all add: bytes_at_Suc)
  show ?case
  proof (cases xs)
    case Nil
    then show ?thesis
      using first memset_loop_spec [of d i "Suc k" 0 m a] Suc.prems(1) by (simp del: memset_loop.simps)
  next
    case (Cons x ys)
    let ?m = "m(d + of_nat i := x)"
    have eq: "y = d + of_nat i \<longleftrightarrow> unat y = unat d + i" for y
      using Suc.prems(1) by (simp add: word_unat_eq_iff unat_offset)
    have far: "s + of_nat (Suc i) + of_nat j \<noteq> d + of_nat i" if "j < k" for j
    proof -
      have "unat (s + of_nat (Suc i + j)) = unat s + (Suc i + j)"
        using Suc.prems(2) that by (intro unat_offset) simp
      then have "unat (s + of_nat (Suc i + j)) \<noteq> unat d + i" using Suc.prems(3) that by linarith
      then show ?thesis unfolding eq by (simp add: add.assoc)
    qed
    have "bytes_at ?m (s + of_nat (Suc i)) k = bytes_at m (s + of_nat (Suc i)) k"
      using far by (intro bytes_at_eqI) simp
    also have "\<dots> = take k (ys @ 0 # zs)"
      using Suc.prems(4) by (simp add: Cons bytes_at_Suc add_ac)
    finally have IH: "strncpy_loop k (of_nat (Suc i)) d s ?m a =
      (if unat d + Suc i \<le> unat a \<and> unat a < unat d + (Suc i + k)
       then (if unat a - (unat d + Suc i) < length ys then ys ! (unat a - (unat d + Suc i)) else 0)
       else ?m a)"
      using Suc.prems Cons by (intro Suc.IH) (simp_all del: fun_upd_apply)
    have "x \<noteq> 0" using Suc.prems(5) Cons by auto
    then have step: "strncpy_loop (Suc k) (of_nat i) d s m a = strncpy_loop k (of_nat (Suc i)) d s ?m a"
      using first by (simp add: Cons add.commute)
    show ?thesis
    proof (cases "unat a = unat d + i")
      case True
      then show ?thesis using eq [of a] unfolding step IH by (simp add: Cons)
    next
      case False
      then have "unat a - (unat d + i) = Suc (unat a - (unat d + Suc i))" if "unat d + i \<le> unat a"
        using that by simp
      then show ?thesis using False eq [of a] unfolding step IH by (auto simp: Cons)
    qed
  qed
qed auto

section \<open>Contracts\<close>

lemma offset_in_range:
  assumes "unat d + n \<le> 2 ^ 64" and "i < n"
  shows "unat d \<le> unat (d + of_nat i :: u64) \<and> unat (d + of_nat i :: u64) < unat d + n"
  using assms by (simp add: unat_offset)

lemma copied_bytes:
  assumes "unat d + n \<le> 2 ^ 64"
    and "\<And>a. m' a = (if unat d \<le> unat a \<and> unat a < unat d + n then m (s + (a - d)) else m a)"
  shows "bytes_at m' d n = bytes_at m s n \<and> (\<forall>a. \<not> in_range d n a \<longrightarrow> m' a = m a)"
  using offset_in_range [OF assms(1)] by (auto simp: bytes_at_def in_range_def assms(2))

lemma memset_contract:
  assumes "memset p c n m = Inr (m', r)"
  shows "r = p \<and> bytes_at m' p (unat n) = replicate (unat n) (word_of_int c) \<and>
    (\<forall>a. \<not> in_range p (unat n) a \<longrightarrow> m' a = m a)"
proof -
  have m': "m' = memset_loop (unat n) 0 p (word_of_int c) m" "r = p" and safe: "range_is_safe p n"
    using assms by (auto simp: memset_def split: if_splits)
  have sp: "memset_loop (unat n) 0 p (word_of_int c) m a =
      (if unat p \<le> unat a \<and> unat a < unat p + unat n then word_of_int c else m a)" for a
    using memset_loop_spec [of p 0 "unat n"] safe_no_wrap [OF safe] by simp
  show ?thesis
    using offset_in_range [OF safe_no_wrap [OF safe]]
    by (auto simp: bytes_at_def m' sp in_range_def list_eq_iff_nth_eq)
qed

lemma memcpy_contract:
  assumes "memcpy d s n m = Inr (m', r)" and "unat d \<le> unat s \<or> unat s + unat n \<le> unat d"
  shows "r = d \<and> bytes_at m' d (unat n) = bytes_at m s (unat n) \<and>
    (\<forall>a. \<not> in_range d (unat n) a \<longrightarrow> m' a = m a)"
proof -
  have m': "m' = copy_up (unat n) 0 d s m" "r = d" and safe: "range_is_safe d n" "range_is_safe s n"
    using assms(1) by (auto simp: memcpy_def split: if_splits)
  note w = safe_no_wrap [OF safe(1)] safe_no_wrap [OF safe(2)]
  have "bytes_at m' d (unat n) = bytes_at m s (unat n) \<and> (\<forall>a. \<not> in_range d (unat n) a \<longrightarrow> m' a = m a)"
    using copy_up_spec [of d 0 "unat n" s m] w assms(2) unfolding m' by (intro copied_bytes) simp_all
  then show ?thesis using m' by simp
qed

lemma memcmp_contract:
  assumes "memcmp s1 s2 n m = Inr r"
  shows "r = 0 \<longleftrightarrow> bytes_at m s1 (unat n) = bytes_at m s2 (unat n)"
  using assms memcmp_loop_bytes [of "unat n" 0 s1 s2 m]
  by (auto simp: memcmp_def bytes_at_def list_eq_iff_nth_eq split: if_splits)

section \<open>Properties\<close>

text \<open>
  C5. Whenever \<^verbatim>\<open>memmove\<close> returns, the destination holds the bytes the source held before the call,
  even when the two ranges overlap in either direction, and no other byte changed.
\<close>

theorem memmove_exact:
  assumes "memmove d s n m = Inr (m', r)"
  shows "r = d \<and> bytes_at m' d (unat n) = bytes_at m s (unat n) \<and>
    (\<forall>a. \<not> in_range d (unat n) a \<longrightarrow> m' a = m a)"
proof -
  have safe: "range_is_safe d n" "range_is_safe s n" and r: "r = d"
    and m': "m' = (if d = s then m else if d < s then copy_up (unat n) 0 d s m else copy_down (unat n) d s m)"
    using assms by (auto simp: memmove_def split: if_splits)
  note w = safe_no_wrap [OF safe(1)] safe_no_wrap [OF safe(2)]
  show ?thesis
  proof (cases "d = s")
    case False
    have "m' a = (if unat d \<le> unat a \<and> unat a < unat d + unat n then m (s + (a - d)) else m a)" for a
      using copy_up_spec [of d 0 "unat n" s m a] copy_down_spec [of d "unat n" s m a] w False
      by (cases "d < s") (auto simp: m' word_less_nat_alt not_less)
    then show ?thesis using copied_bytes w(1) r by blast
  qed (simp add: m' r)
qed

theorem memmove_exact_witness:
  "memmove 5 4 3 (\<lambda>a. ucast a) = Inr (copy_down 3 5 4 (\<lambda>a. ucast a), 5) \<and>
   bytes_at (copy_down 3 5 4 (\<lambda>a. ucast a)) 5 3 = [4, 5, 6]"
proof -
  have run: "memmove 5 4 3 (\<lambda>a. ucast a) = Inr (copy_down 3 5 4 (\<lambda>a. ucast a), 5)"
    by (simp add: memmove_def range_is_safe_def ptr_is_canonical_def Let_def)
  from memmove_exact [OF this] have "bytes_at (copy_down 3 5 4 (\<lambda>a. ucast a)) 5 3 = bytes_at (\<lambda>a. ucast a) 4 3"
    by simp
  then show ?thesis using run by (simp del: copy_down.simps)
qed

text \<open>
  On two zero-terminated strings at canonical addresses \<^verbatim>\<open>strcmp\<close> returns without a panic the
  difference at the first position where they differ, so zero exactly for equal strings, and
  \<^verbatim>\<open>strlen\<close> returns the length.
\<close>

theorem strcmp_strlen_spec:
  assumes "s1 \<noteq> 0" and "s2 \<noteq> 0" and "cstr_at m s1 xs" and "cstr_at m s2 ys"
  shows "strcmp s1 s2 m = Inr (str_order xs ys) \<and> (str_order xs ys = 0 \<longleftrightarrow> xs = ys) \<and>
    strlen s1 m = Inr (of_nat (length xs))"
  using assms strcmp_loop_spec [of m s1 0 xs s2 ys] strlen_loop_spec [of m s1 0 xs]
    str_order_zero [of xs ys]
  by (simp add: strcmp_def strlen_def cstr_at_def)

theorem strcmp_strlen_spec_witness:
  "strcmp 8 16 ((\<lambda>_. 0)(8 := 65, 9 := 66, 16 := 65)) = Inr 66"
proof -
  let ?m = "(\<lambda>_. 0 :: u8)(8 := 65, 9 := 66, 16 := 65)"
  have "cstr_at ?m 8 [65, 66]" "cstr_at ?m 16 [65]"
    by (simp_all add: cstr_at_Cons cstr_at_Nil canonical_iff)
  then show ?thesis using strcmp_strlen_spec [of 8 16 ?m "[65, 66]" "[65]"] by simp
qed

text \<open>
  When the source and destination do not overlap and the source holds a terminated string (or
  \<open>n\<close> bytes of one), \<^verbatim>\<open>strncpy\<close> leaves in the destination exactly the first \<open>n\<close> bytes of the string
  padded with zeros: a string of \<open>n\<close> or more bytes is not terminated.
\<close>

theorem strncpy_exact:
  assumes "strncpy d s n m = Inr (m', r)" and "0 \<notin> set xs"
    and "unat s + unat n \<le> unat d \<or> unat d + unat n \<le> unat s"
    and "bytes_at m s (unat n) = take (unat n) (xs @ 0 # zs)"
  shows "r = d \<and> bytes_at m' d (unat n) = take (unat n) (xs @ replicate (unat n) 0) \<and>
    (\<forall>a. \<not> in_range d (unat n) a \<longrightarrow> m' a = m a)"
proof -
  have safe: "range_is_safe d n" "range_is_safe s n" and m': "r = d" "m' = strncpy_loop (unat n) 0 d s m"
    using assms(1) by (auto simp: strncpy_def split: if_splits)
  note w = safe_no_wrap [OF safe(1)] safe_no_wrap [OF safe(2)]
  have sp: "m' a = (if unat d \<le> unat a \<and> unat a < unat d + unat n
     then (if unat a - unat d < length xs then xs ! (unat a - unat d) else 0) else m a)" for a
    using strncpy_loop_spec [of d 0 "unat n" s m xs zs a] w assms(2-4) by (simp add: m')
  have "bytes_at m' d (unat n) ! i = take (unat n) (xs @ replicate (unat n) 0) ! i" if "i < unat n" for i
    using that w(1) unat_offset [of d i] by (simp add: bytes_at_def sp nth_append)
  then have "bytes_at m' d (unat n) = take (unat n) (xs @ replicate (unat n) 0)"
    by (intro nth_equalityI) (simp_all add: bytes_at_def)
  then show ?thesis using sp m'(1) by (simp add: in_range_def)
qed

theorem strncpy_exact_witness:
  "bytes_at (strncpy_loop 4 0 32 8 ((\<lambda>_. 0)(8 := 65, 9 := 66))) 32 4 = [65, 66, 0, 0]"
proof -
  let ?m = "(\<lambda>_. 0 :: u8)(8 := 65, 9 := 66)"
  have run: "strncpy 32 8 4 ?m = Inr (strncpy_loop 4 0 32 8 ?m, 32)"
    by (simp add: strncpy_def range_is_safe_def ptr_is_canonical_def Let_def)
  show ?thesis
    using strncpy_exact [OF run, of "[65, 66]" "[0]"]
    by (simp add: replicate_two)
qed

end
