(* ===== verification/Layout.thy ===== *)
theory Layout
  imports MemOps
begin

text \<open>
  Little-endian integers in memory, as the packed structures of the program are read on x86-64, and
  their encoding as byte lists.
\<close>

primrec le_value :: "u8 list \<Rightarrow> nat" where
  "le_value [] = 0"
| "le_value (b # bs) = unat b + 256 * le_value bs"

primrec le_bytes :: "nat \<Rightarrow> nat \<Rightarrow> u8 list" where
  "le_bytes 0 v = []"
| "le_bytes (Suc n) v = of_nat v # le_bytes n (v div 256)"

definition rd8 :: "memory \<Rightarrow> u64 \<Rightarrow> u8" where "rd8 m p = m p"
definition rd16 :: "memory \<Rightarrow> u64 \<Rightarrow> u16" where "rd16 m p = of_nat (le_value (bytes_at m p 2))"
definition rd32 :: "memory \<Rightarrow> u64 \<Rightarrow> u32" where "rd32 m p = of_nat (le_value (bytes_at m p 4))"
definition rd64 :: "memory \<Rightarrow> u64 \<Rightarrow> u64" where "rd64 m p = of_nat (le_value (bytes_at m p 8))"

lemma le_bytes_numeral [simp]:
  "le_bytes (numeral k) v = of_nat v # le_bytes (pred_numeral k) (v div 256)"
  by (simp only: numeral_eq_Suc [of k] le_bytes.simps)

lemma length_le_bytes [simp]: "length (le_bytes n v) = n"
  by (induction n arbitrary: v) simp_all

lemma le_value_bytes: "le_value (le_bytes n v) = v mod 256 ^ n"
proof (induction n arbitrary: v)
  case (Suc n)
  have "le_value (le_bytes (Suc n) v) = v mod 256 + 256 * (v div 256 mod 256 ^ n)"
    using Suc.IH by (simp add: unat_of_nat)
  also have "\<dots> = v mod (256 * 256 ^ n)" by (simp add: mod_mult2_eq)
  finally show ?case by simp
qed simp

lemma le_value_bound: "le_value bs < 256 ^ length bs"
proof (induction bs)
  case (Cons b bs)
  have "unat b + 256 * le_value bs < 256 + 256 * le_value bs" using unat_bounds(1) [of b] by simp
  also have "\<dots> \<le> 256 * 256 ^ length bs" using Cons.IH by (simp add: Suc_le_eq [symmetric])
  finally show ?case by simp
qed simp

lemma length_bytes_at [simp]: "length (bytes_at m p n) = n"
  by (simp add: bytes_at_def)

lemma bytes_at_append: "bytes_at m p (a + b) = bytes_at m p a @ bytes_at m (p + of_nat a) b"
  by (induction a arbitrary: p) (simp_all add: bytes_at_Suc add_ac)

lemma bytes_at_take: "k \<le> n \<Longrightarrow> take k (bytes_at m p n) = bytes_at m p k"
  using bytes_at_append [of m p k "n - k"] by simp

lemma bytes_at_drop: "k \<le> n \<Longrightarrow> drop k (bytes_at m p n) = bytes_at m (p + of_nat k) (n - k)"
  using bytes_at_append [of m p k "n - k"] by simp

text \<open>The value a load returns when the encoding of a number lies at the address.\<close>

lemma rd_encoded:
  "bytes_at m p 4 = le_bytes 4 (unat v32) \<Longrightarrow> rd32 m p = v32"
  "bytes_at m p 8 = le_bytes 8 (unat v64) \<Longrightarrow> rd64 m p = v64"
proof -
  have "unat v32 mod 256 ^ 4 = unat v32" "unat v64 mod 256 ^ 8 = unat v64" by simp_all
  then show "bytes_at m p 4 = le_bytes 4 (unat v32) \<Longrightarrow> rd32 m p = v32"
    "bytes_at m p 8 = le_bytes 8 (unat v64) \<Longrightarrow> rd64 m p = v64"
    by (simp_all only: rd32_def rd64_def le_value_bytes of_nat_unat_id)
qed

section \<open>Byte images\<close>

text \<open>A memory that holds an image at an address and zeros elsewhere.\<close>

definition mem_of :: "u64 \<Rightarrow> u8 list \<Rightarrow> memory" where
  "mem_of base bs = (\<lambda>a. if unat (a - base) < length bs then bs ! unat (a - base) else 0)"

lemma mem_of_nth: "i < length bs \<Longrightarrow> length bs \<le> 2 ^ 64 \<Longrightarrow> mem_of base bs (base + of_nat i) = bs ! i"
  by (simp add: mem_of_def unat_of_nat)

lemma mem_of_bytes:
  assumes "k + n \<le> length bs" and "length bs \<le> 2 ^ 64"
  shows "bytes_at (mem_of base bs) (base + of_nat k) n = take n (drop k bs)"
proof (rule nth_equalityI)
  fix i
  assume "i < length (bytes_at (mem_of base bs) (base + of_nat k) n)"
  then have i: "i < n" by simp
  have "mem_of base bs (base + of_nat (k + i)) = bs ! (k + i)" using assms i by (intro mem_of_nth) simp_all
  then show "bytes_at (mem_of base bs) (base + of_nat k) n ! i = take n (drop k bs) ! i"
    using i assms by (simp add: bytes_at_def add.assoc)
qed (use assms in simp)

end
