(* ===== verification/Symtable.thy ===== *)
theory Symtable
  imports Layout
begin

text \<open>
  The kernel symbol table of \<^verbatim>\<open>src/symtable.c\<close>: a blob in memory with a count, packed entries of twelve
  bytes and a string pool. The static variables are the record \<open>symtable\<close>; the functions take the
  memory the blob lies in.
\<close>

record symtable =
  entries :: u64
  string_blob :: u64
  entry_count :: u64
  string_pool_max :: u64

definition symtable_init :: "memory \<Rightarrow> u64 \<Rightarrow> u64 \<Rightarrow> symtable outcome" where
  "symtable_init m table_blob total_size =
     (if table_blob = 0 \<or> total_size < 8 then Inl (Panic ''SYMTABLE'' ''invalid arguments'')
      else
        (let count = rd64 m table_blob;
             expected_entries_size = count * 12;
             header_plus_entries = 8 + expected_entries_size in
         if header_plus_entries > total_size then Inl (Panic ''SYMTABLE'' ''malformed data'')
         else Inr \<lparr>entries = table_blob + 8, string_blob = table_blob + header_plus_entries,
                   entry_count = count, string_pool_max = total_size - header_plus_entries\<rparr>))"

text \<open>
  The result is the string pointer (0 is \<^verbatim>\<open>NULL\<close>) and, when the index is valid, the address stored
  through \<^verbatim>\<open>out_addr\<close>.
\<close>

definition symtable_lookup :: "memory \<Rightarrow> symtable \<Rightarrow> u64 \<Rightarrow> u64 \<times> u64 option" where
  "symtable_lookup m st index =
     (if entries st = 0 \<or> index \<ge> entry_count st then (0, None)
      else
        (let entry = entries st + index * 12;
             addr = rd64 m entry;
             string_offset = ucast (rd32 m (entry + 8)) :: u64 in
         if string_offset \<ge> string_pool_max st then (0, Some addr)
         else (string_blob st + string_offset, Some addr)))"

lemma lookup_in_range: "symtable_lookup m st i = (p, a) \<Longrightarrow> p \<noteq> 0 \<Longrightarrow> i < entry_count st \<and> a \<noteq> None"
  by (auto simp: symtable_lookup_def not_le Let_def split: if_splits)

lemma mid_between:
  "low \<le> (high :: u64) \<Longrightarrow>
     unat (low + (high - low) div 2) = unat low + (unat high - unat low) div 2"
proof -
  assume "low \<le> high"
  then have le: "unat low \<le> unat high" by (simp add: word_le_nat_alt)
  have d: "unat ((high - low) div 2) = (unat high - unat low) div 2"
    using \<open>low \<le> high\<close> by (simp add: unat_div_distrib unat_minus_le)
  have "unat low + (unat high - unat low) div 2 < 2 ^ 64"
    using le unat_lt_64 [of high] by linarith
  then show ?thesis using d by (simp add: unat_plus_small)
qed

text \<open>The number of candidates left; both branches of the search shrink it.\<close>

definition candidates :: "u64 \<Rightarrow> u64 \<Rightarrow> nat" where
  "candidates low high = (if low \<le> high then Suc (unat high - unat low) else 0)"

lemma mid_bounds:
  assumes "low \<le> (high :: u64)"
  shows "unat low \<le> unat (low + (high - low) div 2)" "unat (low + (high - low) div 2) \<le> unat high"
proof -
  have "unat low \<le> unat high" using assms by (simp add: word_le_nat_alt)
  then show "unat low \<le> unat (low + (high - low) div 2)" "unat (low + (high - low) div 2) \<le> unat high"
    unfolding mid_between [OF assms] by linarith+
qed

lemma lower_half:
  assumes "low \<le> high" and "low + (high - low) div 2 \<noteq> 0"
  shows "candidates low (low + (high - low) div 2 - 1) < candidates low high"
proof -
  have "unat (low + (high - low) div 2 - 1) = unat (low + (high - low) div 2) - 1"
    "0 < unat (low + (high - low) div 2)"
    using assms(2) by (simp_all only: unat_minus_one unat_gt_0 not_False_eq_True simp_thms)
  then show ?thesis using mid_bounds [OF assms(1)] assms(1) unfolding candidates_def word_le_nat_alt by auto
qed

lemma upper_half:
  assumes "low \<le> high" and "symtable_lookup m st (low + (high - low) div 2) = (p, a)" and "p \<noteq> 0"
  shows "candidates (low + (high - low) div 2 + 1) high < candidates low high"
proof -
  have "unat (low + (high - low) div 2 + 1) = Suc (unat (low + (high - low) div 2))"
    using lookup_in_range [OF assms(2,3)] unat_inc by blast
  then show ?thesis using mid_bounds [OF assms(1)] assms(1) unfolding candidates_def word_le_nat_alt by auto
qed

function lookup_loop :: "memory \<Rightarrow> symtable \<Rightarrow> u64 \<Rightarrow> u64 \<Rightarrow> u64 \<Rightarrow> u64 outcome" where
  "lookup_loop m st name low high =
     (if low \<le> high then
        (let mid = low + (high - low) div 2 in
         case symtable_lookup m st mid of
           (sym_name, addr_opt) \<Rightarrow>
             let addr = (case addr_opt of Some a \<Rightarrow> a | None \<Rightarrow> 0) in
             if sym_name = 0 then Inr 0
             else
               (case strcmp name sym_name m of
                  Inl e \<Rightarrow> Inl e
                | Inr res \<Rightarrow>
                    if res = 0 then Inr addr
                    else if res < 0 then
                      (if mid = 0 then Inr 0 else lookup_loop m st name low (mid - 1))
                    else lookup_loop m st name (mid + 1) high))
      else Inr 0)"
  by pat_completeness auto
termination
  by (relation "measure (\<lambda>(m, st, name, low, high). candidates low high)")
     (auto simp: lower_half upper_half [OF _ sym])

declare lookup_loop.simps [simp del]

definition symtable_lookup_name :: "memory \<Rightarrow> symtable \<Rightarrow> u64 \<Rightarrow> u64 outcome" where
  "symtable_lookup_name m st name =
     (if name = 0 \<or> entry_count st = 0 then Inr 0
      else lookup_loop m st name 0 (entry_count st - 1))"

section \<open>The table as a sorted list of symbols\<close>

definition holds_symbols :: "memory \<Rightarrow> symtable \<Rightarrow> (u8 list \<times> u64) list \<Rightarrow> bool" where
  "holds_symbols m st syms \<longleftrightarrow>
     unat (entry_count st) = length syms \<and>
     (\<forall>i<length syms. \<exists>p. p \<noteq> 0 \<and> symtable_lookup m st (of_nat i) = (p, Some (snd (syms ! i))) \<and>
        cstr_at m p (fst (syms ! i))) \<and>
     sorted_wrt (\<lambda>x y. str_order (fst x) (fst y) < 0) syms"

lemma str_order_antisym: "str_order ys xs = - str_order xs ys"
  by (induction xs ys rule: str_order.induct) auto

lemma smaller_name_before:
  assumes "sorted_wrt (\<lambda>x y. str_order (fst x) (fst y) < 0) syms" and "j < length syms" and "i < length syms"
    and "str_order (fst (syms ! j)) (fst (syms ! i)) < 0"
  shows "j < i"
proof (rule ccontr)
  assume "\<not> j < i"
  then consider "j = i" | "i < j" by linarith
  then show False
  proof cases
    case 1
    then show False using assms(4) str_order_antisym [of "fst (syms ! i)" "fst (syms ! i)"] by simp
  next
    case 2
    then show False using sorted_wrt_nth_less [OF assms(1) 2 assms(2)] assms(4)
        str_order_antisym [of "fst (syms ! j)" "fst (syms ! i)"] by simp
  qed
qed

lemma map_of_none_index: "(\<And>j. j < length syms \<Longrightarrow> fst (syms ! j) \<noteq> xs) \<Longrightarrow> map_of syms xs = None"
  by (metis (no_types) image_iff in_set_conv_nth map_of_eq_None_iff)

lemma map_of_index:
  assumes "sorted_wrt (\<lambda>x y. str_order (fst x) (fst y) < 0) syms" and "j < length syms"
  shows "map_of syms (fst (syms ! j)) = Some (snd (syms ! j))"
proof -
  have "str_order xs xs = 0" for xs using str_order_antisym [of xs xs] by simp
  then have "distinct (map fst syms)"
    using assms(1) by (induction syms) fastforce+
  then show ?thesis using assms(2) by (simp add: map_of_eq_Some_iff)
qed

lemma lookup_loop_spec:
  assumes hold: "holds_symbols m st syms" and nm: "name \<noteq> 0" "cstr_at m name xs"
  shows "unat high < length syms \<Longrightarrow>
     (\<forall>j<length syms. fst (syms ! j) = xs \<longrightarrow> unat low \<le> j \<and> j \<le> unat high) \<Longrightarrow>
     lookup_loop m st name low high = Inr (case map_of syms xs of Some a \<Rightarrow> a | None \<Rightarrow> 0)"
proof (induction "candidates low high" arbitrary: low high rule: less_induct)
  case less
  have sorted: "sorted_wrt (\<lambda>x y. str_order (fst x) (fst y) < 0) syms" using hold by (simp add: holds_symbols_def)
  show ?case
  proof (cases "low \<le> high")
    case False
    then have "\<not> (\<exists>j<length syms. fst (syms ! j) = xs)"
      using less.prems(2) by (auto simp: word_le_nat_alt)
    then have "map_of syms xs = None" by (intro map_of_none_index) blast
    then show ?thesis using False by (subst lookup_loop.simps) simp
  next
    case True
    let ?mid = "low + (high - low) div 2"
    note mb = mid_bounds [OF True]
    have i: "unat ?mid < length syms" using mb(2) less.prems(1) by simp
    then obtain p where p: "p \<noteq> 0" "symtable_lookup m st ?mid = (p, Some (snd (syms ! unat ?mid)))"
      "cstr_at m p (fst (syms ! unat ?mid))"
      using hold unfolding holds_symbols_def by (metis of_nat_unat_id)
    let ?res = "str_order xs (fst (syms ! unat ?mid))"
    have cmp: "strcmp name p m = Inr ?res"
      using strcmp_loop_spec [of m name 0 xs p] nm p by (simp add: strcmp_def)
    have zero: "?res = 0 \<longleftrightarrow> xs = fst (syms ! unat ?mid)"
      using nm(2) p(3) by (intro str_order_zero) (simp_all add: cstr_at_def)
    have step: "lookup_loop m st name low high =
       (if ?res = 0 then Inr (snd (syms ! unat ?mid))
        else if ?res < 0 then (if ?mid = 0 then Inr 0 else lookup_loop m st name low (?mid - 1))
        else lookup_loop m st name (?mid + 1) high)"
      using True p cmp by (subst lookup_loop.simps) (simp add: Let_def)
    have loc: "j < unat ?mid" if "?res < 0" "j < length syms" "fst (syms ! j) = xs" for j
      using smaller_name_before [OF sorted that(2) i] that by simp
    have loc': "unat ?mid < j" if "?res > 0" "j < length syms" "fst (syms ! j) = xs" for j
      using smaller_name_before [OF sorted i that(2)] that str_order_antisym [of xs "fst (syms ! unat ?mid)"] by simp
    consider (eq) "?res = 0" | (lt0) "?res < 0" "?mid = 0" | (lt) "?res < 0" "?mid \<noteq> 0" | (gt) "?res > 0" by linarith
    then show ?thesis
    proof cases
      case eq
      then show ?thesis using step zero map_of_index [OF sorted i] by simp
    next
      case lt0
      then have "map_of syms xs = None" using loc by (intro map_of_none_index) force
      then show ?thesis using step lt0 by simp
    next
      case lt
      have m1: "unat (?mid - 1) = unat ?mid - 1" "0 < unat ?mid"
        using lt(2) by (simp_all only: unat_minus_one unat_gt_0 not_False_eq_True simp_thms)
      have "lookup_loop m st name low (?mid - 1) = Inr (case map_of syms xs of Some a \<Rightarrow> a | None \<Rightarrow> 0)"
        using less.prems loc [OF lt(1)] m1 i by (intro less.hyps lower_half [OF True lt(2)]) fastforce+
      then show ?thesis using step lt by simp
    next
      case gt
      have m1: "unat (?mid + 1) = Suc (unat ?mid)" using lookup_in_range [OF p(2,1)] unat_inc by blast
      have "lookup_loop m st name (?mid + 1) high = Inr (case map_of syms xs of Some a \<Rightarrow> a | None \<Rightarrow> 0)"
        using less.prems loc' [OF gt] m1 by (intro less.hyps upper_half [OF True p(2,1)]) (auto simp: Suc_le_eq)
      then show ?thesis using step gt by simp
    qed
  qed
qed

section \<open>Properties\<close>

text \<open>
  On a table whose names are sorted by \<^verbatim>\<open>strcmp\<close>, the binary search of \<^verbatim>\<open>symtable_lookup_name\<close>
  ends without a panic and returns the address of the symbol, or 0 when no symbol has that name.
\<close>

theorem symtable_lookup_name_correct:
  assumes "holds_symbols m st syms" and "name \<noteq> 0" and "cstr_at m name xs"
  shows "symtable_lookup_name m st name = Inr (case map_of syms xs of Some a \<Rightarrow> a | None \<Rightarrow> 0)"
proof (cases "syms = []")
  case True
  then have "entry_count st = 0" using assms(1) by (simp add: holds_symbols_def unat_eq_0)
  then show ?thesis using True by (simp add: symtable_lookup_name_def)
next
  case False
  have n: "unat (entry_count st) = length syms" using assms(1) by (simp add: holds_symbols_def)
  then have nz: "entry_count st \<noteq> 0" using False by auto
  then have h: "unat (entry_count st - 1) = length syms - 1" using n by (simp add: unat_minus_one)
  have "lookup_loop m st name 0 (entry_count st - 1) = Inr (case map_of syms xs of Some a \<Rightarrow> a | None \<Rightarrow> 0)"
    using False by (intro lookup_loop_spec [OF assms]) (auto simp: h)
  then show ?thesis using assms(2) nz by (simp add: symtable_lookup_name_def)
qed

text \<open>A blob with the symbols \<open>a\<close> and \<open>b\<close>, and the string \<open>b\<close> elsewhere.\<close>

definition demo_blob :: "u8 list" where
  "demo_blob = le_bytes 8 2 @ le_bytes 8 0x1000 @ le_bytes 4 0 @ le_bytes 8 0x2000 @ le_bytes 4 2 @ [97, 0, 98, 0] @ [98, 0]"

definition demo_mem :: memory where "demo_mem = mem_of 0x1000 demo_blob"

lemma demo_blob_bytes [simp]:
  "demo_blob = [2, 0, 0, 0, 0, 0, 0, 0, 0, 16, 0, 0, 0, 0, 0, 0, 0, 0, 0, 0,
                0, 32, 0, 0, 0, 0, 0, 0, 2, 0, 0, 0, 97, 0, 98, 0, 98, 0]"
  by (simp add: demo_blob_def)

definition demo_table :: symtable where
  "demo_table = \<lparr>entries = 0x1008, string_blob = 0x1020, entry_count = 2, string_pool_max = 6\<rparr>"

theorem symtable_lookup_name_correct_witness:
  "symtable_init demo_mem 0x1000 38 = Inr demo_table \<and>
   symtable_lookup_name demo_mem demo_table 0x1024 = Inr 0x2000"
proof -
  have init: "symtable_init demo_mem 0x1000 38 = Inr demo_table"
    by (simp add: symtable_init_def rd64_def demo_mem_def mem_of_def Let_def demo_table_def)
  let ?syms = "[([97], 0x1000), ([98], 0x2000)] :: (u8 list \<times> u64) list"
  have two: "(\<forall>i<length ?syms. P i) \<longleftrightarrow> P 0 \<and> P 1" for P :: "nat \<Rightarrow> bool"
    by (auto simp: less_Suc_eq)
  have l: "symtable_lookup demo_mem demo_table 0 = (0x1020, Some 0x1000)"
    "symtable_lookup demo_mem demo_table 1 = (0x1022, Some 0x2000)"
    by (simp_all add: symtable_lookup_def demo_table_def rd64_def rd32_def demo_mem_def mem_of_def Let_def)
      (simp add: word_le_nat_alt)
  have c: "cstr_at demo_mem 0x1020 [97]" "cstr_at demo_mem 0x1022 [98]"
    by (simp_all add: demo_mem_def mem_of_def cstr_at_Cons cstr_at_Nil canonical_iff)
  have "holds_symbols demo_mem demo_table ?syms"
    unfolding holds_symbols_def two using l c by (simp add: demo_table_def)
  moreover have "cstr_at demo_mem 0x1024 [98]"
    by (simp add: demo_mem_def mem_of_def cstr_at_Cons cstr_at_Nil canonical_iff)
  ultimately show ?thesis
    using symtable_lookup_name_correct [of demo_mem demo_table ?syms "0x1024" "[98]"] init
    by simp
qed

text \<open>
  A table that \<^verbatim>\<open>symtable_init\<close> accepts has all its entries inside the blob, unless the size of
  the entries wraps around 64 bits: then any count is accepted.
\<close>

theorem symtable_init_bounds:
  assumes "symtable_init m blob sz = Inr st"
  shows "entry_count st = rd64 m blob \<and>
    (8 + 12 * unat (entry_count st) \<le> unat sz \<or> 2 ^ 64 \<le> 8 + 12 * unat (entry_count st))"
proof (cases "8 + 12 * unat (rd64 m blob) < 2 ^ 64")
  case True
  have "unat (rd64 m blob * 12) = unat (rd64 m blob) * 12" using True by (intro unat_mult_small [of "rd64 m blob" 12, simplified]) simp
  then have "unat (8 + rd64 m blob * 12) = 8 + 12 * unat (rd64 m blob)" using True by (simp add: unat_plus_small)
  then show ?thesis
    using assms by (auto simp: symtable_init_def Let_def word_less_nat_alt not_less split: if_splits)
qed (use assms in \<open>auto simp: symtable_init_def Let_def split: if_splits\<close>)

theorem symtable_init_bounds_witness:
  "\<exists>st. symtable_init (mem_of 0x1000 (le_bytes 8 0x1555555555555556)) 0x1000 16 = Inr st \<and>
     unat (entry_count st) = 0x1555555555555556"
proof -
  let ?m = "mem_of 0x1000 (le_bytes 8 0x1555555555555556)"
  have r: "rd64 ?m 0x1000 = 0x1555555555555556"
    by (simp add: rd64_def mem_of_def)
  then have "symtable_init ?m 0x1000 16 = Inr \<lparr>entries = 0x1008, string_blob = 0x1010,
      entry_count = 0x1555555555555556, string_pool_max = 0\<rparr>" by (simp add: symtable_init_def)
  from symtable_init_bounds [OF this] this show ?thesis by simp
qed

end
