(* ===== verification/Ramfs.thy ===== *)
theory Ramfs
  imports Layout
begin

text \<open>
  The initial RAM file system: the packer \<^verbatim>\<open>src/tools/mkramfs.c\<close> that writes the archive on the build
  host, with its CRC-32, and the reader \<^verbatim>\<open>src/fs/ramfs.c\<close> in the kernel.

  The packer's input is the list of its arguments, each a path with the contents of the file or \<open>None\<close>
  when it cannot be opened; its output is the list of the archive's bytes. The reader works on the
  memory the archive was loaded into.
\<close>

section \<open>CRC-32\<close>

definition poly8_lookup :: "u32 list" where
  "poly8_lookup =
    [0, 0x77073096, 0xEE0E612C, 0x990951BA, 0x076DC419, 0x706AF48F, 0xE963A535, 0x9E6495A3,
     0x0EDB8832, 0x79DCB8A4, 0xE0D5E91E, 0x97D2D988, 0x09B64C2B, 0x7EB17CBD, 0xE7B82D07, 0x90BF1D91,
     0x1DB71064, 0x6AB020F2, 0xF3B97148, 0x84BE41DE, 0x1ADAD47D, 0x6DDDE4EB, 0xF4D4B551, 0x83D385C7,
     0x136C9856, 0x646BA8C0, 0xFD62F97A, 0x8A65C9EC, 0x14015C4F, 0x63066CD9, 0xFA0F3D63, 0x8D080DF5,
     0x3B6E20C8, 0x4C69105E, 0xD56041E4, 0xA2677172, 0x3C03E4D1, 0x4B04D447, 0xD20D85FD, 0xA50AB56B,
     0x35B5A8FA, 0x42B2986C, 0xDBBBC9D6, 0xACBCF940, 0x32D86CE3, 0x45DF5C75, 0xDCD60DCF, 0xABD13D59,
     0x26D930AC, 0x51DE003A, 0xC8D75180, 0xBFD06116, 0x21B4F4B5, 0x56B3C423, 0xCFBA9599, 0xB8BDA50F,
     0x2802B89E, 0x5F058808, 0xC60CD9B2, 0xB10BE924, 0x2F6F7C87, 0x58684C11, 0xC1611DAB, 0xB6662D3D,
     0x76DC4190, 0x01DB7106, 0x98D220BC, 0xEFD5102A, 0x71B18589, 0x06B6B51F, 0x9FBFE4A5, 0xE8B8D433,
     0x7807C9A2, 0x0F00F934, 0x9609A88E, 0xE10E9818, 0x7F6A0DBB, 0x086D3D2D, 0x91646C97, 0xE6635C01,
     0x6B6B51F4, 0x1C6C6162, 0x856530D8, 0xF262004E, 0x6C0695ED, 0x1B01A57B, 0x8208F4C1, 0xF50FC457,
     0x65B0D9C6, 0x12B7E950, 0x8BBEB8EA, 0xFCB9887C, 0x62DD1DDF, 0x15DA2D49, 0x8CD37CF3, 0xFBD44C65,
     0x4DB26158, 0x3AB551CE, 0xA3BC0074, 0xD4BB30E2, 0x4ADFA541, 0x3DD895D7, 0xA4D1C46D, 0xD3D6F4FB,
     0x4369E96A, 0x346ED9FC, 0xAD678846, 0xDA60B8D0, 0x44042D73, 0x33031DE5, 0xAA0A4C5F, 0xDD0D7CC9,
     0x5005713C, 0x270241AA, 0xBE0B1010, 0xC90C2086, 0x5768B525, 0x206F85B3, 0xB966D409, 0xCE61E49F,
     0x5EDEF90E, 0x29D9C998, 0xB0D09822, 0xC7D7A8B4, 0x59B33D17, 0x2EB40D81, 0xB7BD5C3B, 0xC0BA6CAD,
     0xEDB88320, 0x9ABFB3B6, 0x03B6E20C, 0x74B1D29A, 0xEAD54739, 0x9DD277AF, 0x04DB2615, 0x73DC1683,
     0xE3630B12, 0x94643B84, 0x0D6D6A3E, 0x7A6A5AA8, 0xE40ECF0B, 0x9309FF9D, 0x0A00AE27, 0x7D079EB1,
     0xF00F9344, 0x8708A3D2, 0x1E01F268, 0x6906C2FE, 0xF762575D, 0x806567CB, 0x196C3671, 0x6E6B06E7,
     0xFED41B76, 0x89D32BE0, 0x10DA7A5A, 0x67DD4ACC, 0xF9B9DF6F, 0x8EBEEFF9, 0x17B7BE43, 0x60B08ED5,
     0xD6D6A3E8, 0xA1D1937E, 0x38D8C2C4, 0x4FDFF252, 0xD1BB67F1, 0xA6BC5767, 0x3FB506DD, 0x48B2364B,
     0xD80D2BDA, 0xAF0A1B4C, 0x36034AF6, 0x41047A60, 0xDF60EFC3, 0xA867DF55, 0x316E8EEF, 0x4669BE79,
     0xCB61B38C, 0xBC66831A, 0x256FD2A0, 0x5268E236, 0xCC0C7795, 0xBB0B4703, 0x220216B9, 0x5505262F,
     0xC5BA3BBE, 0xB2BD0B28, 0x2BB45A92, 0x5CB36A04, 0xC2D7FFA7, 0xB5D0CF31, 0x2CD99E8B, 0x5BDEAE1D,
     0x9B64C2B0, 0xEC63F226, 0x756AA39C, 0x026D930A, 0x9C0906A9, 0xEB0E363F, 0x72076785, 0x05005713,
     0x95BF4A82, 0xE2B87A14, 0x7BB12BAE, 0x0CB61B38, 0x92D28E9B, 0xE5D5BE0D, 0x7CDCEFB7, 0x0BDBDF21,
     0x86D3D2D4, 0xF1D4E242, 0x68DDB3F8, 0x1FDA836E, 0x81BE16CD, 0xF6B9265B, 0x6FB077E1, 0x18B74777,
     0x88085AE6, 0xFF0F6A70, 0x66063BCA, 0x11010B5C, 0x8F659EFF, 0xF862AE69, 0x616BFFD3, 0x166CCF45,
     0xA00AE278, 0xD70DD2EE, 0x4E048354, 0x3903B3C2, 0xA7672661, 0xD06016F7, 0x4969474D, 0x3E6E77DB,
     0xAED16A4A, 0xD9D65ADC, 0x40DF0B66, 0x37D83BF0, 0xA9BCAE53, 0xDEBB9EC5, 0x47B2CF7F, 0x30B5FFE9,
     0xBDBDF21C, 0xCABAC28A, 0x53B39330, 0x24B4A3A6, 0xBAD03605, 0xCDD70693, 0x54DE5729, 0x23D967BF,
     0xB3667A2E, 0xC4614AB8, 0x5D681B02, 0x2A6F2B94, 0xB40BBE37, 0xC30C8EA1, 0x5A05DF1B, 0x2D02EF8D]"

definition crc_bit :: "u32 \<Rightarrow> u32" where
  "crc_bit x = (if x AND 1 \<noteq> 0 then drop_bit 1 x XOR 0xEDB88320 else drop_bit 1 x)"

text \<open>\<^verbatim>\<open>crc32_fill\<close> overwrites every element of the table it is given.\<close>

definition crc32_fill :: "u32 list \<Rightarrow> u32 list" where
  "crc32_fill table = map (\<lambda>index. (crc_bit ^^ 8) (of_nat index)) [0..<256]"

fun crc32_loop :: "u32 list \<Rightarrow> u32 \<Rightarrow> u8 list \<Rightarrow> u32" where
  "crc32_loop table crc [] = crc"
| "crc32_loop table crc (b # bs) =
     crc32_loop table (table ! unat ((ucast crc :: u8) XOR b) XOR drop_bit 8 crc) bs"

definition crc32_byte :: "u32 list \<Rightarrow> u8 list \<Rightarrow> u32" where
  "crc32_byte table p = crc32_loop table 0xFFFFFFFF p XOR 0xFFFFFFFF"

text \<open>One step of the division by the generator polynomial is linear over exclusive or.\<close>

lemma crc_bit_alt: "crc_bit x = drop_bit 1 x XOR (if bit x 0 then 0xEDB88320 else 0)"
  by (simp add: crc_bit_def and_one_eq bit_0 odd_iff_mod_2_eq_one)

lemma crc_bit_linear: "crc_bit (x XOR y) = crc_bit x XOR crc_bit y"
  unfolding crc_bit_alt bit_xor_iff drop_bit_xor
  by (cases "bit x 0"; cases "bit y 0") (simp_all add: xor.left_commute xor.assoc xor.commute)

lemma crc_bit_zero [simp]: "crc_bit 0 = 0"
  by (simp add: crc_bit_def)

lemma crc_pow_linear: "(crc_bit ^^ n) (x XOR y) = (crc_bit ^^ n) x XOR (crc_bit ^^ n) y"
  by (induction n) (simp_all add: crc_bit_linear)

lemma crc_pow_zero [simp]: "(crc_bit ^^ n) 0 = 0"
  by (induction n) simp_all

lemma crc_pow_shift: "n \<le> k \<Longrightarrow> (crc_bit ^^ n) (push_bit k x) = drop_bit n (push_bit k x)"
proof (induction n)
  case (Suc n)
  have b: "\<not> bit (drop_bit n (push_bit k x)) 0" using Suc.prems by (simp add: bit_simps)
  have "(crc_bit ^^ Suc n) (push_bit k x) = crc_bit (drop_bit n (push_bit k x))" using Suc by simp
  also have "\<dots> = drop_bit (Suc n) (push_bit k x)"
    using b by (simp only: crc_bit_alt) (simp add: drop_bit_drop_bit)
  finally show ?case .
qed simp

lemma crc_table_step: "(crc_bit ^^ 8) x = (crc_bit ^^ 8) (x AND mask 8) XOR drop_bit 8 x"
proof -
  have split: "x = (x AND mask 8) XOR push_bit 8 (drop_bit 8 x)"
    by (rule bit_eqI) (auto simp: bit_simps)
  have "(crc_bit ^^ 8) x = (crc_bit ^^ 8) ((x AND mask 8) XOR push_bit 8 (drop_bit 8 x))"
    using split by simp
  also have "\<dots> = (crc_bit ^^ 8) (x AND mask 8) XOR drop_bit 8 (push_bit 8 (drop_bit 8 x))"
    unfolding crc_pow_linear by (simp only: crc_pow_shift order_refl)
  also have "drop_bit 8 (push_bit 8 (drop_bit 8 x)) = drop_bit 8 x"
    by (rule bit_eqI) (auto simp: bit_simps dest: bit_imp_le_length)
  finally show ?thesis .
qed

text \<open>The reference: the message bits are divided one at a time, least significant bit first.\<close>

fun crc32_bitwise :: "u32 \<Rightarrow> u8 list \<Rightarrow> u32" where
  "crc32_bitwise crc [] = crc"
| "crc32_bitwise crc (b # bs) = crc32_bitwise ((crc_bit ^^ 8) (crc XOR ucast b)) bs"

lemma crc32_fill_nth: "i < 256 \<Longrightarrow> crc32_fill t ! i = (crc_bit ^^ 8) (of_nat i)"
  by (simp add: crc32_fill_def)

lemma crc32_loop_bitwise: "crc32_loop (crc32_fill t) crc bs = crc32_bitwise crc bs"
proof (induction bs arbitrary: crc)
  case (Cons b bs)
  let ?i = "(ucast crc :: u8) XOR b"
  have "of_nat (unat ?i) = (ucast ?i :: u32)" by (simp add: unsigned_of_nat)
  also have "\<dots> = (crc XOR ucast b) AND mask 8"
    by (rule bit_eqI) (auto simp: bit_simps dest: bit_imp_le_length)
  finally have "crc32_fill t ! unat ?i = (crc_bit ^^ 8) ((crc XOR ucast b) AND mask 8)"
    by (simp add: crc32_fill_nth)
  moreover have "drop_bit 8 crc = drop_bit 8 (crc XOR ucast b)"
    by (rule bit_eqI) (auto simp: bit_simps dest: bit_imp_le_length)
  ultimately show ?case using Cons.IH crc_table_step [of "crc XOR ucast b"] by simp
qed simp

text \<open>The table of the source is the one \<^verbatim>\<open>crc32_fill\<close> computes: its first \<open>2 ^ k\<close> elements double \<open>k\<close> times.\<close>

primrec table_rows :: "nat \<Rightarrow> u32 list" where
  "table_rows 0 = [0]"
| "table_rows (Suc k) = table_rows k @ map (\<lambda>x. x XOR (crc_bit ^^ 8) (2 ^ k)) (table_rows k)"

lemma add_exp_xor: "i < 2 ^ k \<Longrightarrow> k < 32 \<Longrightarrow> (of_nat (2 ^ k + i) :: u32) = of_nat i XOR 2 ^ k"
proof -
  assume i: "i < 2 ^ k" and k: "k < 32"
  have ub: "\<not> bit (of_nat i :: u32) n" if "k \<le> n" for n
  proof -
    have "i < 2 ^ n" using i that by (meson less_le_trans one_le_numeral power_increasing)
    then have "i div 2 ^ n = 0" by simp
    then show ?thesis unfolding bit_of_nat_iff bit_iff_odd [of i] by simp
  qed
  have "(of_nat i :: u32) + 2 ^ k = of_nat i OR 2 ^ k"
    using ub by (intro disjunctive_add) (auto simp: bit_exp_iff)
  also have "\<dots> = of_nat i XOR 2 ^ k" using ub by (intro bit_eqI) (auto simp: bit_simps)
  finally show ?thesis by (simp add: add.commute)
qed

lemma table_rows_correct: "k \<le> 32 \<Longrightarrow> table_rows k = map (\<lambda>i. (crc_bit ^^ 8) (of_nat i)) [0..<2 ^ k]"
proof (induction k)
  case (Suc k)
  have "map (\<lambda>i. (crc_bit ^^ 8) (of_nat i)) [2 ^ k..<2 ^ k + 2 ^ k] =
      map (\<lambda>i. (crc_bit ^^ 8) (of_nat (2 ^ k + i))) [0..<2 ^ k]"
    unfolding map_add_upt [symmetric] map_map by (simp add: comp_def add.commute)
  also have "\<dots> = map (\<lambda>x. x XOR (crc_bit ^^ 8) (2 ^ k)) (table_rows k)"
    using Suc by (simp add: add_exp_xor crc_pow_linear del: of_nat_add)
  finally have hi: "map (\<lambda>i. (crc_bit ^^ 8) (of_nat i)) [2 ^ k..<2 ^ k + 2 ^ k] =
      map (\<lambda>x. x XOR (crc_bit ^^ 8) (2 ^ k)) (table_rows k)" .
  have "[0..<2 ^ Suc k] = [0..<2 ^ k] @ [2 ^ k..<2 ^ k + 2 ^ k]"
    using upt_add_eq_append [of 0 "2 ^ k" "2 ^ k"] by (simp only: power_Suc mult_2 le0 simp_thms)
  then show ?case using Suc by (simp only: map_append hi table_rows.simps Suc_leD)
qed simp

lemma crc_pow8: "(crc_bit ^^ 8) x = crc_bit (crc_bit (crc_bit (crc_bit (crc_bit (crc_bit (crc_bit (crc_bit x)))))))"
  by (simp add: numeral_eq_Suc)

lemma basis_rows:
  "(crc_bit ^^ 8) 1 = 0x77073096" "(crc_bit ^^ 8) 2 = 0xEE0E612C" "(crc_bit ^^ 8) 4 = 0x076DC419"
  "(crc_bit ^^ 8) 8 = 0x0EDB8832" "(crc_bit ^^ 8) 16 = 0x1DB71064" "(crc_bit ^^ 8) 32 = 0x3B6E20C8"
  "(crc_bit ^^ 8) 64 = 0x76DC4190" "(crc_bit ^^ 8) 128 = 0xEDB88320"
  unfolding crc_pow8 by (simp_all add: crc_bit_def)

lemma table_literal: "table_rows 8 = poly8_lookup"
proof -
  have "table_rows 8 = table_rows (Suc (Suc (Suc (Suc (Suc (Suc (Suc (Suc 0))))))))" by (simp add: numeral_eq_Suc del: table_rows.simps)
  also have "\<dots> = poly8_lookup"
    unfolding table_rows.simps poly8_lookup_def by (simp add: basis_rows)
  finally show ?thesis .
qed

section \<open>The packer\<close>

definition RAMFS_MAGIC :: nat where "RAMFS_MAGIC = 0x494E495452414D21"

text \<open>The part of a path after the last slash (47), found with \<^verbatim>\<open>strrchr\<close>.\<close>

definition base_name :: "u8 list \<Rightarrow> u8 list" where
  "base_name path = rev (takeWhile (\<lambda>c. c \<noteq> 47) (rev path))"

text \<open>\<^verbatim>\<open>memset(name, 0, 64)\<close> and then \<^verbatim>\<open>strncpy(name, filename, 63)\<close>.\<close>

definition name_field :: "u8 list \<Rightarrow> u8 list" where
  "name_field filename = take 63 filename @ replicate (64 - length (take 63 filename)) 0"

definition header_bytes :: "nat \<Rightarrow> u8 list" where
  "header_bytes num_files = le_bytes 8 RAMFS_MAGIC @ le_bytes 4 num_files @ le_bytes 4 0"

text \<open>
  The packer's entry: name, offset, size and checksum, 84 bytes. The length passed to \<^verbatim>\<open>crc32_byte\<close> is
  cut to 32 bits.
\<close>

definition entry_bytes :: "u8 list \<Rightarrow> nat \<Rightarrow> u8 list \<Rightarrow> u8 list" where
  "entry_bytes filename current_off buf =
     name_field filename @ le_bytes 8 current_off @ le_bytes 8 (length buf) @
     le_bytes 4 (unat (crc32_byte (crc32_fill poly8_lookup) (take (length buf mod 2 ^ 32) buf)))"

text \<open>
  The loop over the files: the entry table and the file data. The entry of a file that cannot be
  opened stays as \<^verbatim>\<open>calloc\<close> left it.
\<close>

fun pack_files :: "nat \<Rightarrow> (u8 list \<times> u8 list option) list \<Rightarrow> u8 list \<times> u8 list" where
  "pack_files current_off [] = ([], [])"
| "pack_files current_off ((path, None) # files) =
     (case pack_files current_off files of (table, data) \<Rightarrow> (replicate 84 0 @ table, data))"
| "pack_files current_off ((path, Some buf) # files) =
     (case pack_files (current_off + length buf) files of
        (table, data) \<Rightarrow> (entry_bytes (base_name path) current_off buf @ table, buf @ data))"

definition mkramfs :: "(u8 list \<times> u8 list option) list \<Rightarrow> u8 list option" where
  "mkramfs files =
     (if files = [] then None
      else (case pack_files (16 + 84 * length files) files of
              (table, data) \<Rightarrow> Some (header_bytes (length files) @ table @ data)))"

section \<open>The reader\<close>

record ramfs_handle_t =
  header :: u64
  rentries :: u64
  base :: u64

definition ramfs_init :: "u64 \<Rightarrow> ramfs_handle_t" where
  "ramfs_init ptr = \<lparr>header = ptr, rentries = ptr + 16, base = ptr\<rparr>"

text \<open>The kernel's entry is 80 bytes: name, offset and size. \<open>(0, 0)\<close> is the file that was not found.\<close>

function get_file_loop :: "memory \<Rightarrow> ramfs_handle_t \<Rightarrow> u64 \<Rightarrow> u32 \<Rightarrow> (u64 \<times> u64) outcome" where
  "get_file_loop m handle name i =
     (if i < rd32 m (header handle + 8) then
        (let entry = rentries handle + ucast i * 80 in
         case strcmp entry name m of
           Inl e \<Rightarrow> Inl e
         | Inr res \<Rightarrow>
             if res = 0 then Inr (base handle + rd64 m (entry + 64), rd64 m (entry + 72))
             else get_file_loop m handle name (i + 1))
      else Inr (0, 0))"
  by pat_completeness auto
termination
  by (relation "measure (\<lambda>(m, h, name, i). unat (rd32 m (header h + 8)) - unat i)") (auto simp: inc_decreases)

declare get_file_loop.simps [simp del]

definition ramfs_get_file :: "memory \<Rightarrow> ramfs_handle_t \<Rightarrow> u64 \<Rightarrow> (u64 \<times> u64) outcome" where
  "ramfs_get_file m handle name = get_file_loop m handle name 0"

section \<open>Reading an archive back\<close>

lemma length_header [simp]: "length (header_bytes n) = 16"
  by (simp add: header_bytes_def)

lemma length_name_field [simp]: "length (name_field f) = 64"
  by (simp add: name_field_def)

lemma length_entry [simp]: "length (entry_bytes f off buf) = 84"
  by (simp add: entry_bytes_def)

lemma image_slice:
  "bytes_at m b (length img) = img \<Longrightarrow> k + n \<le> length img \<Longrightarrow> bytes_at m (b + of_nat k) n = take n (drop k img)"
  using bytes_at_drop [of k "length img" m b] bytes_at_take [of n "length img - k" m "b + of_nat k"] by simp

lemma low_canonical: "unat b + k < 2 ^ 56 \<Longrightarrow> ptr_is_canonical (b + of_nat k)"
  by (simp add: canonical_iff unat_offset)

lemma cstr_from_bytes:
  assumes "bytes_at m p (length xs + 1) = xs @ [0]" and "0 \<notin> set xs" and "unat p + length xs < 2 ^ 56"
  shows "cstr_at m p xs"
proof -
  have "bytes_at m p (length xs) = xs"
    using arg_cong [OF assms(1), of "take (length xs)"] by (simp add: bytes_at_take)
  moreover have "m (p + of_nat (length xs)) = 0"
    using arg_cong [OF assms(1), of "\<lambda>l. l ! length xs"] by (simp add: bytes_at_def nth_append)
  ultimately show ?thesis using assms(2,3) by (simp add: cstr_at_def low_canonical)
qed

lemma one_char_cstr:
  assumes "bytes_at m p 2 = [c, 0]" and "c \<noteq> 0" and "unat p + 1 < 2 ^ 56"
  shows "cstr_at m p [c]"
proof (rule cstr_from_bytes)
  show "bytes_at m p (length [c] + 1) = [c] @ [0]" using assms(1) by (simp only: list.size append.simps One_nat_def [symmetric] one_add_one add_0)
qed (use assms in simp_all)

lemma name_field_cstr:
  assumes "bytes_at m p 64 = name_field xs" and "0 \<notin> set xs" and "length xs \<le> 63" and "unat p + 64 < 2 ^ 56"
  shows "cstr_at m p xs"
proof (rule cstr_from_bytes)
  have "take (length xs + 1) (name_field xs) = xs @ [0]"
    using assms(3) by (simp add: name_field_def Suc_diff_le)
  then show "bytes_at m p (length xs + 1) = xs @ [0]"
    using assms(1,3) bytes_at_take [of "length xs + 1" 64 m p] by simp
qed (use assms in simp_all)

lemma strcmp_cstr:
  "s1 \<noteq> 0 \<Longrightarrow> s2 \<noteq> 0 \<Longrightarrow> cstr_at m s1 xs \<Longrightarrow> cstr_at m s2 ys \<Longrightarrow> strcmp s1 s2 m = Inr (str_order xs ys)"
  using strcmp_loop_spec [of m s1 0 xs s2 ys] by (simp add: strcmp_def)

text \<open>The fields of the first entry, as the kernel reads them.\<close>

lemma first_entry:
  assumes img: "bytes_at m b (length img) = img" and "img = header_bytes n @ entry_bytes f off buf @ rest"
    and b: "b \<noteq> 0" "unat b + length img < 2 ^ 56" and f: "0 \<notin> set f" "length f \<le> 63"
    and sz: "off < 2 ^ 64" "length buf < 2 ^ 64" "n < 2 ^ 32"
  shows "rd32 m (b + 8) = of_nat n" "cstr_at m (b + 16) f" "b + 16 \<noteq> 0"
    "rd64 m (b + 16 + 64) = of_nat off" "rd64 m (b + 16 + 72) = of_nat (length buf)"
proof -
  have len: "length img \<ge> 100" using assms(2) by simp
  note sl = image_slice [OF img]
  have s: "bytes_at m (b + 8) 4 = le_bytes 4 n" "bytes_at m (b + 16) 64 = name_field f"
    "bytes_at m (b + 80) 8 = le_bytes 8 off" "bytes_at m (b + 88) 8 = le_bytes 8 (length buf)"
    using sl [of 8 4] sl [of 16 64] sl [of 80 8] sl [of 88 8] len
    by (simp_all add: assms(2) header_bytes_def entry_bytes_def del: le_bytes_numeral)
  have "unat (of_nat n :: u32) = n" "unat (of_nat off :: u64) = off" "unat (of_nat (length buf) :: u64) = length buf"
    using sz by (simp_all add: unat_of_nat)
  then show "rd32 m (b + 8) = of_nat n" "rd64 m (b + 16 + 64) = of_nat off"
    "rd64 m (b + 16 + 72) = of_nat (length buf)"
    using s by (auto intro!: rd_encoded simp del: le_bytes_numeral simp: add.assoc)
  have u: "unat (b + of_nat 16) = unat b + 16" using b(2) len by (intro unat_offset) simp
  then show "cstr_at m (b + 16) f" using s(2) f b(2) len by (intro name_field_cstr) simp_all
  show "b + 16 \<noteq> 0" using u by auto
qed

section \<open>Properties\<close>

text \<open>
  C9. The table-driven checksum of the packer is the CRC-32 defined bit by bit with the reflected
  polynomial \<open>0xEDB88320\<close>, and the table written out in the source is the one \<^verbatim>\<open>crc32_fill\<close> computes.
\<close>

theorem crc32_table_driven:
  "crc32_byte (crc32_fill table) bs = crc32_bitwise 0xFFFFFFFF bs XOR 0xFFFFFFFF \<and>
   crc32_fill table = poly8_lookup"
proof
  show "crc32_byte (crc32_fill table) bs = crc32_bitwise 0xFFFFFFFF bs XOR 0xFFFFFFFF"
    by (simp only: crc32_byte_def crc32_loop_bitwise)
  show "crc32_fill table = poly8_lookup"
    using table_rows_correct [of 8] table_literal by (simp add: crc32_fill_def del: upt_rec_numeral)
qed

text \<open>
  An archive of one file, loaded anywhere in the lower canonical half, is read back: the kernel
  finds the file under the last component of its path, with its size and its bytes, and reports every
  other name as missing.
\<close>

theorem ramfs_single_file:
  assumes "mkramfs [(path, Some buf)] = Some img" and "bytes_at m b (length img) = img"
    and "b \<noteq> 0" and "unat b + length img < 2 ^ 56"
    and "0 \<notin> set (base_name path)" and "length (base_name path) \<le> 63"
    and "nm \<noteq> 0" and "cstr_at m nm name"
  shows "if name = base_name path
    then ramfs_get_file m (ramfs_init b) nm = Inr (b + 100, of_nat (length buf)) \<and>
      bytes_at m (b + 100) (length buf) = buf
    else ramfs_get_file m (ramfs_init b) nm = Inr (0, 0)"
proof -
  have img: "img = header_bytes 1 @ entry_bytes (base_name path) 100 buf @ buf"
    using assms(1) by (simp add: mkramfs_def)
  have sz: "(100::nat) < 2 ^ 64" "length buf < 2 ^ 64" "(1::nat) < 2 ^ 32" using assms(4) img by simp_all
  note e = first_entry [OF assms(2) img assms(3-6) sz]
  have cmp: "strcmp (b + 16) nm m = Inr (str_order (base_name path) name)"
    using e assms(7,8) by (intro strcmp_cstr)
  have zero: "str_order (base_name path) name = 0 \<longleftrightarrow> base_name path = name"
    using assms(5,8) by (intro str_order_zero) (simp_all add: cstr_at_def)
  have data: "bytes_at m (b + 100) (length buf) = buf"
    using image_slice [OF assms(2), of 100 "length buf"] by (simp add: img)
  have last: "get_file_loop m (ramfs_init b) nm 1 = Inr (0, 0)"
    using e(1) by (subst get_file_loop.simps) (simp add: ramfs_init_def)
  have step: "get_file_loop m (ramfs_init b) nm 0 =
      (if base_name path = name then Inr (b + 100, of_nat (length buf))
       else get_file_loop m (ramfs_init b) nm 1)"
    using e cmp zero by (subst get_file_loop.simps) (simp add: ramfs_init_def)
  show ?thesis
    using data last by (simp add: ramfs_get_file_def step eq_commute [of name])
qed

lemma demo_image:
  "mkramfs [([47, 97], Some [7, 8])] =
     Some (header_bytes 1 @ entry_bytes [97] 100 [7, 8] @ [7, 8])"
  by (simp add: mkramfs_def base_name_def)

theorem ramfs_single_file_witness:
  "ramfs_get_file (mem_of 0x1000 (header_bytes 1 @ entry_bytes [97] 100 [7, 8] @ [7, 8] @ [97, 0]))
     (ramfs_init 0x1000) 0x1066 = Inr (0x1064, 2)"
proof -
  let ?img = "header_bytes 1 @ entry_bytes [97] 100 [7, 8] @ [7, 8]"
  let ?m = "mem_of 0x1000 (?img @ [97, 0])"
  have l: "length ?img = 102" by simp
  have img: "bytes_at ?m 0x1000 (length ?img) = ?img"
    using mem_of_bytes [of 0 "length ?img" "?img @ [97, 0]" "0x1000"] by simp
  have "bytes_at ?m (0x1000 + of_nat 102) 2 = [97, 0]"
    using mem_of_bytes [of 102 2 "?img @ [97, 0]" "0x1000"] by simp
  then have nm: "cstr_at ?m 0x1066 [97]" by (intro one_char_cstr) simp_all
  have "base_name [47, 97] = [97]" by (simp add: base_name_def)
  then show ?thesis
    using ramfs_single_file [OF demo_image img _ _ _ _ _ nm] l by simp
qed



end
