(* ===== verification/Registry.thy ===== *)
theory Registry
  imports Prelude
begin

text \<open>
  The device registry (\<^verbatim>\<open>src/devices/registry.c\<close>): an array of 512 entries kept in the order of the
  identifiers, searched by bisection. A device pointer is its address, the null pointer is 0. The
  indices of the search are C \<open>int\<close>s below 512, so they are modelled by \<open>int\<close> without a wrap.
\<close>

section \<open>State\<close>

datatype device_type_t = CHAR_DEV | DISK_DEV | USB_DEV | NET_DEV | AUDIO_DEV | POWER_DEV | EXTMEM_DEV | USB_BUS_DEV

record device_registry_entry_t =
  dev_id :: u32
  dev_type :: device_type_t
  dev_ptr :: u64

record registry_state =
  registry :: "device_registry_entry_t list"
  registry_count :: nat
  next_device_id :: u32

definition registry_start :: registry_state where
  "registry_start = \<lparr>registry = replicate 512 \<lparr>dev_id = 0, dev_type = CHAR_DEV, dev_ptr = 0\<rparr>, registry_count = 0, next_device_id = 1\<rparr>"

section \<open>Operations\<close>

function find_loop :: "device_registry_entry_t list \<Rightarrow> u32 \<Rightarrow> int \<Rightarrow> int \<Rightarrow> u64" where
  "find_loop reg did low high =
     (if \<not> low \<le> high then 0
      else
        let mid = low + (high - low) div 2;
            e = reg ! nat mid in
        if dev_id e = did then dev_ptr e
        else if dev_id e < did then find_loop reg did (mid + 1) high
        else find_loop reg did low (mid - 1))"
  by pat_completeness auto

termination
  by (relation "measure (\<lambda>(reg, did, low, high). nat (high - low + 1))") auto

declare find_loop.simps [simp del]

definition device_find :: "u32 \<Rightarrow> registry_state \<Rightarrow> u64" where
  "device_find did st = find_loop (registry st) did 0 (int (registry_count st) - 1)"

fun find_first_loop :: "nat \<Rightarrow> nat \<Rightarrow> device_type_t \<Rightarrow> device_registry_entry_t list \<Rightarrow> u64" where
  "find_first_loop 0 i type reg = 0"
| "find_first_loop (Suc k) i type reg =
     (if dev_type (reg ! i) = type then dev_ptr (reg ! i) else find_first_loop k (Suc i) type reg)"

definition device_find_first :: "device_type_t \<Rightarrow> registry_state \<Rightarrow> u64" where
  "device_find_first type st = find_first_loop (registry_count st) 0 type (registry st)"

fun shift_loop :: "nat \<Rightarrow> u32 \<Rightarrow> device_registry_entry_t list \<Rightarrow> nat \<times> device_registry_entry_t list" where
  "shift_loop 0 did reg = (0, reg)"
| "shift_loop (Suc i) did reg =
     (if did < dev_id (reg ! i) then shift_loop i did (reg[Suc i := reg ! i]) else (Suc i, reg))"

definition device_register :: "device_type_t \<Rightarrow> u64 \<Rightarrow> registry_state \<Rightarrow> (registry_state \<times> u32) outcome" where
  "device_register type ptr st =
     (let did = next_device_id st;
          st = st\<lparr>next_device_id := did + 1\<rparr> in
      if 512 \<le> registry_count st then Inl (Panic ''DEVICE REGISTRY'' ''OUT OF MEMORY TO STORE NEW DEVICE'S'')
      else case shift_loop (registry_count st) did (registry st) of
        (i, reg) \<Rightarrow> Inr (st\<lparr>registry := reg[i := \<lparr>dev_id = did, dev_type = type, dev_ptr = ptr\<rparr>],
                           registry_count := registry_count st + 1\<rparr>, did))"

section \<open>Bisection\<close>

text \<open>The entries in use are in the strict order of their identifiers.\<close>

definition id_sorted :: "nat \<Rightarrow> device_registry_entry_t list \<Rightarrow> bool" where
  "id_sorted n reg \<longleftrightarrow> (\<forall>i j. i < j \<and> j < n \<longrightarrow> dev_id (reg ! i) < dev_id (reg ! j))"

lemma find_loop_hit:
  "id_sorted n reg \<Longrightarrow> k < n \<Longrightarrow> dev_id (reg ! k) = did \<Longrightarrow> 0 \<le> low \<Longrightarrow> high < int n \<Longrightarrow> low \<le> int k \<Longrightarrow> int k \<le> high \<Longrightarrow>
     find_loop reg did low high = dev_ptr (reg ! k)"
proof (induction reg did low high rule: find_loop.induct)
  case (1 reg did low high)
  define mid where "mid = low + (high - low) div 2"
  have m: "low \<le> mid" "mid \<le> high" "low \<le> high" using "1.prems"(6,7) by (auto simp: mid_def)
  have lt: "dev_id (reg ! i) < dev_id (reg ! j)" if "i < j" "j < n" for i j using "1.prems"(1) that by (simp add: id_sorted_def)
  have unfold: "find_loop reg did low high = (if dev_id (reg ! nat mid) = did then dev_ptr (reg ! nat mid)
      else if dev_id (reg ! nat mid) < did then find_loop reg did (mid + 1) high else find_loop reg did low (mid - 1))"
    using m(3) by (subst find_loop.simps) (simp add: Let_def mid_def)
  consider "nat mid = k" | "nat mid < k" | "k < nat mid" by linarith
  then show ?case
  proof cases
    case 1
    then show ?thesis using unfold "1.prems"(3) by simp
  next
    case 2
    then have d: "dev_id (reg ! nat mid) < did" using lt [OF 2 "1.prems"(2)] "1.prems"(3) by simp
    moreover have "find_loop reg did (mid + 1) high = dev_ptr (reg ! k)"
      using d m 2 "1.prems" by (intro "1.IH"(1)) (auto simp: mid_def)
    ultimately show ?thesis using unfold by auto
  next
    case 3
    then have d: "did < dev_id (reg ! nat mid)" using lt [OF 3] "1.prems"(3,4,5) m by auto
    moreover have "find_loop reg did low (mid - 1) = dev_ptr (reg ! k)"
      using d m 3 "1.prems" by (intro "1.IH"(2)) (auto simp: mid_def)
    ultimately show ?thesis using unfold by auto
  qed
qed

lemma find_loop_miss:
  "(\<And>k. k < n \<Longrightarrow> dev_id (reg ! k) \<noteq> did) \<Longrightarrow> 0 \<le> low \<Longrightarrow> high < int n \<Longrightarrow> find_loop reg did low high = 0"
proof (induction reg did low high rule: find_loop.induct)
  case (1 reg did low high)
  define mid where "mid = low + (high - low) div 2"
  show ?case
  proof (cases "low \<le> high")
    case True
    then have m: "low \<le> mid" "mid \<le> high" by (auto simp: mid_def)
    then have "dev_id (reg ! nat mid) \<noteq> did" using "1.prems" by simp
    moreover have "dev_id (reg ! nat mid) < did \<Longrightarrow> find_loop reg did (mid + 1) high = 0"
      using True m "1.prems" calculation by (intro "1.IH"(1)) (auto simp: mid_def)
    moreover have "\<not> dev_id (reg ! nat mid) < did \<Longrightarrow> find_loop reg did low (mid - 1) = 0"
      using True m "1.prems" calculation(1) by (intro "1.IH"(2)) (auto simp: mid_def)
    ultimately show ?thesis using True by (subst find_loop.simps) (simp add: Let_def mid_def)
  qed (subst find_loop.simps, simp)
qed

section \<open>The interface\<close>

text \<open>
  What the drivers and their clients rely on: a fresh identifier stands for the registered device and
  no other identifier changes its meaning.
\<close>

fun register_all :: "(device_type_t \<Rightarrow> u64 \<Rightarrow> 's \<Rightarrow> ('s \<times> u32) outcome) \<Rightarrow> (device_type_t \<times> u64) list \<Rightarrow> 's \<Rightarrow> ('s \<times> u32 list) outcome" where
  "register_all reg [] s = Inr (s, [])"
| "register_all reg ((ty, p) # ds) s =
     and_then (reg ty p s) (\<lambda>(s, i). and_then (register_all reg ds s) (\<lambda>(s, is). Inr (s, i # is)))"

locale device_store =
  fixes inv :: "'s \<Rightarrow> bool" and find :: "u32 \<Rightarrow> 's \<Rightarrow> u64" and reg :: "device_type_t \<Rightarrow> u64 \<Rightarrow> 's \<Rightarrow> ('s \<times> u32) outcome"
    and room :: "'s \<Rightarrow> nat"
  assumes reg_inv: "inv s \<Longrightarrow> reg ty p s = Inr (s', i) \<Longrightarrow> inv s'"
    and reg_find: "inv s \<Longrightarrow> reg ty p s = Inr (s', i) \<Longrightarrow> find i s' = p"
    and reg_keep: "inv s \<Longrightarrow> reg ty p s = Inr (s', i) \<Longrightarrow> j \<noteq> i \<Longrightarrow> find j s' = find j s"
    and reg_fresh: "inv s \<Longrightarrow> reg ty p s = Inr (s', i) \<Longrightarrow> find i s = 0"
    and reg_room: "inv s \<Longrightarrow> 0 < room s \<Longrightarrow> \<exists>s' i. reg ty p s = Inr (s', i) \<and> room s = Suc (room s')"
begin

lemma reg_all_keep:
  "inv s \<Longrightarrow> register_all reg ds s = Inr (s', is) \<Longrightarrow> find j s \<noteq> 0 \<Longrightarrow> find j s' = find j s"
proof (induction ds arbitrary: s "is")
  case (Cons d ds)
  obtain ty p where d: "d = (ty, p)" by force
  obtain s1 i where r: "reg ty p s = Inr (s1, i)" using Cons.prems(2) d by (auto simp: and_then_eq_Inr)
  then obtain is' where a: "register_all reg ds s1 = Inr (s', is')" using Cons.prems(2) d by (auto simp: and_then_eq_Inr)
  have "j \<noteq> i" using reg_fresh [OF Cons.prems(1) r] Cons.prems(3) by auto
  then show ?case
    using Cons.IH [OF reg_inv [OF Cons.prems(1) r] a] reg_keep [OF Cons.prems(1) r] Cons.prems(3) by metis
qed simp

lemma reg_all_room: "inv s \<Longrightarrow> length ds \<le> room s \<Longrightarrow> \<exists>s' is. register_all reg ds s = Inr (s', is)"
proof (induction ds arbitrary: s)
  case (Cons d ds)
  obtain ty p where d: "d = (ty, p)" by force
  obtain s1 i where r: "reg ty p s = Inr (s1, i)" "room s = Suc (room s1)" using reg_room [OF Cons.prems(1)] Cons.prems(2) by fastforce
  then show ?case using Cons.IH [OF reg_inv [OF Cons.prems(1) r(1)]] Cons.prems(2) d by auto
qed simp

lemma reg_all_find:
  "inv s \<Longrightarrow> register_all reg ds s = Inr (s', is) \<Longrightarrow> \<forall>(ty, p) \<in> set ds. p \<noteq> 0 \<Longrightarrow> map (\<lambda>i. find i s') is = map snd ds"
proof (induction ds arbitrary: s "is")
  case (Cons d ds)
  obtain ty p where d: "d = (ty, p)" by force
  obtain s1 i where r: "reg ty p s = Inr (s1, i)" using Cons.prems(2) d by (auto simp: and_then_eq_Inr)
  then obtain is' where a: "register_all reg ds s1 = Inr (s', is')" "is = i # is'" using Cons.prems(2) d by (auto simp: and_then_eq_Inr)
  note inv1 = reg_inv [OF Cons.prems(1) r]
  have "find i s1 = p" "p \<noteq> 0" using reg_find [OF Cons.prems(1) r] Cons.prems(3) d by auto
  then have "find i s' = p" using reg_all_keep [OF inv1 a(1), of i] by simp
  then show ?case using Cons.IH [OF inv1 a(1)] Cons.prems(3) a(2) d by simp
qed simp

end

section \<open>The registry provides it\<close>

text \<open>The device registered as the \<open>k\<close>-th has the identifier \<open>k\<close>.\<close>

definition registry_inv :: "registry_state \<Rightarrow> bool" where
  "registry_inv st \<longleftrightarrow> length (registry st) = 512 \<and> registry_count st \<le> 512 \<and>
     next_device_id st = of_nat (registry_count st + 1) \<and>
     (\<forall>i<registry_count st. dev_id (registry st ! i) = of_nat (i + 1))"

lemma of_nat_u32_less: "i < j \<Longrightarrow> j < 1000 \<Longrightarrow> (of_nat i :: u32) < of_nat j"
  by (simp add: word_less_nat_alt unat_of_nat_small)

lemma registry_sorted: "registry_inv st \<Longrightarrow> id_sorted (registry_count st) (registry st)"
  unfolding id_sorted_def registry_inv_def by (auto intro: of_nat_u32_less simp del: of_nat_add of_nat_Suc)

lemma device_find_entry:
  assumes "registry_inv st"
  shows "device_find did st =
    (if 0 < unat did \<and> unat did \<le> registry_count st then dev_ptr (registry st ! (unat did - 1)) else 0)"
proof (cases "0 < unat did \<and> unat did \<le> registry_count st")
  case True
  obtain k where k: "unat did - 1 = k" "k < registry_count st" using True by auto
  then have "did = of_nat (k + 1)" using True by (metis Suc_eq_plus1 Suc_pred' of_nat_unat_id)
  then have "dev_id (registry st ! k) = did" using assms k(2) by (simp add: registry_inv_def del: of_nat_add)
  then have "find_loop (registry st) did 0 (int (registry_count st) - 1) = dev_ptr (registry st ! k)"
    using k(2) by (intro find_loop_hit [OF registry_sorted [OF assms]]) auto
  then show ?thesis using True k(1) by (simp add: device_find_def)
next
  case False
  have "dev_id (registry st ! k) \<noteq> did" if "k < registry_count st" for k
  proof
    assume "dev_id (registry st ! k) = did"
    then have "did = of_nat (k + 1)" using assms that by (simp add: registry_inv_def)
    moreover have "k + 1 < 2 ^ LENGTH(32)" using assms that by (simp add: registry_inv_def)
    ultimately have "unat did = k + 1" by (simp only: unat_of_nat_small)
    then show False using False that by simp
  qed
  then show ?thesis using find_loop_miss [of "registry_count st"] False by (auto simp: device_find_def)
qed

lemma device_register_append:
  assumes "registry_inv st"
  shows "device_register ty p st =
    (if registry_count st = 512 then Inl (Panic ''DEVICE REGISTRY'' ''OUT OF MEMORY TO STORE NEW DEVICE'S'')
     else Inr (\<lparr>registry = (registry st)[registry_count st := \<lparr>dev_id = of_nat (registry_count st + 1), dev_type = ty, dev_ptr = p\<rparr>],
       registry_count = registry_count st + 1, next_device_id = of_nat (registry_count st + 2)\<rparr>, of_nat (registry_count st + 1)))"
proof -
  let ?n = "registry_count st"
  have "shift_loop ?n (of_nat (?n + 1)) (registry st) = (?n, registry st)"
  proof (cases ?n)
    case (Suc m)
    then have "dev_id (registry st ! m) = of_nat (m + 1)" "m < 512" using assms by (simp_all add: registry_inv_def)
    moreover have "\<not> (of_nat (Suc m + 1) :: u32) < of_nat (m + 1)" if "m < 512"
      using that of_nat_u32_less [of "m + 1" "Suc m + 1"] by (simp del: of_nat_add of_nat_Suc)
    ultimately show ?thesis using Suc by (simp del: of_nat_add of_nat_Suc)
  qed simp
  then show ?thesis using assms by (auto simp: device_register_def Let_def registry_inv_def add.commute)
qed

lemma registry_append_inv:
  assumes "registry_inv st" "device_register ty p st = Inr (st', did)"
  shows "registry_inv st'"
  using assms by (auto simp: device_register_append registry_inv_def nth_list_update less_Suc_eq add.commute split: if_splits)

lemma registry_append_find:
  assumes inv: "registry_inv st" and r: "device_register ty p st = Inr (st', did)"
  shows "device_find j st' = (if j = did then p else device_find j st)" "device_find did st = 0"
proof -
  let ?n = "registry_count st"
  have n: "?n < 512" "length (registry st) = 512" using inv r by (auto simp: device_register_append registry_inv_def split: if_splits)
  have i: "did = of_nat (?n + 1)" using inv r by (auto simp: device_register_append split: if_splits)
  then have u: "unat did = ?n + 1" using n(1) by (simp add: unat_of_nat_small del: of_nat_add of_nat_Suc)
  have j: "j = did \<longleftrightarrow> unat j = ?n + 1" using u by (metis word_unat_eq_iff)
  have s: "registry st' = (registry st)[?n := \<lparr>dev_id = did, dev_type = ty, dev_ptr = p\<rparr>]" "registry_count st' = ?n + 1"
    using inv r i by (auto simp: device_register_append split: if_splits)
  show "device_find j st' = (if j = did then p else device_find j st)"
    using n by (auto simp: device_find_entry [OF inv] device_find_entry [OF registry_append_inv [OF inv r]] j s nth_list_update)
  show "device_find did st = 0" by (simp add: device_find_entry [OF inv] u)
qed

interpretation dr: device_store registry_inv device_find device_register "\<lambda>st. 512 - registry_count st"
proof
  fix s ty p s' i j
  assume a: "registry_inv s" "device_register ty p s = Inr (s', i)"
  show "registry_inv s'" by (rule registry_append_inv [OF a])
  show "device_find i s' = p" using registry_append_find(1) [OF a] by simp
  show "device_find i s = 0" by (rule registry_append_find(2) [OF a])
  show "device_find j s' = device_find j s" if "j \<noteq> i" using registry_append_find(1) [OF a] that by simp
next
  fix s ty p
  assume "registry_inv s" "0 < 512 - registry_count s"
  then show "\<exists>s' i. device_register ty p s = Inr (s', i) \<and> 512 - registry_count s = Suc (512 - registry_count s')"
    by (auto simp: device_register_append)
qed

lemma registry_start_inv: "registry_inv registry_start"
  by (simp add: registry_inv_def registry_start_def)

section \<open>Properties\<close>

text \<open>
  On a registry in the strict order of its identifiers the bisection of \<open>device_find\<close> returns what
  a linear scan returns: the pointer of the entry with the identifier, or null.
\<close>

theorem device_find_bisects:
  assumes "id_sorted (registry_count st) (registry st)" and "registry_count st \<le> length (registry st)"
  shows "device_find did st =
    (case find (\<lambda>e. dev_id e = did) (take (registry_count st) (registry st)) of None \<Rightarrow> 0 | Some e \<Rightarrow> dev_ptr e)"
proof (cases "\<exists>k<registry_count st. dev_id (registry st ! k) = did")
  case True
  then obtain k where k: "k < registry_count st" "dev_id (registry st ! k) = did" by blast
  have "dev_id (registry st ! j) \<noteq> did" if "j < k" for j
    using assms(1) that k by (metis id_sorted_def less_irrefl)
  then have "find (\<lambda>e. dev_id e = did) (take (registry_count st) (registry st)) = Some (registry st ! k)"
    using k assms(2) by (auto simp: find_Some_iff intro!: exI [of _ k])
  then show ?thesis
    using find_loop_hit [OF assms(1) k, of 0 "int (registry_count st) - 1"] k(1) by (simp add: device_find_def)
next
  case False
  then have "find (\<lambda>e. dev_id e = did) (take (registry_count st) (registry st)) = None"
    using assms(2) by (auto simp: find_None_iff in_set_conv_nth)
  then show ?thesis using find_loop_miss [of "registry_count st"] False by (simp add: device_find_def)
qed

theorem device_find_bisects_witness:
  "device_find 5 \<lparr>registry = map (\<lambda>i. \<lparr>dev_id = of_nat (2 * i + 1), dev_type = NET_DEV, dev_ptr = of_nat (100 * i)\<rparr>) [0..<4],
     registry_count = 4, next_device_id = 9\<rparr> = 200"
proof -
  let ?st = "\<lparr>registry = map (\<lambda>i. \<lparr>dev_id = of_nat (2 * i + 1), dev_type = NET_DEV, dev_ptr = of_nat (100 * i)\<rparr>) [0..<4],
     registry_count = 4, next_device_id = 9\<rparr> :: registry_state"
  have "id_sorted (registry_count ?st) (registry ?st)"
    unfolding id_sorted_def by (auto intro!: of_nat_u32_less simp del: of_nat_add of_nat_mult of_nat_Suc)
  then show ?thesis using device_find_bisects [of ?st 5] by (simp add: upt_rec)
qed

text \<open>
  From boot, any sequence of at most 512 registrations succeeds; afterwards every identifier handed
  out finds the device registered under it.
\<close>

theorem device_registry_roundtrip:
  assumes "length ds \<le> 512" and "\<forall>(ty, p) \<in> set ds. p \<noteq> 0"
  shows "\<exists>st is. register_all device_register ds registry_start = Inr (st, is) \<and> map (\<lambda>i. device_find i st) is = map snd ds"
proof -
  have "length ds \<le> 512 - registry_count registry_start" using assms(1) by (simp add: registry_start_def)
  then obtain st "is" where "register_all device_register ds registry_start = Inr (st, is)"
    using dr.reg_all_room [OF registry_start_inv] by blast
  then show ?thesis using dr.reg_all_find [OF registry_start_inv _ assms(2)] by blast
qed

theorem device_registry_roundtrip_witness:
  "\<exists>st is. register_all device_register [(DISK_DEV, 0x1000), (NET_DEV, 0x2000)] registry_start = Inr (st, is) \<and>
     map (\<lambda>i. device_find i st) is = [0x1000, 0x2000]"
  using device_registry_roundtrip [of "[(DISK_DEV, 0x1000), (NET_DEV, 0x2000)]"] by simp

end
