(* ===== verification/Bitmap.thy ===== *)
theory Bitmap
  imports Prelude
begin

text \<open>
  The bit maps of \<^verbatim>\<open>src/datatype/bitmap.h\<close> and \<^verbatim>\<open>bitmap.c\<close>: an array of bytes, bit \<open>i\<close> in byte
  \<open>i div 8\<close>. The array is a list of bytes; the callers keep the bit number below eight times its
  length, and the lemmas say so where it matters.
\<close>

section \<open>Operations\<close>

definition BITMAP_SET :: "u8 list \<Rightarrow> nat \<Rightarrow> u8 list" where
  "BITMAP_SET bm b = bm[b div 8 := (bm ! (b div 8)) OR push_bit (b mod 8) 1]"

definition BITMAP_CLEAR :: "u8 list \<Rightarrow> nat \<Rightarrow> u8 list" where
  "BITMAP_CLEAR bm b = bm[b div 8 := (bm ! (b div 8)) AND NOT (push_bit (b mod 8) 1)]"

definition BITMAP_TEST :: "u8 list \<Rightarrow> nat \<Rightarrow> bool" where
  "BITMAP_TEST bm b = (drop_bit (b mod 8) (bm ! (b div 8)) AND 1 \<noteq> 0)"

function bitmap_find_next_free :: "u8 list \<Rightarrow> u64 \<Rightarrow> u64 \<Rightarrow> u64" where
  "bitmap_find_next_free bm i total_bits =
     (if i < total_bits then
        (if \<not> BITMAP_TEST bm (unat i) then i else bitmap_find_next_free bm (i + 1) total_bits)
      else - 1)"
  by pat_completeness auto
termination
  by (relation "measure (\<lambda>(bm, i, t). unat t - unat i)") (auto simp: inc_decreases)

declare bitmap_find_next_free.simps [simp del]

section \<open>The map as a set of bits\<close>

lemma test_bit: "BITMAP_TEST bm b \<longleftrightarrow> bit (bm ! (b div 8)) (b mod 8)"
  by (simp add: BITMAP_TEST_def and_one_eq bit_iff_odd_drop_bit odd_iff_mod_2_eq_one)

lemma length_set [simp]: "length (BITMAP_SET bm b) = length bm"
  by (simp add: BITMAP_SET_def)

lemma length_clear [simp]: "length (BITMAP_CLEAR bm b) = length bm"
  by (simp add: BITMAP_CLEAR_def)

lemma bit_index: "a div 8 = b div 8 \<Longrightarrow> a mod 8 = b mod 8 \<Longrightarrow> a = (b :: nat)"
  by (metis div_mult_mod_eq)

lemma byte_index: "b < 8 * n \<Longrightarrow> b div 8 < (n :: nat)"
  by (simp add: less_mult_imp_div_less mult.commute)

lemma bit_one_u8: "bit (2 ^ (b mod 8) :: u8) j \<longleftrightarrow> j = b mod 8"
  by (auto simp: bit_simps)

lemma test_set [simp]:
  "b < 8 * length bm \<Longrightarrow> BITMAP_TEST (BITMAP_SET bm b) a \<longleftrightarrow> a = b \<or> BITMAP_TEST bm a"
  using bit_index [of a b] byte_index [of b]
  by (cases "a div 8 = b div 8") (auto simp: test_bit BITMAP_SET_def bit_or_iff bit_one_u8)

lemma test_clear [simp]:
  "b < 8 * length bm \<Longrightarrow> BITMAP_TEST (BITMAP_CLEAR bm b) a \<longleftrightarrow> a \<noteq> b \<and> BITMAP_TEST bm a"
  using bit_index [of a b] byte_index [of b]
  by (cases "a div 8 = b div 8")
     (auto simp: test_bit BITMAP_CLEAR_def bit_and_iff bit_not_iff bit_one_u8)

lemma find_next_free_spec:
  "(case bitmap_find_next_free bm i t of r \<Rightarrow>
     (i \<le> r \<and> r < t \<and> \<not> BITMAP_TEST bm (unat r) \<and> (\<forall>j. unat i \<le> j \<and> j < unat r \<longrightarrow> BITMAP_TEST bm j)) \<or>
     (r = - 1 \<and> (\<forall>j. unat i \<le> j \<and> j < unat t \<longrightarrow> BITMAP_TEST bm j)))"
proof (induction bm i t rule: bitmap_find_next_free.induct)
  case (1 bm i t)
  show ?case
  proof (cases "i < t \<and> BITMAP_TEST bm (unat i)")
    case True
    then have step: "bitmap_find_next_free bm i t = bitmap_find_next_free bm (i + 1) t"
      and si: "unat (i + 1) = Suc (unat i)"
      by (auto simp: bitmap_find_next_free.simps unat_inc)
    have "unat i \<le> j \<longleftrightarrow> j = unat i \<or> unat (i + 1) \<le> j" for j using si by auto
    then show ?thesis using "1.IH" True unfolding step by (auto simp: word_le_nat_alt si)
  next
    case False
    then show ?thesis
      by (auto simp: bitmap_find_next_free.simps [of bm i t] word_less_nat_alt)
  qed
qed

section \<open>Properties\<close>

text \<open>
  Setting or clearing a bit inside the map changes that bit and no other and keeps the map's size.
\<close>

theorem bitmap_update_spec:
  assumes "b < 8 * length bm"
  shows "(\<forall>a. BITMAP_TEST (BITMAP_SET bm b) a \<longleftrightarrow> a = b \<or> BITMAP_TEST bm a) \<and>
    (\<forall>a. BITMAP_TEST (BITMAP_CLEAR bm b) a \<longleftrightarrow> a \<noteq> b \<and> BITMAP_TEST bm a) \<and>
    length (BITMAP_SET bm b) = length bm \<and> length (BITMAP_CLEAR bm b) = length bm"
  using assms by simp

theorem bitmap_update_spec_witness:
  "BITMAP_TEST (BITMAP_SET [0, 0] 9) 9 \<and> \<not> BITMAP_TEST (BITMAP_CLEAR [255, 255] 9) 9"
  using bitmap_update_spec [of 9 "[0, 0]"] bitmap_update_spec [of 9 "[255, 255]"] by simp

text \<open>
  \<^verbatim>\<open>bitmap_find_next_free\<close> returns the first clear bit at or after the offset and below the
  total, and all ones when there is none.
\<close>

theorem bitmap_find_next_free_least:
  "let r = bitmap_find_next_free bm i t in
     if \<exists>j. unat i \<le> j \<and> j < unat t \<and> \<not> BITMAP_TEST bm j
     then unat r = (LEAST j. unat i \<le> j \<and> j < unat t \<and> \<not> BITMAP_TEST bm j)
     else r = - 1"
proof -
  let ?r = "bitmap_find_next_free bm i t" and ?P = "\<lambda>j. unat i \<le> j \<and> j < unat t \<and> \<not> BITMAP_TEST bm j"
  have "(LEAST j. ?P j) = unat ?r" if "\<exists>j. ?P j"
    using find_next_free_spec [where bm = bm and i = i and t = t] that
    by (intro Least_equality) (auto simp: word_le_nat_alt word_less_nat_alt not_less intro: leI)
  then show ?thesis using find_next_free_spec [where bm = bm and i = i and t = t] by (auto simp: Let_def word_le_nat_alt word_less_nat_alt)
qed

end
