(* ===== verification/Cmm.thy ===== *)
theory Cmm
  imports Prelude
begin

text \<open>
  The memory map of \<^verbatim>\<open>src/mem/cmm.c\<close>: the regions the boot loader reports, copied into a table of
  typed regions that later code can re-type. The table is a list of regions; \<^verbatim>\<open>internal_count\<close> is its
  length. The numeric codes of the boot protocol (\<^verbatim>\<open>limine.h\<close>, not part of the repository) are the
  argument \<open>codes\<close> in the order of the designators of \<^verbatim>\<open>type_lookup\<close>. Whether the kernel heap
  satisfies a request of \<open>n\<close> bytes is the argument \<open>heap_ok n\<close>.
\<close>

section \<open>Data\<close>

datatype cmm_type_t =
  CMM_USABLE | CMM_RESERVED | CMM_ACPI_RECLAIMABLE | CMM_ACPI_NVS | CMM_BOOTLOADER_RECLAIMABLE |
  CMM_KERNEL_EARLY | CMM_KERNEL_AND_MODULES | CMM_FRAMEBUFFER | CMM_RESERVED_MAPPED | CMM_UNKNOWN | CMM_BAD

record cmm_region =
  region_id :: u64
  region_base :: u64
  region_length :: u64
  region_type :: cmm_type_t

record memmap_entry =
  entry_base :: u64
  entry_length :: u64
  entry_type :: u64

record cmm_state =
  internal_map :: "cmm_region list"
  internal_capacity :: u64
  next_id :: u64
  is_heap_backed :: bool
  max_phys_addr :: u64
  max_ram_addr :: u64

text \<open>A null table pointer is written through when the heap is exhausted: \<open>NullTable\<close>.\<close>

datatype cmm_fault = CmmPanic panic | NullTable

definition REGION_BYTES :: u64 where "REGION_BYTES = 32"

definition region_end :: "cmm_region \<Rightarrow> u64" where
  "region_end r = region_base r + region_length r"

section \<open>Initialisation\<close>

definition type_lookup :: "cmm_type_t list" where
  "type_lookup =
     [CMM_USABLE, CMM_RESERVED, CMM_ACPI_RECLAIMABLE, CMM_ACPI_NVS, CMM_BAD, CMM_BOOTLOADER_RECLAIMABLE,
      CMM_KERNEL_AND_MODULES, CMM_FRAMEBUFFER, CMM_RESERVED_MAPPED]"

text \<open>
  The array has one slot more than the largest code; a slot without a designator holds zero, which is
  \<^verbatim>\<open>CMM_USABLE\<close>.
\<close>

definition cmm_translate_limine_type :: "u64 list \<Rightarrow> u64 \<Rightarrow> cmm_type_t" where
  "cmm_translate_limine_type codes limine_type =
     (if list_all (\<lambda>c. c < limine_type) codes then CMM_UNKNOWN
      else case map_of (zip codes type_lookup) limine_type of
             Some t \<Rightarrow> t | None \<Rightarrow> CMM_USABLE)"

definition cmm_carve :: "u64 list \<Rightarrow> u64 \<Rightarrow> memmap_entry list \<Rightarrow> memmap_entry option" where
  "cmm_carve codes bytes_needed es =
     find (\<lambda>e. entry_type e = codes ! 0 \<and> bytes_needed \<le> entry_length e) es"

definition note_end :: "cmm_state \<Rightarrow> cmm_state" where
  "note_end st =
     (let r = last (internal_map st); e = region_end r in
      st\<lparr>max_phys_addr := (if max_phys_addr st < e then e else max_phys_addr st),
         max_ram_addr := (if region_type r = CMM_USABLE \<and> max_ram_addr st < e then e else max_ram_addr st)\<rparr>)"

definition cmm_populate :: "u64 list \<Rightarrow> u64 \<Rightarrow> u64 \<Rightarrow> memmap_entry \<Rightarrow> cmm_state \<Rightarrow> cmm_state" where
  "cmm_populate codes map_phys bytes_needed e st =
     (let i = next_id st in
      note_end
       (if entry_base e = map_phys then
          st\<lparr>internal_map := internal_map st @
                [\<lparr>region_id = i, region_base = entry_base e, region_length = bytes_needed, region_type = CMM_KERNEL_EARLY\<rparr>,
                 \<lparr>region_id = i + 1, region_base = entry_base e + bytes_needed,
                  region_length = entry_length e - bytes_needed, region_type = CMM_USABLE\<rparr>],
             next_id := i + 2\<rparr>
        else
          st\<lparr>internal_map := internal_map st @
                [\<lparr>region_id = i, region_base = entry_base e, region_length = entry_length e,
                  region_type = cmm_translate_limine_type codes (entry_type e)\<rparr>],
             next_id := i + 1\<rparr>))"

definition cmm_init :: "u64 list \<Rightarrow> memmap_entry list \<Rightarrow> cmm_fault + cmm_state" where
  "cmm_init codes es =
     (let required_slots = of_nat (length es) * 2;
          bytes_needed = (required_slots * REGION_BYTES + 4095) AND NOT 4095 in
      case cmm_carve codes bytes_needed es of
        None \<Rightarrow> Inl (CmmPanic (Panic ''CMM'' ''failed to carve memory for memmap''))
      | Some c \<Rightarrow>
          Inr (fold (cmm_populate codes (entry_base c) bytes_needed) es
                 \<lparr>internal_map = [], internal_capacity = required_slots, next_id = 1,
                  is_heap_backed = False, max_phys_addr = 0, max_ram_addr = 0\<rparr>))"

definition cmm_migrate_to_heap :: "(u64 \<Rightarrow> bool) \<Rightarrow> cmm_state \<Rightarrow> cmm_fault + cmm_state" where
  "cmm_migrate_to_heap heap_ok st =
     (if is_heap_backed st then Inr st
      else
        let new_capacity = internal_capacity st * 2 in
        if \<not> heap_ok (new_capacity * REGION_BYTES)
        then Inl (CmmPanic (Panic ''MEMORY'' ''memcpy dest is null''))
        else Inr (st\<lparr>internal_capacity := new_capacity, is_heap_backed := True,
                     internal_map := map (\<lambda>r. if region_type r = CMM_KERNEL_EARLY
                                              then r\<lparr>region_type := CMM_USABLE\<rparr> else r) (internal_map st)\<rparr>))"

section \<open>Re-typing a range\<close>

definition cmm_ensure_capacity :: "(u64 \<Rightarrow> bool) \<Rightarrow> u64 \<Rightarrow> u64 \<Rightarrow> cmm_fault + u64" where
  "cmm_ensure_capacity heap_ok needed_count capacity =
     (if needed_count \<le> capacity then Inr capacity
      else let new_capacity = capacity * 2 in
           if heap_ok (new_capacity * REGION_BYTES) then Inr new_capacity else Inl NullTable)"

text \<open>The pieces a partly covered region is cut into, with the next unused identifier.\<close>

definition cut_region :: "u64 \<Rightarrow> u64 \<Rightarrow> cmm_type_t \<Rightarrow> u64 \<Rightarrow> cmm_region \<Rightarrow> cmm_region list \<times> u64" where
  "cut_region target_base target_end new_type i r =
     (let before = (if region_base r < target_base
            then [\<lparr>region_id = i, region_base = region_base r,
                   region_length = target_base - region_base r, region_type = region_type r\<rparr>] else []);
          i1 = i + of_nat (length before);
          chunk_end = (if target_end < region_end r then target_end else region_end r);
          chunk = \<lparr>region_id = i1, region_base = target_base,
                   region_length = chunk_end - target_base, region_type = new_type\<rparr>;
          rest = (if target_end < region_end r
            then [\<lparr>region_id = i1 + 1, region_base = target_end,
                   region_length = region_end r - target_end, region_type = region_type r\<rparr>] else []) in
      (before @ [chunk] @ rest, i1 + 1 + of_nat (length rest)))"

text \<open>
  The loop of \<^verbatim>\<open>cmm_insert_region\<close> over the regions not visited yet: \<open>k\<close> is the current
  \<^verbatim>\<open>internal_count\<close>. The \<^verbatim>\<open>memmove\<close> that makes room for the pieces is the append.
\<close>

fun insert_loop ::
  "(u64 \<Rightarrow> bool) \<Rightarrow> u64 \<Rightarrow> cmm_type_t \<Rightarrow> u64 \<Rightarrow> u64 \<Rightarrow> u64 \<Rightarrow> u64 \<Rightarrow> cmm_region list
     \<Rightarrow> cmm_fault + (cmm_region list \<times> u64 \<times> u64)"
where
  "insert_loop heap_ok target_end new_type target_base k capacity i [] = Inr ([], capacity, i)"
| "insert_loop heap_ok target_end new_type target_base k capacity i (r # rs) =
     (if \<not> target_base < target_end then Inr (r # rs, capacity, i)
      else if target_base < region_end r \<and> region_base r < target_end then
        (if target_base \<le> region_base r \<and> region_end r \<le> target_end then
           and_then (insert_loop heap_ok target_end new_type target_base k capacity i rs)
             (\<lambda>(rs', c, i'). Inr (r\<lparr>region_type := new_type\<rparr> # rs', c, i'))
         else
           (case cut_region target_base target_end new_type i r of
              (pieces, i') \<Rightarrow>
                and_then (cmm_ensure_capacity heap_ok (k + 2) capacity)
                  (\<lambda>c. and_then
                     (insert_loop heap_ok target_end new_type
                        (if target_end < region_end r then target_end else region_end r)
                        (k + of_nat (length pieces - 1)) c i' rs)
                     (\<lambda>(rs', c', i''). Inr (pieces @ rs', c', i'')))))
      else
        and_then (insert_loop heap_ok target_end new_type target_base k capacity i rs)
          (\<lambda>(rs', c, i'). Inr (r # rs', c, i')))"

definition cmm_insert_region ::
  "(u64 \<Rightarrow> bool) \<Rightarrow> u64 \<Rightarrow> u64 \<Rightarrow> cmm_type_t \<Rightarrow> cmm_state \<Rightarrow> cmm_fault + cmm_state"
where
  "cmm_insert_region heap_ok base len new_type st =
     (if \<not> is_heap_backed st
      then Inl (CmmPanic (Panic ''CMM'' ''tried to write to memmap before heap migration''))
      else and_then
        (insert_loop heap_ok (base + len) new_type base (of_nat (length (internal_map st)))
           (internal_capacity st) (next_id st) (internal_map st))
        (\<lambda>(rs, c, i). Inr (st\<lparr>internal_map := rs, internal_capacity := c, next_id := i\<rparr>)))"

section \<open>Queries\<close>

definition cmm_get_region_count :: "cmm_state \<Rightarrow> nat" where
  "cmm_get_region_count st = length (internal_map st)"

definition cmm_get_phys_top :: "cmm_state \<Rightarrow> u64" where "cmm_get_phys_top st = max_phys_addr st"
definition cmm_get_ram_top :: "cmm_state \<Rightarrow> u64" where "cmm_get_ram_top st = max_ram_addr st"

definition cmm_get_ram_top_2mb_aligned :: "cmm_state \<Rightarrow> u64" where
  "cmm_get_ram_top_2mb_aligned st = (max_ram_addr st + PAGE_SIZE_2MB - 1) AND NOT (PAGE_SIZE_2MB - 1)"

definition cmm_get_region :: "u64 \<Rightarrow> cmm_state \<Rightarrow> cmm_region option" where
  "cmm_get_region i st = find (\<lambda>r. region_id r = i) (internal_map st)"

definition cmm_get_region_by_index :: "nat \<Rightarrow> cmm_state \<Rightarrow> cmm_region option" where
  "cmm_get_region_by_index index st =
     (if length (internal_map st) \<le> index then None else Some (internal_map st ! index))"

section \<open>The map as a function from addresses to types\<close>

definition region_ok :: "cmm_region \<Rightarrow> bool" where
  "region_ok r \<longleftrightarrow> unat (region_base r) + unat (region_length r) < 2 ^ 64"

definition in_region :: "cmm_region \<Rightarrow> nat \<Rightarrow> bool" where
  "in_region r a \<longleftrightarrow> unat (region_base r) \<le> a \<and> a < unat (region_base r) + unat (region_length r)"

definition type_at :: "cmm_region list \<Rightarrow> nat \<Rightarrow> cmm_type_t option" where
  "type_at rs a = map_option region_type (find (\<lambda>r. in_region r a) rs)"

lemma type_at_simps [simp]:
  "type_at [] a = None"
  "type_at (r # rs) a = (if in_region r a then Some (region_type r) else type_at rs a)"
  by (simp_all add: type_at_def)

lemma unat_region_end: "region_ok r \<Longrightarrow> unat (region_end r) = unat (region_base r) + unat (region_length r)"
  by (simp add: region_ok_def region_end_def unat_plus_small)

lemma in_region_span:
  "lo \<le> hi \<Longrightarrow> in_region \<lparr>region_id = i, region_base = lo, region_length = hi - lo, region_type = t\<rparr> a
     \<longleftrightarrow> unat lo \<le> a \<and> a < unat hi"
  by (simp add: in_region_def unat_sub word_le_nat_alt)

lemma region_ok_span:
  "lo \<le> hi \<Longrightarrow> region_ok \<lparr>region_id = i, region_base = lo, region_length = hi - lo, region_type = t\<rparr>"
  using unat_lt_64 [of hi] by (simp add: region_ok_def unat_sub word_le_nat_alt)

lemma in_region_ok: "region_ok r \<Longrightarrow> in_region r a \<longleftrightarrow> unat (region_base r) \<le> a \<and> a < unat (region_end r)"
  by (simp add: in_region_def unat_region_end)

definition chunk_end :: "u64 \<Rightarrow> cmm_region \<Rightarrow> u64" where
  "chunk_end target_end r = (if target_end < region_end r then target_end else region_end r)"

lemma cut_types:
  assumes "region_ok r" and "tb < region_end r" and "region_base r < te" and "tb < te"
    and "\<not> (tb \<le> region_base r \<and> region_end r \<le> te)"
    and "cut_region tb te nt i r = (pieces, i')"
  shows "type_at (pieces @ rs) a =
    (if unat tb \<le> a \<and> a < unat (chunk_end te r) then Some nt
     else if in_region r a then Some (region_type r) else type_at rs a)"
  using assms in_region_ok [OF assms(1), of a]
  by (auto simp: cut_region_def Let_def chunk_end_def in_region_span word_less_nat_alt word_le_nat_alt
        split: if_splits)

text \<open>What re-typing \<open>[tb, te)\<close> means: mapped addresses inside get the new type, the others keep theirs.\<close>

definition retyped :: "nat \<Rightarrow> nat \<Rightarrow> cmm_type_t \<Rightarrow> nat \<Rightarrow> cmm_type_t option \<Rightarrow> cmm_type_t option \<Rightarrow> bool" where
  "retyped tb te nt a before after \<longleftrightarrow>
     (if tb \<le> a \<and> a < te
      then (if before = None then after = None \<or> after = Some nt else after = Some nt)
      else after = before)"

lemma insert_loop_types:
  assumes "list_all region_ok rs" and "insert_loop hok te nt tb k c i rs = Inr (rs', c', i')"
  shows "retyped (unat tb) (unat te) nt a (type_at rs a) (type_at rs' a)"
  using assms
proof (induction rs arbitrary: tb k c i rs' c' i')
  case Nil
  then show ?case by (simp add: retyped_def)
next
  case (Cons r rs)
  have ok: "region_ok r" "list_all region_ok rs" using Cons.prems(1) by simp_all
  note reg = in_region_ok [OF ok(1), of a]
  show ?case
  proof (cases "tb < te \<and> tb < region_end r \<and> region_base r < te")
    case False
    show ?thesis
    proof (cases "tb < te")
      case lt: True
      then obtain rs1 where *: "insert_loop hok te nt tb k c i rs = Inr (rs1, c', i')" and "rs' = r # rs1"
        using Cons.prems(2) False by (auto simp: and_then_eq_Inr)
      then show ?thesis
        using Cons.IH [OF ok(2) *] False lt reg
        by (auto simp: retyped_def word_less_nat_alt)
    qed (use Cons.prems(2) in \<open>auto simp: retyped_def word_less_nat_alt\<close>)
  next
    case True
    show ?thesis
    proof (cases "tb \<le> region_base r \<and> region_end r \<le> te")
      case full: True
      then obtain rs1 where *: "insert_loop hok te nt tb k c i rs = Inr (rs1, c', i')"
        and "rs' = r\<lparr>region_type := nt\<rparr> # rs1"
        using Cons.prems(2) True by (auto simp: and_then_eq_Inr)
      then show ?thesis
        using Cons.IH [OF ok(2) *] full reg
        by (auto simp: retyped_def word_le_nat_alt in_region_def)
    next
      case part: False
      obtain ps j where cut: "cut_region tb te nt i r = (ps, j)" by force
      obtain c1 rs1 where *: "insert_loop hok te nt (chunk_end te r) (k + of_nat (length ps - 1)) c1 j rs = Inr (rs1, c', i')"
        and rs': "rs' = ps @ rs1"
        using Cons.prems(2) True part cut
        by (simp only: insert_loop.simps chunk_end_def) (auto simp: and_then_eq_Inr split: if_splits)
      have "unat tb \<le> unat (chunk_end te r)" "unat (chunk_end te r) \<le> unat te"
        "unat (chunk_end te r) = unat te \<or> unat (chunk_end te r) = unat (region_end r)"
        using True by (auto simp: chunk_end_def word_less_nat_alt)
      moreover have "unat (region_base r) \<le> unat (chunk_end te r)"
        using True unat_region_end [OF ok(1)] by (auto simp: chunk_end_def word_less_nat_alt)
      ultimately show ?thesis
        using Cons.IH [OF ok(2) *] reg True
        unfolding retyped_def rs' cut_types [OF ok(1) conjunct1 [OF conjunct2 [OF True]]
            conjunct2 [OF conjunct2 [OF True]] conjunct1 [OF True] part cut]
        by (auto simp: word_less_nat_alt split: if_splits)
    qed
  qed
qed

section \<open>Capacity and order\<close>

lemma cut_length: "cut_region tb te nt i r = (ps, j) \<Longrightarrow> 1 \<le> length ps \<and> length ps \<le> 3"
  by (auto simp: cut_region_def Let_def split: if_splits)

lemma ensure_capacity_spec:
  assumes "\<forall>n. hok n" and "unat k \<le> unat c" and "2 \<le> unat c" and "unat k + 2 < 2 ^ 60" and "unat c < 2 ^ 61"
  shows "\<exists>c'. cmm_ensure_capacity hok (k + 2) c = Inr c' \<and> unat k + 2 \<le> unat c' \<and> 2 \<le> unat c' \<and> unat c' < 2 ^ 61"
proof -
  have k2: "unat (k + 2) = unat k + 2" using assms(4) by (simp add: unat_plus_small)
  have c2: "unat (c * 2) = unat c * 2" using assms(5) by (simp add: unat_mult_small)
  show ?thesis
  proof (cases "k + 2 \<le> c")
    case True
    then show ?thesis using assms k2 by (simp add: cmm_ensure_capacity_def word_le_nat_alt)
  next
    case False
    then have "unat c < unat k + 2" using k2 by (simp add: word_le_nat_alt)
    then show ?thesis using assms k2 c2 False by (simp add: cmm_ensure_capacity_def Let_def)
  qed
qed

lemma insert_loop_capacity:
  assumes "\<forall>n. hok n" and "unat k \<le> unat c" and "2 \<le> unat c" and "unat k + 2 * length rs < 2 ^ 60" and "unat c < 2 ^ 61"
  shows "\<exists>rs' c' i'. insert_loop hok te nt tb k c i rs = Inr (rs', c', i') \<and> unat k + length rs' \<le> unat c' + length rs"
  using assms
proof (induction rs arbitrary: tb k c i)
  case (Cons r rs)
  have same: "\<exists>rs' c' i'. insert_loop hok te nt tb k c i rs = Inr (rs', c', i') \<and> unat k + length rs' \<le> unat c' + length rs"
    using Cons.prems by (intro Cons.IH) simp_all
  obtain ps j where cut: "cut_region tb te nt i r = (ps, j)" by force
  note len = cut_length [OF cut]
  obtain c1 where c1: "cmm_ensure_capacity hok (k + 2) c = Inr c1" "unat k + 2 \<le> unat c1" "2 \<le> unat c1" "unat c1 < 2 ^ 61"
    using ensure_capacity_spec [OF Cons.prems(1-3)] Cons.prems(4,5) by auto
  have "unat k + (length ps - 1) < 2 ^ 64" using Cons.prems(4) len by simp linarith
  then have k': "unat (k + of_nat (length ps - 1)) = unat k + (length ps - 1)" by (rule unat_offset)
  have "\<exists>rs' c' i'. insert_loop hok te nt (if te < region_end r then te else region_end r) (k + of_nat (length ps - 1)) c1 j rs
      = Inr (rs', c', i') \<and> unat (k + of_nat (length ps - 1)) + length rs' \<le> unat c' + length rs"
  proof (rule Cons.IH)
    show "unat (k + of_nat (length ps - 1)) \<le> unat c1" unfolding k' using len c1(2) by linarith
    show "unat (k + of_nat (length ps - 1)) + 2 * length rs < 2 ^ 60" unfolding k' using len Cons.prems(4) by simp linarith
  qed (use Cons.prems c1 in simp_all)
  then obtain rs2 c2 i2 where *: "insert_loop hok te nt (if te < region_end r then te else region_end r)
      (k + of_nat (length ps - 1)) c1 j rs = Inr (rs2, c2, i2)" "unat k + (length ps - 1) + length rs2 \<le> unat c2 + length rs"
    unfolding k' by blast
  obtain rs1 c3 i3 where **: "insert_loop hok te nt tb k c i rs = Inr (rs1, c3, i3)" "unat k + length rs1 \<le> unat c3 + length rs"
    using same by blast
  have "unat k + length (ps @ rs2) \<le> unat c2 + length (r # rs)" using *(2) len by simp
  then show ?case
    using * ** c1(1) Cons.prems(2) by (simp add: cut)
qed simp

definition ordered :: "cmm_region list \<Rightarrow> bool" where
  "ordered rs \<longleftrightarrow> sorted_wrt (\<lambda>r s. unat (region_end r) \<le> unat (region_base s)) rs \<and> list_all region_ok rs"

text \<open>No region of the map lies completely inside \<open>[tb, te)\<close>.\<close>

definition none_covered :: "u64 \<Rightarrow> u64 \<Rightarrow> cmm_region list \<Rightarrow> bool" where
  "none_covered tb te rs \<longleftrightarrow> list_all (\<lambda>r. \<not> (tb \<le> region_base r \<and> region_end r \<le> te)) rs"

lemma cut_ordered:
  assumes "region_ok r" and "tb < region_end r" and "region_base r < te" and "tb < te"
    and "cut_region tb te nt i r = (ps, j)"
  shows "ordered ps" and "\<forall>s\<in>set ps. min (unat tb) (unat (region_base r)) \<le> unat (region_base s) \<and> unat (region_end s) \<le> unat (region_end r)"
  using assms
  by (auto simp: ordered_def cut_region_def Let_def region_ok_span region_end_def less_imp_le not_less
        word_le_nat_alt [symmetric] word_less_nat_alt [symmetric] min_def split: if_splits)

lemma insert_loop_ordered:
  assumes "ordered rs" and "none_covered tb te rs" and "insert_loop hok te nt tb k c i rs = Inr (rs', c', i')"
  shows "ordered rs' \<and> (\<forall>s\<in>set rs'. \<exists>r\<in>set rs. region_base r \<le> region_base s \<or> tb \<le> region_base s \<and> region_base r < te)"
  using assms
proof (induction rs arbitrary: tb k c i rs' c' i')
  case (Cons r rs)
  have ok: "region_ok r" "ordered rs" "\<forall>s\<in>set rs. unat (region_end r) \<le> unat (region_base s)"
    using Cons.prems(1) by (auto simp: ordered_def)
  have nc: "\<not> (tb \<le> region_base r \<and> region_end r \<le> te)" "none_covered tb te rs"
    using Cons.prems(2) by (simp_all add: none_covered_def)
  show ?case
  proof (cases "tb < te \<and> tb < region_end r \<and> region_base r < te")
    case False
    show ?thesis
    proof (cases "tb < te")
      case lt: True
      then obtain rs1 where *: "insert_loop hok te nt tb k c i rs = Inr (rs1, c', i')" and rs': "rs' = r # rs1"
        using Cons.prems(3) False by (auto simp: and_then_eq_Inr)
      note ih = Cons.IH [OF ok(2) nc(2) *]
      have "\<forall>s\<in>set rs1. unat (region_end r) \<le> unat (region_base s)"
      proof
        fix s assume "s \<in> set rs1"
        then obtain q where "q \<in> set rs" "region_base q \<le> region_base s \<or> tb \<le> region_base s \<and> region_base q < te"
          using ih by blast
        then show "unat (region_end r) \<le> unat (region_base s)"
          using ok False lt unat_region_end [OF ok(1)] by (fastforce simp: word_less_nat_alt word_le_nat_alt)
      qed
      then show ?thesis using ih ok unfolding rs' by (auto simp: ordered_def)
    qed (use Cons.prems in \<open>auto simp: ordered_def\<close>)
  next
    case True
    obtain ps j where cut: "cut_region tb te nt i r = (ps, j)" by force
    obtain c1 rs1 where *: "insert_loop hok te nt (chunk_end te r) (k + of_nat (length ps - 1)) c1 j rs = Inr (rs1, c', i')"
      and rs': "rs' = ps @ rs1"
      using Cons.prems(3) True nc(1) cut
      by (simp only: insert_loop.simps chunk_end_def) (auto simp: and_then_eq_Inr split: if_splits)
    have "none_covered (chunk_end te r) te rs"
      using nc(2) True by (auto simp: none_covered_def list_all_iff chunk_end_def)
    then have ih: "ordered rs1 \<and> (\<forall>s\<in>set rs1. \<exists>r'\<in>set rs. region_base r' \<le> region_base s
        \<or> chunk_end te r \<le> region_base s \<and> region_base r' < te)"
      using Cons.IH [OF ok(2) _ *] by simp
    have after: "\<forall>s\<in>set rs1. unat (region_end r) \<le> unat (region_base s)"
    proof
      fix s assume "s \<in> set rs1"
      then obtain q where "q \<in> set rs" "region_base q \<le> region_base s \<or> chunk_end te r \<le> region_base s \<and> region_base q < te"
        using ih by blast
      then show "unat (region_end r) \<le> unat (region_base s)"
        using ok True by (fastforce simp: word_less_nat_alt word_le_nat_alt chunk_end_def split: if_splits)
    qed
    note cutp = cut_ordered [OF ok(1) _ _ _ cut]
    have "ordered (ps @ rs1)"
      using cutp True ih after by (fastforce simp: ordered_def sorted_wrt_append)
    moreover have "\<forall>s\<in>set ps. region_base r \<le> region_base s \<or> tb \<le> region_base s \<and> region_base r < te"
      using cutp(2) True by (fastforce simp: word_le_nat_alt)
    moreover have "\<forall>s\<in>set rs1. region_base r \<le> region_base s"
      using after unat_region_end [OF ok(1)] by (fastforce simp: word_le_nat_alt)
    ultimately show ?thesis unfolding rs' by auto
  qed
qed (simp add: ordered_def)

section \<open>Properties\<close>

text \<open>
  C11. Re-typing a range of the memory map: once the map is on the heap and the heap grants the space,
  every mapped address inside the range has the new type, every address outside keeps its type or
  stays unmapped, the table never outgrows its capacity, and a map of ordered disjoint regions, none of
  them completely inside the range, stays ordered and disjoint.
\<close>

theorem cmm_insert_region_retypes:
  assumes "is_heap_backed st" and "list_all region_ok (internal_map st)"
    and "unat base + unat len < 2 ^ 64" and "\<forall>n. heap_ok n"
    and "length (internal_map st) \<le> unat (internal_capacity st)" and "2 \<le> unat (internal_capacity st)"
    and "unat (internal_capacity st) < 2 ^ 61" and "3 * length (internal_map st) < 2 ^ 60"
  shows "\<exists>st'. cmm_insert_region heap_ok base len new_type st = Inr st' \<and>
    (\<forall>a. retyped (unat base) (unat base + unat len) new_type a (type_at (internal_map st) a) (type_at (internal_map st') a)) \<and>
    length (internal_map st') \<le> unat (internal_capacity st') \<and>
    (ordered (internal_map st) \<and> none_covered base (base + len) (internal_map st) \<longrightarrow> ordered (internal_map st'))"
proof -
  let ?n = "of_nat (length (internal_map st)) :: u64"
  have n: "unat ?n = length (internal_map st)" using assms(8) by (simp add: unat_of_nat)
  have small: "unat ?n + 2 * length (internal_map st) < 2 ^ 60" using n assms(8) by linarith
  obtain rs c i where loop: "insert_loop heap_ok (base + len) new_type base ?n (internal_capacity st) (next_id st) (internal_map st) = Inr (rs, c, i)"
    and cap: "unat ?n + length rs \<le> unat c + length (internal_map st)"
    using insert_loop_capacity [OF assms(4) _ assms(6) small assms(7)] assms(5) n by metis
  have e: "unat (base + len) = unat base + unat len" using assms(3) by (simp add: unat_plus_small)
  show ?thesis
    using loop cap n insert_loop_types [OF assms(2) loop] insert_loop_ordered [OF _ _ loop] assms(1)
    by (simp add: cmm_insert_region_def e)
qed

definition demo_map :: cmm_state where
  "demo_map = \<lparr>internal_map = [\<lparr>region_id = 1, region_base = 0x1000, region_length = 0x3000, region_type = CMM_USABLE\<rparr>,
      \<lparr>region_id = 2, region_base = 0x4000, region_length = 0x2000, region_type = CMM_RESERVED\<rparr>],
    internal_capacity = 4, next_id = 3, is_heap_backed = True, max_phys_addr = 0x6000, max_ram_addr = 0x4000\<rparr>"

theorem cmm_insert_region_retypes_witness:
  "\<exists>st'. cmm_insert_region (\<lambda>n. True) 0x2000 0x1000 CMM_BAD demo_map = Inr st' \<and>
     type_at (internal_map st') 0x2800 = Some CMM_BAD \<and> type_at (internal_map st') 0x3000 = Some CMM_USABLE \<and>
     ordered (internal_map st')"
proof -
  have "ordered (internal_map demo_map)" "none_covered 0x2000 (0x2000 + 0x1000) (internal_map demo_map)"
    by (simp_all add: ordered_def none_covered_def demo_map_def region_ok_def region_end_def)
  moreover have t: "type_at (internal_map demo_map) 0x2800 = Some CMM_USABLE" "type_at (internal_map demo_map) 0x3000 = Some CMM_USABLE"
    by (simp_all add: demo_map_def in_region_def)
  moreover have "\<exists>st'. cmm_insert_region (\<lambda>n. True) 0x2000 0x1000 CMM_BAD demo_map = Inr st' \<and>
    (\<forall>a. retyped (unat (0x2000::u64)) (unat (0x2000::u64) + unat (0x1000::u64)) CMM_BAD a (type_at (internal_map demo_map) a) (type_at (internal_map st') a)) \<and>
    length (internal_map st') \<le> unat (internal_capacity st') \<and>
    (ordered (internal_map demo_map) \<and> none_covered 0x2000 (0x2000 + 0x1000) (internal_map demo_map) \<longrightarrow> ordered (internal_map st'))"
    by (rule cmm_insert_region_retypes) (simp_all add: demo_map_def region_ok_def)
  ultimately obtain st' where "cmm_insert_region (\<lambda>n. True) 0x2000 0x1000 CMM_BAD demo_map = Inr st'" "ordered (internal_map st')"
    and r: "\<forall>a. retyped 0x2000 0x3000 CMM_BAD a (type_at (internal_map demo_map) a) (type_at (internal_map st') a)"
    by auto
  moreover have "type_at (internal_map st') 0x2800 = Some CMM_BAD" "type_at (internal_map st') 0x3000 = Some CMM_USABLE"
    using spec [OF r, of "0x2800"] spec [OF r, of "0x3000"] t by (simp_all add: retyped_def)
  ultimately show ?thesis by blast
qed

text \<open>
  A range that covers one region completely and ends inside the next: the target base is not moved
  past the first region, and the second region's piece starts over at the beginning of the range.
\<close>

lemma cmm_insert_overlap:
  "\<exists>st'. cmm_insert_region (\<lambda>n. True) 0x1000 0x4000 CMM_BAD demo_map = Inr st' \<and>
     map region_base (internal_map st') = [0x1000, 0x1000, 0x5000] \<and>
     map region_length (internal_map st') = [0x3000, 0x4000, 0x1000]"
  by (simp add: cmm_insert_region_def demo_map_def region_end_def cut_region_def cmm_ensure_capacity_def Let_def)

end
