(* ===== verification/Pma.thy ===== *)
theory Pma
  imports Bitmap Cmm
begin

text \<open>
  The physical page allocator of \<^verbatim>\<open>src/mem/pma.c\<close>: two zones over one page bitmap, each with a
  two-level segregated free list. A free block starts with a header in the free page itself; the
  headers are a store from addresses to \<open>pma_free_block_t\<close>. The list sentinel \<^verbatim>\<open>z->block_null\<close> is a
  header in the zone structure, known here by its address. The spin locks only bracket the zone
  operations; an operation runs to its end before the next one starts.

  Page frame numbers and page counts are quotients of 64-bit byte values by the page size, so they
  are below \<open>2 ^ 52\<close> and their sums are natural numbers.
\<close>

section \<open>Data\<close>

record pma_free_block_t =
  blk_prev :: u64
  blk_next :: u64
  blk_size :: u64

record pma_zone_t =
  total_pages :: u64
  fl_bitmap :: u64
  sl_bitmap :: "nat \<Rightarrow> u64"
  blocks :: "nat \<Rightarrow> nat \<Rightarrow> u64"
  block_null :: u64

record pma_mem =
  blk :: "u64 \<Rightarrow> pma_free_block_t"
  pma_bitmap :: "u8 list"
  hhdm_offset :: u64

record pma_state =
  pma_normal :: pma_zone_t
  pma_low :: pma_zone_t
  pma_memory :: pma_mem

type_synonym zone_mem = "pma_zone_t \<times> pma_mem"

definition PMA_ZONE_32BIT :: u64 where "PMA_ZONE_32BIT = 0x100000000 div PAGE_SIZE"
definition PMA_FL_INDEX_COUNT :: nat where "PMA_FL_INDEX_COUNT = 32"
definition PMA_SL_INDEX_COUNT :: nat where "PMA_SL_INDEX_COUNT = 32"
definition PMA_ALIGN_SIZE_LOG2 :: nat where "PMA_ALIGN_SIZE_LOG2 = 12"
definition PMA_SL_INDEX_COUNT_LOG2 :: nat where "PMA_SL_INDEX_COUNT_LOG2 = 5"
definition PMA_FL_INDEX_SHIFT :: nat where "PMA_FL_INDEX_SHIFT = PMA_SL_INDEX_COUNT_LOG2 + PMA_ALIGN_SIZE_LOG2"
definition PMA_SMALL_BLOCK_SIZE :: u64 where "PMA_SMALL_BLOCK_SIZE = push_bit PMA_FL_INDEX_SHIFT 1"
definition PMA_BLOCK_HEADER_SIZE :: u64 where "PMA_BLOCK_HEADER_SIZE = 24"

section \<open>Blocks and bit scans\<close>

definition pma_ffs :: "u64 \<Rightarrow> int" where
  "pma_ffs w = (case find (bit w) [0..<64] of None \<Rightarrow> - 1 | Some i \<Rightarrow> int i)"

definition pma_fls :: "u64 \<Rightarrow> int" where
  "pma_fls w = (case find (bit w) (rev [0..<64]) of None \<Rightarrow> - 1 | Some i \<Rightarrow> int i)"

definition block_phys :: "u64 \<Rightarrow> pma_mem \<Rightarrow> u64" where
  "block_phys b m = b - hhdm_offset m"

definition block_from_phys :: "u64 \<Rightarrow> pma_mem \<Rightarrow> u64" where
  "block_from_phys phys m = phys + hhdm_offset m"

definition block_size :: "u64 \<Rightarrow> pma_mem \<Rightarrow> u64" where
  "block_size b m = blk_size (blk m b) AND NOT 1"

definition set_blk :: "u64 \<Rightarrow> (pma_free_block_t \<Rightarrow> pma_free_block_t) \<Rightarrow> pma_mem \<Rightarrow> pma_mem" where
  "set_blk b f m = m\<lparr>blk := (blk m)(b := f (blk m b))\<rparr>"

definition block_set_size :: "u64 \<Rightarrow> u64 \<Rightarrow> pma_mem \<Rightarrow> pma_mem" where
  "block_set_size b sz = set_blk b (\<lambda>h. h\<lparr>blk_size := sz OR (blk_size h AND 1)\<rparr>)"

definition block_mark_used :: "u64 \<Rightarrow> pma_mem \<Rightarrow> pma_mem" where
  "block_mark_used b = set_blk b (\<lambda>h. h\<lparr>blk_size := blk_size h AND NOT 1\<rparr>)"

section \<open>The segregated lists\<close>

definition tlsf_mapping_insert :: "u64 \<Rightarrow> nat \<times> nat" where
  "tlsf_mapping_insert sz =
     (if sz < PMA_SMALL_BLOCK_SIZE then (0, unat (drop_bit PMA_ALIGN_SIZE_LOG2 sz))
      else
        let fl = nat (pma_fls sz);
            sl = unat (drop_bit (fl - PMA_SL_INDEX_COUNT_LOG2) sz XOR push_bit PMA_SL_INDEX_COUNT_LOG2 1) in
        (fl - (PMA_FL_INDEX_SHIFT - 1), sl))"

definition clear_slot :: "nat \<Rightarrow> nat \<Rightarrow> pma_zone_t \<Rightarrow> pma_zone_t" where
  "clear_slot fl sl z =
     (let s = sl_bitmap z fl AND NOT (push_bit sl 1) in
      z\<lparr>sl_bitmap := (sl_bitmap z)(fl := s),
        fl_bitmap := (if s = 0 then fl_bitmap z AND NOT (push_bit fl 1) else fl_bitmap z)\<rparr>)"

definition set_head :: "nat \<Rightarrow> nat \<Rightarrow> u64 \<Rightarrow> pma_zone_t \<Rightarrow> pma_zone_t" where
  "set_head fl sl b z = z\<lparr>blocks := (blocks z)(fl := (blocks z fl)(sl := b))\<rparr>"

definition tlsf_remove_free_block :: "u64 \<Rightarrow> nat \<Rightarrow> nat \<Rightarrow> zone_mem \<Rightarrow> zone_mem" where
  "tlsf_remove_free_block b fl sl = (\<lambda>(z, m).
     let prev = blk_prev (blk m b);
         next = blk_next (blk m b);
         m = set_blk next (\<lambda>h. h\<lparr>blk_prev := prev\<rparr>) m;
         m = set_blk prev (\<lambda>h. h\<lparr>blk_next := next\<rparr>) m in
     if blocks z fl sl = b then
       (let z = set_head fl sl next z in
        if next = block_null z then (clear_slot fl sl z, m) else (z, m))
     else (z, m))"

definition tlsf_insert_free_block :: "u64 \<Rightarrow> nat \<Rightarrow> nat \<Rightarrow> zone_mem \<Rightarrow> zone_mem" where
  "tlsf_insert_free_block b fl sl = (\<lambda>(z, m).
     let current = blocks z fl sl;
         m = set_blk b (\<lambda>h. h\<lparr>blk_next := current, blk_prev := block_null z\<rparr>) m;
         m = set_blk current (\<lambda>h. h\<lparr>blk_prev := b\<rparr>) m;
         z = set_head fl sl b z in
     (z\<lparr>fl_bitmap := fl_bitmap z OR push_bit fl 1,
        sl_bitmap := (sl_bitmap z)(fl := sl_bitmap z fl OR push_bit sl 1)\<rparr>, m))"

definition tlsf_block_remove :: "u64 \<Rightarrow> zone_mem \<Rightarrow> zone_mem" where
  "tlsf_block_remove b zm =
     (case tlsf_mapping_insert (block_size b (snd zm)) of (fl, sl) \<Rightarrow> tlsf_remove_free_block b fl sl zm)"

definition tlsf_block_insert :: "u64 \<Rightarrow> zone_mem \<Rightarrow> zone_mem" where
  "tlsf_block_insert b zm =
     (case tlsf_mapping_insert (block_size b (snd zm)) of (fl, sl) \<Rightarrow> tlsf_insert_free_block b fl sl zm)"

text \<open>The slot with the first suitable list, or \<open>None\<close> for the null result.\<close>

definition tlsf_search_suitable :: "pma_zone_t \<Rightarrow> nat \<Rightarrow> nat \<Rightarrow> (nat \<times> nat) option" where
  "tlsf_search_suitable z fl sl =
     (let sl_map = sl_bitmap z fl AND push_bit sl (- 1) in
      if sl_map = 0 then
        (let fl_map = fl_bitmap z AND push_bit (fl + 1) (- 1) in
         if fl_map = 0 then None
         else let fl = nat (pma_ffs fl_map) in Some (fl, nat (pma_ffs (sl_bitmap z fl))))
      else Some (fl, nat (pma_ffs sl_map)))"

definition tlsf_locate_free :: "u64 \<Rightarrow> zone_mem \<Rightarrow> zone_mem \<times> u64" where
  "tlsf_locate_free sz = (\<lambda>(z, m).
     if sz = 0 then ((z, m), 0)
     else
       (case tlsf_mapping_insert sz of
          (fl, sl) \<Rightarrow>
            if fl < PMA_FL_INDEX_COUNT then
              (case tlsf_search_suitable z fl sl of
                 None \<Rightarrow> ((z, m), 0)
               | Some (fl, sl) \<Rightarrow>
                   let b = blocks z fl sl in
                   if b = 0 then ((z, m), 0) else (tlsf_remove_free_block b fl sl (z, m), b))
            else ((z, m), 0)))"

definition block_split :: "u64 \<Rightarrow> u64 \<Rightarrow> pma_mem \<Rightarrow> pma_mem \<times> u64" where
  "block_split b sz m =
     (let r_phys = block_phys b m + sz;
          remaining = block_from_phys r_phys m;
          remain_size = block_size b m - sz;
          m = set_blk remaining (\<lambda>h. h\<lparr>blk_size := remain_size OR 1\<rparr>) m in
      (block_set_size b sz m, remaining))"

section \<open>The page bitmap\<close>

definition pma_page_is_free :: "pma_zone_t \<Rightarrow> pma_mem \<Rightarrow> nat \<Rightarrow> bool" where
  "pma_page_is_free z m pfn \<longleftrightarrow> pfn < unat (total_pages z) \<and> \<not> BITMAP_TEST (pma_bitmap m) pfn"

definition pma_page_set_free :: "pma_zone_t \<Rightarrow> nat \<Rightarrow> pma_mem \<Rightarrow> pma_mem" where
  "pma_page_set_free z pfn m =
     (if unat (total_pages z) \<le> pfn then m else m\<lparr>pma_bitmap := BITMAP_CLEAR (pma_bitmap m) pfn\<rparr>)"

definition pma_page_set_used :: "pma_zone_t \<Rightarrow> nat \<Rightarrow> pma_mem \<Rightarrow> pma_mem" where
  "pma_page_set_used z pfn m =
     (if unat (total_pages z) \<le> pfn then m else m\<lparr>pma_bitmap := BITMAP_SET (pma_bitmap m) pfn\<rparr>)"

primrec pma_find_free_start :: "pma_zone_t \<Rightarrow> pma_mem \<Rightarrow> nat \<Rightarrow> nat" where
  "pma_find_free_start z m 0 = 0"
| "pma_find_free_start z m (Suc pfn) =
     (if pma_page_is_free z m pfn then pma_find_free_start z m pfn else Suc pfn)"

function pma_find_free_end :: "pma_zone_t \<Rightarrow> pma_mem \<Rightarrow> nat \<Rightarrow> nat" where
  "pma_find_free_end z m pfn =
     (if pfn < unat (total_pages z) \<and> pma_page_is_free z m pfn then pma_find_free_end z m (Suc pfn) else pfn)"
  by pat_completeness auto
termination
  by (relation "measure (\<lambda>(z, m, pfn). unat (total_pages z) - pfn)") auto

declare pma_find_free_end.simps [simp del]

text \<open>The loops that mark \<open>n\<close> consecutive pages.\<close>

definition set_free_range :: "pma_zone_t \<Rightarrow> nat \<Rightarrow> nat \<Rightarrow> pma_mem \<Rightarrow> pma_mem" where
  "set_free_range z pfn n m = fold (\<lambda>i. pma_page_set_free z (pfn + i)) [0..<n] m"

definition set_used_range :: "pma_zone_t \<Rightarrow> nat \<Rightarrow> nat \<Rightarrow> pma_mem \<Rightarrow> pma_mem" where
  "set_used_range z pfn n m = fold (\<lambda>i. pma_page_set_used z (pfn + i)) [0..<n] m"

section \<open>Zones\<close>

definition pma_zone_init :: "u64 \<Rightarrow> pma_zone_t \<Rightarrow> pma_mem \<Rightarrow> zone_mem" where
  "pma_zone_init pages z m =
     (\<lparr>total_pages = pages, fl_bitmap = 0, sl_bitmap = (\<lambda>_. 0), blocks = (\<lambda>_ _. block_null z), block_null = block_null z\<rparr>,
      set_blk (block_null z) (\<lambda>_. \<lparr>blk_prev = block_null z, blk_next = block_null z, blk_size = 0\<rparr>) m)"

definition pma_zone_add_region :: "u64 \<Rightarrow> u64 \<Rightarrow> zone_mem \<Rightarrow> zone_mem" where
  "pma_zone_add_region phys_base len = (\<lambda>(z, m).
     if len < PMA_BLOCK_HEADER_SIZE then (z, m)
     else
       let start = (phys_base + PAGE_SIZE - 1) AND NOT (PAGE_SIZE - 1);
           end = (phys_base + len) AND NOT (PAGE_SIZE - 1) in
       if end \<le> start then (z, m)
       else
         let start = (if start = 0 then start + PAGE_SIZE else start) in
         if end \<le> start then (z, m)
         else
           let region_bytes = end - start;
               m = set_free_range z (unat (start div PAGE_SIZE)) (unat (region_bytes div PAGE_SIZE)) m;
               b = block_from_phys start m;
               m = set_blk b (\<lambda>h. h\<lparr>blk_size := region_bytes OR 1, blk_prev := 0, blk_next := 0\<rparr>) m in
           tlsf_block_insert b (z, m))"

definition pma_alloc_from_zone :: "u64 \<Rightarrow> u64 \<Rightarrow> zone_mem \<Rightarrow> zone_mem \<times> u64" where
  "pma_alloc_from_zone sz align zm =
     (let sz = ALIGN PAGE_SIZE sz;
          sz = (if sz < PMA_BLOCK_HEADER_SIZE then PMA_BLOCK_HEADER_SIZE else sz);
          search_size = (if PAGE_SIZE < align then sz + (align - PAGE_SIZE) else sz) in
      case tlsf_locate_free search_size zm of
        ((z, m), b) \<Rightarrow>
          if b = 0 then ((z, m), 0)
          else
            let b_phys = block_phys b m;
                alloc_phys = (b_phys + align - 1) AND NOT (align - 1);
                head_gap = alloc_phys - b_phys in
            if 0 < head_gap \<and> head_gap < PMA_BLOCK_HEADER_SIZE then (tlsf_block_insert b (z, m), 0)
            else
              let (z, m, b) =
                    (if PMA_BLOCK_HEADER_SIZE \<le> head_gap then
                       (case block_split b head_gap m of
                          (m, rest) \<Rightarrow> (case tlsf_block_insert b (z, m) of (z, m) \<Rightarrow> (z, m, rest)))
                     else (z, m, b));
                  b_size = block_size b m in
              if b_size < sz \<and> \<not> sz + PMA_BLOCK_HEADER_SIZE < b_size then (tlsf_block_insert b (z, m), 0)
              else
                let (z, m) =
                      (if sz + PMA_BLOCK_HEADER_SIZE < b_size then
                         (case block_split b sz m of (m, rest) \<Rightarrow> tlsf_block_insert rest (z, m))
                       else (z, m));
                    m = block_mark_used b m;
                    m = set_used_range z (unat (alloc_phys div PAGE_SIZE)) (unat (sz div PAGE_SIZE)) m in
                ((z, m), alloc_phys))"

definition pma_zone_free_range :: "u64 \<Rightarrow> u64 \<Rightarrow> zone_mem \<Rightarrow> zone_mem" where
  "pma_zone_free_range phys count = (\<lambda>(z, m).
     if count = 0 \<or> total_pages z * PAGE_SIZE < phys + count * PAGE_SIZE then (z, m)
     else
       let start_pfn = unat (phys div PAGE_SIZE);
           m = set_free_range z start_pfn (unat count) m;
           (merge_start, z, m) =
             (if 0 < start_pfn \<and> pma_page_is_free z m (start_pfn - 1) then
                let prev_start = pma_find_free_start z m (start_pfn - 1) in
                (prev_start, tlsf_block_remove (block_from_phys (of_nat prev_start * PAGE_SIZE) m) (z, m))
              else (start_pfn, z, m));
           merge_end = start_pfn + unat count;
           (merge_end, z, m) =
             (if merge_end < unat (total_pages z) \<and> pma_page_is_free z m merge_end then
                let next_end = pma_find_free_end z m merge_end in
                (next_end, tlsf_block_remove (block_from_phys (of_nat merge_end * PAGE_SIZE) m) (z, m))
              else (merge_end, z, m));
           merged_size = of_nat (merge_end - merge_start) * PAGE_SIZE in
       if PMA_BLOCK_HEADER_SIZE \<le> merged_size then
         (let b = block_from_phys (of_nat merge_start * PAGE_SIZE) m;
              m = set_blk b (\<lambda>h. h\<lparr>blk_size := merged_size OR 1, blk_prev := 0, blk_next := 0\<rparr>) m in
          tlsf_block_insert b (z, m))
       else (z, m))"

section \<open>The allocator\<close>

definition on_normal :: "(zone_mem \<Rightarrow> zone_mem) \<Rightarrow> pma_state \<Rightarrow> pma_state" where
  "on_normal f st =
     (case f (pma_normal st, pma_memory st) of (z, m) \<Rightarrow> st\<lparr>pma_normal := z, pma_memory := m\<rparr>)"

definition on_low :: "(zone_mem \<Rightarrow> zone_mem) \<Rightarrow> pma_state \<Rightarrow> pma_state" where
  "on_low f st =
     (case f (pma_low st, pma_memory st) of (z, m) \<Rightarrow> st\<lparr>pma_low := z, pma_memory := m\<rparr>)"

definition alloc_normal :: "u64 \<Rightarrow> u64 \<Rightarrow> pma_state \<Rightarrow> pma_state \<times> u64" where
  "alloc_normal sz align st =
     (case pma_alloc_from_zone sz align (pma_normal st, pma_memory st) of
        ((z, m), ret) \<Rightarrow> (st\<lparr>pma_normal := z, pma_memory := m\<rparr>, ret))"

definition alloc_low :: "u64 \<Rightarrow> u64 \<Rightarrow> pma_state \<Rightarrow> pma_state \<times> u64" where
  "alloc_low sz align st =
     (case pma_alloc_from_zone sz align (pma_low st, pma_memory st) of
        ((z, m), ret) \<Rightarrow> (st\<lparr>pma_low := z, pma_memory := m\<rparr>, ret))"

definition pma_alloc_pages :: "u64 \<Rightarrow> pma_state \<Rightarrow> pma_state \<times> u64" where
  "pma_alloc_pages count st =
     (case alloc_normal (count * PAGE_SIZE) PAGE_SIZE st of
        (st, ret) \<Rightarrow> if ret = 0 then alloc_low (count * PAGE_SIZE) PAGE_SIZE st else (st, ret))"

definition pma_alloc_pages_2mb :: "u64 \<Rightarrow> pma_state \<Rightarrow> pma_state \<times> u64" where
  "pma_alloc_pages_2mb count st =
     (case alloc_normal (count * PAGE_SIZE_2MB) PAGE_SIZE_2MB st of
        (st, ret) \<Rightarrow> if ret = 0 then alloc_low (count * PAGE_SIZE_2MB) PAGE_SIZE_2MB st else (st, ret))"

definition pma_alloc_pages_low :: "u64 \<Rightarrow> pma_state \<Rightarrow> pma_state \<times> u64" where
  "pma_alloc_pages_low count st = alloc_low (count * PAGE_SIZE) PAGE_SIZE st"

definition pma_free_pages :: "u64 \<Rightarrow> u64 \<Rightarrow> pma_state \<Rightarrow> pma_state" where
  "pma_free_pages phys count st =
     (if phys = 0 then st
      else
        let low_limit = PMA_ZONE_32BIT * PAGE_SIZE;
            end = phys + count * PAGE_SIZE;
            low_end = SMIN end low_limit;
            st = (if phys < low_end then on_low (pma_zone_free_range phys ((low_end - phys) div PAGE_SIZE)) st else st);
            normal_start = SMAX phys low_limit in
        if normal_start < end
        then on_normal (pma_zone_free_range normal_start ((end - normal_start) div PAGE_SIZE)) st else st)"

definition pma_free_page :: "u64 \<Rightarrow> pma_state \<Rightarrow> pma_state" where
  "pma_free_page phys = pma_free_pages phys 1"

text \<open>
  Initialisation. Both zones get the parts of each usable region on their side of the 4 GB line; the
  region that holds the bitmap is added in two parts around it.
\<close>

definition add_low_normal :: "u64 \<Rightarrow> u64 \<Rightarrow> pma_state \<Rightarrow> pma_state" where
  "add_low_normal start fin st =
     (let limit = PMA_ZONE_32BIT * PAGE_SIZE;
          low_end = SMIN fin limit;
          st = (if start < low_end then on_low (pma_zone_add_region start (low_end - start)) st else st);
          normal_start = SMAX start limit in
      if normal_start < fin then on_normal (pma_zone_add_region normal_start (fin - normal_start)) st else st)"

definition mark_bitmap_pages :: "u64 \<Rightarrow> u64 \<Rightarrow> u64 \<Rightarrow> pma_state \<Rightarrow> pma_state" where
  "mark_bitmap_pages bitmap_phys bitmap_reserved pages st =
     st\<lparr>pma_memory := fold (\<lambda>p m. if p < unat pages then m\<lparr>pma_bitmap := BITMAP_SET (pma_bitmap m) p\<rparr> else m)
          [unat (bitmap_phys div PAGE_SIZE)..<unat ((bitmap_phys + bitmap_reserved) div PAGE_SIZE)] (pma_memory st)\<rparr>"

definition add_cmm_region :: "u64 \<Rightarrow> u64 \<Rightarrow> u64 \<Rightarrow> cmm_region \<Rightarrow> pma_state \<Rightarrow> pma_state" where
  "add_cmm_region bitmap_phys bitmap_reserved pages r st =
     (let start = region_base r; len = region_length r in
      if region_type r \<noteq> CMM_USABLE then st
      else if start \<le> bitmap_phys \<and> bitmap_phys < start + len then
        (let st = (if start < bitmap_phys then add_low_normal start bitmap_phys st else st);
             st = mark_bitmap_pages bitmap_phys bitmap_reserved pages st;
             after = bitmap_phys + bitmap_reserved in
         if after < start + len then add_low_normal after (start + len) st else st)
      else add_low_normal start (start + len) st)"

definition pma_init :: "cmm_state \<Rightarrow> pma_state \<Rightarrow> pma_state outcome" where
  "pma_init cmm st =
     (let pages = cmm_get_ram_top cmm div PAGE_SIZE;
          bitmap_bytes = (pages + 7) div 8;
          bitmap_reserved = ((bitmap_bytes + PAGE_SIZE - 1) div PAGE_SIZE) * PAGE_SIZE in
      case find (\<lambda>r. region_type r = CMM_USABLE \<and> bitmap_reserved \<le> region_length r) (internal_map cmm) of
        None \<Rightarrow> Inl (Panic ''PMA'' ''failed to allocate zone bitmap'')
      | Some r \<Rightarrow>
          let m = (pma_memory st)\<lparr>pma_bitmap := replicate (unat bitmap_bytes) 0xFF\<rparr>;
              (zn, m) = pma_zone_init pages (pma_normal st) m;
              (zl, m) = pma_zone_init (SMIN pages PMA_ZONE_32BIT) (pma_low st) m in
          Inr (fold (add_cmm_region (region_base r) bitmap_reserved pages) (internal_map cmm)
                 \<lparr>pma_normal = zn, pma_low = zl, pma_memory = m\<rparr>))"

end
