(* ===== verification/Pma_Proofs.thy ===== *)
theory Pma_Proofs
  imports Pma
begin

text \<open>
  Correctness of the physical page allocator. The lists of a zone are doubly linked lists over the
  store of block headers; the size classes are exact below 32 pages; the free blocks of a zone are the
  runs of free pages of the bitmap. Allocation takes pages off one run, release merges the neighbours,
  and both keep the invariant \<open>pma_inv\<close> of the two zones.
\<close>

section \<open>The lists of a zone\<close>

text \<open>
  \<open>dll h nul p xs f\<close>: starting at \<open>f\<close>, the \<open>next\<close> pointers of the headers \<open>h\<close> visit the blocks \<open>xs\<close>
  and end at the sentinel \<open>nul\<close>, and the \<open>prev\<close> pointers lead back to \<open>p\<close>.
\<close>

fun dll :: "(u64 \<Rightarrow> pma_free_block_t) \<Rightarrow> u64 \<Rightarrow> u64 \<Rightarrow> u64 list \<Rightarrow> u64 \<Rightarrow> bool" where
  "dll h nul p [] f \<longleftrightarrow> f = nul"
| "dll h nul p (x # xs) f \<longleftrightarrow> f = x \<and> blk_prev (h x) = p \<and> dll h nul x xs (blk_next (h x))"

lemma dll_cong: "\<forall>x\<in>set xs. h x = h' x \<Longrightarrow> dll h nul p xs f = dll h' nul p xs f"
  by (induction xs arbitrary: p f) auto

lemma dll_first: "dll h nul p xs f \<Longrightarrow> f = hd (xs @ [nul])"
  by (cases xs) auto

lemma dll_at:
  "dll h nul p (xs @ b # ys) f \<Longrightarrow> blk_prev (h b) = last (p # xs) \<and> blk_next (h b) = hd (ys @ [nul])"
  by (induction xs arbitrary: p f) (auto dest: dll_first)

definition unlinked :: "u64 \<Rightarrow> (u64 \<Rightarrow> pma_free_block_t) \<Rightarrow> u64 \<Rightarrow> pma_free_block_t" where
  "unlinked b h =
     (let h1 = h(blk_next (h b) := (h (blk_next (h b)))\<lparr>blk_prev := blk_prev (h b)\<rparr>) in
      h1(blk_prev (h b) := (h1 (blk_prev (h b)))\<lparr>blk_next := blk_next (h b)\<rparr>))"

lemma unlinked_other: "x \<noteq> blk_next (h b) \<Longrightarrow> x \<noteq> blk_prev (h b) \<Longrightarrow> unlinked b h x = h x"
  by (simp add: unlinked_def)

lemma unlinked_size [simp]: "blk_size (unlinked b h x) = blk_size (h x)"
  by (simp add: unlinked_def)

lemma unlinked_fields:
  "blk_prev (unlinked b h x) = (if x = blk_next (h b) then blk_prev (h b) else blk_prev (h x))"
  "blk_next (unlinked b h x) = (if x = blk_prev (h b) then blk_next (h b) else blk_next (h x))"
  by (auto simp: unlinked_def)

lemma dll_unlink:
  assumes "dll h nul p (xs @ b # ys) f" and "distinct (xs @ b # ys)"
    and "nul \<notin> set (xs @ b # ys)" and "p \<notin> set (xs @ b # ys)"
  shows "dll (unlinked b h) nul p (xs @ ys) (if xs = [] then blk_next (h b) else f)"
  using assms
proof (induction xs arbitrary: p f)
  case Nil
  have at: "blk_prev (h b) = p" "blk_next (h b) = hd (ys @ [nul])"
    using dll_at [OF Nil.prems(1)] by (simp_all only: last.simps simp_thms if_True)
  show ?case
  proof (cases ys)
    case (Cons y zs)
    have "dll (unlinked b h) nul y zs (blk_next (h y)) = dll h nul y zs (blk_next (h y))"
      using Nil.prems at Cons by (intro dll_cong) (auto intro: unlinked_other)
    then show ?thesis using Nil.prems at Cons by (auto simp: unlinked_fields)
  qed (use at in simp)
next
  case (Cons x xs)
  have ih: "dll (unlinked b h) nul x (xs @ ys) (if xs = [] then blk_next (h b) else blk_next (h x))"
    using Cons.prems by (intro Cons.IH) auto
  have rest: "dll h nul x (xs @ b # ys) (blk_next (h x))" using Cons.prems(1) by simp
  have at: "blk_prev (h b) = last (x # xs)" "blk_next (h b) = hd (ys @ [nul])"
    using dll_at [OF rest] by (simp_all only:)
  have n: "x \<noteq> blk_next (h b)" using Cons.prems(2,3) unfolding at by (cases ys) auto
  have p: "x = blk_prev (h b) \<longleftrightarrow> xs = []"
    using Cons.prems(2) last_in_set [of xs] unfolding at by (cases "xs = []") auto
  have "f = x" "blk_prev (h x) = p" using Cons.prems(1) by simp_all
  then show ?case using ih n p by (simp add: unlinked_fields split: if_splits)
qed

type_synonym bins = "nat \<Rightarrow> nat \<Rightarrow> u64 list"

text \<open>Slot \<open>(fl, sl)\<close> of the zone lists the blocks \<open>L fl sl\<close>, and the two bitmaps say which slots are in use.\<close>

definition bins_ok :: "bins \<Rightarrow> pma_zone_t \<Rightarrow> (u64 \<Rightarrow> pma_free_block_t) \<Rightarrow> bool" where
  "bins_ok L z h \<longleftrightarrow>
     (\<forall>fl<32. \<forall>sl<32. dll h (block_null z) (block_null z) (L fl sl) (blocks z fl sl) \<and> distinct (L fl sl) \<and>
        block_null z \<notin> set (L fl sl) \<and>
        (\<forall>b\<in>set (L fl sl). tlsf_mapping_insert (blk_size (h b) AND NOT 1) = (fl, sl))) \<and>
     (\<forall>fl<32. \<forall>sl. bit (sl_bitmap z fl) sl \<longleftrightarrow> sl < 32 \<and> L fl sl \<noteq> []) \<and>
     (\<forall>fl. bit (fl_bitmap z) fl \<longleftrightarrow> fl < 32 \<and> sl_bitmap z fl \<noteq> 0)"

definition members :: "bins \<Rightarrow> u64 set" where
  "members L = {b. \<exists>fl<32. \<exists>sl<32. b \<in> set (L fl sl)}"

definition put_bin :: "nat \<Rightarrow> nat \<Rightarrow> u64 list \<Rightarrow> bins \<Rightarrow> bins" where
  "put_bin fl sl xs L = L(fl := (L fl)(sl := xs))"

lemma put_bin_apply: "put_bin fl sl xs L fl' sl' = (if fl' = fl \<and> sl' = sl then xs else L fl' sl')"
  by (simp add: put_bin_def)

lemma bins_okD:
  assumes "bins_ok L z h"
  shows "fl < 32 \<Longrightarrow> sl < 32 \<Longrightarrow> dll h (block_null z) (block_null z) (L fl sl) (blocks z fl sl)"
    and "fl < 32 \<Longrightarrow> sl < 32 \<Longrightarrow> distinct (L fl sl)"
    and "fl < 32 \<Longrightarrow> sl < 32 \<Longrightarrow> block_null z \<notin> set (L fl sl)"
    and "fl < 32 \<Longrightarrow> sl < 32 \<Longrightarrow> b \<in> set (L fl sl) \<Longrightarrow> tlsf_mapping_insert (blk_size (h b) AND NOT 1) = (fl, sl)"
    and "fl < 32 \<Longrightarrow> bit (sl_bitmap z fl) sl \<longleftrightarrow> sl < 32 \<and> L fl sl \<noteq> []"
    and "bit (fl_bitmap z) fl \<longleftrightarrow> fl < 32 \<and> sl_bitmap z fl \<noteq> 0"
  using assms by (simp_all add: bins_ok_def)

lemma bin_unique:
  assumes "bins_ok L z h" and "fl < 32" "sl < 32" "fl' < 32" "sl' < 32" and "b \<in> set (L fl sl)" "b \<in> set (L fl' sl')"
  shows "fl' = fl \<and> sl' = sl"
  using bins_okD(4) [OF assms(1-3,6)] bins_okD(4) [OF assms(1,4,5,7)] by simp

lemma null_not_member: "bins_ok L z h \<Longrightarrow> block_null z \<notin> members L"
  by (auto simp: members_def dest: bins_okD(3))

lemma bins_ok_cong:
  assumes "bins_ok L z h" and "\<And>x. x \<in> members L \<Longrightarrow> h' x = h x"
  shows "bins_ok L z h'"
proof -
  have "dll h' (block_null z) (block_null z) (L fl sl) (blocks z fl sl)" if "fl < 32" "sl < 32" for fl sl
    using bins_okD(1) [OF assms(1) that] assms(2) that
    by (subst dll_cong [of "L fl sl" h' h]) (auto simp: members_def)
  moreover have "tlsf_mapping_insert (blk_size (h' b) AND NOT 1) = (fl, sl)" if "fl < 32" "sl < 32" "b \<in> set (L fl sl)" for fl sl b
  proof -
    have "b \<in> members L" using that by (auto simp: members_def)
    then show ?thesis using bins_okD(4) [OF assms(1) that] assms(2) by simp
  qed
  ultimately show ?thesis using bins_okD [OF assms(1)] by (simp add: bins_ok_def)
qed

text \<open>The last step of a list change: heads, bitmaps and headers of every slot are as required.\<close>

lemma bit_zero_iff: "(w :: u64) = 0 \<longleftrightarrow> (\<forall>n. \<not> bit w n)"
  by (metis bit_0_eq bit_eqI bot_apply bot_bool_def)

lemma bit_push_one: "bit (2 ^ n :: u64) k \<longleftrightarrow> k = n \<and> n < 64"
  by (auto simp: bit_simps)

lemma bins_okI:
  assumes "\<And>fl sl. fl < 32 \<Longrightarrow> sl < 32 \<Longrightarrow> dll h (block_null z) (block_null z) (L fl sl) (blocks z fl sl)"
    and "\<And>fl sl. fl < 32 \<Longrightarrow> sl < 32 \<Longrightarrow> distinct (L fl sl) \<and> block_null z \<notin> set (L fl sl)"
    and "\<And>fl sl b. fl < 32 \<Longrightarrow> sl < 32 \<Longrightarrow> b \<in> set (L fl sl) \<Longrightarrow> tlsf_mapping_insert (blk_size (h b) AND NOT 1) = (fl, sl)"
    and "\<And>fl sl. fl < 32 \<Longrightarrow> bit (sl_bitmap z fl) sl \<longleftrightarrow> sl < 32 \<and> L fl sl \<noteq> []"
    and "\<And>fl. bit (fl_bitmap z) fl \<longleftrightarrow> fl < 32 \<and> sl_bitmap z fl \<noteq> 0"
  shows "bins_ok L z h"
  using assms by (simp add: bins_ok_def)

lemma insert_bins:
  assumes ok: "bins_ok L z (blk m)" and b: "b \<notin> members L" "b \<noteq> block_null z"
    and i: "fl < 32" "sl < 32" "tlsf_mapping_insert (block_size b m) = (fl, sl)"
    and r: "tlsf_insert_free_block b fl sl (z, m) = (z', m')"
  shows "bins_ok (put_bin fl sl (b # L fl sl) L) z' (blk m')"
    and "block_null z' = block_null z" "total_pages z' = total_pages z"
    and "pma_bitmap m' = pma_bitmap m" "hhdm_offset m' = hhdm_offset m" "\<And>x. blk_size (blk m' x) = blk_size (blk m x)"
    and "\<And>x. x \<notin> members L \<Longrightarrow> x \<noteq> block_null z \<Longrightarrow> x \<noteq> b \<Longrightarrow> blk m' x = blk m x"
proof -
  let ?c = "blocks z fl sl"
  let ?h = "(blk m)(b := (blk m b)\<lparr>blk_next := ?c, blk_prev := block_null z\<rparr>)"
  define h' where "h' = ?h(?c := (?h ?c)\<lparr>blk_prev := b\<rparr>)"
  have z': "z' = (set_head fl sl b z)\<lparr>fl_bitmap := fl_bitmap z OR push_bit fl 1,
      sl_bitmap := (sl_bitmap z)(fl := sl_bitmap z fl OR push_bit sl 1)\<rparr>" and m': "m' = m\<lparr>blk := h'\<rparr>"
    using r by (simp_all add: tlsf_insert_free_block_def Let_def set_blk_def set_head_def h'_def)
  have c: "?c = hd (L fl sl @ [block_null z])" using dll_first [OF bins_okD(1) [OF ok i(1,2)]] .
  have cm: "?c \<in> set (L fl sl) \<or> ?c = block_null z" unfolding c by (cases "L fl sl") auto
  have bL: "b \<notin> set (L fl sl)" using b i by (auto simp: members_def)
  show "block_null z' = block_null z" "total_pages z' = total_pages z" "pma_bitmap m' = pma_bitmap m"
    "hhdm_offset m' = hhdm_offset m" "\<And>x. blk_size (blk m' x) = blk_size (blk m x)"
    unfolding z' m' by (simp_all add: set_head_def h'_def)
  show "\<And>x. x \<notin> members L \<Longrightarrow> x \<noteq> block_null z \<Longrightarrow> x \<noteq> b \<Longrightarrow> blk m' x = blk m x"
    using cm i unfolding m' by (auto simp: members_def h'_def)
  have other: "dll h' (block_null z) (block_null z) (L f s) (blocks z f s)" if "f < 32" "s < 32" "\<not> (f = fl \<and> s = sl)" for f s
  proof -
    have "\<forall>x\<in>set (L f s). h' x = blk m x"
    proof
      fix x assume x: "x \<in> set (L f s)"
      have "x \<noteq> b" using b x that by (auto simp: members_def)
      moreover have "x \<noteq> ?c" using cm x that bin_unique [OF ok i(1,2) that(1,2)] bins_okD(3) [OF ok that(1,2)] by auto
      ultimately show "h' x = blk m x" by (simp add: h'_def)
    qed
    then show ?thesis using bins_okD(1) [OF ok that(1,2)] dll_cong by blast
  qed
  have this_bin: "dll h' (block_null z) (block_null z) (b # L fl sl) b"
  proof (cases "L fl sl")
    case Nil
    then show ?thesis using c b by (simp add: h'_def)
  next
    case (Cons y ys)
    have "distinct (y # ys)" using bins_okD(2) [OF ok i(1,2)] Cons by simp
    then have "dll h' (block_null z) y ys (blk_next (blk m y)) = dll (blk m) (block_null z) y ys (blk_next (blk m y))"
      using bL c Cons by (intro dll_cong) (auto simp: h'_def)
    then show ?thesis using bins_okD(1) [OF ok i(1,2)] bL c Cons by (auto simp: h'_def)
  qed
  have sz: "blk_size (h' x) = blk_size (blk m x)" for x
    by (simp add: h'_def)
  have slb: "sl_bitmap z fl OR 2 ^ sl \<noteq> 0"
  proof
    assume "sl_bitmap z fl OR 2 ^ sl = 0"
    moreover have "bit (sl_bitmap z fl OR 2 ^ sl) sl" using i(2) by (simp add: bit_or_iff bit_push_one)
    ultimately show False by simp
  qed
  show "bins_ok (put_bin fl sl (b # L fl sl) L) z' (blk m')"
  proof (rule bins_okI)
    fix f s assume fs: "f < (32::nat)" "s < (32::nat)"
    show "dll (blk m') (block_null z') (block_null z') (put_bin fl sl (b # L fl sl) L f s) (blocks z' f s)"
      using other [OF fs] this_bin unfolding z' m' put_bin_apply by (cases "f = fl \<and> s = sl") (auto simp: set_head_def)
    show "distinct (put_bin fl sl (b # L fl sl) L f s) \<and> block_null z' \<notin> set (put_bin fl sl (b # L fl sl) L f s)"
      using bins_okD(2,3) [OF ok fs] bL b(2) by (auto simp: put_bin_apply z' set_head_def)
    show "tlsf_mapping_insert (blk_size (blk m' x) AND NOT 1) = (f, s)" if "x \<in> set (put_bin fl sl (b # L fl sl) L f s)" for x
      using that bins_okD(4) [OF ok fs, of x] i(3) unfolding m' by (auto simp: put_bin_apply sz block_size_def split: if_splits)
  next
    fix f s assume "f < (32::nat)"
    then show "bit (sl_bitmap z' f) s \<longleftrightarrow> s < 32 \<and> put_bin fl sl (b # L fl sl) L f s \<noteq> []"
      using bins_okD(5) [OF ok, of f s] i(2) by (auto simp: z' put_bin_apply bit_or_iff bit_push_one)
  next
    fix f
    show "bit (fl_bitmap z') f \<longleftrightarrow> f < 32 \<and> sl_bitmap z' f \<noteq> 0"
      using bins_okD(6) [OF ok, of f] i(1) slb by (auto simp: z' bit_or_iff bit_push_one)
  qed
qed

lemma bit_clear: "bit (w AND NOT (2 ^ n) :: u64) k \<longleftrightarrow> bit w k \<and> k \<noteq> n"
  by (auto simp: bit_and_iff bit_not_iff bit_push_one dest: bit_imp_le_length)

lemma clear_slot_fields [simp]:
  "block_null (clear_slot fl sl z) = block_null z" "total_pages (clear_slot fl sl z) = total_pages z"
  "blocks (clear_slot fl sl z) = blocks z"
  "sl_bitmap (clear_slot fl sl z) = (sl_bitmap z)(fl := sl_bitmap z fl AND NOT (2 ^ sl))"
  "fl_bitmap (clear_slot fl sl z) =
     (if sl_bitmap z fl AND NOT (2 ^ sl) = 0 then fl_bitmap z AND NOT (2 ^ fl) else fl_bitmap z)"
  by (simp_all add: clear_slot_def Let_def)

lemma remove_bins:
  assumes ok: "bins_ok L z (blk m)" and i: "fl < 32" "sl < 32" and b: "b \<in> set (L fl sl)"
    and r: "tlsf_remove_free_block b fl sl (z, m) = (z', m')"
  shows "bins_ok (put_bin fl sl (remove1 b (L fl sl)) L) z' (blk m')"
    and "block_null z' = block_null z" "total_pages z' = total_pages z"
    and "pma_bitmap m' = pma_bitmap m" "hhdm_offset m' = hhdm_offset m" "\<And>x. blk_size (blk m' x) = blk_size (blk m x)"
    and "\<And>x. x \<notin> members L \<Longrightarrow> x \<noteq> block_null z \<Longrightarrow> blk m' x = blk m x"
proof -
  let ?n = "blk_next (blk m b)" and ?p = "blk_prev (blk m b)"
  obtain xs ys where sp: "L fl sl = xs @ b # ys" using b by (auto simp: in_set_conv_decomp)
  have d: "distinct (xs @ b # ys)" "block_null z \<notin> set (xs @ b # ys)"
    using bins_okD(2,3) [OF ok i] sp by simp_all
  have rem: "remove1 b (L fl sl) = xs @ ys" using d sp by (simp add: remove1_append)
  have at: "?p = last (block_null z # xs)" "?n = hd (ys @ [block_null z])"
    using dll_at bins_okD(1) [OF ok i] sp by metis+
  have first: "blocks z fl sl = hd (xs @ b # ys @ [block_null z])"
    using dll_first [OF bins_okD(1) [OF ok i]] sp by simp
  have isb: "blocks z fl sl = b \<longleftrightarrow> xs = []" using first d by (cases xs) auto
  have np: "?n = block_null z \<or> ?n \<in> set (L fl sl)" "?p = block_null z \<or> ?p \<in> set (L fl sl)"
    unfolding at sp by (cases ys; auto) (cases "xs = []"; auto)
  have nn: "?n = block_null z \<longleftrightarrow> ys = []" unfolding at using d by (cases ys) auto
  have m': "m' = m\<lparr>blk := unlinked b (blk m)\<rparr>"
    using r by (auto simp: tlsf_remove_free_block_def Let_def set_blk_def unlinked_def split: if_splits)
  have z': "z' = (if xs = [] then (if ys = [] then clear_slot fl sl (set_head fl sl ?n z) else set_head fl sl ?n z) else z)"
    using r isb nn by (auto simp: tlsf_remove_free_block_def Let_def set_blk_def set_head_def split: if_splits)
  show f: "block_null z' = block_null z" "total_pages z' = total_pages z" "pma_bitmap m' = pma_bitmap m"
    "hhdm_offset m' = hhdm_offset m" "\<And>x. blk_size (blk m' x) = blk_size (blk m x)"
    unfolding z' m' by (simp_all add: set_head_def)
  show "\<And>x. x \<notin> members L \<Longrightarrow> x \<noteq> block_null z \<Longrightarrow> blk m' x = blk m x"
    using np i unfolding m' by (auto simp: members_def intro!: unlinked_other)
  have other: "dll (unlinked b (blk m)) (block_null z) (block_null z) (L f s) (blocks z f s)"
    if "f < 32" "s < 32" "\<not> (f = fl \<and> s = sl)" for f s
  proof -
    have "unlinked b (blk m) x = blk m x" if x: "x \<in> set (L f s)" for x
      using np x bin_unique [OF ok i \<open>f < 32\<close> \<open>s < 32\<close>] bins_okD(3) [OF ok \<open>f < 32\<close> \<open>s < 32\<close>] \<open>\<not> (f = fl \<and> s = sl)\<close>
      by (intro unlinked_other) auto
    then show ?thesis using bins_okD(1) [OF ok that(1,2)] dll_cong by blast
  qed
  have heads: "blocks z' f s = (if f = fl \<and> s = sl \<and> xs = [] then ?n else blocks z f s)" for f s
    by (simp add: z' set_head_def)
  have slz: "bit (sl_bitmap z' f) s \<longleftrightarrow> bit (sl_bitmap z f) s \<and> \<not> (f = fl \<and> s = sl \<and> xs = [] \<and> ys = [])" for f s
    by (auto simp: z' set_head_def bit_clear)
  have this_bin: "dll (unlinked b (blk m)) (block_null z) (block_null z) (xs @ ys) (if xs = [] then ?n else blocks z fl sl)"
    using dll_unlink [of "blk m" "block_null z" "block_null z" xs b ys] bins_okD(1) [OF ok i] d sp by simp
  show "bins_ok (put_bin fl sl (remove1 b (L fl sl)) L) z' (blk m')"
  proof (rule bins_okI, unfold rem f)
    fix f s assume fs: "f < (32::nat)" "s < (32::nat)"
    show "dll (blk m') (block_null z) (block_null z) (put_bin fl sl (xs @ ys) L f s) (blocks z' f s)"
      using other [OF fs] this_bin unfolding m' heads put_bin_apply by (cases "f = fl \<and> s = sl") auto
    show "distinct (put_bin fl sl (xs @ ys) L f s) \<and> block_null z \<notin> set (put_bin fl sl (xs @ ys) L f s)"
      using bins_okD(2,3) [OF ok fs] d by (auto simp: put_bin_apply)
    show "tlsf_mapping_insert (blk_size (blk m x) AND NOT 1) = (f, s)" if "x \<in> set (put_bin fl sl (xs @ ys) L f s)" for x
      using that bins_okD(4) [OF ok fs, of x] sp by (auto simp: put_bin_apply split: if_splits)
  next
    fix f s assume "f < (32::nat)"
    then show "bit (sl_bitmap z' f) s \<longleftrightarrow> s < 32 \<and> put_bin fl sl (xs @ ys) L f s \<noteq> []"
      unfolding slz using bins_okD(5) [OF ok, of f s] sp by (auto simp: put_bin_apply)
  next
    fix f
    show "bit (fl_bitmap z') f \<longleftrightarrow> f < 32 \<and> sl_bitmap z' f \<noteq> 0"
      using bins_okD(6) [OF ok, of f] i(1) by (auto simp: z' set_head_def bit_clear)
  qed
qed

section \<open>Size classes\<close>

lemma find_up: "find P [0..<n] = Some k \<Longrightarrow> k < n \<and> P k"
  by (auto simp: find_Some_iff)

lemma find_up_None: "find P [0..<n] = None \<longleftrightarrow> (\<forall>k<n. \<not> P k)"
  by (auto simp: find_None_iff)

lemma find_down: "find P (rev [0..<n]) = Some k \<Longrightarrow> k < n \<and> P k \<and> (\<forall>j. k < j \<and> j < n \<longrightarrow> \<not> P j)"
  by (induction n) (auto simp: less_Suc_eq split: if_splits)

lemma pma_ffs_bit: "w \<noteq> 0 \<Longrightarrow> \<exists>k<64. pma_ffs w = int k \<and> bit w k"
proof -
  assume "w \<noteq> 0"
  then obtain k where "bit w k" by (auto simp: bit_zero_iff)
  then have "find (bit w) [0..<64] \<noteq> None"
    using bit_imp_le_length [of w k] by (auto simp: find_up_None)
  then obtain j where j: "find (bit w) [0..<64] = Some j" by blast
  then show ?thesis using find_up [OF j] by (auto simp: pma_ffs_def)
qed

lemma bit_le_unat: "bit (w :: u64) k \<Longrightarrow> 2 ^ k \<le> unat w"
proof -
  assume "bit w k"
  then have "bit (unat w) k" by (simp add: bit_unsigned_iff)
  then have "odd (unat w div 2 ^ k)" by (simp add: bit_iff_odd)
  then show ?thesis by (metis div_less even_zero not_less)
qed

lemma no_high_bits: "(\<forall>j\<ge>n. \<not> bit (w :: u64) j) \<Longrightarrow> unat w < 2 ^ n"
proof -
  assume "\<forall>j\<ge>n. \<not> bit w j"
  then have "drop_bit n w = 0" by (simp add: bit_zero_iff bit_drop_bit_eq)
  then have "unat w div 2 ^ n = 0" by (metis unat_0 unat_drop_bit)
  then show ?thesis by (simp add: div_eq_0_iff)
qed

lemma pma_fls_spec: "w \<noteq> 0 \<Longrightarrow> \<exists>k<64. pma_fls w = int k \<and> 2 ^ k \<le> unat w \<and> unat w < 2 ^ (k + 1)"
proof -
  assume "w \<noteq> 0"
  then obtain i where i: "bit w i" by (auto simp: bit_zero_iff)
  then have "find (bit w) (rev [0..<64]) \<noteq> None"
    using bit_imp_le_length [of w i] by (auto simp: find_None_iff)
  then obtain k where k: "find (bit w) (rev [0..<64]) = Some k" by blast
  then have b: "k < 64" "bit w k" "\<And>j. k < j \<Longrightarrow> j < 64 \<Longrightarrow> \<not> bit w j" using find_down by blast+
  have "\<forall>j\<ge>k + 1. \<not> bit w j"
  proof (intro allI impI)
    fix j assume "k + 1 \<le> j"
    then show "\<not> bit w j" using b(3) [of j] bit_imp_le_length [of w j] by (cases "j < 64") auto
  qed
  then have "unat w < 2 ^ (k + 1)" by (rule no_high_bits)
  then show ?thesis using k b bit_le_unat [OF b(2)] by (auto simp: pma_fls_def)
qed

lemma mapping_small:
  "unat sz < 2 ^ 17 \<Longrightarrow> tlsf_mapping_insert sz = (0, unat sz div 4096)"
  by (simp add: tlsf_mapping_insert_def PMA_SMALL_BLOCK_SIZE_def PMA_FL_INDEX_SHIFT_def PMA_SL_INDEX_COUNT_LOG2_def
      PMA_ALIGN_SIZE_LOG2_def word_less_nat_alt unat_drop_bit)

lemma xor_32: "unat (x :: u64) div 32 = 1 \<Longrightarrow> unat (x XOR 32) < 32"
proof -
  assume "unat x div 32 = 1"
  then have "unat (drop_bit 5 x) = unat (1 :: u64)" by (simp add: unat_drop_bit)
  then have "drop_bit 5 x = 1" by (simp only: word_unat_eq_iff)
  then have "drop_bit 5 (x XOR 32) = 0" by (simp add: drop_bit_xor)
  then have "unat (x XOR 32) div 2 ^ 5 = 0" by (metis unat_0 unat_drop_bit)
  then show ?thesis by simp
qed

lemma mapping_large:
  assumes "2 ^ 17 \<le> unat sz" and "unat sz < 2 ^ 48"
  shows "\<exists>fl sl. tlsf_mapping_insert sz = (fl, sl) \<and> 1 \<le> fl \<and> fl < 32 \<and> sl < 32"
proof -
  have "sz \<noteq> 0" using assms(1) by auto
  then obtain k where k: "pma_fls sz = int k" "2 ^ k \<le> unat sz" "unat sz < 2 ^ (k + 1)"
    using pma_fls_spec by blast
  have "(2::nat) ^ 17 < 2 ^ (k + 1)" "(2::nat) ^ k < 2 ^ 48" using k assms by linarith+
  then have "17 < k + 1" "k < 48" by (metis power_strict_increasing_iff one_less_numeral_iff semiring_norm(76))+
  then have k17: "17 \<le> k" "k < 48" by simp_all
  have "(2::nat) ^ k = 2 ^ (k - 5) * 32" "(2::nat) ^ (k + 1) = 2 ^ (k - 5) * 64"
    using k17 power_add [of "2::nat" "k - 5" 5] by simp_all
  then have "unat sz div 2 ^ (k - 5) div 32 = 1"
    using k by (simp add: div_mult2_eq [symmetric] div_nat_eqI)
  then have "unat (drop_bit (k - 5) sz XOR 32) < 32"
    by (intro xor_32) (simp add: unat_drop_bit)
  moreover have "\<not> sz < 131072" using assms(1) by (simp add: word_less_nat_alt)
  ultimately show ?thesis
    using k17 k by (auto simp: tlsf_mapping_insert_def PMA_SMALL_BLOCK_SIZE_def PMA_FL_INDEX_SHIFT_def
        PMA_SL_INDEX_COUNT_LOG2_def PMA_ALIGN_SIZE_LOG2_def Let_def)
qed

text \<open>Slots at or after \<open>(fl, sl)\<close> in the order of the search.\<close>

definition slot_from :: "nat \<Rightarrow> nat \<Rightarrow> nat \<Rightarrow> nat \<Rightarrow> bool" where
  "slot_from fl sl f s \<longleftrightarrow> f < 32 \<and> s < 32 \<and> (f = fl \<and> sl \<le> s \<or> fl < f)"

lemma bit_from: "bit (w AND NOT (mask n) :: u64) k \<longleftrightarrow> bit w k \<and> n \<le> k"
  by (auto simp: bit_simps dest: bit_imp_le_length)

lemma search_Some:
  assumes ok: "bins_ok L z h" and fl: "fl < 32" and r: "tlsf_search_suitable z fl sl = Some (f, s)"
  shows "slot_from fl sl f s \<and> L f s \<noteq> []"
proof (cases "sl_bitmap z fl AND push_bit sl (- 1) = 0")
  case True
  let ?w = "fl_bitmap z AND push_bit (fl + 1) (- 1)"
  have w: "?w \<noteq> 0" and f: "f = nat (pma_ffs ?w)" and s: "s = nat (pma_ffs (sl_bitmap z f))"
    using r True by (auto simp: tlsf_search_suitable_def Let_def split: if_splits)
  have "bit ?w f" using pma_ffs_bit [OF w] f by auto
  then have f': "f < 32" "fl < f" "sl_bitmap z f \<noteq> 0" using bins_okD(6) [OF ok, of f] by (auto simp: bit_from)
  then have "bit (sl_bitmap z f) s" using pma_ffs_bit [OF f'(3)] s by auto
  then show ?thesis using bins_okD(5) [OF ok f'(1)] f' by (auto simp: slot_from_def)
next
  case False
  then have f: "f = fl" and s: "s = nat (pma_ffs (sl_bitmap z fl AND push_bit sl (- 1)))"
    using r by (auto simp: tlsf_search_suitable_def Let_def)
  then have "bit (sl_bitmap z fl AND push_bit sl (- 1)) s" using pma_ffs_bit [OF False] by auto
  then show ?thesis using bins_okD(5) [OF ok fl] fl f by (auto simp: slot_from_def bit_from)
qed

lemma search_None:
  assumes ok: "bins_ok L z h" and fl: "fl < 32" and r: "tlsf_search_suitable z fl sl = None" and s: "slot_from fl sl f s"
  shows "L f s = []"
proof -
  have w: "sl_bitmap z fl AND push_bit sl (- 1) = 0" "fl_bitmap z AND push_bit (fl + 1) (- 1) = 0"
    using r by (auto simp: tlsf_search_suitable_def Let_def split: if_splits)
  have "\<not> bit (sl_bitmap z fl) s \<or> s < sl" using w(1) bit_from [of "sl_bitmap z fl" sl s] by auto
  moreover have "\<not> bit (fl_bitmap z) f \<or> f < fl + 1" using w(2) bit_from [of "fl_bitmap z" "fl + 1" f] by auto
  ultimately show ?thesis
    using s bins_okD(5) [OF ok, of f s] bins_okD(6) [OF ok, of f] by (auto simp: slot_from_def)
qed

section \<open>Runs of free pages\<close>

definition run :: "(nat \<Rightarrow> bool) \<Rightarrow> nat \<Rightarrow> nat \<Rightarrow> nat \<Rightarrow> nat \<Rightarrow> bool" where
  "run F lo hi p n \<longleftrightarrow> 0 < n \<and> lo \<le> p \<and> p + n \<le> hi \<and> (\<forall>q. p \<le> q \<and> q < p + n \<longrightarrow> F q) \<and>
     (p = lo \<or> \<not> F (p - 1)) \<and> (p + n = hi \<or> \<not> F (p + n))"

lemma runD:
  assumes "run F lo hi p n"
  shows "0 < n" "lo \<le> p" "p + n \<le> hi" "p \<le> q \<Longrightarrow> q < p + n \<Longrightarrow> F q" "p = lo \<or> \<not> F (p - 1)" "p + n = hi \<or> \<not> F (p + n)"
  using assms by (auto simp: run_def)

lemma run_before:
  assumes "run F lo hi p n" and "lo \<le> q" and "q < p" and "\<forall>i. q \<le> i \<and> i < p \<longrightarrow> F i"
  shows False
proof -
  have "F (p - 1)" using assms(3,4) by auto
  then show False using runD(5) [OF assms(1)] assms(2,3) by simp
qed

lemma run_overlap_le:
  assumes "run F lo hi p n" and "run F lo hi p' n'" and "p \<le> q" "q < p + n" and "p' \<le> q" "q < p' + n'"
  shows "p \<le> p'" and "p' + n' \<le> p + n"
proof -
  show "p \<le> p'"
  proof (rule ccontr)
    assume "\<not> p \<le> p'"
    then have "p' < p" by simp
    moreover have "\<forall>i. p' \<le> i \<and> i < p \<longrightarrow> F i" using runD(4) [OF assms(2)] assms(3-6) by simp
    ultimately show False using run_before [OF assms(1) runD(2) [OF assms(2)]] by blast
  qed
  show "p' + n' \<le> p + n"
    using runD(3) [OF assms(2)] runD(6) [OF assms(1)] runD(4) [OF assms(2), of "p + n"] assms(3-6)
    by linarith
qed

lemma run_overlap:
  assumes "run F lo hi p n" and "run F lo hi p' n'" and "p \<le> q" "q < p + n" and "p' \<le> q" "q < p' + n'"
  shows "p' = p \<and> n' = n"
  using run_overlap_le [OF assms] run_overlap_le [OF assms(2,1,5,6,3,4)] by linarith

lemma run_same_start: "run F lo hi p n \<Longrightarrow> run F lo hi p n' \<Longrightarrow> n' = n"
  using run_overlap [of F lo hi p n p n' p] runD(1) by force

text \<open>Taking the first \<open>c\<close> pages of a run leaves the rest of it, if any, and the other runs.\<close>

lemma run_take:
  assumes r: "run F lo hi p n" and c: "0 < c" "c \<le> n" and F': "\<And>q. F' q \<longleftrightarrow> F q \<and> \<not> (p \<le> q \<and> q < p + c)"
  shows "run F' lo hi q k \<longleftrightarrow> run F lo hi q k \<and> q \<noteq> p \<or> c < n \<and> q = p + c \<and> k = n - c"
proof
  assume r': "run F' lo hi q k"
  have in_F: "\<forall>i. q \<le> i \<and> i < q + k \<longrightarrow> F i \<and> \<not> (p \<le> i \<and> i < p + c)" using runD(4) [OF r'] F' by blast
  show "run F lo hi q k \<and> q \<noteq> p \<or> c < n \<and> q = p + c \<and> k = n - c"
  proof (cases "q = p + c")
    case True
    have "F (p + c)" using in_F runD(1) [OF r'] True by auto
    then have "c < n" using runD(6) [OF r] c runD(1,3) [OF r'] True by (cases "c = n") auto
    moreover have "run F' lo hi (p + c) (n - c)"
      using r c \<open>c < n\<close> unfolding run_def F' by auto
    ultimately show ?thesis using run_same_start [OF r' [unfolded True]] True by simp
  next
    case False
    have q: "q \<noteq> p" "\<not> (p \<le> q \<and> q < p + c)" "q + k \<noteq> p \<or> True" using in_F runD(1) [OF r'] c by auto
    have "q = lo \<or> \<not> F (q - 1)"
      using runD(5) [OF r'] runD(1,2) [OF r'] q False unfolding F' by auto
    moreover have "q + k = hi \<or> \<not> F (q + k)"
    proof (cases "p \<le> q + k \<and> q + k < p + c")
      case inside: True
      then have "q + k = p" using in_F q by (metis add_leD1 leI le_add1 le_neq_implies_less nat_le_linear not_less)
      then show ?thesis
        using run_before [OF r runD(2) [OF r'], rotated] in_F runD(1) [OF r'] by simp
    qed (use runD(6) [OF r'] F' in auto)
    ultimately show ?thesis using r' in_F q unfolding run_def by blast
  qed
next
  assume "run F lo hi q k \<and> q \<noteq> p \<or> c < n \<and> q = p + c \<and> k = n - c"
  then show "run F' lo hi q k"
  proof
    assume a: "run F lo hi q k \<and> q \<noteq> p"
    then have "\<not> (p \<le> i \<and> i < p + c)" if "q \<le> i" "i < q + k" for i
      using run_overlap [OF r _ _ _ that] c by auto
    then show ?thesis using a unfolding run_def F' by blast
  next
    assume "c < n \<and> q = p + c \<and> k = n - c"
    then show ?thesis using r c unfolding run_def F' by auto
  qed
qed

text \<open>
  Releasing the pages \<open>[s, s + c)\<close>, with \<open>[a, s)\<close> free before and \<open>[s + c, e)\<close> free after them, makes one
  run of \<open>[a, e)\<close> and keeps the runs that do not touch the released pages.
\<close>

lemma run_merge:
  assumes c: "0 < c" "lo \<le> a" "a \<le> s" "s + c \<le> e" "e \<le> hi"
    and used: "\<forall>q. s \<le> q \<and> q < s + c \<longrightarrow> \<not> F q"
    and a: "\<forall>q. a \<le> q \<and> q < s \<longrightarrow> F q" "a = lo \<or> \<not> F (a - 1)"
    and e: "\<forall>q. s + c \<le> q \<and> q < e \<longrightarrow> F q" "e = hi \<or> \<not> F e"
    and F': "\<And>q. F' q \<longleftrightarrow> F q \<or> s \<le> q \<and> q < s + c"
  shows "run F' lo hi q k \<longleftrightarrow> q = a \<and> k = e - a \<or> run F lo hi q k \<and> (q + k < s \<or> s + c < q)"
proof -
  have m: "run F' lo hi a (e - a)"
    using c a e used unfolding run_def F' by (auto simp: not_less)
  show ?thesis
  proof
    assume r: "run F' lo hi q k"
    show "q = a \<and> k = e - a \<or> run F lo hi q k \<and> (q + k < s \<or> s + c < q)"
    proof (cases "\<exists>i. q \<le> i \<and> i < q + k \<and> a \<le> i \<and> i < e")
      case True
      then show ?thesis using run_overlap [OF m r] c by (metis le_add_diff_inverse le_trans le_add1)
    next
      case False
      then have d: "q + k \<le> a \<or> e \<le> q" using runD(1) [OF r] c
        by (metis add_less_cancel_left le_add1 leI less_add_same_cancel1 nat_le_linear order_less_le_trans add.commute)
      have ne: "q + k \<noteq> a" "q \<noteq> e"
      proof -
        show "q + k \<noteq> a"
        proof
          assume "q + k = a"
          then show False using run_before [OF m runD(2) [OF r]] runD(1,4) [OF r] by simp
        qed
        show "q \<noteq> e"
        proof
          assume "q = e"
          then show False using run_before [OF r, of a] runD(4) [OF m] c by simp
        qed
      qed
      have "\<forall>i. q \<le> i \<and> i < q + k \<longrightarrow> F i" using runD(4) [OF r] d c unfolding F' by fastforce
      moreover have "q = lo \<or> \<not> F (q - 1)" "q + k = hi \<or> \<not> F (q + k)" using runD(5,6) [OF r] F' by blast+
      ultimately have "run F lo hi q k" using r unfolding run_def by blast
      then show ?thesis using d ne c by auto
    qed
  next
    assume "q = a \<and> k = e - a \<or> run F lo hi q k \<and> (q + k < s \<or> s + c < q)"
    then show "run F' lo hi q k"
    proof
      assume r: "run F lo hi q k \<and> (q + k < s \<or> s + c < q)"
      then have "\<not> (s \<le> i \<and> i < s + c)" if "q - 1 \<le> i" "i \<le> q + k" for i using that by auto
      then show ?thesis using r unfolding run_def F' by auto
    qed (use m in simp)
  qed
qed

lemma free_start_spec:
  "pma_find_free_start z m p \<le> p \<and>
   (\<forall>q. pma_find_free_start z m p \<le> q \<and> q < p \<longrightarrow> pma_page_is_free z m q) \<and>
   (pma_find_free_start z m p = 0 \<or> \<not> pma_page_is_free z m (pma_find_free_start z m p - 1))"
  by (induction p) (auto simp: less_Suc_eq)

lemma free_end_spec:
  "p \<le> pma_find_free_end z m p \<and>
   (\<forall>q. p \<le> q \<and> q < pma_find_free_end z m p \<longrightarrow> pma_page_is_free z m q) \<and>
   \<not> pma_page_is_free z m (pma_find_free_end z m p)"
proof (induction z m p rule: pma_find_free_end.induct)
  case (1 z m p)
  show ?case
  proof (cases "p < unat (total_pages z) \<and> pma_page_is_free z m p")
    case True
    then have e: "pma_find_free_end z m p = pma_find_free_end z m (Suc p)"
      by (subst pma_find_free_end.simps) simp
    show ?thesis unfolding e using 1 [OF True] True by (metis Suc_le_eq le_SucI Suc_leD le_eq_less_or_eq)
  next
    case False
    then have "pma_find_free_end z m p = p" by (subst pma_find_free_end.simps) auto
    then show ?thesis using False by (auto simp: pma_page_is_free_def)
  qed
qed

lemma free_end_bound: "p \<le> unat (total_pages z) \<Longrightarrow> pma_find_free_end z m p \<le> unat (total_pages z)"
proof -
  assume p: "p \<le> unat (total_pages z)"
  show ?thesis
  proof (rule ccontr)
    assume "\<not> ?thesis"
    then have "pma_page_is_free z m (unat (total_pages z))" using free_end_spec [of p z m] p by auto
    then show False by (simp add: pma_page_is_free_def)
  qed
qed

lemma used_range_spec:
  assumes "unat (total_pages z) \<le> 8 * length (pma_bitmap m)"
  shows "blk (set_used_range z p n m) = blk m" "hhdm_offset (set_used_range z p n m) = hhdm_offset m"
    "length (pma_bitmap (set_used_range z p n m)) = length (pma_bitmap m)"
    "BITMAP_TEST (pma_bitmap (set_used_range z p n m)) q \<longleftrightarrow>
       BITMAP_TEST (pma_bitmap m) q \<or> p \<le> q \<and> q < p + n \<and> q < unat (total_pages z)"
proof -
  have "blk (set_used_range z p n m) = blk m \<and> hhdm_offset (set_used_range z p n m) = hhdm_offset m \<and>
    length (pma_bitmap (set_used_range z p n m)) = length (pma_bitmap m) \<and>
    (BITMAP_TEST (pma_bitmap (set_used_range z p n m)) q \<longleftrightarrow>
       BITMAP_TEST (pma_bitmap m) q \<or> p \<le> q \<and> q < p + n \<and> q < unat (total_pages z))"
    using assms by (induction n) (auto simp: set_used_range_def pma_page_set_used_def)
  then show "blk (set_used_range z p n m) = blk m" "hhdm_offset (set_used_range z p n m) = hhdm_offset m"
    "length (pma_bitmap (set_used_range z p n m)) = length (pma_bitmap m)"
    "BITMAP_TEST (pma_bitmap (set_used_range z p n m)) q \<longleftrightarrow>
       BITMAP_TEST (pma_bitmap m) q \<or> p \<le> q \<and> q < p + n \<and> q < unat (total_pages z)" by simp_all
qed

lemma free_range_spec:
  assumes "unat (total_pages z) \<le> 8 * length (pma_bitmap m)"
  shows "blk (set_free_range z p n m) = blk m" "hhdm_offset (set_free_range z p n m) = hhdm_offset m"
    "length (pma_bitmap (set_free_range z p n m)) = length (pma_bitmap m)"
    "BITMAP_TEST (pma_bitmap (set_free_range z p n m)) q \<longleftrightarrow>
       BITMAP_TEST (pma_bitmap m) q \<and> \<not> (p \<le> q \<and> q < p + n \<and> q < unat (total_pages z))"
proof -
  have "blk (set_free_range z p n m) = blk m \<and> hhdm_offset (set_free_range z p n m) = hhdm_offset m \<and>
    length (pma_bitmap (set_free_range z p n m)) = length (pma_bitmap m) \<and>
    (BITMAP_TEST (pma_bitmap (set_free_range z p n m)) q \<longleftrightarrow>
       BITMAP_TEST (pma_bitmap m) q \<and> \<not> (p \<le> q \<and> q < p + n \<and> q < unat (total_pages z)))"
    using assms by (induction n) (auto simp: set_free_range_def pma_page_set_free_def)
  then show "blk (set_free_range z p n m) = blk m" "hhdm_offset (set_free_range z p n m) = hhdm_offset m"
    "length (pma_bitmap (set_free_range z p n m)) = length (pma_bitmap m)"
    "BITMAP_TEST (pma_bitmap (set_free_range z p n m)) q \<longleftrightarrow>
       BITMAP_TEST (pma_bitmap m) q \<and> \<not> (p \<le> q \<and> q < p + n \<and> q < unat (total_pages z))" by simp_all
qed

lemma mapping_huge: "2 ^ 48 \<le> unat sz \<Longrightarrow> 32 \<le> fst (tlsf_mapping_insert sz)"
proof -
  assume a: "2 ^ 48 \<le> unat sz"
  then have "sz \<noteq> 0" by auto
  then obtain k where k: "pma_fls sz = int k" "unat sz < 2 ^ (k + 1)" using pma_fls_spec by blast
  then have "(2::nat) ^ 48 < 2 ^ (k + 1)" using a by linarith
  then have "48 < k + 1" by (metis power_strict_increasing_iff one_less_numeral_iff semiring_norm(76))
  moreover have "\<not> sz < 131072" using a by (simp add: word_less_nat_alt)
  ultimately show ?thesis
    using k by (simp add: tlsf_mapping_insert_def PMA_SMALL_BLOCK_SIZE_def PMA_FL_INDEX_SHIFT_def
        PMA_SL_INDEX_COUNT_LOG2_def PMA_ALIGN_SIZE_LOG2_def Let_def)
qed

lemma locate_spec:
  assumes ok: "bins_ok L z (blk m)" and nz: "0 \<notin> members L" "block_null z \<noteq> 0" and sz: "sz \<noteq> 0"
    and map: "tlsf_mapping_insert sz = (fl, sl)" and r: "tlsf_locate_free sz (z, m) = ((z', m'), b)"
  shows "b = 0 \<and> z' = z \<and> m' = m \<and> (fl < 32 \<longrightarrow> (\<forall>f s. slot_from fl sl f s \<longrightarrow> L f s = [])) \<or>
    (\<exists>f s. slot_from fl sl f s \<and> L f s \<noteq> [] \<and> b = hd (L f s) \<and> b \<noteq> 0 \<and> tlsf_remove_free_block b f s (z, m) = (z', m'))"
proof (cases "fl < 32")
  case True
  show ?thesis
  proof (cases "tlsf_search_suitable z fl sl")
    case None
    then show ?thesis
      using r sz map True search_None [OF ok True None] by (auto simp: tlsf_locate_free_def PMA_FL_INDEX_COUNT_def)
  next
    case (Some fs)
    obtain f s where fs: "fs = (f, s)" by force
    then have sl: "slot_from fl sl f s" "L f s \<noteq> []" using search_Some [OF ok True] Some by auto
    then have lt: "f < 32" "s < 32" by (auto simp: slot_from_def)
    have hd: "blocks z f s = hd (L f s)" using dll_first [OF bins_okD(1) [OF ok lt]] sl(2) by simp
    have "hd (L f s) \<in> members L" using lt hd_in_set [OF sl(2)] unfolding members_def by blast
    then have "hd (L f s) \<noteq> 0" using nz by auto
    then show ?thesis
      using r sz map True Some fs hd sl by (force simp: tlsf_locate_free_def PMA_FL_INDEX_COUNT_def Let_def)
  qed
qed (use r sz map in \<open>auto simp: tlsf_locate_free_def PMA_FL_INDEX_COUNT_def\<close>)

section \<open>The zone invariant\<close>

definition page_addr :: "pma_mem \<Rightarrow> nat \<Rightarrow> u64" where
  "page_addr m p = of_nat p * 4096 + hhdm_offset m"

text \<open>
  The free blocks of a zone that manages the pages from \<open>lo\<close> up to its last page are exactly the runs
  of free pages of the bitmap, each listed in the slot of its size.
\<close>

definition zone_lists :: "nat \<Rightarrow> bins \<Rightarrow> pma_zone_t \<Rightarrow> pma_mem \<Rightarrow> bool" where
  "zone_lists lo L z m \<longleftrightarrow> bins_ok L z (blk m) \<and>
     (\<forall>b. b \<in> members L \<longleftrightarrow> (\<exists>p n. run (pma_page_is_free z m) lo (unat (total_pages z)) p n \<and> b = page_addr m p)) \<and>
     (\<forall>p n. run (pma_page_is_free z m) lo (unat (total_pages z)) p n \<longrightarrow>
        blk_size (blk m (page_addr m p)) = of_nat n * 4096 OR 1)"

definition zone_env :: "nat \<Rightarrow> pma_zone_t \<Rightarrow> pma_mem \<Rightarrow> bool" where
  "zone_env lo z m \<longleftrightarrow> unat (total_pages z) < 2 ^ 36 \<and> unat (total_pages z) \<le> 8 * length (pma_bitmap m) \<and>
     (\<forall>p<unat (total_pages z). page_addr m p \<noteq> block_null z \<and> page_addr m p \<noteq> 0) \<and> block_null z \<noteq> 0"

definition zone_ok :: "nat \<Rightarrow> pma_zone_t \<Rightarrow> pma_mem \<Rightarrow> bool" where
  "zone_ok lo z m \<longleftrightarrow> zone_env lo z m \<and> (\<exists>L. zone_lists lo L z m) \<and>
     \<not> pma_page_is_free z m 0 \<and> (0 < lo \<longrightarrow> \<not> pma_page_is_free z m (lo - 1))"

lemma unat_pages: "n \<le> 2 ^ 36 \<Longrightarrow> unat (of_nat n * 4096 :: u64) = n * 4096"
proof -
  assume "n \<le> 2 ^ 36"
  then have "unat (of_nat n :: u64) = n" by (simp add: unat_of_nat)
  then show ?thesis using \<open>n \<le> 2 ^ 36\<close> by (simp add: unat_mult_small)
qed

lemma page_addr_inj:
  assumes "p \<le> 2 ^ 36" "q \<le> 2 ^ 36" "page_addr m p = page_addr m q"
  shows "p = q"
proof -
  have "unat (of_nat p * 4096 :: u64) = unat (of_nat q * 4096 :: u64)" using assms(3) by (simp add: page_addr_def)
  then show ?thesis using assms(1,2) by (simp only: unat_pages mult_cancel2) simp
qed

lemma pages_even: "bit (of_nat n * 4096 :: u64) 0 = False"
proof -
  have "(of_nat n * 4096 :: u64) = push_bit 12 (of_nat n)" by (simp add: push_bit_eq_mult)
  then show ?thesis by (simp add: bit_push_bit_iff)
qed

lemma size_code: "(of_nat n * 4096 OR 1 :: u64) AND NOT 1 = of_nat n * 4096"
proof (rule bit_eqI)
  fix k
  show "bit ((of_nat n * 4096 OR 1 :: u64) AND NOT 1) k = bit (of_nat n * 4096 :: u64) k"
    using pages_even [of n] bit_imp_le_length [of "of_nat n * 4096 :: u64" k] by (cases k) (auto simp: bit_simps)
qed

lemma size_code_simp [simp]: "(of_nat n * 4096 OR 1 :: u64) AND - 2 = of_nat n * 4096"
  using size_code [of n] by simp

lemma zone_listsD:
  assumes "zone_lists lo L z m"
  shows "bins_ok L z (blk m)"
    and "b \<in> members L \<Longrightarrow> \<exists>p n. run (pma_page_is_free z m) lo (unat (total_pages z)) p n \<and> b = page_addr m p"
    and "run (pma_page_is_free z m) lo (unat (total_pages z)) p n \<Longrightarrow> page_addr m p \<in> members L"
    and "run (pma_page_is_free z m) lo (unat (total_pages z)) p n \<Longrightarrow> block_size (page_addr m p) m = of_nat n * 4096"
  using assms by (auto simp: zone_lists_def block_size_def)

lemma run_bounds: "zone_env lo z m \<Longrightarrow> run F lo (unat (total_pages z)) p n \<Longrightarrow> p + n < 2 ^ 36 \<and> p < 2 ^ 36"
  by (auto simp: zone_env_def run_def)

lemma zone_pages_mapping:
  assumes "0 < n" and "n < 2 ^ 36"
  shows "\<exists>fl sl. tlsf_mapping_insert (of_nat n * 4096) = (fl, sl) \<and> fl < 32 \<and> sl < 32 \<and> (n < 32 \<longrightarrow> fl = 0 \<and> sl = n) \<and> (32 \<le> n \<longrightarrow> 1 \<le> fl)"
proof -
  have u: "unat (of_nat n * 4096 :: u64) = n * 4096" using assms by (intro unat_pages) simp
  show ?thesis
  proof (cases "n < 32")
    case True
    then show ?thesis using mapping_small [of "of_nat n * 4096"] u by simp
  next
    case False
    then show ?thesis using mapping_large [of "of_nat n * 4096"] u assms(2) by auto
  qed
qed

lemma members_put:
  assumes "bins_ok L z h" "f < 32" "s < 32"
  shows "b \<in> set (L f s) \<Longrightarrow> members (put_bin f s (remove1 b (L f s)) L) = members L - {b}"
    and "members (put_bin f s (b # L f s) L) = insert b (members L)"
proof -
  assume b: "b \<in> set (L f s)"
  have "x \<in> members (put_bin f s (remove1 b (L f s)) L) \<longleftrightarrow> x \<in> members L \<and> x \<noteq> b" for x
  proof
    assume "x \<in> members (put_bin f s (remove1 b (L f s)) L)"
    then obtain f' s' where *: "f' < 32" "s' < 32" "x \<in> set (put_bin f s (remove1 b (L f s)) L f' s')"
      by (auto simp: members_def)
    have "x \<in> set (L f' s') \<and> x \<noteq> b"
    proof (cases "f' = f \<and> s' = s")
      case True
      then show ?thesis using *(3) bins_okD(2) [OF assms] by (simp add: put_bin_apply)
    next
      case False
      then have "x \<in> set (L f' s')" using *(3) by (simp add: put_bin_apply split: if_splits)
      then show ?thesis using bin_unique [OF assms *(1,2) b] False by blast
    qed
    then show "x \<in> members L \<and> x \<noteq> b" using * unfolding members_def by blast
  next
    assume "x \<in> members L \<and> x \<noteq> b"
    then obtain f' s' where *: "f' < 32" "s' < 32" "x \<in> set (L f' s')" "x \<noteq> b" by (auto simp: members_def)
    then have "x \<in> set (put_bin f s (remove1 b (L f s)) L f' s')" by (auto simp: put_bin_apply)
    then show "x \<in> members (put_bin f s (remove1 b (L f s)) L)" using * unfolding members_def by blast
  qed
  then show "members (put_bin f s (remove1 b (L f s)) L) = members L - {b}" by auto
next
  show "members (put_bin f s (b # L f s) L) = insert b (members L)"
  proof (intro set_eqI iffI)
    fix x assume "x \<in> members (put_bin f s (b # L f s) L)"
    then obtain f' s' where "f' < 32" "s' < 32" "x \<in> set (put_bin f s (b # L f s) L f' s')" by (auto simp: members_def)
    then show "x \<in> insert b (members L)" by (cases "f' = f \<and> s' = s") (auto simp: put_bin_apply members_def)
  next
    fix x assume "x \<in> insert b (members L)"
    then consider "x = b" | f' s' where "f' < 32" "s' < 32" "x \<in> set (L f' s')" by (auto simp: members_def)
    then show "x \<in> members (put_bin f s (b # L f s) L)"
    proof cases
      case 1
      then have "x \<in> set (put_bin f s (b # L f s) L f s)" by (simp add: put_bin_apply)
      then show ?thesis using assms(2,3) unfolding members_def by blast
    next
      case 2
      then have "x \<in> set (put_bin f s (b # L f s) L f' s')" by (auto simp: put_bin_apply)
      then show ?thesis using 2 unfolding members_def by blast
    qed
  qed
qed

lemma zone_lists_transfer:
  assumes "zone_lists lo L z m" and "bins_ok L' z' (blk m')" "members L' = members L" "total_pages z' = total_pages z"
    "pma_bitmap m' = pma_bitmap m" "hhdm_offset m' = hhdm_offset m" "\<And>x. blk_size (blk m' x) = blk_size (blk m x)"
  shows "zone_lists lo L' z' m'"
proof -
  have "pma_page_is_free z' m' = pma_page_is_free z m" "page_addr m' = page_addr m"
    using assms by (auto simp: pma_page_is_free_def page_addr_def fun_eq_iff)
  then show ?thesis using assms by (simp add: zone_lists_def)
qed

lemma page_round: "p < 2 ^ 52 \<Longrightarrow> (of_nat p * 4096 + 4095 :: u64) AND NOT 4095 = of_nat p * 4096"
proof -
  assume p: "p < 2 ^ 52"
  have u: "unat (of_nat p * 4096 :: u64) = p * 4096"
    using p by (simp add: unat_mult_small unat_of_nat_small)
  then have "unat (of_nat p * 4096 + 4095 :: u64) = p * 4096 + 4095" using p by (simp add: unat_plus_small)
  then have "unat ((of_nat p * 4096 + 4095 :: u64) AND NOT (mask 12)) = unat (of_nat p * 4096 :: u64)"
    unfolding unat_and_not_mask u by simp
  then show ?thesis by (simp add: page_masks word_unat_eq_iff)
qed

lemma pages_cmp:
  assumes "a < 2 ^ 52" "b < 2 ^ 52"
  shows "(of_nat a * 4096 :: u64) < of_nat b * 4096 \<longleftrightarrow> a < b" "(of_nat a * 4096 :: u64) + 24 < of_nat b * 4096 \<longleftrightarrow> a < b"
    "(of_nat a * 4096 :: u64) < 24 \<longleftrightarrow> a = 0" "(of_nat a * 4096 :: u64) = 0 \<longleftrightarrow> a = 0"
    "unat (of_nat a * 4096 div 4096 :: u64) = a"
proof -
  have u: "unat (of_nat a * 4096 :: u64) = a * 4096" "unat (of_nat b * 4096 :: u64) = b * 4096"
    using assms by (simp_all add: unat_mult_small unat_of_nat_small)
  then have "unat (of_nat a * 4096 + 24 :: u64) = a * 4096 + 24" using assms by (simp add: unat_plus_small)
  then show "(of_nat a * 4096 :: u64) < of_nat b * 4096 \<longleftrightarrow> a < b" "(of_nat a * 4096 :: u64) + 24 < of_nat b * 4096 \<longleftrightarrow> a < b"
    "(of_nat a * 4096 :: u64) < 24 \<longleftrightarrow> a = 0" "(of_nat a * 4096 :: u64) = 0 \<longleftrightarrow> a = 0"
    "unat (of_nat a * 4096 div 4096 :: u64) = a"
    using u by (auto simp: word_less_nat_alt word_unat_eq_iff unat_div_distrib)
qed

lemma block_phys_page [simp]: "block_phys (page_addr m p) m = of_nat p * 4096"
  by (simp add: block_phys_def page_addr_def)

lemma split_page:
  "block_split (page_addr m p) (of_nat c * 4096) m =
     (block_set_size (page_addr m p) (of_nat c * 4096)
        (set_blk (page_addr m (p + c)) (\<lambda>h. h\<lparr>blk_size := (block_size (page_addr m p) m - of_nat c * 4096) OR 1\<rparr>) m),
      page_addr m (p + c))"
  by (simp add: block_split_def Let_def block_from_phys_def block_phys_def page_addr_def algebra_simps)

text \<open>The body of \<^verbatim>\<open>pma_alloc_from_zone\<close> for page alignment, once a block has been located.\<close>

lemma alloc_unfold:
  assumes c: "0 < c" "c < 2 ^ 52" and l: "tlsf_locate_free (of_nat c * 4096) zm = ((z, m), page_addr m p)"
    and p: "p < 2 ^ 36" "page_addr m p \<noteq> 0" and n: "block_size (page_addr m p) m = of_nat n * 4096" "n < 2 ^ 36"
  shows "pma_alloc_from_zone (of_nat c * 4096) PAGE_SIZE zm =
    (if n < c then (tlsf_block_insert (page_addr m p) (z, m), 0)
     else let (z', m') = (if c < n then tlsf_block_insert (page_addr m (p + c)) (z, fst (block_split (page_addr m p) (of_nat c * 4096) m))
                          else (z, m)) in
          ((z', set_used_range z' p c (block_mark_used (page_addr m p) m')), of_nat p * 4096))"
proof -
  note cmp = pages_cmp [OF c(2), of n] pages_cmp [of n c]
  have al: "ALIGN PAGE_SIZE (of_nat c * 4096) = of_nat c * 4096"
    using page_round [OF c(2)] by (simp add: ALIGN_def PAGE_SIZE_def)
  have ap: "(of_nat p * 4096 + PAGE_SIZE - 1) AND NOT (PAGE_SIZE - 1) = of_nat p * 4096"
    using page_round [of p] p by (simp add: PAGE_SIZE_def add_diff_eq [symmetric])
  have pd: "unat (of_nat p * 4096 div PAGE_SIZE :: u64) = p" "unat (of_nat c * 4096 div PAGE_SIZE :: u64) = c"
    using pages_cmp(5) [of p c] pages_cmp(5) [OF c(2) c(2)] p c by (simp_all add: PAGE_SIZE_def)
  have nlt: "\<not> (of_nat c * 4096 :: u64) < PMA_BLOCK_HEADER_SIZE" using cmp(3) c n by (simp add: PMA_BLOCK_HEADER_SIZE_def)
  have small: "of_nat n * 4096 < (of_nat c * 4096 :: u64) \<longleftrightarrow> n < c" "of_nat c * 4096 + PMA_BLOCK_HEADER_SIZE < (of_nat n * 4096 :: u64) \<longleftrightarrow> c < n"
    using cmp(2,6) n c by (simp_all add: PMA_BLOCK_HEADER_SIZE_def)
  have h0: "PMA_BLOCK_HEADER_SIZE \<noteq> 0" by (simp add: PMA_BLOCK_HEADER_SIZE_def)
  have bp: "block_phys (page_addr m p) m = of_nat p * 4096" by simp
  show ?thesis
    unfolding pma_alloc_from_zone_def Let_def al
    using nlt l p n
    by (simp add: ap pd small h0 split_page prod.case_eq_if)
qed

text \<open>What an operation on the zone of the pages from \<open>lo\<close> leaves alone.\<close>

definition zone_frame :: "nat \<Rightarrow> pma_zone_t \<Rightarrow> pma_mem \<Rightarrow> pma_mem \<Rightarrow> bool" where
  "zone_frame lo z m m' \<longleftrightarrow> hhdm_offset m' = hhdm_offset m \<and> length (pma_bitmap m') = length (pma_bitmap m) \<and>
     (\<forall>x. x \<notin> page_addr m ` {lo..<unat (total_pages z)} \<and> x \<noteq> block_null z \<longrightarrow> blk m' x = blk m x) \<and>
     (\<forall>q. \<not> (lo \<le> q \<and> q < unat (total_pages z)) \<longrightarrow> BITMAP_TEST (pma_bitmap m') q = BITMAP_TEST (pma_bitmap m) q)"

definition same_zone :: "pma_zone_t \<Rightarrow> pma_zone_t \<Rightarrow> bool" where
  "same_zone z z' \<longleftrightarrow> total_pages z' = total_pages z \<and> block_null z' = block_null z"

lemma members_in_range:
  "zone_lists lo L z m \<Longrightarrow> members L \<subseteq> page_addr m ` {lo..<unat (total_pages z)}"
proof
  fix b assume "zone_lists lo L z m" "b \<in> members L"
  then obtain p n where "run (pma_page_is_free z m) lo (unat (total_pages z)) p n" "b = page_addr m p"
    using zone_listsD(2) by blast
  then show "b \<in> page_addr m ` {lo..<unat (total_pages z)}" by (auto simp: run_def)
qed

lemma zone_env_frame: "zone_env lo z m \<Longrightarrow> zone_frame lo z m m' \<Longrightarrow> same_zone z z' \<Longrightarrow> zone_env lo z' m'"
  by (auto simp: zone_env_def zone_frame_def same_zone_def page_addr_def)

text \<open>
  Locating a block for \<open>c\<close> pages: nothing fits, or a run is taken out of the lists. For fewer than
  32 pages the size classes are exact and the run is long enough.
\<close>

lemma locate_run:
  assumes env: "zone_env lo z m" and zl: "zone_lists lo L z m" and c: "0 < c" "c < 2 ^ 52"
    and r: "tlsf_locate_free (of_nat c * 4096) (z, m) = ((z1, m1), b)"
  shows "b = 0 \<and> z1 = z \<and> m1 = m \<and> (c < 32 \<longrightarrow> (\<forall>p n. run (pma_page_is_free z m) lo (unat (total_pages z)) p n \<longrightarrow> n < c)) \<or>
    (\<exists>p n f s. run (pma_page_is_free z m) lo (unat (total_pages z)) p n \<and> b = page_addr m p \<and> b \<noteq> 0 \<and>
       f < 32 \<and> s < 32 \<and> b \<in> set (L f s) \<and> tlsf_remove_free_block b f s (z, m) = (z1, m1) \<and> (c < 32 \<longrightarrow> c \<le> n))"
proof -
  let ?run = "run (pma_page_is_free z m) lo (unat (total_pages z))"
  note ok = zone_listsD(1) [OF zl]
  obtain fl sl where map: "tlsf_mapping_insert (of_nat c * 4096) = (fl, sl)" by force
  have nz: "0 \<notin> members L" "block_null z \<noteq> 0"
    using members_in_range [OF zl] env by (auto simp: zone_env_def)
  have c0: "(of_nat c * 4096 :: u64) \<noteq> 0" using pages_cmp(4) [OF c(2) c(2)] c(1) by simp
  have slot: "\<exists>f s. f < 32 \<and> s < 32 \<and> page_addr m p \<in> set (L f s) \<and> (n < 32 \<longrightarrow> f = 0 \<and> s = n) \<and> (32 \<le> n \<longrightarrow> 1 \<le> f)"
    if rn: "?run p n" for p n
  proof -
    obtain f s where fs: "f < 32" "s < 32" "page_addr m p \<in> set (L f s)"
      using zone_listsD(3) [OF zl rn] by (auto simp: members_def)
    moreover have "tlsf_mapping_insert (of_nat n * 4096) = (f, s)"
      using bins_okD(4) [OF ok fs] zone_listsD(4) [OF zl rn] by (simp add: block_size_def)
    moreover have "0 < n" "n < 2 ^ 36" using runD(1) [OF rn] run_bounds [OF env rn] by auto
    ultimately show ?thesis using zone_pages_mapping [of n] by auto
  qed
  from locate_spec [OF ok nz c0 map r] show ?thesis
  proof
    assume none: "b = 0 \<and> z1 = z \<and> m1 = m \<and> (fl < 32 \<longrightarrow> (\<forall>f s. slot_from fl sl f s \<longrightarrow> L f s = []))"
    have "n < c" if c32: "c < 32" and rn: "?run p n" for p n
    proof (rule ccontr)
      assume "\<not> n < c"
      have fc: "fl = 0" "sl = c" using zone_pages_mapping [OF c(1)] c32 map by auto
      obtain f s where "f < 32" "s < 32" "page_addr m p \<in> set (L f s)" "n < 32 \<longrightarrow> f = 0 \<and> s = n" "32 \<le> n \<longrightarrow> 1 \<le> f"
        using slot [OF rn] by auto
      then show False using none fc \<open>\<not> n < c\<close> by (cases "n < 32") (auto simp: slot_from_def)
    qed
    then show ?thesis using none by blast
  next
    assume "\<exists>f s. slot_from fl sl f s \<and> L f s \<noteq> [] \<and> b = hd (L f s) \<and> b \<noteq> 0 \<and> tlsf_remove_free_block b f s (z, m) = (z1, m1)"
    then obtain f s where fs: "slot_from fl sl f s" "L f s \<noteq> []" "b = hd (L f s)" "b \<noteq> 0" "tlsf_remove_free_block b f s (z, m) = (z1, m1)"
      by blast
    then have lt: "f < 32" "s < 32" "b \<in> set (L f s)" by (auto simp: slot_from_def)
    then have "b \<in> members L" unfolding members_def by blast
    then obtain p n where pn: "?run p n" "b = page_addr m p" using zone_listsD(2) [OF zl] by blast
    have "c \<le> n" if "c < 32"
    proof -
      have fc: "fl = 0" "sl = c" using zone_pages_mapping [OF c(1)] that map by auto
      obtain f' s' where s': "f' < 32" "s' < 32" "page_addr m p \<in> set (L f' s')" "n < 32 \<longrightarrow> f' = 0 \<and> s' = n"
        using slot [OF pn(1)] by auto
      then have "f' = f" "s' = s" using bin_unique [OF ok lt(1,2) s'(1,2) lt(3)] pn(2) by auto
      then show ?thesis using s'(4) fs(1) fc that by (cases "n < 32") (auto simp: slot_from_def)
    qed
    then show ?thesis using pn fs lt by blast
  qed
qed

lemma take_lists:
  assumes env: "zone_env lo z m" and zl: "zone_lists lo L z m"
    and rn: "run (pma_page_is_free z m) lo (unat (total_pages z)) p n" and c: "0 < c" "c \<le> n"
    and same: "same_zone z z'" "hhdm_offset m' = hhdm_offset m" and bins: "bins_ok L' z' (blk m')"
    and mem: "members L' = (members L - {page_addr m p}) \<union> (if c < n then {page_addr m (p + c)} else {})"
    and F': "\<And>q. pma_page_is_free z' m' q \<longleftrightarrow> pma_page_is_free z m q \<and> \<not> (p \<le> q \<and> q < p + c)"
    and sz: "\<And>x. x \<noteq> page_addr m p \<Longrightarrow> x \<noteq> page_addr m (p + c) \<Longrightarrow> blk_size (blk m' x) = blk_size (blk m x)"
    and sz': "c < n \<Longrightarrow> blk_size (blk m' (page_addr m (p + c))) = of_nat (n - c) * 4096 OR 1"
  shows "zone_lists lo L' z' m'"
proof -
  let ?run = "run (pma_page_is_free z m) lo (unat (total_pages z))"
  let ?run' = "run (pma_page_is_free z' m') lo (unat (total_pages z'))"
  have pa: "page_addr m' = page_addr m" using same by (simp add: page_addr_def fun_eq_iff)
  have runs: "?run' q k \<longleftrightarrow> ?run q k \<and> q \<noteq> p \<or> c < n \<and> q = p + c \<and> k = n - c" for q k
    using run_take [OF rn c F'] same by (simp add: same_zone_def)
  have inj: "page_addr m q = page_addr m p \<longleftrightarrow> q = p" if "?run q k" for q k
    using page_addr_inj [of q p m] run_bounds [OF env that] run_bounds [OF env rn] by auto
  have ne: "page_addr m q \<noteq> page_addr m (p + c)" if "?run q k" "q \<noteq> p" "c < n" for q k
  proof
    assume "page_addr m q = page_addr m (p + c)"
    then have "q = p + c" using page_addr_inj run_bounds [OF env that(1)] run_bounds [OF env rn] that(3) by force
    then show False using run_overlap [OF rn that(1), of q] that c runD(1) [OF that(1)] by simp
  qed
  have "b \<in> members L' \<longleftrightarrow> (\<exists>q k. ?run' q k \<and> b = page_addr m' q)" for b
  proof -
    have "b \<in> members L - {page_addr m p} \<longleftrightarrow> (\<exists>q k. ?run q k \<and> q \<noteq> p \<and> b = page_addr m q)"
    proof
      assume "b \<in> members L - {page_addr m p}"
      moreover from this obtain q k where "?run q k" "b = page_addr m q" using zone_listsD(2) [OF zl] by blast
      ultimately show "\<exists>q k. ?run q k \<and> q \<noteq> p \<and> b = page_addr m q" by blast
    next
      assume "\<exists>q k. ?run q k \<and> q \<noteq> p \<and> b = page_addr m q"
      then obtain q k where "?run q k" "q \<noteq> p" "b = page_addr m q" by blast
      then show "b \<in> members L - {page_addr m p}" using zone_listsD(3) [OF zl] inj by simp
    qed
    then show ?thesis unfolding mem runs pa by auto
  qed
  moreover have "blk_size (blk m' (page_addr m' q)) = of_nat k * 4096 OR 1" if "?run' q k" for q k
  proof -
    have "?run q k \<and> q \<noteq> p \<or> c < n \<and> q = p + c \<and> k = n - c" using that runs by blast
    then show ?thesis
    proof
      assume a: "?run q k \<and> q \<noteq> p"
      have "q \<noteq> p + c" if "\<not> c < n"
        using a runD(6) [OF rn] runD(1,3) [OF conjunct1 [OF a]] runD(4) [OF conjunct1 [OF a], of q] c that by auto
      then have "page_addr m q \<noteq> page_addr m (p + c)"
        using a ne page_addr_inj [of q "p + c" m] run_bounds [OF env rn] run_bounds [OF env conjunct1 [OF a]] c by (cases "c < n") auto
      moreover have "page_addr m q \<noteq> page_addr m p" using a inj by blast
      moreover have "blk_size (blk m (page_addr m q)) = of_nat k * 4096 OR 1" using a zl unfolding zone_lists_def by blast
      ultimately show ?thesis using sz unfolding pa by simp
    qed (use sz' pa in simp)
  qed
  ultimately show ?thesis using bins by (simp add: zone_lists_def)
qed

lemma block_insert_slot:
  "tlsf_mapping_insert (block_size b m) = (f, s) \<Longrightarrow> tlsf_block_insert b (z, m) = tlsf_insert_free_block b f s (z, m)"
  by (simp add: tlsf_block_insert_def)

lemma mark_used_blk:
  "blk (block_mark_used b m) x = (if x = b then (blk m b)\<lparr>blk_size := blk_size (blk m b) AND NOT 1\<rparr> else blk m x)"
  "pma_bitmap (block_mark_used b m) = pma_bitmap m" "hhdm_offset (block_mark_used b m) = hhdm_offset m"
  by (simp_all add: block_mark_used_def set_blk_def)

lemma split_blk:
  "blk (fst (block_split b s m)) x =
     (if x = b then (if x = block_from_phys (block_phys b m + s) m then (blk m x)\<lparr>blk_size := s OR ((block_size b m - s) OR 1) AND 1\<rparr>
                     else (blk m b)\<lparr>blk_size := s OR (blk_size (blk m b) AND 1)\<rparr>)
      else if x = block_from_phys (block_phys b m + s) m then (blk m x)\<lparr>blk_size := (block_size b m - s) OR 1\<rparr> else blk m x)"
  "pma_bitmap (fst (block_split b s m)) = pma_bitmap m" "hhdm_offset (fst (block_split b s m)) = hhdm_offset m"
  by (auto simp: block_split_def Let_def block_set_size_def set_blk_def)

lemma alloc_none:
  assumes "c < 2 ^ 52" "0 < c" and "tlsf_locate_free (of_nat c * 4096) zm = (zm', 0)"
  shows "pma_alloc_from_zone (of_nat c * 4096) PAGE_SIZE zm = (zm', 0)"
proof -
  have al: "ALIGN PAGE_SIZE (of_nat c * 4096) = of_nat c * 4096"
    using page_round [OF assms(1)] by (simp add: ALIGN_def PAGE_SIZE_def)
  have nlt: "\<not> (of_nat c * 4096 :: u64) < PMA_BLOCK_HEADER_SIZE"
    using pages_cmp(3) [OF assms(1,1)] assms(2) by (simp add: PMA_BLOCK_HEADER_SIZE_def)
  show ?thesis unfolding pma_alloc_from_zone_def Let_def al using nlt assms(3) by (cases zm') simp
qed

definition taken :: "nat \<Rightarrow> nat \<Rightarrow> pma_zone_t \<Rightarrow> pma_mem \<Rightarrow> pma_zone_t \<Rightarrow> pma_mem \<Rightarrow> bool" where
  "taken p c z m z' m' \<longleftrightarrow>
     (\<forall>q. pma_page_is_free z' m' q \<longleftrightarrow> pma_page_is_free z m q \<and> \<not> (p \<le> q \<and> q < p + c))"

lemma zone_ok_take:
  assumes "zone_ok lo z m" "zone_lists lo L' z' m'" "same_zone z z'" "zone_frame lo z m m'" "taken p c z m z' m'"
  shows "zone_ok lo z' m'"
  using assms zone_env_frame [of lo z m m' z'] unfolding zone_ok_def taken_def by blast

lemma alloc_refused:
  assumes ok: "zone_ok lo z m" and zl: "zone_lists lo L z m"
    and rem: "f < 32" "s < 32" "b \<in> set (L f s)" "tlsf_remove_free_block b f s (z, m) = (z1, m1)"
    and ins: "tlsf_block_insert b (z1, m1) = (z', m')"
  shows "zone_ok lo z' m' \<and> same_zone z z' \<and> zone_frame lo z m m' \<and> taken 0 0 z m z' m'"
proof -
  note bok = zone_listsD(1) [OF zl]
  note R = remove_bins [OF bok rem]
  note M = members_put [OF bok rem(1,2)]
  have bm: "b \<in> members L" using rem unfolding members_def by blast
  have map: "tlsf_mapping_insert (block_size b m1) = (f, s)"
    using bins_okD(4) [OF bok rem(1-3)] R(6) by (simp add: block_size_def)
  have nb: "b \<notin> members (put_bin f s (remove1 b (L f s)) L)" "b \<noteq> block_null z1"
    using M(1) [OF rem(3)] null_not_member [OF bok] bm R(2) by auto
  note I = insert_bins [OF R(1) nb rem(1,2) map ins [unfolded block_insert_slot [OF map]]]
  have mem: "members (put_bin f s (b # put_bin f s (remove1 b (L f s)) L f s) (put_bin f s (remove1 b (L f s)) L)) = members L"
    using members_put(2) [OF R(1) rem(1,2)] M(1) [OF rem(3)] bm by auto
  have zl': "zone_lists lo (put_bin f s (b # put_bin f s (remove1 b (L f s)) L f s) (put_bin f s (remove1 b (L f s)) L)) z' m'"
    using R I mem by (intro zone_lists_transfer [OF zl]) simp_all
  have same: "same_zone z z'" using R I by (simp add: same_zone_def)
  have bx: "blk m' x = blk m x" if "x \<notin> members L" "x \<noteq> block_null z" for x
    using R(2,7) I(7) that M(1) [OF rem(3)] bm by force
  have "\<forall>x. x \<notin> page_addr m ` {lo..<unat (total_pages z)} \<and> x \<noteq> block_null z \<longrightarrow> blk m' x = blk m x"
    using bx members_in_range [OF zl] by blast
  then have frame: "zone_frame lo z m m'"
    using R(2-5) I(2-5) by (simp add: zone_frame_def)
  have "taken 0 0 z m z' m'" using R I by (simp add: taken_def pma_page_is_free_def)
  then show ?thesis using zone_ok_take [OF ok zl' same frame] same frame by blast
qed

lemma alloc_exact:
  assumes ok: "zone_ok lo z m" and zl: "zone_lists lo L z m"
    and rn: "run (pma_page_is_free z m) lo (unat (total_pages z)) p c" and c: "0 < c"
    and rem: "f < 32" "s < 32" "page_addr m p \<in> set (L f s)" "tlsf_remove_free_block (page_addr m p) f s (z, m) = (z1, m1)"
    and m': "m' = set_used_range z1 p c (block_mark_used (page_addr m p) m1)"
  shows "zone_ok lo z1 m' \<and> same_zone z z1 \<and> zone_frame lo z m m' \<and> taken p c z m z1 m'"
proof -
  let ?b = "page_addr m p"
  note bok = zone_listsD(1) [OF zl]
  have env: "zone_env lo z m" using ok by (simp add: zone_ok_def)
  note R = remove_bins [OF bok rem]
  note M = members_put(1) [OF bok rem(1-3)]
  have bm: "?b \<in> members L" using rem unfolding members_def by blast
  have len: "unat (total_pages z1) \<le> 8 * length (pma_bitmap (block_mark_used ?b m1))"
    using env R by (simp add: zone_env_def mark_used_blk)
  note U = used_range_spec [OF len, of p c, folded m']
  have same: "same_zone z z1" using R by (simp add: same_zone_def)
  have tk: "taken p c z m z1 m'"
    using U(4) R by (auto simp: taken_def pma_page_is_free_def mark_used_blk)
  have bx: "blk m' x = blk m x" if "x \<notin> members L" "x \<noteq> block_null z" for x
    using R(7) that bm U(1) by (auto simp: mark_used_blk)
  have bins: "bins_ok (put_bin f s (remove1 ?b (L f s)) L) z1 (blk m')"
    by (rule bins_ok_cong [OF R(1)]) (simp add: U(1) mark_used_blk M)
  have "zone_lists lo (put_bin f s (remove1 ?b (L f s)) L) z1 m'"
    using M tk R U
    by (intro take_lists [OF env zl rn c order_refl same _ bins]) (simp_all add: taken_def mark_used_blk)
  moreover have "\<forall>x. x \<notin> page_addr m ` {lo..<unat (total_pages z)} \<and> x \<noteq> block_null z \<longrightarrow> blk m' x = blk m x"
    using bx members_in_range [OF zl] by blast
  then have "zone_frame lo z m m'"
    using R(2-5) U(2,3,4) runD(2,3) [OF rn] by (auto simp: zone_frame_def mark_used_blk)
  ultimately show ?thesis using zone_ok_take [OF ok _ same _ tk] same tk by blast
qed

lemma alloc_split:
  assumes ok: "zone_ok lo z m" and zl: "zone_lists lo L z m"
    and rn: "run (pma_page_is_free z m) lo (unat (total_pages z)) p n" and c: "0 < c" "c < n"
    and rem: "f < 32" "s < 32" "page_addr m p \<in> set (L f s)" "tlsf_remove_free_block (page_addr m p) f s (z, m) = (z1, m1)"
    and ins: "tlsf_block_insert (page_addr m (p + c)) (z1, fst (block_split (page_addr m p) (of_nat c * 4096) m1)) = (z2, m2)"
    and m': "m' = set_used_range z2 p c (block_mark_used (page_addr m p) m2)"
  shows "zone_ok lo z2 m' \<and> same_zone z z2 \<and> zone_frame lo z m m' \<and> taken p c z m z2 m'"
proof -
  let ?b = "page_addr m p" and ?r = "page_addr m (p + c)"
  let ?L1 = "put_bin f s (remove1 ?b (L f s)) L"
  define ms where "ms = fst (block_split ?b (of_nat c * 4096) m1)"
  note bok = zone_listsD(1) [OF zl]
  have env: "zone_env lo z m" using ok by (simp add: zone_ok_def)
  have pn: "p + n < 2 ^ 36" "p + n \<le> unat (total_pages z)" "lo \<le> p" using run_bounds [OF env rn] runD [OF rn] by auto
  have br: "?b \<noteq> ?r" using page_addr_inj [of p "p + c" m] pn c by auto
  note R = remove_bins [OF bok rem]
  note M = members_put(1) [OF bok rem(1-3)]
  have bm: "?b \<in> members L" using rem unfolding members_def by blast
  have rm: "?r \<notin> members L"
  proof
    assume "?r \<in> members L"
    then obtain q k where q: "run (pma_page_is_free z m) lo (unat (total_pages z)) q k" "?r = page_addr m q"
      using zone_listsD(2) [OF zl] by blast
    then have "q = p + c" using page_addr_inj [of q "p + c" m] run_bounds [OF env q(1)] pn c by simp
    then show False using run_overlap [OF rn q(1), of q] runD(1) [OF q(1)] c by simp
  qed
  have rnull: "?r \<noteq> block_null z" using env pn c by (simp add: zone_env_def)
  have szb: "block_size ?b m1 = of_nat n * 4096" using R(6) zone_listsD(4) [OF zl rn] by (simp add: block_size_def)
  have rad: "block_from_phys (block_phys ?b m1 + of_nat c * 4096) m1 = ?r"
    using R(5) by (simp add: block_from_phys_def block_phys_def page_addr_def algebra_simps)
  have diff: "(of_nat n * 4096 :: u64) - of_nat c * 4096 = of_nat (n - c) * 4096"
    using c by (simp add: of_nat_diff left_diff_distrib)
  have blks: "blk ms x = (if x = ?b then (blk m1 ?b)\<lparr>blk_size := of_nat c * 4096 OR (blk_size (blk m1 ?b) AND 1)\<rparr>
      else if x = ?r then (blk m1 x)\<lparr>blk_size := of_nat (n - c) * 4096 OR 1\<rparr> else blk m1 x)" for x
    using br by (simp add: ms_def split_blk rad szb diff)
  have msf: "pma_bitmap ms = pma_bitmap m" "hhdm_offset ms = hhdm_offset m" using R by (simp_all add: ms_def split_blk)
  have ok1: "bins_ok ?L1 z1 (blk ms)"
    using rm by (intro bins_ok_cong [OF R(1)]) (auto simp: blks M)
  have szr: "block_size ?r ms = of_nat (n - c) * 4096" using br by (simp add: block_size_def blks)
  have nc: "0 < n - c" "n - c < 2 ^ 36" using c pn by simp_all
  obtain f2 s2 where fs: "tlsf_mapping_insert (block_size ?r ms) = (f2, s2)" "f2 < 32" "s2 < 32"
    using zone_pages_mapping [OF nc] szr by auto
  have nr: "?r \<notin> members ?L1" "?r \<noteq> block_null z1" using rm rnull R(2) M by simp_all
  note I = insert_bins [OF ok1 nr fs(2,3,1) ins [folded ms_def, unfolded block_insert_slot [OF fs(1)]]]
  note M2 = members_put(2) [OF ok1 fs(2,3), of ?r]
  have len: "unat (total_pages z2) \<le> 8 * length (pma_bitmap (block_mark_used ?b m2))"
    using env R I msf by (simp add: zone_env_def mark_used_blk)
  note U = used_range_spec [OF len, of p c, folded m']
  have same: "same_zone z z2" using R I by (simp add: same_zone_def)
  have tk: "taken p c z m z2 m'"
    using U(4) R(3) I(3,4) msf by (auto simp: taken_def pma_page_is_free_def mark_used_blk)
  have bx: "blk m' x = blk m x" if "x \<notin> members L" "x \<noteq> block_null z" "x \<noteq> ?r" for x
  proof -
    have "x \<noteq> ?b" "x \<notin> members ?L1" using that bm M by auto
    then show ?thesis using that R(2) R(7) [of x] I(7) [of x] U(1) by (simp add: mark_used_blk blks)
  qed
  let ?L2 = "put_bin f2 s2 (?r # ?L1 f2 s2) ?L1"
  have bins: "bins_ok ?L2 z2 (blk m')"
    using br by (intro bins_ok_cong [OF I(1)]) (auto simp: U(1) mark_used_blk M M2)
  have "zone_lists lo ?L2 z2 m'"
    using M M2 tk R(6) I(5,6) U(1,2) msf c rm br
    by (intro take_lists [OF env zl rn c(1) less_imp_le [OF c(2)] same _ bins]) (auto simp: taken_def mark_used_blk blks)
  moreover have "?r \<in> page_addr m ` {lo..<unat (total_pages z)}" using pn c by auto
  then have "\<forall>x. x \<notin> page_addr m ` {lo..<unat (total_pages z)} \<and> x \<noteq> block_null z \<longrightarrow> blk m' x = blk m x"
    using bx members_in_range [OF zl] by blast
  then have "zone_frame lo z m m'"
    using R(3) I(3,4,5) U(2,3,4) pn c msf by (auto simp: zone_frame_def mark_used_blk)
  ultimately show ?thesis using zone_ok_take [OF ok _ same _ tk] same tk by blast
qed

lemma alloc_zone:
  assumes ok: "zone_ok lo z m" and c: "0 < c" "c < 2 ^ 52"
    and r: "pma_alloc_from_zone (of_nat c * 4096) PAGE_SIZE (z, m) = ((z', m'), ret)"
  shows "zone_ok lo z' m' \<and> same_zone z z' \<and> zone_frame lo z m m' \<and>
    (ret = 0 \<and> taken 0 0 z m z' m' \<and> (c < 32 \<longrightarrow> (\<forall>p n. run (pma_page_is_free z m) lo (unat (total_pages z)) p n \<longrightarrow> n < c)) \<or>
     (\<exists>p n. run (pma_page_is_free z m) lo (unat (total_pages z)) p n \<and> c \<le> n \<and> ret = of_nat p * 4096 \<and> ret \<noteq> 0 \<and> taken p c z m z' m'))"
proof -
  have env: "zone_env lo z m" using ok by (simp add: zone_ok_def)
  obtain L where zl: "zone_lists lo L z m" using ok by (auto simp: zone_ok_def)
  obtain z1 m1 b where l: "tlsf_locate_free (of_nat c * 4096) (z, m) = ((z1, m1), b)" by (metis surj_pair)
  from locate_run [OF env zl c l] show ?thesis
  proof
    assume a: "b = 0 \<and> z1 = z \<and> m1 = m \<and> (c < 32 \<longrightarrow> (\<forall>p n. run (pma_page_is_free z m) lo (unat (total_pages z)) p n \<longrightarrow> n < c))"
    then have "z' = z" "m' = m" "ret = 0" using r alloc_none [OF c(2,1)] l by auto
    then show ?thesis using a ok by (simp add: same_zone_def zone_frame_def taken_def)
  next
    assume "\<exists>p n f s. run (pma_page_is_free z m) lo (unat (total_pages z)) p n \<and> b = page_addr m p \<and> b \<noteq> 0 \<and>
       f < 32 \<and> s < 32 \<and> b \<in> set (L f s) \<and> tlsf_remove_free_block b f s (z, m) = (z1, m1) \<and> (c < 32 \<longrightarrow> c \<le> n)"
    then obtain p n f s where rn: "run (pma_page_is_free z m) lo (unat (total_pages z)) p n" and b: "b = page_addr m p" "page_addr m p \<noteq> 0"
      and rem: "f < 32" "s < 32" "page_addr m p \<in> set (L f s)" "tlsf_remove_free_block (page_addr m p) f s (z, m) = (z1, m1)"
      and cn: "c < 32 \<longrightarrow> c \<le> n" by blast
    note R = remove_bins [OF zone_listsD(1) [OF zl] rem]
    have pn: "p < 2 ^ 36" "n < 2 ^ 36" using run_bounds [OF env rn] by auto
    have pa: "page_addr m1 = page_addr m" using R(5) by (simp add: page_addr_def fun_eq_iff)
    have sz: "block_size (page_addr m1 p) m1 = of_nat n * 4096" using R(6) zone_listsD(4) [OF zl rn] pa by (simp add: block_size_def)
    have p0: "(of_nat p * 4096 :: u64) \<noteq> 0"
    proof -
      have "pma_page_is_free z m p" using runD(1,4) [OF rn] by simp
      then have "p \<noteq> 0" using ok unfolding zone_ok_def by metis
      then show ?thesis using pages_cmp(4) [of p c] pn c by simp
    qed
    note A = alloc_unfold [OF c l [unfolded b(1) pa [symmetric]] pn(1) _ sz pn(2), unfolded pa, OF b(2)]
    consider "n < c" | "n = c" | "c < n" by linarith
    then show ?thesis
    proof cases
      case 1
      then have "tlsf_block_insert (page_addr m p) (z1, m1) = (z', m')" "ret = 0" using r A by simp_all
      then show ?thesis using alloc_refused [OF ok zl rem] 1 cn by auto
    next
      case 2
      then have "z' = z1" "m' = set_used_range z1 p c (block_mark_used (page_addr m p) m1)" "ret = of_nat p * 4096" using r A by auto
      then show ?thesis using alloc_exact [OF ok zl _ c(1) rem] rn 2 p0 by blast
    next
      case 3
      obtain z2 m2 where i: "tlsf_block_insert (page_addr m (p + c)) (z1, fst (block_split (page_addr m p) (of_nat c * 4096) m1)) = (z2, m2)"
        by (metis surj_pair)
      then have "z' = z2" "m' = set_used_range z2 p c (block_mark_used (page_addr m p) m2)" "ret = of_nat p * 4096" using r A 3 by auto
      then show ?thesis using alloc_split [OF ok zl rn c(1) 3 rem i] rn 3 p0 by (metis less_imp_le)
    qed
  qed
qed

section \<open>Releasing pages\<close>

text \<open>A change of the lists of a zone that keeps sizes and the bitmap, and the headers outside \<open>A\<close>.\<close>

definition relinked :: "u64 set \<Rightarrow> pma_zone_t \<Rightarrow> pma_mem \<Rightarrow> pma_zone_t \<Rightarrow> pma_mem \<Rightarrow> bool" where
  "relinked A z m z' m' \<longleftrightarrow> same_zone z z' \<and> pma_bitmap m' = pma_bitmap m \<and> hhdm_offset m' = hhdm_offset m \<and>
     (\<forall>x. blk_size (blk m' x) = blk_size (blk m x)) \<and> (\<forall>x. x \<notin> A \<longrightarrow> x \<noteq> block_null z \<longrightarrow> blk m' x = blk m x)"

lemma block_remove_spec:
  assumes ok: "bins_ok L z (blk m)" and b: "b \<in> members L" and r: "tlsf_block_remove b (z, m) = (z', m')"
  shows "\<exists>L'. bins_ok L' z' (blk m') \<and> members L' = members L - {b} \<and> relinked (members L) z m z' m'"
proof -
  obtain f s where fs: "f < 32" "s < 32" "b \<in> set (L f s)" using b by (auto simp: members_def)
  have "tlsf_mapping_insert (block_size b m) = (f, s)" using bins_okD(4) [OF ok fs] by (simp add: block_size_def)
  then have r': "tlsf_remove_free_block b f s (z, m) = (z', m')" using r by (simp add: tlsf_block_remove_def)
  show ?thesis
    using remove_bins [OF ok fs r'] members_put(1) [OF ok fs] by (auto simp: relinked_def same_zone_def)
qed

lemma block_insert_spec:
  assumes ok: "bins_ok L z (blk m)" and b: "b \<notin> members L" "b \<noteq> block_null z"
    and n: "block_size b m = of_nat n * 4096" "0 < n" "n < 2 ^ 36" and r: "tlsf_block_insert b (z, m) = (z', m')"
  shows "\<exists>L'. bins_ok L' z' (blk m') \<and> members L' = insert b (members L) \<and> relinked (insert b (members L)) z m z' m'"
proof -
  obtain f s where fs: "tlsf_mapping_insert (block_size b m) = (f, s)" "f < 32" "s < 32"
    using zone_pages_mapping [OF n(2,3)] n(1) by auto
  show ?thesis
    using insert_bins [OF ok b fs(2,3,1) r [unfolded block_insert_slot [OF fs(1)]]] members_put(2) [OF ok fs(2,3), of b]
    by (auto simp: relinked_def same_zone_def)
qed

lemma relinked_trans:
  assumes "relinked A z m z1 m1" and "relinked B z1 m1 z2 m2" and "B \<subseteq> A"
  shows "relinked A z m z2 m2"
  using assms unfolding relinked_def same_zone_def by (metis subsetD)

lemma relinked_refl: "relinked A z m z m"
  by (simp add: relinked_def same_zone_def)

definition released :: "nat \<Rightarrow> nat \<Rightarrow> pma_zone_t \<Rightarrow> pma_mem \<Rightarrow> pma_zone_t \<Rightarrow> pma_mem \<Rightarrow> bool" where
  "released s c z m z' m' \<longleftrightarrow>
     (\<forall>q. pma_page_is_free z' m' q \<longleftrightarrow> pma_page_is_free z m q \<or> s \<le> q \<and> q < s + c)"

text \<open>The runs next to the released pages are the two neighbours that get merged.\<close>

lemma touching_runs:
  assumes c: "0 < c" "lo \<le> a" "a \<le> s" "s + c \<le> e" "e \<le> hi"
    and used: "\<forall>q. s \<le> q \<and> q < s + c \<longrightarrow> \<not> F q"
    and a: "\<forall>q. a \<le> q \<and> q < s \<longrightarrow> F q" "a = lo \<or> \<not> F (a - 1)"
    and e: "\<forall>q. s + c \<le> q \<and> q < e \<longrightarrow> F q" "e = hi \<or> \<not> F e"
  shows "run F lo hi q k \<and> \<not> (q + k < s \<or> s + c < q) \<longleftrightarrow>
    a < s \<and> q = a \<and> k = s - a \<or> s + c < e \<and> q = s + c \<and> k = e - (s + c)"
proof -
  have left: "run F lo hi a (s - a)" if "a < s" using that c used a unfolding run_def by auto
  have right: "run F lo hi (s + c) (e - (s + c))" if "s + c < e"
    using that c used e unfolding run_def by auto
  show ?thesis
  proof
    assume r: "run F lo hi q k \<and> \<not> (q + k < s \<or> s + c < q)"
    note R = runD [OF conjunct1 [OF r]]
    have "\<not> (s \<le> i \<and> i < s + c)" if "q \<le> i" "i < q + k" for i using R(4) [OF that] used by blast
    then have "q + k \<le> s \<or> s + c \<le> q" using R(1) c(1)
      by (metis add_leE le_add1 leI less_add_same_cancel1 nat_le_linear not_le)
    then have "q + k = s \<or> q = s + c" using r by linarith
    then show "a < s \<and> q = a \<and> k = s - a \<or> s + c < e \<and> q = s + c \<and> k = e - (s + c)"
    proof
      assume qs: "q + k = s"
      have "a < s"
      proof (rule ccontr)
        assume "\<not> a < s"
        then have "a = s" using c by simp
        moreover have "F (s - 1)" using qs R(1) by (intro R(4)) auto
        ultimately show False using a(2) qs R(1,2) by auto
      qed
      then show ?thesis using run_overlap [OF left [OF \<open>a < s\<close>] conjunct1 [OF r], of "s - 1"] qs R(1) by auto
    next
      assume qs: "q = s + c"
      have "s + c < e"
      proof (rule ccontr)
        assume "\<not> s + c < e"
        then have "e = s + c" using c by simp
        then show False using e(2) qs R(1,3) R(4) [of q] by auto
      qed
      then show ?thesis using run_overlap [OF right [OF \<open>s + c < e\<close>] conjunct1 [OF r], of q] qs R(1) by auto
    qed
  next
    assume "a < s \<and> q = a \<and> k = s - a \<or> s + c < e \<and> q = s + c \<and> k = e - (s + c)"
    then show "run F lo hi q k \<and> \<not> (q + k < s \<or> s + c < q)" using left right by auto
  qed
qed

lemma free_before:
  assumes ok: "zone_ok lo z m" and s: "lo \<le> s" "0 < s"
    and F1: "\<And>q. q < s \<Longrightarrow> pma_page_is_free z m1 q = pma_page_is_free z m q"
    and a: "a = (if pma_page_is_free z m (s - 1) then pma_find_free_start z m1 (s - 1) else s)"
  shows "lo \<le> a" "a \<le> s" "\<forall>q. a \<le> q \<and> q < s \<longrightarrow> pma_page_is_free z m q"
    "a = lo \<or> \<not> pma_page_is_free z m (a - 1)" "a < s \<longleftrightarrow> pma_page_is_free z m (s - 1)"
proof -
  let ?F = "pma_page_is_free z m"
  have lo: "0 < lo \<longrightarrow> \<not> ?F (lo - 1)" using ok by (simp add: zone_ok_def)
  have "lo \<le> a \<and> a \<le> s \<and> (\<forall>q. a \<le> q \<and> q < s \<longrightarrow> ?F q) \<and> (a = lo \<or> \<not> ?F (a - 1)) \<and> (a < s \<longleftrightarrow> ?F (s - 1))"
  proof (cases "?F (s - 1)")
    case True
    then have a': "a = pma_find_free_start z m1 (s - 1)" using a by simp
    note S = free_start_spec [of z m1 "s - 1", folded a']
    have le: "a < s" using S s(2) by linarith
    have all: "\<forall>q. a \<le> q \<and> q < s \<longrightarrow> ?F q"
    proof (intro allI impI)
      fix q assume q: "a \<le> q \<and> q < s"
      show "?F q"
      proof (cases "q = s - 1")
        case False
        then have "pma_page_is_free z m1 q" using S q by auto
        then show ?thesis using F1 q by simp
      qed (use True in simp)
    qed
    have "lo \<le> a"
    proof (rule ccontr)
      assume "\<not> lo \<le> a"
      then have "a \<le> lo - 1 \<and> lo - 1 < s" "0 < lo" using s le by auto
      then show False using all lo by blast
    qed
    moreover have "a = lo \<or> \<not> ?F (a - 1)"
    proof (cases "a = 0")
      case False
      then show ?thesis using S F1 [of "a - 1"] le by auto
    qed (use \<open>lo \<le> a\<close> in simp)
    ultimately show ?thesis using le all True by simp
  next
    case False
    then show ?thesis using a s by auto
  qed
  then show "lo \<le> a" "a \<le> s" "\<forall>q. a \<le> q \<and> q < s \<longrightarrow> ?F q" "a = lo \<or> \<not> ?F (a - 1)" "a < s \<longleftrightarrow> ?F (s - 1)"
    by blast+
qed

lemma free_after:
  assumes t: "t \<le> unat (total_pages z)"
    and F1: "\<And>q. t \<le> q \<Longrightarrow> pma_page_is_free z m1 q = pma_page_is_free z m q"
    and e: "e = (if t < unat (total_pages z) \<and> pma_page_is_free z m t then pma_find_free_end z m1 t else t)"
  shows "t \<le> e" "e \<le> unat (total_pages z)" "\<forall>q. t \<le> q \<and> q < e \<longrightarrow> pma_page_is_free z m q"
    "e = unat (total_pages z) \<or> \<not> pma_page_is_free z m e" "t < e \<longleftrightarrow> t < unat (total_pages z) \<and> pma_page_is_free z m t"
proof -
  let ?F = "pma_page_is_free z m"
  have "t \<le> e \<and> e \<le> unat (total_pages z) \<and> (\<forall>q. t \<le> q \<and> q < e \<longrightarrow> ?F q) \<and> (e = unat (total_pages z) \<or> \<not> ?F e) \<and>
    (t < e \<longleftrightarrow> t < unat (total_pages z) \<and> ?F t)"
  proof (cases "t < unat (total_pages z) \<and> ?F t")
    case True
    then have e': "e = pma_find_free_end z m1 t" using e by simp
    note S = free_end_spec [of t z m1, folded e']
    have "e \<noteq> t" using S True F1 [of t] by auto
    then have "t < e" using S by simp
    then show ?thesis using S True F1 free_end_bound [OF t, of m1, folded e'] by auto
  next
    case False
    then show ?thesis using e t by auto
  qed
  then show "t \<le> e" "e \<le> unat (total_pages z)" "\<forall>q. t \<le> q \<and> q < e \<longrightarrow> ?F q"
    "e = unat (total_pages z) \<or> \<not> ?F e" "t < e \<longleftrightarrow> t < unat (total_pages z) \<and> ?F t" by blast+
qed

text \<open>The end of a release: the merged run is listed in place of the neighbours it absorbed.\<close>

lemma merge_lists:
  assumes env: "zone_env lo z m" and zl: "zone_lists lo L z m"
    and c: "0 < c" "lo \<le> a" "a \<le> s" "s + c \<le> e" "e \<le> unat (total_pages z)"
    and used: "\<forall>q. s \<le> q \<and> q < s + c \<longrightarrow> \<not> pma_page_is_free z m q"
    and a: "\<forall>q. a \<le> q \<and> q < s \<longrightarrow> pma_page_is_free z m q" "a = lo \<or> \<not> pma_page_is_free z m (a - 1)"
    and e: "\<forall>q. s + c \<le> q \<and> q < e \<longrightarrow> pma_page_is_free z m q" "e = unat (total_pages z) \<or> \<not> pma_page_is_free z m e"
    and rel: "released s c z m z' m'" and same: "same_zone z z'" "hhdm_offset m' = hhdm_offset m"
    and bins: "bins_ok L' z' (blk m')"
    and mem: "members L' = insert (page_addr m a) (members L - (if a < s then {page_addr m a} else {}) -
      (if s + c < e then {page_addr m (s + c)} else {}))"
    and sz: "\<And>x. x \<noteq> page_addr m a \<Longrightarrow> blk_size (blk m' x) = blk_size (blk m x)"
      "blk_size (blk m' (page_addr m a)) = of_nat (e - a) * 4096 OR 1"
  shows "zone_lists lo L' z' m'"
proof -
  let ?run = "run (pma_page_is_free z m) lo (unat (total_pages z))"
  let ?run' = "run (pma_page_is_free z' m') lo (unat (total_pages z'))"
  have pa: "page_addr m' = page_addr m" using same by (simp add: page_addr_def fun_eq_iff)
  have F': "\<And>q. pma_page_is_free z' m' q \<longleftrightarrow> pma_page_is_free z m q \<or> s \<le> q \<and> q < s + c"
    using rel by (simp add: released_def)
  have runs: "?run' q k \<longleftrightarrow> q = a \<and> k = e - a \<or> ?run q k \<and> (q + k < s \<or> s + c < q)" for q k
    using run_merge [OF c used a e F'] same by (simp add: same_zone_def)
  have touch: "?run q k \<and> \<not> (q + k < s \<or> s + c < q) \<longleftrightarrow> a < s \<and> q = a \<and> k = s - a \<or> s + c < e \<and> q = s + c \<and> k = e - (s + c)" for q k
    using touching_runs [OF c used a e] .
  have small: "unat (total_pages z) < 2 ^ 36" using env by (simp add: zone_env_def)
  have inj: "page_addr m q = page_addr m q' \<longleftrightarrow> q = q'" if "q \<le> unat (total_pages z)" "q' \<le> unat (total_pages z)" for q q'
    using page_addr_inj [of q q' m] that small by auto
  have qb: "q \<le> unat (total_pages z)" if "?run q k" for q k using that by (simp add: run_def)
  have as: "a \<le> unat (total_pages z)" "s + c \<le> unat (total_pages z)" using c by simp_all
  have na: "q \<noteq> a" if "?run q k" "q + k < s \<or> s + c < q" for q k
  proof
    assume "q = a"
    show False
    proof (cases "a < s")
      case True
      then have "?run a (s - a)" using touch [of a "s - a"] by simp
      then have "k = s - a" using run_same_start that(1) \<open>q = a\<close> by blast
      then show False using that(2) \<open>q = a\<close> c True by simp
    next
      case False
      then have "q = s" using \<open>q = a\<close> c by simp
      then show False using used runD(1,4) [OF that(1)] c(1) by auto
    qed
  qed
  have far: "(\<exists>k. ?run q k) \<and> \<not> (a < s \<and> q = a) \<and> \<not> (s + c < e \<and> q = s + c) \<longleftrightarrow>
    (\<exists>k. ?run q k \<and> (q + k < s \<or> s + c < q))" for q
  proof
    assume "(\<exists>k. ?run q k) \<and> \<not> (a < s \<and> q = a) \<and> \<not> (s + c < e \<and> q = s + c)"
    then show "\<exists>k. ?run q k \<and> (q + k < s \<or> s + c < q)" using touch [of q] by blast
  next
    assume "\<exists>k. ?run q k \<and> (q + k < s \<or> s + c < q)"
    then obtain k where k: "?run q k" "q + k < s \<or> s + c < q" by blast
    then show "(\<exists>k. ?run q k) \<and> \<not> (a < s \<and> q = a) \<and> \<not> (s + c < e \<and> q = s + c)"
      using na [OF k] by auto
  qed
  have "b \<in> members L' \<longleftrightarrow> (\<exists>q k. ?run' q k \<and> b = page_addr m' q)" for b
  proof (cases "b = page_addr m a")
    case True
    then show ?thesis unfolding mem runs pa by auto
  next
    case False
    have "b \<in> members L' \<longleftrightarrow> (\<exists>q. (\<exists>k. ?run q k) \<and> \<not> (a < s \<and> q = a) \<and> \<not> (s + c < e \<and> q = s + c) \<and> b = page_addr m q)"
    proof
      assume b: "b \<in> members L'"
      then have "b \<in> members L" using False mem by auto
      then obtain q k where q: "?run q k" "b = page_addr m q" using zone_listsD(2) [OF zl] by blast
      then show "\<exists>q. (\<exists>k. ?run q k) \<and> \<not> (a < s \<and> q = a) \<and> \<not> (s + c < e \<and> q = s + c) \<and> b = page_addr m q"
        using b False mem by (intro exI [of _ q]) auto
    next
      assume "\<exists>q. (\<exists>k. ?run q k) \<and> \<not> (a < s \<and> q = a) \<and> \<not> (s + c < e \<and> q = s + c) \<and> b = page_addr m q"
      then obtain q k where q: "?run q k" "\<not> (a < s \<and> q = a)" "\<not> (s + c < e \<and> q = s + c)" "b = page_addr m q" by blast
      then show "b \<in> members L'" unfolding mem
        using zone_listsD(3) [OF zl q(1)] inj [OF qb [OF q(1)] as(1)] inj [OF qb [OF q(1)] as(2)] by auto
    qed
    also have "\<dots> \<longleftrightarrow> (\<exists>q k. ?run q k \<and> (q + k < s \<or> s + c < q) \<and> b = page_addr m q)" using far by blast
    finally show ?thesis unfolding runs pa using False by auto
  qed
  moreover have "blk_size (blk m' (page_addr m' q)) = of_nat k * 4096 OR 1" if r: "?run' q k" for q k
  proof -
    consider "q = a" "k = e - a" | "?run q k" "q + k < s \<or> s + c < q" using r runs by blast
    then show ?thesis
    proof cases
      case 2
      then have "page_addr m q \<noteq> page_addr m a" using na inj [OF qb [OF 2(1)] as(1)] by blast
      then show ?thesis using sz(1) 2 zl unfolding pa zone_lists_def by simp
    qed (use sz(2) pa in simp)
  qed
  ultimately show ?thesis using bins by (simp add: zone_lists_def)
qed

text \<open>Taking a neighbour out of the lists, or leaving the zone as it is.\<close>

definition drop_block :: "bool \<Rightarrow> u64 \<Rightarrow> zone_mem \<Rightarrow> zone_mem" where
  "drop_block b addr zm = (if b then tlsf_block_remove addr zm else zm)"

lemma drop_block_spec:
  assumes "bins_ok L z (blk m)" and "b \<Longrightarrow> addr \<in> members L" and "drop_block b addr (z, m) = (z', m')"
  shows "\<exists>L'. bins_ok L' z' (blk m') \<and> members L' = members L - (if b then {addr} else {}) \<and> relinked (members L) z m z' m'"
  using assms block_remove_spec [OF assms(1)] by (cases b) (auto simp: drop_block_def relinked_refl)

lemma free_end_cong:
  assumes "total_pages z' = total_pages z" and "pma_page_is_free z' m' = pma_page_is_free z m"
  shows "pma_find_free_end z' m' p = pma_find_free_end z m p"
  using assms
proof (induction z m p rule: pma_find_free_end.induct)
  case (1 z m p)
  show ?case
    by (subst (1 2) pma_find_free_end.simps) (simp add: 1)
qed

lemma free_range_unfold:
  assumes sc: "0 < c" "0 < s" "s + c \<le> unat (total_pages z)" "unat (total_pages z) < 2 ^ 36"
    and m1: "m1 = set_free_range z s c m"
    and a: "a = (if pma_page_is_free z m1 (s - 1) then pma_find_free_start z m1 (s - 1) else s)"
    and d1: "drop_block (a < s) (page_addr m1 a) (z, m1) = (z2, m2)" and al: "a < s \<longleftrightarrow> pma_page_is_free z m1 (s - 1)"
    and r1: "relinked A z m1 z2 m2"
    and e: "e = (if s + c < unat (total_pages z) \<and> pma_page_is_free z m1 (s + c) then pma_find_free_end z m1 (s + c) else s + c)"
    and d2: "drop_block (s + c < e) (page_addr m1 (s + c)) (z2, m2) = (z3, m3)"
    and el: "s + c < e \<longleftrightarrow> s + c < unat (total_pages z) \<and> pma_page_is_free z m1 (s + c)"
    and ea: "a < e" "e \<le> unat (total_pages z)"
  shows "pma_zone_free_range (of_nat s * 4096) (of_nat c) (z, m) =
    (let b = block_from_phys (of_nat a * PAGE_SIZE) m3 in
     tlsf_block_insert b (z3, set_blk b (\<lambda>h. h\<lparr>blk_size := of_nat (e - a) * PAGE_SIZE OR 1, blk_prev := 0, blk_next := 0\<rparr>) m3))"
proof -
  have c64: "unat (of_nat c :: u64) = c" "of_nat c \<noteq> (0 :: u64)"
    using sc by (auto simp: unat_of_nat_small word_unat_eq_iff)
  have lim: "\<not> total_pages z * PAGE_SIZE < of_nat s * 4096 + of_nat c * PAGE_SIZE"
  proof -
    have "of_nat s * 4096 + of_nat c * PAGE_SIZE = of_nat (s + c) * (4096 :: u64)" by (simp add: PAGE_SIZE_def algebra_simps)
    moreover have "total_pages z * PAGE_SIZE = of_nat (unat (total_pages z)) * (4096 :: u64)" by (simp add: PAGE_SIZE_def)
    ultimately show ?thesis using pages_cmp(1) [of "unat (total_pages z)" "s + c"] sc by simp
  qed
  have pfn: "unat (of_nat s * 4096 div PAGE_SIZE :: u64) = s" using pages_cmp(5) [of s c] sc by (simp add: PAGE_SIZE_def)
  have hdr: "PMA_BLOCK_HEADER_SIZE \<le> of_nat (e - a) * PAGE_SIZE"
    using pages_cmp(3) [of "e - a" c] sc ea by (simp add: PMA_BLOCK_HEADER_SIZE_def PAGE_SIZE_def not_less [symmetric])
  have tot: "total_pages z2 = total_pages z" "pma_bitmap m2 = pma_bitmap m1" "hhdm_offset m2 = hhdm_offset m1"
    using r1 by (simp_all add: relinked_def same_zone_def)
  have F2: "pma_page_is_free z2 m2 = pma_page_is_free z m1" using tot by (simp add: pma_page_is_free_def fun_eq_iff)
  have E2: "pma_find_free_end z2 m2 t = pma_find_free_end z m1 t" for t
    using tot(1) F2 by (rule free_end_cong)
  have first: "(if 0 < s \<and> pma_page_is_free z m1 (s - 1) then
      (pma_find_free_start z m1 (s - 1),
       tlsf_block_remove (block_from_phys (of_nat (pma_find_free_start z m1 (s - 1)) * PAGE_SIZE) m1) (z, m1)) else (s, z, m1)) = (a, z2, m2)"
    using d1 a al sc by (auto simp: drop_block_def Let_def block_from_phys_def page_addr_def PAGE_SIZE_def)
  have second: "(if s + c < unat (total_pages z2) \<and> pma_page_is_free z2 m2 (s + c) then
      (pma_find_free_end z2 m2 (s + c), tlsf_block_remove (block_from_phys (of_nat (s + c) * PAGE_SIZE) m2) (z2, m2))
      else (s + c, z2, m2)) = (e, z3, m3)"
    using d2 e el unfolding F2 E2 tot by (auto simp: drop_block_def Let_def block_from_phys_def page_addr_def PAGE_SIZE_def tot)
  show ?thesis
    by (simp only: pma_zone_free_range_def prod.case Let_def pfn c64 lim m1 [symmetric] first second hdr
        simp_thms if_True if_False)
qed

lemma free_zone:
  assumes ok: "zone_ok lo z m" and sc: "0 < c" "lo \<le> s" "0 < s" "s + c \<le> unat (total_pages z)"
    and used: "\<forall>q. s \<le> q \<and> q < s + c \<longrightarrow> \<not> pma_page_is_free z m q"
    and r: "pma_zone_free_range (of_nat s * 4096) (of_nat c) (z, m) = (z', m')"
  shows "zone_ok lo z' m' \<and> same_zone z z' \<and> zone_frame lo z m m' \<and> released s c z m z' m'"
proof -
  let ?hi = "unat (total_pages z)" and ?F = "pma_page_is_free z m"
  have env: "zone_env lo z m" using ok by (simp add: zone_ok_def)
  obtain L where zl: "zone_lists lo L z m" using ok by (auto simp: zone_ok_def)
  have hi: "?hi < 2 ^ 36" "?hi \<le> 8 * length (pma_bitmap m)" using env by (simp_all add: zone_env_def)
  define m1 where "m1 = set_free_range z s c m"
  note U = free_range_spec [OF hi(2), of s c, folded m1_def]
  have F1: "pma_page_is_free z m1 q \<longleftrightarrow> ?F q \<or> s \<le> q \<and> q < s + c" for q
    using U(4) [of q] sc(4) unfolding pma_page_is_free_def by (cases "s \<le> q \<and> q < s + c") auto
  have pa: "page_addr m1 = page_addr m" using U(2) by (simp add: page_addr_def fun_eq_iff)
  define a where "a = (if ?F (s - 1) then pma_find_free_start z m1 (s - 1) else s)"
  define e where "e = (if s + c < ?hi \<and> ?F (s + c) then pma_find_free_end z m1 (s + c) else s + c)"
  have "pma_page_is_free z m1 q = ?F q" if "q < s" for q using F1 [of q] that by simp
  note A = free_before [OF ok sc(2,3) this a_def]
  have "pma_page_is_free z m1 q = ?F q" if "s + c \<le> q" for q using F1 [of q] that by simp
  note E = free_after [OF sc(4) this e_def]
  note T = touching_runs [OF sc(1) A(1,2) E(1,2) used A(3,4) E(3,4)]
  obtain z2 m2 where d1: "drop_block (a < s) (page_addr m a) (z, m1) = (z2, m2)" by force
  obtain z3 m3 where d2: "drop_block (s + c < e) (page_addr m (s + c)) (z2, m2) = (z3, m3)" by force
  have b1: "bins_ok L z (blk m1)" using zone_listsD(1) [OF zl] U(1) by simp
  have left: "page_addr m a \<in> members L" if "a < s" using zone_listsD(3) [OF zl] T [of a "s - a"] that by auto
  obtain L2 where L2: "bins_ok L2 z2 (blk m2)" "members L2 = members L - (if a < s then {page_addr m a} else {})" "relinked (members L) z m1 z2 m2"
    using drop_block_spec [OF b1 left d1] by blast
  have ne: "page_addr m a \<noteq> page_addr m (s + c)" using page_addr_inj [of a "s + c" m] A(2) sc E hi by auto
  have right: "page_addr m (s + c) \<in> members L2" if "s + c < e"
    using zone_listsD(3) [OF zl] T [of "s + c" "e - (s + c)"] that L2(2) ne by auto
  obtain L3 where L3: "bins_ok L3 z3 (blk m3)" "members L3 = members L2 - (if s + c < e then {page_addr m (s + c)} else {})" "relinked (members L2) z2 m2 z3 m3"
    using drop_block_spec [OF L2(1) right d2] by blast
  have r13: "relinked (members L) z m1 z3 m3" using relinked_trans [OF L2(3) L3(3)] L2(2) by auto
  have s1: "s - 1 < s" "\<not> (s \<le> s - 1)" using sc by auto
  have ba: "block_from_phys (of_nat a * PAGE_SIZE) m3 = page_addr m a"
    using r13 U(2) by (simp add: block_from_phys_def page_addr_def PAGE_SIZE_def relinked_def)
  define m4 where "m4 = set_blk (page_addr m a) (\<lambda>h. h\<lparr>blk_size := of_nat (e - a) * PAGE_SIZE OR 1, blk_prev := 0, blk_next := 0\<rparr>) m3"
  have a1: "a = (if pma_page_is_free z m1 (s - 1) then pma_find_free_start z m1 (s - 1) else s)"
    and al: "a < s \<longleftrightarrow> pma_page_is_free z m1 (s - 1)" using F1 [of "s - 1"] s1 A(5) a_def by simp_all
  have e1: "e = (if s + c < ?hi \<and> pma_page_is_free z m1 (s + c) then pma_find_free_end z m1 (s + c) else s + c)"
    and el: "s + c < e \<longleftrightarrow> s + c < ?hi \<and> pma_page_is_free z m1 (s + c)" using F1 [of "s + c"] E(5) e_def by simp_all
  have ae: "a < e" "e - a < 2 ^ 36" using A(2) E(1,2) sc hi by auto
  note unf = free_range_unfold [OF sc(1,3,4) hi(1) m1_def a1 d1 [folded pa] al L2(3) e1 d2 [folded pa] el ae(1) E(2)]
  have fin: "tlsf_block_insert (page_addr m a) (z3, m4) = (z', m')"
    using unf r unfolding Let_def ba m4_def by simp
  have blk4: "blk m4 x = (if x = page_addr m a then \<lparr>blk_prev = 0, blk_next = 0, blk_size = of_nat (e - a) * 4096 OR 1\<rparr> else blk m3 x)" for x
    unfolding m4_def set_blk_def PAGE_SIZE_def by (simp add: pma_free_block_t.defs)
  have na: "page_addr m a \<notin> members L3"
  proof (cases "a < s")
    case False
    then have "a = s" using A(2) by simp
    have "page_addr m s \<notin> members L"
    proof
      assume "page_addr m s \<in> members L"
      then obtain q k where q: "run ?F lo ?hi q k" "page_addr m s = page_addr m q" using zone_listsD(2) [OF zl] by blast
      then have "q = s" using page_addr_inj [of s q m] run_bounds [OF env q(1)] sc hi by auto
      then show False using used runD(1) [OF q(1)] runD(4) [OF q(1), of q] sc(1) by auto
    qed
    then show ?thesis using L2(2) L3(2) \<open>a = s\<close> by simp
  qed (use L2(2) L3(2) in simp)
  have nn: "page_addr m a \<noteq> block_null z3"
    using env A(2) sc r13 by (auto simp: zone_env_def relinked_def same_zone_def)
  have b4: "bins_ok L3 z3 (blk m4)" using na by (intro bins_ok_cong [OF L3(1)]) (auto simp: blk4)
  have sz4: "block_size (page_addr m a) m4 = of_nat (e - a) * 4096" by (simp add: block_size_def blk4)
  have pos: "0 < e - a" using ae by simp
  obtain L' where L': "bins_ok L' z' (blk m')" "members L' = insert (page_addr m a) (members L3)"
    "relinked (insert (page_addr m a) (members L3)) z3 m4 z' m'"
    using block_insert_spec [OF b4 na nn sz4 pos ae(2) fin] by blast
  have m4f: "pma_bitmap m4 = pma_bitmap m3" "hhdm_offset m4 = hhdm_offset m3" by (simp_all add: m4_def set_blk_def)
  have same: "same_zone z z'" "hhdm_offset m' = hhdm_offset m" "pma_bitmap m' = pma_bitmap m1"
    using r13 L'(3) m4f U(2) by (simp_all add: relinked_def same_zone_def)
  have rel: "released s c z m z' m'"
    unfolding released_def F1 [symmetric] using same by (simp add: pma_page_is_free_def same_zone_def)
  have sz': "blk_size (blk m' x) = blk_size (blk m x)" if "x \<noteq> page_addr m a" for x
    using r13 L'(3) U(1) that by (simp add: relinked_def blk4)
  have sza: "blk_size (blk m' (page_addr m a)) = of_nat (e - a) * 4096 OR 1" using L'(3) by (simp add: relinked_def blk4)
  have zl': "zone_lists lo L' z' m'"
    using L'(2) L2(2) L3(2)
    by (intro merge_lists [OF env zl sc(1) A(1,2) E(1,2) used A(3,4) E(3,4) rel same(1,2) L'(1) _ sz' sza]) simp_all
  have "page_addr m a \<in> page_addr m ` {lo..<?hi}" using A(1,2) sc by auto
  moreover have "members L3 \<subseteq> members L" using L2(2) L3(2) by auto
  ultimately have "\<forall>x. x \<notin> page_addr m ` {lo..<?hi} \<and> x \<noteq> block_null z \<longrightarrow> blk m' x = blk m x"
    using members_in_range [OF zl] r13 L'(3) U(1) unfolding relinked_def same_zone_def blk4 by (metis insert_iff subsetD)
  then have frame: "zone_frame lo z m m'"
    using same U(3) U(4) sc by (auto simp: zone_frame_def)
  have "zone_ok lo z' m'"
    using zone_env_frame [OF env frame same(1)] zl' ok rel sc unfolding zone_ok_def released_def by (metis le_zero_eq less_irrefl_nat le_less_trans diff_less le_trans not_le zero_less_one)
  then show ?thesis using same frame rel by blast
qed

section \<open>Both zones\<close>

abbreviation LOW_PAGES :: nat where "LOW_PAGES \<equiv> 1048576"

definition page_free :: "pma_state \<Rightarrow> nat \<Rightarrow> bool" where
  "page_free st = pma_page_is_free (pma_normal st) (pma_memory st)"

text \<open>
  Both zones are in order, the low zone ends at the 4 GB line or at the top of memory, the sentinels
  are apart from each other and from the free blocks. The clause \<open>zone_ok\<close> has for the normal zone that
  the last page below 4 GB is not free.
\<close>

definition pma_inv :: "pma_state \<Rightarrow> bool" where
  "pma_inv st \<longleftrightarrow> zone_ok LOW_PAGES (pma_normal st) (pma_memory st) \<and> zone_ok 0 (pma_low st) (pma_memory st) \<and>
     unat (total_pages (pma_low st)) = min (unat (total_pages (pma_normal st))) LOW_PAGES \<and>
     block_null (pma_normal st) \<noteq> block_null (pma_low st) \<and>
     (\<forall>p<unat (total_pages (pma_normal st)). page_addr (pma_memory st) p \<noteq> block_null (pma_low st))"

definition same_frames :: "pma_state \<Rightarrow> pma_state \<Rightarrow> bool" where
  "same_frames st st' \<longleftrightarrow> hhdm_offset (pma_memory st') = hhdm_offset (pma_memory st) \<and>
     total_pages (pma_normal st') = total_pages (pma_normal st)"

lemma run_cong: "(\<And>q. lo \<le> q \<Longrightarrow> q < hi \<Longrightarrow> F' q = F q) \<Longrightarrow> run F' lo hi p n = run F lo hi p n"
  unfolding run_def by (cases "p = lo"; cases "p + n = hi") (auto simp: not_less)

lemma run_containing:
  assumes "\<forall>q. p \<le> q \<and> q < p + c \<longrightarrow> F q" and "lo \<le> p" "p + c \<le> hi" "0 < c"
  shows "\<exists>q k. run F lo hi q k \<and> c \<le> k"
proof -
  define A where "A = {q. lo \<le> q \<and> q \<le> p \<and> (\<forall>i. q \<le> i \<and> i < p \<longrightarrow> F i)}"
  define B where "B = {e. p + c \<le> e \<and> e \<le> hi \<and> (\<forall>i. p \<le> i \<and> i < e \<longrightarrow> F i)}"
  have A: "finite A" "p \<in> A" using assms(2) by (auto simp: A_def)
  have B: "finite B" "p + c \<in> B" using assms by (auto simp: B_def)
  obtain q where q: "q \<in> A" "\<forall>x\<in>A. q \<le> x" using A by (metis Min_in Min_le empty_iff)
  obtain e where e: "e \<in> B" "\<forall>x\<in>B. x \<le> e" using B by (metis Max_in Max_ge empty_iff)
  have qA: "lo \<le> q" "q \<le> p" "\<forall>i. q \<le> i \<and> i < p \<longrightarrow> F i" using q(1) by (simp_all add: A_def)
  have eB: "p + c \<le> e" "e \<le> hi" "\<forall>i. p \<le> i \<and> i < e \<longrightarrow> F i" using e(1) by (simp_all add: B_def)
  have "q = lo \<or> \<not> F (q - 1)"
  proof (rule ccontr)
    assume n: "\<not> (q = lo \<or> \<not> F (q - 1))"
    have "F i" if "q - 1 \<le> i" "i < p" for i
      using that qA n by (cases "i = q - 1") auto
    moreover have "lo \<le> q - 1" "q - 1 \<le> p" using qA n by auto
    ultimately have "q - 1 \<in> A" unfolding A_def by blast
    then show False using q(2) n qA(1) by auto
  qed
  moreover have "e = hi \<or> \<not> F e"
  proof (rule ccontr)
    assume n: "\<not> (e = hi \<or> \<not> F e)"
    then have "e + 1 \<in> B" using eB unfolding B_def by (auto simp: less_Suc_eq)
    then show False using e(2) by auto
  qed
  moreover have "F i" if "q \<le> i" "i < e" for i using that qA eB by (cases "i < p") auto
  ultimately have "run F lo hi q (e - q)" using qA eB assms(4) unfolding run_def by auto
  moreover have "c \<le> e - q" using qA eB by simp
  ultimately show ?thesis by blast
qed

lemma other_zone:
  assumes ok: "zone_ok lo2 z2 m" and fr: "zone_frame lo z m m'"
    and dis: "unat (total_pages z) \<le> lo2 \<or> unat (total_pages z2) \<le> lo" and small: "unat (total_pages z) < 2 ^ 36"
    and null: "\<forall>p<unat (total_pages z2). page_addr m p \<noteq> block_null z"
    and low: "\<not> pma_page_is_free z2 m' 0" "0 < lo2 \<longrightarrow> \<not> pma_page_is_free z2 m' (lo2 - 1)"
  shows "zone_ok lo2 z2 m'"
proof -
  have env: "zone_env lo2 z2 m" using ok by (simp add: zone_ok_def)
  obtain L where zl: "zone_lists lo2 L z2 m" using ok by (auto simp: zone_ok_def)
  have hi2: "unat (total_pages z2) < 2 ^ 36" using env by (simp add: zone_env_def)
  have pa: "page_addr m' = page_addr m" using fr by (simp add: zone_frame_def page_addr_def fun_eq_iff)
  have F: "pma_page_is_free z2 m' q = pma_page_is_free z2 m q" if "lo2 \<le> q" "q < unat (total_pages z2)" for q
    using fr that dis by (auto simp: zone_frame_def pma_page_is_free_def)
  have runs: "run (pma_page_is_free z2 m') lo2 (unat (total_pages z2)) p n = run (pma_page_is_free z2 m) lo2 (unat (total_pages z2)) p n" for p n
    by (rule run_cong) (rule F)
  have out: "page_addr m q \<notin> page_addr m ` {lo..<unat (total_pages z)}" if q: "lo2 \<le> q" "q < unat (total_pages z2)" for q
  proof
    assume "page_addr m q \<in> page_addr m ` {lo..<unat (total_pages z)}"
    then obtain q' where "lo \<le> q'" "q' < unat (total_pages z)" "page_addr m q = page_addr m q'" by auto
    then show False using page_addr_inj [of q q' m] q dis small hi2 by auto
  qed
  have hdr: "blk m' (page_addr m q) = blk m (page_addr m q)" if "lo2 \<le> q" "q < unat (total_pages z2)" for q
    using fr out [OF that] null that by (simp add: zone_frame_def)
  have mem: "blk m' x = blk m x" if "x \<in> members L" for x
    using members_in_range [OF zl] that hdr by auto
  have "zone_lists lo2 L z2 m'"
    using zl bins_ok_cong [OF zone_listsD(1) [OF zl] mem] unfolding zone_lists_def runs pa
    by (auto simp: hdr run_def)
  moreover have "zone_env lo2 z2 m'" using env fr by (simp add: zone_env_def zone_frame_def pa)
  ultimately show ?thesis using low by (auto simp: zone_ok_def)
qed

lemma pma_invD:
  assumes "pma_inv st"
  shows "zone_ok LOW_PAGES (pma_normal st) (pma_memory st)" "zone_ok 0 (pma_low st) (pma_memory st)"
    "unat (total_pages (pma_low st)) \<le> LOW_PAGES" "unat (total_pages (pma_low st)) \<le> unat (total_pages (pma_normal st))"
    "unat (total_pages (pma_normal st)) < 2 ^ 36"
    "q < LOW_PAGES \<Longrightarrow> pma_page_is_free (pma_low st) (pma_memory st) q = page_free st q"
    "\<not> page_free st 0" "\<not> page_free st (LOW_PAGES - 1)"
  using assms by (auto simp: pma_inv_def zone_ok_def zone_env_def page_free_def pma_page_is_free_def)

text \<open>An operation of one zone that keeps the zone in order, its frame, and the two fixed pages, keeps the invariant.\<close>

lemma normal_step:
  assumes inv: "pma_inv st" and z: "zone_ok LOW_PAGES z' m'" "same_zone (pma_normal st) z'" "zone_frame LOW_PAGES (pma_normal st) (pma_memory st) m'"
  shows "pma_inv (st\<lparr>pma_normal := z', pma_memory := m'\<rparr>)"
proof -
  have pa: "page_addr m' = page_addr (pma_memory st)" using z(3) by (simp add: zone_frame_def page_addr_def fun_eq_iff)
  have low0: "\<not> pma_page_is_free (pma_low st) m' 0"
    using pma_invD(2) [OF inv] z(3) by (simp add: zone_frame_def pma_page_is_free_def zone_ok_def)
  have "zone_ok 0 (pma_low st) m'"
    using inv low0 pma_invD [OF inv]
    by (intro other_zone [OF _ z(3)]) (auto simp: pma_inv_def zone_ok_def zone_env_def)
  then show ?thesis using inv z(1,2) by (simp add: pma_inv_def same_zone_def pa)
qed

lemma low_step:
  assumes inv: "pma_inv st" and z: "zone_ok 0 z' m'" "same_zone (pma_low st) z'" "zone_frame 0 (pma_low st) (pma_memory st) m'"
    and keep: "\<not> pma_page_is_free (pma_normal st) m' (LOW_PAGES - 1)"
  shows "pma_inv (st\<lparr>pma_low := z', pma_memory := m'\<rparr>)"
proof -
  have pa: "page_addr m' = page_addr (pma_memory st)" using z(3) by (simp add: zone_frame_def page_addr_def fun_eq_iff)
  have "\<not> pma_page_is_free z' m' 0" using z(1) by (simp add: zone_ok_def)
  then have n0: "\<not> pma_page_is_free (pma_normal st) m' 0"
    using inv z(2) by (auto simp: pma_page_is_free_def same_zone_def pma_inv_def)
  have "zone_ok LOW_PAGES (pma_normal st) m'"
    using inv keep n0 pma_invD [OF inv] by (intro other_zone [OF _ z(3)]) (auto simp: pma_inv_def)
  then show ?thesis using inv z(1,2) by (simp add: pma_inv_def same_zone_def pa)
qed

lemma low_pages:
  assumes inv: "pma_inv st" and z: "same_zone (pma_low st) z'" "zone_frame 0 (pma_low st) (pma_memory st) m'"
  shows "pma_page_is_free (pma_normal st) m' q \<longleftrightarrow>
    (if q < unat (total_pages (pma_low st)) then pma_page_is_free z' m' q else page_free st q)"
  using z pma_invD(4) [OF inv] by (auto simp: page_free_def pma_page_is_free_def same_zone_def zone_frame_def)

lemma alloc_normal_spec:
  assumes inv: "pma_inv st" and c: "0 < c" "c < 2 ^ 52" and r: "alloc_normal (of_nat c * 4096) PAGE_SIZE st = (st', ret)"
  shows "pma_inv st' \<and> same_frames st st' \<and>
    (ret = 0 \<and> page_free st' = page_free st \<and>
       (c < 32 \<longrightarrow> \<not> (\<exists>p. LOW_PAGES \<le> p \<and> (\<forall>q. p \<le> q \<and> q < p + c \<longrightarrow> page_free st q))) \<or>
     (\<exists>p. ret = of_nat p * 4096 \<and> ret \<noteq> 0 \<and> p + c \<le> 2 ^ 36 \<and> (\<forall>q. p \<le> q \<and> q < p + c \<longrightarrow> page_free st q) \<and>
        (\<forall>q. page_free st' q \<longleftrightarrow> page_free st q \<and> \<not> (p \<le> q \<and> q < p + c))))"
proof -
  let ?z = "pma_normal st" and ?m = "pma_memory st"
  obtain z' m' where a: "pma_alloc_from_zone (of_nat c * 4096) PAGE_SIZE (?z, ?m) = ((z', m'), ret)"
    and st': "st' = st\<lparr>pma_normal := z', pma_memory := m'\<rparr>"
    using r by (auto simp: alloc_normal_def split: prod.splits)
  note A = alloc_zone [OF pma_invD(1) [OF inv] c a]
  have inv': "pma_inv st'" unfolding st' using A by (intro normal_step [OF inv]) auto
  have sf: "same_frames st st'" using A by (simp add: st' same_frames_def same_zone_def zone_frame_def)
  have pf: "page_free st' = pma_page_is_free z' m'" "page_free st = pma_page_is_free ?z ?m" by (simp_all add: page_free_def st')
  from A consider
      "ret = 0" "taken 0 0 ?z ?m z' m'" "c < 32 \<longrightarrow> (\<forall>p n. run (pma_page_is_free ?z ?m) LOW_PAGES (unat (total_pages ?z)) p n \<longrightarrow> n < c)"
    | p n where "run (pma_page_is_free ?z ?m) LOW_PAGES (unat (total_pages ?z)) p n" "c \<le> n" "ret = of_nat p * 4096" "ret \<noteq> 0" "taken p c ?z ?m z' m'"
    by blast
  then show ?thesis
  proof cases
    case 1
    have "\<not> (\<exists>p. LOW_PAGES \<le> p \<and> (\<forall>q. p \<le> q \<and> q < p + c \<longrightarrow> page_free st q))" if c32: "c < 32"
    proof
      assume "\<exists>p. LOW_PAGES \<le> p \<and> (\<forall>q. p \<le> q \<and> q < p + c \<longrightarrow> page_free st q)"
      then obtain p where p: "LOW_PAGES \<le> p" "\<forall>q. p \<le> q \<and> q < p + c \<longrightarrow> pma_page_is_free ?z ?m q" by (auto simp: pf)
      have "pma_page_is_free ?z ?m (p + c - 1)" using p(2) c(1) by auto
      then have "p + c \<le> unat (total_pages ?z)" unfolding pma_page_is_free_def by linarith
      then show False using run_containing [OF p(2) p(1) _ c(1)] 1(3) c32 by fastforce
    qed
    then show ?thesis using inv' sf 1 by (auto simp: pf taken_def fun_eq_iff)
  next
    case 2
    have "p + c \<le> 2 ^ 36" using runD(3) [OF 2(1)] 2(2) pma_invD(5) [OF inv] by linarith
    moreover have "\<forall>q. p \<le> q \<and> q < p + c \<longrightarrow> page_free st q" using runD(4) [OF 2(1)] 2(2) by (simp add: pf)
    moreover have "\<forall>q. page_free st' q \<longleftrightarrow> page_free st q \<and> \<not> (p \<le> q \<and> q < p + c)" using 2(5) by (simp add: taken_def pf)
    ultimately show ?thesis using inv' sf 2(3,4) by blast
  qed
qed

lemma alloc_low_spec:
  assumes inv: "pma_inv st" and c: "0 < c" "c < 2 ^ 52" and r: "alloc_low (of_nat c * 4096) PAGE_SIZE st = (st', ret)"
  shows "pma_inv st' \<and> same_frames st st' \<and>
    (ret = 0 \<and> page_free st' = page_free st \<and>
       (c < 32 \<longrightarrow> \<not> (\<exists>p. p < LOW_PAGES \<and> (\<forall>q. p \<le> q \<and> q < p + c \<longrightarrow> page_free st q))) \<or>
     (\<exists>p. ret = of_nat p * 4096 \<and> ret \<noteq> 0 \<and> p + c \<le> LOW_PAGES \<and> (\<forall>q. p \<le> q \<and> q < p + c \<longrightarrow> page_free st q) \<and>
        (\<forall>q. page_free st' q \<longleftrightarrow> page_free st q \<and> \<not> (p \<le> q \<and> q < p + c))))"
proof -
  let ?z = "pma_low st" and ?m = "pma_memory st" and ?n = "unat (total_pages (pma_low st))"
  obtain z' m' where a: "pma_alloc_from_zone (of_nat c * 4096) PAGE_SIZE (?z, ?m) = ((z', m'), ret)"
    and st': "st' = st\<lparr>pma_low := z', pma_memory := m'\<rparr>"
    using r by (auto simp: alloc_low_def split: prod.splits)
  note D = pma_invD [OF inv]
  note A = alloc_zone [OF D(2) c a]
  have same: "same_zone ?z z'" "zone_frame 0 ?z ?m m'" using A by simp_all
  have sf: "same_frames st st'" using same by (simp add: st' same_frames_def zone_frame_def)
  have pf: "page_free st' q \<longleftrightarrow> (if q < ?n then pma_page_is_free z' m' q else page_free st q)" for q
    using low_pages [OF inv same] by (simp add: page_free_def st')
  have fz: "pma_page_is_free ?z ?m q \<longleftrightarrow> page_free st q \<and> q < ?n" for q
    using D(4) by (auto simp: page_free_def pma_page_is_free_def)
  have tk: "page_free st' q \<longleftrightarrow> page_free st q \<and> \<not> (p \<le> q \<and> q < p + k)" if "taken p k ?z ?m z' m'" "p + k \<le> ?n" for p k q
    using that D(4) unfolding pf taken_def fz by auto
  from A consider
      "ret = 0" "taken 0 0 ?z ?m z' m'" "c < 32 \<longrightarrow> (\<forall>p n. run (pma_page_is_free ?z ?m) 0 ?n p n \<longrightarrow> n < c)"
    | p n where "run (pma_page_is_free ?z ?m) 0 ?n p n" "c \<le> n" "ret = of_nat p * 4096" "ret \<noteq> 0" "taken p c ?z ?m z' m'"
    by blast
  then show ?thesis
  proof cases
    case 1
    have same_free: "page_free st' = page_free st" using tk [OF 1(2)] by (simp add: fun_eq_iff)
    have "\<not> (\<exists>p. p < LOW_PAGES \<and> (\<forall>q. p \<le> q \<and> q < p + c \<longrightarrow> page_free st q))" if c32: "c < 32"
    proof
      assume "\<exists>p. p < LOW_PAGES \<and> (\<forall>q. p \<le> q \<and> q < p + c \<longrightarrow> page_free st q)"
      then obtain p where p: "p < LOW_PAGES" "\<forall>q. p \<le> q \<and> q < p + c \<longrightarrow> page_free st q" by blast
      have "\<not> LOW_PAGES \<le> p + c" using p D(8) by auto
      moreover have "page_free st (p + c - 1)" using p(2) c(1) by auto
      then have "p + c \<le> unat (total_pages (pma_normal st))" unfolding page_free_def pma_page_is_free_def by linarith
      moreover have "?n = min (unat (total_pages (pma_normal st))) LOW_PAGES" using inv by (simp add: pma_inv_def)
      ultimately have "p + c \<le> ?n" by simp
      moreover from this have "\<forall>q. p \<le> q \<and> q < p + c \<longrightarrow> pma_page_is_free ?z ?m q" using p(2) by (auto simp: fz)
      ultimately show False using run_containing [of p c "pma_page_is_free ?z ?m" 0 ?n] c(1) 1(3) c32 by fastforce
    qed
    moreover have "pma_inv st'"
      unfolding st' using A same_free D(8) by (intro low_step [OF inv]) (auto simp: page_free_def st' fun_eq_iff)
    ultimately show ?thesis using sf 1(1) same_free by blast
  next
    case 2
    have le: "p + c \<le> ?n" using runD(3) [OF 2(1)] 2(2) by linarith
    then have "\<forall>q. p \<le> q \<and> q < p + c \<longrightarrow> page_free st q" using runD(4) [OF 2(1)] 2(2) by (auto simp: fz)
    moreover have "pma_inv st'"
      unfolding st' using A tk [OF 2(5) le, of "LOW_PAGES - 1"] D(8) by (intro low_step [OF inv]) (auto simp: page_free_def st')
    moreover have "p + c \<le> LOW_PAGES" using le D(3) by linarith
    ultimately show ?thesis using sf tk [OF 2(5) le] 2(3,4) by blast
  qed
qed

lemma on_zone_free:
  assumes inv: "pma_inv st" and s: "0 < s" "0 < c" "s + c \<le> unat (total_pages (pma_normal st))"
    and side: "s + c < LOW_PAGES \<or> LOW_PAGES \<le> s" and used: "\<forall>q. s \<le> q \<and> q < s + c \<longrightarrow> \<not> page_free st q"
    and f: "f = (if s + c < LOW_PAGES then on_low else on_normal) (pma_zone_free_range (of_nat s * 4096) (of_nat c)) st"
  shows "pma_inv f \<and> (\<forall>q. page_free f q \<longleftrightarrow> page_free st q \<or> s \<le> q \<and> q < s + c)"
proof (cases "s + c < LOW_PAGES")
  case True
  let ?z = "pma_low st" and ?m = "pma_memory st"
  obtain z' m' where r: "pma_zone_free_range (of_nat s * 4096) (of_nat c) (?z, ?m) = (z', m')" by force
  then have f': "f = st\<lparr>pma_low := z', pma_memory := m'\<rparr>" using f True by (simp add: on_low_def)
  note D = pma_invD [OF inv]
  have tot: "s + c \<le> unat (total_pages ?z)" using s True inv by (simp add: pma_inv_def)
  have "\<forall>q. s \<le> q \<and> q < s + c \<longrightarrow> \<not> pma_page_is_free ?z ?m q" using used D(6) True by simp
  then have Z: "zone_ok 0 z' m'" "same_zone ?z z'" "zone_frame 0 ?z ?m m'" "released s c ?z ?m z' m'"
    using free_zone [OF D(2) s(2) _ s(1) tot _ r] by simp_all
  have pf: "page_free f q \<longleftrightarrow> page_free st q \<or> s \<le> q \<and> q < s + c" for q
    using low_pages [OF inv Z(2,3), of q] Z(4) D(4) tot
    by (auto simp: page_free_def f' released_def pma_page_is_free_def)
  have "pma_inv f" unfolding f' using pf [of "LOW_PAGES - 1"] D(8) True
    by (intro low_step [OF inv Z(1-3)]) (auto simp: page_free_def f')
  then show ?thesis using pf by blast
next
  case False
  let ?z = "pma_normal st" and ?m = "pma_memory st"
  obtain z' m' where r: "pma_zone_free_range (of_nat s * 4096) (of_nat c) (?z, ?m) = (z', m')" by force
  then have f': "f = st\<lparr>pma_normal := z', pma_memory := m'\<rparr>" using f False by (simp add: on_normal_def)
  have "LOW_PAGES \<le> s" using side False by simp
  then have Z: "zone_ok LOW_PAGES z' m'" "same_zone ?z z'" "zone_frame LOW_PAGES ?z ?m m'" "released s c ?z ?m z' m'"
    using free_zone [OF pma_invD(1) [OF inv] s(2) _ s(1,3) _ r] used by (simp_all add: page_free_def)
  then show ?thesis using normal_step [OF inv Z(1-3)] by (simp add: f' page_free_def released_def)
qed

lemma free_pages_unfold:
  assumes s: "0 < s" "0 < c" "s + c < 2 ^ 36" and side: "s + c < LOW_PAGES \<or> LOW_PAGES \<le> s"
  shows "pma_free_pages (of_nat s * 4096) (of_nat c) st =
    (if s + c < LOW_PAGES then on_low else on_normal) (pma_zone_free_range (of_nat s * 4096) (of_nat c)) st"
proof -
  let ?lim = "PMA_ZONE_32BIT * PAGE_SIZE"
  have lim: "unat ?lim = LOW_PAGES * 4096" by (simp add: PMA_ZONE_32BIT_def PAGE_SIZE_def)
  have us: "unat (of_nat s * 4096 :: u64) = s * 4096" using s by (intro unat_pages) simp
  have uc: "unat (of_nat c :: u64) = c" using s by (intro unat_of_nat_small) simp
  have e: "of_nat s * 4096 + of_nat c * PAGE_SIZE = (of_nat (s + c) * 4096 :: u64)" by (simp add: PAGE_SIZE_def algebra_simps)
  have ue: "unat (of_nat (s + c) * 4096 :: u64) = (s + c) * 4096" using s by (intro unat_pages) simp
  have len: "(of_nat (s + c) * 4096 - of_nat s * 4096 :: u64) div PAGE_SIZE = of_nat c"
  proof -
    have "(of_nat (s + c) * 4096 - of_nat s * 4096 :: u64) = of_nat c * 4096" by (simp add: algebra_simps)
    moreover have "unat (of_nat c * 4096 div PAGE_SIZE :: u64) = unat (of_nat c :: u64)"
      using pages_cmp(5) [of c c] s uc by (simp add: PAGE_SIZE_def)
    ultimately show ?thesis using word_unat_eq_iff by metis
  qed
  have p0: "(of_nat s * 4096 :: u64) \<noteq> 0" using us s by auto
  show ?thesis
  proof (cases "s + c < LOW_PAGES")
    case True
    then have "(of_nat (s + c) * 4096 :: u64) < ?lim" "(of_nat s * 4096 :: u64) < ?lim" "(of_nat s * 4096 :: u64) < of_nat (s + c) * 4096"
      using s by (simp_all only: word_less_nat_alt ue us lim) simp_all
    then show ?thesis
      using p0 True len unfolding pma_free_pages_def Let_def e SMIN_def SMAX_def by (simp del: of_nat_add)
  next
    case False
    then have "\<not> (of_nat (s + c) * 4096 :: u64) < ?lim" "\<not> (of_nat s * 4096 :: u64) < ?lim" "(of_nat s * 4096 :: u64) < of_nat (s + c) * 4096"
      using s side by (simp_all only: word_less_nat_alt ue us lim) auto
    moreover from this have "(if ?lim < of_nat s * 4096 then of_nat s * 4096 else ?lim) = of_nat s * 4096" by auto
    ultimately show ?thesis
      using p0 False len unfolding pma_free_pages_def Let_def e SMIN_def SMAX_def by (simp del: of_nat_add)
  qed
qed

lemma alloc_pages_spec:
  assumes "pma_inv st" and "0 < c" and "c < 2 ^ 52" and "pma_alloc_pages (of_nat c) st = (st', ret)"
  shows "pma_inv st' \<and> same_frames st st' \<and>
    (if ret = 0
     then page_free st' = page_free st \<and> (c < 32 \<longrightarrow> \<not> (\<exists>p. \<forall>q. p \<le> q \<and> q < p + c \<longrightarrow> page_free st q))
     else \<exists>p. ret = of_nat p * 4096 \<and> p + c \<le> 2 ^ 36 \<and> (\<forall>q. p \<le> q \<and> q < p + c \<longrightarrow> page_free st q) \<and>
       (\<forall>q. page_free st' q \<longleftrightarrow> page_free st q \<and> \<not> (p \<le> q \<and> q < p + c)))"
proof -
  obtain st1 r1 where n: "alloc_normal (of_nat c * 4096) PAGE_SIZE st = (st1, r1)" by force
  note N = alloc_normal_spec [OF assms(1-3) n]
  show ?thesis
  proof (cases "r1 = 0")
    case False
    then have "st' = st1" "ret = r1" using assms(4) n by (simp_all add: pma_alloc_pages_def PAGE_SIZE_def)
    then show ?thesis using N False by auto
  next
    case True
    then have l: "alloc_low (of_nat c * 4096) PAGE_SIZE st1 = (st', ret)"
      using assms(4) n by (simp add: pma_alloc_pages_def PAGE_SIZE_def)
    have N': "pma_inv st1" "same_frames st st1" "page_free st1 = page_free st"
      "c < 32 \<longrightarrow> \<not> (\<exists>p. LOW_PAGES \<le> p \<and> (\<forall>q. p \<le> q \<and> q < p + c \<longrightarrow> page_free st q))" using N True by auto
    from alloc_low_spec [OF N'(1) assms(2,3) l]
    show ?thesis
    proof (elim conjE disjE exE)
      fix p assume "pma_inv st'" "same_frames st1 st'" "ret = of_nat p * 4096" "ret \<noteq> 0" "p + c \<le> LOW_PAGES"
        "\<forall>q. p \<le> q \<and> q < p + c \<longrightarrow> page_free st1 q" "\<forall>q. page_free st' q \<longleftrightarrow> page_free st1 q \<and> \<not> (p \<le> q \<and> q < p + c)"
      then show ?thesis using N'(2,3) by (auto simp: same_frames_def intro!: exI [of _ p])
    qed (use N' in \<open>auto simp: not_le same_frames_def\<close>)
  qed
qed

section \<open>Properties\<close>

text \<open>
  C12. Allocating \<open>c\<close> pages from an allocator in order: the allocator stays in order; a non-zero result
  is the address of \<open>c\<close> consecutive pages that were free and are now the only pages no longer free; a
  zero result changes no page, and for fewer than 32 pages it means that no \<open>c\<close> consecutive pages are
  free anywhere in memory.
\<close>

theorem pma_alloc_pages_correct:
  assumes "pma_inv st" and "0 < c" and "c < 2 ^ 52" and "pma_alloc_pages (of_nat c) st = (st', ret)"
  shows "pma_inv st' \<and>
    (if ret = 0
     then page_free st' = page_free st \<and> (c < 32 \<longrightarrow> \<not> (\<exists>p. \<forall>q. p \<le> q \<and> q < p + c \<longrightarrow> page_free st q))
     else \<exists>p. ret = of_nat p * 4096 \<and> p + c \<le> 2 ^ 36 \<and> (\<forall>q. p \<le> q \<and> q < p + c \<longrightarrow> page_free st q) \<and>
       (\<forall>q. page_free st' q \<longleftrightarrow> page_free st q \<and> \<not> (p \<le> q \<and> q < p + c)))"
  using alloc_pages_spec [OF assms] by blast

text \<open>
  C13. Releasing \<open>c\<close> allocated pages on one side of the 4 GB line (and not the last page below it): the
  allocator stays in order, so neighbouring free runs are merged and listed once, and exactly the
  released pages become free.
\<close>

theorem pma_free_pages_correct:
  assumes "pma_inv st" and "0 < s" and "0 < c" and "s + c \<le> unat (total_pages (pma_normal st))"
    and "s + c < LOW_PAGES \<or> LOW_PAGES \<le> s" and "\<forall>q. s \<le> q \<and> q < s + c \<longrightarrow> \<not> page_free st q"
  shows "pma_inv (pma_free_pages (of_nat s * 4096) (of_nat c) st) \<and>
    (\<forall>q. page_free (pma_free_pages (of_nat s * 4096) (of_nat c) st) q \<longleftrightarrow> page_free st q \<or> s \<le> q \<and> q < s + c)"
proof -
  have "s + c < 2 ^ 36" using assms(4) pma_invD(5) [OF assms(1)] by linarith
  then show ?thesis
    using on_zone_free [OF assms free_pages_unfold [OF assms(2,3) _ assms(5)]] by blast
qed

text \<open>Five pages of memory: page 0 is never handed out, the pages 1 to 3 are free, page 4 is in use.\<close>

definition demo_blk :: "u64 \<Rightarrow> pma_free_block_t" where
  "demo_blk x = (if x = 0x101000 then \<lparr>blk_prev = 0x900000, blk_next = 0x900000, blk_size = 0x3001\<rparr>
     else \<lparr>blk_prev = 0x900000, blk_next = 0x900000, blk_size = 0\<rparr>)"

definition demo_low :: pma_zone_t where
  "demo_low = \<lparr>total_pages = 5, fl_bitmap = 1, sl_bitmap = (\<lambda>fl. if fl = 0 then 8 else 0),
     blocks = (\<lambda>fl sl. if fl = 0 \<and> sl = 3 then 0x101000 else 0x900000), block_null = 0x900000\<rparr>"

definition demo_normal :: pma_zone_t where
  "demo_normal = \<lparr>total_pages = 5, fl_bitmap = 0, sl_bitmap = (\<lambda>_. 0), blocks = (\<lambda>_ _. 0x901000), block_null = 0x901000\<rparr>"

definition demo_pma :: pma_state where
  "demo_pma = \<lparr>pma_normal = demo_normal, pma_low = demo_low,
     pma_memory = \<lparr>blk = demo_blk, pma_bitmap = [0xF1], hhdm_offset = 0x100000\<rparr>\<rparr>"

lemma less_5: "(q :: nat) < 5 \<longleftrightarrow> q = 0 \<or> q = 1 \<or> q = 2 \<or> q = 3 \<or> q = 4"
  by auto

lemma demo_free: "page_free demo_pma q \<longleftrightarrow> 1 \<le> q \<and> q < 4"
proof (cases "q < 5")
  case True
  then consider "q = 0" | "q = 1" | "q = 2" | "q = 3" | "q = 4" by linarith
  then show ?thesis
    by cases (simp_all add: page_free_def demo_pma_def demo_normal_def pma_page_is_free_def BITMAP_TEST_def)
qed (simp add: page_free_def demo_pma_def demo_normal_def pma_page_is_free_def)

lemma demo_run:
  assumes "\<And>q. F q \<longleftrightarrow> 1 \<le> q \<and> q < 4"
  shows "run F 0 5 p n \<longleftrightarrow> p = 1 \<and> n = 3"
proof
  assume r: "run F 0 5 p n"
  have "run F 0 5 1 3" by (auto simp: run_def assms)
  moreover have "F p" using runD(1,4) [OF r] by simp
  ultimately show "p = 1 \<and> n = 3" using run_overlap [OF _ r, of 1 3 p] runD(1) [OF r] assms by simp
qed (auto simp: run_def assms)

lemma demo_low_free: "pma_page_is_free demo_low (pma_memory demo_pma) q \<longleftrightarrow> 1 \<le> q \<and> q < 4"
  using demo_free [of q] by (simp add: page_free_def pma_page_is_free_def demo_pma_def demo_low_def demo_normal_def)

lemma demo_bit: "bit (8 :: u64) k \<longleftrightarrow> k = 3" "bit (1 :: u64) k \<longleftrightarrow> k = 0"
  using bit_push_one [of 3 k] bit_push_one [of 0 k] by auto

lemma demo_bit_int: "bit (8 :: int) k \<longleftrightarrow> k = 3" "bit (8 :: nat) k \<longleftrightarrow> k = 3"
  using bit_exp_iff [of 3 k, where ?'a = int] bit_exp_iff [of 3 k, where ?'a = nat] by auto

lemma demo_pma_inv: "pma_inv demo_pma"
proof -
  let ?L = "\<lambda>fl sl. if fl = 0 \<and> sl = 3 then [0x101000 :: u64] else []"
  let ?m = "pma_memory demo_pma"
  have map: "tlsf_mapping_insert 0x3000 = (0, 3)" using mapping_small [of "0x3000"] by simp
  have mem: "members ?L = {0x101000}" by (auto simp: members_def)
  have pa: "page_addr ?m p = of_nat p * 4096 + 0x100000" for p by (simp add: page_addr_def demo_pma_def)
  have env: "zone_env lo z ?m" if "total_pages z = 5" "block_null z = 0x900000 \<or> block_null z = 0x901000" for lo z
    using that by (auto simp: zone_env_def less_5 page_addr_def demo_pma_def)
  have "bins_ok ?L demo_low demo_blk"
    by (rule bins_okI) (auto simp: demo_low_def demo_blk_def demo_bit demo_bit_int map split: if_splits)
  moreover have runs: "run (pma_page_is_free demo_low ?m) 0 (unat (total_pages demo_low)) p n \<longleftrightarrow> p = 1 \<and> n = 3" for p n
    using demo_run [of "pma_page_is_free demo_low ?m", OF demo_low_free] by (simp add: demo_low_def)
  moreover have "blk ?m = demo_blk" by (simp add: demo_pma_def)
  ultimately have "zone_lists 0 ?L demo_low ?m"
    unfolding zone_lists_def mem pa by (auto simp: demo_blk_def)
  then have low: "zone_ok 0 demo_low ?m"
    using env [of demo_low] demo_low_free [of 0] by (auto simp: zone_ok_def demo_low_def)
  have "bins_ok (\<lambda>_ _. []) demo_normal demo_blk" by (rule bins_okI) (auto simp: demo_normal_def)
  then have "zone_lists LOW_PAGES (\<lambda>_ _. []) demo_normal ?m"
    by (auto simp: zone_lists_def members_def run_def) (simp_all add: demo_pma_def demo_normal_def)
  then have "zone_ok LOW_PAGES demo_normal ?m"
    using env [of demo_normal] demo_free [of 0] demo_free [of "LOW_PAGES - 1"]
    by (auto simp: zone_ok_def demo_normal_def page_free_def demo_pma_def)
  then show ?thesis using low
    by (simp add: pma_inv_def demo_pma_def demo_low_def demo_normal_def less_5 page_addr_def)
qed

theorem pma_alloc_pages_correct_witness:
  "\<exists>st' p. pma_alloc_pages 2 demo_pma = (st', of_nat p * 4096) \<and> (p = 1 \<or> p = 2) \<and> pma_inv st' \<and> \<not> page_free st' 2"
proof -
  obtain st' ret where a: "pma_alloc_pages (of_nat 2) demo_pma = (st', ret)" by force
  have f: "\<forall>q. (1::nat) \<le> q \<and> q < 1 + 2 \<longrightarrow> page_free demo_pma q" by (simp add: demo_free)
  have c: "(0::nat) < 2" "(2::nat) < 2 ^ 52" by simp_all
  note T = pma_alloc_pages_correct [OF demo_pma_inv c a]
  have "ret \<noteq> 0" using T f by (auto split: if_splits)
  then obtain p where p: "ret = of_nat p * 4096" "\<forall>q. p \<le> q \<and> q < p + 2 \<longrightarrow> page_free demo_pma q"
    "\<forall>q. page_free st' q \<longleftrightarrow> page_free demo_pma q \<and> \<not> (p \<le> q \<and> q < p + 2)" using T by auto
  have "page_free demo_pma p" "page_free demo_pma (p + 1)" using p(2) by simp_all
  then have "p = 1 \<or> p = 2" by (auto simp: demo_free)
  then show ?thesis using a p T by auto
qed

theorem pma_free_pages_correct_witness:
  "pma_inv (pma_free_pages 0x4000 1 demo_pma) \<and> page_free (pma_free_pages 0x4000 1 demo_pma) 4"
proof -
  have "pma_inv (pma_free_pages (of_nat 4 * 4096) (of_nat 1) demo_pma) \<and>
    (\<forall>q. page_free (pma_free_pages (of_nat 4 * 4096) (of_nat 1) demo_pma) q \<longleftrightarrow> page_free demo_pma q \<or> 4 \<le> q \<and> q < 4 + 1)"
    by (rule pma_free_pages_correct [OF demo_pma_inv]) (simp_all add: demo_free, simp add: demo_pma_def demo_normal_def)
  then show ?thesis by simp
qed

end
