(* ===== verification/Paging.thy ===== *)
theory Paging
  imports Pma_Proofs MemOps
begin

text \<open>
  The page tables of \<^verbatim>\<open>src/mem/paging.c\<close>. A table is 512 entries of eight bytes; \<open>pt\<close> is the store of
  entries by address, reached through the direct map (\<open>hhdm_offset\<close> of the allocator's memory). New
  tables come from \<open>pma_alloc_pages\<close>. The null pointer is \<open>0\<close>. The invalidations of the TLB
  (\<^verbatim>\<open>_paging.S\<close>) are recorded in \<open>flushes\<close>, the value of CR4 is an argument of \<open>paging_init\<close>.
\<close>

section \<open>State and constants\<close>

record paging_state =
  pt :: "u64 \<Rightarrow> u64"
  paging_level :: nat
  frames :: pma_state
  flushes :: "u64 list"

definition PTE_PRESENT :: u64 where "PTE_PRESENT = push_bit 0 1"
definition PTE_WRITABLE :: u64 where "PTE_WRITABLE = push_bit 1 1"
definition PTE_USER :: u64 where "PTE_USER = push_bit 2 1"
definition PTE_HUGE_PAGE :: u64 where "PTE_HUGE_PAGE = push_bit 7 1"
definition PTE_GLOBAL :: u64 where "PTE_GLOBAL = push_bit 8 1"
definition PTE_NX :: u64 where "PTE_NX = push_bit 63 1"
definition PTE_ADDR_MASK :: u64 where "PTE_ADDR_MASK = 0x000FFFFFFFFFFFF000"

definition hhdm :: "paging_state \<Rightarrow> u64" where "hhdm st = hhdm_offset (pma_memory (frames st))"

definition paging_init :: "u64 \<Rightarrow> paging_state \<Rightarrow> paging_state" where
  "paging_init cr4 st = st\<lparr>paging_level := (if cr4 AND push_bit 12 1 \<noteq> 0 then 5 else 4)\<rparr>"

definition paging_get_level :: "paging_state \<Rightarrow> nat" where "paging_get_level st = paging_level st"

definition level_index :: "nat \<Rightarrow> u64 \<Rightarrow> u64" where
  "level_index level virt = drop_bit (12 + level * 9) virt AND 0x1FF"

definition entry_addr :: "u64 \<Rightarrow> u64 \<Rightarrow> u64" where "entry_addr table index = table + 8 * index"

definition table_of :: "paging_state \<Rightarrow> u64 \<Rightarrow> u64" where
  "table_of st entry = (entry AND PTE_ADDR_MASK) + hhdm st"

definition set_entry :: "u64 \<Rightarrow> u64 \<Rightarrow> u64 \<Rightarrow> paging_state \<Rightarrow> paging_state" where
  "set_entry table index v st = st\<lparr>pt := (pt st)(entry_addr table index := v)\<rparr>"

text \<open>The loop that stores \<open>f i\<close> in entry \<open>i\<close> of a table, for all 512 entries.\<close>

definition fill_table :: "u64 \<Rightarrow> (nat \<Rightarrow> u64) \<Rightarrow> paging_state \<Rightarrow> paging_state" where
  "fill_table table f st = st\<lparr>pt := (\<lambda>a. let off = unat (a - table) in
      if off < 4096 \<and> off mod 8 = 0 then f (off div 8) else pt st a)\<rparr>"

section \<open>Walking\<close>

text \<open>The frame for a new table, with its address in the direct map.\<close>

definition new_table :: "paging_state \<Rightarrow> paging_state \<times> u64" where
  "new_table st = (case pma_alloc_pages 1 (frames st) of (f, phys) \<Rightarrow> (st\<lparr>frames := f\<rparr>, phys))"

definition split_entry :: "nat \<Rightarrow> u64 \<Rightarrow> nat \<Rightarrow> u64" where
  "split_entry level entry i =
     (let base_phys = entry AND NOT (push_bit (12 + level * 9) 1 - 1);
          sub_flags = (((entry AND 0xFFF) OR (entry AND PTE_NX)) AND NOT PTE_HUGE_PAGE) AND NOT PTE_GLOBAL;
          sub_page_size = push_bit (12 + (level - 1) * 9) 1;
          e = (base_phys + of_nat i * sub_page_size) OR sub_flags in
      if 1 < level then e OR PTE_HUGE_PAGE else e)"

fun walk_loop :: "nat \<Rightarrow> u64 \<Rightarrow> u64 \<Rightarrow> nat \<Rightarrow> bool \<Rightarrow> paging_state \<Rightarrow> (paging_state \<times> u64) outcome" where
  "walk_loop 0 table virt target_level allocate st = Inr (st, table)"
| "walk_loop (Suc l) table virt target_level allocate st =
     (if \<not> target_level < Suc l then Inr (st, table)
      else if \<not> range_is_safe table (8 * 512)
      then Inl (Panic ''PAGING'' ''invalid page table pointer in walk_to_level'')
      else
        let index = level_index (Suc l) virt;
            entry = pt st (entry_addr table index) in
        if entry AND PTE_PRESENT = 0 then
          (if \<not> allocate then Inr (st, 0)
           else case new_table st of
             (st, new_table_phys) \<Rightarrow>
               if new_table_phys = 0 then Inr (st, 0)
               else
                 let new_table_virt = new_table_phys + hhdm st in
                 if new_table_virt = 0 then Inl (Panic ''MEMORY'' ''memset s is null'')
                 else if \<not> range_is_safe new_table_virt PAGE_SIZE then Inl (Panic ''MEMORY'' ''memset s is out of range'')
                 else walk_loop l new_table_virt virt target_level allocate
                        (set_entry table index (new_table_phys OR (PTE_PRESENT OR PTE_WRITABLE))
                          (fill_table new_table_virt (\<lambda>_. 0) st)))
        else if entry AND PTE_HUGE_PAGE \<noteq> 0 then
          (if \<not> allocate then Inr (st, 0)
           else case new_table st of
             (st, new_table_phys) \<Rightarrow>
               if new_table_phys = 0 then Inr (st, 0)
               else
                 let new_table_virt = new_table_phys + hhdm st;
                     table_flags = entry AND (PTE_PRESENT OR PTE_WRITABLE OR PTE_USER OR PTE_NX) in
                 walk_loop l new_table_virt virt target_level allocate
                   (set_entry table index (new_table_phys OR table_flags)
                     (fill_table new_table_virt (split_entry (Suc l) entry) st)))
        else walk_loop l (table_of st entry) virt target_level allocate st)"

definition walk_to_level :: "u64 \<Rightarrow> u64 \<Rightarrow> nat \<Rightarrow> bool \<Rightarrow> paging_state \<Rightarrow> (paging_state \<times> u64) outcome" where
  "walk_to_level top_table virt target_level allocate st =
     walk_loop (paging_level st - 1) top_table virt target_level allocate st"

text \<open>The address of the entry that maps \<open>vaddr\<close>, at whatever level, or null.\<close>

fun page_entry_loop :: "nat \<Rightarrow> u64 \<Rightarrow> u64 \<Rightarrow> paging_state \<Rightarrow> u64" where
  "page_entry_loop level table vaddr st =
     (let entry_ptr = entry_addr table (level_index level vaddr);
          entry = pt st entry_ptr in
      if entry AND PTE_PRESENT = 0 then 0
      else if entry AND PTE_HUGE_PAGE \<noteq> 0 then entry_ptr
      else case level of 0 \<Rightarrow> entry_ptr | Suc l \<Rightarrow> page_entry_loop l (table_of st entry) vaddr st)"

declare page_entry_loop.simps [simp del]

definition get_page_entry :: "u64 \<Rightarrow> u64 \<Rightarrow> paging_state \<Rightarrow> u64" where
  "get_page_entry top_table vaddr st = page_entry_loop (paging_level st - 1) top_table vaddr st"

definition paging_get_pte :: "u64 \<Rightarrow> u64 \<Rightarrow> bool \<Rightarrow> paging_state \<Rightarrow> (paging_state \<times> u64) outcome" where
  "paging_get_pte pml4 virt allocate st =
     and_then (walk_to_level pml4 virt 0 allocate st)
       (\<lambda>(st, table). Inr (st, if table = 0 then 0 else entry_addr table (drop_bit 12 virt AND 0x1FF)))"

fun phys_loop :: "nat \<Rightarrow> u64 \<Rightarrow> u64 \<Rightarrow> paging_state \<Rightarrow> u64" where
  "phys_loop 0 table vaddr st =
     (let entry = pt st (entry_addr table (drop_bit 12 vaddr AND 0x1FF)) in
      if entry AND PTE_PRESENT = 0 then 0 else (entry AND PTE_ADDR_MASK) + (vaddr AND 0xFFF))"
| "phys_loop (Suc l) table vaddr st =
     (let entry = pt st (entry_addr table (level_index (Suc l) vaddr)) in
      if entry AND PTE_PRESENT = 0 then 0
      else if entry AND PTE_HUGE_PAGE \<noteq> 0 then
        (let page_offset_mask = push_bit (12 + Suc l * 9) 1 - 1 in
         (entry AND NOT page_offset_mask) + (vaddr AND page_offset_mask))
      else phys_loop l (table_of st entry) vaddr st)"

definition paging_get_phys :: "u64 \<Rightarrow> u64 \<Rightarrow> paging_state \<Rightarrow> u64" where
  "paging_get_phys top_table vaddr st = phys_loop (paging_level st - 1) top_table vaddr st"

section \<open>Mapping and unmapping\<close>

definition paging_flush_tlb_page :: "u64 \<Rightarrow> paging_state \<Rightarrow> paging_state" where
  "paging_flush_tlb_page virt st = st\<lparr>flushes := flushes st @ [virt]\<rparr>"

definition store_pte :: "u64 \<Rightarrow> u64 \<Rightarrow> paging_state \<Rightarrow> paging_state" where
  "store_pte pte v st = st\<lparr>pt := (pt st)(pte := v)\<rparr>"

definition paging_map_page_noflush :: "u64 \<Rightarrow> u64 \<Rightarrow> u64 \<Rightarrow> u64 \<Rightarrow> paging_state \<Rightarrow> paging_state outcome" where
  "paging_map_page_noflush pml4 virt phys flags st =
     and_then (paging_get_pte pml4 virt True st)
       (\<lambda>(st, pte). Inr (if pte = 0 then st else store_pte pte ((phys AND NOT 0xFFF) OR flags) st))"

definition paging_map_page :: "u64 \<Rightarrow> u64 \<Rightarrow> u64 \<Rightarrow> u64 \<Rightarrow> paging_state \<Rightarrow> paging_state outcome" where
  "paging_map_page pml4 virt phys flags st =
     and_then (paging_map_page_noflush pml4 virt phys flags st) (\<lambda>st. Inr (paging_flush_tlb_page virt st))"

definition paging_unmap_page_noflush :: "u64 \<Rightarrow> u64 \<Rightarrow> paging_state \<Rightarrow> paging_state outcome" where
  "paging_unmap_page_noflush pml4 virt st =
     and_then (paging_get_pte pml4 virt False st)
       (\<lambda>(st, pte). Inr (if pte \<noteq> 0 \<and> pt st pte AND PTE_PRESENT \<noteq> 0 then store_pte pte 0 st else st))"

definition paging_unmap_page :: "u64 \<Rightarrow> u64 \<Rightarrow> paging_state \<Rightarrow> paging_state outcome" where
  "paging_unmap_page pml4 virt st =
     and_then (paging_unmap_page_noflush pml4 virt st) (\<lambda>st. Inr (paging_flush_tlb_page virt st))"

text \<open>Large pages: \<open>level\<close> is 1 for 2 MB and 2 for 1 GB pages, \<open>sz\<close> their size.\<close>

definition map_large_noflush :: "nat \<Rightarrow> u64 \<Rightarrow> u64 \<Rightarrow> u64 \<Rightarrow> u64 \<Rightarrow> u64 \<Rightarrow> paging_state \<Rightarrow> paging_state outcome" where
  "map_large_noflush level sz pml4 virt phys flags st =
     and_then (walk_to_level pml4 virt level True st)
       (\<lambda>(st, pd). Inr (if pd = 0 then st
          else set_entry pd (level_index level virt) ((phys AND NOT (sz - 1)) OR flags OR PTE_HUGE_PAGE) st))"

definition unmap_large_noflush :: "nat \<Rightarrow> u64 \<Rightarrow> u64 \<Rightarrow> paging_state \<Rightarrow> paging_state outcome" where
  "unmap_large_noflush level pml4 virt st =
     and_then (walk_to_level pml4 virt level False st)
       (\<lambda>(st, pd). Inr (if pd \<noteq> 0 \<and> pt st (entry_addr pd (level_index level virt)) AND PTE_PRESENT \<noteq> 0
          then set_entry pd (level_index level virt) 0 st else st))"

definition paging_map_2mb_noflush :: "u64 \<Rightarrow> u64 \<Rightarrow> u64 \<Rightarrow> u64 \<Rightarrow> paging_state \<Rightarrow> paging_state outcome" where
  "paging_map_2mb_noflush = map_large_noflush 1 PAGE_SIZE_2MB"

definition paging_map_2mb :: "u64 \<Rightarrow> u64 \<Rightarrow> u64 \<Rightarrow> u64 \<Rightarrow> paging_state \<Rightarrow> paging_state outcome" where
  "paging_map_2mb pml4 virt phys flags st =
     and_then (paging_map_2mb_noflush pml4 virt phys flags st) (\<lambda>st. Inr (paging_flush_tlb_page virt st))"

definition paging_unmap_2mb_noflush :: "u64 \<Rightarrow> u64 \<Rightarrow> paging_state \<Rightarrow> paging_state outcome" where
  "paging_unmap_2mb_noflush = unmap_large_noflush 1"

definition paging_unmap_2mb :: "u64 \<Rightarrow> u64 \<Rightarrow> paging_state \<Rightarrow> paging_state outcome" where
  "paging_unmap_2mb pml4 virt st =
     and_then (paging_unmap_2mb_noflush pml4 virt st) (\<lambda>st. Inr (paging_flush_tlb_page virt st))"

definition paging_map_1gb_noflush :: "u64 \<Rightarrow> u64 \<Rightarrow> u64 \<Rightarrow> u64 \<Rightarrow> paging_state \<Rightarrow> paging_state outcome" where
  "paging_map_1gb_noflush = map_large_noflush 2 PAGE_SIZE_1GB"

definition paging_map_1gb :: "u64 \<Rightarrow> u64 \<Rightarrow> u64 \<Rightarrow> u64 \<Rightarrow> paging_state \<Rightarrow> paging_state outcome" where
  "paging_map_1gb pml4 virt phys flags st =
     and_then (paging_map_1gb_noflush pml4 virt phys flags st) (\<lambda>st. Inr (paging_flush_tlb_page virt st))"

definition paging_unmap_1gb_noflush :: "u64 \<Rightarrow> u64 \<Rightarrow> paging_state \<Rightarrow> paging_state outcome" where
  "paging_unmap_1gb_noflush = unmap_large_noflush 2"

definition paging_unmap_1gb :: "u64 \<Rightarrow> u64 \<Rightarrow> paging_state \<Rightarrow> paging_state outcome" where
  "paging_unmap_1gb pml4 virt st =
     and_then (paging_unmap_1gb_noflush pml4 virt st) (\<lambda>st. Inr (paging_flush_tlb_page virt st))"

end
