(* ===== verification/Time.thy ===== *)
theory Time
  imports Port_IO Paging
begin

text \<open>
  Time keeping: the CMOS clock (\<^verbatim>\<open>src/drivers/RTC.c\<close>), the HPET (\<^verbatim>\<open>src/firmware/acpi/hpet.c\<close>) and
  \<^verbatim>\<open>src/time.c\<close>. The clocks are hardware: the CMOS answers through \<open>hw\<close> (theory \<open>Port_IO\<close>), the \<open>n\<close>-th
  read of the HPET counter gives \<open>ticks n\<close>, its capability register is the argument \<open>caps\<close>. The century
  register of the FADT is an argument, \<open>None\<close> when there is no FADT. A loop that polls a clock is a
  partial function: it has no value when the clock never changes.
\<close>

section \<open>The CMOS clock\<close>

record rtc_time_t =
  second :: u8
  minute :: u8
  hour :: u8
  day :: u8
  month :: u8
  year :: u32
  weekday :: u8

definition BCD_TO_BIN :: "'a::len word \<Rightarrow> 'a word" where
  "BCD_TO_BIN val = (val AND 0x0F) + (val div 16) * 10"

definition is_updating :: "hw \<Rightarrow> trace \<Rightarrow> bool \<times> trace" where
  "is_updating hw tr = (case cmos_read hw 0x0A tr of (v, tr) \<Rightarrow> (v AND 0x80 \<noteq> 0, tr))"

partial_function (option) wait_update :: "hw \<Rightarrow> trace \<Rightarrow> trace option" where
  "wait_update hw tr = (case is_updating hw tr of (b, tr) \<Rightarrow> if b then wait_update hw tr else Some tr)"

text \<open>The conversion of the raw registers: binary-coded decimals, 12 hour mode, century.\<close>

definition rtc_decode :: "u8 \<Rightarrow> rtc_time_t \<Rightarrow> rtc_time_t" where
  "rtc_decode registerB t =
     (if registerB AND 0x04 = 0 then
        t\<lparr>second := BCD_TO_BIN (second t), minute := BCD_TO_BIN (minute t),
          hour := ((hour t AND 0x0F) + ((hour t AND 0x70) div 16) * 10) OR (hour t AND 0x80),
          day := BCD_TO_BIN (day t), month := BCD_TO_BIN (month t), year := BCD_TO_BIN (year t)\<rparr>
      else t)"

definition rtc_hour :: "u8 \<Rightarrow> rtc_time_t \<Rightarrow> rtc_time_t" where
  "rtc_hour registerB t =
     (if registerB AND 0x02 = 0 \<and> hour t AND 0x80 \<noteq> 0 then t\<lparr>hour := ((hour t AND 0x7F) + 12) mod 24\<rparr> else t)"

definition rtc_century :: "u8 option \<Rightarrow> u8 \<Rightarrow> rtc_time_t \<Rightarrow> rtc_time_t" where
  "rtc_century fadt century t =
     (if fadt \<noteq> None \<and> fadt \<noteq> Some 0 \<and> century \<noteq> 0
      then t\<lparr>year := year t + ucast century * 100\<rparr> else t\<lparr>year := year t + 2000\<rparr>)"

definition read_rtc :: "hw \<Rightarrow> u8 option \<Rightarrow> rtc_time_t \<Rightarrow> trace \<Rightarrow> (rtc_time_t \<times> trace) option" where
  "read_rtc hw fadt time tr =
     (case wait_update hw tr of None \<Rightarrow> None | Some tr \<Rightarrow> Some (
        let (s, tr) = cmos_read hw 0x00 tr;
            (mi, tr) = cmos_read hw 0x02 tr;
            (h, tr) = cmos_read hw 0x04 tr;
            (d, tr) = cmos_read hw 0x07 tr;
            (mo, tr) = cmos_read hw 0x08 tr;
            (y, tr) = cmos_read hw 0x09 tr;
            time = time\<lparr>second := s, minute := mi, hour := h, day := d, month := mo, year := ucast y\<rparr>;
            (century, tr) = (case fadt of None \<Rightarrow> (0, tr) | Some c \<Rightarrow> if c \<noteq> 0 then cmos_read hw c tr else (0, tr));
            (registerB, tr) = cmos_read hw 0x0B tr;
            century = (if registerB AND 0x04 = 0 \<and> fadt \<noteq> None \<and> fadt \<noteq> Some 0 then BCD_TO_BIN century else century)
        in (rtc_century fadt century (rtc_hour registerB (rtc_decode registerB time)), tr)))"

section \<open>Seconds since 1970\<close>

datatype time_error = MonthOutOfRange | DivideByZero

definition days_before_month :: "u64 list" where
  "days_before_month = [0, 31, 59, 90, 120, 151, 181, 212, 243, 273, 304, 334]"

definition rtc_epoch :: "rtc_time_t \<Rightarrow> time_error + u64" where
  "rtc_epoch t1 =
     (let y = (ucast (year t1) :: u64);
          total_days = (y - 1970) * 365;
          total_days = total_days + (y - 1969) div 4;
          total_days = total_days - (y - 1901) div 100;
          total_days = total_days + (y - 1601) div 400 in
      if month t1 = 0 \<or> 12 < month t1 then Inl MonthOutOfRange
      else
        let total_days = total_days + days_before_month ! unat (month t1 - 1);
            total_days = (if 2 < month t1 \<and> (y mod 4 = 0 \<and> y mod 100 \<noteq> 0 \<or> y mod 400 = 0) then total_days + 1 else total_days);
            total_days = total_days + (ucast (day t1) - 1) in
        Inr (total_days * 86400 + ucast (hour t1) * 3600 + ucast (minute t1) * 60 + ucast (second t1)))"

definition same_time :: "rtc_time_t \<Rightarrow> rtc_time_t \<Rightarrow> bool" where
  "same_time t1 t2 \<longleftrightarrow> second t1 = second t2 \<and> minute t1 = minute t2 \<and> hour t1 = hour t2 \<and> day t1 = day t2 \<and>
     month t1 = month t2 \<and> year t1 = year t2"

partial_function (option) read_stable :: "hw \<Rightarrow> u8 option \<Rightarrow> rtc_time_t \<Rightarrow> rtc_time_t \<Rightarrow> trace \<Rightarrow> (rtc_time_t \<times> trace) option" where
  "read_stable hw fadt t1 t2 tr =
     (case read_rtc hw fadt t1 tr of None \<Rightarrow> None | Some (t1, tr) \<Rightarrow>
      case read_rtc hw fadt t2 tr of None \<Rightarrow> None | Some (t2, tr) \<Rightarrow>
      if same_time t1 t2 then Some (t1, tr) else read_stable hw fadt t1 t2 tr)"

text \<open>The stack slots \<open>t1\<close> and \<open>t2\<close> start with what is there; only their unread weekday keeps it.\<close>

definition get_epoch_rtc :: "hw \<Rightarrow> u8 option \<Rightarrow> rtc_time_t \<Rightarrow> trace \<Rightarrow> ((time_error + u64) \<times> trace) option" where
  "get_epoch_rtc hw fadt stack tr = map_option (\<lambda>(t1, tr). (rtc_epoch t1, tr)) (read_stable hw fadt stack stack tr)"

section \<open>The HPET\<close>

record hpet_state =
  hpet_base :: u64
  femtoseconds_per_tick :: u32
  hpet_config :: u64

definition PTE_WRITE_THROUGH :: u64 where "PTE_WRITE_THROUGH = push_bit 3 1"
definition PTE_CACHE_DISABLE :: u64 where "PTE_CACHE_DISABLE = push_bit 4 1"

text \<open>\<open>hpet_phys\<close> is the address in the ACPI table, \<open>hpet_config\<close> the device's configuration register.\<close>

definition hpet_init :: "u64 \<Rightarrow> u64 \<Rightarrow> u64 \<Rightarrow> hpet_state \<Rightarrow> paging_state \<Rightarrow> (hpet_state \<times> paging_state) outcome" where
  "hpet_init pml4_phys hpet_phys caps h st =
     (let pml4_virt = pml4_phys + hhdm st;
          h = h\<lparr>hpet_base := hpet_phys + hhdm st\<rparr> in
      and_then (paging_map_page pml4_virt (hpet_base h) hpet_phys (PTE_PRESENT OR PTE_WRITABLE OR PTE_WRITE_THROUGH OR PTE_CACHE_DISABLE) st)
        (\<lambda>st. Inr (h\<lparr>femtoseconds_per_tick := ucast (drop_bit 32 caps), hpet_config := hpet_config h OR 0x01\<rparr>, st)))"

definition hpet_get_frequency :: "hpet_state \<Rightarrow> time_error + u64" where
  "hpet_get_frequency h =
     (if femtoseconds_per_tick h = 0 then Inl DivideByZero else Inr (1000000000000000 div ucast (femtoseconds_per_tick h)))"

definition hpet_get_ticks :: "(nat \<Rightarrow> u64) \<Rightarrow> nat \<Rightarrow> u64 \<times> nat" where
  "hpet_get_ticks ticks n = (ticks n, Suc n)"

definition hpet_get_nanos :: "(nat \<Rightarrow> u64) \<Rightarrow> hpet_state \<Rightarrow> nat \<Rightarrow> u64 \<times> nat" where
  "hpet_get_nanos ticks h n =
     (if hpet_base h = 0 then (0, n)
      else case hpet_get_ticks ticks n of (t, n) \<Rightarrow> ((t * ucast (femtoseconds_per_tick h)) div 1000000, n))"

definition hpet_get_ms :: "(nat \<Rightarrow> u64) \<Rightarrow> hpet_state \<Rightarrow> nat \<Rightarrow> u64 \<times> nat" where
  "hpet_get_ms ticks h n =
     (if hpet_base h = 0 then (0, n)
      else case hpet_get_ticks ticks n of (t, n) \<Rightarrow> ((t * ucast (femtoseconds_per_tick h)) div 1000000000000, n))"

definition hpet_femto_per_tick :: "u64 \<Rightarrow> hpet_state \<Rightarrow> u32" where
  "hpet_femto_per_tick caps h = (if hpet_base h = 0 then 0 else ucast (drop_bit 32 caps))"

section \<open>The kernel's clock\<close>

record time_state =
  boot_epoch :: u64
  boot_hpet_ticks :: u64
  hpet_ticks_per_ms :: u64
  hpet_ticks_per_us :: u64

text \<open>What the routines share: the hardware (read only) and the accesses made so far.\<close>

record clocks =
  rtc_hw :: hw
  fadt_century :: "u8 option"
  hpet_ticks :: "nat \<Rightarrow> u64"
  hpet_caps :: u64

record clock_reads =
  io_trace :: trace
  tick_reads :: nat

text \<open>Both \<open>time_init\<close> and \<open>time_sync\<close> end with reading the two clocks.\<close>

definition set_boot :: "clocks \<Rightarrow> rtc_time_t \<Rightarrow> time_state \<Rightarrow> clock_reads \<Rightarrow> (time_error + (time_state \<times> clock_reads)) option" where
  "set_boot c stack ts r =
     (case hpet_get_ticks (hpet_ticks c) (tick_reads r) of (t, n) \<Rightarrow>
      map_option (\<lambda>(e, tr). and_then e (\<lambda>s. Inr (ts\<lparr>boot_hpet_ticks := t, boot_epoch := s\<rparr>, \<lparr>io_trace = tr, tick_reads = n\<rparr>)))
        (get_epoch_rtc (rtc_hw c) (fadt_century c) stack (io_trace r)))"

partial_function (option) wait_second :: "hw \<Rightarrow> u8 option \<Rightarrow> u8 \<Rightarrow> rtc_time_t \<Rightarrow> trace \<Rightarrow> trace option" where
  "wait_second hw fadt start current tr =
     (if second current \<noteq> start then Some tr
      else case read_rtc hw fadt current tr of None \<Rightarrow> None | Some (current, tr) \<Rightarrow> wait_second hw fadt start current tr)"

definition time_sync :: "clocks \<Rightarrow> rtc_time_t \<Rightarrow> time_state \<Rightarrow> clock_reads \<Rightarrow> (time_error + (time_state \<times> clock_reads)) option" where
  "time_sync c stack ts r =
     (case read_rtc (rtc_hw c) (fadt_century c) stack (io_trace r) of None \<Rightarrow> None | Some (start_time, tr) \<Rightarrow>
      case wait_second (rtc_hw c) (fadt_century c) (second start_time) start_time tr of None \<Rightarrow> None | Some tr \<Rightarrow>
      set_boot c stack ts (r\<lparr>io_trace := tr\<rparr>))"

definition time_init :: "clocks \<Rightarrow> rtc_time_t \<Rightarrow> hpet_state \<Rightarrow> time_state \<Rightarrow> clock_reads \<Rightarrow> (time_error + (time_state \<times> clock_reads)) option" where
  "time_init c stack h ts r =
     (let f_per_tick = (ucast (hpet_femto_per_tick (hpet_caps c) h) :: u64) in
      if f_per_tick = 0 then Some (Inl DivideByZero)
      else set_boot c stack (ts\<lparr>hpet_ticks_per_ms := 1000000000000 div f_per_tick, hpet_ticks_per_us := 1000000000 div f_per_tick\<rparr>) r)"

definition get_epoch :: "clocks \<Rightarrow> hpet_state \<Rightarrow> time_state \<Rightarrow> clock_reads \<Rightarrow> time_error + (u64 \<times> clock_reads)" where
  "get_epoch c h ts r =
     (if boot_hpet_ticks ts = 0 then Inr (boot_epoch ts, r)
      else case hpet_get_ticks (hpet_ticks c) (tick_reads r) of (t, n) \<Rightarrow>
        let elapsed_ticks = t - boot_hpet_ticks ts;
            f_per_tick = (ucast (hpet_femto_per_tick (hpet_caps c) h) :: u64);
            f_per_sec = 1000000000000000 in
        if f_per_tick = 0 then Inl DivideByZero
        else
          let ticks_per_sec = f_per_sec div f_per_tick;
              elapsed_sec = elapsed_ticks div ticks_per_sec in
          Inr (boot_epoch ts + elapsed_sec, r\<lparr>tick_reads := n\<rparr>))"

partial_function (option) sleep_loop :: "(nat \<Rightarrow> u64) \<Rightarrow> u64 \<Rightarrow> u64 \<Rightarrow> nat \<Rightarrow> nat option" where
  "sleep_loop ticks start total_ticks n =
     (case hpet_get_ticks ticks n of (t, n) \<Rightarrow> if t - start < total_ticks then sleep_loop ticks start total_ticks n else Some n)"

definition msleep :: "(nat \<Rightarrow> u64) \<Rightarrow> time_state \<Rightarrow> u64 \<Rightarrow> nat \<Rightarrow> nat option" where
  "msleep ticks ts ms n =
     (let total_ticks = ms * hpet_ticks_per_ms ts in
      case hpet_get_ticks ticks n of (start, n) \<Rightarrow> sleep_loop ticks start total_ticks n)"

definition usleep :: "(nat \<Rightarrow> u64) \<Rightarrow> time_state \<Rightarrow> u64 \<Rightarrow> nat \<Rightarrow> nat option" where
  "usleep ticks ts us n =
     (let total_ticks = us * hpet_ticks_per_us ts in
      case hpet_get_ticks ticks n of (start, n) \<Rightarrow> sleep_loop ticks start total_ticks n)"

section \<open>The calendar\<close>

definition leap :: "nat \<Rightarrow> bool" where "leap y \<longleftrightarrow> y mod 4 = 0 \<and> y mod 100 \<noteq> 0 \<or> y mod 400 = 0"

definition year_days :: "nat \<Rightarrow> nat" where "year_days y = (if leap y then 366 else 365)"

definition month_days :: "nat \<Rightarrow> nat \<Rightarrow> nat" where
  "month_days y m = (if m = 2 then (if leap y then 29 else 28) else if m \<in> {4, 6, 9, 11} then 30 else 31)"

text \<open>Days from 1 January 1970 to a date, counted year by year and month by month.\<close>

definition civil_days :: "nat \<Rightarrow> nat \<Rightarrow> nat \<Rightarrow> nat" where
  "civil_days y m d = (\<Sum>k\<in>{1970..<y}. year_days k) + (\<Sum>k\<in>{1..<m}. month_days y k) + (d - 1)"

lemma year_sum:
  "(\<Sum>k\<in>{1970..<1970 + n}. year_days k) + (n + 69) div 100 = n * 365 + (n + 1) div 4 + (n + 369) div 400"
proof (induction n)
  case (Suc n)
  have s: "(\<Sum>k\<in>{1970..<1970 + Suc n}. year_days k) = (\<Sum>k\<in>{1970..<1970 + n}. year_days k) + year_days (1970 + n)"
    unfolding add_Suc_right by (rule sum.atLeastLessThan_Suc) simp
  have w: "Suc (n + 1) mod 4 = (1970 + n) mod 4" "Suc (n + 69) mod 100 = (1970 + n) mod 100" "Suc (n + 369) mod 400 = (1970 + n) mod 400"
    using mod_mult_self1 [of "n + 2" 492 4] mod_mult_self1 [of "n + 70" 19 100] mod_mult_self1 [of "n + 370" 4 400]
    by (simp_all add: add.commute)
  have d: "(Suc n + 1) div 4 = (n + 1) div 4 + (if (1970 + n) mod 4 = 0 then 1 else 0)"
    "(Suc n + 69) div 100 = (n + 69) div 100 + (if (1970 + n) mod 100 = 0 then 1 else 0)"
    "(Suc n + 369) div 400 = (n + 369) div 400 + (if (1970 + n) mod 400 = 0 then 1 else 0)"
    unfolding add_Suc div_Suc w by simp_all
  have i: "(1970 + n) mod 400 = 0 \<Longrightarrow> (1970 + n) mod 100 = 0" "(1970 + n) mod 100 = 0 \<Longrightarrow> (1970 + n) mod 4 = 0"
    using dvd_trans [of 100 400 "1970 + n"] dvd_trans [of 4 100 "1970 + n"] unfolding mod_eq_0_iff_dvd by simp_all
  show ?case unfolding s d using Suc.IH i by (auto simp: year_days_def leap_def)
qed simp

lemma month_sum:
  assumes "1 \<le> m" "m \<le> 12"
  shows "(\<Sum>k\<in>{1..<m}. month_days y k) = unat (days_before_month ! (m - 1)) + (if 2 < m \<and> leap y then 1 else 0)"
proof -
  have "m = 1 \<or> m = 2 \<or> m = 3 \<or> m = 4 \<or> m = 5 \<or> m = 6 \<or> m = 7 \<or> m = 8 \<or> m = 9 \<or> m = 10 \<or> m = 11 \<or> m = 12"
    using assms by presburger
  then show ?thesis by (auto simp: days_before_month_def month_days_def atLeastLessThan_nat_numeral)
qed

lemma of_nat_div: "a < 2 ^ 64 \<Longrightarrow> b < 2 ^ 64 \<Longrightarrow> (of_nat a :: u64) div of_nat b = of_nat (a div b)"
proof -
  assume a: "a < 2 ^ 64" "b < 2 ^ 64"
  have "a div b < 2 ^ 64" using a(1) div_le_dividend [of a b] by linarith
  then show ?thesis using a by (intro word_unat_eq_iff [THEN iffD2]) (simp add: unat_div unat_of_nat_small)
qed

lemma of_nat_mod_64: "a < 2 ^ 64 \<Longrightarrow> b < 2 ^ 64 \<Longrightarrow> (of_nat a :: u64) mod of_nat b = of_nat (a mod b)"
proof -
  assume a: "a < 2 ^ 64" "b < 2 ^ 64"
  have "a mod b < 2 ^ 64" using a(1) mod_less_eq_dividend [of a b] by linarith
  then show ?thesis using a by (intro word_unat_eq_iff [THEN iffD2]) (simp add: unat_mod unat_of_nat_small)
qed

text \<open>A date and time of the civil calendar.\<close>

definition valid_time :: "rtc_time_t \<Rightarrow> bool" where
  "valid_time t \<longleftrightarrow> 1970 \<le> unat (year t) \<and> 1 \<le> unat (month t) \<and> unat (month t) \<le> 12 \<and>
     1 \<le> unat (day t) \<and> unat (day t) \<le> month_days (unat (year t)) (unat (month t)) \<and>
     unat (hour t) < 24 \<and> unat (minute t) < 60 \<and> unat (second t) < 60"

definition civil_seconds :: "rtc_time_t \<Rightarrow> nat" where
  "civil_seconds t = civil_days (unat (year t)) (unat (month t)) (unat (day t)) * 86400 +
     unat (hour t) * 3600 + unat (minute t) * 60 + unat (second t)"

lemma year_part:
  assumes "1970 \<le> y" "y < 2 ^ 32"
  shows "(of_nat y - 1970) * 365 + (of_nat y - 1969) div 4 - (of_nat y - 1901) div 100 + (of_nat y - 1601) div 400 =
    (of_nat (\<Sum>k\<in>{1970..<y}. year_days k) :: u64)"
proof -
  obtain n where n: "y = 1970 + n" using assms(1) le_Suc_ex by blast
  have d: "(of_nat (n + 1) :: u64) div 4 = of_nat ((n + 1) div 4)" "(of_nat (n + 69) :: u64) div 100 = of_nat ((n + 69) div 100)"
    "(of_nat (n + 369) :: u64) div 400 = of_nat ((n + 369) div 400)"
    using of_nat_div [of "n + 1" 4] of_nat_div [of "n + 69" 100] of_nat_div [of "n + 369" 400] assms(2) n by (simp_all del: of_nat_add)
  have e: "of_nat y - 1970 = (of_nat n :: u64)" "of_nat y - 1969 = (of_nat (n + 1) :: u64)" "of_nat y - 1901 = (of_nat (n + 69) :: u64)"
    "of_nat y - 1601 = (of_nat (n + 369) :: u64)" by (simp_all add: n)
  have "(of_nat ((\<Sum>k\<in>{1970..<y}. year_days k) + (n + 69) div 100) :: u64) = of_nat (n * 365 + (n + 1) div 4 + (n + 369) div 400)"
    using year_sum [of n] by (simp only: n)
  then show ?thesis unfolding e d by (simp add: algebra_simps)
qed

lemma leap_word: "y < 2 ^ 32 \<Longrightarrow> ((of_nat y :: u64) mod 4 = 0 \<and> (of_nat y :: u64) mod 100 \<noteq> 0 \<or> (of_nat y :: u64) mod 400 = 0) \<longleftrightarrow> leap y"
proof -
  assume y: "y < 2 ^ 32"
  have "(of_nat y :: u64) mod of_nat k = 0 \<longleftrightarrow> y mod k = 0" if "k < 1000" for k
  proof -
    have "(of_nat y :: u64) mod of_nat k = of_nat (y mod k)" using y that by (intro of_nat_mod_64) simp_all
    moreover have "y mod k < 2 ^ 64" by (rule order.strict_trans1 [OF mod_less_eq_dividend]) (use y in simp)
    then have "unat (of_nat (y mod k) :: u64) = y mod k" by (simp add: unat_of_nat_small)
    ultimately show ?thesis by (simp only: word_unat_eq_iff unat_0)
  qed
  from this [of 4] this [of 100] this [of 400] show ?thesis by (simp add: leap_def)
qed


text \<open>
  C17. For every date of the civil calendar from 1970 on, the closed formula of \<open>get_epoch_rtc\<close> is the
  number of seconds counted year by year, with the leap years of the Gregorian calendar, and month by
  month.
\<close>

theorem rtc_epoch_correct:
  assumes "valid_time t"
  shows "\<exists>e. rtc_epoch t = Inr e \<and> unat e = civil_seconds t"
proof -
  define y m where "y = unat (year t)" and "m = unat (month t)"
  have y: "1970 \<le> y" "y < 2 ^ 32" "1 \<le> m" "m \<le> 12" using assms unat_bounds(3) [of "year t"] by (simp_all add: valid_time_def y_def m_def)
  have yw: "(ucast (year t) :: u64) = of_nat y" by (simp add: y_def)
  have mo: "month t \<noteq> 0" "\<not> 12 < month t" "unat (month t - 1) = m - 1" "2 < month t \<longleftrightarrow> 2 < m"
  proof -
    show nz: "month t \<noteq> 0" using y(3) by (auto simp: m_def)
    show "\<not> 12 < month t" "2 < month t \<longleftrightarrow> 2 < m" using y(4) by (simp_all add: m_def word_less_nat_alt)
    show "unat (month t - 1) = m - 1" using nz y(3) by (simp add: m_def unat_minus_one)
  qed
  obtain d where d: "unat (day t) = Suc d" using assms by (auto simp: valid_time_def dest: Suc_le_D)
  have "(ucast (day t) :: u64) = of_nat (unat (day t))" by simp
  then have d1: "(ucast (day t) :: u64) - 1 = of_nat d" unfolding d by simp
  have ms: "(of_nat (\<Sum>k\<in>{1..<m}. month_days y k) :: u64) = days_before_month ! (m - 1) + (if 2 < m \<and> leap y then 1 else 0)"
    using month_sum [OF y(3,4), of y] by simp
  have "rtc_epoch t = Inr (of_nat (civil_seconds t))"
    unfolding rtc_epoch_def Let_def yw mo year_part [OF y(1,2)] leap_word [OF y(2)] d1
    using mo ms by (simp add: civil_seconds_def civil_days_def y_def [symmetric] m_def [symmetric] d algebra_simps)
  moreover have "civil_seconds t < 2 ^ 64"
  proof -
    have "(\<Sum>k\<in>{1970..<y}. year_days k) \<le> (\<Sum>k\<in>{1970..<y}. 366)" by (rule sum_mono) (simp add: year_days_def)
    then have "(\<Sum>k\<in>{1970..<y}. year_days k) \<le> 366 * 2 ^ 32" using y(2) by simp
    moreover have "(\<Sum>k\<in>{1..<m}. month_days y k) \<le> (\<Sum>k\<in>{1..<m}. 31)" by (rule sum_mono) (simp add: month_days_def)
    then have "(\<Sum>k\<in>{1..<m}. month_days y k) \<le> 31 * 12" using y(4) by simp
    moreover have "unat (day t) < 256" "unat (hour t) < 24" "unat (minute t) < 60" "unat (second t) < 60"
      using assms by (simp_all add: valid_time_def)
    ultimately have "civil_days y m (unat (day t)) \<le> 366 * 2 ^ 32 + 31 * 12 + 256" unfolding civil_days_def by linarith
    then show ?thesis
      using \<open>unat (hour t) < 24\<close> \<open>unat (minute t) < 60\<close> \<open>unat (second t) < 60\<close>
      by (simp add: civil_seconds_def y_def [symmetric] m_def [symmetric])
  qed
  ultimately show ?thesis by (simp add: unat_of_nat_small)
qed

theorem rtc_epoch_correct_witness:
  "\<exists>e. rtc_epoch \<lparr>second = 5, minute = 30, hour = 12, day = 29, month = 2, year = 2024, weekday = 0\<rparr> = Inr e \<and>
     unat e = civil_seconds \<lparr>second = 5, minute = 30, hour = 12, day = 29, month = 2, year = 2024, weekday = 0\<rparr>"
  by (rule rtc_epoch_correct) (simp add: valid_time_def month_days_def leap_def)

section \<open>Reading the CMOS clock\<close>

lemma bcd_digits: "t < 10 \<Longrightarrow> u < 10 \<Longrightarrow> BCD_TO_BIN (of_nat (16 * t + u) :: u8) = of_nat (10 * t + u)"
proof -
  assume a: "t < 10" "u < 10"
  have u: "unat (of_nat (16 * t + u) :: u8) = 16 * t + u" by (rule unat_of_nat_small) (use a in simp)
  define x :: u8 where "x = of_nat (16 * t + u)"
  have x: "unat (x div 16) = t" "unat (x AND 15) = u"
    using a u unat_and_mask [of x 4] by (simp_all add: unat_div mask_eq_decr_exp x_def)
  then have m: "unat (x div 16 * 10) = t * 10" using a by (simp add: unat_mult_small)
  have "unat ((x AND 15) + x div 16 * 10) = u + t * 10" using a by (subst unat_plus_small) (simp_all only: x m, simp_all)
  moreover have "unat (of_nat (10 * t + u) :: u8) = 10 * t + u" by (rule unat_of_nat_small) (use a in simp)
  ultimately show ?thesis unfolding BCD_TO_BIN_def x_def [symmetric] word_unat_eq_iff by simp
qed

text \<open>In 12 hour mode the clock shows 12 PM as 0x92 and 12 AM as 0x12; the decoded hours are 0 and 12.\<close>

lemma rtc_twelve:
  "hour (rtc_hour 0 (rtc_decode 0 (t\<lparr>hour := 0x92\<rparr>))) = 0" "hour (rtc_hour 0 (rtc_decode 0 (t\<lparr>hour := 0x12\<rparr>))) = 12"
  by (simp_all add: rtc_hour_def rtc_decode_def)

section \<open>Sleeping\<close>

text \<open>
  C18. When the counter runs without wrapping and passes every value below its end, \<open>msleep\<close> returns; at
  its last read, and at no earlier one, the requested ticks have passed since the first read.
\<close>

theorem msleep_returns:
  assumes "\<And>i j. i \<le> j \<Longrightarrow> unat (ticks i) \<le> unat (ticks j)" and "\<exists>k\<ge>n. unat (ticks n) + unat (ms * hpet_ticks_per_ms ts) \<le> unat (ticks k)"
  shows "\<exists>n'. msleep ticks ts ms n = Some n' \<and> n + 1 < n' \<and>
    unat (ms * hpet_ticks_per_ms ts) \<le> unat (ticks (n' - 1)) - unat (ticks n) \<and>
    (\<forall>k. n < k \<and> k < n' - 1 \<longrightarrow> unat (ticks k) - unat (ticks n) < unat (ms * hpet_ticks_per_ms ts))"
proof -
  define tot where "tot = ms * hpet_ticks_per_ms ts"
  have sub: "ticks k - ticks n < tot \<longleftrightarrow> unat (ticks k) - unat (ticks n) < unat tot" if "n \<le> k" for k
    using assms(1) [OF that] by (simp add: word_less_nat_alt word_le_nat_alt unat_sub)
  have loop: "unat tot \<le> unat (ticks k) - unat (ticks n) \<Longrightarrow> n < m \<Longrightarrow> m \<le> k \<Longrightarrow>
    \<exists>n'. sleep_loop ticks (ticks n) tot m = Some n' \<and> m < n' \<and> unat tot \<le> unat (ticks (n' - 1)) - unat (ticks n) \<and>
      (\<forall>j. m \<le> j \<and> j < n' - 1 \<longrightarrow> unat (ticks j) - unat (ticks n) < unat tot)" for k m
  proof (induction "k - m" arbitrary: m)
    case 0
    then show ?case using sub [of m] by (subst sleep_loop.simps) (auto simp: hpet_get_ticks_def intro!: exI [of _ "Suc m"])
  next
    case (Suc d)
    show ?case
    proof (cases "ticks m - ticks n < tot")
      case True
      have dk: "d = k - Suc m" "Suc m \<le> k" "n < Suc m" using Suc.hyps(2) Suc.prems(2) by arith+
      obtain n' where "sleep_loop ticks (ticks n) tot (Suc m) = Some n'" "Suc m < n'" "unat tot \<le> unat (ticks (n' - 1)) - unat (ticks n)"
        "\<forall>j. Suc m \<le> j \<and> j < n' - 1 \<longrightarrow> unat (ticks j) - unat (ticks n) < unat tot"
        using Suc.hyps(1) [OF dk(1) Suc.prems(1) dk(3,2)] by blast
      moreover have "unat (ticks m) - unat (ticks n) < unat tot" using True sub [of m] Suc.prems(2) by simp
      then have "\<forall>j. m \<le> j \<and> j < n' - 1 \<longrightarrow> unat (ticks j) - unat (ticks n) < unat tot"
        using calculation(4) by (metis Suc_le_eq le_neq_implies_less)
      moreover have "sleep_loop ticks (ticks n) tot m = Some n'"
        using True calculation(1) by (subst sleep_loop.simps) (simp add: hpet_get_ticks_def)
      ultimately show ?thesis by (metis Suc_lessD)
    next
      case False
      then show ?thesis
        using sub [of m] Suc.prems(2) by (subst sleep_loop.simps) (auto simp: hpet_get_ticks_def intro!: exI [of _ "Suc m"])
    qed
  qed
  obtain k where k: "n \<le> k" "unat (ticks n) + unat tot \<le> unat (ticks k)" using assms(2) by (auto simp: tot_def)
  have "unat (ticks k) \<le> unat (ticks (Suc k))" by (rule assms(1)) simp
  then have "unat tot \<le> unat (ticks (Suc k)) - unat (ticks n)" using k(2) by linarith
  from loop [OF this, of "Suc n"] k(1) obtain n' where "sleep_loop ticks (ticks n) tot (Suc n) = Some n'" "Suc n < n'"
    "unat tot \<le> unat (ticks (n' - 1)) - unat (ticks n)" "\<forall>j. Suc n \<le> j \<and> j < n' - 1 \<longrightarrow> unat (ticks j) - unat (ticks n) < unat tot" by auto
  then show ?thesis by (auto simp: msleep_def hpet_get_ticks_def Let_def tot_def Suc_le_eq)
qed

text \<open>A counter that stops at its last value, read every 40 ticks.\<close>

theorem msleep_returns_witness:
  "\<exists>n'. msleep (\<lambda>i. of_nat (min i 1000 * 40)) \<lparr>boot_epoch = 0, boot_hpet_ticks = 0, hpet_ticks_per_ms = 100, hpet_ticks_per_us = 0\<rparr> 3 2 = Some n' \<and>
     300 \<le> unat (of_nat (min (n' - 1) 1000 * 40) :: u64) - 80"
proof -
  let ?t = "\<lambda>i. of_nat (min i 1000 * 40) :: u64"
  let ?ts = "\<lparr>boot_epoch = 0, boot_hpet_ticks = 0, hpet_ticks_per_ms = 100, hpet_ticks_per_us = 0\<rparr> :: time_state"
  have u: "unat (?t i) = min i 1000 * 40" for i by (rule unat_of_nat_small) (simp add: min_def)
  have m: "\<And>i j. i \<le> j \<Longrightarrow> unat (?t i) \<le> unat (?t j)" unfolding u by (simp add: min_def)
  have e: "\<exists>k\<ge>2. unat (?t 2) + unat (3 * hpet_ticks_per_ms ?ts) \<le> unat (?t k)" unfolding u by (intro exI [of _ 500]) simp
  have "unat (3 * hpet_ticks_per_ms ?ts) = 300" by simp
  moreover have "unat (?t 2) = 80" unfolding u by simp
  ultimately show ?thesis using msleep_returns [of ?t 2 3 ?ts, OF m e] by metis
qed

end
