(* ===== verification/Input.thy ===== *)
theory Input
  imports CharDev Time
begin

text \<open>
  Input devices: the PS/2 keyboard (\<^verbatim>\<open>src/drivers/PS2.c\<close>, \<^verbatim>\<open>src/kbd_layouts.h\<close>) and the receive side of
  the serial port (\<^verbatim>\<open>src/drivers/UART16550.c\<close>), a ring of 1024 characters filled by the interrupt
  handler and emptied by \<^verbatim>\<open>uart16550_getc\<close>.
\<close>

section \<open>Keyboard layouts\<close>

text \<open>The tables end with the space bar: a scan code above 0x39 reads past their end.\<close>

datatype layout = USA_KEYBOARD_LAYOUT | GB_KEYBOARD_LAYOUT

definition keys_low :: "layout \<Rightarrow> string" where
  "keys_low l = [CHR 0x00, CHR 0x1B] @ ''1234567890-='' @ [CHR 0x08, CHR 0x09] @ ''qwertyuiop[]'' @ [CHR 0x0A, CHR 0x00] @
     ''asdfghjkl;'' @ [CHR 0x27, CHR 0x60, CHR 0x00, (case l of USA_KEYBOARD_LAYOUT \<Rightarrow> CHR 0x5C | GB_KEYBOARD_LAYOUT \<Rightarrow> CHR 0x23)] @
     ''zxcvbnm,./'' @ [CHR 0x00, CHR ''*'', CHR 0x00, CHR '' '']"

definition keys_high :: "layout \<Rightarrow> string" where
  "keys_high l = [CHR 0x00, CHR 0x1B, CHR ''!''] @
     (case l of USA_KEYBOARD_LAYOUT \<Rightarrow> ''@#'' | GB_KEYBOARD_LAYOUT \<Rightarrow> [CHR 0x22, CHR 0x00]) @ ''$%^&*()_+'' @ [CHR 0x08, CHR 0x09] @
     ''QWERTYUIOP{}'' @ [CHR 0x0A, CHR 0x00] @ ''ASDFGHJKL:'' @
     (case l of USA_KEYBOARD_LAYOUT \<Rightarrow> [CHR 0x22, CHR ''~'', CHR 0x00, CHR 0x7C] | GB_KEYBOARD_LAYOUT \<Rightarrow> [CHR ''@'', CHR ''~'', CHR 0x00, CHR ''~'']) @
     ''ZXCVBNM<>?'' @ [CHR 0x00, CHR ''*'', CHR 0x00, CHR '' '']"

section \<open>PS/2 keyboard\<close>

record ps2_state =
  shift_active :: bool
  caps_active :: bool

datatype ps2_error = TableOverrun

definition scan_char :: "string \<Rightarrow> u8 \<Rightarrow> ps2_error + char" where
  "scan_char table k = (if unat k < length table then Inr (table ! unat k) else Inl TableOverrun)"

text \<open>The state change and the character of one scan code.\<close>

definition ps2_key :: "layout \<Rightarrow> u8 \<Rightarrow> ps2_state \<Rightarrow> ps2_error + (char \<times> ps2_state)" where
  "ps2_key l scancode st =
     (if scancode = 0xE0 then Inr (CHR 0x00, st)
      else
        let released = (scancode AND 0x80 \<noteq> 0);
            key_only = scancode AND 0x7F in
        if released then
          Inr (CHR 0x00, if key_only = 0x2A \<or> key_only = 0x36 then st\<lparr>shift_active := False\<rparr> else st)
        else if key_only = 0x2A \<or> key_only = 0x36 then Inr (CHR 0x00, st\<lparr>shift_active := True\<rparr>)
        else if key_only = 0x3A then Inr (CHR 0x00, st\<lparr>caps_active := \<not> caps_active st\<rparr>)
        else if 128 \<le> key_only then Inr (CHR 0x00, st)
        else and_then (scan_char (if shift_active st \<noteq> caps_active st then keys_high l else keys_low l) key_only) (\<lambda>c. Inr (c, st)))"

definition ps2_getc :: "layout \<Rightarrow> hw \<Rightarrow> ps2_state \<Rightarrow> trace \<Rightarrow> ps2_error + (char \<times> ps2_state \<times> trace)" where
  "ps2_getc l hw st tr =
     (case inb hw 0x64 tr of (status, tr) \<Rightarrow>
      if status AND 1 = 0 then Inr (CHR 0x00, st, tr)
      else case inb hw 0x60 tr of (scancode, tr) \<Rightarrow>
        and_then (ps2_key l scancode st) (\<lambda>(c, st). Inr (c, st, tr)))"

partial_function (option) getc_loop ::
  "layout \<Rightarrow> hw \<Rightarrow> (nat \<Rightarrow> u64) \<Rightarrow> time_state \<Rightarrow> ps2_state \<Rightarrow> trace \<Rightarrow> nat \<Rightarrow> (ps2_error + (char \<times> ps2_state \<times> trace)) option" where
  "getc_loop l hw ticks ts st tr n =
     (case usleep ticks ts 100 n of None \<Rightarrow> None | Some n \<Rightarrow>
      case ps2_getc l hw st tr of
        Inl e \<Rightarrow> Some (Inl e)
      | Inr (c, st, tr) \<Rightarrow> if c \<noteq> CHR 0x00 then Some (Inr (c, st, tr)) else getc_loop l hw ticks ts st tr n)"

definition ps2_getc_blocking ::
  "layout \<Rightarrow> hw \<Rightarrow> (nat \<Rightarrow> u64) \<Rightarrow> time_state \<Rightarrow> ps2_state \<Rightarrow> trace \<Rightarrow> nat \<Rightarrow> (ps2_error + (char \<times> ps2_state \<times> trace)) option" where
  "ps2_getc_blocking l hw ticks ts st tr n =
     (case ps2_getc l hw st tr of
        Inl e \<Rightarrow> Some (Inl e)
      | Inr (c, st, tr) \<Rightarrow> if c \<noteq> CHR 0x00 then Some (Inr (c, st, tr)) else getc_loop l hw ticks ts st tr n)"

section \<open>The receive ring of the serial port\<close>

definition RX_BUF_SIZE :: u32 where "RX_BUF_SIZE = 1024"

record uart_rx =
  rx_buffer :: "char list"
  rx_read_ptr :: u32
  rx_write_ptr :: u32

definition rx_push :: "char \<Rightarrow> uart_rx \<Rightarrow> uart_rx" where
  "rx_push c rx =
     (let nxt = (rx_write_ptr rx + 1) mod RX_BUF_SIZE in
      if nxt \<noteq> rx_read_ptr rx
      then rx\<lparr>rx_buffer := (rx_buffer rx)[unat (rx_write_ptr rx) := c], rx_write_ptr := nxt\<rparr>
      else rx)"

partial_function (option) uart16550_irq_handler :: "hw \<Rightarrow> uart_rx \<Rightarrow> trace \<Rightarrow> (uart_rx \<times> trace) option" where
  "uart16550_irq_handler hw rx tr =
     (case inb hw (UART_COM1 + UART_LSR) tr of (lsr, tr) \<Rightarrow>
      if lsr AND UART_LSR_RX_READY \<noteq> 0
      then case inb hw (UART_COM1 + UART_DATA) tr of (v, tr) \<Rightarrow>
        uart16550_irq_handler hw (rx_push (char_of (unat v)) rx) tr
      else Some (rx, tr))"

text \<open>With an empty ring the caller halts until the next interrupt: the result \<open>None\<close>.\<close>

definition uart16550_getc :: "uart_rx \<Rightarrow> (char \<times> uart_rx) option" where
  "uart16550_getc rx =
     (if rx_read_ptr rx = rx_write_ptr rx then None
      else Some (rx_buffer rx ! unat (rx_read_ptr rx), rx\<lparr>rx_read_ptr := (rx_read_ptr rx + 1) mod RX_BUF_SIZE\<rparr>))"

definition uart16550_init :: "uart_rx \<Rightarrow> trace \<Rightarrow> uart_rx \<times> trace" where
  "uart16550_init rx tr = (rx\<lparr>rx_read_ptr := 0, rx_write_ptr := 0\<rparr>, uart16550_init_regs tr)"

definition uart16550_init_late :: "trace \<Rightarrow> trace" where
  "uart16550_init_late tr = outb (UART_COM1 + UART_IER) 0x01 tr"

section \<open>The ring is a bounded queue\<close>

definition rx_inv :: "uart_rx \<Rightarrow> bool" where
  "rx_inv rx \<longleftrightarrow> length (rx_buffer rx) = 1024 \<and> unat (rx_read_ptr rx) < 1024 \<and> unat (rx_write_ptr rx) < 1024"

definition rx_queue :: "uart_rx \<Rightarrow> string" where
  "rx_queue rx = (let r = unat (rx_read_ptr rx); w = unat (rx_write_ptr rx) in
     map (\<lambda>k. rx_buffer rx ! ((r + k) mod 1024)) [0..<(w + 1024 - r) mod 1024])"

lemma ring_next: "unat p < 1024 \<Longrightarrow> unat ((p + 1) mod RX_BUF_SIZE) = (unat p + 1) mod 1024"
proof -
  assume "unat p < 1024"
  then have "unat (p + 1) = unat p + 1" by (simp add: unat_plus_small)
  then show ?thesis by (simp add: RX_BUF_SIZE_def unat_mod)
qed

lemma ring_push:
  assumes "r < 1024" "w < (1024::nat)"
  shows "(w + 1) mod 1024 \<noteq> r \<Longrightarrow> ((w + 1) mod 1024 + 1024 - r) mod 1024 = Suc ((w + 1024 - r) mod 1024)"
    "(w + 1) mod 1024 = r \<Longrightarrow> (w + 1024 - r) mod 1024 = 1023" "(r + (w + 1024 - r) mod 1024) mod 1024 = w"
    "k < (w + 1024 - r) mod 1024 \<Longrightarrow> (r + k) mod 1024 \<noteq> w"
proof -
  have len: "(w + 1024 - r) mod 1024 = (if r \<le> w then w - r else w + 1024 - r)" if "r < 1024" "w < (1024::nat)" for r w
  proof (cases "r \<le> w")
    case True
    then have "w + 1024 - r = w - r + 1024" by simp
    then show ?thesis using True that by (simp only: mod_add_self2) simp
  qed (use that in simp)
  have step: "(w + 1) mod 1024 = (if w = 1023 then 0 else w + 1)" using assms(2) by auto
  have add: "(r + k) mod 1024 = (if r + k < 1024 then r + k else r + k - 1024)" if "k < 1024" for k
    using assms(1) that by (simp add: le_mod_geq)
  show "(w + 1) mod 1024 \<noteq> r \<Longrightarrow> ((w + 1) mod 1024 + 1024 - r) mod 1024 = Suc ((w + 1024 - r) mod 1024)"
    using len [OF assms] len [of r "(w + 1) mod 1024"] assms unfolding step by (cases "w = 1023"; cases "r \<le> w") simp_all
  show "(w + 1) mod 1024 = r \<Longrightarrow> (w + 1024 - r) mod 1024 = 1023"
    using assms by (cases "w = 1023") (simp_all add: step len)
  show "(r + (w + 1024 - r) mod 1024) mod 1024 = w"
    using assms by (cases "r \<le> w") (simp_all add: len add)
  show "k < (w + 1024 - r) mod 1024 \<Longrightarrow> (r + k) mod 1024 \<noteq> w"
    using assms by (cases "r \<le> w") (auto simp: len add)
qed

lemma ring_pop: "r < 1024 \<Longrightarrow> Suc m < 1024 \<Longrightarrow> ((r + Suc m) mod 1024 + 1024 - (r + 1) mod 1024) mod 1024 = (m::nat)"
proof -
  assume a: "r < 1024" "Suc m < 1024"
  have w: "(x::nat) mod 1024 = (if x < 1024 then x else x - 1024)" if "x < 2048" for x using that by (simp add: le_mod_geq)
  have "(r + Suc m) mod 1024 + 1024 - (r + 1) mod 1024 = m \<or> (r + Suc m) mod 1024 + 1024 - (r + 1) mod 1024 = m + 1024"
    using a w [of "r + Suc m"] w [of "r + 1"] by (cases "r + Suc m < 1024"; cases "r = 1023") auto
  then show ?thesis using a(2) by (metis Suc_lessD mod_add_self2 mod_less)
qed

lemma rx_push_queue:
  assumes "rx_inv rx"
  shows "rx_inv (rx_push c rx) \<and> rx_queue (rx_push c rx) = (if length (rx_queue rx) < 1023 then rx_queue rx @ [c] else rx_queue rx)"
proof -
  let ?r = "unat (rx_read_ptr rx)" and ?w = "unat (rx_write_ptr rx)"
  have b: "?r < 1024" "?w < 1024" "length (rx_buffer rx) = 1024" using assms by (simp_all add: rx_inv_def)
  note n = ring_next [OF b(2)]
  have ne: "(rx_write_ptr rx + 1) mod RX_BUF_SIZE \<noteq> rx_read_ptr rx \<longleftrightarrow> (?w + 1) mod 1024 \<noteq> ?r"
    using n by (metis word_unat_eq_iff)
  have l: "length (rx_queue rx) = (?w + 1024 - ?r) mod 1024" by (simp add: rx_queue_def Let_def)
  show ?thesis
  proof (cases "(?w + 1) mod 1024 = ?r")
    case True
    then have "rx_push c rx = rx" "length (rx_queue rx) = 1023" using ne l ring_push(2) [OF b(1,2)] by (simp_all add: rx_push_def Let_def)
    then show ?thesis using assms by simp
  next
    case False
    note P = ring_push [OF b(1,2)]
    have s: "rx_push c rx = rx\<lparr>rx_buffer := (rx_buffer rx)[?w := c], rx_write_ptr := (rx_write_ptr rx + 1) mod RX_BUF_SIZE\<rparr>"
      using ne False by (simp add: rx_push_def Let_def)
    have lt: "length (rx_queue rx) < 1023" using P(1) [OF False] l mod_less_divisor [of 1024 "(?w + 1) mod 1024 + 1024 - ?r"] by linarith
    have "rx_queue (rx_push c rx) = map (\<lambda>k. (rx_buffer rx)[?w := c] ! ((?r + k) mod 1024)) [0..<Suc ((?w + 1024 - ?r) mod 1024)]"
      by (simp add: s rx_queue_def Let_def n [simplified] P(1) [OF False, simplified] del: upt_Suc)
    also have "\<dots> = rx_queue rx @ [c]" using P(3) P(4) [THEN not_sym] b(2,3) by (simp add: rx_queue_def Let_def)
    finally show ?thesis using lt b n by (simp add: s rx_inv_def)
  qed
qed

lemma rx_pushes:
  "rx_inv rx \<Longrightarrow> length (rx_queue rx) \<le> 1023 \<Longrightarrow>
     rx_inv (fold rx_push cs rx) \<and> rx_queue (fold rx_push cs rx) = take 1023 (rx_queue rx @ cs)"
proof (induction cs arbitrary: rx)
  case (Cons c cs)
  note P = rx_push_queue [OF Cons.prems(1), of c]
  then have "length (rx_queue (rx_push c rx)) \<le> 1023" using Cons.prems(2) by auto
  then show ?case using Cons.IH [of "rx_push c rx"] P Cons.prems(2) by (auto simp: take_Cons')
qed simp

text \<open>The line status is ready exactly as long as the characters \<open>cs\<close> are waiting.\<close>

fun rx_delivers :: "hw \<Rightarrow> trace \<Rightarrow> string \<Rightarrow> bool" where
  "rx_delivers hw tr [] \<longleftrightarrow> fst (inb hw (UART_COM1 + UART_LSR) tr) AND UART_LSR_RX_READY = 0"
| "rx_delivers hw tr (c # cs) \<longleftrightarrow>
     (case inb hw (UART_COM1 + UART_LSR) tr of (lsr, tr) \<Rightarrow>
      lsr AND UART_LSR_RX_READY \<noteq> 0 \<and>
      (case inb hw (UART_COM1 + UART_DATA) tr of (v, tr) \<Rightarrow> char_of (unat v) = c \<and> rx_delivers hw tr cs))"

lemma irq_pushes: "rx_delivers hw tr cs \<Longrightarrow> \<exists>tr'. uart16550_irq_handler hw rx tr = Some (fold rx_push cs rx, tr')"
proof (induction cs arbitrary: tr rx)
  case Nil
  then show ?case by (subst uart16550_irq_handler.simps) (simp add: case_prod_unfold)
next
  case (Cons c cs)
  then show ?case by (subst uart16550_irq_handler.simps) (auto simp: case_prod_unfold)
qed

lemma queue_bound: "length (rx_queue rx) \<le> 1023"
  using mod_less_divisor [of 1024 "unat (rx_write_ptr rx) + 1024 - unat (rx_read_ptr rx)"] by (simp add: rx_queue_def Let_def)

text \<open>
  C19. The receive ring implements a queue of at most 1023 characters: the interrupt handler returns
  once the line has no more characters and has appended the received ones in order, dropping those
  that do not fit; \<open>uart16550_getc\<close> removes the oldest character, and waits exactly when the queue is
  empty.
\<close>

theorem uart_rx_queue:
  assumes "rx_inv rx" and "rx_delivers hw tr cs"
  shows "\<exists>rx' tr'. uart16550_irq_handler hw rx tr = Some (rx', tr') \<and> rx_inv rx' \<and> rx_queue rx' = take 1023 (rx_queue rx @ cs) \<and>
    (case rx_queue rx' of
       [] \<Rightarrow> uart16550_getc rx' = None
     | c # q \<Rightarrow> \<exists>rx''. uart16550_getc rx' = Some (c, rx'') \<and> rx_inv rx'' \<and> rx_queue rx'' = q)"
proof -
  define rx' where "rx' = fold rx_push cs rx"
  obtain tr' where run: "uart16550_irq_handler hw rx tr = Some (rx', tr')" using irq_pushes [OF assms(2)] rx'_def by blast
  have q: "rx_inv rx'" "rx_queue rx' = take 1023 (rx_queue rx @ cs)" using rx_pushes [OF assms(1) queue_bound] rx'_def by simp_all
  let ?r = "unat (rx_read_ptr rx')" and ?w = "unat (rx_write_ptr rx')"
  have b: "?r < 1024" "?w < 1024" using q(1) by (simp_all add: rx_inv_def)
  have "case rx_queue rx' of
       [] \<Rightarrow> uart16550_getc rx' = None
     | c # q \<Rightarrow> \<exists>rx''. uart16550_getc rx' = Some (c, rx'') \<and> rx_inv rx'' \<and> rx_queue rx'' = q"
  proof (cases "?r = ?w")
    case True
    then have "rx_queue rx' = []" "uart16550_getc rx' = None" by (simp_all add: rx_queue_def Let_def uart16550_getc_def word_unat_eq_iff)
    then show ?thesis by simp
  next
    case False
    define n where "n = (?w + 1024 - ?r) mod 1024"
    have n0: "n \<noteq> 0"
    proof
      assume "n = 0"
      then show False using ring_push(3) [OF b, folded n_def] False b(1) by simp
    qed
    obtain m where m: "n = Suc m" using n0 not0_implies_Suc by blast
    define rx'' where "rx'' = rx'\<lparr>rx_read_ptr := (rx_read_ptr rx' + 1) mod RX_BUF_SIZE\<rparr>"
    have r1: "unat (rx_read_ptr rx'') = (?r + 1) mod 1024" by (simp add: rx''_def ring_next [OF b(1)])
    have "?w = (?r + n) mod 1024" using ring_push(3) [OF b] by (simp add: n_def)
    then have n1: "(?w + 1024 - (?r + 1) mod 1024) mod 1024 = m"
      using ring_pop [OF b(1), of m] m n_def mod_less_divisor [of 1024 "?w + 1024 - ?r"] by simp
    have "rx_queue rx'' = map (\<lambda>k. rx_buffer rx' ! ((?r + Suc k) mod 1024)) [0..<m]"
      unfolding rx_queue_def Let_def r1 by (simp add: rx''_def n1 [simplified] mod_add_left_eq)
    moreover have "rx_queue rx' = rx_buffer rx' ! ?r # map (\<lambda>k. rx_buffer rx' ! ((?r + Suc k) mod 1024)) [0..<m]"
      unfolding rx_queue_def Let_def n_def [symmetric] m upt_conv_Cons [OF zero_less_Suc] map_Suc_upt [symmetric] using b(1) by (simp add: o_def)
    moreover have "uart16550_getc rx' = Some (rx_buffer rx' ! ?r, rx'')" "rx_inv rx''"
      using False q(1) r1 by (auto simp: uart16550_getc_def rx''_def rx_inv_def)
    ultimately show ?thesis by simp
  qed
  then show ?thesis using run q by blast
qed

text \<open>A line on which the two characters \<open>ok\<close> wait, and nothing after them.\<close>

definition two_chars :: hw where
  "two_chars = \<lparr>inb_val = (\<lambda>tr p. if p = 0x3FD then (if length tr < 4 then 1 else 0) else if length tr < 2 then 0x6F else 0x6B),
     inw_val = (\<lambda>_ _. 0), inl_val = (\<lambda>_ _. 0)\<rparr>"

theorem uart_rx_queue_witness:
  "\<exists>rx' tr'. uart16550_irq_handler two_chars \<lparr>rx_buffer = replicate 1024 CHR 0x00, rx_read_ptr = 0, rx_write_ptr = 0\<rparr> [] = Some (rx', tr') \<and>
     rx_queue rx' = ''ok''"
proof -
  let ?rx = "\<lparr>rx_buffer = replicate 1024 CHR 0x00, rx_read_ptr = 0, rx_write_ptr = 0\<rparr>"
  have "rx_inv ?rx" "rx_queue ?rx = []" by (simp_all add: rx_inv_def rx_queue_def)
  moreover have "rx_delivers two_chars [] ''ok''"
    by (simp add: two_chars_def inb_def UART_COM1_def UART_LSR_def UART_DATA_def UART_LSR_RX_READY_def char_of_def bit_Suc_0_iff)
  ultimately show ?thesis using uart_rx_queue [of ?rx two_chars "[]" "''ok''"] by auto
qed

text \<open>Both tables have 58 entries, and 39 scan codes below 0x80 other than the modifiers lie beyond them.\<close>

lemma ps2_overrun: "length (keys_low l) = 58" "length (keys_high l) = 58"
  "0x3B \<le> k \<Longrightarrow> k < 0x80 \<Longrightarrow> ps2_key l k st = Inl TableOverrun"
proof -
  show n: "length (keys_low l) = 58" "length (keys_high l) = 58" by (cases l; simp add: keys_low_def keys_high_def)+
  assume a: "0x3B \<le> k" "k < 0x80"
  have "unat k < 2 ^ 7" using a(2) by (simp add: word_less_nat_alt)
  then have "take_bit 7 (unat k) = unat k" by (rule take_bit_nat_eq_self)
  then have m: "k AND 0x7F = k" using unat_and_mask [of k 7] by (simp add: word_unat_eq_iff mask_eq_decr_exp take_bit_eq_mod)
  have "k AND 0x80 = (k AND 0x7F) AND 0x80" by (simp add: m)
  then have r: "k AND 0x80 = 0" by (simp add: and.assoc)
  show "ps2_key l k st = Inl TableOverrun"
    using a by (auto simp: ps2_key_def Let_def m r scan_char_def n word_le_nat_alt word_less_nat_alt word_unat_eq_iff)
qed

end
