(* ===== verification/Swrand.thy ===== *)
theory Swrand
  imports Prelude
begin

text \<open>
  The pseudo-random generator of \<^verbatim>\<open>src/rand/swrand.c\<close>: a 64-bit linear congruential generator with a
  permuted 32-bit output, and \<^verbatim>\<open>randint\<close>, which draws from an interval by multiplication and rejects the
  draws that would make it uneven. A routine takes the seed and returns it updated.
\<close>

definition LCG_MULT :: u64 where "LCG_MULT = 6364136223846793005"
definition LCG_INC :: u64 where "LCG_INC = 1442695040888963407"

definition step_lcg_32 :: "u64 \<Rightarrow> u32 \<times> u64" where
  "step_lcg_32 seed0 =
     (let seed = seed0 * LCG_MULT + LCG_INC;
          xorshifted = (ucast (drop_bit 27 (drop_bit 18 seed XOR seed)) :: u32);
          rot = (ucast (drop_bit 59 seed) :: u32) in
      (drop_bit (unat rot) xorshifted OR push_bit (unat (- rot AND 31)) xorshifted, seed))"

text \<open>C leaves the order of the two calls in \<^verbatim>\<open>swrand64\<close> open; here the left one comes first.\<close>

definition swrand64 :: "u64 \<Rightarrow> u64 \<times> u64" where
  "swrand64 seed = (case step_lcg_32 seed of (a, seed) \<Rightarrow>
     case step_lcg_32 seed of (b, seed) \<Rightarrow> (push_bit 32 (ucast a) OR ucast b, seed))"

definition swrand32 :: "u64 \<Rightarrow> u32 \<times> u64" where
  "swrand32 seed = step_lcg_32 seed"

definition swrand16 :: "u64 \<Rightarrow> u16 \<times> u64" where
  "swrand16 seed = (case step_lcg_32 seed of (a, seed) \<Rightarrow> (ucast (drop_bit 16 a), seed))"

definition swrand8 :: "u64 \<Rightarrow> u8 \<times> u64" where
  "swrand8 seed = (case step_lcg_32 seed of (a, seed) \<Rightarrow> (ucast (drop_bit 24 a), seed))"

text \<open>The bound below which a draw is rejected.\<close>

definition randint_threshold :: "u64 \<Rightarrow> u32" where
  "randint_threshold rng =
     (let t = (ucast (- rng) :: u32) in
      if rng \<le> ucast t then
        (let t = ucast (ucast t - rng) in
         if rng \<le> ucast t then ucast ((ucast t :: u64) mod rng) else t)
      else t)"

partial_function (option) randint_loop :: "u64 \<Rightarrow> u32 \<Rightarrow> u64 \<Rightarrow> u64 \<Rightarrow> (u64 \<times> u64) option" where
  "randint_loop rng t m seed =
     (if (ucast m :: u32) < t
      then case swrand32 seed of (x, seed) \<Rightarrow> randint_loop rng t (ucast x * rng) seed
      else Some (m, seed))"

definition randint :: "u64 \<Rightarrow> u32 \<Rightarrow> u32 \<Rightarrow> (u32 \<times> u64) option" where
  "randint seed start0 end0 =
     (let (start, end) = (if end0 < start0 then (end0, start0) else (start0, end0));
          rng = (ucast (end - start) :: u64) + 1 in
      case swrand32 seed of (x, seed) \<Rightarrow>
        let m = ucast x * rng;
            l = (ucast m :: u32) in
        map_option (\<lambda>(m, seed). (ucast (ucast start + drop_bit 32 m), seed))
          (if ucast l < rng then randint_loop rng (randint_threshold rng) m seed else Some (m, seed)))"

section \<open>The threshold\<close>

lemma unat_ucast_32: "unat (ucast (x :: u64) :: u32) = unat x mod 2 ^ 32"
  by (simp add: unsigned_ucast_eq take_bit_eq_mod)

lemma unat_ucast_64: "unat (ucast (x :: u32) :: u64) = unat x"
  by (rule unat_ucast_up) simp

lemma threshold_mod:
  assumes "0 < r" "r \<le> 2 ^ 32"
  shows "unat (randint_threshold (of_nat r)) = 2 ^ 32 mod r"
proof -
  have u: "unat (of_nat r :: u64) = r" using assms(2) by (intro unat_of_nat_small) simp
  have "(- of_nat r :: u64) = of_nat (2 ^ 64 - r)" using assms(2) by (simp add: of_nat_diff)
  moreover have "2 ^ 64 - r < 2 ^ LENGTH(64)" using assms(1) by simp
  ultimately have neg: "unat (- of_nat r :: u64) = 2 ^ 64 - r" by (simp only: unat_of_nat_small)
  define t :: u32 where "t = ucast (- of_nat r :: u64)"
  show ?thesis
  proof (cases "r = 2 ^ 32")
    case True
    then have "unat t = 0" by (simp add: t_def unat_ucast_32 neg)
    then show ?thesis using True u by (simp add: randint_threshold_def Let_def t_def [symmetric] word_le_nat_alt unat_ucast_64)
  next
    case False
    then have r: "r < 2 ^ 32" using assms(2) by simp
    have "(2 ^ 64 - r) mod 2 ^ 32 = (2 ^ 32 - r + (2 ^ 32 - 1) * 2 ^ 32) mod 2 ^ 32" using r by (intro arg_cong [of _ _ "\<lambda>n. n mod 2 ^ 32"]) simp
    then have t: "unat t = 2 ^ 32 - r" using r assms(1) unfolding t_def unat_ucast_32 neg mod_mult_self1 by simp
    show ?thesis
    proof (cases "r \<le> 2 ^ 32 - r")
      case False
      then have "2 ^ 32 mod r = 2 ^ 32 - r" using r assms(1) by (simp add: le_mod_geq)
      then show ?thesis using False t u by (simp add: randint_threshold_def Let_def t_def [symmetric] word_le_nat_alt unat_ucast_64)
    next
      case True
      define t1 :: u32 where "t1 = ucast (ucast t - (of_nat r :: u64))"
      have "unat (ucast t - (of_nat r :: u64)) = 2 ^ 32 - r - r"
        using True t u by (simp add: unat_sub word_le_nat_alt unat_ucast_64)
      then have t1: "unat t1 = 2 ^ 32 - r - r" using assms(1) by (simp add: t1_def unat_ucast_32)
      have m: "2 ^ 32 mod r = (2 ^ 32 - r - r) mod r" using True r assms(1) by (metis le_mod_geq less_imp_le)
      show ?thesis
      proof (cases "r \<le> 2 ^ 32 - r - r")
        case False
        then show ?thesis using True t t1 u m
          by (simp add: randint_threshold_def Let_def t_def [symmetric] t1_def [symmetric] word_le_nat_alt unat_ucast_64)
      next
        case T2: True
        have "unat (ucast ((ucast t1 :: u64) mod of_nat r) :: u32) = (2 ^ 32 - r - r) mod r"
          using r by (simp add: unat_ucast_32 unat_mod unat_ucast_64 t1 u order.strict_trans [OF mod_less_divisor [OF assms(1)]])
        then show ?thesis using True T2 t t1 u m
          by (simp add: randint_threshold_def Let_def t_def [symmetric] t1_def [symmetric] word_le_nat_alt unat_ucast_64)
      qed
    qed
  qed
qed

section \<open>Even distribution\<close>

lemma card_multiples:
  assumes "0 < (r::nat)"
  shows "card {x. a \<le> x * r \<and> x * r < a + q * r} = q"
proof -
  define c where "c = (a + r - 1) div r"
  have lo: "a \<le> x * r \<longleftrightarrow> c \<le> x" for x
  proof -
    have "c \<le> x \<longleftrightarrow> a + r - 1 < Suc x * r" using assms by (simp add: c_def less_Suc_eq_le [symmetric] div_less_iff_less_mult)
    then show ?thesis using assms by auto
  qed
  have hi: "x * r < a + q * r \<longleftrightarrow> x < c + q" for x
  proof (cases "q \<le> x")
    case True
    then obtain y where y: "x = y + q" using le_Suc_ex add.commute by metis
    show ?thesis using lo [of y] by (simp add: y add_mult_distrib not_le [symmetric])
  next
    case False
    then have "x * r < q * r" using assms by simp
    then have "x * r < a + q * r" by linarith
    then show ?thesis using False by auto
  qed
  have "{x. a \<le> x * r \<and> x * r < a + q * r} = {c..<c + q}" unfolding lo hi by auto
  then show ?thesis by simp
qed

text \<open>A draw that the loop keeps, and the number it stands for.\<close>

definition draw_kept :: "u64 \<Rightarrow> u32 \<Rightarrow> bool" where
  "draw_kept rng x \<longleftrightarrow> \<not> (ucast (ucast x * rng) :: u32) < randint_threshold rng"

definition draw_value :: "u32 \<Rightarrow> u64 \<Rightarrow> u32 \<Rightarrow> u32" where
  "draw_value start rng x = ucast (ucast start + drop_bit 32 (ucast x * rng))"

lemma draw_nat:
  assumes "0 < r" "r \<le> 2 ^ 32" "unat start + r \<le> 2 ^ 32"
  shows "draw_kept (of_nat r) x \<longleftrightarrow> 2 ^ 32 mod r \<le> (unat x * r) mod 2 ^ 32"
    "unat (draw_value start (of_nat r) x) = unat start + (unat x * r) div 2 ^ 32" "(unat x * r) div 2 ^ 32 < r"
proof -
  have u: "unat (of_nat r :: u64) = r" using assms(2) by (intro unat_of_nat_small) simp
  have xb: "unat x < 2 ^ 32" using unat_bounds(3) [of x] by simp
  have lt: "unat x * r < 2 ^ 32 * r" using xb assms(1) by simp
  have "2 ^ 32 * r \<le> 2 ^ 32 * 2 ^ 32" using assms(2) by (rule mult_le_mono2)
  then have "unat x * r < 2 ^ LENGTH(64)" using order.strict_trans2 [OF lt] by simp
  then have m: "unat (ucast x * of_nat r :: u64) = unat x * r"
    using unat_mult_small [of "ucast x :: u64" "of_nat r"] by (simp only: unat_ucast_64 u)
  show "draw_kept (of_nat r) x \<longleftrightarrow> 2 ^ 32 mod r \<le> (unat x * r) mod 2 ^ 32"
    by (simp add: draw_kept_def word_less_nat_alt threshold_mod [OF assms(1,2)] unat_ucast_32 m not_less)
  show d: "(unat x * r) div 2 ^ 32 < r" using lt by (simp add: div_less_iff_less_mult mult.commute)
  have "unat (drop_bit 32 (ucast x * of_nat r :: u64)) = (unat x * r) div 2 ^ 32"
    by (simp add: unat_div drop_bit_eq_div m)
  then have "unat (ucast start + drop_bit 32 (ucast x * of_nat r) :: u64) = unat start + (unat x * r) div 2 ^ 32"
    using d assms(3) by (simp add: unat_plus_small unat_ucast_64)
  then show "unat (draw_value start (of_nat r) x) = unat start + (unat x * r) div 2 ^ 32"
    using d assms(3) by (simp add: draw_value_def unat_ucast_32)
qed

lemma kept_card:
  assumes "0 < r" "r \<le> 2 ^ 32" "unat start + r \<le> 2 ^ 32" "k < r"
  shows "card {x. draw_kept (of_nat r) x \<and> unat (draw_value start (of_nat r) x) = unat start + k} = 2 ^ 32 div r"
proof -
  let ?t = "(2::nat) ^ 32 mod r" and ?q = "(2::nat) ^ 32 div r"
  have tq: "?t + ?q * r = 2 ^ 32" by (simp add: mult.commute)
  have eq: "?t \<le> y mod 2 ^ 32 \<and> y div 2 ^ 32 = k \<longleftrightarrow> k * 2 ^ 32 + ?t \<le> y \<and> y < k * 2 ^ 32 + ?t + ?q * r" for y
  proof -
    have y: "y = y div 2 ^ 32 * 2 ^ 32 + y mod 2 ^ 32" "y mod 2 ^ 32 < 2 ^ 32" by simp_all
    have "y div 2 ^ 32 = k" if "k * 2 ^ 32 + ?t \<le> y" "y < k * 2 ^ 32 + ?t + ?q * r"
      using that tq by (intro div_nat_eqI) simp_all
    moreover have "?t \<le> y mod 2 ^ 32 \<longleftrightarrow> k * 2 ^ 32 + ?t \<le> y" if "y div 2 ^ 32 = k" using y(1) that by (metis add_le_cancel_left)
    moreover have "y < k * 2 ^ 32 + ?t + ?q * r" if "y div 2 ^ 32 = k" using y that tq by (metis add.assoc add_less_cancel_left)
    ultimately show ?thesis by blast
  qed
  let ?A = "{x. draw_kept (of_nat r) x \<and> unat (draw_value start (of_nat r) x) = unat start + k}"
  let ?B = "{x. k * 2 ^ 32 + ?t \<le> x * r \<and> x * r < k * 2 ^ 32 + ?t + ?q * r}"
  have A: "?A = {x. unat x \<in> ?B}"
    using draw_nat [OF assms(1-3)] eq by (simp add: conj_commute)
  have "unat ` ?A = ?B"
  proof
    show "?B \<subseteq> unat ` ?A"
    proof
      fix x assume x: "x \<in> ?B"
      have "Suc k * 2 ^ 32 \<le> r * 2 ^ 32" using assms(4) by (intro mult_le_mono1) simp
      moreover have "x * r < k * 2 ^ 32 + ?t + ?q * r" using x by blast
      ultimately have "x * r < r * 2 ^ 32" using tq unfolding mult_Suc by linarith
      then have "x < 2 ^ 32" by (simp add: mult.commute)
      then have "unat (of_nat x :: u32) = x" by (simp add: unat_of_nat_small)
      then show "x \<in> unat ` ?A" unfolding A using x by (intro image_eqI [of _ _ "of_nat x"]) simp_all
    qed
  qed (auto simp: A)
  moreover have "inj_on unat ?A" by (rule inj_onI) (simp add: word_unat_eq_iff)
  ultimately have "card ?A = card ?B" using card_image [of unat ?A] by simp
  then show ?thesis using card_multiples [OF assms(1), of "k * 2 ^ 32 + ?t" ?q] by (rule trans)
qed

section \<open>The loop\<close>

primrec nth_draw :: "u64 \<Rightarrow> nat \<Rightarrow> u32" where
  "nth_draw seed 0 = fst (swrand32 seed)"
| "nth_draw seed (Suc n) = nth_draw (snd (swrand32 seed)) n"

lemma loop_first:
  "\<not> draw_kept rng (fst (swrand32 seed)) \<or> n = 0 \<Longrightarrow> (\<forall>k<n. \<not> draw_kept rng (nth_draw seed k)) \<Longrightarrow> draw_kept rng (nth_draw seed n) \<Longrightarrow>
   \<exists>seed'. randint_loop rng (randint_threshold rng) (ucast (fst (swrand32 seed)) * rng) (snd (swrand32 seed)) = Some (ucast (nth_draw seed n) * rng, seed')"
proof (induction n arbitrary: seed)
  case 0
  then show ?case by (subst randint_loop.simps) (simp add: draw_kept_def)
next
  case (Suc n)
  let ?s = "snd (swrand32 seed)"
  have n: "\<not> draw_kept rng (fst (swrand32 seed))" using Suc.prems(2) by auto
  have l: "\<forall>k<n. \<not> draw_kept rng (nth_draw ?s k)" using Suc.prems(2) by auto
  have "\<not> draw_kept rng (fst (swrand32 ?s)) \<or> n = 0" using l by (cases n) auto
  from Suc.IH [OF this l] Suc.prems(3) obtain s' where
    "randint_loop rng (randint_threshold rng) (ucast (fst (swrand32 ?s)) * rng) (snd (swrand32 ?s)) = Some (ucast (nth_draw ?s n) * rng, s')" by auto
  then show ?case using n by (subst randint_loop.simps) (simp add: draw_kept_def case_prod_unfold)
qed


text \<open>
  C20. For \<open>start \<le> end\<close>, \<open>randint\<close> returns the value of the first draw that it keeps, which lies between
  \<open>start\<close> and \<open>end\<close>; and every number of the interval is the value of the same number of kept draws, so
  the numbers are equally likely when the draws are.
\<close>

theorem randint_uniform:
  assumes "start \<le> end" and "\<forall>k<n. \<not> draw_kept (ucast (end - start) + 1) (nth_draw seed k)"
    and "draw_kept (ucast (end - start) + 1) (nth_draw seed n)"
  shows "(\<exists>v seed'. randint seed start end = Some (v, seed') \<and> start \<le> v \<and> v \<le> end \<and>
      v = draw_value start (ucast (end - start) + 1) (nth_draw seed n)) \<and>
    (\<forall>v. start \<le> v \<and> v \<le> end \<longrightarrow>
      card {x. draw_kept (ucast (end - start) + 1) x \<and> draw_value start (ucast (end - start) + 1) x = v} =
        2 ^ 32 div (unat end - unat start + 1))"
proof -
  let ?rng = "ucast (end - start) + 1 :: u64"
  define r where "r = unat end - unat start + 1"
  have le: "unat start \<le> unat end" using assms(1) by (simp add: word_le_nat_alt)
  have "(ucast (end - start) :: u64) = of_nat (unat end - unat start)"
    using assms(1) by (metis of_nat_unat_id unat_sub unat_ucast_64)
  then have rng: "?rng = of_nat r" by (simp add: r_def)
  have "unat end < 2 ^ 32" using unat_less_exp [of "end"] by simp
  then have r: "0 < r" "r \<le> 2 ^ 32" "unat start + r \<le> 2 ^ 32" using le unfolding r_def by linarith+
  note D = draw_nat [OF r]
  define x where "x = nth_draw seed n"
  have ex: "start \<le> draw_value start ?rng x \<and> draw_value start ?rng x \<le> end"
    unfolding rng word_le_nat_alt D(2) using D(3) [of x] le by (simp add: r_def)
  have run: "\<exists>seed'. randint seed start end = Some (draw_value start ?rng x, seed')"
  proof -
    let ?m = "ucast (fst (swrand32 seed)) * ?rng :: u64"
    show ?thesis
    proof (cases "ucast (ucast ?m :: u32) < ?rng")
      case True
      have "\<not> draw_kept ?rng (fst (swrand32 seed)) \<or> n = 0" using assms(2) by (cases n) auto
      from loop_first [OF this assms(2,3)] show ?thesis using True assms(1)
        by (auto simp: randint_def Let_def case_prod_unfold not_less [symmetric] draw_value_def x_def)
    next
      case False
      have "unat (randint_threshold (of_nat r)) < r" using threshold_mod [OF r(1,2)] r(1) by simp
      moreover have "r \<le> unat (ucast ?m :: u32)"
        using False r(2) unfolding rng by (simp add: word_less_nat_alt unat_ucast_64 unat_of_nat_small not_less)
      ultimately have "draw_kept ?rng (fst (swrand32 seed))" unfolding draw_kept_def rng by (simp add: word_less_nat_alt)
      then have "n = 0" using assms(2) by (cases n) auto
      then show ?thesis using False assms(1) by (auto simp: randint_def Let_def case_prod_unfold not_less [symmetric] draw_value_def x_def)
    qed
  qed
  have "card {x. draw_kept ?rng x \<and> draw_value start ?rng x = v} = 2 ^ 32 div r" if v: "start \<le> v" "v \<le> end" for v
  proof -
    obtain k where k: "unat v = unat start + k" using v(1) le_Suc_ex by (auto simp: word_le_nat_alt)
    have "k < r" using v(2) k by (simp add: word_le_nat_alt r_def)
    moreover have "draw_value start ?rng x = v \<longleftrightarrow> unat (draw_value start (of_nat r) x) = unat start + k" for x
      unfolding rng k [symmetric] by (rule word_unat_eq_iff)
    ultimately show ?thesis unfolding rng using kept_card [OF r] by simp
  qed
  then show ?thesis using run ex unfolding x_def r_def by blast
qed

theorem randint_uniform_witness:
  "(\<exists>v seed'. randint 42 3 6 = Some (v, seed') \<and> 3 \<le> v \<and> v \<le> 6) \<and>
   card {x. draw_kept (ucast ((6::u32) - 3) + 1) x \<and> draw_value 3 (ucast ((6::u32) - 3) + 1) x = 5} = 2 ^ 30"
proof -
  have "draw_kept (of_nat 4) x" for x using draw_nat(1) [of 4 0 x] by simp
  then have "draw_kept (ucast ((6::u32) - 3) + 1) (nth_draw 42 0)" by simp
  then show ?thesis using randint_uniform [of 3 6 0 42] by auto
qed

end
