(* ===== verification/Scheduler.thy ===== *)
theory Scheduler
  imports Pma_Proofs
begin

text \<open>
  The round-robin scheduler (\<^verbatim>\<open>src/scheduler.c\<close>) of one core. The tasks are objects in a store indexed by
  their address, linked into a ring; the pointer to the current task (\<^verbatim>\<open>gs:8\<close>) and the page table
  register are fields of the state. The stacks come from the page allocator (theory \<open>Pma\<close>). The address
  \<open>zalloc\<close> returns for a task is an argument, and the addresses passed to \<open>free\<close> are recorded. The
  interrupt \<^verbatim>\<open>int $32\<close> of \<^verbatim>\<open>scheduler_yield\<close> and \<^verbatim>\<open>scheduler_exit_task\<close> runs the timer handler; \<open>tf\<close> is the
  address of the trap frame the interrupt stub pushed.
\<close>

section \<open>State\<close>

record task_t =
  upid :: u64
  rsp :: u64
  cr3 :: u64
  task_next :: u64
  task_prev :: u64
  stack_base :: u64

text \<open>The fields of a new trap frame that are not zero.\<close>

record trap_frame =
  tf_rip :: u64
  tf_cs :: u64
  tf_rflags :: u64
  tf_rsp :: u64
  tf_ss :: u64

record sched_state =
  tasks :: "u64 \<Rightarrow> task_t"
  trap_frames :: "u64 \<Rightarrow> trap_frame"
  current_task :: u64
  current_pid :: u64
  pml4 :: u64
  pages :: pma_state
  released :: "u64 list"

definition zero_task :: task_t where
  "zero_task = \<lparr>upid = 0, rsp = 0, cr3 = 0, task_next = 0, task_prev = 0, stack_base = 0\<rparr>"

definition set_task :: "u64 \<Rightarrow> (task_t \<Rightarrow> task_t) \<Rightarrow> sched_state \<Rightarrow> sched_state" where
  "set_task p f st = st\<lparr>tasks := (tasks st)(p := f (tasks st p))\<rparr>"

section \<open>Operations\<close>

text \<open>Unlinking and releasing a task that has exited.\<close>

definition reap_task :: "u64 \<Rightarrow> sched_state \<Rightarrow> sched_state" where
  "reap_task old st0 =
     (let st1 = set_task (task_prev (tasks st0 old)) (task_next_update (\<lambda>_. task_next (tasks st0 old))) st0;
          st2 = set_task (task_next (tasks st1 old)) (task_prev_update (\<lambda>_. task_prev (tasks st1 old))) st1;
          sb = stack_base (tasks st2 old);
          st3 = (if sb \<noteq> 0
                 then st2\<lparr>pages := pma_free_pages (sb - hhdm_offset (pma_memory (pages st2))) (PAGE_SIZE_2MB div PAGE_SIZE) (pages st2)\<rparr>
                 else st2) in
      st3\<lparr>released := released st3 @ [old]\<rparr>)"

definition scheduler_timer_handler :: "u64 \<Rightarrow> sched_state \<Rightarrow> sched_state \<times> u64" where
  "scheduler_timer_handler tf st0 =
     (let old_task = current_task st0;
          st1 = set_task old_task (rsp_update (\<lambda>_. tf)) st0;
          next_task = task_next (tasks st1 old_task);
          old = tasks st1 old_task;
          st2 = (if upid old = 0 \<and> old_task \<noteq> next_task \<and> task_next old \<noteq> 0 \<and> task_prev old \<noteq> 0 then reap_task old_task st1 else st1);
          st3 = (if cr3 (tasks st2 next_task) \<noteq> pml4 st2 \<and> cr3 (tasks st2 next_task) \<noteq> 0
                 then st2\<lparr>pml4 := cr3 (tasks st2 next_task)\<rparr> else st2) in
      (st3\<lparr>current_task := next_task\<rparr>, rsp (tasks st3 next_task)))"

text \<open>The search around the ring has no value when it never comes back to its start.\<close>

partial_function (option) upid_loop :: "u64 \<Rightarrow> u64 \<Rightarrow> u64 \<Rightarrow> sched_state \<Rightarrow> u64 option" where
  "upid_loop target start cur st =
     (if upid (tasks st cur) = target then Some cur
      else if task_next (tasks st cur) \<noteq> start then upid_loop target start (task_next (tasks st cur)) st
      else Some 0)"

definition get_task_by_upid :: "u64 \<Rightarrow> sched_state \<Rightarrow> u64 option" where
  "get_task_by_upid target_upid st =
     (if current_task st = 0 then Some 0 else upid_loop target_upid (current_task st) (current_task st) st)"

text \<open>\<open>new_task\<close> is the address \<open>zalloc\<close> returned.\<close>

definition TRAP_FRAME_SIZE :: u64 where "TRAP_FRAME_SIZE = 28 * 8"

definition scheduler_create_task :: "u64 \<Rightarrow> u64 \<Rightarrow> sched_state \<Rightarrow> sched_state \<times> u64" where
  "scheduler_create_task new_task entry_point st0 =
     (if new_task = 0 then (st0, 0)
      else
        let st1 = set_task new_task (\<lambda>_. zero_task\<lparr>upid := 0, cr3 := pml4 st0\<rparr>) st0 in
        case pma_alloc_pages_2mb 1 (pages st1) of
          (p, stack_phys) \<Rightarrow>
            let st2 = st1\<lparr>pages := p\<rparr> in
            if stack_phys = 0 then (st2\<lparr>released := released st2 @ [new_task]\<rparr>, 0)
            else
              let hhdm_offset = hhdm_offset (pma_memory p);
                  stack_top = stack_phys + PAGE_SIZE_2MB + hhdm_offset;
                  aligned_stack_top = stack_top AND NOT 0xF;
                  frame = aligned_stack_top - TRAP_FRAME_SIZE;
                  tf = \<lparr>tf_rip = entry_point, tf_cs = 0x08, tf_rflags = 0x202, tf_rsp = aligned_stack_top, tf_ss = 0x10\<rparr> in
              (set_task new_task (\<lambda>t. t\<lparr>stack_base := stack_phys + hhdm_offset, rsp := frame, task_next := 0, task_prev := 0\<rparr>)
                 (st2\<lparr>trap_frames := (trap_frames st2)(frame := tf)\<rparr>), new_task))"

definition scheduler_enroll_task :: "u64 \<Rightarrow> sched_state \<Rightarrow> sched_state" where
  "scheduler_enroll_task new_task st0 =
     (let st1 = set_task new_task (upid_update (\<lambda>_. current_pid st0)) st0\<lparr>current_pid := current_pid st0 + 1\<rparr>;
          current = current_task st1 in
      if current = 0 then
        set_task new_task (task_prev_update (\<lambda>_. new_task))
          (set_task new_task (task_next_update (\<lambda>_. new_task)) (st1\<lparr>current_task := new_task\<rparr>))
      else
        let last = task_prev (tasks st1 current);
            st2 = set_task last (task_next_update (\<lambda>_. new_task)) st1;
            st3 = set_task new_task (task_prev_update (\<lambda>_. last)) st2;
            st4 = set_task new_task (task_next_update (\<lambda>_. current)) st3 in
        set_task current (task_prev_update (\<lambda>_. new_task)) st4)"

definition scheduler_exit_task :: "u64 \<Rightarrow> sched_state \<Rightarrow> (sched_state \<times> u64) outcome" where
  "scheduler_exit_task tf st =
     (if task_next (tasks st (current_task st)) = current_task st
      then Inl (Panic ''SCHEDULER'' ''Last task attempted to exit. Halting.'')
      else Inr (scheduler_timer_handler tf (set_task (current_task st) (upid_update (\<lambda>_. 0)) st)))"

definition scheduler_start :: "sched_state \<Rightarrow> sched_state outcome" where
  "scheduler_start st = (if current_task st = 0 then Inl (Panic ''SCHEDULER'' ''INITALIZED WITH NO TASKS'') else Inr st)"

definition scheduler_yield :: "u64 \<Rightarrow> sched_state \<Rightarrow> sched_state \<times> u64" where
  "scheduler_yield tf st = scheduler_timer_handler tf st"

definition scheduler_init :: "u64 \<Rightarrow> sched_state \<Rightarrow> sched_state" where
  "scheduler_init bootstrap_task st0 =
     (let st1 = set_task bootstrap_task (\<lambda>_. zero_task\<lparr>upid := 0, cr3 := pml4 st0\<rparr>) st0;
          st2 = st1\<lparr>current_task := bootstrap_task\<rparr> in
      set_task bootstrap_task (\<lambda>t. t\<lparr>task_next := bootstrap_task, task_prev := bootstrap_task\<rparr>) st2)"

section \<open>Rings\<close>

definition link :: "sched_state \<Rightarrow> u64 \<Rightarrow> u64 \<Rightarrow> bool" where
  "link st a b \<longleftrightarrow> task_next (tasks st a) = b \<and> task_prev (tasks st b) = a"

fun chain :: "sched_state \<Rightarrow> u64 list \<Rightarrow> bool" where
  "chain st (a # b # xs) \<longleftrightarrow> link st a b \<and> chain st (b # xs)"
| "chain st _ \<longleftrightarrow> True"

text \<open>The abstraction: the queue of the tasks, the running one first.\<close>

definition ring :: "sched_state \<Rightarrow> u64 list \<Rightarrow> bool" where
  "ring st ts \<longleftrightarrow> ts \<noteq> [] \<and> distinct ts \<and> 0 \<notin> set ts \<and> hd ts = current_task st \<and> chain st (ts @ [hd ts])"

lemma task_chain_append: "chain st (xs @ x # ys) \<longleftrightarrow> chain st (xs @ [x]) \<and> chain st (x # ys)"
  by (induction st xs rule: chain.induct) simp_all

lemma chain_cong:
  "(\<And>x. x \<in> set (butlast xs) \<Longrightarrow> task_next (tasks st' x) = task_next (tasks st x)) \<Longrightarrow>
   (\<And>x. x \<in> set (tl xs) \<Longrightarrow> task_prev (tasks st' x) = task_prev (tasks st x)) \<Longrightarrow> chain st' xs = chain st xs"
proof (induction st xs rule: chain.induct)
  case (1 st a b xs)
  have "link st' a b = link st a b" using "1.prems" by (simp add: link_def)
  moreover have "x \<in> set xs \<Longrightarrow> task_prev (tasks st' x) = task_prev (tasks st x)" for x using "1.prems"(2) by simp
  ultimately show ?case using "1.IH" "1.prems"(1) by (simp split: if_splits)
qed simp_all


lemma ring_links:
  assumes "ring st (c # rest)"
  shows "task_next (tasks st c) = hd (rest @ [c])" "task_prev (tasks st c) = last (c # rest)" "c \<noteq> 0"
    "rest \<noteq> [] \<Longrightarrow> hd rest \<noteq> c" "rest \<noteq> [] \<Longrightarrow> last rest \<noteq> c"
proof -
  have ch: "chain st (c # rest @ [c])" "distinct (c # rest)" "0 \<notin> set (c # rest)" using assms unfolding ring_def by auto
  show "task_next (tasks st c) = hd (rest @ [c])" using ch(1) by (cases rest) (simp_all add: link_def)
  have "c # rest = butlast (c # rest) @ [last (c # rest)]" by simp
  then have "chain st (butlast (c # rest) @ last (c # rest) # [c])" using ch(1) by (metis append_Cons append_assoc append_Nil)
  then show "task_prev (tasks st c) = last (c # rest)"
    using task_chain_append [of st "butlast (c # rest)" "last (c # rest)" "[c]"] by (simp add: link_def)
  show "c \<noteq> 0" "rest \<noteq> [] \<Longrightarrow> hd rest \<noteq> c" "rest \<noteq> [] \<Longrightarrow> last rest \<noteq> c" using ch(2,3) by (auto dest: last_in_set)
qed

lemma chain_rotate: "chain st (c # rest @ [c]) \<Longrightarrow> chain st ((rest @ [c]) @ [hd (rest @ [c])])"
  using task_chain_append [of st rest c "[hd (rest @ [c])]"] by (cases rest) simp_all

lemma ring_rsp: "ring st ts \<Longrightarrow> ring (set_task c (rsp_update f) st) ts"
proof -
  assume r: "ring st ts"
  have "chain (set_task c (rsp_update f) st) xs = chain st xs" for xs by (rule chain_cong) (simp_all add: set_task_def)
  moreover have "current_task (set_task c (rsp_update f) st) = current_task st" by (simp add: set_task_def)
  ultimately show ?thesis using r unfolding ring_def by metis
qed

lemma ring_current:
  assumes "ring st ts" "chain st' = chain st" "hd us = current_task st'" "set us = set ts" "distinct us" "chain st (us @ [hd us])" "us \<noteq> []"
  shows "ring st' us"
  using assms by (simp add: ring_def)

lemma chain_tasks: "tasks st' = tasks st \<Longrightarrow> chain st' = chain st"
  by (rule ext, rule chain_cong) simp_all

lemma reap_ring:
  assumes "ring st (c # rest)" "rest \<noteq> []"
  shows "chain (reap_task c st) (rest @ [hd rest])" "released (reap_task c st) = released st @ [c]"
    "\<And>x. x \<in> set rest \<Longrightarrow> upid (tasks (reap_task c st) x) = upid (tasks st x) \<and> rsp (tasks (reap_task c st) x) = rsp (tasks st x)"
proof -
  note L = ring_links [OF assms(1)]
  obtain r rs where rest: "rest = r # rs" using assms(2) by (cases rest) auto
  have n: "task_next (tasks st c) = r" "task_prev (tasks st c) = last rest" "r \<noteq> c" "last rest \<noteq> c"
    using L rest by simp_all
  have d: "distinct rest" using assms(1) by (simp add: ring_def)
  have t: "tasks (reap_task c st) = (tasks (set_task r (task_prev_update (\<lambda>_. last rest)) (set_task (last rest) (task_next_update (\<lambda>_. r)) st)))"
    using n by (simp add: reap_task_def Let_def set_task_def)
  show "released (reap_task c st) = released st @ [c]" by (simp add: reap_task_def Let_def set_task_def)
  show "\<And>x. x \<in> set rest \<Longrightarrow> upid (tasks (reap_task c st) x) = upid (tasks st x) \<and> rsp (tasks (reap_task c st) x) = rsp (tasks st x)"
    by (simp add: t set_task_def)
  have "distinct (butlast rest @ [last rest])" using d assms(2) append_butlast_last_id [of rest] by metis
  then have bl: "last rest \<notin> set (butlast rest)" unfolding distinct_append by simp
  have "chain st (c # rest @ [c])" using assms(1) unfolding ring_def by auto
  then have "chain st (rest @ [c])" using rest by simp
  then have "chain st (butlast rest @ last rest # [c])" using assms(2) by (metis append_Cons append_Nil append_assoc append_butlast_last_id)
  then have "chain st (butlast rest @ [last rest])" using task_chain_append [of st "butlast rest" "last rest" "[c]"] by blast
  then have "chain st rest" using assms(2) by simp
  moreover have "chain (reap_task c st) rest = chain st rest"
  proof (rule chain_cong)
    fix x
    show "x \<in> set (butlast rest) \<Longrightarrow> task_next (tasks (reap_task c st) x) = task_next (tasks st x)"
      using bl by (auto simp: t set_task_def)
    show "x \<in> set (tl rest) \<Longrightarrow> task_prev (tasks (reap_task c st) x) = task_prev (tasks st x)"
      using d rest by (auto simp: t set_task_def)
  qed
  ultimately have "chain (reap_task c st) (butlast rest @ [last rest])" using assms(2) by simp
  moreover have "link (reap_task c st) (last rest) r" by (simp add: link_def t set_task_def)
  ultimately have "chain (reap_task c st) (butlast rest @ last rest # [r])"
    using task_chain_append [of "reap_task c st" "butlast rest" "last rest" "[r]"] by simp
  moreover have "rest @ [hd rest] = butlast rest @ last rest # [r]" using rest by simp
  ultimately show "chain (reap_task c st) (rest @ [hd rest])" by metis
qed

lemma timer_unfold:
  fixes tf st
  defines "st1 \<equiv> set_task (current_task st) (rsp_update (\<lambda>_. tf)) st"
  assumes "ring st (c # rest)"
  shows "\<exists>st'. scheduler_timer_handler tf st = (st', rsp (tasks st' (hd (rest @ [c])))) \<and> current_task st' = hd (rest @ [c]) \<and>
    (if upid (tasks st c) = 0 \<and> rest \<noteq> []
     then tasks st' = tasks (reap_task c st1) \<and> released st' = released st @ [c]
     else tasks st' = tasks st1 \<and> released st' = released st)"
proof -
  have c: "current_task st = c" using assms(2) by (auto simp: ring_def)
  have r1: "ring st1 (c # rest)" unfolding st1_def by (rule ring_rsp [OF assms(2)])
  note L = ring_links [OF r1]
  have rel: "released (reap_task c st1) = released st1 @ [c]" by (simp add: reap_task_def Let_def set_task_def)
  have z: "0 \<notin> set (c # rest)" using assms(2) unfolding ring_def by auto
  have nz: "hd (rest @ [c]) \<noteq> 0" "last (c # rest) \<noteq> 0"
  proof -
    have "hd (rest @ [c]) \<in> set (c # rest)" by (cases rest) auto
    moreover have "last (c # rest) \<in> set (c # rest)" by (rule last_in_set) simp
    ultimately show "hd (rest @ [c]) \<noteq> 0" "last (c # rest) \<noteq> 0" using z by metis+
  qed
  have u: "upid (tasks st1 c) = upid (tasks st c)" "released st1 = released st" by (simp_all add: st1_def set_task_def)
  have ne: "c \<noteq> hd (rest @ [c]) \<longleftrightarrow> rest \<noteq> []" using L(4) by (cases rest) auto
  define h l where "h = hd (rest @ [c])" and "l = last (c # rest)"
  note N = nz [folded h_def l_def] and M = L(1,2) [folded h_def l_def] and E = ne [folded h_def]
  show ?thesis
    unfolding scheduler_timer_handler_def Let_def c st1_def [symmetric, unfolded c] M u E h_def [symmetric]
    using N by (cases "upid (tasks st c) = 0 \<and> rest \<noteq> []") (auto simp: rel u)
qed

lemma timer_ring:
  assumes "ring st (c # rest)"
  shows "\<exists>st'. scheduler_timer_handler tf st = (st', rsp (tasks st' (current_task st'))) \<and>
      ring st' (if upid (tasks st c) = 0 \<and> rest \<noteq> [] then rest else rest @ [c]) \<and>
      (\<forall>t\<in>set (c # rest). (upid (tasks st c) = 0 \<and> rest \<noteq> [] \<longrightarrow> t \<noteq> c) \<longrightarrow>
         upid (tasks st' t) = upid (tasks st t) \<and> rsp (tasks st' t) = (if t = c then tf else rsp (tasks st t)))"
proof -
  let ?st1 = "set_task (current_task st) (rsp_update (\<lambda>_. tf)) st"
  have c: "current_task st = c" using assms by (auto simp: ring_def)
  have r1: "ring ?st1 (c # rest)" by (rule ring_rsp [OF assms])
  obtain st' where T: "scheduler_timer_handler tf st = (st', rsp (tasks st' (hd (rest @ [c]))))" "current_task st' = hd (rest @ [c])"
    "if upid (tasks st c) = 0 \<and> rest \<noteq> []
     then tasks st' = tasks (reap_task c ?st1) \<and> released st' = released st @ [c]
     else tasks st' = tasks ?st1 \<and> released st' = released st" using timer_unfold [OF assms, of tf] by blast
  have keep: "upid (tasks ?st1 t) = upid (tasks st t) \<and> rsp (tasks ?st1 t) = (if t = c then tf else rsp (tasks st t))" for t
    by (simp add: set_task_def c)
  have d: "distinct (c # rest)" "0 \<notin> set (c # rest)" using assms unfolding ring_def by auto
  show ?thesis
  proof (cases "upid (tasks st c) = 0 \<and> rest \<noteq> []")
    case True
    then have ts: "tasks st' = tasks (reap_task c ?st1)" using T(3) by simp
    have "ring st' rest"
      using reap_ring(1) [OF r1] True chain_tasks [OF ts] T(2) d by (simp add: ring_def)
    moreover have "upid (tasks st' t) = upid (tasks st t) \<and> rsp (tasks st' t) = rsp (tasks st t)" if "t \<in> set rest" for t
      using reap_ring(3) [OF r1 _ that] True keep [of t] that d(1) by (auto simp: ts)
    ultimately show ?thesis using T(1,2) True by auto
  next
    case False
    then have ts: "tasks st' = tasks ?st1" using T(3) by simp
    have "chain ?st1 (c # rest @ [c])" using r1 unfolding ring_def by auto
    from chain_rotate [OF this] have "ring st' (rest @ [c])"
      using chain_tasks [OF ts] T(2) d by (auto simp: ring_def)
    then show ?thesis using T(1,2) False keep by (auto simp: ts)
  qed
qed

text \<open>The address space after a switch, and what a switch leaves alone.\<close>

lemma reap_keeps [simp]:
  "cr3 (tasks (reap_task old st) t) = cr3 (tasks st t)" "pml4 (reap_task old st) = pml4 st"
  "current_pid (reap_task old st) = current_pid st"
  by (simp_all add: reap_task_def Let_def set_task_def)

lemma timer_space:
  fixes st tf
  assumes "ring st (c # rest)"
  defines "st' \<equiv> fst (scheduler_timer_handler tf st)" and "space \<equiv> cr3 (tasks st (hd (rest @ [c])))"
  shows "pml4 st' = (if space = 0 then pml4 st else space)" "current_pid st' = current_pid st"
    "cr3 (tasks st' t) = cr3 (tasks st t)"
proof -
  have c: "current_task st = c" using assms(1) by (auto simp: ring_def)
  have n: "task_next (tasks st c) = hd (rest @ [c])" by (rule ring_links(1) [OF assms(1)])
  show "pml4 st' = (if space = 0 then pml4 st else space)" "current_pid st' = current_pid st"
    "cr3 (tasks st' t) = cr3 (tasks st t)"
    unfolding st'_def space_def scheduler_timer_handler_def Let_def
    by (simp_all add: c n set_task_def)
qed

text \<open>Identifiers handed out so far lie below the counter.\<close>

definition pids_below :: "sched_state \<Rightarrow> u64 list \<Rightarrow> bool" where
  "pids_below st ts \<longleftrightarrow> (\<forall>t\<in>set ts. upid (tasks st t) < current_pid st)"

lemma enroll_pids:
  fixes st t
  defines "st' \<equiv> scheduler_enroll_task t st"
  assumes "t \<notin> set ts"
  shows "current_pid st' = current_pid st + 1" "u \<noteq> t \<Longrightarrow> upid (tasks st' u) = upid (tasks st u)"
    "upid (tasks st' t) = current_pid st" "pml4 st' = pml4 st"
    "pids_below st ts \<Longrightarrow> current_pid st + 1 \<noteq> 0 \<Longrightarrow> pids_below st' (ts @ [t])"
proof -
  show f: "current_pid st' = current_pid st + 1" "u \<noteq> t \<Longrightarrow> upid (tasks st' u) = upid (tasks st u)"
    "upid (tasks st' t) = current_pid st" "pml4 st' = pml4 st" for u
    by (auto simp: st'_def scheduler_enroll_task_def Let_def set_task_def)
  assume "pids_below st ts" "current_pid st + 1 \<noteq> 0"
  then have "current_pid st < current_pid st + 1" using unatSuc [of "current_pid st"] by (simp add: word_less_nat_alt add.commute)
  moreover have "upid (tasks st' u) < current_pid st" if "u \<in> set ts" for u
    using that f(2) [of u] assms(2) \<open>pids_below st ts\<close> unfolding pids_below_def by metis
  ultimately show "pids_below st' (ts @ [t])" using f(1,3) unfolding pids_below_def by (auto intro: less_trans)
qed

lemma enroll_ring:
  assumes "ring st (c # rest)" "t \<noteq> 0" "t \<notin> set (c # rest)"
  shows "ring (scheduler_enroll_task t st) (c # rest @ [t]) \<and> upid (tasks (scheduler_enroll_task t st) t) = current_pid st"
proof -
  define l where "l = last (c # rest)"
  define st' where "st' = scheduler_enroll_task t st"
  note L = ring_links [OF assms(1)]
  have c: "current_task st = c" "distinct (c # rest)" "0 \<notin> set (c # rest)" "chain st (c # rest @ [c])" using assms(1) unfolding ring_def by auto
  have l: "l \<in> set (c # rest)" "t \<noteq> l" "t \<noteq> c" using assms(3) last_in_set [of "c # rest"] by (auto simp: l_def)
  have ts: "tasks st' = (let T = (tasks st)(t := (tasks st t)\<lparr>upid := current_pid st, task_prev := l, task_next := c\<rparr>);
      T = T(l := (T l)\<lparr>task_next := t\<rparr>) in T(c := (T c)\<lparr>task_prev := t\<rparr>))"
    using L(2) [folded l_def] L(3) l
    by (cases "c = l") (simp_all add: st'_def scheduler_enroll_task_def Let_def c(1) set_task_def fun_upd_twist)
  have cur: "current_task st' = c" using L(3) by (simp add: st'_def scheduler_enroll_task_def Let_def set_task_def c(1))
  have cr: "c # rest = butlast (c # rest) @ [l]" by (simp add: l_def)
  have "distinct (butlast (c # rest) @ [l])" using c(2) cr by metis
  then have bl: "l \<notin> set (butlast (c # rest))" unfolding distinct_append by simp
  have "chain st (butlast (c # rest) @ l # [c])" using c(4) cr by (metis append_Cons append_Nil append_assoc)
  then have "chain st (c # rest)" using task_chain_append [of st "butlast (c # rest)" l "[c]"] cr by metis
  moreover have "chain st' (c # rest) = chain st (c # rest)"
  proof (rule chain_cong)
    fix x
    show "x \<in> set (butlast (c # rest)) \<Longrightarrow> task_next (tasks st' x) = task_next (tasks st x)"
      using bl assms(3) in_set_butlastD [of x "c # rest"] l(3) by (auto simp: ts Let_def)
    show "x \<in> set (tl (c # rest)) \<Longrightarrow> task_prev (tasks st' x) = task_prev (tasks st x)"
      using c(2) assms(3) l(2) by (auto simp: ts Let_def)
  qed
  ultimately have "chain st' (butlast (c # rest) @ [l])" using cr by metis
  moreover have "link st' l t" "link st' t c" using l by (auto simp: link_def ts Let_def)
  ultimately have "chain st' (butlast (c # rest) @ l # [t, c])" using task_chain_append [of st' "butlast (c # rest)" l "[t, c]"] by simp
  then have "chain st' (c # rest @ [t, c])" using cr by (metis append_Cons append_Nil append_assoc)
  then have "ring st' (c # rest @ [t])" using c(2,3) assms(2,3) cur by (auto simp: ring_def)
  moreover have "upid (tasks st' t) = current_pid st" using l(2,3) by (simp add: ts Let_def)
  ultimately show ?thesis by (simp add: st'_def)
qed

lemma exit_switch:
  assumes r: "ring st (c # rest)" and "upid (tasks st c) = 0" and "rest \<noteq> []"
  shows "\<exists>st'. scheduler_timer_handler tf st = (st', rsp (tasks st (hd rest))) \<and> ring st' rest \<and>
    pml4 st' = (if cr3 (tasks st (hd rest)) = 0 then pml4 st else cr3 (tasks st (hd rest)))"
proof -
  obtain st' where st': "scheduler_timer_handler tf st = (st', rsp (tasks st' (current_task st')))" "ring st' rest"
    "\<forall>t\<in>set (c # rest). t \<noteq> c \<longrightarrow> rsp (tasks st' t) = rsp (tasks st t)"
    using timer_ring [OF r, of tf] assms(2,3) by auto
  have "current_task st' = hd rest" using st'(2) by (simp add: ring_def)
  moreover have "hd rest \<in> set (c # rest)" "hd rest \<noteq> c" using ring_links(4) [OF r] assms(3) by auto
  ultimately show ?thesis using st' timer_space(1) [OF r, of tf] assms(3) by (auto simp: hd_append)
qed

lemma exit_ring:
  assumes "ring st (c # rest)"
  shows "(rest = [] \<longrightarrow> scheduler_exit_task tf st = Inl (Panic ''SCHEDULER'' ''Last task attempted to exit. Halting.'')) \<and>
      (rest \<noteq> [] \<longrightarrow> (\<exists>st'. scheduler_exit_task tf st = Inr (st', rsp (tasks st (hd rest))) \<and> ring st' rest \<and>
         pml4 st' = (if cr3 (tasks st (hd rest)) = 0 then pml4 st else cr3 (tasks st (hd rest)))))"
proof -
  have c: "current_task st = c" using assms by (auto simp: ring_def)
  let ?st1 = "set_task c (upid_update (\<lambda>_. 0)) st"
  note L = ring_links [OF assms]
  have "chain ?st1 xs = chain st xs" for xs by (rule chain_cong) (simp_all add: set_task_def)
  moreover have "current_task ?st1 = current_task st" by (simp add: set_task_def)
  ultimately have r1: "ring ?st1 (c # rest)" using assms unfolding ring_def by metis
  have "upid (tasks ?st1 c) = 0" by (simp add: set_task_def)
  then have "rest \<noteq> [] \<Longrightarrow> \<exists>st'. scheduler_timer_handler tf ?st1 = (st', rsp (tasks st (hd rest))) \<and> ring st' rest \<and>
      pml4 st' = (if cr3 (tasks st (hd rest)) = 0 then pml4 st else cr3 (tasks st (hd rest)))"
    using exit_switch [OF r1, of tf] L(4) by (auto simp: set_task_def)
  moreover have "rest \<noteq> [] \<Longrightarrow> task_next (tasks st c) \<noteq> c" using L(1,4) by simp
  ultimately show ?thesis using L(1) by (auto simp: scheduler_exit_task_def c)
qed

section \<open>Properties\<close>

text \<open>
  C21. The scheduler keeps its tasks in a round-robin queue, the running task first. The timer handler
  saves the context of the running task and moves it to the end of the queue, or, when it has exited
  and is not the only task, unlinks it; the next task runs with the context saved for it and in its
  address space, where a root of 0 stands for the current one. Enrolling a task adds it at the end,
  gives it the counter's value as identifier and advances the counter, so that the identifier differs
  from those of the other tasks as long as these lie below the counter, which enrolling preserves
  until the counter wraps around. A task that exits leaves the queue and the next one runs, unless it
  is the only one, which is a panic.
\<close>

theorem scheduler_queue:
  assumes "ring st (c # rest)"
  shows "(\<exists>st'. scheduler_timer_handler tf st = (st', rsp (tasks st' (current_task st'))) \<and>
      ring st' (if upid (tasks st c) = 0 \<and> rest \<noteq> [] then rest else rest @ [c]) \<and>
      (\<forall>t\<in>set (c # rest). (upid (tasks st c) = 0 \<and> rest \<noteq> [] \<longrightarrow> t \<noteq> c) \<longrightarrow>
         upid (tasks st' t) = upid (tasks st t) \<and> rsp (tasks st' t) = (if t = c then tf else rsp (tasks st t))) \<and>
      pml4 st' = (if cr3 (tasks st (current_task st')) = 0 then pml4 st else cr3 (tasks st (current_task st'))) \<and>
      current_pid st' = current_pid st \<and> (\<forall>t. cr3 (tasks st' t) = cr3 (tasks st t))) \<and>
    (\<forall>t. t \<noteq> 0 \<longrightarrow> t \<notin> set (c # rest) \<longrightarrow>
      ring (scheduler_enroll_task t st) (c # rest @ [t]) \<and>
      upid (tasks (scheduler_enroll_task t st) t) = current_pid st \<and>
      current_pid (scheduler_enroll_task t st) = current_pid st + 1 \<and>
      (pids_below st (c # rest) \<longrightarrow>
         (\<forall>u\<in>set (c # rest). upid (tasks (scheduler_enroll_task t st) u) = upid (tasks st u) \<and>
            upid (tasks (scheduler_enroll_task t st) u) \<noteq> upid (tasks (scheduler_enroll_task t st) t)) \<and>
         (current_pid st + 1 \<noteq> 0 \<longrightarrow> pids_below (scheduler_enroll_task t st) (c # rest @ [t])))) \<and>
    (rest = [] \<longrightarrow> scheduler_exit_task tf st = Inl (Panic ''SCHEDULER'' ''Last task attempted to exit. Halting.'')) \<and>
    (rest \<noteq> [] \<longrightarrow> (\<exists>st'. scheduler_exit_task tf st = Inr (st', rsp (tasks st (hd rest))) \<and> ring st' rest \<and>
       pml4 st' = (if cr3 (tasks st (hd rest)) = 0 then pml4 st else cr3 (tasks st (hd rest)))))"
    (is "?timer \<and> ?enroll \<and> ?exit1 \<and> ?exit2")
proof (intro conjI)
  obtain st' where st': "scheduler_timer_handler tf st = (st', rsp (tasks st' (current_task st')))"
    "ring st' (if upid (tasks st c) = 0 \<and> rest \<noteq> [] then rest else rest @ [c])"
    "\<forall>t\<in>set (c # rest). (upid (tasks st c) = 0 \<and> rest \<noteq> [] \<longrightarrow> t \<noteq> c) \<longrightarrow>
         upid (tasks st' t) = upid (tasks st t) \<and> rsp (tasks st' t) = (if t = c then tf else rsp (tasks st t))"
    using timer_ring [OF assms] by blast
  moreover have "current_task st' = hd (rest @ [c])"
    using st'(2) by (cases "upid (tasks st c) = 0 \<and> rest \<noteq> []") (auto simp: ring_def hd_append)
  ultimately show ?timer using timer_space [OF assms, of tf] by (intro exI [of _ st']) simp
  show ?enroll
  proof (intro allI impI)
    fix t
    assume t: "t \<noteq> 0" "t \<notin> set (c # rest)"
    note p = enroll_pids [OF t(2), where st = st]
    have old: "upid (tasks (scheduler_enroll_task t st) u) = upid (tasks st u) \<and>
        upid (tasks (scheduler_enroll_task t st) u) \<noteq> upid (tasks (scheduler_enroll_task t st) t)"
      if "pids_below st (c # rest)" "u \<in> set (c # rest)" for u
    proof -
      have "u \<noteq> t" "upid (tasks st u) < current_pid st" using that t(2) unfolding pids_below_def by blast+
      then show ?thesis using p(2,3) by simp
    qed
    show "ring (scheduler_enroll_task t st) (c # rest @ [t]) \<and>
      upid (tasks (scheduler_enroll_task t st) t) = current_pid st \<and>
      current_pid (scheduler_enroll_task t st) = current_pid st + 1 \<and>
      (pids_below st (c # rest) \<longrightarrow>
         (\<forall>u\<in>set (c # rest). upid (tasks (scheduler_enroll_task t st) u) = upid (tasks st u) \<and>
            upid (tasks (scheduler_enroll_task t st) u) \<noteq> upid (tasks (scheduler_enroll_task t st) t)) \<and>
         (current_pid st + 1 \<noteq> 0 \<longrightarrow> pids_below (scheduler_enroll_task t st) (c # rest @ [t])))"
      using enroll_ring [OF assms t] p(1) p(5) [unfolded append_Cons] old by blast
  qed
qed (use exit_ring [OF assms] in blast)+

text \<open>A ring of two tasks at 0x100 and 0x200, with the allocator of \<open>demo_pma\<close>.\<close>

definition demo_sched :: sched_state where
  "demo_sched = scheduler_enroll_task 0x200 (scheduler_enroll_task 0x100
     \<lparr>tasks = (\<lambda>_. zero_task), trap_frames = (\<lambda>_. \<lparr>tf_rip = 0, tf_cs = 0, tf_rflags = 0, tf_rsp = 0, tf_ss = 0\<rparr>),
      current_task = 0, current_pid = 1, pml4 = 0x1000, pages = demo_pma, released = []\<rparr>)"

lemma demo_ring: "ring demo_sched [0x100, 0x200]"
  by (simp add: demo_sched_def ring_def link_def scheduler_enroll_task_def set_task_def Let_def)

theorem scheduler_queue_witness:
  "(\<exists>st'. scheduler_timer_handler 0x9000 demo_sched = (st', rsp (tasks st' (current_task st'))) \<and> ring st' [0x200, 0x100] \<and>
     rsp (tasks st' 0x100) = 0x9000) \<and>
   ring (scheduler_enroll_task 0x300 demo_sched) [0x100, 0x200, 0x300] \<and>
   upid (tasks (scheduler_enroll_task 0x300 demo_sched) 0x300) = 3 \<and>
   pids_below (scheduler_enroll_task 0x300 demo_sched) [0x100, 0x200, 0x300]"
proof -
  have u: "upid (tasks demo_sched 0x100) = 1" "current_pid demo_sched = 3" "pids_below demo_sched [0x100, 0x200]"
    by (simp_all add: demo_sched_def scheduler_enroll_task_def set_task_def Let_def pids_below_def)
  note q = scheduler_queue [OF demo_ring, of "0x9000"]
  have e: "(0x300 :: u64) \<noteq> 0" "(0x300 :: u64) \<notin> set [0x100, 0x200]" by simp_all
  from q have "\<exists>st'. scheduler_timer_handler 0x9000 demo_sched = (st', rsp (tasks st' (current_task st'))) \<and>
      ring st' [0x200, 0x100] \<and> rsp (tasks st' 0x100) = 0x9000" by (auto simp: u)
  moreover from q e have "ring (scheduler_enroll_task 0x300 demo_sched) ([0x100, 0x200] @ [0x300]) \<and>
      upid (tasks (scheduler_enroll_task 0x300 demo_sched) 0x300) = 3 \<and>
      pids_below (scheduler_enroll_task 0x300 demo_sched) ([0x100, 0x200] @ [0x300])"
    using u(2,3) by simp
  ultimately show ?thesis by simp
qed

section \<open>Fairness\<close>

text \<open>Timer interrupts in a row, each with its trap frame.\<close>

fun timer_ticks :: "u64 list \<Rightarrow> sched_state \<Rightarrow> sched_state" where
  "timer_ticks [] st = st"
| "timer_ticks (tf # tfs) st = timer_ticks tfs (fst (scheduler_timer_handler tf st))"

text \<open>
  C22. While no task exits, \<open>k\<close> timer interrupts rotate the queue by \<open>k\<close>: the task at position \<open>i\<close> runs
  after \<open>i\<close> interrupts and again every \<open>length ts\<close> interrupts.
\<close>

theorem scheduler_fair:
  assumes "ring st ts" and "\<forall>t\<in>set ts. upid (tasks st t) \<noteq> 0"
  shows "ring (timer_ticks tfs st) (rotate (length tfs) ts) \<and>
    current_task (timer_ticks tfs st) = ts ! (length tfs mod length ts)"
proof -
  have "ring (timer_ticks tfs st) (rotate (length tfs) ts)" using assms
  proof (induction tfs arbitrary: st ts)
    case (Cons tf tfs)
    obtain c rest where ts: "ts = c # rest" using Cons.prems(1) by (cases ts) (auto simp: ring_def)
    have live: "upid (tasks st c) \<noteq> 0" using Cons.prems(2) ts by simp
    obtain st' where r: "scheduler_timer_handler tf st = (st', rsp (tasks st' (current_task st')))" "ring st' (rest @ [c])"
      "\<forall>t\<in>set (c # rest). upid (tasks st' t) = upid (tasks st t)" using timer_ring [OF Cons.prems(1) [unfolded ts], of tf] live by auto
    have "\<forall>t\<in>set (rest @ [c]). upid (tasks st' t) \<noteq> 0" using r(3) Cons.prems(2) ts by auto
    from Cons.IH [OF r(2) this] show ?case using r(1) ts by (simp add: rotate1_rotate_swap)
  qed simp
  moreover have "hd (rotate (length tfs) ts) = ts ! (length tfs mod length ts)" using assms(1) by (simp add: hd_rotate_conv_nth ring_def)
  ultimately show ?thesis by (metis ring_def)
qed

theorem scheduler_fair_witness: "current_task (timer_ticks [0x9000, 0x9100, 0x9200] demo_sched) = 0x200"
proof -
  have "\<forall>t\<in>set [0x100, 0x200]. upid (tasks demo_sched t) \<noteq> 0"
    by (simp add: demo_sched_def scheduler_enroll_task_def set_task_def Let_def)
  from scheduler_fair [OF demo_ring this, of "[0x9000, 0x9100, 0x9200]"] show ?thesis by (simp add: mod_Suc)
qed

end
