(* ===== verification/Disk.thy ===== *)
theory Disk
  imports Layout
begin

text \<open>
  Disks and partition tables: \<^verbatim>\<open>src/disk/\<close> (\<^verbatim>\<open>ata.c\<close>, \<^verbatim>\<open>mbr.c\<close>, \<^verbatim>\<open>gpt.c\<close>, \<^verbatim>\<open>partition.c\<close>, \<^verbatim>\<open>diskinit.c\<close>,
  \<^verbatim>\<open>guid_list.h\<close>).

  A disk driver is a pair of callbacks on a drive state \<open>'d\<close>; the sector number of a callback has 32
  bits, so a larger one loses its upper half. A transfer buffer is the list of its bytes. The routines
  get from their environment \<open>env\<close> whether \<open>dmalloc32\<close> grants a request, the address of the \<open>n\<close>-th
  \<open>malloc\<close>, the bytes in memory after a transfer buffer and the checksum of \<^verbatim>\<open>src/math/crc32.S\<close>. The
  partitions of a device are objects in a store by address, linked by \<open>p_next\<close>, as \<open>malloc\<close> hands them
  out with the old contents. The result \<open>None\<close> stands for a routine that does not come back: it walks
  a list without an end or uses a null buffer. Log lines are not modelled.
\<close>

section \<open>Type identifiers\<close>

definition GUIDE_PARSE :: "u32 \<Rightarrow> u16 \<Rightarrow> u16 \<Rightarrow> u8 list \<Rightarrow> u8 list" where
  "GUIDE_PARSE d1 d2 d3 d4 =
     [ucast (d1 AND 0xFF), ucast (drop_bit 8 d1 AND 0xFF), ucast (drop_bit 16 d1 AND 0xFF), ucast (drop_bit 24 d1 AND 0xFF),
      ucast (d2 AND 0xFF), ucast (drop_bit 8 d2 AND 0xFF), ucast (d3 AND 0xFF), ucast (drop_bit 8 d3 AND 0xFF)] @ d4"

definition GUID_CUORE_BASIC_DATA :: "u8 list" where
  "GUID_CUORE_BASIC_DATA = GUIDE_PARSE 0x726F7563 0x5F65 0x6162 [0x73, 0x69, 0x63, 0x5F, 0x64, 0x61, 0x74, 0x61]"
definition GUID_EMPTY :: "u8 list" where
  "GUID_EMPTY = GUIDE_PARSE 0 0 0 [0, 0, 0, 0, 0, 0, 0, 0]"
definition GUID_EFI_SYSTEM :: "u8 list" where
  "GUID_EFI_SYSTEM = GUIDE_PARSE 0xC12A7328 0xF81F 0x11D2 [0xBA, 0x4B, 0x00, 0xA0, 0xC9, 0x3E, 0xC9, 0x3B]"
definition GUID_BIOS_BOOT :: "u8 list" where
  "GUID_BIOS_BOOT = GUIDE_PARSE 0x21686148 0x6449 0x6E6F [0x74, 0x4E, 0x65, 0x65, 0x64, 0x45, 0x46, 0x49]"
definition GUID_MS_BASIC_DATA :: "u8 list" where
  "GUID_MS_BASIC_DATA = GUIDE_PARSE 0xEBD0A0A2 0xB9E5 0x4433 [0x87, 0xC0, 0x68, 0xB6, 0xB7, 0x26, 0x99, 0xC7]"
definition GUID_LINUX_SWAP :: "u8 list" where
  "GUID_LINUX_SWAP = GUIDE_PARSE 0x0657FD6D 0xA4AB 0x43C4 [0x84, 0xE5, 0x09, 0x33, 0xC8, 0x4B, 0x4F, 0x4F]"
definition GUID_LINUX_FILESYSTEM :: "u8 list" where
  "GUID_LINUX_FILESYSTEM = GUIDE_PARSE 0x0FC63DAF 0x8483 0x4772 [0x8E, 0x79, 0x3D, 0x69, 0xD8, 0x47, 0x7D, 0xE4]"
definition GUID_MS_RESERVED :: "u8 list" where
  "GUID_MS_RESERVED = GUIDE_PARSE 0xE3C9E316 0x0B5C 0x4DB8 [0x81, 0x7D, 0xF9, 0x2D, 0xF0, 0x02, 0x15, 0xAE]"
definition GUID_WIN_RECOVERY :: "u8 list" where
  "GUID_WIN_RECOVERY = GUIDE_PARSE 0xDE94BBA4 0x06D1 0x4D40 [0xA1, 0x6A, 0xBF, 0xD5, 0x01, 0x79, 0xD6, 0xAC]"
definition GUID_MBR_SCHEME :: "u8 list" where
  "GUID_MBR_SCHEME = GUIDE_PARSE 0x024DEE41 0x33E7 0x11D3 [0x9D, 0x69, 0x00, 0x08, 0xC7, 0x81, 0xF3, 0x9F]"
definition GUID_INTEL_FAST_FLASH :: "u8 list" where
  "GUID_INTEL_FAST_FLASH = GUIDE_PARSE 0xD3BFE2DE 0x3DAF 0x11DF [0xBA, 0x40, 0xE3, 0xA5, 0x56, 0xD8, 0x95, 0x93]"
definition GUID_SONY_BOOT :: "u8 list" where
  "GUID_SONY_BOOT = GUIDE_PARSE 0xF4019732 0x066E 0x4E12 [0x82, 0x73, 0x34, 0x6C, 0x56, 0x41, 0x49, 0x4F]"
definition GUID_LENOVO_BOOT :: "u8 list" where
  "GUID_LENOVO_BOOT = GUIDE_PARSE 0xBFBFAFE7 0xA34F 0x448A [0x9A, 0x5B, 0x62, 0x13, 0xEB, 0x73, 0x6C, 0x22]"
definition GUID_POWERPC_PREP :: "u8 list" where
  "GUID_POWERPC_PREP = GUIDE_PARSE 0x9E1A2D38 0xC612 0x4316 [0xAA, 0x26, 0x8B, 0x49, 0x52, 0x1E, 0x5A, 0x8B]"
definition GUID_ONIE_BOOT :: "u8 list" where
  "GUID_ONIE_BOOT = GUIDE_PARSE 0x7412F7D5 0xA156 0x4B13 [0x81, 0xDC, 0x86, 0x71, 0x74, 0x92, 0x93, 0x25]"
definition GUID_ONIE_CONFIG :: "u8 list" where
  "GUID_ONIE_CONFIG = GUIDE_PARSE 0xD4E6E2CD 0x4469 0x46F3 [0xB5, 0xCB, 0x1B, 0xFF, 0x57, 0xAF, 0xC1, 0x49]"
definition GUID_MS_LDM_METADATA :: "u8 list" where
  "GUID_MS_LDM_METADATA = GUIDE_PARSE 0x5808C8AA 0x7E8F 0x42E0 [0x85, 0xD2, 0xE1, 0xE9, 0x04, 0x34, 0xCF, 0xB3]"
definition GUID_MS_LDM_DATA :: "u8 list" where
  "GUID_MS_LDM_DATA = GUIDE_PARSE 0xAF9B60A0 0x1431 0x4F62 [0xBC, 0x68, 0x33, 0x11, 0x71, 0x4A, 0x69, 0xAD]"
definition GUID_MS_STORAGE_SPACES :: "u8 list" where
  "GUID_MS_STORAGE_SPACES = GUIDE_PARSE 0xE75CAF8F 0xF680 0x4CEE [0xAF, 0xA3, 0xB0, 0x01, 0xE5, 0x6E, 0xFC, 0x2D]"
definition GUID_HP_UX_DATA :: "u8 list" where
  "GUID_HP_UX_DATA = GUIDE_PARSE 0x75894C1E 0x3AEB 0x11D3 [0xB7, 0xC1, 0x7B, 0x03, 0xA0, 0x00, 0x00, 0x00]"
definition GUID_HP_UX_SERVICE :: "u8 list" where
  "GUID_HP_UX_SERVICE = GUIDE_PARSE 0xE2A1E728 0x32E3 0x11D6 [0xA6, 0x82, 0x7B, 0x03, 0xA0, 0x00, 0x00, 0x00]"
definition GUID_IBM_GPFS :: "u8 list" where
  "GUID_IBM_GPFS = GUIDE_PARSE 0x37AFFC90 0xEF7D 0x4E96 [0x91, 0xC3, 0x2D, 0x7A, 0xE0, 0x55, 0xB1, 0x74]"

section \<open>ATA identification\<close>

record ata_identity_t =
  config :: u16
  ata_total_sectors :: u64
  model :: "u8 list"
  serial :: "u8 list"
  firmware :: "u8 list"
  capabilities :: u16
  field_validity :: u16
  pio_modes :: u32
  dma_modes :: u32
  command_sets_82 :: u16
  command_sets_83 :: u16
  logical_sector_size :: u16

fun trim_loop :: "nat \<Rightarrow> u8 list \<Rightarrow> u8 list" where
  "trim_loop 0 dest = dest"
| "trim_loop (Suc i) dest = (if dest ! i = 0x20 then trim_loop i (dest[i := 0]) else dest)"

definition ata_parse_string :: "u16 list \<Rightarrow> nat \<Rightarrow> nat \<Rightarrow> u8 list" where
  "ata_parse_string id_data word_start word_count =
     trim_loop (word_count * 2)
       (concat (map (\<lambda>i. [ucast (drop_bit 8 (id_data ! (word_start + i))), ucast (id_data ! (word_start + i) AND 0xFF)]) [0..<word_count]) @ [0])"

definition ata_identify :: "u16 list \<Rightarrow> ata_identity_t" where
  "ata_identify w =
     \<lparr>config = w ! 0,
      ata_total_sectors =
        (if w ! 83 AND push_bit 10 1 \<noteq> 0
         then push_bit 48 (ucast (w ! 103)) OR push_bit 32 (ucast (w ! 102)) OR push_bit 16 (ucast (w ! 101)) OR ucast (w ! 100)
         else ucast (push_bit 16 (ucast (w ! 61)) OR ucast (w ! 60) :: u32)),
      model = ata_parse_string w 27 20, serial = ata_parse_string w 10 10, firmware = ata_parse_string w 23 4,
      capabilities = w ! 49, field_validity = w ! 53, pio_modes = ucast (w ! 64),
      dma_modes = push_bit 16 (ucast (w ! 63)) OR ucast (w ! 88),
      command_sets_82 = w ! 82, command_sets_83 = w ! 83, logical_sector_size = w ! 106 AND 0x0FFF\<rparr>"

section \<open>Buffers\<close>

definition slice :: "nat \<Rightarrow> nat \<Rightarrow> u8 list \<Rightarrow> u8 list" where
  "slice off n buf = take n (drop off buf)"

definition put :: "nat \<Rightarrow> u8 list \<Rightarrow> u8 list \<Rightarrow> u8 list" where
  "put off bs buf = take off buf @ bs @ drop (off + length bs) buf"

definition get16 :: "nat \<Rightarrow> u8 list \<Rightarrow> u16" where "get16 off buf = of_nat (le_value (slice off 2 buf))"
definition get32 :: "nat \<Rightarrow> u8 list \<Rightarrow> u32" where "get32 off buf = of_nat (le_value (slice off 4 buf))"
definition get64 :: "nat \<Rightarrow> u8 list \<Rightarrow> u64" where "get64 off buf = of_nat (le_value (slice off 8 buf))"
definition put16 :: "nat \<Rightarrow> u16 \<Rightarrow> u8 list \<Rightarrow> u8 list" where "put16 off v = put off (le_bytes 2 (unat v))"
definition put32 :: "nat \<Rightarrow> u32 \<Rightarrow> u8 list \<Rightarrow> u8 list" where "put32 off v = put off (le_bytes 4 (unat v))"
definition put64 :: "nat \<Rightarrow> u64 \<Rightarrow> u8 list \<Rightarrow> u8 list" where "put64 off v = put off (le_bytes 8 (unat v))"

section \<open>Devices and partitions\<close>

record partition_t =
  start_lba :: u64
  sector_count :: u64
  partition_id :: u32
  type_id :: u8
  guid :: "u8 list"
  is_gpt :: bool
  p_next :: u64

record 'd driver =
  read_sectors :: "u32 \<Rightarrow> u64 \<Rightarrow> 'd \<Rightarrow> u8 \<times> u8 list \<times> 'd"
  write_sectors :: "u32 \<Rightarrow> u64 \<Rightarrow> u8 list \<Rightarrow> 'd \<Rightarrow> u8 \<times> 'd"

record env =
  dma_granted :: "u64 \<Rightarrow> bool"
  malloc_addr :: "nat \<Rightarrow> u64"
  beyond :: "nat \<Rightarrow> u8"
  crc32 :: "u8 list \<Rightarrow> u32"

record 'd disk_state =
  drive :: 'd
  total_sectors :: u64
  partitions :: u64
  parts :: "u64 \<Rightarrow> partition_t"
  mallocs :: nat
  freed :: "u64 list"

text \<open>The \<open>n\<close> bytes at the start of a transfer buffer, past its end those of the memory behind it.\<close>

definition region :: "env \<Rightarrow> nat \<Rightarrow> u8 list \<Rightarrow> u8 list" where
  "region e n buf = map (\<lambda>i. if i < length buf then buf ! i else beyond e i) [0..<n]"

definition bytes_from :: "env \<Rightarrow> nat \<Rightarrow> nat \<Rightarrow> u8 list \<Rightarrow> u8 list" where
  "bytes_from e off n buf = drop off (region e (off + n) buf)"

definition partition_lookup_table :: "(u8 \<times> u8 list \<times> string option) list" where
  "partition_lookup_table =
    [(0x00, GUID_EMPTY, Some ''Empty''),
     (0x06, GUID_MS_BASIC_DATA, Some ''FAT16''),
     (0x0B, GUID_MS_BASIC_DATA, Some ''FAT32 (CHS)''),
     (0x0C, GUID_MS_BASIC_DATA, Some ''FAT32 (LBA)''),
     (0x07, GUID_MS_BASIC_DATA, Some ''NTFS/exFAT''),
     (0x83, GUID_LINUX_FILESYSTEM, Some ''Linux Native''),
     (0x82, GUID_LINUX_SWAP, Some ''Linux Swap''),
     (0xEF, GUID_EFI_SYSTEM, Some ''EFI System Partition''),
     (0x21, GUID_BIOS_BOOT, Some ''BIOS Boot Partition''),
     (0, GUID_EMPTY, None)]"

definition guid_name_table :: "(u8 list \<times> string option) list" where
  "guid_name_table =
    [(GUID_EMPTY, Some ''Empty/Unknown''),
     (GUID_EFI_SYSTEM, Some ''EFI System Partition''),
     (GUID_BIOS_BOOT, Some ''BIOS Boot Partition''),
     (GUID_MS_BASIC_DATA, Some ''Microslop Basic Data''),
     (GUID_LINUX_SWAP, Some ''Linux Swap''),
     (GUID_LINUX_FILESYSTEM, Some ''Linux Filesystem''),
     (GUID_MS_RESERVED, Some ''Microslop Reserved''),
     (GUID_WIN_RECOVERY, Some ''Windows Recovery Environment''),
     (GUID_MBR_SCHEME, Some ''MBR Partition Scheme''),
     (GUID_INTEL_FAST_FLASH, Some ''Intel Fast Flash''),
     (GUID_SONY_BOOT, Some ''Sony Boot Partition''),
     (GUID_LENOVO_BOOT, Some ''Lenovo Boot Partition''),
     (GUID_POWERPC_PREP, Some ''PowerPC PReP Boot''),
     (GUID_ONIE_BOOT, Some ''ONIE Boot Partition''),
     (GUID_ONIE_CONFIG, Some ''ONIE Config Partition''),
     (GUID_MS_LDM_METADATA, Some ''Logical Disk Manager Metadata''),
     (GUID_MS_LDM_DATA, Some ''Logical Disk Manager Data''),
     (GUID_MS_STORAGE_SPACES, Some ''Microsoft Storage Spaces''),
     (GUID_HP_UX_DATA, Some ''HP-UX Data''),
     (GUID_HP_UX_SERVICE, Some ''HP-UX Service''),
     (GUID_IBM_GPFS, Some ''IBM General Parallel FS''),
     (replicate 16 0, None)]"

fun mbr_name_loop :: "(u8 \<times> u8 list \<times> string option) list \<Rightarrow> u8 \<Rightarrow> string" where
  "mbr_name_loop ((t, g, Some n) # rows) ty = (if t = ty then n else mbr_name_loop rows ty)"
| "mbr_name_loop _ ty = ''Unknown''"

fun gpt_name_loop :: "(u8 list \<times> string option) list \<Rightarrow> u8 list \<Rightarrow> string" where
  "gpt_name_loop ((g, Some n) # rows) pg = (if g = pg then n else gpt_name_loop rows pg)"
| "gpt_name_loop _ pg = ''Unknown''"

definition partition_get_name :: "partition_t \<Rightarrow> string" where
  "partition_get_name part =
     (if is_gpt part then gpt_name_loop guid_name_table (guid part) else mbr_name_loop partition_lookup_table (type_id part))"

partial_function (option) last_part :: "(u64 \<Rightarrow> partition_t) \<Rightarrow> u64 \<Rightarrow> u64 option" where
  "last_part ps current = (if p_next (ps current) \<noteq> 0 then last_part ps (p_next (ps current)) else Some current)"

definition partition_register :: "u64 \<Rightarrow> 'd disk_state \<Rightarrow> 'd disk_state option" where
  "partition_register new_part st =
     (if new_part = 0 then Some st
      else if partitions st = 0 then Some (st\<lparr>partitions := new_part\<rparr>)
      else map_option (\<lambda>c. st\<lparr>parts := (parts st)(c := (parts st c)\<lparr>p_next := new_part\<rparr>)\<rparr>) (last_part (parts st) (partitions st)))"

text \<open>A new partition object: the address \<open>malloc\<close> returns, the memory there as it was.\<close>

definition malloc_part :: "env \<Rightarrow> 'd disk_state \<Rightarrow> 'd disk_state \<times> u64" where
  "malloc_part e st = (st\<lparr>mallocs := Suc (mallocs st)\<rparr>, malloc_addr e (mallocs st))"

definition set_part :: "u64 \<Rightarrow> (partition_t \<Rightarrow> partition_t) \<Rightarrow> 'd disk_state \<Rightarrow> 'd disk_state" where
  "set_part p f st = st\<lparr>parts := (parts st)(p := f (parts st p))\<rparr>"

section \<open>Master boot records\<close>

definition mbr_type :: "nat \<Rightarrow> u8 list \<Rightarrow> u8" where "mbr_type i sector = sector ! (446 + 16 * i + 4)"

fun mbr_entries :: "env \<Rightarrow> u8 list \<Rightarrow> nat list \<Rightarrow> 'd disk_state \<Rightarrow> 'd disk_state option" where
  "mbr_entries e sector [] st = Some st"
| "mbr_entries e sector (i # is) st =
     (if mbr_type i sector = 0 then mbr_entries e sector is st
      else case malloc_part e st of (st, entry) \<Rightarrow>
        if entry = 0 then mbr_entries e sector is st
        else case partition_register entry
            (set_part entry (\<lambda>p. p\<lparr>start_lba := ucast (get32 (446 + 16 * i + 8) sector), sector_count := ucast (get32 (446 + 16 * i + 12) sector),
               type_id := mbr_type i sector, is_gpt := False\<rparr>) st) of
          None \<Rightarrow> None | Some st \<Rightarrow> mbr_entries e sector is st)"

definition mbr_parse :: "env \<Rightarrow> 'd driver \<Rightarrow> 'd disk_state \<Rightarrow> (u8 \<times> 'd disk_state) option" where
  "mbr_parse e drv st =
     (if \<not> dma_granted e 512 then Some (1, st)
      else case read_sectors drv 0 1 (drive st) of (code, sector, d) \<Rightarrow>
        let st = st\<lparr>drive := d\<rparr> in
        if code \<noteq> 0 then Some (1, st)
        else if get16 510 sector \<noteq> 0xAA55 then Some (1, st)
        else if \<exists>i\<in>set [0..<4]. mbr_type i sector = 0xEE then Some (2, st)
        else map_option (\<lambda>st. (0, st)) (mbr_entries e sector [0..<4] st))"

definition mbr_sector :: "u8 \<Rightarrow> u8 list" where
  "mbr_sector ty =
     (let s = replicate 512 0;
          s = put 446 [0x80, 0x00, 0x01, 0x01, if ty \<noteq> 0 then ty else 0x83, 0x00, 0x01, 0x01] s;
          s = put32 (446 + 8) 2048 s;
          s = put32 (446 + 12) 0xFFFE s in
      put 510 [0x55, 0xAA] s)"

definition mbr_install :: "env \<Rightarrow> 'd driver \<Rightarrow> u8 \<Rightarrow> 'd disk_state \<Rightarrow> 'd disk_state" where
  "mbr_install e drv ty st =
     (if \<not> dma_granted e 512 then st
      else
        let d1 = snd (write_sectors drv 0 1 (mbr_sector ty) (drive st));
            d2 = snd (write_sectors drv 2048 1 (replicate 512 0) d1) in
        st\<lparr>drive := d2\<rparr>)"

section \<open>GUID partition tables\<close>

fun gpt_entries :: "env \<Rightarrow> u8 list \<Rightarrow> u32 \<Rightarrow> nat \<Rightarrow> nat \<Rightarrow> 'd disk_state \<Rightarrow> 'd disk_state option" where
  "gpt_entries e array entry_size i 0 st = Some st"
| "gpt_entries e array entry_size i (Suc k) st =
     (let off = unat (of_nat i * entry_size);
          g = bytes_from e off 16 array in
      if g = GUID_EMPTY then gpt_entries e array entry_size (Suc i) k st
      else case malloc_part e st of (st, entry) \<Rightarrow>
        if entry = 0 then Some st
        else
          let starting_lba = get64 0 (bytes_from e (off + 32) 8 array);
              ending_lba = get64 0 (bytes_from e (off + 40) 8 array) in
          case partition_register entry
            (set_part entry (\<lambda>p. p\<lparr>start_lba := starting_lba, sector_count := ending_lba - starting_lba + 1, partition_id := of_nat i,
               type_id := 0, is_gpt := True, guid := g\<rparr>) st) of
            None \<Rightarrow> None | Some st \<Rightarrow> gpt_entries e array entry_size (Suc i) k st)"

definition gpt_parse :: "env \<Rightarrow> 'd driver \<Rightarrow> 'd disk_state \<Rightarrow> 'd disk_state option" where
  "gpt_parse e drv st =
     (if \<not> dma_granted e 512 then None
      else case read_sectors drv 1 1 (drive st) of (code, sector, d) \<Rightarrow>
        let st = st\<lparr>drive := d\<rparr> in
        if code \<noteq> 0 then Some st
        else if slice 0 8 sector \<noteq> map of_char ''EFI PART'' then Some st
        else
          let read_crc = get32 16 sector;
              header_size = get32 12 sector;
              header = put32 16 0 sector in
          if crc32 e (region e (unat header_size) header) \<noteq> read_crc then Some st
          else
            let num_partition_entries = get32 80 sector;
                entry_size = get32 84 sector;
                array_size = num_partition_entries * entry_size;
                sectors_to_read = (array_size + 511) div 512 in
            if \<not> dma_granted e (ucast array_size) then None
            else case read_sectors drv (ucast (get64 72 sector)) (ucast sectors_to_read) (drive st) of (code, array, d) \<Rightarrow>
              let st = st\<lparr>drive := d\<rparr> in
              if code \<noteq> 0 then Some st
              else if crc32 e (region e (unat array_size) array) \<noteq> get32 88 sector then Some st
              else gpt_entries e array entry_size 0 (unat num_partition_entries) st)"

text \<open>The characters of the name are signed: one above 0x7F is extended with ones to 16 bits.\<close>

definition gpt_name_bytes :: "u8 list \<Rightarrow> u8 list" where
  "gpt_name_bytes nm = concat (map (\<lambda>c. le_bytes 2 (unat (scast c :: u16))) (take 36 nm))"

definition gpt_array :: "u64 \<Rightarrow> u8 list option \<Rightarrow> u8 list option \<Rightarrow> u8 list" where
  "gpt_array disk_sectors fs_name type_guid =
     (let a = replicate 16384 0;
          a = put 0 (case type_guid of Some g \<Rightarrow> g | None \<Rightarrow> GUID_LINUX_FILESYSTEM) a;
          a = put 16 (replicate 16 0xAA) a;
          a = put64 32 2048 a;
          a = put64 40 (disk_sectors - 34) a in
      case fs_name of None \<Rightarrow> a | Some nm \<Rightarrow> put 56 (gpt_name_bytes nm) a)"

definition protective_mbr :: "u64 \<Rightarrow> u8 list" where
  "protective_mbr disk_sectors =
     (let s = put 450 [0xEE] (replicate 512 0);
          s = put32 454 1 s;
          s = put32 458 (if 0xFFFFFFFF < disk_sectors then 0xFFFFFFFF else ucast (disk_sectors - 1)) s in
      put 510 [0x55, 0xAA] s)"

definition gpt_header :: "env \<Rightarrow> u64 \<Rightarrow> u64 \<Rightarrow> u64 \<Rightarrow> u64 \<Rightarrow> u32 \<Rightarrow> u8 list" where
  "gpt_header e disk_sectors my_lba alternate_lba partition_entry_lba array_crc =
     (let h = put 0 (map of_char ''EFI PART'') (replicate 512 0);
          h = put32 8 0x00010000 h;
          h = put32 12 92 h;
          h = put64 24 my_lba h;
          h = put64 32 alternate_lba h;
          h = put64 40 34 h;
          h = put64 48 (disk_sectors - 34) h;
          h = put 56 (replicate 16 0xCC) h;
          h = put64 72 partition_entry_lba h;
          h = put32 80 128 h;
          h = put32 84 128 h;
          h = put32 88 array_crc h;
          h = put32 16 0 h in
      put32 16 (crc32 e (region e 92 h)) h)"

definition gpt_install :: "env \<Rightarrow> 'd driver \<Rightarrow> u8 list option \<Rightarrow> u8 list option \<Rightarrow> 'd disk_state \<Rightarrow> 'd disk_state option" where
  "gpt_install e drv fs_name type_guid st =
     (let disk_sectors = total_sectors st in
      if disk_sectors < 68 then Some st
      else if \<not> dma_granted e 512 \<or> \<not> dma_granted e 16384 then None
      else
        let array = gpt_array disk_sectors fs_name type_guid;
            array_crc = crc32 e (region e 16384 array);
            d = snd (write_sectors drv 0 1 (protective_mbr disk_sectors) (drive st));
            d = snd (write_sectors drv 2 32 array d);
            d = snd (write_sectors drv (ucast (disk_sectors - 33)) 32 array d);
            d = snd (write_sectors drv 1 1 (gpt_header e disk_sectors 1 (disk_sectors - 1) 2 array_crc) d);
            d = snd (write_sectors drv (ucast (disk_sectors - 1)) 1 (gpt_header e disk_sectors (disk_sectors - 1) 1 (disk_sectors - 33) array_crc) d) in
        Some (st\<lparr>drive := d\<rparr>))"

section \<open>Discovery\<close>

definition generic_disk_init :: "env \<Rightarrow> 'd driver \<Rightarrow> 'd disk_state \<Rightarrow> 'd disk_state option" where
  "generic_disk_init e drv st =
     (case mbr_parse e drv st of None \<Rightarrow> None | Some (code, st) \<Rightarrow> if code = 2 then gpt_parse e drv st else Some st)"

partial_function (option) free_parts :: "(u64 \<Rightarrow> partition_t) \<Rightarrow> u64 \<Rightarrow> u64 list \<Rightarrow> u64 list option" where
  "free_parts ps current acc = (if current \<noteq> 0 then free_parts ps (p_next (ps current)) (acc @ [current]) else Some acc)"

definition partition_refresh :: "env \<Rightarrow> 'd driver \<Rightarrow> 'd disk_state \<Rightarrow> 'd disk_state option" where
  "partition_refresh e drv st =
     (case free_parts (parts st) (partitions st) (freed st) of None \<Rightarrow> None | Some fs \<Rightarrow>
      let st = st\<lparr>freed := fs, partitions := 0\<rparr> in
      if \<not> dma_granted e 512 then Some st
      else case read_sectors drv 0 1 (drive st) of (code, sector, d) \<Rightarrow>
        let st = st\<lparr>drive := d\<rparr> in
        if code \<noteq> 0 then Some st
        else case read_sectors drv 1 1 (drive st) of (code, sector, d) \<Rightarrow>
          let st = st\<lparr>drive := d\<rparr> in
          if code = 0 \<and> slice 0 8 sector = map of_char ''EFI PART'' then gpt_parse e drv st
          else map_option snd (mbr_parse e drv st))"

section \<open>Buffer lemmas\<close>

lemma length_put [simp]: "off + length bs \<le> length buf \<Longrightarrow> length (put off bs buf) = length buf"
  by (simp add: put_def)

lemma slice_put_same: "off + length bs \<le> length buf \<Longrightarrow> slice off (length bs) (put off bs buf) = bs"
  by (simp add: slice_def put_def)

lemma slice_put_other:
  assumes "off + length bs \<le> length buf" "off' + n \<le> off \<or> off + length bs \<le> off'"
  shows "slice off' n (put off bs buf) = slice off' n buf"
  using assms(2)
proof
  assume "off' + n \<le> off"
  then show ?thesis using assms(1) by (simp add: slice_def put_def min_def take_drop)
next
  assume a: "off + length bs \<le> off'"
  then have "drop off' (put off bs buf) = drop off' buf" using assms(1) by (simp add: put_def)
  then show ?thesis by (simp add: slice_def)
qed

lemma put_put_same: "length bs = length cs \<Longrightarrow> off + length bs \<le> length buf \<Longrightarrow> put off bs (put off cs buf) = put off bs buf"
  by (simp add: put_def)

lemma put_lengths [simp]:
  "off + 2 \<le> length buf \<Longrightarrow> length (put16 off a buf) = length buf"
  "off + 4 \<le> length buf \<Longrightarrow> length (put32 off b buf) = length buf"
  "off + 8 \<le> length buf \<Longrightarrow> length (put64 off c buf) = length buf"
  by (simp_all only: put16_def put32_def put64_def length_put length_le_bytes)

lemma slice_fields:
  "off + 4 \<le> length buf \<Longrightarrow> off' + n \<le> off \<or> off + 4 \<le> off' \<Longrightarrow> slice off' n (put32 off b buf) = slice off' n buf"
  "off + 8 \<le> length buf \<Longrightarrow> off' + n \<le> off \<or> off + 8 \<le> off' \<Longrightarrow> slice off' n (put64 off c buf) = slice off' n buf"
  by (simp_all only: put32_def put64_def slice_put_other length_le_bytes)

lemma get_put_same:
  "off + 4 \<le> length buf \<Longrightarrow> get32 off (put32 off b buf) = b" "off + 8 \<le> length buf \<Longrightarrow> get64 off (put64 off c buf) = c"
proof -
  show "get32 off (put32 off b buf) = b" if "off + 4 \<le> length buf"
    using slice_put_same [of off "le_bytes 4 (unat b)" buf] that unfolding get32_def put32_def
    by (simp only: length_le_bytes le_value_bytes) (simp add: unat_of_nat)
  show "get64 off (put64 off c buf) = c" if "off + 8 \<le> length buf"
    using slice_put_same [of off "le_bytes 8 (unat c)" buf] that unfolding get64_def put64_def
    by (simp only: length_le_bytes le_value_bytes) (simp add: unat_of_nat)
qed

lemma put32_zero: "off + 4 \<le> length buf \<Longrightarrow> put32 off a (put32 off b buf) = put32 off a buf"
  unfolding put32_def by (rule put_put_same) (simp_all del: le_bytes_numeral)

lemma slice_replicate: "off + n \<le> m \<Longrightarrow> slice off n (replicate m x) = replicate n x"
  by (simp add: slice_def min_def)

lemma slice_all: "length buf = n \<Longrightarrow> slice 0 n buf = buf"
  by (simp add: slice_def)

lemma region_all: "n \<le> length buf \<Longrightarrow> region e n buf = take n buf"
  by (rule nth_equalityI) (simp_all add: region_def)

lemma bytes_from_slice: "off + n \<le> length buf \<Longrightarrow> bytes_from e off n buf = slice off n buf"
  by (simp add: bytes_from_def region_all slice_def take_drop add.commute)

lemma slice_slice: "a + m \<le> n \<Longrightarrow> slice a m (slice off n buf) = slice (off + a) m buf"
  by (simp add: slice_def take_drop min_def add.commute)

lemma concat_sectors:
  "length buf = n * 512 \<Longrightarrow> concat (map (\<lambda>k. slice (k * 512) 512 buf) [0..<n]) = buf"
proof (induction n arbitrary: buf)
  case (Suc n)
  have "concat (map (\<lambda>k. slice (k * 512) 512 (take (n * 512) buf)) [0..<n]) = take (n * 512) buf"
    using Suc.prems by (intro Suc.IH) simp
  moreover have "slice (k * 512) 512 (take (n * 512) buf) = slice (k * 512) 512 buf" if "k < n" for k
    using that Suc_leI [OF that] mult_le_mono1 [of "Suc k" n 512] by (simp add: slice_def take_drop min_def)
  ultimately have "concat (map (\<lambda>k. slice (k * 512) 512 buf) [0..<n]) = take (n * 512) buf"
    by (metis (mono_tags, lifting) atLeast_upt lessThan_iff map_cong)
  then show ?case using Suc.prems by (simp add: slice_def)
qed simp

section \<open>What a drive promises\<close>

text \<open>
  \<open>sec d k\<close> is the content of sector \<open>k\<close>. Reads below \<open>2 ^ 32\<close> return the sectors, writes replace them.
\<close>

definition drive_ok :: "'d driver \<Rightarrow> ('d \<Rightarrow> nat \<Rightarrow> u8 list) \<Rightarrow> bool" where
  "drive_ok drv sec \<longleftrightarrow>
     (\<forall>d lba n. n < 2 ^ 32 \<longrightarrow> (\<exists>d'. read_sectors drv lba (of_nat n) d = (0, concat (map (\<lambda>k. sec d (unat lba + k)) [0..<n]), d') \<and> sec d' = sec d)) \<and>
     (\<forall>d lba n buf. length buf = n * 512 \<longrightarrow> n < 2 ^ 32 \<longrightarrow> (\<exists>d'. write_sectors drv lba (of_nat n) buf d = (0, d') \<and>
        sec d' = (\<lambda>k. if unat lba \<le> k \<and> k < unat lba + n then slice ((k - unat lba) * 512) 512 buf else sec d k)))"

lemma drive_read:
  assumes "drive_ok drv sec" "n < 2 ^ 32"
  obtains d' where "read_sectors drv lba (of_nat n) d = (0, concat (map (\<lambda>k. sec d (unat lba + k)) [0..<n]), d')" "sec d' = sec d"
  using assms unfolding drive_ok_def by blast

lemma drive_write:
  assumes "drive_ok drv sec" "length buf = n * 512" "n < 2 ^ 32"
  shows "sec (snd (write_sectors drv lba (of_nat n) buf d)) =
    (\<lambda>k. if unat lba \<le> k \<and> k < unat lba + n then slice ((k - unat lba) * 512) 512 buf else sec d k)"
proof -
  obtain d' where "write_sectors drv lba (of_nat n) buf d = (0, d')"
    "sec d' = (\<lambda>k. if unat lba \<le> k \<and> k < unat lba + n then slice ((k - unat lba) * 512) 512 buf else sec d k)"
    using assms unfolding drive_ok_def by blast
  then show ?thesis by simp
qed


section \<open>The tables \<open>gpt_install\<close> writes\<close>

lemma field_skips:
  "off + 4 \<le> length buf \<Longrightarrow> off' + 4 \<le> off \<or> off + 4 \<le> off' \<Longrightarrow> get32 off' (put32 off b buf) = get32 off' buf"
  "off + 8 \<le> length buf \<Longrightarrow> off' + 4 \<le> off \<or> off + 8 \<le> off' \<Longrightarrow> get32 off' (put64 off c buf) = get32 off' buf"
  "off + 4 \<le> length buf \<Longrightarrow> off' + 8 \<le> off \<or> off + 4 \<le> off' \<Longrightarrow> get64 off' (put32 off b buf) = get64 off' buf"
  "off + 8 \<le> length buf \<Longrightarrow> off' + 8 \<le> off \<or> off + 8 \<le> off' \<Longrightarrow> get64 off' (put64 off c buf) = get64 off' buf"
  "off + length bs \<le> length buf \<Longrightarrow> off' + 4 \<le> off \<or> off + length bs \<le> off' \<Longrightarrow> get32 off' (put off bs buf) = get32 off' buf"
  "off + length bs \<le> length buf \<Longrightarrow> off' + 8 \<le> off \<or> off + length bs \<le> off' \<Longrightarrow> get64 off' (put off bs buf) = get64 off' buf"
  by (simp_all only: get32_def get64_def slice_fields slice_put_other)

lemma length_gpt_header: "length (gpt_header e n a b c x) = 512"
  by (simp add: gpt_header_def Let_def)

lemma gpt_header_fields:
  fixes e n a b c x
  defines "h \<equiv> gpt_header e n a b c x"
  shows "slice 0 8 h = map of_char ''EFI PART''" "get32 12 h = 92" "get64 72 h = c" "get32 80 h = 128" "get32 84 h = 128" "get32 88 h = x"
    "crc32 e (region e 92 (put32 16 0 h)) = get32 16 h"
proof -
  define g where "g = put 56 (replicate 16 0xCC) (put64 48 (n - 34) (put64 40 34 (put64 32 b (put64 24 a (put32 12 92 (put32 8 0x00010000
    (put 0 (map of_char ''EFI PART'') (replicate 512 0))))))))"
  define f where "f = put32 88 x (put32 84 128 (put32 80 128 (put64 72 c g)))"
  define v where "v = crc32 e (region e 92 (put32 16 0 f))"
  have h: "h = put32 16 v (put32 16 0 f)" unfolding h_def gpt_header_def Let_def v_def f_def g_def by (rule refl)
  have lg: "length g = 512" by (simp add: g_def)
  then have lf: "length f = 512" by (simp add: f_def)
  have e: "slice 0 8 (put 0 (map of_char ''EFI PART'') (replicate 512 (0::u8))) = map of_char ''EFI PART''"
    using slice_put_same [of 0 "map of_char ''EFI PART''" "replicate 512 (0::u8)"] by (simp del: list.map of_char_def add: eval_nat_numeral)
  have g: "get32 12 g = 92" "slice 0 8 g = map of_char ''EFI PART''"
    unfolding g_def by (simp_all add: field_skips get_put_same slice_fields slice_put_other e del: list.map of_char_def)
  show "get32 12 h = 92" "get64 72 h = c" "get32 80 h = 128" "get32 84 h = 128" "get32 88 h = x"
    unfolding h using lf lg g(1) by (simp_all add: field_skips f_def get_put_same)
  show "slice 0 8 h = map of_char ''EFI PART''"
    unfolding h using lf lg g(2) by (simp add: slice_fields slice_put_other f_def del: list.map of_char_def)
  show "crc32 e (region e 92 (put32 16 0 h)) = get32 16 h"
    unfolding h using lf by (simp add: put32_zero get_put_same v_def)
qed

lemma protective_fields: "length (protective_mbr n) = 512" "get16 510 (protective_mbr n) = 0xAA55" "mbr_type 0 (protective_mbr n) = 0xEE"
proof -
  define s where "s = put32 458 (if 0xFFFFFFFF < n then 0xFFFFFFFF else ucast (n - 1)) (put32 454 1 (put 450 [0xEE] (replicate 512 0)))"
  have p: "protective_mbr n = put 510 [0x55, 0xAA] s" by (simp add: protective_mbr_def s_def Let_def)
  have l: "length s = 512" by (simp add: s_def)
  show "length (protective_mbr n) = 512" by (simp add: p l)
  have "slice 510 2 (put 510 [0x55, 0xAA] s) = [0x55, 0xAA]" using slice_put_same [of 510 "[0x55, 0xAA]" s] l by (simp add: numeral_2_eq_2)
  then show "get16 510 (protective_mbr n) = 0xAA55" by (simp add: p get16_def)
  have "slice 450 1 (protective_mbr n) = slice 450 1 (put 450 [0xEE] (replicate 512 (0::u8)))"
    unfolding p using l by (simp add: slice_put_other) (simp add: s_def slice_fields)
  also have "\<dots> = [0xEE]" using slice_put_same [of 450 "[0xEE]" "replicate 512 (0::u8)"] by simp
  finally have "protective_mbr n ! 450 = 0xEE" using \<open>length (protective_mbr n) = 512\<close> by (simp add: slice_def take_Suc_conv_app_nth [of 0] hd_drop_conv_nth take_Suc)
  then show "mbr_type 0 (protective_mbr n) = 0xEE" by (simp add: mbr_type_def)
qed

lemma name_length: "length (gpt_name_bytes nm) \<le> 72"
proof -
  have "length (gpt_name_bytes nm) = 2 * length (take 36 nm)"
    unfolding gpt_name_bytes_def by (induction "take 36 nm") (simp_all add: length_concat o_def sum_list_triv)
  then show ?thesis by simp
qed

lemma gpt_array_fields:
  fixes n nm tg
  defines "a \<equiv> gpt_array n nm tg" and "g \<equiv> (case tg of Some g \<Rightarrow> g | None \<Rightarrow> GUID_LINUX_FILESYSTEM)"
  assumes "length g = 16"
  shows "length a = 16384" "slice 0 16 a = g" "get64 32 a = 2048" "get64 40 a = n - 34"
    "\<And>i. 1 \<le> i \<Longrightarrow> i < 128 \<Longrightarrow> slice (i * 128) 16 a = replicate 16 0"
proof -
  define b where "b = put64 40 (n - 34) (put64 32 2048 (put 16 (replicate 16 0xAA) (put 0 g (replicate 16384 0))))"
  have lb: "length b = 16384" using assms(3) by (simp add: b_def)
  have a: "a = (case nm of None \<Rightarrow> b | Some nm \<Rightarrow> put 56 (gpt_name_bytes nm) b)"
    unfolding a_def gpt_array_def b_def g_def Let_def by (rule refl)
  have nl: "56 + length (gpt_name_bytes x) \<le> 16384" "56 + length (gpt_name_bytes x) \<le> 128" for x using name_length [of x] by simp_all
  show "length a = 16384" using nl lb by (cases nm) (simp_all add: a)
  have low: "off + k \<le> 56 \<Longrightarrow> slice off k a = slice off k b" for off k using nl lb by (cases nm) (simp_all add: a slice_put_other)
  have high: "128 \<le> off \<Longrightarrow> slice off k a = slice off k b" for off k
  proof (cases nm)
    case (Some x)
    moreover assume "128 \<le> off"
    ultimately show ?thesis using nl(1) [of x] order_trans [OF nl(2), of off x] lb by (simp add: a slice_put_other)
  qed (simp add: a)
  have "slice 0 16 b = slice 0 16 (put 0 g (replicate 16384 0))" using assms(3) by (simp add: b_def slice_fields slice_put_other)
  then show "slice 0 16 a = g" using low [of 0 16] slice_put_same [of 0 g "replicate 16384 0"] assms(3) by simp
  show "get64 32 a = 2048" "get64 40 a = n - 34"
    using low [of 32 8] low [of 40 8] assms(3) field_skips get_put_same by (simp_all add: get64_def [of _ a]) (simp_all add: get64_def [symmetric] b_def field_skips get_put_same)
  fix i :: nat assume i: "1 \<le> i" "i < 128"
  have "slice (i * 128) 16 b = slice (i * 128) 16 (replicate 16384 0)" using i assms(3) by (simp add: b_def slice_fields slice_put_other)
  then show "slice (i * 128) 16 a = replicate 16 0" using high [of "i * 128" 16] i by (simp add: slice_replicate)
qed

lemma guid_empty: "GUID_EMPTY = replicate 16 0"
  by (simp add: GUID_EMPTY_def GUIDE_PARSE_def eval_nat_numeral)

lemma entries_empty:
  "(\<And>i. j \<le> i \<Longrightarrow> i < j + k \<Longrightarrow> bytes_from e (unat (of_nat i * es)) 16 a = GUID_EMPTY) \<Longrightarrow> gpt_entries e a es j k st = Some st"
  by (induction k arbitrary: j) (simp_all add: Let_def)

lemma installed_sectors:
  fixes st :: "'d disk_state"
  assumes drv: "drive_ok drv sec" and n: "68 \<le> total_sectors st" "unat (total_sectors st) < 2 ^ 32" and dma: "dma_granted e 512" "dma_granted e 16384"
    and g: "length (case tg of Some g \<Rightarrow> g | None \<Rightarrow> GUID_LINUX_FILESYSTEM) = 16"
  shows "\<exists>d. gpt_install e drv nm tg st = Some (st\<lparr>drive := d\<rparr>) \<and>
    sec d 0 = protective_mbr (total_sectors st) \<and>
    sec d 1 = gpt_header e (total_sectors st) 1 (total_sectors st - 1) 2 (crc32 e (gpt_array (total_sectors st) nm tg)) \<and>
    (\<forall>k<32. sec d (2 + k) = slice (k * 512) 512 (gpt_array (total_sectors st) nm tg))"
proof -
  let ?n = "total_sectors st"
  define a where "a = gpt_array ?n nm tg"
  have la: "length a = 32 * 512" unfolding a_def by (simp add: gpt_array_fields(1) [OF g])
  have ra: "region e 16384 a = a" using la by (simp add: region_all)
  have nn: "68 \<le> unat ?n" using n(1) by (simp add: word_le_nat_alt)
  have le: "33 \<le> ?n" "1 \<le> ?n" using nn by (simp_all add: word_le_nat_alt)
  have "unat (?n - 33) = unat ?n - 33" "unat (?n - 1) = unat ?n - 1" using le by (simp_all add: unat_sub)
  then have lba: "unat (ucast (?n - 33) :: u32) = unat ?n - 33" "unat (ucast (?n - 1) :: u32) = unat ?n - 1"
    using n(2) by (simp_all add: unsigned_ucast_eq take_bit_eq_mod)
  note W = drive_write [OF drv, where n = 1, simplified] drive_write [OF drv, where n = 32, simplified]
  define h1 where "h1 = gpt_header e ?n 1 (?n - 1) 2 (crc32 e a)"
  define h2 where "h2 = gpt_header e ?n (?n - 1) 1 (?n - 33) (crc32 e a)"
  define m where "m = protective_mbr ?n"
  have len: "length h1 = 512" "length h2 = 512" "length m = 512" by (simp_all add: h1_def h2_def m_def length_gpt_header protective_fields)
  define d1 where "d1 = snd (write_sectors drv 0 1 m (drive st))"
  define d2 where "d2 = snd (write_sectors drv 2 32 a d1)"
  define d3 where "d3 = snd (write_sectors drv (ucast (?n - 33)) 32 a d2)"
  define d4 where "d4 = snd (write_sectors drv 1 1 h1 d3)"
  define d5 where "d5 = snd (write_sectors drv (ucast (?n - 1)) 1 h2 d4)"
  have "gpt_install e drv nm tg st = Some (st\<lparr>drive := d5\<rparr>)"
    using n(1) dma by (simp add: gpt_install_def Let_def a_def [symmetric] ra h1_def [symmetric] h2_def [symmetric] m_def [symmetric]
      d1_def [symmetric] d2_def [symmetric] d3_def [symmetric] d4_def [symmetric] d5_def [symmetric])
  moreover have s: "sec d1 = (\<lambda>k. if k < 1 then slice (k * 512) 512 m else sec (drive st) k)"
    "sec d2 = (\<lambda>k. if 2 \<le> k \<and> k < 34 then slice ((k - 2) * 512) 512 a else sec d1 k)"
    "sec d3 = (\<lambda>k. if unat ?n - 33 \<le> k \<and> k < unat ?n - 33 + 32 then slice ((k - (unat ?n - 33)) * 512) 512 a else sec d2 k)"
    "sec d4 = (\<lambda>k. if 1 \<le> k \<and> k < Suc (Suc 0) then slice ((k - 1) * 512) 512 h1 else sec d3 k)"
    "sec d5 = (\<lambda>k. if unat ?n - 1 \<le> k \<and> k < unat ?n - 1 + 1 then slice ((k - (unat ?n - 1)) * 512) 512 h2 else sec d4 k)"
    unfolding d1_def d2_def d3_def d4_def d5_def using W len la lba by (simp_all cong: if_cong)
  have "sec d5 0 = m" using nn len(3) unfolding s by (simp add: slice_all)
  moreover have "\<not> unat ?n - Suc 0 \<le> Suc 0" using nn by simp
  then have "sec d5 1 = h1" using nn len(1) unfolding s by (simp add: slice_all)
  moreover have "sec d5 (2 + k) = slice (k * 512) 512 a" if "k < 32" for k
  proof -
    have "\<not> unat ?n - Suc 0 \<le> Suc (Suc k)" "\<not> unat ?n - 33 \<le> Suc (Suc k)" using nn that by auto
    then show ?thesis using that unfolding s by simp
  qed
  ultimately show ?thesis unfolding a_def h1_def m_def by blast
qed


section \<open>Properties\<close>

lemma sector_count_value:
  fixes n :: u64
  assumes "68 \<le> n" and "unat n < 2 ^ 32"
  shows "2082 \<le> n \<longrightarrow> 2048 + unat (n - 34 - 2048 + 1) = unat n - 34 + 1"
    and "n \<le> 2080 \<longrightarrow> 2 ^ 63 < unat (n - 34 - 2048 + 1)"
proof -
  have e: "n - 34 - 2048 + 1 = n - 2081" by simp
  show "2082 \<le> n \<longrightarrow> 2048 + unat (n - 34 - 2048 + 1) = unat n - 34 + 1"
    unfolding e by (auto simp: word_le_nat_alt unat_sub)
  show "n \<le> 2080 \<longrightarrow> 2 ^ 63 < unat (n - 34 - 2048 + 1)"
  proof
    assume n: "n \<le> 2080"
    then have "n = of_nat (unat n)" "unat n \<le> 2080" by (simp_all add: word_le_nat_alt)
    then have "unat (n - 2081) = 2 ^ 64 - (2081 - unat n)"
      by (simp add: unat_sub_if' word_less_nat_alt)
    then show "2 ^ 63 < unat (n - 34 - 2048 + 1)" unfolding e using \<open>unat n \<le> 2080\<close> by simp
  qed
qed

text \<open>
  C23. A disk of 68 sectors or more (below the 32-bit limit of the driver interface) on which
  \<open>gpt_install\<close> has written its tables is recognised by \<open>generic_disk_init\<close>, on a drive that returns
  what was written, with memory for the buffers and the partition, for every checksum function and when
  no partition is registered yet: the protective boot record leads to the GUID table, both checksums
  agree, and exactly one partition with the requested type is registered, at sector 2048; the link of
  the new partition keeps what was in the heap memory. With 2082 sectors or more the partition ends at
  the last usable sector; with 2080 or fewer its sector count wraps around to more than \<open>2 ^ 63\<close>. The
  all-zero type marks an unused entry, and nothing is registered for it.
\<close>

theorem gpt_install_roundtrip:
  assumes "drive_ok drv sec" and "68 \<le> total_sectors st" and "unat (total_sectors st) < 2 ^ 32"
    and "dma_granted e 512" and "dma_granted e 16384"
    and "g = (case tg of Some g \<Rightarrow> g | None \<Rightarrow> GUID_LINUX_FILESYSTEM)" and "length g = 16"
    and "partitions st = 0" and "malloc_addr e (mallocs st) = p" and "p \<noteq> 0"
  shows "\<exists>st1 st2. gpt_install e drv nm tg st = Some st1 \<and> generic_disk_init e drv st1 = Some st2 \<and>
    (g = GUID_EMPTY \<longrightarrow> partitions st2 = 0 \<and> parts st2 = parts st) \<and>
    (g \<noteq> GUID_EMPTY \<longrightarrow> partitions st2 = p \<and>
      parts st2 = (parts st)(p := (parts st p)\<lparr>start_lba := 2048, sector_count := total_sectors st - 34 - 2048 + 1,
        partition_id := 0, type_id := 0, guid := g, is_gpt := True\<rparr>) \<and>
      (2082 \<le> total_sectors st \<longrightarrow> 2048 + unat (sector_count (parts st2 p)) = unat (total_sectors st) - 34 + 1) \<and>
      (total_sectors st \<le> 2080 \<longrightarrow> 2 ^ 63 < unat (sector_count (parts st2 p))))"
proof -
  let ?n = "total_sectors st"
  define a where "a = gpt_array ?n nm tg"
  define h where "h = gpt_header e ?n 1 (?n - 1) 2 (crc32 e a)"
  note A = gpt_array_fields [where n = ?n and nm = nm and tg = tg, folded assms(6) a_def, OF assms(7)]
  note H = gpt_header_fields [where e = e and n = ?n and a = 1 and b = "?n - 1" and c = 2 and x = "crc32 e a", folded h_def]
  note M = protective_fields [of ?n]
  obtain d where d: "gpt_install e drv nm tg st = Some (st\<lparr>drive := d\<rparr>)" "sec d 0 = protective_mbr ?n" "sec d 1 = h"
    "\<forall>k<32. sec d (2 + k) = slice (k * 512) 512 a"
    using installed_sectors [OF assms(1-5) assms(7) [unfolded assms(6)], of nm] unfolding a_def h_def by blast
  have one: "(1::nat) < 2 ^ 32" "(32::nat) < 2 ^ 32" by simp_all
  obtain e1 where r0: "read_sectors drv 0 1 d = (0, protective_mbr ?n, e1)" "sec e1 = sec d"
    using drive_read [OF assms(1) one(1), of 0 d] d(2) by auto
  obtain e2 where r1: "read_sectors drv 1 1 e1 = (0, h, e2)" "sec e2 = sec d"
    using drive_read [OF assms(1) one(1), of 1 e1] d(3) r0(2) by auto
  have "map (\<lambda>k. sec d (2 + k)) [0..<32] = map (\<lambda>k. slice (k * 512) 512 a) [0..<32]" using d(4) by (intro map_cong) auto
  moreover have "concat (map (\<lambda>k. slice (k * 512) 512 a) [0..<32]) = a" using A(1) by (intro concat_sectors) simp
  ultimately have arr: "concat (map (\<lambda>k. sec d (2 + k)) [0..<32]) = a" by metis
  obtain e3 where r2: "read_sectors drv 2 32 e2 = (0, a, e3)"
    using drive_read [OF assms(1) one(2), of 2 e2] arr r1(2) by auto
  have mbr: "mbr_parse e drv (st\<lparr>drive := d\<rparr>) = Some (2, st\<lparr>drive := e1\<rparr>)"
    using assms(4) M r0 by (auto simp: mbr_parse_def Let_def intro: bexI [of _ 0])
  define st3 where "st3 = st\<lparr>drive := e3\<rparr>"
  have blank: "bytes_from e (unat (of_nat i * 128 :: u32)) 16 a = GUID_EMPTY" if "1 \<le> i" "i < 128" for i
  proof -
    have "unat (of_nat i * 128 :: u32) = i * 128" using that by (simp add: unat_mult_small unat_of_nat_small)
    then show ?thesis using that A(1) A(5) [of i] by (simp add: bytes_from_slice guid_empty)
  qed
  have first: "bytes_from e 0 16 a = g" "get64 0 (bytes_from e 32 8 a) = 2048" "get64 0 (bytes_from e 40 8 a) = ?n - 34"
    using A by (simp_all add: bytes_from_slice) (simp_all add: get64_def slice_slice)
  have none: "gpt_entries e a 128 0 128 st3 = Some st3" if "g = GUID_EMPTY"
  proof (rule entries_empty)
    fix i :: nat
    assume "0 \<le> i" "i < 0 + 128"
    then show "bytes_from e (unat (of_nat i * 128 :: u32)) 16 a = GUID_EMPTY"
      using blank [of i] first(1) that by (cases i) simp_all
  qed
  have some: "gpt_entries e a 128 0 128 st3 = Some st2" if "g \<noteq> GUID_EMPTY" "st2 = (set_part p (\<lambda>q. q\<lparr>start_lba := 2048,
      sector_count := ?n - 34 - 2048 + 1, partition_id := 0, type_id := 0, is_gpt := True, guid := g\<rparr>)
      (st3\<lparr>mallocs := Suc (mallocs st)\<rparr>))\<lparr>partitions := p\<rparr>" for st2
  proof -
    have rest: "gpt_entries e a 128 1 127 st2 = Some st2"
      by (rule entries_empty) (use blank in simp)
    have step: "gpt_entries e a 128 0 128 st3 = gpt_entries e a 128 0 (Suc 127) st3" by simp
    show ?thesis
      unfolding step gpt_entries.simps(2) using rest that assms(8-10) first
      by (simp add: Let_def malloc_part_def partition_register_def st3_def set_part_def)
  qed
  have parse: "gpt_parse e drv (st\<lparr>drive := e1\<rparr>) = gpt_entries e a 128 0 128 st3"
    using assms(4,5) H r1(1) r2 A(1) by (simp add: gpt_parse_def Let_def st3_def region_all)
  show ?thesis
  proof (cases "g = GUID_EMPTY")
    case True
    then show ?thesis using d(1) mbr parse none assms(8) by (auto simp: generic_disk_init_def st3_def)
  next
    case False
    then show ?thesis using d(1) mbr parse some [OF False refl] sector_count_value [OF assms(2,3)]
      by (auto simp: generic_disk_init_def set_part_def st3_def)
  qed
qed

text \<open>A drive in memory: the sectors written so far over blank ones.\<close>

definition ram_driver :: "(nat \<Rightarrow> u8 list) driver" where
  "ram_driver = \<lparr>read_sectors = (\<lambda>lba n d. (0, concat (map (\<lambda>k. d (unat lba + k)) [0..<unat n]), d)),
     write_sectors = (\<lambda>lba n buf d. (0, \<lambda>k. if unat lba \<le> k \<and> k < unat lba + unat n then slice ((k - unat lba) * 512) 512 buf else d k))\<rparr>"

lemma ram_drive_ok: "drive_ok ram_driver (\<lambda>d. d)"
  by (simp add: drive_ok_def ram_driver_def unat_of_nat_small)

theorem gpt_install_roundtrip_witness:
  "\<exists>st1 st2. gpt_install \<lparr>dma_granted = (\<lambda>_. True), malloc_addr = (\<lambda>_. 0x5000), beyond = (\<lambda>_. 0), crc32 = (\<lambda>bs. of_nat (length bs))\<rparr>
      ram_driver None None \<lparr>drive = (\<lambda>_. replicate 512 0), total_sectors = 0x10000, partitions = 0,
        parts = (\<lambda>_. \<lparr>start_lba = 0, sector_count = 0, partition_id = 0, type_id = 0, guid = [], is_gpt = False, p_next = 0\<rparr>), mallocs = 0, freed = []\<rparr> = Some st1 \<and>
    generic_disk_init \<lparr>dma_granted = (\<lambda>_. True), malloc_addr = (\<lambda>_. 0x5000), beyond = (\<lambda>_. 0), crc32 = (\<lambda>bs. of_nat (length bs))\<rparr> ram_driver st1 = Some st2 \<and>
    partitions st2 = 0x5000 \<and> sector_count (parts st2 0x5000) = 0xF7DF"
proof -
  let ?e = "\<lparr>dma_granted = (\<lambda>_. True), malloc_addr = (\<lambda>_. 0x5000), beyond = (\<lambda>_. 0), crc32 = (\<lambda>bs. of_nat (length bs))\<rparr> :: env"
  let ?st = "\<lparr>drive = (\<lambda>_. replicate 512 0), total_sectors = 0x10000, partitions = 0,
        parts = (\<lambda>_. \<lparr>start_lba = 0, sector_count = 0, partition_id = 0, type_id = 0, guid = [], is_gpt = False, p_next = 0\<rparr>), mallocs = 0, freed = []\<rparr> :: (nat \<Rightarrow> u8 list) disk_state"
  have g: "length GUID_LINUX_FILESYSTEM = 16" "GUID_LINUX_FILESYSTEM \<noteq> GUID_EMPTY"
    by (simp_all add: GUID_LINUX_FILESYSTEM_def GUID_EMPTY_def GUIDE_PARSE_def)
  show ?thesis
    using gpt_install_roundtrip [OF ram_drive_ok, of ?st ?e GUID_LINUX_FILESYSTEM None "0x5000" None] g by fastforce
qed

end
