(* ===== verification/Heap.thy ===== *)
theory Heap
  imports Vmm Paging
begin

text \<open>
  The kernel heap (\<^verbatim>\<open>src/mem/heap.c\<close>): a list of blocks with headers, next-fit with splitting and
  coalescing, grown by mapping fresh frames (theory \<open>Pma\<close>) at fresh virtual addresses (theory \<open>Vmm\<close>)
  through the page tables (theory \<open>Paging\<close>), and three pools of fixed-size slots.

  Memory is a store of typed objects by address: the block headers, the links of the free pool slots,
  and the bytes of the user data. The null pointer is 0. The list and the growth are followed as the
  code does, so a search has no value (\<open>None\<close>) when the list has a cycle that misses its start or when
  the heap grows for ever. A panic is the left summand. \<open>vmm_alloc_pages\<close> itself may call \<open>malloc\<close> for
  a node; whether that call succeeds is the argument \<open>node_ok\<close>. The address of the top page table
  (\<^verbatim>\<open>paging_get_pml4\<close>) is part of the state; invalidating the whole TLB changes nothing in it.
\<close>

section \<open>State\<close>

definition HEAP_ALIGNMENT :: u64 where "HEAP_ALIGNMENT = 16"
definition HEAP_MAGIC :: u32 where "HEAP_MAGIC = 0x1E160E06"
definition MIN_SPLIT_SIZE :: u64 where "MIN_SPLIT_SIZE = 16"
definition PAGES_PER_GROWTH :: u64 where "PAGES_PER_GROWTH = 4"
definition KERNEL_HEAP_FLAGS :: u64 where "KERNEL_HEAP_FLAGS = (PTE_PRESENT OR PTE_WRITABLE OR PTE_NX)"
definition PTE_TYPE_HEAP_BLOCK :: u64 where "PTE_TYPE_HEAP_BLOCK = push_bit 9 1"
definition PTE_TYPE_HEAP_POOL :: u64 where "PTE_TYPE_HEAP_POOL = push_bit 9 2"
definition PAGES_2MB :: u64 where "PAGES_2MB = PAGE_SIZE_2MB div PAGE_SIZE"
definition MAX_POOL_PAGES :: nat where "MAX_POOL_PAGES = 64"
definition BH_FREE :: u32 where "BH_FREE = push_bit 0 1"
definition BH_POOL_BLOCK :: u32 where "BH_POOL_BLOCK = push_bit 1 1"
definition BH_BOUNDARY_START :: u32 where "BH_BOUNDARY_START = push_bit 2 1"

text \<open>\<^verbatim>\<open>sizeof(BlockHeader)\<close>.\<close>

definition HEADER_SIZE :: u64 where "HEADER_SIZE = 48"

record BlockHeader =
  magic :: u32
  bflags :: u32
  bsize :: u64
  bin_size :: u64
  used_slots :: u32
  bnext :: u64
  bprev :: u64

record FixedPool =
  block_size :: u64
  free_list :: u64

record heap_state =
  hdr :: "u64 \<Rightarrow> BlockHeader"
  nodes :: "u64 \<Rightarrow> u64"
  bytes :: memory
  head :: u64
  tail :: u64
  last_fit :: u64
  pools :: "FixedPool list"
  pool_page_registry :: "u64 list"
  vmm :: vmm_state
  paging :: paging_state
  pml4_phys :: u64

definition pool_sizes :: "u64 list" where "pool_sizes = [32, 64, 128]"

definition zero_header :: BlockHeader where
  "zero_header = \<lparr>magic = 0, bflags = 0, bsize = 0, bin_size = 0, used_slots = 0, bnext = 0, bprev = 0\<rparr>"

definition BH_IS_FREE :: "BlockHeader \<Rightarrow> bool" where "BH_IS_FREE b \<longleftrightarrow> bflags b AND BH_FREE \<noteq> 0"
definition BH_IS_POOL :: "BlockHeader \<Rightarrow> bool" where "BH_IS_POOL b \<longleftrightarrow> bflags b AND BH_POOL_BLOCK \<noteq> 0"
definition BH_IS_BOUNDARY :: "BlockHeader \<Rightarrow> bool" where "BH_IS_BOUNDARY b \<longleftrightarrow> bflags b AND BH_BOUNDARY_START \<noteq> 0"
definition BH_SET_FREE :: "BlockHeader \<Rightarrow> BlockHeader" where "BH_SET_FREE b = b\<lparr>bflags := bflags b OR BH_FREE\<rparr>"
definition BH_CLR_FREE :: "BlockHeader \<Rightarrow> BlockHeader" where "BH_CLR_FREE b = b\<lparr>bflags := bflags b AND NOT BH_FREE\<rparr>"

definition set_hdr :: "u64 \<Rightarrow> (BlockHeader \<Rightarrow> BlockHeader) \<Rightarrow> heap_state \<Rightarrow> heap_state" where
  "set_hdr p f st = st\<lparr>hdr := (hdr st)(p := f (hdr st p))\<rparr>"

definition pml4_virt :: "heap_state \<Rightarrow> u64" where
  "pml4_virt st = pml4_phys st + hhdm (paging st)"

definition page_of :: "u64 \<Rightarrow> u64" where "page_of p = p AND NOT (PAGE_SIZE - 1)"

section \<open>Pages and lists\<close>

text \<open>The registry of pool pages is the list of its entries in use.\<close>

definition is_pool_page :: "u64 \<Rightarrow> heap_state \<Rightarrow> bool" where
  "is_pool_page page_base st \<longleftrightarrow> page_base \<in> set (pool_page_registry st)"

datatype ptr_type = PTE_STATE_NOINFO | PTE_STATE_HEAP_BLOCK | PTE_STATE_HEAP_POOL

definition get_ptr_type :: "u64 \<Rightarrow> heap_state \<Rightarrow> ptr_type" where
  "get_ptr_type ptr st =
     (if is_pool_page (page_of ptr) st then PTE_STATE_HEAP_POOL
      else if magic (hdr st (ptr - HEADER_SIZE)) = HEAP_MAGIC then PTE_STATE_HEAP_BLOCK
      else PTE_STATE_NOINFO)"

definition list_append :: "u64 \<Rightarrow> heap_state \<Rightarrow> heap_state" where
  "list_append bh st0 =
     (let st1 = set_hdr bh (\<lambda>h. h\<lparr>bnext := 0, bprev := tail st0\<rparr>) st0;
          st2 = (if tail st1 \<noteq> 0 then set_hdr (tail st1) (bnext_update (\<lambda>_. bh)) st1 else st1);
          st3 = st2\<lparr>tail := bh\<rparr> in
      if head st3 = 0 then st3\<lparr>head := bh\<rparr> else st3)"

definition list_unlink :: "u64 \<Rightarrow> heap_state \<Rightarrow> heap_state" where
  "list_unlink bh st0 =
     (let p = bprev (hdr st0 bh);
          st1 = (if p \<noteq> 0 then set_hdr p (bnext_update (\<lambda>_. bnext (hdr st0 bh))) st0 else st0\<lparr>head := bnext (hdr st0 bh)\<rparr>);
          n = bnext (hdr st1 bh);
          st2 = (if n \<noteq> 0 then set_hdr n (bprev_update (\<lambda>_. bprev (hdr st1 bh))) st1 else st1\<lparr>tail := bprev (hdr st1 bh)\<rparr>) in
      if last_fit st2 = bh then st2\<lparr>last_fit := 0\<rparr> else st2)"

section \<open>Growing\<close>

text \<open>\<open>k\<close> pages from the \<open>i\<close>-th on, mapped one by one.\<close>

fun map_pages :: "(u64 \<Rightarrow> u64 \<Rightarrow> u64 \<Rightarrow> u64 \<Rightarrow> paging_state \<Rightarrow> paging_state outcome) \<Rightarrow> u64 \<Rightarrow> u64 \<Rightarrow> u64 \<Rightarrow> u64 \<Rightarrow> u64 \<Rightarrow> nat \<Rightarrow> nat \<Rightarrow> paging_state \<Rightarrow> paging_state outcome" where
  "map_pages mapf sz pml4 virt phys flags i 0 st = Inr st"
| "map_pages mapf sz pml4 virt phys flags i (Suc k) st =
     and_then (mapf pml4 (virt + of_nat i * sz) (phys + of_nat i * sz) flags st) (map_pages mapf sz pml4 virt phys flags (Suc i) k)"

definition set_frames :: "pma_state \<Rightarrow> heap_state \<Rightarrow> heap_state" where
  "set_frames f st = st\<lparr>paging := (paging st)\<lparr>frames := f\<rparr>\<rparr>"

text \<open>The new block at the start of a fresh region.\<close>

definition new_region :: "u64 \<Rightarrow> u64 \<Rightarrow> heap_state \<Rightarrow> heap_state" where
  "new_region virt pages st =
     list_append virt (set_hdr virt (\<lambda>_. zero_header\<lparr>magic := HEAP_MAGIC, bsize := pages * PAGE_SIZE - HEADER_SIZE, bflags := (BH_FREE OR BH_BOUNDARY_START)\<rparr>) st)"

definition heap_grow :: "bool \<Rightarrow> u64 \<Rightarrow> heap_state \<Rightarrow> (heap_state \<times> bool) outcome" where
  "heap_grow node_ok size_needed st =
     (let pages0 = (size_needed + HEADER_SIZE + PAGE_SIZE - 1) div PAGE_SIZE;
          pages = (if pages0 < PAGES_PER_GROWTH then PAGES_PER_GROWTH else pages0) in
      if PAGES_2MB \<le> pages \<and> pages mod PAGES_2MB = 0 then
        (let huge_count = pages div PAGES_2MB in
         case pma_alloc_pages_2mb huge_count (frames (paging st)) of (f, phys) \<Rightarrow>
           let st = set_frames f st in
           if phys = 0 then Inr (st, False)
           else and_then (vmm_alloc_aligned node_ok pages PAGE_SIZE_2MB (vmm st)) (\<lambda>(v, virt).
             let st = st\<lparr>vmm := v\<rparr> in
             if virt = 0 then Inr (set_frames (pma_free_pages phys pages (frames (paging st))) st, False)
             else and_then (map_pages paging_map_2mb_noflush PAGE_SIZE_2MB (pml4_virt st) virt phys (KERNEL_HEAP_FLAGS OR PTE_TYPE_HEAP_BLOCK) 0 (unat huge_count) (paging st))
               (\<lambda>pg. Inr (new_region virt pages (st\<lparr>paging := pg\<rparr>), True))))
      else
        (case pma_alloc_pages pages (frames (paging st)) of (f, phys) \<Rightarrow>
           let st = set_frames f st in
           if phys = 0 then Inr (st, False)
           else and_then (vmm_alloc_pages node_ok pages (vmm st)) (\<lambda>(v, virt).
             let st = st\<lparr>vmm := v\<rparr> in
             if virt = 0 then Inr (set_frames (pma_free_pages phys pages (frames (paging st))) st, False)
             else and_then (map_pages paging_map_page_noflush PAGE_SIZE (pml4_virt st) virt phys (KERNEL_HEAP_FLAGS OR PTE_TYPE_HEAP_BLOCK) 0 (unat pages) (paging st))
               (\<lambda>pg. Inr (new_region virt pages (st\<lparr>paging := pg\<rparr>), True)))))"

section \<open>Initialisation\<close>

fun link_slots :: "u64 \<Rightarrow> u64 \<Rightarrow> nat \<Rightarrow> nat \<Rightarrow> u64 \<times> (u64 \<Rightarrow> u64) \<Rightarrow> u64 \<times> (u64 \<Rightarrow> u64)" where
  "link_slots data sz j 0 fl = fl"
| "link_slots data sz j (Suc k) (fl, ns) =
     (let node = data + of_nat j * sz in link_slots data sz (Suc j) k (node, ns(node := fl)))"

text \<open>One round of the loop in \<^verbatim>\<open>heap_init_pools\<close>, for the slots of size \<open>sz\<close>.\<close>

definition init_pool :: "bool \<Rightarrow> u64 \<Rightarrow> heap_state \<Rightarrow> heap_state outcome" where
  "init_pool node_ok sz st =
     (case pma_alloc_pages 1 (frames (paging st)) of (f, phys) \<Rightarrow>
      let st = set_frames f st in
      if phys = 0 then Inl (Panic ''HEAP'' ''pma failed for pool page'')
      else and_then (vmm_alloc_pages node_ok 1 (vmm st)) (\<lambda>(v, virt).
        let st = st\<lparr>vmm := v\<rparr> in
        if virt = 0 then Inl (Panic ''HEAP'' ''vmm failed for pool page'')
        else and_then (paging_map_page (pml4_virt st) virt phys (KERNEL_HEAP_FLAGS OR PTE_TYPE_HEAP_POOL) (paging st)) (\<lambda>pg.
          let st = st\<lparr>paging := pg\<rparr> in
          if MAX_POOL_PAGES \<le> length (pool_page_registry st) then Inl (Panic ''HEAP'' ''pool page registry exhausted'')
          else
            let st = st\<lparr>pool_page_registry := pool_page_registry st @ [virt]\<rparr>;
                st = list_append virt (set_hdr virt (\<lambda>_. zero_header\<lparr>magic := HEAP_MAGIC, bflags := BH_POOL_BLOCK, bin_size := sz,
                  bsize := PAGE_SIZE - HEADER_SIZE\<rparr>) st);
                slots = unat (bsize (hdr st virt) div sz) in
            case link_slots (virt + HEADER_SIZE) sz 0 slots (0, nodes st) of (fl, ns) \<Rightarrow>
              Inr (st\<lparr>nodes := ns, pools := pools st @ [\<lparr>block_size = sz, free_list = fl\<rparr>]\<rparr>))))"

definition heap_init_pools :: "bool \<Rightarrow> heap_state \<Rightarrow> heap_state outcome" where
  "heap_init_pools node_ok st = fold (\<lambda>sz r. and_then r (init_pool node_ok sz)) pool_sizes (Inr (st\<lparr>pools := []\<rparr>))"

definition heap_init :: "bool \<Rightarrow> u64 \<Rightarrow> heap_state \<Rightarrow> heap_state outcome" where
  "heap_init node_ok sz st =
     (let pages = (sz + PAGE_SIZE - 1) div PAGE_SIZE in
      and_then (vmm_alloc_pages node_ok pages (vmm st)) (\<lambda>(v, virt).
        let st = st\<lparr>vmm := v\<rparr> in
        if virt = 0 then Inl (Panic ''HEAP'' ''vmm failed for heap init'')
        else case pma_alloc_pages pages (frames (paging st)) of (f, phys) \<Rightarrow>
          let st = set_frames f st in
          if phys = 0 then Inl (Panic ''HEAP'' ''pma failed for heap init'')
          else and_then (map_pages paging_map_page_noflush PAGE_SIZE (pml4_virt st) virt phys (KERNEL_HEAP_FLAGS OR PTE_TYPE_HEAP_BLOCK) 0 (unat pages) (paging st)) (\<lambda>pg.
            let st = st\<lparr>paging := pg, head := virt, tail := virt\<rparr>;
                st = set_hdr virt (\<lambda>_. zero_header\<lparr>magic := HEAP_MAGIC, bsize := pages * PAGE_SIZE - HEADER_SIZE, bflags := (BH_FREE OR BH_BOUNDARY_START)\<rparr>) st in
            heap_init_pools node_ok st)))"

section \<open>Allocation\<close>

text \<open>The pools are tried in order; the result 0 means that none has a fitting free slot.\<close>

fun pool_malloc :: "u64 \<Rightarrow> nat \<Rightarrow> FixedPool list \<Rightarrow> heap_state \<Rightarrow> heap_state \<times> u64" where
  "pool_malloc sz i [] st = (st, 0)"
| "pool_malloc sz i (p # ps) st =
     (if sz \<le> block_size p \<and> free_list p \<noteq> 0 then
        (let ptr = free_list p in
         (set_hdr (page_of ptr) (\<lambda>h. h\<lparr>used_slots := used_slots h + 1\<rparr>)
            (st\<lparr>pools := (pools st)[i := p\<lparr>free_list := nodes st ptr\<rparr>]\<rparr>), ptr))
      else pool_malloc sz (Suc i) ps st)"

text \<open>The search from \<open>origin\<close>, once around the list; the result 0 means that no block fits.\<close>

partial_function (option) search_loop :: "u64 \<Rightarrow> u64 \<Rightarrow> u64 \<Rightarrow> bool \<Rightarrow> heap_state \<Rightarrow> u64 outcome option" where
  "search_loop sz origin cur wrapped st =
     (if cur = 0 then Some (Inr 0)
      else if magic (hdr st cur) \<noteq> HEAP_MAGIC then Some (Inl (Panic ''MEMORY CORRUPTION'' ''heap magic invalid''))
      else if BH_IS_FREE (hdr st cur) \<and> \<not> BH_IS_POOL (hdr st cur) \<and> sz \<le> bsize (hdr st cur) then Some (Inr cur)
      else
        let nxt = bnext (hdr st cur) in
        if nxt = 0 \<and> \<not> wrapped then
          (if origin \<noteq> head st then search_loop sz origin (head st) True st else Some (Inr 0))
        else if nxt = origin then Some (Inr 0)
        else search_loop sz origin nxt wrapped st)"

text \<open>Taking \<open>sz\<close> bytes from the free block \<open>cur\<close>.\<close>

definition split_block :: "u64 \<Rightarrow> u64 \<Rightarrow> heap_state \<Rightarrow> heap_state" where
  "split_block cur sz st0 =
     (let split = cur + HEADER_SIZE + sz;
          c = hdr st0 cur;
          st1 = set_hdr split (\<lambda>_. zero_header\<lparr>magic := HEAP_MAGIC, bsize := bsize c - sz - HEADER_SIZE, bflags := BH_FREE,
            bnext := bnext c, bprev := cur\<rparr>) st0;
          st2 = (if bnext c \<noteq> 0 then set_hdr (bnext c) (bprev_update (\<lambda>_. split)) st1 else st1\<lparr>tail := split\<rparr>) in
      set_hdr cur (\<lambda>h. h\<lparr>bnext := split, bsize := sz\<rparr>) st2)"

definition take_block :: "u64 \<Rightarrow> u64 \<Rightarrow> heap_state \<Rightarrow> heap_state \<times> u64" where
  "take_block cur sz st0 =
     (let st1 = (if sz + HEADER_SIZE + MIN_SPLIT_SIZE \<le> bsize (hdr st0 cur) then split_block cur sz st0 else st0) in
      ((set_hdr cur BH_CLR_FREE st1)\<lparr>last_fit := cur\<rparr>, cur + HEADER_SIZE))"

partial_function (option) malloc_retry :: "bool \<Rightarrow> u64 \<Rightarrow> heap_state \<Rightarrow> (heap_state \<times> u64) outcome option" where
  "malloc_retry node_ok sz st =
     (let origin = (if last_fit st \<noteq> 0 then last_fit st else head st) in
      case search_loop sz origin origin False st of
        None \<Rightarrow> None
      | Some (Inl e) \<Rightarrow> Some (Inl e)
      | Some (Inr cur) \<Rightarrow>
          if cur \<noteq> 0 then Some (Inr (take_block cur sz st))
          else case heap_grow node_ok sz st of
            Inl e \<Rightarrow> Some (Inl e)
          | Inr (st', grown) \<Rightarrow> if grown then malloc_retry node_ok sz st' else Some (Inr (st', 0)))"

definition malloc :: "bool \<Rightarrow> u64 \<Rightarrow> heap_state \<Rightarrow> (heap_state \<times> u64) outcome option" where
  "malloc node_ok sz st =
     (if sz = 0 then Some (Inr (st, 0))
      else case pool_malloc sz 0 (pools st) st of
        (st', ptr) \<Rightarrow> if ptr \<noteq> 0 then Some (Inr (st', ptr)) else malloc_retry node_ok (ALIGN HEAP_ALIGNMENT sz) st')"

section \<open>Release\<close>

fun bin_index :: "u64 \<Rightarrow> nat \<Rightarrow> FixedPool list \<Rightarrow> nat option" where
  "bin_index bin i [] = None"
| "bin_index bin i (p # ps) = (if block_size p = bin then Some i else bin_index bin (Suc i) ps)"

text \<open>Taking the slots of one page out of a free list.\<close>

partial_function (option) drop_slots :: "u64 \<Rightarrow> u64 \<Rightarrow> u64 \<Rightarrow> u64 \<Rightarrow> (u64 \<Rightarrow> u64) \<Rightarrow> (u64 \<times> (u64 \<Rightarrow> u64)) option" where
  "drop_slots page_base prev_node curr_node fl ns =
     (if curr_node = 0 then Some (fl, ns)
      else
        let nxt = ns curr_node in
        if page_of curr_node = page_base then
          (if prev_node \<noteq> 0 then drop_slots page_base prev_node nxt fl (ns(prev_node := nxt))
           else drop_slots page_base prev_node nxt nxt ns)
        else drop_slots page_base curr_node nxt fl ns)"

text \<open>The last registry entry takes the place of the removed one.\<close>

function unregister_page :: "u64 \<Rightarrow> nat \<Rightarrow> u64 list \<Rightarrow> u64 list" where
  "unregister_page page_base i reg =
     (if i < length reg then (if reg ! i = page_base then butlast (reg[i := last reg]) else unregister_page page_base (Suc i) reg) else reg)"
  by pat_completeness auto

termination
  by (relation "measure (\<lambda>(p, i, reg). length reg - i)") auto

declare unregister_page.simps [simp del]

definition free_pool :: "u64 \<Rightarrow> heap_state \<Rightarrow> heap_state outcome option" where
  "free_pool ptr st0 =
     (let bh = page_of ptr in
      case bin_index (bin_size (hdr st0 bh)) 0 (pools st0) of
        None \<Rightarrow> Some (Inl (Panic ''MEMORY CORRUPTION'' ''pool bin mismatch''))
      | Some i \<Rightarrow>
          let st1 = st0\<lparr>nodes := (nodes st0)(ptr := free_list (pools st0 ! i)), pools := (pools st0)[i := (pools st0 ! i)\<lparr>free_list := ptr\<rparr>]\<rparr>;
              st2 = (if 0 < used_slots (hdr st1 bh) then set_hdr bh (\<lambda>h. h\<lparr>used_slots := used_slots h - 1\<rparr>) st1 else st1) in
          if used_slots (hdr st2 bh) \<noteq> 0 then Some (Inr st2)
          else
            let page_base = bh in
            map_option (\<lambda>(fl, ns).
              let st3 = st2\<lparr>nodes := ns, pools := (pools st2)[i := (pools st2 ! i)\<lparr>free_list := fl\<rparr>],
                            pool_page_registry := unregister_page page_base 0 (pool_page_registry st2)\<rparr> in
              and_then (paging_get_pte (pml4_virt st3) page_base False (paging st3)) (\<lambda>(pg, pte).
                let st4 = st3\<lparr>paging := pg\<rparr>;
                    phys = (if pte \<noteq> 0 then pt pg pte AND NOT 0xFFF else 0);
                    st5 = list_unlink bh st4;
                    st6 = st5\<lparr>vmm := fst (vmm_free_pages page_base 1 (vmm st5))\<rparr> in
                Inr (if phys \<noteq> 0 then set_frames (pma_free_pages phys 1 (frames (paging st6))) st6 else st6)))
              (drop_slots page_base 0 (free_list (pools st2 ! i)) (free_list (pools st2 ! i)) (nodes st2)))"

definition forward_coalesce :: "u64 \<Rightarrow> heap_state \<Rightarrow> heap_state" where
  "forward_coalesce block st0 =
     (let b = hdr st0 block; fwd = bnext b; f = hdr st0 fwd in
      if fwd \<noteq> 0 \<and> BH_IS_FREE f \<and> \<not> BH_IS_POOL f \<and> \<not> BH_IS_BOUNDARY f then
        (let st1 = set_hdr block (\<lambda>h. h\<lparr>bsize := bsize h + (HEADER_SIZE + bsize f), bnext := bnext f\<rparr>) st0;
             st2 = (if bnext f \<noteq> 0 then set_hdr (bnext f) (bprev_update (\<lambda>_. block)) st1 else st1\<lparr>tail := block\<rparr>) in
         if last_fit st2 = fwd then st2\<lparr>last_fit := block\<rparr> else st2)
      else st0)"

definition backward_coalesce :: "u64 \<Rightarrow> heap_state \<Rightarrow> heap_state" where
  "backward_coalesce block st0 =
     (let b = hdr st0 block; bwd = bprev b; w = hdr st0 bwd in
      if bwd \<noteq> 0 \<and> BH_IS_FREE w \<and> \<not> BH_IS_POOL w \<and> \<not> BH_IS_BOUNDARY b then
        (let st1 = set_hdr bwd (\<lambda>h. h\<lparr>bsize := bsize h + (HEADER_SIZE + bsize b), bnext := bnext b\<rparr>) st0;
             st2 = (if bnext b \<noteq> 0 then set_hdr (bnext b) (bprev_update (\<lambda>_. bwd)) st1 else st1\<lparr>tail := bwd\<rparr>) in
         if last_fit st2 = block then st2\<lparr>last_fit := bwd\<rparr> else st2)
      else st0)"

definition free_block :: "u64 \<Rightarrow> heap_state \<Rightarrow> heap_state outcome" where
  "free_block ptr st =
     (let block = ptr - HEADER_SIZE in
      if magic (hdr st block) \<noteq> HEAP_MAGIC then Inl (Panic ''MEMORY CORRUPTION'' ''heap magic mismatch on free'')
      else Inr (backward_coalesce block (forward_coalesce block (set_hdr block BH_SET_FREE st))))"

definition heap_free :: "u64 \<Rightarrow> ptr_type \<Rightarrow> heap_state \<Rightarrow> heap_state outcome option" where
  "heap_free ptr type st =
     (if ptr = 0 then Some (Inr st)
      else case type of
        PTE_STATE_HEAP_POOL \<Rightarrow> free_pool ptr st
      | PTE_STATE_HEAP_BLOCK \<Rightarrow> Some (free_block ptr st)
      | PTE_STATE_NOINFO \<Rightarrow> Some (Inl (Panic ''MEMORY CORRUPTION'' ''free called with unknown block type'')))"

section \<open>The interface\<close>

text \<open>Sequencing two routines that may not return or may panic.\<close>

definition seq :: "'a outcome option \<Rightarrow> ('a \<Rightarrow> 'b outcome option) \<Rightarrow> 'b outcome option" where
  "seq m f = (case m of None \<Rightarrow> None | Some (Inl e) \<Rightarrow> Some (Inl e) | Some (Inr x) \<Rightarrow> f x)"

definition free :: "u64 \<Rightarrow> heap_state \<Rightarrow> heap_state outcome option" where
  "free ptr st =
     (if ptr = 0 then Some (Inr st)
      else if get_ptr_type ptr st = PTE_STATE_NOINFO then Some (Inl (Panic ''MEMORY CORRUPTION'' ''free on unmanaged pointer''))
      else heap_free ptr (get_ptr_type ptr st) st)"

definition on_bytes :: "(memory \<Rightarrow> (memory \<times> u64) outcome) \<Rightarrow> heap_state \<Rightarrow> heap_state outcome" where
  "on_bytes f st = and_then (f (bytes st)) (\<lambda>(m, _). Inr (st\<lparr>bytes := m\<rparr>))"

text \<open>Moving to a larger block.\<close>

definition move_block :: "bool \<Rightarrow> u64 \<Rightarrow> u64 \<Rightarrow> u64 \<Rightarrow> ptr_type \<Rightarrow> heap_state \<Rightarrow> (heap_state \<times> u64) outcome option" where
  "move_block node_ok ptr new_size old_size type st =
     seq (malloc node_ok new_size st) (\<lambda>(st, new_p).
       if new_p \<noteq> 0 then
         seq (Some (on_bytes (memcpy new_p ptr old_size) st)) (\<lambda>st. seq (heap_free ptr type st) (\<lambda>st. Some (Inr (st, new_p))))
       else Some (Inr (st, 0)))"

text \<open>
  Expanding the block \<open>cur\<close> into the free block behind it. The code writes the new header at \<open>split\<close>
  before it reads \<^verbatim>\<open>old_next->next\<close>. When the block grows by less than a header, the two headers
  overlap and the read sees what was just written: sizes are multiples of 16, so the field at offset 32
  of the old header is the \<^verbatim>\<open>bin_size\<close> of the new one (16 bytes on), its \<^verbatim>\<open>magic\<close> and \<^verbatim>\<open>flags\<close>
  (32 bytes on) or untouched.
\<close>

definition next_under_split :: "u64 \<Rightarrow> u64 \<Rightarrow> BlockHeader \<Rightarrow> BlockHeader \<Rightarrow> u64" where
  "next_under_split old_next split s n =
     (if split = old_next + 16 then bin_size s
      else if split = old_next + 32 then (push_bit 32 (ucast (bflags s)) OR ucast (magic s))
      else bnext n)"

definition expand_block :: "u64 \<Rightarrow> u64 \<Rightarrow> u64 \<Rightarrow> heap_state \<Rightarrow> heap_state" where
  "expand_block cur new_size combined st0 =
     (let old_next = bnext (hdr st0 cur); rest = bnext (hdr st0 old_next) in
      if new_size + HEADER_SIZE + MIN_SPLIT_SIZE \<le> combined then
        (let split = cur + HEADER_SIZE + new_size;
             s = zero_header\<lparr>magic := HEAP_MAGIC, bsize := combined - new_size - HEADER_SIZE, bflags := BH_FREE\<rparr>;
             st1 = set_hdr cur (bsize_update (\<lambda>_. new_size)) st0;
             st2 = set_hdr split (\<lambda>_. s) st1;
             st3 = set_hdr split (\<lambda>h. h\<lparr>bnext := next_under_split old_next split s (hdr st2 old_next), bprev := cur\<rparr>) st2;
             st4 = (if bnext (hdr st3 split) \<noteq> 0 then set_hdr (bnext (hdr st3 split)) (bprev_update (\<lambda>_. split)) st3 else st3\<lparr>tail := split\<rparr>);
             st5 = set_hdr cur (bnext_update (\<lambda>_. split)) st4 in
         if last_fit st5 = old_next then st5\<lparr>last_fit := split\<rparr> else st5)
      else
        (let st1 = (if last_fit st0 = old_next then st0\<lparr>last_fit := cur\<rparr> else st0);
             st2 = set_hdr cur (\<lambda>h. h\<lparr>bsize := combined, bnext := rest\<rparr>) st1 in
         if rest \<noteq> 0 then set_hdr rest (bprev_update (\<lambda>_. cur)) st2 else st2\<lparr>tail := cur\<rparr>))"

definition realloc_block :: "bool \<Rightarrow> u64 \<Rightarrow> u64 \<Rightarrow> heap_state \<Rightarrow> (heap_state \<times> u64) outcome option" where
  "realloc_block node_ok ptr new_size st =
     (let cur = ptr - HEADER_SIZE; c = hdr st cur; nxt = bnext c; n = hdr st nxt; combined = bsize c + HEADER_SIZE + bsize n in
      if magic c \<noteq> HEAP_MAGIC then Some (Inl (Panic ''MEMORY CORRUPTION'' ''realloc on bad magic''))
      else if new_size \<le> bsize c then Some (Inr (st, ptr))
      else if nxt \<noteq> 0 \<and> BH_IS_FREE n \<and> \<not> BH_IS_POOL n \<and> \<not> BH_IS_BOUNDARY n \<and> new_size \<le> combined
      then Some (Inr (expand_block cur new_size combined st, ptr))
      else move_block node_ok ptr new_size (bsize c) PTE_STATE_HEAP_BLOCK st)"

definition realloc :: "bool \<Rightarrow> u64 \<Rightarrow> u64 \<Rightarrow> heap_state \<Rightarrow> (heap_state \<times> u64) outcome option" where
  "realloc node_ok ptr new_size0 st =
     (if ptr = 0 then malloc node_ok new_size0 st
      else if new_size0 = 0 then seq (heap_free ptr (get_ptr_type ptr st) st) (\<lambda>st. Some (Inr (st, 0)))
      else
        let new_size = ALIGN HEAP_ALIGNMENT new_size0 in
        case get_ptr_type ptr st of
          PTE_STATE_HEAP_POOL \<Rightarrow>
            (let old_size = bin_size (hdr st (page_of ptr)) in
             if new_size \<le> old_size then Some (Inr (st, ptr))
             else move_block node_ok ptr new_size old_size PTE_STATE_HEAP_POOL st)
        | PTE_STATE_HEAP_BLOCK \<Rightarrow> realloc_block node_ok ptr new_size st
        | PTE_STATE_NOINFO \<Rightarrow> Some (Inl (Panic ''REALLOC ERROR'' ''realloc on unmanaged pointer'')))"

definition zalloc :: "bool \<Rightarrow> u64 \<Rightarrow> heap_state \<Rightarrow> (heap_state \<times> u64) outcome option" where
  "zalloc node_ok sz st =
     seq (malloc node_ok sz st) (\<lambda>(st, p).
       if p \<noteq> 0 then seq (Some (on_bytes (memset p 0 sz) st)) (\<lambda>st. Some (Inr (st, p))) else Some (Inr (st, p)))"

definition zfree :: "u64 \<Rightarrow> heap_state \<Rightarrow> heap_state outcome option" where
  "zfree ptr st =
     (if ptr = 0 then Some (Inr st)
      else case get_ptr_type ptr st of
        PTE_STATE_NOINFO \<Rightarrow> Some (Inl (Panic ''MEMORY CORRUPTION'' ''zfree on unmanaged pointer''))
      | t \<Rightarrow>
        let sz = (if t = PTE_STATE_HEAP_POOL then bin_size (hdr st (page_of ptr)) else bsize (hdr st (ptr - HEADER_SIZE))) in
        seq (Some (if 0 < sz then on_bytes (memset ptr 0 sz) st else Inr st)) (heap_free ptr t))"

definition sfree :: "u64 \<Rightarrow> u64 \<Rightarrow> heap_state \<Rightarrow> heap_state outcome option" where
  "sfree ptr sz st = free ptr st"

definition szfree :: "u64 \<Rightarrow> u64 \<Rightarrow> heap_state \<Rightarrow> heap_state outcome option" where
  "szfree ptr sz st = zfree ptr st"

end
