(* ===== verification/Paging_Proofs.thy ===== *)
theory Paging_Proofs
  imports Paging
begin

text \<open>
  Correctness of the 4 KB mappings. The tables below an entry form a tree: \<open>ptree st l t S\<close> says that
  the table \<open>t\<close> of level \<open>l\<close> and the tables below it occupy the frames \<open>S\<close>, each frame once. A walk that
  allocates adds fresh frames to the tree and changes no translation; a store to a leaf entry changes
  the translation of the addresses of that page and of no other.
\<close>

section \<open>Entries\<close>

definition present :: "u64 \<Rightarrow> bool" where "present e \<longleftrightarrow> e AND PTE_PRESENT \<noteq> 0"
definition huge :: "u64 \<Rightarrow> bool" where "huge e \<longleftrightarrow> e AND PTE_HUGE_PAGE \<noteq> 0"

lemma and_bit: "(e :: u64) AND 2 ^ n = 0 \<longleftrightarrow> \<not> bit e n \<or> 64 \<le> n"
proof
  assume "e AND 2 ^ n = 0"
  then have "\<not> bit (e AND 2 ^ n) n" by simp
  then show "\<not> bit e n \<or> 64 \<le> n" by (auto simp: bit_and_iff bit_push_one)
next
  assume "\<not> bit e n \<or> 64 \<le> n"
  then show "e AND 2 ^ n = 0" by (intro bit_eqI) (auto simp: bit_and_iff bit_push_one)
qed

lemma present_bit: "present e \<longleftrightarrow> bit e 0" "huge e \<longleftrightarrow> bit e 7"
  using and_bit [of e 0] and_bit [of e 7] by (simp_all add: present_def huge_def PTE_PRESENT_def PTE_HUGE_PAGE_def)

lemma addr_mask_bit: "bit PTE_ADDR_MASK k \<longleftrightarrow> 12 \<le> k \<and> k < 60"
proof -
  have e: "PTE_ADDR_MASK = mask 60 AND NOT (mask 12)" by (simp add: PTE_ADDR_MASK_def mask_eq_decr_exp)
  show ?thesis unfolding e by (auto simp: bit_simps)
qed

lemma frame_bits: "p < 2 ^ 36 \<Longrightarrow> bit (of_nat p * 4096 :: u64) k \<Longrightarrow> 12 \<le> k \<and> k < 48"
proof -
  assume p: "p < 2 ^ 36" and b: "bit (of_nat p * 4096 :: u64) k"
  have "(of_nat p * 4096 :: u64) = push_bit 12 (of_nat p)" by (simp add: push_bit_eq_mult)
  then have "12 \<le> k" using b by (simp add: bit_push_bit_iff)
  moreover have "2 ^ k \<le> unat (of_nat p * 4096 :: u64)" using b by (rule bit_le_unat)
  then have "2 ^ k \<le> p * 4096" using p by (simp add: unat_pages)
  then have "(2::nat) ^ k < 2 ^ 48" using p by simp
  then have "k < 48" by (rule power_less_imp_less_exp [rotated]) simp
  ultimately show ?thesis by simp
qed

lemma table_entry:
  assumes "p < 2 ^ 36"
  shows "present (of_nat p * 4096 OR (PTE_PRESENT OR PTE_WRITABLE))" "\<not> huge (of_nat p * 4096 OR (PTE_PRESENT OR PTE_WRITABLE))"
    "(of_nat p * 4096 OR (PTE_PRESENT OR PTE_WRITABLE)) AND PTE_ADDR_MASK = of_nat p * 4096"
proof -
  have pw: "bit (PTE_PRESENT OR PTE_WRITABLE) k \<longleftrightarrow> k = 0 \<or> k = 1" for k
  proof -
    have e: "PTE_PRESENT = 2 ^ 0" "PTE_WRITABLE = 2 ^ 1" by (simp_all add: PTE_PRESENT_def PTE_WRITABLE_def)
    show ?thesis unfolding e bit_or_iff bit_push_one by auto
  qed
  show "present (of_nat p * 4096 OR (PTE_PRESENT OR PTE_WRITABLE))" "\<not> huge (of_nat p * 4096 OR (PTE_PRESENT OR PTE_WRITABLE))"
    using frame_bits [OF assms, of 7] by (auto simp: present_bit bit_or_iff [of "of_nat p * 4096"] pw)
  show "(of_nat p * 4096 OR (PTE_PRESENT OR PTE_WRITABLE)) AND PTE_ADDR_MASK = of_nat p * 4096"
  proof (rule bit_eqI)
    fix k
    show "bit ((of_nat p * 4096 OR (PTE_PRESENT OR PTE_WRITABLE)) AND PTE_ADDR_MASK) k = bit (of_nat p * 4096 :: u64) k"
      using frame_bits [OF assms, of k] by (auto simp: bit_and_iff bit_or_iff [of "of_nat p * 4096"] pw addr_mask_bit)
  qed
qed

lemma level_index_nat: "\<exists>i<512. level_index l v = of_nat i"
proof (intro exI conjI)
  show "unat (level_index l v) < 512"
    unfolding level_index_def page_masks unat_and_mask by simp
  show "level_index l v = of_nat (unat (level_index l v))" by simp
qed

lemma index_inj: "i < 512 \<Longrightarrow> j < 512 \<Longrightarrow> (of_nat i :: u64) = of_nat j \<longleftrightarrow> i = j"
  by (auto simp: unat_of_nat_small dest: arg_cong [of _ _ unat])

section \<open>Cells\<close>

definition cell :: "paging_state \<Rightarrow> nat \<Rightarrow> nat \<Rightarrow> u64" where
  "cell st p i = page_addr (pma_memory (frames st)) p + 8 * of_nat i"

lemma cell_inj:
  assumes "p < 2 ^ 36" "q < 2 ^ 36" "i < 512" "j < 512" "cell st p i = cell st q j"
  shows "p = q \<and> i = j"
proof -
  have u: "unat (of_nat p * 4096 + 8 * of_nat i :: u64) = p * 4096 + 8 * i" if "p < 2 ^ 36" "i < 512" for p i
  proof -
    have "unat (8 * of_nat i :: u64) = 8 * i" using that by (simp add: unat_mult_small unat_of_nat_small)
    then show ?thesis using that by (simp add: unat_plus_small unat_pages)
  qed
  have "of_nat p * 4096 + 8 * of_nat i = (of_nat q * 4096 + 8 * of_nat j :: u64)"
    using assms(5) by (simp add: cell_def page_addr_def)
  then have "p * 4096 + 8 * i = q * 4096 + 8 * j" using u [OF assms(1,3)] u [OF assms(2,4)] by metis
  then have "p = q" using assms(3,4) by linarith
  then show ?thesis using \<open>p * 4096 + 8 * i = q * 4096 + 8 * j\<close> by simp
qed

lemma entry_cell: "entry_addr (page_addr (pma_memory (frames st)) p) (of_nat i) = cell st p i"
  by (simp add: entry_addr_def cell_def)

text \<open>The entries in the frames \<open>S\<close> are the same in both states.\<close>

definition agree :: "nat set \<Rightarrow> paging_state \<Rightarrow> paging_state \<Rightarrow> bool" where
  "agree S st st' \<longleftrightarrow> hhdm st' = hhdm st \<and> (\<forall>p\<in>S. \<forall>i<512. pt st' (cell st p i) = pt st (cell st p i))"

lemma agree_mono: "agree S st st' \<Longrightarrow> T \<subseteq> S \<Longrightarrow> agree T st st'"
  by (auto simp: agree_def)

lemma hhdm_page_addr: "hhdm st' = hhdm st \<Longrightarrow> page_addr (pma_memory (frames st')) p = page_addr (pma_memory (frames st)) p"
  by (simp add: page_addr_def hhdm_def)

lemma hhdm_cell: "hhdm st' = hhdm st \<Longrightarrow> cell st' p i = cell st p i"
  by (simp add: cell_def page_addr_def hhdm_def)

section \<open>The tree of tables\<close>

fun ptree :: "paging_state \<Rightarrow> nat \<Rightarrow> u64 \<Rightarrow> nat set \<Rightarrow> bool" where
  "ptree st 0 t S \<longleftrightarrow> (\<exists>p. p < 2 ^ 36 \<and> S = {p} \<and> t = page_addr (pma_memory (frames st)) p)"
| "ptree st (Suc l) t S \<longleftrightarrow>
     (\<exists>p C. p < 2 ^ 36 \<and> t = page_addr (pma_memory (frames st)) p \<and> S = insert p (\<Union>i<512. C i) \<and>
        (\<forall>i<512. p \<notin> C i) \<and> (\<forall>i<512. \<forall>j<512. i \<noteq> j \<longrightarrow> C i \<inter> C j = {}) \<and>
        (\<forall>i<512. if present (pt st (cell st p i)) \<and> \<not> huge (pt st (cell st p i))
                 then ptree st l (table_of st (pt st (cell st p i))) (C i) else C i = {}))"

declare ptree.simps [simp del]

definition child_tree :: "paging_state \<Rightarrow> nat \<Rightarrow> u64 \<Rightarrow> nat set \<Rightarrow> bool" where
  "child_tree st l e X \<longleftrightarrow> (if present e \<and> \<not> huge e then ptree st l (table_of st e) X else X = {})"

lemma ptree_SucE:
  assumes "ptree st (Suc l) t S"
  obtains p C where "p < 2 ^ 36" "t = page_addr (pma_memory (frames st)) p" "S = insert p (\<Union>i<512. C i)"
    "\<And>i. i < 512 \<Longrightarrow> p \<notin> C i" "\<And>i j. i < 512 \<Longrightarrow> j < 512 \<Longrightarrow> i \<noteq> j \<Longrightarrow> C i \<inter> C j = {}"
    "\<And>i. i < 512 \<Longrightarrow> child_tree st l (pt st (cell st p i)) (C i)"
proof -
  obtain p C where "p < 2 ^ 36 \<and> t = page_addr (pma_memory (frames st)) p \<and> S = insert p (\<Union>i<512. C i) \<and>
        (\<forall>i<512. p \<notin> C i) \<and> (\<forall>i<512. \<forall>j<512. i \<noteq> j \<longrightarrow> C i \<inter> C j = {}) \<and>
        (\<forall>i<512. child_tree st l (pt st (cell st p i)) (C i))"
    using assms unfolding ptree.simps child_tree_def by blast
  then show ?thesis using that by blast
qed

lemma ptree_SucI:
  assumes "p < 2 ^ 36" "t = page_addr (pma_memory (frames st)) p" "S = insert p (\<Union>i<512. C i)"
    "\<And>i. i < 512 \<Longrightarrow> p \<notin> C i" "\<And>i j. i < 512 \<Longrightarrow> j < 512 \<Longrightarrow> i \<noteq> j \<Longrightarrow> C i \<inter> C j = {}"
    "\<And>i. i < 512 \<Longrightarrow> child_tree st l (pt st (cell st p i)) (C i)"
  shows "ptree st (Suc l) t S"
  unfolding ptree.simps using assms unfolding child_tree_def by (intro exI [of _ p] exI [of _ C]) simp

lemma ptree_bound: "ptree st l t S \<Longrightarrow> q \<in> S \<Longrightarrow> q < 2 ^ 36"
proof (induction l arbitrary: t S)
  case (Suc l)
  from Suc.prems(1) show ?case
  proof (rule ptree_SucE)
    fix p C assume c: "p < 2 ^ 36" "S = insert p (\<Union>i<512. C i)" "\<And>i. i < 512 \<Longrightarrow> child_tree st l (pt st (cell st p i)) (C i)"
    show ?thesis
    proof (cases "q = p")
      case False
      then obtain i where i: "i < 512" "q \<in> C i" using Suc.prems(2) c(2) by auto
      then show ?thesis using c(3) [OF i(1)] Suc.IH by (auto simp: child_tree_def split: if_splits)
    qed (use c in simp)
  qed
qed (auto simp: ptree.simps)

lemma ptree_agree: "ptree st l t S \<Longrightarrow> agree S st st' \<Longrightarrow> ptree st' l t S"
proof (induction l arbitrary: t S)
  case 0
  have "hhdm st' = hhdm st" using 0(2) by (simp add: agree_def)
  then show ?case using 0(1) by (simp add: ptree.simps hhdm_page_addr [of st' st])
next
  case (Suc l)
  have hh: "hhdm st' = hhdm st" using Suc.prems(2) by (simp add: agree_def)
  from Suc.prems(1) show ?case
  proof (rule ptree_SucE)
    fix p C assume c: "p < 2 ^ 36" "t = page_addr (pma_memory (frames st)) p" "S = insert p (\<Union>i<512. C i)"
      "\<And>i. i < 512 \<Longrightarrow> p \<notin> C i" "\<And>i j. i < 512 \<Longrightarrow> j < 512 \<Longrightarrow> i \<noteq> j \<Longrightarrow> C i \<inter> C j = {}"
      "\<And>i. i < 512 \<Longrightarrow> child_tree st l (pt st (cell st p i)) (C i)"
    show ?thesis
    proof (rule ptree_SucI [OF c(1) _ c(3-5)])
      show "t = page_addr (pma_memory (frames st')) p" using c(2) by (simp add: hhdm_page_addr [OF hh])
      fix i assume i: "i < (512::nat)"
      have e: "pt st' (cell st' p i) = pt st (cell st p i)"
        using Suc.prems(2) i c(3) by (simp add: agree_def hhdm_cell [OF hh])
      have "agree (C i) st st'" using Suc.prems(2) c(3) i by (auto intro: agree_mono)
      then show "child_tree st' l (pt st' (cell st' p i)) (C i)"
        using c(6) [OF i] Suc.IH by (auto simp: child_tree_def e table_of_def hh split: if_splits)
    qed
  qed
qed

lemma index_cell:
  "level_index l v = of_nat i \<Longrightarrow> entry_addr (page_addr (pma_memory (frames st)) p) (level_index l v) = cell st p i"
  unfolding entry_addr_def cell_def by simp

lemma phys_agree: "ptree st l t S \<Longrightarrow> agree S st st' \<Longrightarrow> phys_loop l t v st' = phys_loop l t v st"
proof (induction l arbitrary: t S)
  case 0
  then obtain p where p: "S = {p}" "t = page_addr (pma_memory (frames st)) p" by (auto simp: ptree.simps)
  obtain i where i: "i < 512" "level_index 0 v = of_nat i" using level_index_nat by blast
  then have "entry_addr t (drop_bit 12 v AND 511) = cell st p i" using p index_cell [OF i(2)] by (simp add: level_index_def)
  then show ?case using 0(2) i(1) p by (simp add: agree_def Let_def)
next
  case (Suc l)
  obtain i where i: "i < 512" "level_index (Suc l) v = of_nat i" using level_index_nat by blast
  from Suc.prems(1) show ?case
  proof (rule ptree_SucE)
    fix p C assume c: "t = page_addr (pma_memory (frames st)) p" "S = insert p (\<Union>i<512. C i)"
      "\<And>i. i < 512 \<Longrightarrow> child_tree st l (pt st (cell st p i)) (C i)"
    have a: "entry_addr t (level_index (Suc l) v) = cell st p i" unfolding c(1) by (rule index_cell [OF i(2)])
    have e: "pt st' (cell st p i) = pt st (cell st p i)" "hhdm st' = hhdm st" using Suc.prems(2) i(1) c(2) by (simp_all add: agree_def)
    have "agree (C i) st st'" using Suc.prems(2) c(2) i(1) by (auto intro: agree_mono)
    then have "present (pt st (cell st p i)) \<and> \<not> huge (pt st (cell st p i)) \<Longrightarrow>
        phys_loop l (table_of st (pt st (cell st p i))) v st' = phys_loop l (table_of st (pt st (cell st p i))) v st"
      using c(3) [OF i(1)] Suc.IH by (simp add: child_tree_def)
    then show ?thesis by (simp add: a e Let_def table_of_def present_def huge_def)
  qed
qed

text \<open>The path of an address holds no large page.\<close>

fun no_huge :: "paging_state \<Rightarrow> nat \<Rightarrow> u64 \<Rightarrow> u64 \<Rightarrow> bool" where
  "no_huge st 0 t v \<longleftrightarrow> True"
| "no_huge st (Suc l) t v \<longleftrightarrow>
     (let e = pt st (entry_addr t (level_index (Suc l) v)) in present e \<longrightarrow> \<not> huge e \<and> no_huge st l (table_of st e) v)"

lemma no_huge_agree: "ptree st l t S \<Longrightarrow> agree S st st' \<Longrightarrow> no_huge st' l t v = no_huge st l t v"
proof (induction l arbitrary: t S)
  case (Suc l)
  obtain i where i: "i < 512" "level_index (Suc l) v = of_nat i" using level_index_nat by blast
  from Suc.prems(1) show ?case
  proof (rule ptree_SucE)
    fix p C assume c: "t = page_addr (pma_memory (frames st)) p" "S = insert p (\<Union>i<512. C i)"
      "\<And>i. i < 512 \<Longrightarrow> child_tree st l (pt st (cell st p i)) (C i)"
    have a: "entry_addr t (level_index (Suc l) v) = cell st p i" unfolding c(1) by (rule index_cell [OF i(2)])
    have e: "pt st' (cell st p i) = pt st (cell st p i)" "hhdm st' = hhdm st" using Suc.prems(2) i(1) c(2) by (simp_all add: agree_def)
    have "agree (C i) st st'" using Suc.prems(2) c(2) i(1) by (auto intro: agree_mono)
    then show ?thesis using c(3) [OF i(1)] Suc.IH by (auto simp: a e Let_def table_of_def child_tree_def)
  qed
qed simp

section \<open>Replacing one subtree\<close>

text \<open>
  The frames \<open>insert p (\<Union> C)\<close> hold a table of level \<open>Suc l\<close> in the frame \<open>p\<close>, its \<open>i\<close>-th subtree apart.
\<close>

definition siblings :: "paging_state \<Rightarrow> nat \<Rightarrow> nat \<Rightarrow> (nat \<Rightarrow> nat set) \<Rightarrow> nat \<Rightarrow> bool" where
  "siblings st l p C i \<longleftrightarrow> p < 2 ^ 36 \<and> (\<forall>j<512. p \<notin> C j) \<and> (\<forall>j<512. \<forall>k<512. j \<noteq> k \<longrightarrow> C j \<inter> C k = {}) \<and>
     (\<forall>j<512. j \<noteq> i \<longrightarrow> child_tree st l (pt st (cell st p j)) (C j))"

text \<open>From \<open>st\<close> to \<open>st'\<close> the entry \<open>i\<close> of the table in frame \<open>p\<close> became \<open>e\<close>, with the tree \<open>D\<close> below it.\<close>

definition grafted :: "paging_state \<Rightarrow> paging_state \<Rightarrow> nat \<Rightarrow> nat \<Rightarrow> (nat \<Rightarrow> nat set) \<Rightarrow> nat \<Rightarrow> u64 \<Rightarrow> nat set \<Rightarrow> bool" where
  "grafted st st' l p C i e D \<longleftrightarrow> hhdm st' = hhdm st \<and> present e \<and> \<not> huge e \<and> pt st' (cell st p i) = e \<and>
     ptree st' l (table_of st' e) D \<and> p \<notin> D \<and>
     (\<forall>j<512. j \<noteq> i \<longrightarrow> C j \<inter> D = {} \<and> agree (C j) st st' \<and> pt st' (cell st p j) = pt st (cell st p j))"

lemma child_agree:
  assumes "child_tree st l e X" "agree X st st'"
  shows "child_tree st' l e X"
  using assms ptree_agree [of st l _ X st'] by (auto simp: child_tree_def table_of_def agree_def)

lemma graft_tree:
  assumes "i < 512" "siblings st l p C i" "grafted st st' l p C i e D"
  shows "ptree st' (Suc l) (page_addr (pma_memory (frames st)) p) (insert p (\<Union>j<512. (C(i := D)) j))"
proof (rule ptree_SucI)
  have hh: "hhdm st' = hhdm st" using assms(3) by (simp add: grafted_def)
  show "p < 2 ^ 36" using assms(2) by (simp only: siblings_def)
  show "page_addr (pma_memory (frames st)) p = page_addr (pma_memory (frames st')) p"
    using hhdm_page_addr [OF hh] by simp
  fix j k :: nat
  assume j: "j < 512"
  show "p \<notin> (C(i := D)) j" using assms(2,3) j by (simp add: siblings_def grafted_def)
  show "child_tree st' l (pt st' (cell st' p j)) ((C(i := D)) j)"
  proof (cases "j = i")
    case True
    then show ?thesis using assms(3) by (simp add: grafted_def child_tree_def hhdm_cell [OF hh])
  next
    case False
    then have "child_tree st l (pt st (cell st p j)) (C j)" "agree (C j) st st'" "pt st' (cell st p j) = pt st (cell st p j)"
      using assms(2,3) j by (auto simp: siblings_def grafted_def)
    then show ?thesis using False child_agree [of st l _ "C j" st'] by (simp add: hhdm_cell [OF hh])
  qed
  assume k: "k < 512" "j \<noteq> k"
  show "(C(i := D)) j \<inter> (C(i := D)) k = {}"
    using assms(2,3) j k unfolding siblings_def grafted_def by (cases "j = i"; cases "k = i") (auto simp: Int_commute)
qed simp

lemma graft_other:
  assumes "siblings st l p C i" "grafted st st' l p C i e D"
    and "j < 512" "j \<noteq> i" "level_index (Suc l) v = of_nat j"
  shows "phys_loop (Suc l) (page_addr (pma_memory (frames st)) p) v st' = phys_loop (Suc l) (page_addr (pma_memory (frames st)) p) v st"
proof -
  let ?e = "pt st (cell st p j)"
  have c: "child_tree st l ?e (C j)" "agree (C j) st st'" "pt st' (cell st p j) = ?e" "hhdm st' = hhdm st"
    using assms by (auto simp: siblings_def grafted_def)
  have "present ?e \<and> \<not> huge ?e \<Longrightarrow> phys_loop l (table_of st ?e) v st' = phys_loop l (table_of st ?e) v st"
    using phys_agree [OF _ c(2)] c(1) by (simp add: child_tree_def)
  then show ?thesis by (simp add: index_cell [OF assms(5)] c(3,4) Let_def table_of_def present_def huge_def)
qed

lemma graft_other_huge:
  assumes "siblings st l p C i" "grafted st st' l p C i e D"
    and "j < 512" "j \<noteq> i" "level_index (Suc l) v = of_nat j"
  shows "no_huge st' (Suc l) (page_addr (pma_memory (frames st)) p) v = no_huge st (Suc l) (page_addr (pma_memory (frames st)) p) v"
proof -
  let ?e = "pt st (cell st p j)"
  have c: "child_tree st l ?e (C j)" "agree (C j) st st'" "pt st' (cell st p j) = ?e" "hhdm st' = hhdm st"
    using assms by (auto simp: siblings_def grafted_def)
  then show ?thesis using no_huge_agree [OF _ c(2)] by (auto simp: index_cell [OF assms(5)] Let_def table_of_def child_tree_def)
qed

lemma graft_below:
  assumes "grafted st st' l p C i e D" "level_index (Suc l) v = of_nat i"
  shows "phys_loop (Suc l) (page_addr (pma_memory (frames st)) p) v st' = phys_loop l (table_of st' e) v st'"
proof -
  have "pt st' (cell st p i) = e" "present e" "\<not> huge e" using assms(1) by (simp_all add: grafted_def)
  then show ?thesis by (simp add: index_cell [OF assms(2)] Let_def present_def huge_def)
qed

section \<open>Leaf tables\<close>

fun leaf :: "paging_state \<Rightarrow> nat \<Rightarrow> u64 \<Rightarrow> u64 \<Rightarrow> u64 \<Rightarrow> bool" where
  "leaf st 0 t v r \<longleftrightarrow> r = t"
| "leaf st (Suc l) t v r \<longleftrightarrow>
     (let e = pt st (entry_addr t (level_index (Suc l) v)) in present e \<and> \<not> huge e \<and> leaf st l (table_of st e) v r)"

lemma leaf_frame: "ptree st l t S \<Longrightarrow> leaf st l t v r \<Longrightarrow> \<exists>q\<in>S. q < 2 ^ 36 \<and> r = page_addr (pma_memory (frames st)) q"
proof (induction l arbitrary: t S)
  case 0
  then show ?case by (auto simp: ptree.simps)
next
  case (Suc l)
  obtain i where i: "i < 512" "level_index (Suc l) v = of_nat i" using level_index_nat by blast
  from Suc.prems(1) show ?case
  proof (rule ptree_SucE)
    fix p C assume c: "t = page_addr (pma_memory (frames st)) p" "S = insert p (\<Union>i<512. C i)"
      "\<And>i. i < 512 \<Longrightarrow> child_tree st l (pt st (cell st p i)) (C i)"
    let ?e = "pt st (cell st p i)"
    have e: "present ?e" "\<not> huge ?e" "leaf st l (table_of st ?e) v r"
      using Suc.prems(2) unfolding c(1) by (simp_all add: index_cell [OF i(2)] Let_def)
    then have "ptree st l (table_of st ?e) (C i)" using c(3) [OF i(1)] by (simp add: child_tree_def)
    then obtain q where "q \<in> C i" "q < 2 ^ 36 \<and> r = page_addr (pma_memory (frames st)) q" using Suc.IH e(3) by blast
    then show ?thesis using c(2) i(1) by blast
  qed
qed

text \<open>Two addresses of the same page, for tables of \<open>n\<close> levels.\<close>

definition same_page :: "nat \<Rightarrow> u64 \<Rightarrow> u64 \<Rightarrow> bool" where
  "same_page n v w \<longleftrightarrow> (\<forall>k<n. level_index k v = level_index k w)"

lemma same_page_Suc: "same_page (Suc n) v w \<longleftrightarrow> same_page n v w \<and> level_index n v = level_index n w"
  by (auto simp: same_page_def less_Suc_eq)

definition leaf_value :: "u64 \<Rightarrow> u64 \<Rightarrow> u64" where
  "leaf_value e v = (if present e then (e AND PTE_ADDR_MASK) + (v AND 0xFFF) else 0)"


lemma agree_store:
  assumes "\<forall>p\<in>S. p < 2 ^ 36" "q < 2 ^ 36" "i < 512" "q \<notin> S"
  shows "agree S st (store_pte (cell st q i) w st)"
proof -
  have "cell st p j \<noteq> cell st q i" if "p \<in> S" "j < 512" for p j
    using cell_inj [of p q j i st] assms that by blast
  then show ?thesis by (simp add: agree_def store_pte_def hhdm_def)
qed

lemma store_leaf:
  "ptree st l t S \<Longrightarrow> leaf st l t v r \<Longrightarrow> st' = store_pte (entry_addr r (level_index 0 v)) w st \<Longrightarrow>
   ptree st' l t S \<and>
   (\<forall>x. phys_loop l t x st' = (if same_page (Suc l) v x then leaf_value w x else phys_loop l t x st)) \<and> (\<forall>x. no_huge st l t x \<longrightarrow> no_huge st' l t x)"
proof (induction l arbitrary: t S)
  case 0
  obtain p where p: "p < 2 ^ 36" "S = {p}" "t = page_addr (pma_memory (frames st)) p" using 0(1) unfolding ptree.simps by blast
  have r: "r = t" using 0(2) by simp
  obtain i where i: "i < 512" "level_index 0 v = of_nat i" using level_index_nat by blast
  have st': "st' = store_pte (cell st p i) w st" using 0(3) unfolding r p(3) index_cell [OF i(2)] .
  have hh: "hhdm st' = hhdm st" by (simp add: st' store_pte_def hhdm_def)
  have "phys_loop 0 t x st' = (if same_page (Suc 0) v x then leaf_value w x else phys_loop 0 t x st)" for x
  proof -
    obtain j where j: "j < 512" "level_index 0 x = of_nat j" using level_index_nat by blast
    have e: "entry_addr t (drop_bit 12 x AND 511) = cell st p j"
      using index_cell [OF j(2)] p(3) by (simp add: level_index_def)
    have "same_page (Suc 0) v x \<longleftrightarrow> i = j"
      using i j index_inj [of i j] by (simp add: same_page_def)
    moreover have "cell st p j = cell st p i \<longleftrightarrow> i = j" using cell_inj [OF p(1) p(1) i(1) j(1)] by metis
    ultimately show ?thesis
      by (simp add: e Let_def st' store_pte_def leaf_value_def present_def)
  qed
  moreover have "ptree st' 0 t S" using 0(1) by (simp add: ptree.simps hhdm_page_addr [OF hh])
  ultimately show ?case by simp
next
  case (Suc l)
  obtain i where i: "i < 512" "level_index (Suc l) v = of_nat i" using level_index_nat by blast
  obtain k where k: "k < 512" "level_index 0 v = of_nat k" using level_index_nat by blast
  from Suc.prems(1) show ?case
  proof (rule ptree_SucE)
    fix p C assume c: "p < 2 ^ 36" "t = page_addr (pma_memory (frames st)) p" "S = insert p (\<Union>i<512. C i)"
      "\<And>i. i < 512 \<Longrightarrow> p \<notin> C i" "\<And>i j. i < 512 \<Longrightarrow> j < 512 \<Longrightarrow> i \<noteq> j \<Longrightarrow> C i \<inter> C j = {}"
      "\<And>i. i < 512 \<Longrightarrow> child_tree st l (pt st (cell st p i)) (C i)"
    define e where "e = pt st (cell st p i)"
    have e: "present e" "\<not> huge e" "leaf st l (table_of st e) v r"
      using Suc.prems(2) unfolding c(2) by (simp_all add: index_cell [OF i(2)] Let_def e_def)
    have tr: "ptree st l (table_of st e) (C i)" using c(6) [OF i(1)] e by (simp add: child_tree_def e_def)
    note IH = Suc.IH [OF tr e(3) Suc.prems(3)]
    obtain q where q: "q \<in> C i" "q < 2 ^ 36" "r = page_addr (pma_memory (frames st)) q" using leaf_frame [OF tr e(3)] by blast
    have st': "st' = store_pte (cell st q k) w st" using Suc.prems(3) unfolding q(3) index_cell [OF k(2)] .
    have hh: "hhdm st' = hhdm st" by (simp add: st' store_pte_def hhdm_def)
    have pq: "p \<noteq> q" using c(4) [OF i(1)] q(1) by blast
    have keep: "pt st' (cell st p j) = pt st (cell st p j)" if "j < 512" for j
      using cell_inj [OF c(1) q(2) that k(1)] pq by (auto simp: st' store_pte_def)
    have tb: "table_of st' e = table_of st e" by (simp add: table_of_def hh)
    have sib: "siblings st l p C i" using c by (simp add: siblings_def)
    have ag: "agree (C j) st st'" if "j < 512" "j \<noteq> i" for j
    proof -
      have "\<forall>p\<in>C j. p < 2 ^ 36" using ptree_bound [OF Suc.prems(1)] c(3) that(1) by blast
      moreover have "q \<notin> C j" using c(5) [OF that(1) i(1) that(2)] q(1) by blast
      ultimately show ?thesis unfolding st' by (rule agree_store [OF _ q(2) k(1)])
    qed
    have gr: "grafted st st' l p C i e (C i)"
      using IH e keep keep [OF i(1), folded e_def] ag c(4,5) i(1) by (simp add: grafted_def hh tb)
    have "ptree st' (Suc l) t S" using graft_tree [OF i(1) sib gr] by (simp add: c(2,3))
    moreover have "phys_loop (Suc l) t x st' = (if same_page (Suc (Suc l)) v x then leaf_value w x else phys_loop (Suc l) t x st)" for x
    proof -
      obtain j where j: "j < 512" "level_index (Suc l) x = of_nat j" using level_index_nat by blast
      have eq: "level_index (Suc l) v = level_index (Suc l) x \<longleftrightarrow> i = j"
        using i j index_inj [of i j] by simp
      show ?thesis
      proof (cases "i = j")
        case True
        have "phys_loop (Suc l) t x st' = phys_loop l (table_of st e) x st'"
          using graft_below [OF gr] j(2) True unfolding c(2) tb by simp
        moreover have "phys_loop (Suc l) t x st = phys_loop l (table_of st e) x st"
          using e(1,2) unfolding e_def c(2) True by (simp add: index_cell [OF j(2)] Let_def present_def huge_def)
        ultimately show ?thesis using IH eq True by (simp add: same_page_Suc del: phys_loop.simps)
      next
        case False
        then show ?thesis using graft_other [OF sib gr j(1) _ j(2)] eq unfolding c(2) by (simp add: same_page_Suc del: phys_loop.simps)
      qed
    qed
    moreover have "no_huge st' (Suc l) t x" if "no_huge st (Suc l) t x" for x
    proof -
      obtain j where j: "j < 512" "level_index (Suc l) x = of_nat j" using level_index_nat by blast
      show ?thesis
      proof (cases "j = i")
        case True
        have "no_huge st l (table_of st e) x" using that e(1,2) unfolding e_def c(2) by (simp add: index_cell [OF j(2)] Let_def True)
        then have "no_huge st' l (table_of st' e) x" using IH by (simp add: tb)
        moreover have "entry_addr t (level_index (Suc l) x) = cell st p i" using index_cell [OF j(2)] unfolding c(2) True by simp
        moreover have "pt st' (cell st p i) = e" using keep [OF i(1)] by (simp add: e_def)
        ultimately show ?thesis using e(2) by (simp add: Let_def)
      next
        case False
        then show ?thesis using graft_other_huge [OF sib gr j(1) _ j(2)] that unfolding c(2) by (simp del: no_huge.simps)
      qed
    qed
    ultimately show ?thesis by blast
  qed
qed

section \<open>Walking\<close>

text \<open>
  The frames \<open>S\<close> are in use, the allocator is in order, and the direct map reaches every frame but the
  first by a safe non-null address.
\<close>

definition frames_ok :: "paging_state \<Rightarrow> nat set \<Rightarrow> bool" where
  "frames_ok st S \<longleftrightarrow> pma_inv (frames st) \<and>
     (\<forall>p\<in>S. p \<noteq> 0 \<and> p < unat (total_pages (pma_normal (frames st))) \<and> \<not> page_free (frames st) p) \<and>
     (\<forall>p<unat (total_pages (pma_normal (frames st))). p \<noteq> 0 \<longrightarrow>
        range_is_safe (page_addr (pma_memory (frames st)) p) 4096 \<and> page_addr (pma_memory (frames st)) p \<noteq> 0)"

lemma frames_okD:
  assumes "frames_ok st S"
  shows "pma_inv (frames st)" "p \<in> S \<Longrightarrow> p < 2 ^ 36" "p \<in> S \<Longrightarrow> \<not> page_free (frames st) p"
    "p \<in> S \<Longrightarrow> range_is_safe (page_addr (pma_memory (frames st)) p) 4096"
    "p \<in> S \<Longrightarrow> page_addr (pma_memory (frames st)) p \<noteq> 0"
  using assms pma_invD(5) [of "frames st"] unfolding frames_ok_def by (blast, force, blast, blast, blast)

lemma frames_ok_mono: "frames_ok st S \<Longrightarrow> T \<subseteq> S \<Longrightarrow> frames_ok st T"
  unfolding frames_ok_def by blast

lemma frames_ok_Un:
  assumes "frames_ok st S" "frames_ok st' T" "total_pages (pma_normal (frames st')) = total_pages (pma_normal (frames st))"
    and "\<And>q. page_free (frames st') q \<Longrightarrow> page_free (frames st) q"
  shows "frames_ok st' (S \<union> T)"
  using assms unfolding frames_ok_def by (simp only:) blast

lemma page_free_bounds:
  assumes "pma_inv st" "page_free st p"
  shows "p \<noteq> 0" "p < unat (total_pages (pma_normal st))"
proof -
  have "\<not> page_free st 0" using pma_invD(1) [OF assms(1)] by (simp add: zone_ok_def page_free_def)
  then show "p \<noteq> 0" using assms(2) by metis
  show "p < unat (total_pages (pma_normal st))" using assms(2) by (auto simp: page_free_def pma_page_is_free_def)
qed

text \<open>What a walk that allocates does: it takes the free frames \<open>F\<close>, and stores in \<open>S\<close> and \<open>F\<close> only.\<close>

definition grown :: "paging_state \<Rightarrow> paging_state \<Rightarrow> nat set \<Rightarrow> nat set \<Rightarrow> bool" where
  "grown st st' S F \<longleftrightarrow> hhdm st' = hhdm st \<and> paging_level st' = paging_level st \<and> flushes st' = flushes st \<and>
     total_pages (pma_normal (frames st')) = total_pages (pma_normal (frames st)) \<and>
     frames_ok st' (S \<union> F) \<and> (\<forall>q\<in>F. page_free (frames st) q) \<and>
     (\<forall>q. page_free (frames st') q \<longleftrightarrow> page_free (frames st) q \<and> q \<notin> F) \<and>
     agree ({q. q < 2 ^ 36} - (S \<union> F)) st st'"

lemma grown_refl: "frames_ok st S \<Longrightarrow> grown st st S {}"
  by (simp add: grown_def agree_def)

text \<open>The state with a fresh zeroed table, linked from the entry at \<open>a\<close>.\<close>

definition with_table :: "paging_state \<Rightarrow> pma_state \<Rightarrow> nat \<Rightarrow> u64 \<Rightarrow> paging_state" where
  "with_table st f p a = store_pte a (of_nat p * 4096 OR (PTE_PRESENT OR PTE_WRITABLE))
     (fill_table (of_nat p * 4096 + hhdm (st\<lparr>frames := f\<rparr>)) (\<lambda>_. 0) (st\<lparr>frames := f\<rparr>))"

lemma new_table_cases:
  assumes "frames_ok st S"
  obtains f where "new_table st = (st\<lparr>frames := f\<rparr>, 0)" "grown st (st\<lparr>frames := f\<rparr>) S {}" "\<And>q. \<not> page_free f q"
  | f p where "new_table st = (st\<lparr>frames := f\<rparr>, of_nat p * 4096)" "of_nat p * 4096 \<noteq> (0::u64)" "p < 2 ^ 36"
    "page_free (frames st) p" "hhdm (st\<lparr>frames := f\<rparr>) = hhdm st" "frames_ok (st\<lparr>frames := f\<rparr>) (insert p S)"
    "total_pages (pma_normal f) = total_pages (pma_normal (frames st))"
    "\<And>q. page_free f q \<longleftrightarrow> page_free (frames st) q \<and> q \<noteq> p"
proof -
  note inv = frames_okD(1) [OF assms]
  obtain f ret where a: "pma_alloc_pages (of_nat 1) (frames st) = (f, ret)" by force
  have A: "pma_inv f \<and> same_frames (frames st) f \<and>
    (if ret = 0
     then page_free f = page_free (frames st) \<and> ((1::nat) < 32 \<longrightarrow> \<not> (\<exists>p. \<forall>q. p \<le> q \<and> q < p + 1 \<longrightarrow> page_free (frames st) q))
     else \<exists>p. ret = of_nat p * 4096 \<and> p + 1 \<le> 2 ^ 36 \<and> (\<forall>q. p \<le> q \<and> q < p + 1 \<longrightarrow> page_free (frames st) q) \<and>
       (\<forall>q. page_free f q \<longleftrightarrow> page_free (frames st) q \<and> \<not> (p \<le> q \<and> q < p + 1)))"
    by (rule alloc_pages_spec [OF inv _ _ a]) simp_all
  have n: "new_table st = (st\<lparr>frames := f\<rparr>, ret)" using a by (simp add: new_table_def)
  have sf: "hhdm_offset (pma_memory f) = hhdm_offset (pma_memory (frames st))" "total_pages (pma_normal f) = total_pages (pma_normal (frames st))"
    using A by (simp_all add: same_frames_def)
  have pa: "page_addr (pma_memory f) = page_addr (pma_memory (frames st))" by (simp add: page_addr_def sf fun_eq_iff)
  have hh: "hhdm (st\<lparr>frames := f\<rparr>) = hhdm st" by (simp add: hhdm_def sf)
  show ?thesis
  proof (cases "ret = 0")
    case True
    then have pf: "page_free f = page_free (frames st)" "\<not> (\<exists>p. \<forall>q. p \<le> q \<and> q < p + 1 \<longrightarrow> page_free (frames st) q)" using A by simp_all
    have "\<not> page_free f q" for q
    proof
      assume "page_free f q"
      then have "\<forall>r. q \<le> r \<and> r < q + 1 \<longrightarrow> page_free (frames st) r" using pf(1) by (metis Suc_eq_plus1 less_Suc_eq_le order_antisym)
      then show False using pf(2) by blast
    qed
    moreover have "frames_ok (st\<lparr>frames := f\<rparr>) S" using assms A by (simp add: frames_ok_def sf pa pf(1))
    ultimately show ?thesis
      using that(1) [of f] n True by (simp add: grown_def hh pf(1) agree_def sf)
  next
    case False
    then obtain p where p: "ret = of_nat p * 4096" "p + 1 \<le> 2 ^ 36" "\<forall>q. p \<le> q \<and> q < p + 1 \<longrightarrow> page_free (frames st) q"
      "\<forall>q. page_free f q \<longleftrightarrow> page_free (frames st) q \<and> \<not> (p \<le> q \<and> q < p + 1)" using A by auto
    have pf: "page_free (frames st) p" using p(3) by simp
    have pf': "page_free f q \<longleftrightarrow> page_free (frames st) q \<and> q \<noteq> p" for q
      unfolding p(4) [rule_format, of q] by (cases "q = p") auto
    have "frames_ok (st\<lparr>frames := f\<rparr>) (insert p S)"
      using assms A page_free_bounds [OF inv pf] by (simp add: frames_ok_def sf pa pf')
    then show ?thesis using that(2) [of f p] n p False pf pf' hh sf by simp
  qed
qed

lemma fill_cell:
  assumes "p < 2 ^ 36" "q < 2 ^ 36" "j < 512"
  shows "pt (fill_table (page_addr (pma_memory (frames st)) p) (\<lambda>_. 0) st) (cell st q j) = (if q = p then 0 else pt st (cell st q j))"
proof -
  let ?d = "cell st q j - page_addr (pma_memory (frames st)) p"
  have u8: "unat (8 * of_nat j :: u64) = 8 * j" using assms(3) by (simp add: unat_mult_small unat_of_nat_small)
  have "unat ?d < 4096 \<Longrightarrow> q = p"
  proof -
    assume d: "unat ?d < 4096"
    have e: "of_nat q * 4096 + 8 * of_nat j = of_nat p * 4096 + ?d" by (simp add: cell_def page_addr_def)
    have "unat (of_nat q * 4096 + 8 * of_nat j :: u64) = q * 4096 + 8 * j"
      using assms by (simp add: unat_plus_small unat_pages u8)
    moreover have "unat (of_nat p * 4096 + ?d) = p * 4096 + unat ?d"
      using assms(1) d by (simp add: unat_plus_small unat_pages)
    ultimately have "q * 4096 + 8 * j = p * 4096 + unat ?d" using e by metis
    then show "q = p" using d assms(3) by linarith
  qed
  moreover have "q = p \<Longrightarrow> unat ?d = 8 * j" by (simp add: cell_def u8)
  ultimately show ?thesis using assms(3) by (auto simp: fill_table_def Let_def)
qed

lemma zero_table:
  assumes "p < 2 ^ 36" "\<And>j. j < 512 \<Longrightarrow> pt st (cell st p j) = 0"
  shows "ptree st l (page_addr (pma_memory (frames st)) p) {p}"
    "phys_loop l (page_addr (pma_memory (frames st)) p) v st = 0" "no_huge st l (page_addr (pma_memory (frames st)) p) v"
proof -
  have z: "\<not> present 0" by (simp add: present_def)
  have at: "pt st (entry_addr (page_addr (pma_memory (frames st)) p) (level_index k v)) = 0" for k
  proof -
    obtain j where "j < 512" "level_index k v = of_nat j" using level_index_nat by blast
    then show ?thesis using assms(2) index_cell [of k v j] by simp
  qed
  show "ptree st l (page_addr (pma_memory (frames st)) p) {p}"
  proof (cases l)
    case (Suc k)
    have "ptree st (Suc k) (page_addr (pma_memory (frames st)) p) {p}"
      by (rule ptree_SucI [of p _ _ _ "\<lambda>_. {}"]) (simp_all only: assms child_tree_def z, simp_all)
    then show ?thesis using Suc by simp
  qed (use assms(1) in \<open>simp add: ptree.simps\<close>)
  show "phys_loop l (page_addr (pma_memory (frames st)) p) v st = 0"
    using at [of 0] at [of l] by (cases l) (simp_all add: level_index_def)
  show "no_huge st l (page_addr (pma_memory (frames st)) p) v"
    using at [of l] z by (cases l) (simp_all add: Let_def)
qed

lemma walk_up:
  assumes c: "p < 2 ^ 36" "t = page_addr (pma_memory (frames st)) p" "S = insert p (\<Union>i<512. C i)"
      "\<And>i. i < 512 \<Longrightarrow> p \<notin> C i" "\<And>i j. i < 512 \<Longrightarrow> j < 512 \<Longrightarrow> i \<noteq> j \<Longrightarrow> C i \<inter> C j = {}"
      "\<And>i. i < 512 \<Longrightarrow> child_tree st l (pt st (cell st p i)) (C i)"
    and i: "i < 512" and ok: "frames_ok st S" and g: "grown st st' (insert p (C i)) F"
    and keep: "\<And>j. j < 512 \<Longrightarrow> j \<noteq> i \<Longrightarrow> pt st' (cell st p j) = pt st (cell st p j)"
    and e: "pt st' (cell st p i) = e" "present e" "\<not> huge e" "ptree st' l (table_of st' e) (C i \<union> F)"
  shows "grown st st' S F" "siblings st l p C i" "grafted st st' l p C i e (C i \<union> F)" "ptree st' (Suc l) t (S \<union> F)"
proof -
  have F: "q \<notin> F" if "q \<in> S" for q using g ok that by (auto simp: grown_def frames_ok_def)
  have sub: "insert p (C i) \<subseteq> S" using c(3) i by blast
  have "frames_ok st' (S \<union> (insert p (C i) \<union> F))" 
    using frames_ok_Un [of st S st' "insert p (C i) \<union> F"] g ok unfolding grown_def by blast
  then have "frames_ok st' (S \<union> F)" by (rule frames_ok_mono) auto
  moreover have "agree ({q. q < 2 ^ 36} - (S \<union> F)) st st'"
    using g sub unfolding grown_def by (auto intro: agree_mono)
  ultimately show "grown st st' S F" using g by (simp add: grown_def)
  show sib: "siblings st l p C i" using c by (simp add: siblings_def)
  have "agree (C j) st st'" if "j < 512" "j \<noteq> i" for j
  proof -
    have "C j \<subseteq> S" using c(3) that by blast
    then have "C j \<subseteq> {q. q < 2 ^ 36} - (insert p (C i) \<union> F)"
      using F frames_okD(2) [OF ok] c(4) [OF that(1)] c(5) [OF that(1) i that(2)] by blast
    then show ?thesis using g unfolding grown_def by (blast intro: agree_mono)
  qed
  moreover have "C j \<inter> (C i \<union> F) = {}" if "j < 512" "j \<noteq> i" for j
    using c(5) [OF that(1) i that(2)] F c(3) that by blast
  moreover have "p \<notin> C i \<union> F" using c(3,4) i F by blast
  ultimately show gr: "grafted st st' l p C i e (C i \<union> F)"
    using g e keep by (simp add: grafted_def grown_def)
  have "insert p (\<Union>j<512. (C(i := C i \<union> F)) j) = S \<union> F" using i by (auto simp: c(3) split: if_splits)
  then show "ptree st' (Suc l) t (S \<union> F)" using graft_tree [OF i sib gr] c(2) by simp
qed

text \<open>Linking a fresh table from the \<open>i\<close>-th entry of the table in frame \<open>p\<close>.\<close>

lemma with_table_spec:
  fixes st f q p i
  defines "st2 \<equiv> with_table st f q (cell st p i)"
  assumes "p < 2 ^ 36" "q < 2 ^ 36" "i < 512" "p \<noteq> q" "hhdm (st\<lparr>frames := f\<rparr>) = hhdm st"
    "total_pages (pma_normal f) = total_pages (pma_normal (frames st))" "page_free (frames st) q"
    "frames_ok (st\<lparr>frames := f\<rparr>) (insert q S)" "\<And>r. page_free f r \<longleftrightarrow> page_free (frames st) r \<and> r \<noteq> q" "p \<in> S"
  shows "grown st st2 {p} {q}" "pt st2 (cell st p i) = of_nat q * 4096 OR (PTE_PRESENT OR PTE_WRITABLE)"
    "\<And>j. j < 512 \<Longrightarrow> j \<noteq> i \<Longrightarrow> pt st2 (cell st p j) = pt st (cell st p j)" "\<And>j. j < 512 \<Longrightarrow> pt st2 (cell st q j) = 0"
proof -
  let ?st1 = "st\<lparr>frames := f\<rparr>"
  have fr: "frames st2 = f" "paging_level st2 = paging_level st" "flushes st2 = flushes st"
    by (simp_all add: st2_def with_table_def store_pte_def fill_table_def)
  have hh: "hhdm st2 = hhdm st" using assms(6) by (simp add: hhdm_def fr)
  have c1: "cell ?st1 r j = cell st r j" for r j by (rule hhdm_cell [OF assms(6)])
  have nt: "of_nat q * 4096 + hhdm ?st1 = page_addr (pma_memory (frames ?st1)) q" by (simp add: page_addr_def hhdm_def)
  have pt2: "pt st2 (cell st r j) = (if r = p \<and> j = i then of_nat q * 4096 OR (PTE_PRESENT OR PTE_WRITABLE)
      else if r = q then 0 else pt st (cell st r j))" if "r < 2 ^ 36" "j < 512" for r j
  proof -
    have "cell st r j = cell st p i \<longleftrightarrow> r = p \<and> j = i" using cell_inj [OF that(1) assms(2) that(2) assms(4)] by blast
    then show ?thesis
      using fill_cell [OF assms(3) that, of ?st1, unfolded c1] by (cases "r = q") (simp_all add: st2_def with_table_def store_pte_def nt)
  qed
  show "pt st2 (cell st p i) = of_nat q * 4096 OR (PTE_PRESENT OR PTE_WRITABLE)" using pt2 [OF assms(2,4)] by simp
  show "\<And>j. j < 512 \<Longrightarrow> j \<noteq> i \<Longrightarrow> pt st2 (cell st p j) = pt st (cell st p j)" using pt2 [OF assms(2)] assms(5) by simp
  show "\<And>j. j < 512 \<Longrightarrow> pt st2 (cell st q j) = 0" using pt2 [OF assms(3)] assms(5) by simp
  have "frames_ok st2 ({p} \<union> {q})"
    using frames_ok_mono [OF assms(9), of "{p, q}"] assms(11) by (simp add: frames_ok_def fr insert_commute)
  moreover have "agree ({r. r < 2 ^ 36} - ({p} \<union> {q})) st st2" by (simp add: agree_def hh pt2)
  ultimately show "grown st st2 {p} {q}"
    using assms(7,8,10) by (simp add: grown_def hh fr)
qed

lemma grown_trans:
  assumes "grown st st1 S F" "grown st1 st2 T G" "T \<subseteq> S \<union> F" 
  shows "grown st st2 S (F \<union> G)"
proof -
  have "frames_ok st2 (S \<union> F \<union> (T \<union> G))"
    using frames_ok_Un [of st1 "S \<union> F" st2 "T \<union> G"] assms(1,2) unfolding grown_def by blast
  then have "frames_ok st2 (S \<union> (F \<union> G))" by (rule frames_ok_mono) auto
  moreover have "agree ({q. q < 2 ^ 36} - (S \<union> (F \<union> G))) st st2"
  proof -
    have "agree ({q. q < 2 ^ 36} - (S \<union> (F \<union> G))) st st1" using assms(1) unfolding grown_def by (auto intro: agree_mono)
    moreover have "agree ({q. q < 2 ^ 36} - (S \<union> (F \<union> G))) st1 st2" using assms(2,3) unfolding grown_def by (auto intro: agree_mono)
    moreover have "hhdm st1 = hhdm st" using assms(1) by (simp add: grown_def)
    ultimately show ?thesis by (simp add: agree_def hhdm_cell [of st1 st])
  qed
  ultimately show ?thesis using assms(1,2) by (auto simp: grown_def)
qed

definition walked :: "paging_state \<Rightarrow> nat \<Rightarrow> u64 \<Rightarrow> u64 \<Rightarrow> nat set \<Rightarrow> paging_state \<Rightarrow> u64 \<Rightarrow> nat set \<Rightarrow> bool" where
  "walked st l t v S st' r F \<longleftrightarrow> walk_loop l t v 0 True st = Inr (st', r) \<and> grown st st' S F \<and> ptree st' l t (S \<union> F) \<and>
     (\<forall>x. phys_loop l t x st' = phys_loop l t x st) \<and> (\<forall>x. no_huge st l t x \<longrightarrow> no_huge st' l t x) \<and> (if r = 0 then \<forall>q. \<not> page_free (frames st') q else leaf st' l t v r)"

lemma walk_alloc:
  "ptree st l t S \<Longrightarrow> frames_ok st S \<Longrightarrow> no_huge st l t v \<Longrightarrow> \<exists>st' r F. walked st l t v S st' r F"
proof (induction l arbitrary: t S st)
  case 0
  then obtain p where "S = {p}" "t = page_addr (pma_memory (frames st)) p" unfolding ptree.simps by blast
  then have "t \<noteq> 0" using frames_okD(5) [OF 0(2)] by simp
  then have "walked st 0 t v S st t {}" using 0 by (simp add: walked_def grown_refl)
  then show ?case by blast
next
  case (Suc l)
  note ok = Suc.prems(2)
  obtain i where i: "i < 512" "level_index (Suc l) v = of_nat i" using level_index_nat by blast
  from Suc.prems(1) show ?case
  proof (rule ptree_SucE)
    fix p C assume c: "p < 2 ^ 36" "t = page_addr (pma_memory (frames st)) p" "S = insert p (\<Union>i<512. C i)"
      "\<And>i. i < 512 \<Longrightarrow> p \<notin> C i" "\<And>i j. i < 512 \<Longrightarrow> j < 512 \<Longrightarrow> i \<noteq> j \<Longrightarrow> C i \<inter> C j = {}"
      "\<And>i. i < 512 \<Longrightarrow> child_tree st l (pt st (cell st p i)) (C i)"
    have pS: "p \<in> S" using c(3) by blast
    have safe: "range_is_safe t 4096" using frames_okD(4) [OF ok pS] c(2) by simp
    have at: "entry_addr t (level_index (Suc l) v) = cell st p i" unfolding c(2) by (rule index_cell [OF i(2)])
    have step: "\<exists>st' r F. walked st (Suc l) t v S st' r F"
      if w: "walked st2 l (table_of st2 e) v X st' r F" and loop: "walk_loop (Suc l) t v 0 True st = walk_loop l (table_of st2 e) v 0 True st2"
        and g: "grown st st' (insert p (C i)) G" "X \<union> F = C i \<union> G" "hhdm st' = hhdm st2"
        and e: "\<And>j. j < 512 \<Longrightarrow> j \<noteq> i \<Longrightarrow> pt st' (cell st p j) = pt st (cell st p j)" "pt st' (cell st p i) = e" "present e" "\<not> huge e"
        and ph: "\<And>x. level_index (Suc l) x = of_nat i \<Longrightarrow> phys_loop l (table_of st2 e) x st2 = phys_loop (Suc l) t x st"
        and nh: "\<And>x. level_index (Suc l) x = of_nat i \<Longrightarrow> no_huge st (Suc l) t x \<Longrightarrow> no_huge st2 l (table_of st2 e) x"
      for st2 e X st' r F G
    proof -
      have tb: "table_of st' e = table_of st2 e" by (simp add: table_of_def g(3))
      have tr: "ptree st' l (table_of st' e) (C i \<union> G)" using w g(2) by (simp add: walked_def tb)
      note U = walk_up [OF c i(1) ok g(1) e tr]
      have "phys_loop (Suc l) t x st' = phys_loop (Suc l) t x st" for x
      proof -
        obtain j where j: "j < 512" "level_index (Suc l) x = of_nat j" using level_index_nat by blast
        show ?thesis
        proof (cases "j = i")
          case True
          have "phys_loop (Suc l) t x st' = phys_loop l (table_of st' e) x st'"
            using graft_below [OF U(3)] j(2) True unfolding c(2) by blast
          also have "\<dots> = phys_loop l (table_of st2 e) x st2" using w by (simp add: walked_def tb)
          finally show ?thesis using ph j(2) True by simp
        next
          case False
          show ?thesis unfolding c(2) by (rule graft_other [OF U(2,3) j(1) False j(2)])
        qed
      qed
      moreover have "no_huge st' (Suc l) t x" if "no_huge st (Suc l) t x" for x
      proof -
        obtain j where j: "j < 512" "level_index (Suc l) x = of_nat j" using level_index_nat by blast
        show ?thesis
        proof (cases "j = i")
          case True
          then have "no_huge st' l (table_of st' e) x" using w nh j(2) that by (simp add: walked_def tb)
          then show ?thesis using e(2-4) unfolding c(2) by (simp add: index_cell [OF j(2)] True Let_def)
        next
          case False
          then show ?thesis using graft_other_huge [OF U(2,3) j(1) _ j(2)] that unfolding c(2) by (simp del: no_huge.simps)
        qed
      qed
      moreover have "entry_addr t (level_index (Suc l) v) = cell st p i" by (rule at)
      ultimately have "walked st (Suc l) t v S st' r G"
        using w loop U(1,4) e(2-4) unfolding walked_def tb [symmetric] by (simp add: Let_def del: phys_loop.simps walk_loop.simps no_huge.simps)
      then show ?thesis by blast
    qed
    show ?thesis
    proof (cases "present (pt st (cell st p i))")
      case True
      define e where "e = pt st (cell st p i)"
      have nh: "\<not> huge e" "no_huge st l (table_of st e) v" using Suc.prems(3) True by (simp_all add: at Let_def e_def)
      have tr: "ptree st l (table_of st e) (C i)" using c(6) [OF i(1)] True nh by (simp add: child_tree_def e_def)
      have sub: "C i \<subseteq> S" using c(3) i(1) by blast
      obtain st' r F where w: "walked st l (table_of st e) v (C i) st' r F"
        using Suc.IH [OF tr frames_ok_mono [OF ok sub] nh(2)] by blast
      have g: "grown st st' (C i) F" using w by (simp add: walked_def)
      have pF: "p \<notin> C i \<union> F" using c(4) [OF i(1)] g frames_okD(3) [OF ok pS] by (auto simp: grown_def)
      have keep: "pt st' (cell st p j) = pt st (cell st p j)" if "j < 512" for j
        using g that c(1) pF by (simp add: grown_def agree_def)
      show ?thesis
      proof (rule step [OF w])
        show "walk_loop (Suc l) t v 0 True st = walk_loop l (table_of st e) v 0 True st"
          using safe True nh(1) by (simp add: at Let_def e_def present_def huge_def)
        show "grown st st' (insert p (C i)) F" 
          using grown_trans [OF grown_refl [OF frames_ok_mono [OF ok, of "insert p (C i)"]] g] sub pS by auto
        show "phys_loop l (table_of st e) x st = phys_loop (Suc l) t x st" if "level_index (Suc l) x = of_nat i" for x
          using True nh(1) unfolding e_def c(2) by (simp add: index_cell [OF that] Let_def present_def huge_def)
        show "no_huge st l (table_of st e) x" if "level_index (Suc l) x = of_nat i" "no_huge st (Suc l) t x" for x
          using that(2) True unfolding e_def c(2) by (simp add: index_cell [OF that(1)] Let_def)
      qed (use keep True nh g i(1) in \<open>simp_all add: e_def grown_def\<close>)
    next
      case False
      then have ci: "C i = {}" using c(6) [OF i(1)] by (simp add: child_tree_def)
      show ?thesis
      proof (rule new_table_cases [OF ok])
        fix f assume n: "new_table st = (st\<lparr>frames := f\<rparr>, 0)" "grown st (st\<lparr>frames := f\<rparr>) S {}" "\<And>q. \<not> page_free f q"
        have ag: "agree S st (st\<lparr>frames := f\<rparr>)" using n(2) by (simp add: agree_def grown_def)
        have "walk_loop (Suc l) t v 0 True st = Inr (st\<lparr>frames := f\<rparr>, 0)"
          using safe False n(1) by (simp add: at Let_def present_def)
        then have "walked st (Suc l) t v S (st\<lparr>frames := f\<rparr>) 0 {}"
          using n ptree_agree [OF Suc.prems(1) ag] phys_agree [OF Suc.prems(1) ag] no_huge_agree [OF Suc.prems(1) ag]
          by (simp add: walked_def del: phys_loop.simps walk_loop.simps no_huge.simps)
        then show ?thesis by blast
      next
        fix f q assume n: "new_table st = (st\<lparr>frames := f\<rparr>, of_nat q * 4096)" "of_nat q * 4096 \<noteq> (0::u64)" "q < 2 ^ 36"
          "page_free (frames st) q" "hhdm (st\<lparr>frames := f\<rparr>) = hhdm st" "frames_ok (st\<lparr>frames := f\<rparr>) (insert q S)"
          "total_pages (pma_normal f) = total_pages (pma_normal (frames st))"
          "\<And>r. page_free f r \<longleftrightarrow> page_free (frames st) r \<and> r \<noteq> q"
        have pq: "p \<noteq> q" using frames_okD(3) [OF ok pS] n(4) by blast
        define st2 where "st2 = with_table st f q (cell st p i)"
        define e :: u64 where "e = of_nat q * 4096 OR (PTE_PRESENT OR PTE_WRITABLE)"
        note W = with_table_spec [OF c(1) n(3) i(1) pq n(5,7,4,6,8) pS, folded st2_def, folded e_def]
        note E = table_entry [OF n(3), folded e_def]
        have hh: "hhdm st2 = hhdm st" using W(1) by (simp add: grown_def)
        have tb: "table_of st2 e = page_addr (pma_memory (frames st2)) q" by (simp add: table_of_def E(3) page_addr_def hhdm_def)
        have z: "\<And>j. j < 512 \<Longrightarrow> pt st2 (cell st2 q j) = 0" using W(4) by (simp add: hhdm_cell [OF hh])
        note Z = zero_table [OF n(3) z, folded tb]
        have "frames_ok st2 {q}" using W(1) unfolding grown_def by (blast intro: frames_ok_mono)
        then obtain st' r F where w: "walked st2 l (table_of st2 e) v {q} st' r F" using Suc.IH [OF Z(1) _ Z(3)] by blast
        have g: "grown st2 st' {q} F" using w by (simp add: walked_def)
        have pF: "p \<notin> {q} \<union> F" using pq g W(1) frames_okD(3) [OF ok pS] by (auto simp: grown_def)
        have keep: "pt st' (cell st p j) = pt st2 (cell st p j)" if "j < 512" for j
          using g that c(1) pF by (simp add: grown_def agree_def hhdm_cell [OF hh])
        show ?thesis
        proof (rule step [OF w])
          have v: "range_is_safe (of_nat q * 4096 + hhdm st) 4096" "of_nat q * 4096 + hhdm st \<noteq> 0"
            using frames_okD(4,5) [OF n(6), of q] n(5) by (simp_all add: page_addr_def hhdm_def)
          have sn: "set_entry t (level_index (Suc l) v) e (fill_table (of_nat q * 4096 + hhdm st) (\<lambda>_. 0) (st\<lparr>frames := f\<rparr>)) = st2"
            by (simp add: st2_def with_table_def e_def set_entry_def store_pte_def at n(5))
          have tb2: "table_of st2 e = of_nat q * 4096 + hhdm st" by (simp add: table_of_def E(3) hh)
          show "walk_loop (Suc l) t v 0 True st = walk_loop l (table_of st2 e) v 0 True st2"
            unfolding walk_loop.simps Let_def tb2 using safe False n(1,2) v
            by (simp add: at present_def PAGE_SIZE_def n(5) e_def [symmetric] sn [unfolded at])
          show "grown st st' (insert p (C i)) ({q} \<union> F)" using grown_trans [OF W(1) g] ci by simp
          show "phys_loop l (table_of st2 e) x st2 = phys_loop (Suc l) t x st" if "level_index (Suc l) x = of_nat i" for x
            using zero_table(2) [OF n(3) z, folded tb] False unfolding c(2) by (simp add: index_cell [OF that] present_def)
          show "no_huge st2 l (table_of st2 e) x" for x using zero_table(3) [OF n(3) z, folded tb] .
        qed (use keep W(2,3) E g hh i(1) ci in \<open>simp_all add: grown_def\<close>)
      qed
    qed
  qed
qed

lemma leaf_phys: "leaf st l t v r \<Longrightarrow> same_page (Suc l) v x \<Longrightarrow> phys_loop l t x st = leaf_value (pt st (entry_addr r (level_index 0 v))) x"
proof (induction l arbitrary: t)
  case 0
  then have "drop_bit 12 x AND 511 = level_index 0 v" "r = t" by (simp_all add: same_page_def level_index_def)
  then show ?case by (simp add: leaf_value_def present_def)
next
  case (Suc l)
  then have "level_index (Suc l) x = level_index (Suc l) v" "same_page (Suc l) v x" by (simp_all add: same_page_Suc)
  then show ?case using Suc by (simp add: Let_def present_def huge_def)
qed

lemma walk_noalloc:
  "ptree st l t S \<Longrightarrow> frames_ok st S \<Longrightarrow> no_huge st l t v \<Longrightarrow>
   \<exists>r. walk_loop l t v 0 False st = Inr (st, r) \<and>
     (if r = 0 then \<forall>x. same_page (Suc l) v x \<longrightarrow> phys_loop l t x st = 0 else leaf st l t v r)"
proof (induction l arbitrary: t S)
  case 0
  then obtain p where "S = {p}" "t = page_addr (pma_memory (frames st)) p" unfolding ptree.simps by blast
  then have "t \<noteq> 0" using frames_okD(5) [OF 0(2)] by simp
  then show ?case by simp
next
  case (Suc l)
  obtain i where i: "i < 512" "level_index (Suc l) v = of_nat i" using level_index_nat by blast
  from Suc.prems(1) show ?case
  proof (rule ptree_SucE)
    fix p C assume c: "t = page_addr (pma_memory (frames st)) p" "S = insert p (\<Union>i<512. C i)"
      "\<And>i. i < 512 \<Longrightarrow> child_tree st l (pt st (cell st p i)) (C i)"
    define e where "e = pt st (cell st p i)"
    have at: "entry_addr t (level_index (Suc l) v) = cell st p i" unfolding c(1) by (rule index_cell [OF i(2)])
    have safe: "range_is_safe t 4096" using frames_okD(4) [OF Suc.prems(2), of p] c(1,2) by simp
    have same: "level_index (Suc l) x = level_index (Suc l) v" if "same_page (Suc (Suc l)) v x" for x
      using that by (simp add: same_page_Suc)
    show ?thesis
    proof (cases "present e")
      case True
      have nh: "\<not> huge e" "no_huge st l (table_of st e) v" using Suc.prems(3) True by (simp_all add: at Let_def e_def)
      have tr: "ptree st l (table_of st e) (C i)" using c(3) [OF i(1)] True nh by (simp add: child_tree_def e_def)
      have "frames_ok st (C i)" by (rule frames_ok_mono [OF Suc.prems(2)]) (use c(2) i(1) in blast)
      then obtain r where r: "walk_loop l (table_of st e) v 0 False st = Inr (st, r)"
        "if r = 0 then \<forall>x. same_page (Suc l) v x \<longrightarrow> phys_loop l (table_of st e) x st = 0 else leaf st l (table_of st e) v r"
        using Suc.IH [OF tr _ nh(2)] by blast
      have "walk_loop (Suc l) t v 0 False st = Inr (st, r)"
        using safe True nh(1) r(1) by (simp add: at Let_def e_def present_def huge_def)
      moreover have "phys_loop (Suc l) t x st = phys_loop l (table_of st e) x st" if "same_page (Suc (Suc l)) v x" for x
        using True nh(1) by (simp add: same [OF that] at Let_def e_def present_def huge_def)
      moreover have "leaf st (Suc l) t v r \<longleftrightarrow> leaf st l (table_of st e) v r" using True nh(1) by (simp add: at Let_def e_def)
      ultimately show ?thesis using r(2) by (auto simp: same_page_Suc simp del: phys_loop.simps walk_loop.simps leaf.simps split: if_splits)
    next
      case False
      then have "walk_loop (Suc l) t v 0 False st = Inr (st, 0)" using safe by (simp add: at Let_def e_def present_def)
      moreover have "phys_loop (Suc l) t x st = 0" if "same_page (Suc (Suc l)) v x" for x
        using False by (simp add: same [OF that] at Let_def e_def present_def)
      ultimately show ?thesis by simp
    qed
  qed
qed

section \<open>Mapping and unmapping a page\<close>

definition tables :: "paging_state \<Rightarrow> u64 \<Rightarrow> nat set \<Rightarrow> bool" where
  "tables st pml4 S \<longleftrightarrow> 0 < paging_level st \<and> ptree st (paging_level st - 1) pml4 S \<and> frames_ok st S"

lemma frame_flags:
  assumes "phys AND NOT PTE_ADDR_MASK = 0" "flags AND PTE_ADDR_MASK = 0" "flags AND PTE_PRESENT \<noteq> 0"
  shows "leaf_value ((phys AND NOT 0xFFF) OR flags) x = phys + (x AND 0xFFF)"
proof -
  have m: "(0xFFF :: u64) = mask 12" by (simp add: mask_eq_decr_exp)
  have p: "bit phys k \<Longrightarrow> 12 \<le> k \<and> k < 60" for k
    using arg_cong [OF assms(1), of "\<lambda>w. bit w k"] bit_imp_le_length [of phys k] by (auto simp: bit_and_iff bit_not_iff addr_mask_bit)
  have f: "bit flags k \<Longrightarrow> \<not> (12 \<le> k \<and> k < 60)" for k
    using arg_cong [OF assms(2), of "\<lambda>w. bit w k"] by (simp add: bit_and_iff addr_mask_bit)
  have "((phys AND NOT 0xFFF) OR flags) AND PTE_ADDR_MASK = phys"
  proof (rule bit_eqI)
    fix k assume "possible_bit TYPE(64 word) k"
    then show "bit (((phys AND NOT 0xFFF) OR flags) AND PTE_ADDR_MASK) k = bit phys k"
      unfolding m using p [of k] f [of k] by (auto simp: bit_and_iff bit_or_iff bit_not_iff bit_mask_iff addr_mask_bit)
  qed
  moreover have "present ((phys AND NOT 0xFFF) OR flags)"
    using assms(3) present_bit(1) [of flags] present_bit(1) [of "(phys AND NOT 0xFFF) OR flags"] by (simp add: present_def bit_or_iff)
  ultimately show ?thesis by (simp add: leaf_value_def)
qed

lemma tables_store:
  assumes "tables st pml4 S" "leaf st (paging_level st - 1) pml4 v r"
  shows "tables (store_pte (entry_addr r (level_index 0 v)) w st) pml4 S \<and>
    (\<forall>x. paging_get_phys pml4 x (store_pte (entry_addr r (level_index 0 v)) w st) =
       (if same_page (paging_level st) v x then leaf_value w x else paging_get_phys pml4 x st)) \<and>
    (\<forall>x. no_huge st (paging_level st - 1) pml4 x \<longrightarrow> no_huge (store_pte (entry_addr r (level_index 0 v)) w st) (paging_level st - 1) pml4 x)"
proof -
  let ?st' = "store_pte (entry_addr r (level_index 0 v)) w st"
  have s: "paging_level ?st' = paging_level st" "frames ?st' = frames st" by (simp_all add: store_pte_def)
  have "Suc (paging_level st - 1) = paging_level st" using assms(1) by (simp add: tables_def)
  then show ?thesis
    using store_leaf [of st "paging_level st - 1" pml4 S v r ?st' w] assms by (simp add: tables_def paging_get_phys_def s frames_ok_def)
qed

lemma entry_nonzero:
  assumes "range_is_safe r 4096" "r \<noteq> 0" "i < 512"
  shows "entry_addr r (of_nat i) \<noteq> 0"
proof -
  have "unat r + 4096 \<le> 2 ^ 64" using safe_no_wrap [OF assms(1)] by simp
  moreover have "unat (8 * of_nat i :: u64) = 8 * i" using assms(3) by (simp add: unat_mult_small unat_of_nat_small)
  ultimately have "unat (entry_addr r (of_nat i)) = unat r + 8 * i" using assms(3) by (simp add: entry_addr_def unat_plus_small)
  moreover have "0 < unat r" using assms(2) by (simp add: unat_gt_0)
  ultimately show ?thesis by (metis add_is_0 less_numeral_extra(3) unat_0)
qed

lemma flush_phys: "phys_loop l t x (paging_flush_tlb_page v st) = phys_loop l t x st"
  by (rule sym, induction l arbitrary: t) (simp_all add: paging_flush_tlb_page_def table_of_def hhdm_def Let_def)

lemma flush_frame:
  "frames (paging_flush_tlb_page v st) = frames st" "flushes (paging_flush_tlb_page v st) = flushes st @ [v]"
  "tables (paging_flush_tlb_page v st) pml4 T = tables st pml4 T"
  "paging_get_phys pml4 x (paging_flush_tlb_page v st) = paging_get_phys pml4 x st"
proof -
  have s: "pt (paging_flush_tlb_page v st) = pt st" "paging_level (paging_flush_tlb_page v st) = paging_level st"
    "hhdm (paging_flush_tlb_page v st) = hhdm st" by (simp_all add: paging_flush_tlb_page_def hhdm_def)
  show f: "frames (paging_flush_tlb_page v st) = frames st" "flushes (paging_flush_tlb_page v st) = flushes st @ [v]"
    by (simp_all add: paging_flush_tlb_page_def)
  have "agree S st (paging_flush_tlb_page v st)" "agree S (paging_flush_tlb_page v st) st" for S
    by (simp_all add: agree_def s)
  then have "ptree (paging_flush_tlb_page v st) l pml4 T = ptree st l pml4 T" for l using ptree_agree by blast
  then show "tables (paging_flush_tlb_page v st) pml4 T = tables st pml4 T" by (simp add: tables_def s frames_ok_def f)
  show "paging_get_phys pml4 x (paging_flush_tlb_page v st) = paging_get_phys pml4 x st"
    by (simp add: paging_get_phys_def s flush_phys)
qed

text \<open>Mapping a page; the paths without large pages stay so.\<close>

lemma map_page_spec:
  assumes "tables st pml4 S" and "no_huge st (paging_level st - 1) pml4 virt"
    and "phys AND NOT PTE_ADDR_MASK = 0" and "flags AND PTE_ADDR_MASK = 0" and "flags AND PTE_PRESENT \<noteq> 0"
  shows "\<exists>st' F. paging_map_page pml4 virt phys flags st = Inr st' \<and> tables st' pml4 (S \<union> F) \<and>
    (\<forall>q\<in>F. page_free (frames st) q) \<and> (\<forall>q. page_free (frames st') q \<longleftrightarrow> page_free (frames st) q \<and> q \<notin> F) \<and>
    flushes st' = flushes st @ [virt] \<and>
    hhdm st' = hhdm st \<and> paging_level st' = paging_level st \<and>
    total_pages (pma_normal (frames st')) = total_pages (pma_normal (frames st)) \<and>
    (\<forall>x. no_huge st (paging_level st - 1) pml4 x \<longrightarrow> no_huge st' (paging_level st - 1) pml4 x) \<and>
    ((\<forall>x. paging_get_phys pml4 x st' =
        (if same_page (paging_level st) virt x then phys + (x AND 0xFFF) else paging_get_phys pml4 x st)) \<or>
     (\<forall>q. \<not> page_free (frames st') q) \<and> (\<forall>x. paging_get_phys pml4 x st' = paging_get_phys pml4 x st))"
proof -
  let ?l = "paging_level st - 1"
  obtain st1 r F where w: "walked st ?l pml4 virt S st1 r F"
    using walk_alloc [of st ?l pml4 S virt] assms(1,2) by (auto simp: tables_def)
  have lv: "paging_level st1 = paging_level st" "flushes st1 = flushes st" using w by (simp_all add: walked_def grown_def)
  have t1: "tables st1 pml4 (S \<union> F)" using w assms(1) by (simp add: walked_def grown_def tables_def)
  have keep: "paging_get_phys pml4 x st1 = paging_get_phys pml4 x st" for x using w by (simp add: walked_def paging_get_phys_def lv)
  have F: "\<forall>q\<in>F. page_free (frames st) q" "\<forall>q. page_free (frames st1) q \<longleftrightarrow> page_free (frames st) q \<and> q \<notin> F"
    using w by (simp_all add: walked_def grown_def)
  define st2 where "st2 = (if r = 0 then st1 else store_pte (entry_addr r (level_index 0 virt)) ((phys AND NOT 0xFFF) OR flags) st1)"
  have pte: "entry_addr r (level_index 0 virt) \<noteq> 0" if nz: "r \<noteq> 0"
  proof -
    obtain q where q: "q \<in> S \<union> F" "r = page_addr (pma_memory (frames st1)) q"
      using w nz leaf_frame [of st1 ?l pml4 "S \<union> F" virt r] by (auto simp: walked_def)
    have "range_is_safe r 4096" "r \<noteq> 0" using frames_okD(4,5) [of st1 "S \<union> F" q] q t1 by (simp_all add: tables_def)
    then show ?thesis using entry_nonzero level_index_nat [of 0 virt] by auto
  qed
  have "paging_map_page pml4 virt phys flags st = Inr (paging_flush_tlb_page virt st2)"
    using w pte by (simp add: paging_map_page_def paging_map_page_noflush_def paging_get_pte_def walk_to_level_def walked_def
      st2_def level_index_def)
  moreover have "tables st2 pml4 (S \<union> F) \<and> ((\<forall>x. paging_get_phys pml4 x st2 =
        (if same_page (paging_level st) virt x then phys + (x AND 0xFFF) else paging_get_phys pml4 x st)) \<or>
     (\<forall>q. \<not> page_free (frames st2) q) \<and> (\<forall>x. paging_get_phys pml4 x st2 = paging_get_phys pml4 x st))"
  proof (cases "r = 0")
    case True
    then show ?thesis using w t1 keep by (simp add: st2_def walked_def)
  next
    case False
    then have "leaf st1 (paging_level st1 - 1) pml4 virt r" using w lv by (simp add: walked_def)
    then show ?thesis
      using tables_store [OF t1, of virt r] False keep lv by (simp add: st2_def frame_flags [OF assms(3-5), simplified])
  qed
  moreover have "frames st2 = frames st1" "flushes st2 = flushes st" by (simp_all add: st2_def store_pte_def lv)
  moreover have fl: "frames (paging_flush_tlb_page virt st2) = frames st2" "flushes (paging_flush_tlb_page virt st2) = flushes st2 @ [virt]"
    "tables (paging_flush_tlb_page virt st2) pml4 T = tables st2 pml4 T"
    "paging_get_phys pml4 x (paging_flush_tlb_page virt st2) = paging_get_phys pml4 x st2" for T x
    using flush_frame by simp_all
  moreover have nh: "no_huge (paging_flush_tlb_page virt st2) l t x = no_huge st2 l t x" for l t x
    by (induction l arbitrary: t) (simp_all add: paging_flush_tlb_page_def table_of_def hhdm_def Let_def)
  have "no_huge st2 ?l pml4 x" if "no_huge st ?l pml4 x" for x
  proof (cases "r = 0")
    case False
    then have "leaf st1 (paging_level st1 - 1) pml4 virt r" using w lv by (simp add: walked_def)
    then show ?thesis using tables_store [OF t1, of virt r] False w that lv by (simp add: st2_def walked_def)
  qed (use w that in \<open>simp add: st2_def walked_def\<close>)
  moreover have "hhdm (paging_flush_tlb_page virt st2) = hhdm st" "paging_level (paging_flush_tlb_page virt st2) = paging_level st"
    "total_pages (pma_normal (frames (paging_flush_tlb_page virt st2))) = total_pages (pma_normal (frames st))"
    using w by (simp_all add: st2_def store_pte_def paging_flush_tlb_page_def hhdm_def walked_def grown_def)
  ultimately show ?thesis using F by (intro exI [of _ "paging_flush_tlb_page virt st2"] exI [of _ F]) (simp add: nh)
qed

text \<open>
  C14. Mapping a page whose path holds no large page, in tables whose frames are in use: the call does
  not panic; the frames \<open>F\<close> it takes for new tables were free, are the only ones no longer free, and
  the tables stay in order with them. Then either every address of the page translates to the given
  frame plus its offset in the page, and every other address translates as before, or no page of
  memory is free and no translation has changed.
\<close>

theorem paging_map_page_correct:
  assumes "tables st pml4 S" and "no_huge st (paging_level st - 1) pml4 virt"
    and "phys AND NOT PTE_ADDR_MASK = 0" and "flags AND PTE_ADDR_MASK = 0" and "flags AND PTE_PRESENT \<noteq> 0"
  shows "\<exists>st' F. paging_map_page pml4 virt phys flags st = Inr st' \<and> tables st' pml4 (S \<union> F) \<and>
    (\<forall>q\<in>F. page_free (frames st) q) \<and> (\<forall>q. page_free (frames st') q \<longleftrightarrow> page_free (frames st) q \<and> q \<notin> F) \<and>
    flushes st' = flushes st @ [virt] \<and>
    ((\<forall>x. paging_get_phys pml4 x st' =
        (if same_page (paging_level st) virt x then phys + (x AND 0xFFF) else paging_get_phys pml4 x st)) \<or>
     (\<forall>q. \<not> page_free (frames st') q) \<and> (\<forall>x. paging_get_phys pml4 x st' = paging_get_phys pml4 x st))"
  using map_page_spec [OF assms] by blast

text \<open>
  C15. Unmapping a page whose path holds no large page: the call does not panic, takes and releases no
  frame, invalidates the page in the TLB, and afterwards no address of the page translates and every
  other address translates as before.
\<close>

theorem paging_unmap_page_correct:
  assumes "tables st pml4 S" and "no_huge st (paging_level st - 1) pml4 virt"
  shows "\<exists>st'. paging_unmap_page pml4 virt st = Inr st' \<and> tables st' pml4 S \<and> frames st' = frames st \<and>
    flushes st' = flushes st @ [virt] \<and>
    (\<forall>x. paging_get_phys pml4 x st' = (if same_page (paging_level st) virt x then 0 else paging_get_phys pml4 x st))"
proof -
  let ?l = "paging_level st - 1"
  have l: "Suc ?l = paging_level st" using assms(1) by (simp add: tables_def)
  obtain r where r: "walk_loop ?l pml4 virt 0 False st = Inr (st, r)"
    "if r = 0 then \<forall>x. same_page (Suc ?l) virt x \<longrightarrow> phys_loop ?l pml4 x st = 0 else leaf st ?l pml4 virt r"
    using walk_noalloc [of st ?l pml4 S virt] assms by (auto simp: tables_def)
  let ?a = "entry_addr r (level_index 0 virt)"
  define st2 where "st2 = (if r \<noteq> 0 \<and> ?a \<noteq> 0 \<and> present (pt st ?a) then store_pte ?a 0 st else st)"
  have run: "paging_unmap_page pml4 virt st = Inr (paging_flush_tlb_page virt st2)"
    using r(1) by (simp add: paging_unmap_page_def paging_unmap_page_noflush_def paging_get_pte_def walk_to_level_def
      st2_def level_index_def present_def)
  have "tables st2 pml4 S \<and> (\<forall>x. paging_get_phys pml4 x st2 = (if same_page (paging_level st) virt x then 0 else paging_get_phys pml4 x st))"
  proof (cases "r = 0")
    case True
    then show ?thesis using r(2) assms(1) l by (simp add: st2_def paging_get_phys_def)
  next
    case False
    then have lf: "leaf st ?l pml4 virt r" using r(2) by simp
    obtain q where q: "q \<in> S" "r = page_addr (pma_memory (frames st)) q" using leaf_frame [OF _ lf] assms(1) by (auto simp: tables_def)
    have "range_is_safe r 4096" "r \<noteq> 0" using frames_okD(4,5) [of st S q] q assms(1) by (simp_all add: tables_def)
    then have a: "?a \<noteq> 0" using entry_nonzero level_index_nat [of 0 virt] by auto
    show ?thesis
    proof (cases "present (pt st ?a)")
      case True
      then show ?thesis using tables_store [OF assms(1) lf, of 0] False a by (simp add: st2_def leaf_value_def present_def)
    next
      case np: False
      then have "same_page (paging_level st) virt x \<Longrightarrow> paging_get_phys pml4 x st = 0" for x
        using leaf_phys [OF lf, of x] l by (simp add: paging_get_phys_def leaf_value_def)
      then show ?thesis using np assms(1) by (simp add: st2_def)
    qed
  qed
  moreover have "frames st2 = frames st" "flushes st2 = flushes st" by (simp_all add: st2_def store_pte_def)
  ultimately show ?thesis using run flush_frame by simp
qed

text \<open>Four-level tables in the five pages of \<open>demo_pma\<close>: the empty top table is in page 4.\<close>

definition demo_paging :: paging_state where
  "demo_paging = \<lparr>pt = (\<lambda>_. 0), paging_level = 4, frames = demo_pma, flushes = []\<rparr>"

lemma demo_tables: "tables demo_paging 0x104000 {4}" "no_huge demo_paging (paging_level demo_paging - 1) 0x104000 v"
proof -
  have a: "page_addr (pma_memory (frames demo_paging)) p = of_nat p * 4096 + 0x100000" for p
    by (simp add: demo_paging_def demo_pma_def page_addr_def)
  have z: "\<And>j. j < 512 \<Longrightarrow> pt demo_paging (cell demo_paging 4 j) = 0" by (simp add: demo_paging_def)
  have t: "ptree demo_paging l 0x104000 {4}" "no_huge demo_paging l 0x104000 v" for l
    using zero_table(1,3) [where p = 4 and st = demo_paging, OF _ z] by (simp_all add: a)
  have n: "unat (total_pages (pma_normal demo_pma)) = 5" by (simp add: demo_pma_def demo_normal_def)
  have "ptr_is_canonical x \<longleftrightarrow> x = signed_drop_bit 7 (push_bit 7 x)" for x by (simp add: ptr_is_canonical_def)
  have "range_is_safe 0x101000 4096" "range_is_safe 0x102000 4096" "range_is_safe 0x103000 4096" "range_is_safe 0x104000 4096"
    by code_simp+
  then have "frames_ok demo_paging {4}"
    by (simp add: frames_ok_def a) (simp add: demo_paging_def demo_pma_inv n less_5 demo_free)
  then show "tables demo_paging 0x104000 {4}" using t by (simp add: tables_def demo_paging_def)
  show "no_huge demo_paging (paging_level demo_paging - 1) 0x104000 v" by (rule t(2))
qed

lemma demo_page: "same_page 4 0x7F000 0x7F123"
proof -
  have "(k::nat) < 4 \<longleftrightarrow> k = 0 \<or> k = 1 \<or> k = 2 \<or> k = 3" for k by auto
  then show ?thesis by (auto simp: same_page_def level_index_def)
qed

theorem paging_map_page_correct_witness:
  "\<exists>st'. paging_map_page 0x104000 0x7F000 0x2000 3 demo_paging = Inr st' \<and>
     (paging_get_phys 0x104000 0x7F123 st' = 0x2123 \<or> (\<forall>q. \<not> page_free (frames st') q))"
proof -
  have f: "(0x2000::u64) AND NOT PTE_ADDR_MASK = 0" "(3::u64) AND PTE_ADDR_MASK = 0" "(3::u64) AND PTE_PRESENT \<noteq> 0"
    by (simp_all add: PTE_ADDR_MASK_def PTE_PRESENT_def)
  have "(0x2000::u64) + (0x7F123 AND 0xFFF) = 0x2123" by simp
  moreover have "paging_level demo_paging = 4" by (simp add: demo_paging_def)
  ultimately show ?thesis using demo_page paging_map_page_correct [OF demo_tables f, of "0x7F000"] by metis
qed

theorem paging_unmap_page_correct_witness:
  "\<exists>st'. paging_unmap_page 0x104000 0x7F000 demo_paging = Inr st' \<and> paging_get_phys 0x104000 0x7F123 st' = 0"
proof -
  have "paging_level demo_paging = 4" by (simp add: demo_paging_def)
  then show ?thesis using demo_page paging_unmap_page_correct [OF demo_tables, of "0x7F000"] by metis
qed

end
