(* ===== verification/Heap_Proofs.thy ===== *)
theory Heap_Proofs
  imports Heap Paging_Proofs
begin

text \<open>
  The kernel heap is a partition of the address ranges it owns into blocks. \<open>heap_inv\<close> ties a state to
  the ghost list of its blocks: the links, the alignment, the disjointness of the blocks and the fact
  that a block that does not start a region begins where its predecessor ends. \<open>live\<close> is the abstract
  state, the blocks in use with their sizes. Splitting, merging and marking keep the invariant; from
  them the lemmas on \<^verbatim>\<open>malloc\<close>, \<^verbatim>\<open>free\<close> and \<^verbatim>\<open>realloc\<close> follow.
\<close>

section \<open>Flags and updates\<close>

lemma flag_bit: "(w :: u32) AND push_bit n 1 \<noteq> 0 \<longleftrightarrow> bit w n"
  by (rule bit_iff_and_push_bit_not_eq_0 [symmetric])

lemma is_free_bit: "BH_IS_FREE h \<longleftrightarrow> bit (bflags h) 0"
  unfolding BH_IS_FREE_def BH_FREE_def flag_bit by (rule refl)

lemma is_pool_bit: "BH_IS_POOL h \<longleftrightarrow> bit (bflags h) 1"
  unfolding BH_IS_POOL_def BH_POOL_BLOCK_def flag_bit by (rule refl)

lemma is_boundary_bit: "BH_IS_BOUNDARY h \<longleftrightarrow> bit (bflags h) 2"
  unfolding BH_IS_BOUNDARY_def BH_BOUNDARY_START_def flag_bit by (rule refl)

lemma set_free_fields [simp]:
  "BH_IS_FREE (BH_SET_FREE h)" "BH_IS_POOL (BH_SET_FREE h) = BH_IS_POOL h"
  "BH_IS_BOUNDARY (BH_SET_FREE h) = BH_IS_BOUNDARY h" "magic (BH_SET_FREE h) = magic h"
  "bsize (BH_SET_FREE h) = bsize h" "bnext (BH_SET_FREE h) = bnext h" "bprev (BH_SET_FREE h) = bprev h"
  by (simp_all add: is_free_bit is_pool_bit is_boundary_bit) (simp_all add: BH_SET_FREE_def BH_FREE_def bit_simps)

lemma clr_free_fields [simp]:
  "\<not> BH_IS_FREE (BH_CLR_FREE h)" "BH_IS_POOL (BH_CLR_FREE h) = BH_IS_POOL h"
  "BH_IS_BOUNDARY (BH_CLR_FREE h) = BH_IS_BOUNDARY h" "magic (BH_CLR_FREE h) = magic h"
  "bsize (BH_CLR_FREE h) = bsize h" "bnext (BH_CLR_FREE h) = bnext h" "bprev (BH_CLR_FREE h) = bprev h"
  by (simp_all add: is_free_bit is_pool_bit is_boundary_bit) (simp_all add: BH_CLR_FREE_def BH_FREE_def bit_simps)

lemma flags_upd [simp]:
  "BH_IS_FREE (bprev_update f h) = BH_IS_FREE h" "BH_IS_POOL (bprev_update f h) = BH_IS_POOL h"
  "BH_IS_BOUNDARY (bprev_update f h) = BH_IS_BOUNDARY h" "BH_IS_FREE (bnext_update f h) = BH_IS_FREE h"
  "BH_IS_POOL (bnext_update f h) = BH_IS_POOL h" "BH_IS_BOUNDARY (bnext_update f h) = BH_IS_BOUNDARY h"
  "BH_IS_FREE (bsize_update g h) = BH_IS_FREE h" "BH_IS_POOL (bsize_update g h) = BH_IS_POOL h"
  "BH_IS_BOUNDARY (bsize_update g h) = BH_IS_BOUNDARY h"
  by (simp_all add: BH_IS_FREE_def BH_IS_POOL_def BH_IS_BOUNDARY_def)

lemma set_hdr_fields [simp]:
  "hdr (set_hdr p f st) = (hdr st)(p := f (hdr st p))" "head (set_hdr p f st) = head st"
  "tail (set_hdr p f st) = tail st" "last_fit (set_hdr p f st) = last_fit st"
  "vmm (set_hdr p f st) = vmm st" "pools (set_hdr p f st) = pools st" "bytes (set_hdr p f st) = bytes st"
  "pool_page_registry (set_hdr p f st) = pool_page_registry st"
  by (simp_all add: set_hdr_def)

section \<open>The block list\<close>

definition hd_or :: "u64 \<Rightarrow> u64 list \<Rightarrow> u64" where
  "hd_or q xs = (case xs of [] \<Rightarrow> q | x # _ \<Rightarrow> x)"

definition last_or :: "u64 \<Rightarrow> u64 list \<Rightarrow> u64" where
  "last_or p xs = (if xs = [] then p else last xs)"

lemma hd_or_simps [simp]: "hd_or q [] = q" "hd_or q (x # xs) = x" "hd_or q (xs @ ys) = hd_or (hd_or q ys) xs"
  by (simp_all add: hd_or_def split: list.split)

lemma last_or_simps [simp]: "last_or p [] = p" "last_or p (x # xs) = last_or x xs" "last_or p (xs @ ys) = last_or (last_or p xs) ys"
  by (simp_all add: last_or_def)

definition bend :: "(u64 \<Rightarrow> BlockHeader) \<Rightarrow> u64 \<Rightarrow> nat" where
  "bend h b = unat b + 48 + unat (bsize (h b))"

definition extent :: "(u64 \<Rightarrow> BlockHeader) \<Rightarrow> u64 \<Rightarrow> nat set" where
  "extent h b = {unat b ..< bend h b}"

definition sound_block :: "(u64 \<Rightarrow> BlockHeader) \<Rightarrow> u64 \<Rightarrow> bool" where
  "sound_block h b \<longleftrightarrow> magic (h b) = HEAP_MAGIC \<and> b \<noteq> 0 \<and> 16 dvd unat b \<and> 16 dvd unat (bsize (h b)) \<and> bend h b < 2 ^ 64"

text \<open>A block starts a region, is a pool page, or begins where its predecessor ends.\<close>

definition joined :: "(u64 \<Rightarrow> BlockHeader) \<Rightarrow> u64 \<Rightarrow> u64 \<Rightarrow> bool" where
  "joined h p b \<longleftrightarrow> BH_IS_BOUNDARY (h b) \<or> BH_IS_POOL (h b) \<or> p \<noteq> 0 \<and> \<not> BH_IS_POOL (h p) \<and> unat b = bend h p"

text \<open>The blocks \<open>bs\<close> are linked in order, with \<open>p\<close> before them and \<open>q\<close> behind them.\<close>

fun hlist :: "(u64 \<Rightarrow> BlockHeader) \<Rightarrow> u64 \<Rightarrow> u64 list \<Rightarrow> u64 \<Rightarrow> bool" where
  "hlist h p [] q \<longleftrightarrow> True"
| "hlist h p (b # bs) q \<longleftrightarrow> bprev (h b) = p \<and> bnext (h b) = hd_or q bs \<and> sound_block h b \<and> joined h p b \<and> hlist h b bs q"

definition apart :: "(u64 \<Rightarrow> BlockHeader) \<Rightarrow> u64 set \<Rightarrow> bool" where
  "apart h B \<longleftrightarrow> (\<forall>a\<in>B. \<forall>b\<in>B. a \<noteq> b \<longrightarrow> bend h a \<le> unat b \<or> bend h b \<le> unat a)"

definition heap_inv :: "heap_state \<Rightarrow> u64 list \<Rightarrow> bool" where
  "heap_inv st bs \<longleftrightarrow> hlist (hdr st) 0 bs 0 \<and> head st = hd_or 0 bs \<and> tail st = last_or 0 bs \<and> distinct bs \<and>
     apart (hdr st) (set bs) \<and> (last_fit st = 0 \<or> last_fit st \<in> set bs)"

definition live :: "heap_state \<Rightarrow> u64 list \<Rightarrow> (u64 \<times> nat) set" where
  "live st bs = (\<lambda>b. (b, unat (bsize (hdr st b)))) ` {b \<in> set bs. \<not> BH_IS_FREE (hdr st b)}"

definition space :: "(u64 \<Rightarrow> BlockHeader) \<Rightarrow> u64 list \<Rightarrow> nat set" where
  "space h bs = (\<Union>b\<in>set bs. extent h b)"

lemma hlist_append: "hlist h p (xs @ ys) q \<longleftrightarrow> hlist h p xs (hd_or q ys) \<and> hlist h (last_or p xs) ys q"
  by (induction xs arbitrary: p) auto

lemma hlist_cong:
  assumes "\<And>b. b \<in> set bs \<Longrightarrow> h' b = h b" and "bs \<noteq> [] \<Longrightarrow> BH_IS_POOL (h' p) = BH_IS_POOL (h p) \<and> bend h' p = bend h p"
  shows "hlist h' p bs q = hlist h p bs q"
  using assms
proof (induction bs arbitrary: p)
  case (Cons b bs)
  have "h' b = h b" using Cons.prems(1) by simp
  moreover have "hlist h' b bs q = hlist h b bs q"
    using Cons.IH [of b] Cons.prems(1) by (auto simp: bend_def)
  ultimately show ?case using Cons.prems(2) by (simp add: sound_block_def joined_def bend_def)
qed simp

lemma hlist_sound: "hlist h p bs q \<Longrightarrow> b \<in> set bs \<Longrightarrow> sound_block h b"
  by (induction bs arbitrary: p) auto

lemma bend_sound: "sound_block h b \<Longrightarrow> unat b < bend h b \<and> bend h b < 2 ^ 64"
  by (simp add: sound_block_def bend_def)

lemma apart_inside:
  assumes "apart h B" "a \<in> B" "b \<in> B" "unat a \<le> unat b" "unat b < bend h a"
  shows "a = b"
proof (rule ccontr)
  assume "a \<noteq> b"
  then have "bend h a \<le> unat b \<or> bend h b \<le> unat a" using assms(1-3) unfolding apart_def by blast
  then show False using assms(4,5) by (auto simp: bend_def)
qed

lemma heap_inv_middle:
  assumes "heap_inv st (xs @ c # ys)"
  shows "sound_block (hdr st) c" "bprev (hdr st c) = last_or 0 xs" "bnext (hdr st c) = hd_or 0 ys"
    "joined (hdr st) (last_or 0 xs) c" "hlist (hdr st) 0 xs c" "hlist (hdr st) c ys 0" "c \<notin> set xs" "c \<notin> set ys"
    "\<forall>b\<in>set xs. b \<notin> set ys" "distinct xs" "distinct ys" "0 \<notin> set (xs @ c # ys)"
  using assms hlist_sound [of "hdr st" 0 "xs @ c # ys" 0]
  by (auto simp: heap_inv_def hlist_append sound_block_def)

text \<open>The list behind a changed block: its first element may get a new predecessor.\<close>

definition relink :: "u64 list \<Rightarrow> u64 \<Rightarrow> (u64 \<Rightarrow> BlockHeader) \<Rightarrow> u64 \<Rightarrow> BlockHeader" where
  "relink ys p h = (case ys of [] \<Rightarrow> h | y # _ \<Rightarrow> h(y := (h y)\<lparr>bprev := p\<rparr>))"

lemma relink_other [simp]: "b \<notin> set ys \<Longrightarrow> relink ys p h b = h b"
  by (cases ys) (auto simp: relink_def)

lemma relink_fields [simp]:
  "bsize (relink ys p h b) = bsize (h b)" "magic (relink ys p h b) = magic (h b)" "bnext (relink ys p h b) = bnext (h b)"
  "BH_IS_FREE (relink ys p h b) = BH_IS_FREE (h b)" "BH_IS_POOL (relink ys p h b) = BH_IS_POOL (h b)"
  "BH_IS_BOUNDARY (relink ys p h b) = BH_IS_BOUNDARY (h b)"
  by (simp_all add: relink_def split: list.split)

lemma relink_bend [simp]: "bend (relink ys p h) = bend h"
  by (rule ext) (simp add: bend_def)

lemma hlist_relink:
  assumes "hlist h c ys q" "distinct ys" "p \<notin> set ys" "p \<noteq> 0"
    and "\<And>b. b \<in> set ys \<Longrightarrow> h' b = h b" and "bend h' p = bend h c" "BH_IS_POOL (h' p) = BH_IS_POOL (h c)"
  shows "hlist (relink ys p h') p ys q"
proof (cases ys)
  case (Cons y zs)
  have "hlist (relink ys p h') y zs q = hlist h y zs q"
    using assms(2,5) Cons by (intro hlist_cong) (auto simp: relink_def bend_def)
  moreover have "relink ys p h' y = (h y)\<lparr>bprev := p\<rparr>" using assms(5) Cons by (simp add: relink_def)
  ultimately show ?thesis
    using assms(1,3,4,5,6,7) Cons by (simp add: sound_block_def joined_def) (auto simp: bend_def)
qed simp

section \<open>Splitting\<close>

lemma split_fields:
  assumes "bnext (hdr st c) = hd_or 0 ys" "0 \<notin> set ys" "c \<notin> set ys" "c \<noteq> c + 48 + sz"
  shows "hdr (split_block c sz st) =
    (relink ys (c + 48 + sz) ((hdr st)(c + 48 + sz := zero_header\<lparr>magic := HEAP_MAGIC, bsize := bsize (hdr st c) - sz - 48, bflags := BH_FREE,
       bnext := hd_or 0 ys, bprev := c\<rparr>)))(c := (hdr st c)\<lparr>bnext := c + 48 + sz, bsize := sz\<rparr>)"
    "head (split_block c sz st) = head st" "last_fit (split_block c sz st) = last_fit st"
    "tail (split_block c sz st) = (if ys = [] then c + 48 + sz else tail st)" "vmm (split_block c sz st) = vmm st"
  using assms by (cases ys; auto simp: split_block_def Let_def HEADER_SIZE_def relink_def fun_eq_iff)+

lemma apart_split:
  assumes "apart h B" "c \<in> B" "s \<notin> B" "bend h' c = unat s" "bend h' s = bend h c" "unat c < unat s" "unat s < bend h c"
    and "\<And>b. b \<noteq> c \<Longrightarrow> b \<noteq> s \<Longrightarrow> bend h' b = bend h b"
  shows "apart h' (insert s B)"
proof -
  have old: "bend h a \<le> unat b \<or> bend h b \<le> unat a" if "a \<in> B" "b \<in> B" "a \<noteq> b" for a b
    using assms(1) that unfolding apart_def by blast
  have "bend h' a \<le> unat b \<or> bend h' b \<le> unat a" if "a \<in> insert s B" "b \<in> insert s B" "a \<noteq> b" for a b
    using that old [of a b] old [of a c] old [of c b] assms(2-8)
    by (cases "a = s"; cases "b = s"; cases "a = c"; cases "b = c"; force)
  then show ?thesis unfolding apart_def by blast
qed

text \<open>The geometry of a split: the two parts tile the old block and everything else stays in place.\<close>

lemma split_geometry:
  assumes inv: "heap_inv st (xs @ c # ys)" and sz: "unat sz + 48 \<le> unat (bsize (hdr st c))"
  shows "unat (c + 48 + sz) = unat c + 48 + unat sz" "c + 48 + sz \<notin> set (xs @ c # ys)" "c + 48 + sz \<noteq> 0"
    "bend (hdr (split_block c sz st)) c = unat (c + 48 + sz)"
    "bend (hdr (split_block c sz st)) (c + 48 + sz) = bend (hdr st) c"
    "\<And>b. b \<noteq> c \<Longrightarrow> b \<noteq> c + 48 + sz \<Longrightarrow> bend (hdr (split_block c sz st)) b = bend (hdr st) b"
proof -
  note m = heap_inv_middle [OF inv]
  have lt: "unat c + 48 + unat (bsize (hdr st c)) < 2 ^ 64" using bend_sound [OF m(1)] by (simp add: bend_def)
  have "unat (c + 48) = unat c + 48" using lt by (subst unat_plus_small) auto
  then show s: "unat (c + 48 + sz) = unat c + 48 + unat sz" using lt sz by (subst unat_plus_small) auto
  then have "unat (c + 48 + sz) \<noteq> unat 0" by simp
  then show "c + 48 + sz \<noteq> 0" by metis
  have "unat (c + 48 + sz) \<noteq> unat c" using s by linarith
  then have "c + 48 + sz \<noteq> c" by metis
  moreover have "c = c + 48 + sz" if "c + 48 + sz \<in> set (xs @ c # ys)"
    using inv that s sz by (intro apart_inside [of "hdr st" "set (xs @ c # ys)"]) (auto simp: heap_inv_def bend_def)
  ultimately show n: "c + 48 + sz \<notin> set (xs @ c # ys)" by auto
  have f: "hdr (split_block c sz st) =
    (relink ys (c + 48 + sz) ((hdr st)(c + 48 + sz := zero_header\<lparr>magic := HEAP_MAGIC, bsize := bsize (hdr st c) - sz - 48, bflags := BH_FREE,
       bnext := hd_or 0 ys, bprev := c\<rparr>)))(c := (hdr st c)\<lparr>bnext := c + 48 + sz, bsize := sz\<rparr>)"
    using m(3,8,12) n by (intro split_fields) auto
  show "bend (hdr (split_block c sz st)) c = unat (c + 48 + sz)" by (simp add: f bend_def s)
  have "unat (bsize (hdr st c) - sz - 48) = unat (bsize (hdr st c)) - unat sz - 48"
    using sz by (simp add: unat_minus_le word_le_nat_alt)
  then show "bend (hdr (split_block c sz st)) (c + 48 + sz) = bend (hdr st) c"
    using n sz by (simp add: f bend_def s)
  show "bend (hdr (split_block c sz st)) b = bend (hdr st) b" if "b \<noteq> c" "b \<noteq> c + 48 + sz" for b
    using that by (simp add: f bend_def)
qed

lemma dvd_rest: "(a::nat) + b + 48 = c \<Longrightarrow> 16 dvd c \<Longrightarrow> 16 dvd b \<Longrightarrow> 16 dvd a"
  by presburger

lemma split_inv:
  assumes inv: "heap_inv st (xs @ c # ys)" and sz: "unat sz + 48 \<le> unat (bsize (hdr st c))" "16 dvd unat sz"
    and np: "\<not> BH_IS_POOL (hdr st c)"
  shows "heap_inv (split_block c sz st) (xs @ c # (c + 48 + sz) # ys)"
proof -
  define s where "s = c + 48 + sz"
  define n where "n = zero_header\<lparr>magic := HEAP_MAGIC, bsize := bsize (hdr st c) - sz - 48, bflags := BH_FREE, bnext := hd_or 0 ys, bprev := c\<rparr>"
  define h' where "h' = hdr (split_block c sz st)"
  note m = heap_inv_middle [OF inv]
  note g = split_geometry [OF inv sz(1), folded s_def h'_def]
  have f: "h' = (relink ys s ((hdr st)(s := n)))(c := (hdr st c)\<lparr>bnext := s, bsize := sz\<rparr>)"
    and f': "head (split_block c sz st) = head st" "last_fit (split_block c sz st) = last_fit st"
      "tail (split_block c sz st) = (if ys = [] then s else tail st)"
    using split_fields [of st c ys sz] m(3,8,12) g(2) by (auto simp: s_def h'_def n_def)
  have sb: "sound_block (hdr st) c" "bend (hdr st) c < 2 ^ 64" using m(1) bend_sound by auto
  have nf: "\<not> BH_IS_POOL n" "\<not> BH_IS_BOUNDARY n" "magic n = HEAP_MAGIC" "bprev n = c" "bnext n = hd_or 0 ys"
    by (simp_all add: n_def BH_IS_POOL_def BH_IS_BOUNDARY_def BH_FREE_def BH_POOL_BLOCK_def BH_BOUNDARY_START_def)
  have hs: "h' s = n" and hc: "h' c = (hdr st c)\<lparr>bnext := s, bsize := sz\<rparr>" using g(2) by (auto simp: f)
  have "hlist h' 0 xs c = hlist (hdr st) 0 xs c"
    using m(7,9,12) g(2,3,6) by (intro hlist_cong) (auto simp: f)
  moreover have "hlist h' s ys 0 = hlist (relink ys s ((hdr st)(s := n))) s ys 0"
    using m(8) g(2) by (intro hlist_cong) (auto simp: f bend_def)
  moreover have "hlist (relink ys s ((hdr st)(s := n))) s ys 0"
    using m(6,8,11) g(2,3,5) np nf(1) by (intro hlist_relink [of _ c]) (auto simp: f bend_def)
  moreover have "sound_block h' c" using sb g(4) sz g(1) by (simp add: sound_block_def hc g(4)) (simp add: bend_def)
  moreover have "sound_block h' s"
  proof -
    have "16 dvd unat s" using g(1) sb sz by (simp add: sound_block_def)
    moreover have "unat (bsize (h' s)) + unat sz + 48 = unat (bsize (hdr st c))"
      using g(1,5) by (simp add: bend_def)
    then have "16 dvd unat (bsize (h' s))" using sb sz(2) by (auto simp: sound_block_def intro: dvd_rest)
    ultimately show ?thesis using sb g(3,5) nf by (simp add: sound_block_def hs)
  qed
  moreover have "joined h' (last_or 0 xs) c"
  proof -
    have "last_or 0 xs \<noteq> c" "last_or 0 xs \<noteq> s" using m(7,12) g(2,3) by (cases xs rule: rev_cases; auto)+
    then have "bend h' (last_or 0 xs) = bend (hdr st) (last_or 0 xs)" "BH_IS_POOL (h' (last_or 0 xs)) = BH_IS_POOL (hdr st (last_or 0 xs))"
      using g(6) by (auto simp: f)
    then show ?thesis using m(4) by (simp add: joined_def hc)
  qed
  moreover have "joined h' c s" using g(4) np m(12) by (simp add: joined_def hc)
  ultimately have "hlist h' 0 (xs @ c # s # ys) 0"
    using m(2,5) nf by (simp add: hlist_append hs hc)
  moreover have "apart h' (set (xs @ c # s # ys))"
    using apart_split [of "hdr st" "set (xs @ c # ys)" c s h'] inv g m(1) sz(1)
    by (auto simp: heap_inv_def insert_commute bend_def)
  ultimately show ?thesis
    using inv f' g(2) unfolding heap_inv_def h'_def s_def by (auto simp: last_or_def)
qed

section \<open>Merging\<close>

text \<open>The step that \<^verbatim>\<open>_free\<close> and \<^verbatim>\<open>realloc\<close> share: the block \<open>b\<close> becomes part of its predecessor \<open>a\<close>.\<close>

definition merge_blocks :: "u64 \<Rightarrow> u64 \<Rightarrow> heap_state \<Rightarrow> heap_state" where
  "merge_blocks a b st0 =
     (let f = hdr st0 b;
          st1 = set_hdr a (\<lambda>h. h\<lparr>bsize := bsize h + (HEADER_SIZE + bsize f), bnext := bnext f\<rparr>) st0;
          st2 = (if bnext f \<noteq> 0 then set_hdr (bnext f) (bprev_update (\<lambda>_. a)) st1 else st1\<lparr>tail := a\<rparr>) in
      if last_fit st2 = b then st2\<lparr>last_fit := a\<rparr> else st2)"

lemma merge_fields:
  assumes "bnext (hdr st b) = hd_or 0 ys" "0 \<notin> set ys" "a \<notin> set ys"
  shows "hdr (merge_blocks a b st) = (relink ys a (hdr st))(a := (hdr st a)\<lparr>bsize := bsize (hdr st a) + (48 + bsize (hdr st b)), bnext := hd_or 0 ys\<rparr>)"
    "head (merge_blocks a b st) = head st" "last_fit (merge_blocks a b st) = (if last_fit st = b then a else last_fit st)"
    "tail (merge_blocks a b st) = (if ys = [] then a else tail st)" "vmm (merge_blocks a b st) = vmm st"
proof -
  consider "ys = []" | y zs where "ys = y # zs" "y \<noteq> 0" "y \<noteq> a" using assms(2,3) by (cases ys) auto
  note cs = this
  show "hdr (merge_blocks a b st) = (relink ys a (hdr st))(a := (hdr st a)\<lparr>bsize := bsize (hdr st a) + (48 + bsize (hdr st b)), bnext := hd_or 0 ys\<rparr>)"
    by (cases rule: cs) (simp_all add: merge_blocks_def Let_def HEADER_SIZE_def relink_def assms(1) fun_upd_twist)
  show "head (merge_blocks a b st) = head st" "last_fit (merge_blocks a b st) = (if last_fit st = b then a else last_fit st)"
    "tail (merge_blocks a b st) = (if ys = [] then a else tail st)" "vmm (merge_blocks a b st) = vmm st"
    by (cases rule: cs; simp add: merge_blocks_def Let_def assms(1))+
qed

lemma apart_merge:
  assumes "apart h B" "a \<in> B" "b \<in> B" "unat b = bend h a" "bend h' a = bend h b"
    and "\<And>c. c \<noteq> a \<Longrightarrow> bend h' c = bend h c"
  shows "apart h' (B - {b})"
proof -
  have lt: "unat x < bend h x" for x by (simp add: bend_def)
  have old: "bend h x \<le> unat y \<or> bend h y \<le> unat x" if "x \<in> B" "y \<in> B" "x \<noteq> y" for x y
    using assms(1) that unfolding apart_def by blast
  have "bend h' x \<le> unat y \<or> bend h' y \<le> unat x" if xy: "x \<in> B - {b}" "y \<in> B - {b}" "x \<noteq> y" for x y
  proof -
    have "bend h x \<le> unat y \<or> bend h y \<le> unat x" "bend h x \<le> unat b \<or> bend h b \<le> unat x"
      "bend h b \<le> unat y \<or> bend h y \<le> unat b"
      using xy assms(3) old [of x y] old [of x b] old [of b y] by blast+
    then show ?thesis
      using assms(4-6) lt [of x] lt [of y] lt [of b] xy(3) by (cases "x = a"; cases "y = a") auto
  qed
  then show ?thesis unfolding apart_def by blast
qed

lemma merge_geometry:
  assumes inv: "heap_inv st (xs @ a # b # ys)" and b: "\<not> BH_IS_POOL (hdr st b)" "\<not> BH_IS_BOUNDARY (hdr st b)"
  shows "unat b = bend (hdr st) a" "\<not> BH_IS_POOL (hdr st a)" "bend (hdr (merge_blocks a b st)) a = bend (hdr st) b"
    "\<And>c. c \<noteq> a \<Longrightarrow> bend (hdr (merge_blocks a b st)) c = bend (hdr st) c"
    "unat (bsize (hdr st a) + (48 + bsize (hdr st b))) = unat (bsize (hdr st a)) + 48 + unat (bsize (hdr st b))"
proof -
  note m = heap_inv_middle [OF inv]
  note n = heap_inv_middle [of st "xs @ [a]" b ys, simplified, OF inv]
  show ab: "unat b = bend (hdr st) a" "\<not> BH_IS_POOL (hdr st a)" using n(4) b by (auto simp: joined_def)
  have lt: "bend (hdr st) b < 2 ^ 64" using bend_sound [OF n(1)] by simp
  have "unat (48 + bsize (hdr st b)) = 48 + unat (bsize (hdr st b))"
    using lt by (subst unat_plus_small) (auto simp: bend_def)
  then show sz: "unat (bsize (hdr st a) + (48 + bsize (hdr st b))) = unat (bsize (hdr st a)) + 48 + unat (bsize (hdr st b))"
    using lt ab(1) by (subst unat_plus_small) (auto simp: bend_def)
  have f: "hdr (merge_blocks a b st) = (relink ys a (hdr st))(a := (hdr st a)\<lparr>bsize := bsize (hdr st a) + (48 + bsize (hdr st b)), bnext := hd_or 0 ys\<rparr>)"
    using m(8,12) n(3) by (intro merge_fields) auto
  show "bend (hdr (merge_blocks a b st)) a = bend (hdr st) b" using sz ab(1) by (simp add: f bend_def)
  show "bend (hdr (merge_blocks a b st)) c = bend (hdr st) c" if "c \<noteq> a" for c using that by (simp add: f bend_def)
qed

lemma joined_address:
  assumes inv: "heap_inv st (xs @ a # b # ys)" and b: "\<not> BH_IS_POOL (hdr st b)" "\<not> BH_IS_BOUNDARY (hdr st b)"
  shows "b = a + 48 + bsize (hdr st a)"
proof -
  have "unat (a + 48 + bsize (hdr st a)) = bend (hdr st) a"
    using bend_sound [OF heap_inv_middle(1) [OF inv]] by (simp add: bend_def unat_plus_small)
  then show ?thesis using merge_geometry(1) [OF inv b] by (simp add: word_unat_eq_iff)
qed

lemma merge_inv:
  assumes inv: "heap_inv st (xs @ a # b # ys)" and b: "\<not> BH_IS_POOL (hdr st b)" "\<not> BH_IS_BOUNDARY (hdr st b)"
  shows "heap_inv (merge_blocks a b st) (xs @ a # ys)"
proof -
  define h' where "h' = hdr (merge_blocks a b st)"
  note m = heap_inv_middle [OF inv]
  note n = heap_inv_middle [of st "xs @ [a]" b ys, simplified, OF inv]
  note g = merge_geometry [OF inv b, folded h'_def]
  have f: "h' = (relink ys a (hdr st))(a := (hdr st a)\<lparr>bsize := bsize (hdr st a) + (48 + bsize (hdr st b)), bnext := hd_or 0 ys\<rparr>)"
    and f': "head (merge_blocks a b st) = head st" "last_fit (merge_blocks a b st) = (if last_fit st = b then a else last_fit st)"
      "tail (merge_blocks a b st) = (if ys = [] then a else tail st)"
    using merge_fields [of st b ys a] m(8,12) n(3) by (auto simp: h'_def)
  define k where "k = (hdr st)(a := (hdr st a)\<lparr>bsize := bsize (hdr st a) + (48 + bsize (hdr st b)), bnext := hd_or 0 ys\<rparr>)"
  have "hlist h' 0 xs a = hlist (hdr st) 0 xs a"
    using m(7,9,12) g(4) by (intro hlist_cong) (auto simp: f)
  moreover have "hlist h' a ys 0"
  proof -
    have "h' = relink ys a k" using m(8) by (cases ys) (auto simp: f k_def relink_def fun_eq_iff)
    moreover have "bend k a = bend (hdr st) b" using g(3) by (simp add: f k_def bend_def)
    then have "hlist (relink ys a k) a ys 0"
      using n(6,11) m(8,12) b g(2) by (intro hlist_relink [of _ b]) (auto simp: k_def)
    ultimately show ?thesis by simp
  qed
  moreover have "sound_block h' a"
    using m(1) n(1) g(3,5) by (simp add: sound_block_def f)
  moreover have "joined h' (last_or 0 xs) a"
  proof -
    have "last_or 0 xs \<noteq> a" using m(7,12) by (cases xs rule: rev_cases) auto
    then have "bend h' (last_or 0 xs) = bend (hdr st) (last_or 0 xs)" "BH_IS_POOL (h' (last_or 0 xs)) = BH_IS_POOL (hdr st (last_or 0 xs))"
      using g(4) by (auto simp: f)
    then show ?thesis using m(4) by (simp add: joined_def f)
  qed
  ultimately have "hlist h' 0 (xs @ a # ys) 0" using m(2,5) by (simp add: hlist_append f)
  moreover have "apart h' (set (xs @ a # ys))"
    using apart_merge [of "hdr st" "set (xs @ a # b # ys)" a b h'] inv g n(7,8) by (auto simp: heap_inv_def insert_Diff_if)
  ultimately show ?thesis
    using inv f' unfolding heap_inv_def h'_def by (auto simp: last_or_def)
qed

section \<open>Marking, the live blocks and the space\<close>

lemma hlist_fields:
  assumes "\<And>b. magic (h' b) = magic (h b)" "\<And>b. bsize (h' b) = bsize (h b)" "\<And>b. bnext (h' b) = bnext (h b)" "\<And>b. bprev (h' b) = bprev (h b)"
    "\<And>b. BH_IS_POOL (h' b) = BH_IS_POOL (h b)" "\<And>b. BH_IS_BOUNDARY (h' b) = BH_IS_BOUNDARY (h b)"
  shows "hlist h' p bs q = hlist h p bs q"
  by (induction bs arbitrary: p) (simp_all add: assms sound_block_def joined_def bend_def)

lemma mark_inv:
  assumes "heap_inv st bs" "F = BH_SET_FREE \<or> F = BH_CLR_FREE"
  shows "heap_inv (set_hdr c F st) bs"
proof -
  have "hlist (hdr (set_hdr c F st)) 0 bs 0 = hlist (hdr st) 0 bs 0"
    by (rule hlist_fields) (use assms(2) in auto)
  moreover have "bend (hdr (set_hdr c F st)) b = bend (hdr st) b" for b
    using assms(2) by (auto simp: bend_def)
  ultimately show ?thesis using assms(1) by (simp add: heap_inv_def apart_def)
qed

lemma heap_inv_last_fit: "heap_inv st bs \<Longrightarrow> c \<in> set bs \<Longrightarrow> heap_inv (st\<lparr>last_fit := c\<rparr>) bs"
  by (simp add: heap_inv_def)

lemma live_insert: "live st (xs @ c # ys) = live st (xs @ ys) \<union> (if BH_IS_FREE (hdr st c) then {} else {(c, unat (bsize (hdr st c)))})"
  by (auto simp: live_def)

lemma live_cong:
  assumes "\<And>b. b \<in> set bs \<Longrightarrow> bsize (hdr st' b) = bsize (hdr st b) \<and> BH_IS_FREE (hdr st' b) = BH_IS_FREE (hdr st b)"
  shows "live st' bs = live st bs"
  unfolding live_def using assms by (intro image_cong) auto

lemma live_block: "(b, n) \<in> live st bs \<longleftrightarrow> b \<in> set bs \<and> \<not> BH_IS_FREE (hdr st b) \<and> n = unat (bsize (hdr st b))"
  by (auto simp: live_def)

lemma space_insert: "space h (xs @ c # ys) = space h (xs @ ys) \<union> extent h c"
  by (auto simp: space_def)

lemma space_cong: "(\<And>b. b \<in> set bs \<Longrightarrow> bend h' b = bend h b) \<Longrightarrow> space h' bs = space h bs"
  by (simp add: space_def extent_def)

lemma split_live_space:
  assumes inv: "heap_inv st (xs @ c # ys)" and sz: "unat sz + 48 \<le> unat (bsize (hdr st c))"
  shows "live (split_block c sz st) (xs @ c # (c + 48 + sz) # ys) =
      live st (xs @ ys) \<union> (if BH_IS_FREE (hdr st c) then {} else {(c, unat sz)})"
    "space (hdr (split_block c sz st)) (xs @ c # (c + 48 + sz) # ys) = space (hdr st) (xs @ c # ys)"
    "bsize (hdr (split_block c sz st) c) = sz" "BH_IS_FREE (hdr (split_block c sz st) c) = BH_IS_FREE (hdr st c)"
    "BH_IS_FREE (hdr (split_block c sz st) (c + 48 + sz))" "vmm (split_block c sz st) = vmm st"
    "BH_IS_POOL (hdr (split_block c sz st) c) = BH_IS_POOL (hdr st c)"
proof -
  note m = heap_inv_middle [OF inv] and g = split_geometry [OF inv sz]
  note f = split_fields [of st c ys sz]
  have p: "bnext (hdr st c) = hd_or 0 ys" "0 \<notin> set ys" "c \<notin> set ys" "c \<noteq> c + 48 + sz" using m g(2) by auto
  show fr: "BH_IS_FREE (hdr (split_block c sz st) c) = BH_IS_FREE (hdr st c)" "bsize (hdr (split_block c sz st) c) = sz"
    "BH_IS_POOL (hdr (split_block c sz st) c) = BH_IS_POOL (hdr st c)" "vmm (split_block c sz st) = vmm st"
    using f(1,5) [OF p] by simp_all
  show fs: "BH_IS_FREE (hdr (split_block c sz st) (c + 48 + sz))"
    using f(1) [OF p] g(2) by (simp add: BH_IS_FREE_def BH_FREE_def)
  have "live (split_block c sz st) (xs @ ys) = live st (xs @ ys)"
    using f(1) [OF p] m(7,8) g(2) by (intro live_cong) auto
  then show "live (split_block c sz st) (xs @ c # (c + 48 + sz) # ys) =
      live st (xs @ ys) \<union> (if BH_IS_FREE (hdr st c) then {} else {(c, unat sz)})"
    using fr fs by (simp add: live_insert live_insert [of _ "xs @ [_]", simplified])
  have "space (hdr (split_block c sz st)) (xs @ ys) = space (hdr st) (xs @ ys)"
    using g(2) m(7,8) by (intro space_cong g(6)) auto
  moreover have "extent (hdr st) c = extent (hdr (split_block c sz st)) c \<union> extent (hdr (split_block c sz st)) (c + 48 + sz)"
    using g(1,4,5) sz by (auto simp: extent_def) (auto simp: bend_def)
  ultimately show "space (hdr (split_block c sz st)) (xs @ c # (c + 48 + sz) # ys) = space (hdr st) (xs @ c # ys)"
    by (auto simp: space_insert space_insert [of _ "xs @ [_]", simplified])
qed

lemma merge_live_space:
  assumes inv: "heap_inv st (xs @ a # b # ys)" and b: "\<not> BH_IS_POOL (hdr st b)" "\<not> BH_IS_BOUNDARY (hdr st b)"
  shows "live (merge_blocks a b st) (xs @ a # ys) =
      live st (xs @ ys) \<union> (if BH_IS_FREE (hdr st a) then {} else {(a, unat (bsize (hdr st a)) + 48 + unat (bsize (hdr st b)))})"
    "space (hdr (merge_blocks a b st)) (xs @ a # ys) = space (hdr st) (xs @ a # b # ys)"
    "vmm (merge_blocks a b st) = vmm st" "bsize (hdr (merge_blocks a b st) a) = bsize (hdr st a) + (48 + bsize (hdr st b))"
    "BH_IS_FREE (hdr (merge_blocks a b st) a) = BH_IS_FREE (hdr st a)" "BH_IS_POOL (hdr (merge_blocks a b st) a) = BH_IS_POOL (hdr st a)"
    "BH_IS_BOUNDARY (hdr (merge_blocks a b st) a) = BH_IS_BOUNDARY (hdr st a)"
    "bprev (hdr (merge_blocks a b st) a) = bprev (hdr st a)"
proof -
  note m = heap_inv_middle [OF inv] and g = merge_geometry [OF inv b]
  note n = heap_inv_middle [of st "xs @ [a]" b ys, simplified, OF inv]
  have p: "bnext (hdr st b) = hd_or 0 ys" "0 \<notin> set ys" "a \<notin> set ys" using m n by auto
  note f = merge_fields [OF p]
  show fr: "vmm (merge_blocks a b st) = vmm st" "bsize (hdr (merge_blocks a b st) a) = bsize (hdr st a) + (48 + bsize (hdr st b))"
    "BH_IS_FREE (hdr (merge_blocks a b st) a) = BH_IS_FREE (hdr st a)" "BH_IS_POOL (hdr (merge_blocks a b st) a) = BH_IS_POOL (hdr st a)"
    "BH_IS_BOUNDARY (hdr (merge_blocks a b st) a) = BH_IS_BOUNDARY (hdr st a)"
    "bprev (hdr (merge_blocks a b st) a) = bprev (hdr st a)"
    using f by simp_all
  have "live (merge_blocks a b st) (xs @ ys) = live st (xs @ ys)"
    using f m(7,8) by (intro live_cong) auto
  then show "live (merge_blocks a b st) (xs @ a # ys) =
      live st (xs @ ys) \<union> (if BH_IS_FREE (hdr st a) then {} else {(a, unat (bsize (hdr st a)) + 48 + unat (bsize (hdr st b)))})"
    using fr g(5) by (simp add: live_insert)
  have "space (hdr (merge_blocks a b st)) (xs @ ys) = space (hdr st) (xs @ ys)"
    using m(7,8) by (intro space_cong g(4)) auto
  moreover have "extent (hdr (merge_blocks a b st)) a = extent (hdr st) a \<union> extent (hdr st) b"
    using g(1,3) by (auto simp: extent_def) (auto simp: bend_def)
  ultimately show "space (hdr (merge_blocks a b st)) (xs @ a # ys) = space (hdr st) (xs @ a # b # ys)"
    by (auto simp: space_insert space_insert [of _ "xs @ [_]", simplified])
qed

section \<open>Taking and returning blocks\<close>

definition fits :: "u64 \<Rightarrow> heap_state \<Rightarrow> u64 \<Rightarrow> bool" where
  "fits sz st b \<longleftrightarrow> BH_IS_FREE (hdr st b) \<and> \<not> BH_IS_POOL (hdr st b) \<and> sz \<le> bsize (hdr st b)"

lemma split_test:
  assumes "sound_block (hdr st) c" "sz \<le> bsize (hdr st c)"
  shows "sz + HEADER_SIZE + MIN_SPLIT_SIZE \<le> bsize (hdr st c) \<longleftrightarrow> unat sz + 64 \<le> unat (bsize (hdr st c))"
proof -
  have "16 dvd unat c" "unat c \<noteq> 0" "bend (hdr st) c < 2 ^ 64" using assms(1) by (auto simp: sound_block_def unat_eq_0)
  then have "16 \<le> unat c" by (auto dest: dvd_imp_le)
  then have "unat sz + 64 < 2 ^ 64" using \<open>bend (hdr st) c < 2 ^ 64\<close> assms(2) by (simp add: bend_def word_le_nat_alt)
  then show ?thesis by (simp add: HEADER_SIZE_def MIN_SPLIT_SIZE_def word_le_nat_alt unat_plus_small add.assoc)
qed

lemma take_spec:
  assumes inv: "heap_inv st bs" and c: "c \<in> set bs" "fits sz st c" and sz: "16 dvd unat sz"
  shows "\<exists>bs' n. heap_inv (fst (take_block c sz st)) bs' \<and> live (fst (take_block c sz st)) bs' = insert (c, n) (live st bs) \<and> unat sz \<le> n \<and>
    space (hdr (fst (take_block c sz st))) bs' = space (hdr st) bs \<and> vmm (fst (take_block c sz st)) = vmm st"
proof -
  obtain xs ys where bs: "bs = xs @ c # ys" using c(1) by (auto simp: in_set_conv_decomp)
  note inv' = inv [unfolded bs]
  note m = heap_inv_middle [OF inv']
  have c': "BH_IS_FREE (hdr st c)" "\<not> BH_IS_POOL (hdr st c)" "sz \<le> bsize (hdr st c)" using c(2) by (auto simp: fits_def)
  define st1 where "st1 = (if unat sz + 64 \<le> unat (bsize (hdr st c)) then split_block c sz st else st)"
  have t: "fst (take_block c sz st) = (set_hdr c BH_CLR_FREE st1)\<lparr>last_fit := c\<rparr>"
    by (simp add: take_block_def st1_def split_test [OF m(1) c'(3)])
  have "\<exists>zs n. heap_inv st1 (xs @ c # zs) \<and> live st1 (xs @ zs) = live st bs \<and> space (hdr st1) (xs @ c # zs) = space (hdr st) bs \<and>
    vmm st1 = vmm st \<and> unat (bsize (hdr st1 c)) = n \<and> unat sz \<le> n"
  proof (cases "unat sz + 64 \<le> unat (bsize (hdr st c))")
    case True
    then have s: "unat sz + 48 \<le> unat (bsize (hdr st c))" by simp
    note l = split_live_space [OF inv' s]
    have "heap_inv st1 (xs @ c # (c + 48 + sz) # ys)" using split_inv [OF inv' s sz c'(2)] True by (simp add: st1_def)
    moreover have "live st1 (xs @ (c + 48 + sz) # ys) = live st bs"
      using l(1,4,5) c'(1) live_insert [of st1 xs c "(c + 48 + sz) # ys"] live_insert [of st xs c ys] True
      by (simp add: st1_def bs)
    ultimately show ?thesis using l True by (intro exI [of _ "(c + 48 + sz) # ys"]) (simp add: st1_def bs)
  next
    case False
    then show ?thesis using inv c' by (intro exI [of _ ys]) (simp add: st1_def bs live_insert word_le_nat_alt)
  qed
  then obtain zs n where z: "heap_inv st1 (xs @ c # zs)" "live st1 (xs @ zs) = live st bs" "space (hdr st1) (xs @ c # zs) = space (hdr st) bs"
    "vmm st1 = vmm st" "unat (bsize (hdr st1 c)) = n" "unat sz \<le> n" by auto
  let ?st = "fst (take_block c sz st)"
  have "heap_inv ?st (xs @ c # zs)" unfolding t by (intro heap_inv_last_fit mark_inv z(1)) auto
  moreover have "live ?st (xs @ zs) = live st1 (xs @ zs)"
    using heap_inv_middle [OF z(1)] by (intro live_cong) (auto simp: t)
  then have "live ?st (xs @ c # zs) = insert (c, n) (live st bs)" using z(2,5) by (simp add: live_insert) (simp add: t)
  moreover have "space (hdr ?st) (xs @ c # zs) = space (hdr st1) (xs @ c # zs)"
    by (rule space_cong) (auto simp: t bend_def)
  ultimately show ?thesis using z(3,4,6) by (intro exI [of _ "xs @ c # zs"] exI [of _ n]) (simp add: t)
qed

lemma coalesce_merges:
  "forward_coalesce b st = (let f = bnext (hdr st b) in if f \<noteq> 0 \<and> BH_IS_FREE (hdr st f) \<and> \<not> BH_IS_POOL (hdr st f) \<and> \<not> BH_IS_BOUNDARY (hdr st f)
     then merge_blocks b f st else st)"
  "backward_coalesce b st = (let w = bprev (hdr st b) in if w \<noteq> 0 \<and> BH_IS_FREE (hdr st w) \<and> \<not> BH_IS_POOL (hdr st w) \<and> \<not> BH_IS_BOUNDARY (hdr st b)
     then merge_blocks w b st else st)"
  by (simp_all add: forward_coalesce_def backward_coalesce_def merge_blocks_def Let_def)

lemma forward_spec:
  assumes inv: "heap_inv st (xs @ b # ys)" and b: "BH_IS_FREE (hdr st b)"
  shows "\<exists>zs. heap_inv (forward_coalesce b st) (xs @ b # zs) \<and> live (forward_coalesce b st) (xs @ b # zs) = live st (xs @ b # ys) \<and>
    space (hdr (forward_coalesce b st)) (xs @ b # zs) = space (hdr st) (xs @ b # ys) \<and> vmm (forward_coalesce b st) = vmm st \<and>
    BH_IS_FREE (hdr (forward_coalesce b st) b) \<and> BH_IS_POOL (hdr (forward_coalesce b st) b) = BH_IS_POOL (hdr st b)"
proof (cases "forward_coalesce b st = st")
  case True
  then show ?thesis using inv b by auto
next
  case False
  let ?f = "bnext (hdr st b)"
  have f: "?f \<noteq> 0" "BH_IS_FREE (hdr st ?f)" "\<not> BH_IS_POOL (hdr st ?f)" "\<not> BH_IS_BOUNDARY (hdr st ?f)" "forward_coalesce b st = merge_blocks b ?f st"
    using False by (auto simp: coalesce_merges Let_def split: if_splits)
  then obtain zs where ys: "ys = ?f # zs" using heap_inv_middle(3) [OF inv] by (cases ys) auto
  have inv': "heap_inv st (xs @ b # ?f # zs)" using inv ys by simp
  note l = merge_live_space [OF inv' f(3,4)]
  show ?thesis
    using merge_inv [OF inv' f(3,4)] l f(2) b unfolding f(5)
    by (intro exI [of _ zs]) (use ys live_insert [of st xs b ys] live_insert [of st xs ?f zs] in simp)
qed

lemma backward_spec:
  assumes inv: "heap_inv st (xs @ b # ys)" and b: "BH_IS_FREE (hdr st b)" "\<not> BH_IS_POOL (hdr st b)"
  shows "\<exists>zs. heap_inv (backward_coalesce b st) zs \<and> live (backward_coalesce b st) zs = live st (xs @ b # ys) \<and>
    space (hdr (backward_coalesce b st)) zs = space (hdr st) (xs @ b # ys) \<and> vmm (backward_coalesce b st) = vmm st"
proof (cases "backward_coalesce b st = st")
  case True
  then show ?thesis using inv b by auto
next
  case False
  let ?w = "bprev (hdr st b)"
  have w: "?w \<noteq> 0" "BH_IS_FREE (hdr st ?w)" "\<not> BH_IS_BOUNDARY (hdr st b)" "backward_coalesce b st = merge_blocks ?w b st"
    using False by (auto simp: coalesce_merges Let_def split: if_splits)
  then obtain vs where xs: "xs = vs @ [?w]" using heap_inv_middle(2) [OF inv] by (cases xs rule: rev_cases) auto
  have inv': "heap_inv st (vs @ ?w # b # ys)" using inv xs by simp
  note l = merge_live_space [OF inv' b(2) w(3)]
  have "xs @ b # ys = vs @ ?w # b # ys" using xs by simp
  then show ?thesis
    using merge_inv [OF inv' b(2) w(3)] l w(2) b(1) unfolding w(4)
    by (intro exI [of _ "vs @ ?w # ys"]) (simp add: live_insert [of st vs ?w "b # ys"] live_insert [of st vs b ys])
qed

section \<open>The two operations on a well-formed heap\<close>

definition vmm_space :: "vmm_state \<Rightarrow> nat set" where
  "vmm_space v = (\<Union>p\<in>set (ranges (vmm_root v)). {lo p ..< hi p})"

text \<open>The heap's blocks lie in ranges that the virtual address allocator has handed out.\<close>

definition heap_ok :: "heap_state \<Rightarrow> u64 list \<Rightarrow> bool" where
  "heap_ok st bs \<longleftrightarrow> heap_inv st bs \<and> vmm_inv (vmm st) \<and> space (hdr st) bs \<subseteq> vmm_space (vmm st)"

lemma free_block_spec:
  assumes inv: "heap_inv st bs" and b: "(b, n) \<in> live st bs" "\<not> BH_IS_POOL (hdr st b)"
  shows "\<exists>st' bs'. free_block (b + 48) st = Inr st' \<and> heap_inv st' bs' \<and> live st' bs' = live st bs - {(b, n)} \<and>
    space (hdr st') bs' = space (hdr st) bs \<and> vmm st' = vmm st"
proof -
  obtain xs ys where bs: "bs = xs @ b # ys" using b(1) by (auto simp: live_block in_set_conv_decomp)
  note m = heap_inv_middle [OF inv [unfolded bs]]
  let ?s1 = "set_hdr b BH_SET_FREE st"
  have i1: "heap_inv ?s1 (xs @ b # ys)" using mark_inv [OF inv] bs by simp
  have "live ?s1 (xs @ ys) = live st (xs @ ys)" using m(7,8) by (intro live_cong) auto
  moreover have "(b, n) \<notin> live st (xs @ ys)" using m(7,8) by (auto simp: live_block)
  ultimately have l1: "live ?s1 (xs @ b # ys) = live st bs - {(b, n)}"
    using b(1) by (simp add: bs live_insert live_block) (auto simp: live_block)
  have s1: "space (hdr ?s1) (xs @ b # ys) = space (hdr st) bs" unfolding bs by (rule space_cong) (auto simp: bend_def)
  obtain zs where z: "heap_inv (forward_coalesce b ?s1) (xs @ b # zs)" "live (forward_coalesce b ?s1) (xs @ b # zs) = live ?s1 (xs @ b # ys)"
    "space (hdr (forward_coalesce b ?s1)) (xs @ b # zs) = space (hdr ?s1) (xs @ b # ys)" "vmm (forward_coalesce b ?s1) = vmm st"
    "BH_IS_FREE (hdr (forward_coalesce b ?s1) b)" "\<not> BH_IS_POOL (hdr (forward_coalesce b ?s1) b)"
    using forward_spec [OF i1] b(2) by auto
  have "free_block (b + 48) st = Inr (backward_coalesce b (forward_coalesce b ?s1))"
    using m(1) by (simp add: free_block_def HEADER_SIZE_def sound_block_def)
  then show ?thesis using backward_spec [OF z(1,5,6)] z l1 s1 by auto
qed

lemma search_unfold:
  assumes "cur \<noteq> 0" "magic (hdr st cur) = HEAP_MAGIC"
  shows "search_loop sz o1 cur w st = (if fits sz st cur then Some (Inr cur) else
     let nxt = bnext (hdr st cur) in
        if nxt = 0 \<and> \<not> w then (if o1 \<noteq> head st then search_loop sz o1 (head st) True st else Some (Inr 0))
        else if nxt = o1 then Some (Inr 0) else search_loop sz o1 nxt w st)"
  by (subst search_loop.simps) (simp add: assms fits_def)

definition found :: "u64 option \<Rightarrow> u64" where
  "found r = (case r of None \<Rightarrow> 0 | Some b \<Rightarrow> b)"

lemma search_wrapped:
  assumes "hlist (hdr st) p bs o1" "bs \<noteq> []" "o1 \<noteq> 0" "o1 \<notin> set bs"
  shows "search_loop sz o1 (hd bs) True st = Some (Inr (found (find (fits sz st) bs)))"
  using assms
proof (induction bs arbitrary: p)
  case (Cons b bs)
  then have "b \<noteq> 0" "magic (hdr st b) = HEAP_MAGIC" by (auto simp: sound_block_def)
  then show ?case using Cons by (cases bs) (auto simp: search_unfold found_def sound_block_def Let_def)
qed simp

lemma search_straight:
  assumes "hlist (hdr st) p bs 0" "bs \<noteq> []" "o1 \<notin> set (tl bs)"
  shows "search_loop sz o1 (hd bs) False st = (case find (fits sz st) bs of Some b \<Rightarrow> Some (Inr b)
     | None \<Rightarrow> if o1 \<noteq> head st then search_loop sz o1 (head st) True st else Some (Inr 0))"
  using assms
proof (induction bs arbitrary: p)
  case (Cons b bs)
  then have "b \<noteq> 0" "magic (hdr st b) = HEAP_MAGIC" by (auto simp: sound_block_def)
  moreover have "o1 \<notin> set (tl bs)" using Cons.prems(3) by (cases bs) auto
  ultimately show ?case using Cons by (cases bs) (auto simp: search_unfold sound_block_def Let_def)
qed simp

text \<open>The search visits every block once, from the starting point on and then from the head.\<close>

lemma search_spec:
  assumes inv: "heap_inv st (xs @ o1 # ys)"
  shows "search_loop sz o1 o1 False st = Some (Inr (found (find (fits sz st) (o1 # ys @ xs))))"
proof -
  note m = heap_inv_middle [OF inv]
  have "hlist (hdr st) (last_or 0 xs) (o1 # ys) 0" using m by simp
  then have s: "search_loop sz o1 o1 False st = (case find (fits sz st) (o1 # ys) of Some b \<Rightarrow> Some (Inr b)
     | None \<Rightarrow> if o1 \<noteq> head st then search_loop sz o1 (head st) True st else Some (Inr 0))"
    using search_straight [of st "last_or 0 xs" "o1 # ys" o1] m(8) by simp
  have h: "head st = hd_or o1 xs" using inv by (simp add: heap_inv_def)
  have f: "find P (as @ bs) = (case find P as of Some b \<Rightarrow> Some b | None \<Rightarrow> find P bs)" for P and as bs :: "u64 list"
    by (induction as) auto
  show ?thesis
  proof (cases xs)
    case Nil
    then show ?thesis using s h by (auto simp: found_def split: option.split)
  next
    case (Cons x zs)
    have "search_loop sz o1 (hd xs) True st = Some (Inr (found (find (fits sz st) xs)))"
      using m(5,7,12) Cons by (intro search_wrapped) auto
    moreover have "head st = hd xs" "o1 \<noteq> head st" using h m(7) Cons by auto
    moreover have "find (fits sz st) (o1 # ys @ xs) = (case find (fits sz st) (o1 # ys) of Some b \<Rightarrow> Some b | None \<Rightarrow> find (fits sz st) xs)"
      using f [of _ "o1 # ys" xs] by simp
    ultimately show ?thesis using s by (simp add: found_def split: option.split)
  qed
qed

lemma search_result:
  assumes inv: "heap_inv st bs" and ne: "bs \<noteq> []"
  shows "\<exists>r. search_loop sz (if last_fit st \<noteq> 0 then last_fit st else head st) (if last_fit st \<noteq> 0 then last_fit st else head st) False st = Some (Inr r) \<and>
    (if r = 0 then \<forall>b\<in>set bs. \<not> fits sz st b else r \<in> set bs \<and> fits sz st r)"
proof -
  define o1 where "o1 = (if last_fit st \<noteq> 0 then last_fit st else head st)"
  have "o1 \<in> set bs" using inv ne by (cases bs) (auto simp: heap_inv_def o1_def)
  then obtain xs ys where bs: "bs = xs @ o1 # ys" by (metis in_set_conv_decomp)
  have z: "0 \<notin> set bs" using heap_inv_middle(12) [of st xs o1 ys] inv bs by simp
  have set: "set (o1 # ys @ xs) = set bs" by (auto simp: bs)
  have s: "search_loop sz o1 o1 False st = Some (Inr (found (find (fits sz st) (o1 # ys @ xs))))"
    using search_spec inv bs by blast
  show ?thesis
  proof (cases "find (fits sz st) (o1 # ys @ xs)")
    case None
    then have "\<forall>b\<in>set bs. \<not> fits sz st b" unfolding set [symmetric] find_None_iff by blast
    then show ?thesis using s None unfolding o1_def [symmetric] by (auto simp: found_def)
  next
    case (Some r)
    then have "r \<in> set bs \<and> fits sz st r" unfolding set [symmetric] find_Some_iff by (metis nth_mem)
    then show ?thesis using s Some z unfolding o1_def [symmetric] by (intro exI [of _ r]) (auto simp: found_def)
  qed
qed

section \<open>Growing the heap\<close>

lemma new_region_spec:
  assumes inv: "heap_inv st bs" and v: "virt \<noteq> 0" "16 dvd unat virt" "pages \<noteq> 0" "unat virt + unat pages * 4096 < 2 ^ 64"
    and d: "\<forall>b\<in>set bs. bend (hdr st) b \<le> unat virt \<or> unat virt + unat pages * 4096 \<le> unat b"
  shows "heap_inv (new_region virt pages st) (bs @ [virt])" "live (new_region virt pages st) (bs @ [virt]) = live st bs"
    "space (hdr (new_region virt pages st)) (bs @ [virt]) = space (hdr st) bs \<union> {unat virt ..< unat virt + unat pages * 4096}"
    "unat sz + 48 \<le> unat pages * 4096 \<Longrightarrow> fits sz (new_region virt pages st) virt"
    "vmm (new_region virt pages st) = vmm st"
proof -
  let ?st = "new_region virt pages st"
  define n where "n = zero_header\<lparr>magic := HEAP_MAGIC, bsize := pages * PAGE_SIZE - HEADER_SIZE, bflags := (BH_FREE OR BH_BOUNDARY_START), bprev := tail st\<rparr>"
  have t: "tail st = last_or 0 bs" "head st = hd_or 0 bs" "hlist (hdr st) 0 bs 0" "distinct bs" using inv by (auto simp: heap_inv_def)
  have bz: "b \<noteq> 0" "sound_block (hdr st) b" if "b \<in> set bs" for b using that hlist_sound [OF t(3)] by (auto simp: sound_block_def)
  have p1: "1 \<le> unat pages" using v(3) by (simp add: unat_gt_0 Suc_le_eq)
  then have vb: "virt \<notin> set bs" using d by (auto simp: bend_def)
  have tz: "tail st = 0 \<longleftrightarrow> bs = []" using t(1) bz by (cases bs rule: rev_cases) auto
  have hz: "head st = 0 \<longleftrightarrow> bs = []" using t(2) bz by (cases bs) auto
  have f: "head ?st = (if bs = [] then virt else head st)" "tail ?st = virt" "last_fit ?st = last_fit st" "vmm ?st = vmm st"
    by (auto simp: new_region_def list_append_def Let_def hz)
  then show "vmm ?st = vmm st" by simp
  have h: "hdr ?st = (if bs = [] then hdr st else (hdr st)(last bs := (hdr st (last bs))\<lparr>bnext := virt\<rparr>))(virt := n)"
  proof (cases "bs = []")
    case False
    then have "last bs \<noteq> virt" "tail st = last bs" using vb t(1) by (auto simp: last_or_def)
    then show ?thesis using False tz by (simp add: new_region_def list_append_def Let_def n_def zero_header_def fun_upd_twist)
  qed (use tz in \<open>simp add: new_region_def list_append_def Let_def n_def zero_header_def\<close>)
  have "unat (pages * 4096) = unat pages * 4096" using v(4) by (subst unat_mult_small) auto
  then have sz: "unat (bsize n) = unat pages * 4096 - 48"
    using p1 by (simp add: n_def PAGE_SIZE_def HEADER_SIZE_def unat_minus_le word_le_nat_alt)
  have nf: "BH_IS_FREE n" "BH_IS_BOUNDARY n" "\<not> BH_IS_POOL n" "bnext n = 0" "bprev n = last_or 0 bs" "magic n = HEAP_MAGIC"
    using t(1) by (simp_all add: n_def BH_IS_POOL_def BH_IS_BOUNDARY_def BH_IS_FREE_def BH_FREE_def BH_POOL_BLOCK_def BH_BOUNDARY_START_def zero_header_def)
  have be: "bend (hdr ?st) virt = unat virt + unat pages * 4096" using p1 sz by (simp add: bend_def h)
  have bo: "bend (hdr ?st) b = bend (hdr st) b" if "b \<noteq> virt" for b using that by (auto simp: bend_def h)
  have hb: "hlist (hdr ?st) 0 bs virt"
  proof (cases bs rule: rev_cases)
    case (snoc cs c)
    have "hlist (hdr st) 0 cs c" "sound_block (hdr st) c" "joined (hdr st) (last_or 0 cs) c" "bprev (hdr st c) = last_or 0 cs"
      using t(3) by (auto simp: snoc hlist_append)
    moreover have "c \<notin> set cs" "virt \<noteq> c" "virt \<notin> set cs" using t(4) vb snoc by auto
    moreover have "last_or 0 cs \<noteq> c" "last_or 0 cs \<noteq> virt" using calculation v(1) bz(1) [of c] snoc by (auto simp: last_or_def split: if_splits)
    moreover have "hlist (hdr ?st) 0 cs c = hlist (hdr st) 0 cs c"
      using calculation(5-7) v(1) bz(1) [of c] snoc by (intro hlist_cong) (auto simp: h bend_def)
    ultimately show ?thesis
      by (simp add: snoc hlist_append sound_block_def joined_def bend_def) (simp add: h snoc)
  qed simp
  have "sound_block (hdr ?st) virt"
  proof -
    have "16 dvd unat pages * 4096" by (intro dvd_mult) simp
    then have "16 dvd unat pages * 4096 - 48" by (intro dvd_diff_nat) simp_all
    then show ?thesis using v nf sz be by (simp add: sound_block_def) (simp add: h)
  qed
  moreover have "joined (hdr ?st) (last_or 0 bs) virt" using nf by (simp add: joined_def h)
  ultimately have "hlist (hdr ?st) 0 (bs @ [virt]) 0"
    using hb nf by (simp add: hlist_append) (simp add: h)
  moreover have "apart (hdr ?st) (set (bs @ [virt]))"
  proof -
    have "bend (hdr ?st) b = bend (hdr st) b" if "b \<in> set bs" for b using that vb by (intro bo) auto
    moreover have "apart (hdr st) (set bs)" using inv by (simp add: heap_inv_def)
    ultimately show ?thesis using d by (auto simp: apart_def be)
  qed
  ultimately show "heap_inv ?st (bs @ [virt])"
    using inv f t vb by (auto simp: heap_inv_def hd_or_def split: list.split)
  have "live ?st bs = live st bs" using vb by (intro live_cong) (auto simp: h)
  then show "live ?st (bs @ [virt]) = live st bs" using live_insert [of ?st bs virt "[]"] nf by (simp add: h)
  have "space (hdr ?st) bs = space (hdr st) bs" using vb by (intro space_cong bo) auto
  then show "space (hdr ?st) (bs @ [virt]) = space (hdr st) bs \<union> {unat virt ..< unat virt + unat pages * 4096}"
    using space_insert [of "hdr ?st" bs virt "[]"] be by (simp add: extent_def)
  show "unat sz + 48 \<le> unat pages * 4096 \<Longrightarrow> fits sz ?st virt"
    using nf sz by (simp add: fits_def h word_le_nat_alt)
qed

definition grow_pages :: "u64 \<Rightarrow> u64" where
  "grow_pages sz = (let pages0 = (sz + HEADER_SIZE + PAGE_SIZE - 1) div PAGE_SIZE in if pages0 < PAGES_PER_GROWTH then PAGES_PER_GROWTH else pages0)"

lemma grow_pages_bounds:
  assumes "unat sz + 2 ^ 22 < 2 ^ 64"
  shows "unat sz + 48 \<le> unat (grow_pages sz) * 4096" "unat (grow_pages sz) * 4096 \<le> unat sz + 20480" "grow_pages sz \<noteq> 0"
proof -
  have "unat (4143 + sz) = unat sz + 4143" using assms by (subst unat_plus_small) auto
  then have u: "unat ((sz + HEADER_SIZE + PAGE_SIZE - 1) div PAGE_SIZE) = (unat sz + 4143) div 4096"
    by (simp add: HEADER_SIZE_def PAGE_SIZE_def unat_div)
  have "unat (grow_pages sz) = max 4 ((unat sz + 4143) div 4096)"
    by (simp add: grow_pages_def Let_def u PAGES_PER_GROWTH_def word_less_nat_alt max_def)
  then show "unat sz + 48 \<le> unat (grow_pages sz) * 4096" "unat (grow_pages sz) * 4096 \<le> unat sz + 20480" "grow_pages sz \<noteq> 0"
    by (auto simp: max_def split: if_splits)
qed

lemma set_frames_fields [simp]: "vmm (set_frames f st) = vmm st" "hdr (set_frames f st) = hdr st" "head (set_frames f st) = head st"
  "tail (set_frames f st) = tail st" "last_fit (set_frames f st) = last_fit st" "(set_frames f st)\<lparr>vmm := v, paging := pg\<rparr> = st\<lparr>vmm := v, paging := pg\<rparr>"
  by (simp_all add: set_frames_def)

lemma grow_True:
  assumes "heap_grow nk sz st = Inr (st1, True)"
  shows "\<exists>k v virt pg. k \<in> {12, 21} \<and> vmm_alloc_aligned nk (grow_pages sz) (2 ^ k) (vmm st) = Inr (v, virt) \<and>
    st1 = new_region virt (grow_pages sz) (st\<lparr>vmm := v, paging := pg\<rparr>)"
proof (cases "PAGES_2MB \<le> grow_pages sz \<and> grow_pages sz mod PAGES_2MB = 0")
  case True
  then show ?thesis using assms unfolding heap_grow_def Let_def grow_pages_def [unfolded Let_def, symmetric]
    by (auto simp: and_then_eq_Inr PAGE_SIZE_2MB_def split: prod.splits if_splits) (rule exI [of _ 21], auto)
next
  case False
  then show ?thesis using assms unfolding heap_grow_def Let_def grow_pages_def [unfolded Let_def, symmetric]
    by (auto simp: and_then_eq_Inr PAGE_SIZE_def vmm_alloc_pages_def split: prod.splits if_splits) (rule exI [of _ 12], auto)+
qed

lemma grow_False:
  assumes "heap_grow nk sz st = Inr (st1, False)"
  shows "hdr st1 = hdr st \<and> head st1 = head st \<and> tail st1 = tail st \<and> last_fit st1 = last_fit st \<and>
    (vmm st1 = vmm st \<or> (\<exists>k \<in> {12, 21}. vmm_alloc_aligned nk (grow_pages sz) (2 ^ k) (vmm st) = Inr (vmm st1, 0)))"
proof (cases "PAGES_2MB \<le> grow_pages sz \<and> grow_pages sz mod PAGES_2MB = 0")
  case True
  then show ?thesis using assms unfolding heap_grow_def Let_def grow_pages_def [unfolded Let_def, symmetric]
    by (auto simp: and_then_eq_Inr PAGE_SIZE_2MB_def split: prod.splits if_splits)
next
  case False
  then show ?thesis using assms unfolding heap_grow_def Let_def grow_pages_def [unfolded Let_def, symmetric]
    by (auto simp: and_then_eq_Inr PAGE_SIZE_def vmm_alloc_pages_def split: prod.splits if_splits)
qed

lemma grow_ok:
  assumes ok: "heap_ok st bs" and sz: "unat (vmm_pool_end (vmm st)) + unat sz + 2 ^ 22 < 2 ^ 64"
    and g: "heap_grow nk sz st = Inr (st1, got)"
  shows "if got then \<exists>b. heap_ok st1 (bs @ [b]) \<and> live st1 (bs @ [b]) = live st bs \<and> fits sz st1 b else heap_ok st1 bs \<and> live st1 bs = live st bs"
proof -
  have inv: "heap_inv st bs" and vi: "vmm_inv (vmm st)" and sp: "space (hdr st) bs \<subseteq> vmm_space (vmm st)" using ok by (auto simp: heap_ok_def)
  have "unat sz + 2 ^ 22 < 2 ^ 64" using sz by linarith
  note gp = grow_pages_bounds [OF this]
  have alloc: "vmm_inv v \<and> 2 ^ k dvd unat a \<and> 0 < unat a \<and> unat a + unat (grow_pages sz) * 4096 \<le> unat (vmm_pool_end (vmm st)) \<and>
      (\<forall>p\<in>set (ranges (vmm_root (vmm st))). hi p \<le> unat a \<or> unat a + unat (grow_pages sz) * 4096 \<le> lo p) \<and>
      set (ranges (vmm_root v)) = insert (a, grow_pages sz) (set (ranges (vmm_root (vmm st))))"
    if k: "k \<in> {12, 21}" and al: "vmm_alloc_aligned nk (grow_pages sz) (2 ^ k) (vmm st) = Inr (v, a)" for k v a
  proof -
    have "unat (vmm_pool_end (vmm st)) + unat (grow_pages sz) * 4096 + 2 ^ k < 2 ^ 64" using k sz gp(2) by auto
    from alloc_apart [OF vi _ gp(3) this al] show ?thesis using k vi by (auto simp: vmm_inv_def)
  qed
  show ?thesis
  proof (cases got)
    case False
    from grow_False [of nk sz st st1] g False have f: "hdr st1 = hdr st" "head st1 = head st" "tail st1 = tail st" "last_fit st1 = last_fit st"
      "vmm st1 = vmm st \<or> (\<exists>k \<in> {12, 21}. vmm_alloc_aligned nk (grow_pages sz) (2 ^ k) (vmm st) = Inr (vmm st1, 0))" by auto
    have "vmm_alloc_aligned nk (grow_pages sz) (2 ^ k) (vmm st) \<noteq> Inr (vmm st1, 0)" if "k \<in> {12, 21}" for k
    proof
      assume "vmm_alloc_aligned nk (grow_pages sz) (2 ^ k) (vmm st) = Inr (vmm st1, 0)"
      from alloc [OF that this] show False by simp
    qed
    then have "vmm st1 = vmm st" using f(5) by blast
    then show ?thesis using f ok False by (simp add: heap_ok_def heap_inv_def live_def)
  next
    case True
    then obtain k v virt pg where k: "k \<in> {12, 21::nat}" and al: "vmm_alloc_aligned nk (grow_pages sz) (2 ^ k) (vmm st) = Inr (v, virt)"
      and st1: "st1 = new_region virt (grow_pages sz) (st\<lparr>vmm := v, paging := pg\<rparr>)" using grow_True [of nk sz st st1] g True by auto
    note a = alloc [OF k al]
    let ?st = "st\<lparr>vmm := v, paging := pg\<rparr>"
    have i: "heap_inv ?st bs" using inv by (simp add: heap_inv_def)
    have "(16::nat) dvd 2 ^ k" using k by auto
    then have v16: "16 dvd unat virt" using a dvd_trans by blast
    have lt: "unat virt + unat (grow_pages sz) * 4096 < 2 ^ 64" using a unat_lt_64 [of "vmm_pool_end (vmm st)"] by linarith
    have d: "\<forall>b\<in>set bs. bend (hdr ?st) b \<le> unat virt \<or> unat virt + unat (grow_pages sz) * 4096 \<le> unat b"
    proof (intro ballI, rule ccontr)
      fix b
      assume "b \<in> set bs"
      let ?e = "unat virt + unat (grow_pages sz) * 4096"
      assume "\<not> (bend (hdr ?st) b \<le> unat virt \<or> ?e \<le> unat b)"
      then have x: "max (unat virt) (unat b) \<in> extent (hdr st) b" "max (unat virt) (unat b) < ?e" "unat virt < ?e"
        using gp(3) by (auto simp: extent_def bend_def unat_gt_0)
      then have "max (unat virt) (unat b) \<in> vmm_space (vmm st)" using sp \<open>b \<in> set bs\<close> by (auto simp: space_def)
      then show False using a x(2) by (fastforce simp: vmm_space_def)
    qed
    have vz: "virt \<noteq> 0" using a by auto
    note r = new_region_spec [OF i vz v16 gp(3) lt d, folded st1]
    have "vmm_space v = vmm_space (vmm st) \<union> {unat virt ..< unat virt + unat (grow_pages sz) * 4096}"
      using a by (auto simp: vmm_space_def lo_def hi_def)
    moreover have "live ?st bs = live st bs" "hdr ?st = hdr st" by (simp_all add: live_def)
    ultimately have "heap_ok st1 (bs @ [virt]) \<and> live st1 (bs @ [virt]) = live st bs \<and> fits sz st1 virt"
      using r(1-3,5) r(4) [OF gp(1)] a sp by (auto simp: heap_ok_def)
    then show ?thesis using True by auto
  qed
qed

section \<open>Allocation\<close>

text \<open>What a successful allocation of \<open>sz\<close> bytes promises about the block \<open>b\<close> it hands out.\<close>

definition allocated :: "nat \<Rightarrow> heap_state \<Rightarrow> u64 list \<Rightarrow> heap_state \<Rightarrow> u64 \<Rightarrow> bool" where
  "allocated sz st bs st' p \<longleftrightarrow> (\<exists>bs' b n. p = b + 48 \<and> 16 dvd unat p \<and> p \<noteq> 0 \<and> heap_ok st' bs' \<and> live st' bs' = insert (b, n) (live st bs) \<and>
     sz \<le> n \<and> (\<forall>(a, m)\<in>live st bs. unat a + 48 + m \<le> unat b \<or> unat b + 48 + n \<le> unat a))"

lemma user_pointer:
  assumes "sound_block h b"
  shows "unat (b + 48) = unat b + 48" "16 dvd unat (b + 48)" "b + 48 \<noteq> 0"
proof -
  show u: "unat (b + 48) = unat b + 48" using bend_sound [OF assms] by (subst unat_plus_small) (auto simp: bend_def)
  then show "16 dvd unat (b + 48)" using assms by (simp add: sound_block_def)
  have "unat (b + 48) \<noteq> unat 0" using u by simp
  then show "b + 48 \<noteq> 0" by metis
qed

lemma take_allocated:
  assumes ok: "heap_ok st bs" and c: "c \<in> set bs" "fits sz st c" and sz: "16 dvd unat sz"
  shows "allocated (unat sz) st bs (fst (take_block c sz st)) (snd (take_block c sz st)) \<and> snd (take_block c sz st) \<noteq> 0"
proof -
  let ?st = "fst (take_block c sz st)"
  have inv: "heap_inv st bs" using ok by (simp add: heap_ok_def)
  obtain bs' n where r: "heap_inv ?st bs'" "live ?st bs' = insert (c, n) (live st bs)" "unat sz \<le> n"
    "space (hdr ?st) bs' = space (hdr st) bs" "vmm ?st = vmm st" using take_spec [OF inv c sz] by auto
  have ok': "heap_ok ?st bs'" using ok r by (simp add: heap_ok_def)
  have cn: "c \<in> set bs'" "n = unat (bsize (hdr ?st c))" using r(2) live_block [of c n ?st bs'] by auto
  have "sound_block (hdr st) c" using inv c(1) hlist_sound by (auto simp: heap_inv_def)
  note u = user_pointer [OF this]
  have "unat a + 48 + m \<le> unat c \<or> unat c + 48 + n \<le> unat a" if "(a, m) \<in> live st bs" for a m
  proof -
    have "(a, m) \<in> live ?st bs'" using r(2) that by simp
    then have am: "a \<in> set bs'" "m = unat (bsize (hdr ?st a))" by (auto simp: live_block)
    have "a \<noteq> c" using that c(2) by (auto simp: live_block fits_def)
    moreover have "apart (hdr ?st) (set bs')" using r(1) by (simp add: heap_inv_def)
    ultimately have "bend (hdr ?st) a \<le> unat c \<or> bend (hdr ?st) c \<le> unat a" using am(1) cn(1) unfolding apart_def by blast
    then show ?thesis using am(2) cn(2) by (simp add: bend_def)
  qed
  moreover have "snd (take_block c sz st) = c + 48" by (simp add: take_block_def Let_def HEADER_SIZE_def)
  ultimately show ?thesis using ok' r(2,3) u unfolding allocated_def by auto
qed

lemma retry_spec:
  assumes ok: "heap_ok st bs" and ne: "bs \<noteq> []" and sz: "16 dvd unat sz" "unat (vmm_pool_end (vmm st)) + unat sz + 2 ^ 22 < 2 ^ 64"
  shows "(\<exists>e. malloc_retry nk sz st = Some (Inl e) \<and> heap_grow nk sz st = Inl e \<and> (\<forall>b\<in>set bs. \<not> fits sz st b)) \<or>
    (\<exists>st' p. malloc_retry nk sz st = Some (Inr (st', p)) \<and>
      (if p = 0 then heap_ok st' bs \<and> live st' bs = live st bs \<and> (\<forall>b\<in>set bs. \<not> fits sz st b) \<and> heap_grow nk sz st = Inr (st', False)
       else allocated (unat sz) st bs st' p))"
proof -
  have inv: "heap_inv st bs" using ok by (simp add: heap_ok_def)
  obtain r where r: "search_loop sz (if last_fit st \<noteq> 0 then last_fit st else head st) (if last_fit st \<noteq> 0 then last_fit st else head st) False st = Some (Inr r)"
    "if r = 0 then \<forall>b\<in>set bs. \<not> fits sz st b else r \<in> set bs \<and> fits sz st r" using search_result [OF inv ne] by blast
  have u: "malloc_retry nk sz st = (if r \<noteq> 0 then Some (Inr (take_block r sz st)) else case heap_grow nk sz st of
            Inl e \<Rightarrow> Some (Inl e) | Inr (st', got) \<Rightarrow> if got then malloc_retry nk sz st' else Some (Inr (st', 0)))"
    by (subst malloc_retry.simps) (simp add: r(1) Let_def)
  show ?thesis
  proof (cases "r = 0")
    case False
    then have "r \<in> set bs" "fits sz st r" using r(2) by auto
    note t = take_allocated [OF ok this sz(1)]
    show ?thesis using False u t
      by (intro disjI2 exI [of _ "fst (take_block r sz st)"] exI [of _ "snd (take_block r sz st)"]) simp
  next
    case r0: True
    show ?thesis
    proof (cases "heap_grow nk sz st")
      case (Inl e)
      then show ?thesis using u r0 r(2) by simp
    next
      case (Inr x)
      obtain st1 got where x: "x = (st1, got)" by (cases x)
      note g = grow_ok [OF ok sz(2) Inr [unfolded x]]
      show ?thesis
      proof (cases got)
        case False
        then show ?thesis using u r0 r(2) Inr x g by simp
      next
        case True
        then obtain b where b: "heap_ok st1 (bs @ [b])" "live st1 (bs @ [b]) = live st bs" "fits sz st1 b" using g by auto
        have "heap_inv st1 (bs @ [b])" "bs @ [b] \<noteq> []" using b(1) by (auto simp: heap_ok_def)
        then obtain r' where r': "search_loop sz (if last_fit st1 \<noteq> 0 then last_fit st1 else head st1) (if last_fit st1 \<noteq> 0 then last_fit st1 else head st1) False st1 = Some (Inr r')"
          "if r' = 0 then \<forall>b\<in>set (bs @ [b]). \<not> fits sz st1 b else r' \<in> set (bs @ [b]) \<and> fits sz st1 r'"
          using search_result by blast
        then have f: "r' \<noteq> 0" "r' \<in> set (bs @ [b])" "fits sz st1 r'" using b(3) by (auto split: if_splits)
        have "malloc_retry nk sz st1 = Some (Inr (take_block r' sz st1))"
          by (subst malloc_retry.simps) (simp add: r'(1) Let_def f(1))
        then have m: "malloc_retry nk sz st = Some (Inr (take_block r' sz st1))" using u r0 Inr x True by simp
        have "allocated (unat sz) st bs (fst (take_block r' sz st1)) (snd (take_block r' sz st1)) \<and> snd (take_block r' sz st1) \<noteq> 0"
          using take_allocated [OF b(1) f(2,3) sz(1)] unfolding allocated_def b(2) .
        then show ?thesis using m
          by (intro disjI2 exI [of _ "fst (take_block r' sz st1)"] exI [of _ "snd (take_block r' sz st1)"]) simp
      qed
    qed
  qed
qed

lemma pool_malloc_none: "snd (pool_malloc sz i ps st) = 0 \<Longrightarrow> pool_malloc sz i ps st = (st, 0)"
  by (induction ps arbitrary: i) (auto simp: Let_def split: if_splits)

section \<open>Expansion in place\<close>

lemma expand_merges:
  assumes "\<not> new_size + HEADER_SIZE + MIN_SPLIT_SIZE \<le> combined" "combined = bsize (hdr st cur) + (48 + bsize (hdr st (bnext (hdr st cur))))"
    and "bnext (hdr st (bnext (hdr st cur))) \<noteq> cur"
  shows "expand_block cur new_size combined st = merge_blocks cur (bnext (hdr st cur)) st"
  using assms by (simp add: expand_block_def merge_blocks_def Let_def HEADER_SIZE_def set_hdr_def)

lemma header_swap: "bnext_update f (bsize_update g h) = bsize_update g (bnext_update f h)"
  by simp

lemma expand_splits:
  assumes inv: "heap_inv st (xs @ cur # nxt # ys)" and n: "\<not> BH_IS_POOL (hdr st nxt)" "\<not> BH_IS_BOUNDARY (hdr st nxt)"
    and c: "combined = bsize (hdr st cur) + (48 + bsize (hdr st nxt))" "new_size + HEADER_SIZE + MIN_SPLIT_SIZE \<le> combined"
      "unat new_size + 64 \<le> unat combined"
    and g: "bsize (hdr st cur) < new_size" "new_size \<noteq> bsize (hdr st cur) + 16" "new_size \<noteq> bsize (hdr st cur) + 32"
  shows "expand_block cur new_size combined st =
    (split_block cur new_size (merge_blocks cur nxt st))\<lparr>last_fit := (if last_fit st = nxt then cur + 48 + new_size else last_fit st)\<rparr>"
proof -
  let ?s = "cur + 48 + new_size"
  note m = heap_inv_middle [OF inv]
  note b = heap_inv_middle [of st "xs @ [cur]" nxt ys, simplified, OF inv]
  note mg = merge_geometry [OF inv n] and mi = merge_inv [OF inv n] and ml = merge_live_space [OF inv n]
  have "unat new_size + 48 \<le> unat (bsize (hdr (merge_blocks cur nxt st) cur))" using c(1,3) ml(4) by simp
  note sg = split_geometry [OF mi this]
  note nx = joined_address [OF inv n]
  have s: "?s \<noteq> nxt" "?s \<noteq> nxt + 16" "?s \<noteq> nxt + 32" "?s \<noteq> cur" "?s \<notin> set ys" "cur \<noteq> nxt"
    using g sg(2) m(8) by (auto simp: nx)
  have bn: "bnext (hdr st cur) = nxt" "bnext (hdr st nxt) = hd_or 0 ys" using m(3) b(3) by simp_all
  show ?thesis
  proof (cases ys)
    case Nil
    then show ?thesis using s c(2) bn
      by (simp add: expand_block_def split_block_def merge_blocks_def Let_def HEADER_SIZE_def next_under_split_def set_hdr_def c(1) fun_upd_twist header_swap)
  next
    case (Cons y zs)
    then have "y \<noteq> 0" "y \<noteq> cur" "y \<noteq> nxt" "y \<noteq> ?s" using m(8,12) b(8) s(5) by auto
    then show ?thesis using Cons s c(2) bn
      by (simp add: expand_block_def split_block_def merge_blocks_def Let_def HEADER_SIZE_def next_under_split_def set_hdr_def c(1) fun_upd_twist header_swap)
  qed
qed

lemma expand_spec:
  assumes inv: "heap_inv st (xs @ cur # nxt # ys)" and n: "\<not> BH_IS_POOL (hdr st nxt)" "\<not> BH_IS_BOUNDARY (hdr st nxt)"
      "BH_IS_FREE (hdr st nxt)" and cu: "\<not> BH_IS_FREE (hdr st cur)"
    and c: "combined = bsize (hdr st cur) + (48 + bsize (hdr st nxt))" "new_size \<le> combined" "16 dvd unat new_size"
    and g: "bsize (hdr st cur) < new_size" "unat new_size + 64 \<le> unat combined \<Longrightarrow> new_size \<noteq> bsize (hdr st cur) + 16 \<and> new_size \<noteq> bsize (hdr st cur) + 32"
  shows "\<exists>bs' n. heap_inv (expand_block cur new_size combined st) bs' \<and>
    live (expand_block cur new_size combined st) bs' = insert (cur, n) (live st (xs @ cur # nxt # ys) - {(cur, unat (bsize (hdr st cur)))}) \<and> unat new_size \<le> n \<and>
    space (hdr (expand_block cur new_size combined st)) bs' = space (hdr st) (xs @ cur # nxt # ys) \<and> vmm (expand_block cur new_size combined st) = vmm st"
proof -
  let ?m = "merge_blocks cur nxt st"
  note m = heap_inv_middle [OF inv]
  note b = heap_inv_middle [of st "xs @ [cur]" nxt ys, simplified, OF inv]
  note mi = merge_inv [OF inv n(1,2)] and ml = merge_live_space [OF inv n(1,2)]
  have sc: "unat combined = unat (bsize (hdr st cur)) + 48 + unat (bsize (hdr st nxt))" using merge_geometry(5) [OF inv n(1,2)] c(1) by simp
  have sb: "bsize (hdr ?m cur) = combined" using ml(4) c(1) by simp
  have l0: "live st (xs @ cur # nxt # ys) - {(cur, unat (bsize (hdr st cur)))} = live st (xs @ ys)"
    using m(7,8) n(3) cu by (auto simp: live_insert live_insert [of st "xs @ [cur]" nxt ys, simplified] live_block)
  have sd: "sound_block (hdr ?m) cur" using heap_inv_middle(1) [OF mi] .
  note t = split_test [OF sd, of new_size, unfolded sb, OF c(2)]
  show ?thesis
  proof (cases "unat new_size + 64 \<le> unat combined")
    case False
    have bn: "bnext (hdr st cur) = nxt" "bnext (hdr st nxt) \<noteq> cur" using m(3,8,12) b(3) by (cases ys; auto)+
    have "expand_block cur new_size combined st = ?m"
      using expand_merges [of new_size combined st cur] False t c(1) bn by simp
    then show ?thesis
      using mi ml(1-3) l0 c(2) cu sc by (intro exI [of _ "xs @ cur # ys"] exI [of _ "unat combined"]) (auto simp: word_le_nat_alt)
  next
    case True
    then have s: "unat new_size + 48 \<le> unat (bsize (hdr ?m cur))" using sb by simp
    let ?s = "split_block cur new_size ?m" and ?l = "if last_fit st = nxt then cur + 48 + new_size else last_fit st"
    let ?bs = "xs @ cur # (cur + 48 + new_size) # ys"
    have e: "expand_block cur new_size combined st = ?s\<lparr>last_fit := ?l\<rparr>"
      using expand_splits [OF inv n(1,2) c(1)] True t g by auto
    note si = split_inv [OF mi s c(3)] and sl = split_live_space [OF mi s]
    have i: "heap_inv ?s ?bs" using si ml(6) merge_geometry(2) [OF inv n(1,2)] by simp
    then have "heap_inv (?s\<lparr>last_fit := ?l\<rparr>) ?bs" using inv by (auto simp: heap_inv_def)
    moreover have lc: "live (x\<lparr>last_fit := l\<rparr>) zs = live x zs" for x l zs by (simp add: live_def)
    have "live ?m (xs @ ys) = live st (xs @ ys)"
      using merge_fields(1) [of st nxt ys cur] b(3) m(7,8,12) by (intro live_cong) auto
    then have "live (?s\<lparr>last_fit := ?l\<rparr>) ?bs = insert (cur, unat new_size) (live st (xs @ ys))"
      using sl(1) ml(5) cu by (simp add: lc)
    ultimately show ?thesis using e sl(2,6) ml(2,3) l0 by (intro exI [of _ ?bs] exI [of _ "unat new_size"]) simp
  qed
qed

lemma realloc_expands:
  assumes inv: "heap_inv st (xs @ cur # nxt # ys)" and n: "\<not> BH_IS_POOL (hdr st nxt)" "\<not> BH_IS_BOUNDARY (hdr st nxt)" "BH_IS_FREE (hdr st nxt)"
    and p: "\<not> is_pool_page (page_of (cur + 48)) st" and sz: "sz \<noteq> 0" "bsize (hdr st cur) < ALIGN 16 sz" "ALIGN 16 sz \<le> bsize (hdr st cur) + (48 + bsize (hdr st nxt))"
  shows "realloc nk (cur + 48) sz st = Some (Inr (expand_block cur (ALIGN 16 sz) (bsize (hdr st cur) + (48 + bsize (hdr st nxt))) st, cur + 48))"
proof -
  note m = heap_inv_middle [OF inv]
  have nz: "nxt \<noteq> 0" using m(12) by auto
  have "magic (hdr st cur) = HEAP_MAGIC" using m(1) by (simp add: sound_block_def)
  then show ?thesis
    using user_pointer(3) [OF m(1)] m(3) n p sz nz
    by (simp add: realloc_def realloc_block_def get_ptr_type_def Let_def HEADER_SIZE_def HEAP_ALIGNMENT_def add.assoc)
qed

text \<open>Cutting the list behind a block.\<close>

lemma truncate_inv:
  assumes inv: "heap_inv st (xs @ b # ys)"
  shows "heap_inv (st\<lparr>hdr := (hdr st)(b := (hdr st b)\<lparr>bnext := 0\<rparr>), tail := b, last_fit := 0\<rparr>) (xs @ [b])"
proof -
  note m = heap_inv_middle [OF inv]
  let ?h = "(hdr st)(b := (hdr st b)\<lparr>bnext := 0\<rparr>)"
  have be: "bend ?h = bend (hdr st)" by (auto simp: bend_def fun_eq_iff)
  have "hlist ?h 0 xs b = hlist (hdr st) 0 xs b" using m(7,12) by (intro hlist_cong) (auto simp: be)
  then have "hlist ?h 0 (xs @ [b]) 0"
    using m by (auto simp: hlist_append sound_block_def joined_def be)
  then show ?thesis using inv by (auto simp: heap_inv_def apart_def be)
qed

lemma expand_overlap:
  assumes inv: "heap_inv st (xs @ cur # nxt # ys)" and n: "\<not> BH_IS_POOL (hdr st nxt)" "\<not> BH_IS_BOUNDARY (hdr st nxt)"
    and c: "combined = bsize (hdr st cur) + (48 + bsize (hdr st nxt))" "unat (bsize (hdr st nxt)) \<ge> 32"
  defines "new_size \<equiv> bsize (hdr st cur) + 16"
  defines "st' \<equiv> expand_block cur new_size combined st"
  shows "hlist (hdr st') 0 (xs @ [cur, cur + 48 + new_size]) 0 \<and> head st' = head st \<and> tail st' = cur + 48 + new_size"
proof -
  let ?t = "st\<lparr>hdr := (hdr st)(nxt := (hdr st nxt)\<lparr>bnext := 0\<rparr>), tail := nxt, last_fit := 0\<rparr>"
  define s where "s = cur + 48 + new_size"
  note m = heap_inv_middle [OF inv]
  have ti: "heap_inv ?t (xs @ cur # nxt # [])" using truncate_inv [of st "xs @ [cur]" nxt ys] inv by simp
  have cn: "cur \<noteq> nxt" using m(8) by simp
  have tn: "\<not> BH_IS_POOL (hdr ?t nxt)" "\<not> BH_IS_BOUNDARY (hdr ?t nxt)" using n by simp_all
  note mi = merge_inv [OF ti tn] and mg = merge_geometry [OF ti tn] and ml = merge_live_space [OF ti tn]
  have bc: "unat (bsize (hdr st cur)) + 16 < 2 ^ 64" using bend_sound [OF m(1)] by (simp add: bend_def)
  then have un: "unat new_size = unat (bsize (hdr st cur)) + 16" unfolding new_size_def by (subst unat_plus_small) auto
  have uc: "unat combined = unat (bsize (hdr st cur)) + 48 + unat (bsize (hdr st nxt))" using mg(5) cn c(1) by simp
  have fit: "unat new_size + 48 \<le> unat (bsize (hdr (merge_blocks cur nxt ?t) cur))" using ml(4) cn uc un c by simp
  have "16 dvd unat (bsize (hdr st cur))" using m(1) by (simp add: sound_block_def)
  then have d: "16 dvd unat new_size" using un by simp
  have "\<not> BH_IS_POOL (hdr (merge_blocks cur nxt ?t) cur)" using ml(6) mg(2) by simp
  note si = split_inv [OF mi fit d this] and sg = split_geometry [OF mi fit]
  note nx = joined_address [OF inv n]
  then have sn: "s = nxt + 16" by (simp add: s_def new_size_def)
  have t: "new_size + HEADER_SIZE + MIN_SPLIT_SIZE \<le> combined"
    using split_test [OF heap_inv_middle(1) [OF mi], of new_size] ml(4) cn c un uc by (simp add: word_le_nat_alt)
  have bn: "bnext (hdr st cur) = nxt" using m(3) by simp
  have "s \<noteq> nxt" unfolding sn by simp
  moreover have "s \<noteq> cur" using sg(2) by (auto simp: s_def)
  ultimately have bn: "bnext (hdr st cur) = nxt" "s \<noteq> nxt" "s \<noteq> cur" using bn by simp_all
  have nu: "next_under_split nxt s x y = bin_size x" for x y by (simp add: next_under_split_def sn)
  have e: "hdr st' = ((hdr st)(s := zero_header\<lparr>magic := HEAP_MAGIC, bsize := combined - new_size - 48, bflags := BH_FREE, bnext := 0, bprev := cur\<rparr>))(cur := (hdr st cur)\<lparr>bsize := new_size, bnext := s\<rparr>)"
    "head st' = head st" "tail st' = s"
    using t bn unfolding st'_def expand_block_def Let_def HEADER_SIZE_def s_def [symmetric]
    by (simp_all add: nu zero_header_def fun_upd_twist)
  let ?h = "hdr (split_block cur new_size (merge_blocks cur nxt ?t))"
  have eq: "hdr st' b = ?h b" if "b \<noteq> nxt" for b
    using that bn cn unfolding e split_block_def merge_blocks_def Let_def HEADER_SIZE_def s_def [symmetric]
    by (simp add: c(1) zero_header_def)
  have "hlist (hdr st') 0 (xs @ [cur, s]) 0 = hlist ?h 0 (xs @ [cur, s]) 0"
  proof (rule hlist_cong)
    have "nxt \<notin> set (xs @ [cur, s])" using heap_inv_middle [of st "xs @ [cur]" nxt ys] inv bn by auto
    then show "hdr st' b = ?h b" if "b \<in> set (xs @ [cur, s])" for b using that by (intro eq) metis
    have "hdr st' 0 = ?h 0" using m(12) by (intro eq) auto
    then show "BH_IS_POOL (hdr st' 0) = BH_IS_POOL (?h 0) \<and> bend (hdr st') 0 = bend ?h 0" by (simp add: bend_def)
  qed
  then show ?thesis using si e by (simp add: heap_inv_def s_def)
qed

section \<open>A small heap\<close>

text \<open>Three pages with a block of 32 bytes in use, a free block of 160 bytes and the rest in use.\<close>

definition demo_heap :: heap_state where
  "demo_heap = \<lparr>hdr = (\<lambda>_. zero_header)
       (0xFFFF800040000000 := zero_header\<lparr>magic := HEAP_MAGIC, bsize := 32, bflags := BH_BOUNDARY_START, bnext := 0xFFFF800040000050\<rparr>,
        0xFFFF800040000050 := zero_header\<lparr>magic := HEAP_MAGIC, bsize := 160, bflags := BH_FREE, bnext := 0xFFFF800040000120, bprev := 0xFFFF800040000000\<rparr>,
        0xFFFF800040000120 := zero_header\<lparr>magic := HEAP_MAGIC, bsize := 11952, bprev := 0xFFFF800040000050\<rparr>),
     nodes = (\<lambda>_. 0), bytes = (\<lambda>_. 0), head = 0xFFFF800040000000, tail = 0xFFFF800040000120, last_fit = 0, pools = [], pool_page_registry = [],
     vmm = demo_vmm1, paging = demo_paging, pml4_phys = 0x4000\<rparr>"

abbreviation demo_blocks :: "u64 list" where
  "demo_blocks \<equiv> [] @ 0xFFFF800040000000 # 0xFFFF800040000050 # [0xFFFF800040000120]"

lemma demo_heap_fields:
  "head demo_heap = 0xFFFF800040000000" "tail demo_heap = 0xFFFF800040000120" "last_fit demo_heap = 0" "pools demo_heap = []"
  "pool_page_registry demo_heap = []" "vmm demo_heap = demo_vmm1"
  "hdr demo_heap 0xFFFF800040000000 = \<lparr>magic = HEAP_MAGIC, bflags = 4, bsize = 32, bin_size = 0, used_slots = 0, bnext = 0xFFFF800040000050, bprev = 0\<rparr>"
  "hdr demo_heap 0xFFFF800040000050 = \<lparr>magic = HEAP_MAGIC, bflags = 1, bsize = 160, bin_size = 0, used_slots = 0, bnext = 0xFFFF800040000120, bprev = 0xFFFF800040000000\<rparr>"
  "hdr demo_heap 0xFFFF800040000120 = \<lparr>magic = HEAP_MAGIC, bflags = 0, bsize = 11952, bin_size = 0, used_slots = 0, bnext = 0, bprev = 0xFFFF800040000050\<rparr>"
  by (simp_all add: demo_heap_def zero_header_def BH_BOUNDARY_START_def BH_FREE_def)

lemmas demo_heap_simps = demo_heap_fields BH_IS_FREE_def BH_IS_POOL_def BH_IS_BOUNDARY_def BH_FREE_def BH_POOL_BLOCK_def BH_BOUNDARY_START_def

lemma demo_heap_inv: "heap_inv demo_heap demo_blocks"
  by (simp add: heap_inv_def sound_block_def joined_def bend_def apart_def demo_heap_simps)

lemma demo_heap_ok: "heap_ok demo_heap demo_blocks"
proof -
  have "set (ranges (vmm_root demo_vmm1)) = {(0xFFFF800040000000, 3)}"
    by (simp add: demo_vmm1_def demo_node_def demo_addr_def range_of_def vmm_node_update_def)
  then have "vmm_space demo_vmm1 = {unat (0xFFFF800040000000::u64) ..< unat (0xFFFF800040000000::u64) + 12288}"
    by (simp add: vmm_space_def lo_def hi_def)
  then have "space (hdr demo_heap) demo_blocks \<subseteq> vmm_space demo_vmm1"
    by (simp add: space_def extent_def bend_def demo_heap_fields)
  then show ?thesis using demo_heap_inv demo_inv1 by (simp add: heap_ok_def demo_heap_fields)
qed

section \<open>Properties\<close>

text \<open>
  C24. On a well-formed heap with at least one block, a request that the pools do not serve ends. \<^verbatim>\<open>malloc\<close>
  panics only when no block fits and growing the heap panics; it returns null only when no block fits and
  \<^verbatim>\<open>heap_grow\<close> has reported failure, and then nothing in use changes; otherwise it returns a 16-byte aligned
  pointer to a block that was not in use, is at least as large as the request and overlaps no block in
  use, all other blocks in use keep their place and size, and the heap stays well-formed. The request
  must stay 8 MiB away from \<open>2 ^ 64\<close> when added to the end of the virtual address pool: one within 15
  bytes of \<open>2 ^ 64\<close> is rounded to 0 and given whatever block is free (\<open>malloc_huge_request\<close>).
\<close>

theorem malloc_correct:
  assumes "heap_ok st bs" and "bs \<noteq> []" and "sz \<noteq> 0" and "snd (pool_malloc sz 0 (pools st) st) = 0"
    and "unat (vmm_pool_end (vmm st)) + unat sz + 2 ^ 23 < 2 ^ 64"
  shows "\<exists>r. malloc nk sz st = Some r \<and>
    (case r of
       Inl e \<Rightarrow> heap_grow nk (ALIGN HEAP_ALIGNMENT sz) st = Inl e \<and> (\<forall>b\<in>set bs. \<not> fits (ALIGN HEAP_ALIGNMENT sz) st b)
     | Inr (st', p) \<Rightarrow>
         if p = 0 then heap_ok st' bs \<and> live st' bs = live st bs \<and> (\<forall>b\<in>set bs. \<not> fits (ALIGN HEAP_ALIGNMENT sz) st b) \<and>
           heap_grow nk (ALIGN HEAP_ALIGNMENT sz) st = Inr (st', False)
         else allocated (unat sz) st bs st' p)"
proof -
  let ?a = "ALIGN HEAP_ALIGNMENT sz"
  have "unat (ALIGN (2 ^ 4) sz) = (unat sz + 15) div 16 * 16" using assms(5) by (subst unat_ALIGN) auto
  then have a: "unat ?a = (unat sz + 15) div 16 * 16" by (simp add: HEAP_ALIGNMENT_def)
  then have b: "16 dvd unat ?a" "unat sz \<le> unat ?a" "unat ?a \<le> unat sz + 15" by simp_all
  have m: "malloc nk sz st = malloc_retry nk ?a st" using assms(3) pool_malloc_none [OF assms(4)] by (simp add: malloc_def)
  have w: "allocated (unat sz) st bs st' p" if "allocated (unat ?a) st bs st' p" for st' p
    using that b(2) le_trans unfolding allocated_def by blast
  have "unat (vmm_pool_end (vmm st)) + unat ?a + 2 ^ 22 < 2 ^ 64" using b(3) assms(5) by simp
  from retry_spec [OF assms(1,2) b(1) this, of nk] show ?thesis
    using w unfolding m by (elim disjE exE conjE) (auto split: if_splits)
qed

text \<open>
  C25. Freeing a block in use of a well-formed heap that is not in a pool page does not panic; exactly that block
  leaves the blocks in use, the heap stays well-formed and still covers the same addresses, whichever of the
  neighbours the block is merged with.
\<close>

theorem free_correct:
  assumes "heap_ok st bs" and "(b, n) \<in> live st bs" and "\<not> BH_IS_POOL (hdr st b)" and "\<not> is_pool_page (page_of (b + HEADER_SIZE)) st"
  shows "\<exists>st' bs'. free (b + HEADER_SIZE) st = Some (Inr st') \<and> heap_ok st' bs' \<and> live st' bs' = live st bs - {(b, n)} \<and>
    space (hdr st') bs' = space (hdr st) bs"
proof -
  have inv: "heap_inv st bs" using assms(1) by (simp add: heap_ok_def)
  then have s: "sound_block (hdr st) b" using assms(2) hlist_sound by (auto simp: live_block heap_inv_def)
  have "get_ptr_type (b + 48) st = PTE_STATE_HEAP_BLOCK"
    using s assms(4) by (simp add: get_ptr_type_def HEADER_SIZE_def sound_block_def)
  then have f: "free (b + HEADER_SIZE) st = Some (free_block (b + 48) st)"
    using user_pointer(3) [OF s] by (simp add: free_def heap_free_def HEADER_SIZE_def)
  obtain st' bs' where "free_block (b + 48) st = Inr st'" "heap_inv st' bs'" "live st' bs' = live st bs - {(b, n)}"
    "space (hdr st') bs' = space (hdr st) bs" "vmm st' = vmm st" using free_block_spec [OF inv assms(2,3)] by auto
  then show ?thesis using f assms(1) by (intro exI [of _ st'] exI [of _ bs']) (simp add: heap_ok_def)
qed

text \<open>
  C26. \<^verbatim>\<open>realloc\<close> of a block in use to a larger size that fits together with the free block behind it keeps
  the pointer and every other block in use, and the heap stays well-formed, provided the block does not
  grow by exactly 16 or 32 bytes.
\<close>

theorem realloc_in_place_correct:
  assumes "heap_ok st (xs @ b # f # ys)" and "\<not> BH_IS_FREE (hdr st b)" and "BH_IS_FREE (hdr st f)" and "\<not> BH_IS_POOL (hdr st f)"
    and "\<not> BH_IS_BOUNDARY (hdr st f)" and "\<not> is_pool_page (page_of (b + HEADER_SIZE)) st" and "sz \<noteq> 0" and "unat sz + 15 < 2 ^ 64"
    and "bsize (hdr st b) < ALIGN HEAP_ALIGNMENT sz" and "ALIGN HEAP_ALIGNMENT sz \<le> bsize (hdr st b) + (HEADER_SIZE + bsize (hdr st f))"
    and "ALIGN HEAP_ALIGNMENT sz \<noteq> bsize (hdr st b) + 16" and "ALIGN HEAP_ALIGNMENT sz \<noteq> bsize (hdr st b) + 32"
  shows "\<exists>st' bs' n. realloc nk (b + HEADER_SIZE) sz st = Some (Inr (st', b + HEADER_SIZE)) \<and> heap_ok st' bs' \<and> unat sz \<le> n \<and>
    live st' bs' = insert (b, n) (live st (xs @ b # f # ys) - {(b, unat (bsize (hdr st b)))})"
proof -
  have "unat (ALIGN (2 ^ 4) sz) = (unat sz + 15) div 16 * 16" using assms(8) by (subst unat_ALIGN) auto
  then have a: "16 dvd unat (ALIGN 16 sz)" "unat sz \<le> unat (ALIGN 16 sz)" by simp_all
  have i: "heap_inv st (xs @ b # f # ys)" using assms(1) by (simp add: heap_ok_def)
  note c = assms(2-12) [unfolded HEADER_SIZE_def HEAP_ALIGNMENT_def]
  note r = realloc_expands [OF i c(3,4,2,5,6,8,9), of nk]
  let ?st = "expand_block b (ALIGN 16 sz) (bsize (hdr st b) + (48 + bsize (hdr st f))) st"
  obtain bs' n where "heap_inv ?st bs'" "live ?st bs' = insert (b, n) (live st (xs @ b # f # ys) - {(b, unat (bsize (hdr st b)))})"
    "unat (ALIGN 16 sz) \<le> n" "space (hdr ?st) bs' = space (hdr st) (xs @ b # f # ys)" "vmm ?st = vmm st"
    using expand_spec [OF i c(3,4,2,1) refl c(9) a(1) c(8)] c(10,11) by auto
  then show ?thesis
    using r a(2) assms(1) unfolding HEADER_SIZE_def
    by (intro exI [of _ ?st] exI [of _ bs'] exI [of _ n]) (simp add: heap_ok_def)
qed

text \<open>
  C27. When \<^verbatim>\<open>realloc\<close> grows a block by 16 bytes into a free block of at least 32 bytes, the header of the
  remainder is written over the \<^verbatim>\<open>next\<close> field it then reads: the list ends at the remainder and all blocks behind it are lost.
\<close>

theorem realloc_loses_blocks:
  assumes "heap_inv st (xs @ b # f # ys)" and "BH_IS_FREE (hdr st f)" and "\<not> BH_IS_POOL (hdr st f)" and "\<not> BH_IS_BOUNDARY (hdr st f)"
    and "\<not> is_pool_page (page_of (b + HEADER_SIZE)) st" and "sz \<noteq> 0" and "ALIGN HEAP_ALIGNMENT sz = bsize (hdr st b) + 16" and "32 \<le> unat (bsize (hdr st f))"
  shows "\<exists>st'. realloc nk (b + HEADER_SIZE) sz st = Some (Inr (st', b + HEADER_SIZE)) \<and> head st' = head st \<and>
    tail st' = b + HEADER_SIZE + ALIGN HEAP_ALIGNMENT sz \<and> hlist (hdr st') 0 (xs @ [b, b + HEADER_SIZE + ALIGN HEAP_ALIGNMENT sz]) 0"
proof -
  note c = assms(2-8) [unfolded HEADER_SIZE_def HEAP_ALIGNMENT_def]
  note m = heap_inv_middle [OF assms(1)]
  have u: "unat (bsize (hdr st b) + 16) = unat (bsize (hdr st b)) + 16"
    using bend_sound [OF m(1)] by (subst unat_plus_small) (auto simp: bend_def)
  have "bsize (hdr st b) < ALIGN 16 sz" "ALIGN 16 sz \<le> bsize (hdr st b) + (48 + bsize (hdr st f))"
    using u c(6) merge_geometry(5) [OF assms(1) c(2,3)] by (simp_all add: word_less_nat_alt word_le_nat_alt)
  note r = realloc_expands [OF assms(1) c(2,3,1,4,5) this, of nk]
  show ?thesis
    using expand_overlap [OF assms(1) c(2,3) refl c(7)] r c(6) unfolding HEADER_SIZE_def HEAP_ALIGNMENT_def by simp
qed

theorem malloc_correct_witness:
  "\<exists>st' p. malloc False 144 demo_heap = Some (Inr (st', p)) \<and> allocated 144 demo_heap demo_blocks st' p"
proof -
  have "fits (ALIGN HEAP_ALIGNMENT 144) demo_heap 0xFFFF800040000050"
    by (simp add: fits_def ALIGN_def HEAP_ALIGNMENT_def demo_heap_simps)
  then have "\<not> (\<forall>b\<in>set demo_blocks. \<not> fits (ALIGN HEAP_ALIGNMENT 144) demo_heap b)" by simp
  moreover obtain r where r: "malloc False 144 demo_heap = Some r"
    "case r of
       Inl e \<Rightarrow> heap_grow False (ALIGN HEAP_ALIGNMENT 144) demo_heap = Inl e \<and> (\<forall>b\<in>set demo_blocks. \<not> fits (ALIGN HEAP_ALIGNMENT 144) demo_heap b)
     | Inr (st', p) \<Rightarrow>
         if p = 0 then heap_ok st' demo_blocks \<and> live st' demo_blocks = live demo_heap demo_blocks \<and>
           (\<forall>b\<in>set demo_blocks. \<not> fits (ALIGN HEAP_ALIGNMENT 144) demo_heap b) \<and> heap_grow False (ALIGN HEAP_ALIGNMENT 144) demo_heap = Inr (st', False)
         else allocated (unat (144::u64)) demo_heap demo_blocks st' p"
    using malloc_correct [OF demo_heap_ok, of 144 False]
    by (auto simp: demo_heap_fields demo_vmm1_def demo_vmm_def vmm_init_def simp del: append.simps)
  ultimately show ?thesis
    by (cases r) (auto split: prod.splits if_splits simp del: append.simps)
qed

text \<open>The size \<open>2 ^ 64 - 1\<close> wraps to 0 when it is aligned, and \<^verbatim>\<open>malloc\<close> hands out a block of a small heap for it.\<close>

theorem malloc_huge_request:
  "\<exists>st' p. malloc nk (- 1) demo_heap = Some (Inr (st', p)) \<and> p \<noteq> 0"
proof -
  have f: "fits 0 demo_heap 0xFFFF800040000050" by (simp add: fits_def demo_heap_simps)
  have "malloc nk (- 1) demo_heap = malloc_retry nk 0 demo_heap"
    by (simp add: malloc_def demo_heap_fields ALIGN_def HEAP_ALIGNMENT_def)
  moreover have "unat (vmm_pool_end (vmm demo_heap)) + unat (0::u64) + 2 ^ 22 < 2 ^ 64"
    by (simp add: demo_heap_fields demo_vmm1_def demo_vmm_def vmm_init_def)
  ultimately show ?thesis
    using retry_spec [OF demo_heap_ok, of 0 nk] f by (auto split: if_splits)
qed

theorem free_correct_witness:
  "\<exists>st' bs'. free (0xFFFF800040000000 + HEADER_SIZE) demo_heap = Some (Inr st') \<and> heap_ok st' bs' \<and>
    live st' bs' = live demo_heap demo_blocks - {(0xFFFF800040000000, 32)} \<and> space (hdr st') bs' = space (hdr demo_heap) demo_blocks"
  by (rule free_correct [OF demo_heap_ok]) (simp_all add: live_block is_pool_page_def demo_heap_simps)

lemma align_demo: "ALIGN HEAP_ALIGNMENT 128 = 128" "ALIGN HEAP_ALIGNMENT 48 = 48"
  by (simp_all add: ALIGN_def HEAP_ALIGNMENT_def)

theorem realloc_in_place_correct_witness:
  "\<exists>st' bs' n. realloc False (0xFFFF800040000000 + HEADER_SIZE) 128 demo_heap = Some (Inr (st', 0xFFFF800040000000 + HEADER_SIZE)) \<and> heap_ok st' bs' \<and>
    unat (128::u64) \<le> n \<and> live st' bs' = insert (0xFFFF800040000000, n) (live demo_heap demo_blocks - {(0xFFFF800040000000, unat (bsize (hdr demo_heap 0xFFFF800040000000)))})"
  by (rule realloc_in_place_correct [OF demo_heap_ok]) (simp_all add: is_pool_page_def align_demo HEADER_SIZE_def demo_heap_simps)

theorem realloc_loses_blocks_witness:
  "\<exists>st'. realloc False (0xFFFF800040000000 + HEADER_SIZE) 48 demo_heap = Some (Inr (st', 0xFFFF800040000000 + HEADER_SIZE)) \<and> head st' = head demo_heap \<and>
    tail st' = 0xFFFF800040000000 + HEADER_SIZE + ALIGN HEAP_ALIGNMENT 48 \<and>
    hlist (hdr st') 0 ([] @ [0xFFFF800040000000, 0xFFFF800040000000 + HEADER_SIZE + ALIGN HEAP_ALIGNMENT 48]) 0"
  by (rule realloc_loses_blocks [OF demo_heap_inv]) (simp_all add: is_pool_page_def align_demo HEADER_SIZE_def demo_heap_simps)

end
