(* ===== verification/Elf.thy ===== *)
theory Elf
  imports Paging_Proofs Layout Scheduler
begin

text \<open>
  The loader of ELF programs, \<^verbatim>\<open>src/binfmt/elf64.c\<close> and \<^verbatim>\<open>src/binfmt/elf64.h\<close>, on top of the page allocator, the page
  tables, the memory routines and the scheduler.

  The state has the page tables with the page allocator (theory \<open>Paging\<close>) and the bytes of memory, at the
  addresses of the direct map. The headers are read from the current bytes wherever the code reads them.
  The two loops over pages wrap around only for ranges that end in the last page of the address space; they are
  partial functions, as is everything built on them, and \<open>None\<close> is not returning. The flush of the whole TLB
  at the end has no effect on the state.
\<close>

section \<open>The file format\<close>

type_synonym Elf64_Half = u16
type_synonym Elf64_Word = u32
type_synonym Elf64_Xword = u64
type_synonym Elf64_Addr = u64
type_synonym Elf64_Off = u64

definition EI_NIDENT :: nat where "EI_NIDENT = 16"
definition PF_X :: u32 where "PF_X = 1"
definition PF_W :: u32 where "PF_W = 2"
definition EI_MAG0 :: nat where "EI_MAG0 = 0"
definition EI_MAG1 :: nat where "EI_MAG1 = 1"
definition EI_MAG2 :: nat where "EI_MAG2 = 2"
definition EI_MAG3 :: nat where "EI_MAG3 = 3"
definition EI_CLASS :: nat where "EI_CLASS = 4"
definition EI_DATA :: nat where "EI_DATA = 5"
definition ELFMAG0 :: u8 where "ELFMAG0 = 0x7f"
definition ELFMAG1 :: u8 where "ELFMAG1 = of_char (CHR ''E'')"
definition ELFMAG2 :: u8 where "ELFMAG2 = of_char (CHR ''L'')"
definition ELFMAG3 :: u8 where "ELFMAG3 = of_char (CHR ''F'')"
definition ELFCLASS64 :: u8 where "ELFCLASS64 = 2"
definition ELFDATA2LSB :: u8 where "ELFDATA2LSB = 1"
definition ET_EXEC :: u16 where "ET_EXEC = 2"
definition ET_DYN :: u16 where "ET_DYN = 3"
definition EM_X86_64 :: u16 where "EM_X86_64 = 62"
definition PT_LOAD :: u32 where "PT_LOAD = 1"

lemmas elf_constants = EI_NIDENT_def PF_X_def PF_W_def EI_MAG0_def EI_MAG1_def EI_MAG2_def EI_MAG3_def EI_CLASS_def EI_DATA_def
  ELFMAG0_def ELFMAG1_def ELFMAG2_def ELFMAG3_def ELFCLASS64_def ELFDATA2LSB_def ET_EXEC_def ET_DYN_def EM_X86_64_def PT_LOAD_def

record Elf64_Ehdr =
  e_ident :: "u8 list"
  e_type :: Elf64_Half
  e_machine :: Elf64_Half
  e_version :: Elf64_Word
  e_entry :: Elf64_Addr
  e_phoff :: Elf64_Off
  e_shoff :: Elf64_Off
  e_flags :: Elf64_Word
  e_ehsize :: Elf64_Half
  e_phentsize :: Elf64_Half
  e_phnum :: Elf64_Half
  e_shentsize :: Elf64_Half
  e_shnum :: Elf64_Half
  e_shstrndx :: Elf64_Half

record Elf64_Phdr =
  p_type :: Elf64_Word
  p_flags :: Elf64_Word
  p_offset :: Elf64_Off
  p_vaddr :: Elf64_Addr
  p_paddr :: Elf64_Addr
  p_filesz :: Elf64_Xword
  p_memsz :: Elf64_Xword
  p_align :: Elf64_Xword

text \<open>The structures at an address of memory.\<close>

definition ehdr_at :: "memory \<Rightarrow> u64 \<Rightarrow> Elf64_Ehdr" where
  "ehdr_at m p = \<lparr>e_ident = bytes_at m p EI_NIDENT, e_type = rd16 m (p + 16), e_machine = rd16 m (p + 18), e_version = rd32 m (p + 20),
     e_entry = rd64 m (p + 24), e_phoff = rd64 m (p + 32), e_shoff = rd64 m (p + 40), e_flags = rd32 m (p + 48), e_ehsize = rd16 m (p + 52),
     e_phentsize = rd16 m (p + 54), e_phnum = rd16 m (p + 56), e_shentsize = rd16 m (p + 58), e_shnum = rd16 m (p + 60), e_shstrndx = rd16 m (p + 62)\<rparr>"

definition phdr_at :: "memory \<Rightarrow> u64 \<Rightarrow> Elf64_Phdr" where
  "phdr_at m p = \<lparr>p_type = rd32 m p, p_flags = rd32 m (p + 4), p_offset = rd64 m (p + 8), p_vaddr = rd64 m (p + 16), p_paddr = rd64 m (p + 24),
     p_filesz = rd64 m (p + 32), p_memsz = rd64 m (p + 40), p_align = rd64 m (p + 48)\<rparr>"

record elf64_parser_ret =
  ret_status :: int
  ret_entry :: u64
  ret_phnum :: u64
  ret_top_vaddr :: u64

definition no_ret :: elf64_parser_ret where
  "no_ret = \<lparr>ret_status = 0, ret_entry = 0, ret_phnum = 0, ret_top_vaddr = 0\<rparr>"

definition ident_ok :: "Elf64_Ehdr \<Rightarrow> bool" where
  "ident_ok eh \<longleftrightarrow> \<not> (e_ident eh ! EI_MAG0 \<noteq> ELFMAG0 \<or> e_ident eh ! EI_MAG1 \<noteq> ELFMAG1 \<or> e_ident eh ! EI_MAG2 \<noteq> ELFMAG2 \<or>
     e_ident eh ! EI_MAG3 \<noteq> ELFMAG3 \<or> e_ident eh ! EI_CLASS \<noteq> ELFCLASS64 \<or> e_ident eh ! EI_DATA \<noteq> ELFDATA2LSB \<or> e_machine eh \<noteq> EM_X86_64)"

section \<open>Mapping a segment\<close>

record elf_state =
  pgs :: paging_state
  ram :: memory

definition segment_flags :: "bool \<Rightarrow> Elf64_Phdr \<Rightarrow> u64" where
  "segment_flags user ph =
     (let flags = PTE_PRESENT;
          flags = (if user then flags OR PTE_USER else flags);
          flags = (if p_flags ph AND PF_W \<noteq> 0 then flags OR PTE_WRITABLE else flags) in
      if p_flags ph AND PF_X = 0 then flags OR PTE_NX else flags)"

definition combine_flags :: "u64 \<Rightarrow> u64 \<Rightarrow> u64" where
  "combine_flags existing_flags flags =
     (let combined_flags = existing_flags OR (flags AND PTE_WRITABLE) in
      if flags AND PTE_NX = 0 then combined_flags AND NOT PTE_NX else combined_flags)"

text \<open>The flags of a page that is mapped already.\<close>

definition flags_of :: "u64 \<Rightarrow> u64 \<Rightarrow> paging_state \<Rightarrow> u64" where
  "flags_of pte flags pg = (if pte \<noteq> 0 then pt pg pte AND (PTE_PRESENT OR PTE_USER OR PTE_WRITABLE OR PTE_NX) else flags)"

text \<open>The bodies of the loops; \<open>False\<close> is the return without a page.\<close>

definition map_small :: "u64 \<Rightarrow> u64 \<Rightarrow> u64 \<Rightarrow> elf_state \<Rightarrow> (elf_state \<times> bool) outcome" where
  "map_small root flags addr st =
     (let existing_phys = paging_get_phys root addr (pgs st) in
      if existing_phys = 0 then
        case pma_alloc_pages 1 (frames (pgs st)) of (f, phys) \<Rightarrow>
          let pg = (pgs st)\<lparr>frames := f\<rparr> in
          if phys = 0 then Inr (st\<lparr>pgs := pg\<rparr>, False)
          else and_then (paging_map_page root addr phys flags pg) (\<lambda>pg.
               and_then (memset (phys + hhdm pg) 0 PAGE_SIZE (ram st)) (\<lambda>(m, _).
               Inr (st\<lparr>pgs := pg, ram := m\<rparr>, True)))
      else
        and_then (paging_get_pte root addr False (pgs st)) (\<lambda>(pg, pte).
        and_then (paging_map_page root addr existing_phys (combine_flags (flags_of pte flags pg) flags) pg) (\<lambda>pg.
        Inr (st\<lparr>pgs := pg\<rparr>, True))))"

definition map_huge :: "u64 \<Rightarrow> u64 \<Rightarrow> u64 \<Rightarrow> elf_state \<Rightarrow> (elf_state \<times> bool) outcome" where
  "map_huge root flags addr st =
     (let existing_phys = paging_get_phys root addr (pgs st) in
      if existing_phys = 0 then
        case pma_alloc_pages_2mb 1 (frames (pgs st)) of (f, phys) \<Rightarrow>
          let pg = (pgs st)\<lparr>frames := f\<rparr> in
          if phys = 0 then Inr (st\<lparr>pgs := pg\<rparr>, False)
          else and_then (paging_map_2mb root addr phys flags pg) (\<lambda>pg.
               and_then (memset (phys + hhdm pg) 0 PAGE_SIZE_2MB (ram st)) (\<lambda>(m, _).
               Inr (st\<lparr>pgs := pg, ram := m\<rparr>, True)))
      else
        let existing_base = existing_phys AND NOT (PAGE_SIZE_2MB - 1) in
        and_then (paging_get_pte root addr False (pgs st)) (\<lambda>(pg, pte).
        and_then (paging_map_2mb root addr existing_base (combine_flags (flags_of pte flags pg) flags) pg) (\<lambda>pg.
        Inr (st\<lparr>pgs := pg\<rparr>, True))))"

partial_function (option) small_loop :: "u64 \<Rightarrow> u64 \<Rightarrow> u64 \<Rightarrow> u64 \<Rightarrow> elf_state \<Rightarrow> (elf_state \<times> bool) outcome option" where
  "small_loop root flags addr limit st =
     (if \<not> addr < limit then Some (Inr (st, True))
      else case map_small root flags addr st of
        Inl e \<Rightarrow> Some (Inl e)
      | Inr (st', ok) \<Rightarrow> if ok then small_loop root flags (addr + PAGE_SIZE) limit st' else Some (Inr (st', False)))"

partial_function (option) huge_loop :: "u64 \<Rightarrow> u64 \<Rightarrow> u64 \<Rightarrow> u64 \<Rightarrow> elf_state \<Rightarrow> (elf_state \<times> bool) outcome option" where
  "huge_loop root flags addr limit st =
     (if \<not> addr < limit then Some (Inr (st, True))
      else case map_huge root flags addr st of
        Inl e \<Rightarrow> Some (Inl e)
      | Inr (st', ok) \<Rightarrow> if ok then huge_loop root flags (addr + PAGE_SIZE_2MB) limit st' else Some (Inr (st', False)))"

section \<open>Filling a segment\<close>

text \<open>The part of a range that lies in its first page.\<close>

definition chunk_of :: "u64 \<Rightarrow> u64 \<Rightarrow> u64" where
  "chunk_of start sz = (let chunk = PAGE_SIZE - (start AND (PAGE_SIZE - 1)) in if chunk > sz then sz else chunk)"

lemma page_offset: "unat (v AND (PAGE_SIZE - 1)) = unat v mod 4096"
proof -
  have "PAGE_SIZE - 1 = mask 12" by (simp add: PAGE_SIZE_def mask_eq_decr_exp)
  then show ?thesis by (simp only: unat_and_mask) simp
qed

lemma unat_chunk: "unat (chunk_of v sz) = min (unat sz) (4096 - unat v mod 4096)"
proof -
  let ?o = "v AND (PAGE_SIZE - 1)"
  have "?o \<le> PAGE_SIZE" by (simp only: word_le_nat_alt page_offset) (simp add: PAGE_SIZE_def less_imp_le)
  then have "unat (PAGE_SIZE - ?o) = 4096 - unat v mod 4096" by (simp only: unat_minus_le page_offset) (simp add: PAGE_SIZE_def)
  then show ?thesis by (simp add: chunk_of_def Let_def word_less_nat_alt)
qed

lemma chunk_bounds: "chunk_of v sz \<le> sz" "sz \<noteq> 0 \<Longrightarrow> 0 < unat (chunk_of v sz)"
  by (simp_all add: word_le_nat_alt unat_chunk unat_gt_0)

lemma chunk_decreases:
  assumes "sz \<noteq> 0"
  shows "unat (sz - chunk_of v sz) < unat sz"
proof -
  have "unat (chunk_of v sz) \<le> unat sz" "0 < unat (chunk_of v sz)"
    using chunk_bounds(1) [of v sz] chunk_bounds(2) [OF assms, of v] by (simp_all only: word_le_nat_alt)
  then show ?thesis using unat_minus_le [OF chunk_bounds(1) [of v sz]] by linarith
qed

function copy_loop :: "u64 \<Rightarrow> u64 \<Rightarrow> u64 \<Rightarrow> u64 \<Rightarrow> elf_state \<Rightarrow> (elf_state \<times> bool) outcome" where
  "copy_loop root copy_start copy_size src st =
     (if copy_size = 0 then Inr (st, True)
      else
        let page = copy_start AND NOT (PAGE_SIZE - 1);
            off = copy_start AND (PAGE_SIZE - 1);
            chunk = chunk_of copy_start copy_size;
            phys = paging_get_phys root page (pgs st) in
        if phys = 0 then Inr (st, False)
        else case memcpy (phys + hhdm (pgs st) + off) src chunk (ram st) of
          Inl e \<Rightarrow> Inl e
        | Inr (m, _) \<Rightarrow> copy_loop root (copy_start + chunk) (copy_size - chunk) (src + chunk) (st\<lparr>ram := m\<rparr>))"
  by pat_completeness auto
termination
  by (relation "measure (\<lambda>(root, copy_start, copy_size, src, st). unat copy_size)") (simp_all add: chunk_decreases)

function bss_loop :: "u64 \<Rightarrow> u64 \<Rightarrow> u64 \<Rightarrow> elf_state \<Rightarrow> (elf_state \<times> bool) outcome" where
  "bss_loop root bss_start bss_size st =
     (if bss_size = 0 then Inr (st, True)
      else
        let page = bss_start AND NOT (PAGE_SIZE - 1);
            off = bss_start AND (PAGE_SIZE - 1);
            chunk = chunk_of bss_start bss_size;
            phys = paging_get_phys root page (pgs st) in
        if phys = 0 then Inr (st, False)
        else case memset (phys + hhdm (pgs st) + off) 0 chunk (ram st) of
          Inl e \<Rightarrow> Inl e
        | Inr (m, _) \<Rightarrow> bss_loop root (bss_start + chunk) (bss_size - chunk) (st\<lparr>ram := m\<rparr>))"
  by pat_completeness auto
termination
  by (relation "measure (\<lambda>(root, bss_start, bss_size, st). unat bss_size)") (simp_all add: chunk_decreases)

declare copy_loop.simps [simp del] bss_loop.simps [simp del]

section \<open>Loading\<close>

definition seg_start :: "Elf64_Phdr \<Rightarrow> u64" where
  "seg_start ph = p_vaddr ph AND NOT (PAGE_SIZE - 1)"

definition seg_end :: "Elf64_Phdr \<Rightarrow> u64" where
  "seg_end ph = (p_vaddr ph + p_memsz ph + PAGE_SIZE - 1) AND NOT (PAGE_SIZE - 1)"

definition huge_start :: "Elf64_Phdr \<Rightarrow> u64" where
  "huge_start ph = (seg_start ph + PAGE_SIZE_2MB - 1) AND NOT (PAGE_SIZE_2MB - 1)"

definition huge_end :: "Elf64_Phdr \<Rightarrow> u64" where
  "huge_end ph = seg_end ph AND NOT (PAGE_SIZE_2MB - 1)"

text \<open>The next part of a sequence, when the previous one came to its end.\<close>

definition next_part :: "(elf_state \<times> bool) outcome option \<Rightarrow> (elf_state \<Rightarrow> (elf_state \<times> bool) outcome option) \<Rightarrow> (elf_state \<times> bool) outcome option" where
  "next_part r f = (case r of
       None \<Rightarrow> None
     | Some (Inl e) \<Rightarrow> Some (Inl e)
     | Some (Inr (st, ok)) \<Rightarrow> if ok then f st else Some (Inr (st, False)))"

text \<open>
  The body of the loop over program headers after the check of the type; \<open>ph\<close> is the header. The three loops map the
  pages before, in and after the part that large pages can cover.
\<close>

definition map_segment :: "u64 \<Rightarrow> bool \<Rightarrow> Elf64_Phdr \<Rightarrow> elf_state \<Rightarrow> (elf_state \<times> bool) outcome option" where
  "map_segment root user ph st =
     (let flags = segment_flags user ph in
      next_part (small_loop root flags (seg_start ph) (min (huge_start ph) (seg_end ph)) st) (\<lambda>st.
      next_part (huge_loop root flags (huge_start ph) (huge_end ph) st) (\<lambda>st.
      small_loop root flags (huge_end ph) (seg_end ph) st)))"

definition fill_segment :: "u64 \<Rightarrow> u64 \<Rightarrow> Elf64_Phdr \<Rightarrow> elf_state \<Rightarrow> (elf_state \<times> bool) outcome option" where
  "fill_segment root file_data ph st =
     next_part (Some (copy_loop root (p_vaddr ph) (p_filesz ph) (file_data + p_offset ph) st)) (\<lambda>st.
     if p_memsz ph > p_filesz ph
     then Some (bss_loop root (p_vaddr ph + p_filesz ph) (p_memsz ph - p_filesz ph) st)
     else Some (Inr (st, True)))"

definition load_segment :: "u64 \<Rightarrow> bool \<Rightarrow> u64 \<Rightarrow> u64 \<Rightarrow> Elf64_Phdr \<Rightarrow> elf_state \<Rightarrow> (elf_state \<times> bool) outcome option" where
  "load_segment root user file_data file_size ph st =
     (if p_offset ph + p_filesz ph > file_size then Some (Inr (st, False))
      else next_part (map_segment root user ph st) (fill_segment root file_data ph))"

definition phdr_addr :: "memory \<Rightarrow> u64 \<Rightarrow> u16 \<Rightarrow> u64" where
  "phdr_addr m file_data i = file_data + e_phoff (ehdr_at m file_data) + ucast i * ucast (e_phentsize (ehdr_at m file_data))"

lemma half_inc: "i < (n :: u16) \<Longrightarrow> 65536 - unat (i + 1) < 65536 - unat i"
proof -
  assume "i < n"
  then have "unat (i + 1) = Suc (unat i)" "unat i < 65536" using unat_inc [of i n] unat_less_exp [of i] by simp_all
  then show ?thesis by linarith
qed

function segments_loop :: "u64 \<Rightarrow> bool \<Rightarrow> u64 \<Rightarrow> u64 \<Rightarrow> u16 \<Rightarrow> u64 \<Rightarrow> elf_state \<Rightarrow> (elf_state \<times> u64 \<times> bool) outcome option" where
  "segments_loop root user file_data file_size i highest_vaddr st =
     (if \<not> i < e_phnum (ehdr_at (ram st) file_data) then Some (Inr (st, highest_vaddr, True))
      else
        let ph = phdr_at (ram st) (phdr_addr (ram st) file_data i) in
        if p_type ph \<noteq> PT_LOAD then segments_loop root user file_data file_size (i + 1) highest_vaddr st
        else case load_segment root user file_data file_size ph st of
          None \<Rightarrow> None
        | Some (Inl e) \<Rightarrow> Some (Inl e)
        | Some (Inr (st, ok)) \<Rightarrow>
            if ok then segments_loop root user file_data file_size (i + 1) (if seg_end ph > highest_vaddr then seg_end ph else highest_vaddr) st
            else Some (Inr (st, highest_vaddr, False)))"
  by pat_completeness auto
termination
  by (relation "measure (\<lambda>(root, user, file_data, file_size, i, highest, st). 65536 - unat i)") (simp_all add: half_inc)

declare segments_loop.simps [simp del]

definition elf64_parse :: "u64 \<Rightarrow> u64 \<Rightarrow> u64 \<Rightarrow> bool \<Rightarrow> elf_state \<Rightarrow> (elf_state \<times> elf64_parser_ret) outcome option" where
  "elf64_parse file_data file_size target_pml4_phys user st =
     (if file_data = 0 then Some (Inr (st, no_ret))
      else
        let ehdr = ehdr_at (ram st) file_data in
        if \<not> ident_ok ehdr then Some (Inr (st, no_ret))
        else if e_phoff ehdr + ucast (e_phnum ehdr) * ucast (e_phentsize ehdr) > file_size then Some (Inr (st, no_ret))
        else if e_type ehdr \<noteq> ET_EXEC \<and> e_type ehdr \<noteq> ET_DYN then Some (Inr (st, no_ret))
        else case segments_loop (target_pml4_phys + hhdm (pgs st)) user file_data file_size 0 0 st of
          None \<Rightarrow> None
        | Some (Inl e) \<Rightarrow> Some (Inl e)
        | Some (Inr (st, highest_vaddr, ok)) \<Rightarrow>
            let ehdr = ehdr_at (ram st) file_data in
            Some (Inr (st, if ok then \<lparr>ret_status = 1, ret_entry = e_entry ehdr, ret_phnum = ucast (e_phnum ehdr), ret_top_vaddr = highest_vaddr\<rparr>
                           else no_ret)))"

text \<open>
  A new process: a root table with the upper half of the kernel's, the program loaded into it and a task for its entry.
  \<open>kernel_pml4\<close> is the physical address of the kernel's root table and \<open>new_task\<close> the address \<open>zalloc\<close> returns for the task.
\<close>

definition clone_upper :: "u64 \<Rightarrow> u64 \<Rightarrow> paging_state \<Rightarrow> paging_state" where
  "clone_upper proc kern pg = fold (\<lambda>i pg. set_entry proc (of_nat i) (pt pg (entry_addr kern (of_nat i))) pg) [256..<512] pg"

definition elf64_alloc :: "u64 \<Rightarrow> u64 \<Rightarrow> u64 \<Rightarrow> u64 \<Rightarrow> elf_state \<Rightarrow> sched_state \<Rightarrow> (elf_state \<times> sched_state \<times> u64) outcome option" where
  "elf64_alloc kernel_pml4 new_task file_data file_size st sched =
     (case pma_alloc_pages 1 (frames (pgs st)) of (f, proc_pml4_phys) \<Rightarrow>
      let pg = (pgs st)\<lparr>frames := f\<rparr>; st = st\<lparr>pgs := pg\<rparr>;
          proc_pml4_virt = proc_pml4_phys + hhdm pg in
      if proc_pml4_phys = 0 then Some (Inr (st, sched\<lparr>pages := f\<rparr>, 0))
      else if proc_pml4_virt = 0 then Some (Inl (Panic ''MEMORY'' ''memset s is null''))
      else if \<not> range_is_safe proc_pml4_virt PAGE_SIZE then Some (Inl (Panic ''MEMORY'' ''memset s is out of range''))
      else
        let pg = clone_upper proc_pml4_virt (kernel_pml4 + hhdm pg) (fill_table proc_pml4_virt (\<lambda>_. 0) pg) in
        case elf64_parse file_data file_size proc_pml4_phys False (st\<lparr>pgs := pg\<rparr>) of
          None \<Rightarrow> None
        | Some (Inl e) \<Rightarrow> Some (Inl e)
        | Some (Inr (st, elf)) \<Rightarrow>
            let sched = sched\<lparr>pages := frames (pgs st)\<rparr> in
            if ret_status elf = 0 then Some (Inr (st, sched, 0))
            else case scheduler_create_task new_task (ret_entry elf) sched of (sched, task) \<Rightarrow>
              let st = st\<lparr>pgs := (pgs st)\<lparr>frames := pages sched\<rparr>\<rparr> in
              if task = 0 then Some (Inr (st, sched, 0))
              else Some (Inr (st, set_task task (cr3_update (\<lambda>_. proc_pml4_phys)) sched, task)))"

end
