(* ===== verification/Elf_Proofs.thy ===== *)
theory Elf_Proofs
  imports Elf
begin

text \<open>
  What the loader does. The address space of a process is abstracted to a partial map from page numbers to
  frames; mapping a segment extends the map, and filling it writes through it.
\<close>

section \<open>Pages and frames\<close>

lemma unat_level_index: "unat (level_index k v) = unat v div 2 ^ (12 + 9 * k) mod 512"
proof -
  have "unat (level_index k v) = unat (drop_bit (12 + k * 9) v) mod 2 ^ 9"
    unfolding level_index_def page_masks by (rule unat_and_mask)
  then show ?thesis by (simp add: unat_drop_bit mult.commute)
qed

lemma index_page: "unat (level_index k v) = (unat v div 4096) div 512 ^ k mod 512"
proof -
  have "(2 :: nat) ^ (12 + 9 * k) = 4096 * 512 ^ k" by (simp add: power_add power_mult)
  then show ?thesis by (simp only: unat_level_index div_mult2_eq)
qed

lemma digits:
  fixes a :: nat
  assumes "a < 512 ^ 4"
  shows "a = a mod 512 + 512 * (a div 512 mod 512 + 512 * (a div 512 ^ 2 mod 512 + 512 * (a div 512 ^ 3 mod 512)))"
proof -
  have d: "a div 512 ^ 2 = a div 512 div 512" "a div 512 ^ 3 = a div 512 div 512 div 512"
    unfolding power2_eq_square power3_eq_cube by (simp_all only: div_mult2_eq)
  have "a div 512 div 512 div 512 < 512" using assms by (simp add: div_mult2_eq [symmetric])
  then have "a div 512 div 512 div 512 mod 512 = a div 512 div 512 div 512" by simp
  then show ?thesis unfolding d by (simp only: mod_mult_div_eq)
qed

lemma same_page_iff:
  assumes "4 \<le> L" "unat v < 2 ^ 47" "unat x < 2 ^ 47"
  shows "same_page L v x \<longleftrightarrow> unat v div 4096 = unat x div 4096"
proof
  assume s: "same_page L v x"
  let ?a = "unat v div 4096" and ?b = "unat x div 4096"
  have "?a div 512 ^ k mod 512 = ?b div 512 ^ k mod 512" if "k < 4" for k
    using s that assms(1) index_page [of k v] index_page [of k x] by (simp add: same_page_def)
  from this [of 0] this [of 1] this [of 2] this [of 3]
  have "?a mod 512 = ?b mod 512" "?a div 512 mod 512 = ?b div 512 mod 512" "?a div 512 ^ 2 mod 512 = ?b div 512 ^ 2 mod 512"
    "?a div 512 ^ 3 mod 512 = ?b div 512 ^ 3 mod 512" by simp_all
  moreover have "?a < 512 ^ 4" "?b < 512 ^ 4" using assms(2,3) by simp_all
  ultimately show "?a = ?b" using digits [of ?a] digits [of ?b] by metis
next
  assume "unat v div 4096 = unat x div 4096"
  then show "same_page L v x" by (simp add: same_page_def word_unat_eq_iff index_page)
qed

text \<open>Byte \<open>i\<close> of frame \<open>p\<close> in the direct map.\<close>

definition byte_addr :: "u64 \<Rightarrow> nat \<Rightarrow> nat \<Rightarrow> u64" where
  "byte_addr h p i = of_nat p * 4096 + h + of_nat i"

lemma byte_addr_page: "byte_addr (hhdm pg) p i = page_addr (pma_memory (frames pg)) p + of_nat i"
  by (simp add: byte_addr_def page_addr_def hhdm_def)

lemma byte_addr_inj:
  assumes "p < 2 ^ 36" "q < 2 ^ 36" "i < 4096" "j < 4096" "byte_addr h p i = byte_addr h q j"
  shows "p = q \<and> i = j"
proof -
  have u: "unat (of_nat p * 4096 + of_nat i :: u64) = p * 4096 + i" if "p < 2 ^ 36" "i < 4096" for p i
    using that by (simp add: unat_plus_small unat_pages unat_of_nat_small)
  have "of_nat p * 4096 + of_nat i = (of_nat q * 4096 + of_nat j :: u64)" using assms(5) by (simp add: byte_addr_def add_ac)
  then have "p * 4096 + i = q * 4096 + j" using u [OF assms(1,3)] u [OF assms(2,4)] by metis
  moreover from this have "p = q" using assms(3,4) by linarith
  ultimately show ?thesis by simp
qed

definition in_frame :: "u64 \<Rightarrow> nat \<Rightarrow> u64 \<Rightarrow> bool" where
  "in_frame h p a \<longleftrightarrow> (\<exists>i<4096. a = byte_addr h p i)"

section \<open>Address spaces\<close>

text \<open>
  The page tables at \<open>root\<close> translate the lower half of the address space by the map \<open>T\<close>, with small pages only; the frames
  of the map are in use, are no page tables and are mapped once.
\<close>

definition user_space :: "paging_state \<Rightarrow> u64 \<Rightarrow> nat set \<Rightarrow> (nat \<rightharpoonup> nat) \<Rightarrow> bool" where
  "user_space pg root S T \<longleftrightarrow> tables pg root S \<and> 4 \<le> paging_level pg \<and>
     (\<forall>v. unat v < 2 ^ 47 \<longrightarrow> no_huge pg (paging_level pg - 1) root v \<and>
        paging_get_phys root v pg = (case T (unat v div 4096) of None \<Rightarrow> 0 | Some p \<Rightarrow> of_nat p * 4096 + (v AND 0xFFF))) \<and>
     (\<forall>n p. T n = Some p \<longrightarrow> p \<noteq> 0 \<and> p < unat (total_pages (pma_normal (frames pg))) \<and> \<not> page_free (frames pg) p \<and> p \<notin> S) \<and>
     (\<forall>n m p. T n = Some p \<longrightarrow> T m = Some p \<longrightarrow> n = m)"

lemma user_spaceD:
  assumes "user_space pg root S T"
  shows "tables pg root S" "4 \<le> paging_level pg" "unat v < 2 ^ 47 \<Longrightarrow> no_huge pg (paging_level pg - 1) root v"
    "unat v < 2 ^ 47 \<Longrightarrow> paging_get_phys root v pg = (case T (unat v div 4096) of None \<Rightarrow> 0 | Some p \<Rightarrow> of_nat p * 4096 + (v AND 0xFFF))"
    "T n = Some p \<Longrightarrow> p \<noteq> 0" "T n = Some p \<Longrightarrow> p < unat (total_pages (pma_normal (frames pg)))" "T n = Some p \<Longrightarrow> \<not> page_free (frames pg) p"
    "T n = Some p \<Longrightarrow> p \<notin> S" "T n = Some p \<Longrightarrow> T m = Some p \<Longrightarrow> n = m"
    "frames_ok pg S" "T n = Some p \<Longrightarrow> p < 2 ^ 36"
proof -
  note u = assms [unfolded user_space_def]
  show "tables pg root S" "4 \<le> paging_level pg" using u by blast+
  show "unat v < 2 ^ 47 \<Longrightarrow> no_huge pg (paging_level pg - 1) root v" using u by blast
  show "unat v < 2 ^ 47 \<Longrightarrow> paging_get_phys root v pg = (case T (unat v div 4096) of None \<Rightarrow> 0 | Some p \<Rightarrow> of_nat p * 4096 + (v AND 0xFFF))"
    using u by blast
  show "T n = Some p \<Longrightarrow> p \<noteq> 0" "T n = Some p \<Longrightarrow> p < unat (total_pages (pma_normal (frames pg)))" "T n = Some p \<Longrightarrow> \<not> page_free (frames pg) p"
    "T n = Some p \<Longrightarrow> p \<notin> S" using u by blast+
  show "T n = Some p \<Longrightarrow> T m = Some p \<Longrightarrow> n = m" using u by blast
  show f: "frames_ok pg S" using u by (simp add: tables_def)
  show "T n = Some p \<Longrightarrow> p < 2 ^ 36" using u pma_invD(5) [OF frames_okD(1) [OF f]] by force
qed

text \<open>A frame of the map has a safe address in the direct map.\<close>

lemma mapped_safe:
  assumes "user_space pg root S T" "T n = Some p"
  shows "range_is_safe (of_nat p * 4096 + hhdm pg) 4096" "of_nat p * 4096 + hhdm pg \<noteq> 0"
  using user_spaceD(5,6,10) [OF assms(1)] assms(2) unfolding frames_ok_def page_addr_def hhdm_def by blast+

text \<open>From one state to a later one the map has grown by frames that were free, and only free frames were written.\<close>

definition extends :: "elf_state \<Rightarrow> (nat \<rightharpoonup> nat) \<Rightarrow> elf_state \<Rightarrow> (nat \<rightharpoonup> nat) \<Rightarrow> bool" where
  "extends st T st' T' \<longleftrightarrow> hhdm (pgs st') = hhdm (pgs st) \<and> T \<subseteq>\<^sub>m T' \<and>
     (\<forall>q. page_free (frames (pgs st')) q \<longrightarrow> page_free (frames (pgs st)) q) \<and>
     (\<forall>n p. T' n = Some p \<longrightarrow> T n = Some p \<or> T n = None \<and> page_free (frames (pgs st)) p) \<and>
     (\<forall>a. (\<forall>p. page_free (frames (pgs st)) p \<longrightarrow> \<not> in_frame (hhdm (pgs st)) p a) \<longrightarrow> ram st' a = ram st a)"

lemma extends_refl: "extends st T st T"
  by (simp add: extends_def)

lemma extends_trans: "extends st T st1 T1 \<Longrightarrow> extends st1 T1 st2 T2 \<Longrightarrow> extends st T st2 T2"
  unfolding extends_def by (auto intro: map_le_trans) (metis option.distinct(1) option.exhaust map_le_def domI)+

definition full :: "elf_state \<Rightarrow> bool" where
  "full st \<longleftrightarrow> (\<forall>q. \<not> page_free (frames (pgs st)) q)"

lemma extends_full: "extends st T st' T' \<Longrightarrow> full st \<Longrightarrow> full st'"
  unfolding extends_def full_def by blast

lemma extends_map: "extends st T st' T' \<Longrightarrow> T n = Some p \<Longrightarrow> T' n = Some p"
  unfolding extends_def map_le_def by (metis domI)

lemma extends_dom: "extends st T st' T' \<Longrightarrow> n \<in> dom T \<Longrightarrow> n \<in> dom T'"
  using extends_map by (metis domD domI)

section \<open>Flags\<close>

definition flag_ok :: "u64 \<Rightarrow> bool" where
  "flag_ok f \<longleftrightarrow> f AND PTE_ADDR_MASK = 0 \<and> f AND PTE_PRESENT \<noteq> 0"

lemma flag_ok_bits: "flag_ok f \<longleftrightarrow> bit f 0 \<and> (\<forall>k. 12 \<le> k \<and> k < 60 \<longrightarrow> \<not> bit f k)"
proof -
  have "f AND PTE_ADDR_MASK = 0 \<longleftrightarrow> (\<forall>k. 12 \<le> k \<and> k < 60 \<longrightarrow> \<not> bit f k)"
  proof
    assume "f AND PTE_ADDR_MASK = 0"
    then have "\<not> bit (f AND PTE_ADDR_MASK) k" for k by simp
    then show "\<forall>k. 12 \<le> k \<and> k < 60 \<longrightarrow> \<not> bit f k" by (auto simp: bit_and_iff addr_mask_bit)
  qed (auto simp: bit_eq_iff bit_and_iff addr_mask_bit)
  then show ?thesis using present_bit(1) [of f] by (auto simp: flag_ok_def present_def)
qed

lemma pte_bits:
  "bit PTE_PRESENT k \<longleftrightarrow> k = 0" "bit PTE_WRITABLE k \<longleftrightarrow> k = 1" "bit PTE_USER k \<longleftrightarrow> k = 2" "bit PTE_NX k \<longleftrightarrow> k = 63"
  using bit_push_one [of 0 k] bit_push_one [of 1 k] bit_push_one [of 2 k] bit_push_one [of 63 k]
  by (auto simp: PTE_PRESENT_def PTE_WRITABLE_def PTE_USER_def PTE_NX_def)

lemma segment_flag_ok: "flag_ok (segment_flags user ph)"
  by (auto simp: flag_ok_bits segment_flags_def Let_def bit_or_iff pte_bits)

lemma combine_flag_ok: "flag_ok f \<Longrightarrow> flag_ok (combine_flags f g)"
  by (auto simp: flag_ok_bits combine_flags_def Let_def bit_or_iff bit_and_iff bit_not_iff pte_bits)

lemma flags_of_ok: "pte \<noteq> 0 \<Longrightarrow> present (pt pg pte) \<Longrightarrow> flag_ok (flags_of pte flags pg)"
  by (auto simp: flag_ok_bits flags_of_def bit_or_iff bit_and_iff pte_bits present_bit)

section \<open>Mapping\<close>

lemma frame_addr_mask: "p < 2 ^ 36 \<Longrightarrow> (of_nat p * 4096 :: u64) AND NOT PTE_ADDR_MASK = 0"
proof (rule bit_eqI)
  fix k assume "p < 2 ^ 36"
  from frame_bits [OF this, of k] have "bit (of_nat p * 4096 :: u64) k \<Longrightarrow> 12 \<le> k \<and> k < 60" by simp
  then show "bit ((of_nat p * 4096 :: u64) AND NOT PTE_ADDR_MASK) k \<longleftrightarrow> bit (0 :: u64) k" by (auto simp: bit_and_iff bit_not_iff addr_mask_bit)
qed

lemma space_frames:
  assumes u: "user_space pg root S T" and "hhdm (pg\<lparr>frames := f\<rparr>) = hhdm pg" "total_pages (pma_normal f) = total_pages (pma_normal (frames pg))"
    "frames_ok (pg\<lparr>frames := f\<rparr>) S" "\<And>q. page_free f q \<Longrightarrow> page_free (frames pg) q"
  shows "user_space (pg\<lparr>frames := f\<rparr>) root S T"
proof -
  let ?pg = "pg\<lparr>frames := f\<rparr>" and ?l = "paging_level pg - 1"
  have ag: "agree S pg ?pg" using assms(2) by (simp add: agree_def)
  have t: "ptree pg ?l root S" using user_spaceD(1) [OF u] by (simp add: tables_def)
  have "tables ?pg root S" using user_spaceD(1) [OF u] ptree_agree [OF t ag] assms(4) by (simp add: tables_def)
  moreover have "paging_get_phys root v ?pg = paging_get_phys root v pg" "no_huge ?pg ?l root v = no_huge pg ?l root v" for v
    using phys_agree [OF t ag] no_huge_agree [OF t ag] by (simp_all add: paging_get_phys_def)
  ultimately show ?thesis using u assms(3,5) unfolding user_space_def by simp blast
qed

lemma space_map:
  assumes u: "user_space pg root S T" and a: "unat addr < 2 ^ 47" and f: "flag_ok flags"
    and p: "p \<noteq> 0" "p < unat (total_pages (pma_normal (frames pg)))" "\<not> page_free (frames pg) p" "p \<notin> S"
    and once: "\<And>n. T n = Some p \<Longrightarrow> n = unat addr div 4096"
  shows "\<exists>pg' S' T'. paging_map_page root addr (of_nat p * 4096) flags pg = Inr pg' \<and> user_space pg' root S' T' \<and> hhdm pg' = hhdm pg \<and>
    total_pages (pma_normal (frames pg')) = total_pages (pma_normal (frames pg)) \<and> (\<forall>q. page_free (frames pg') q \<longrightarrow> page_free (frames pg) q) \<and>
    (T' = T(unat addr div 4096 \<mapsto> p) \<or> T' = T \<and> (\<forall>q. \<not> page_free (frames pg') q))"
proof -
  note U = user_spaceD [OF u]
  have p36: "p < 2 ^ 36" using p(2) pma_invD(5) [OF frames_okD(1) [OF U(10)]] by linarith
  obtain pg' F where m: "paging_map_page root addr (of_nat p * 4096) flags pg = Inr pg'" "tables pg' root (S \<union> F)"
    "\<forall>q\<in>F. page_free (frames pg) q" "\<forall>q. page_free (frames pg') q \<longleftrightarrow> page_free (frames pg) q \<and> q \<notin> F"
    "hhdm pg' = hhdm pg" "paging_level pg' = paging_level pg" "total_pages (pma_normal (frames pg')) = total_pages (pma_normal (frames pg))"
    "\<forall>x. no_huge pg (paging_level pg - 1) root x \<longrightarrow> no_huge pg' (paging_level pg - 1) root x"
    and tr: "(\<forall>x. paging_get_phys root x pg' =
        (if same_page (paging_level pg) addr x then of_nat p * 4096 + (x AND 0xFFF) else paging_get_phys root x pg)) \<or>
     (\<forall>q. \<not> page_free (frames pg') q) \<and> (\<forall>x. paging_get_phys root x pg' = paging_get_phys root x pg)"
    using map_page_spec [OF U(1) U(3) [OF a] frame_addr_mask [OF p36], of flags] f unfolding flag_ok_def by blast
  let ?T = "\<lambda>ok. if ok then T(unat addr div 4096 \<mapsto> p) else T"
  obtain ok where ok: "\<forall>x. paging_get_phys root x pg' =
        (if ok \<and> same_page (paging_level pg) addr x then of_nat p * 4096 + (x AND 0xFFF) else paging_get_phys root x pg)"
      "ok \<or> (\<forall>q. \<not> page_free (frames pg') q)"
    using tr by (elim disjE) (rule that [of True], auto intro: that [of False])
  have "user_space pg' root (S \<union> F) (?T ok)"
    unfolding user_space_def
  proof (intro conjI allI impI)
    fix v :: u64 assume v: "unat v < 2 ^ 47"
    show "no_huge pg' (paging_level pg' - 1) root v" using m(6,8) U(3) [OF v] by simp
    show "paging_get_phys root v pg' = (case ?T ok (unat v div 4096) of None \<Rightarrow> 0 | Some p \<Rightarrow> of_nat p * 4096 + (v AND 0xFFF))"
      using ok(1) U(4) [OF v] same_page_iff [OF U(2) a v] by auto
  next
    fix n q assume n: "?T ok n = Some q"
    then have "q = p \<or> T n = Some q" by (auto split: if_splits)
    then show "q \<noteq> 0" "q < unat (total_pages (pma_normal (frames pg')))" "\<not> page_free (frames pg') q" "q \<notin> S \<union> F"
      using p U(5-8) [of n q] m(3,4,7) by auto
    show "n = k" if "?T ok k = Some q" for k using n that once U(9) by (auto split: if_splits)
  qed (use m(2,6) U(2) in simp_all)
  then show ?thesis using m(1,4,5,7) ok(2) by (intro exI [of _ pg'] exI [of _ "S \<union> F"] exI [of _ "?T ok"]) auto
qed

text \<open>A frame for a page.\<close>

lemma space_alloc:
  assumes u: "user_space pg root S T"
  obtains f where "pma_alloc_pages 1 (frames pg) = (f, 0)" "user_space (pg\<lparr>frames := f\<rparr>) root S T" "hhdm (pg\<lparr>frames := f\<rparr>) = hhdm pg" "\<And>q. \<not> page_free f q"
  | f p where "pma_alloc_pages 1 (frames pg) = (f, of_nat p * 4096)" "(of_nat p * 4096 :: u64) \<noteq> 0" "user_space (pg\<lparr>frames := f\<rparr>) root S T"
    "hhdm (pg\<lparr>frames := f\<rparr>) = hhdm pg" "page_free (frames pg) p" "p \<noteq> 0" "p < unat (total_pages (pma_normal f))" "p \<notin> S" "\<And>n. T n \<noteq> Some p"
    "\<And>q. page_free f q \<longleftrightarrow> page_free (frames pg) q \<and> q \<noteq> p"
proof -
  note U = user_spaceD [OF u]
  show ?thesis
  proof (rule new_table_cases [OF U(10)])
    fix f assume n: "new_table pg = (pg\<lparr>frames := f\<rparr>, 0)" "grown pg (pg\<lparr>frames := f\<rparr>) S {}" "\<And>q. \<not> page_free f q"
    obtain g r where g: "pma_alloc_pages 1 (frames pg) = (g, r)" by force
    then have "pg\<lparr>frames := g\<rparr> = pg\<lparr>frames := f\<rparr>" "r = 0" using n(1) by (simp_all add: new_table_def)
    then have "pma_alloc_pages 1 (frames pg) = (f, 0)" using g by (metis paging_state.select_convs(3) paging_state.surjective paging_state.update_convs(3))
    moreover have "user_space (pg\<lparr>frames := f\<rparr>) root S T" using n(2) by (intro space_frames [OF u]) (auto simp: grown_def)
    ultimately show ?thesis using that(1) n by (auto simp: grown_def)
  next
    fix f p assume n: "new_table pg = (pg\<lparr>frames := f\<rparr>, of_nat p * 4096)" "of_nat p * 4096 \<noteq> (0::u64)" "p < 2 ^ 36"
      "page_free (frames pg) p" "hhdm (pg\<lparr>frames := f\<rparr>) = hhdm pg" "frames_ok (pg\<lparr>frames := f\<rparr>) (insert p S)"
      "total_pages (pma_normal f) = total_pages (pma_normal (frames pg))"
      "\<And>r. page_free f r \<longleftrightarrow> page_free (frames pg) r \<and> r \<noteq> p"
    obtain g r where g: "pma_alloc_pages 1 (frames pg) = (g, r)" by force
    then have "pg\<lparr>frames := g\<rparr> = pg\<lparr>frames := f\<rparr>" "r = of_nat p * 4096" using n(1) by (simp_all add: new_table_def)
    then have a: "pma_alloc_pages 1 (frames pg) = (f, of_nat p * 4096)" using g by (metis paging_state.select_convs(3) paging_state.surjective paging_state.update_convs(3))
    have "user_space (pg\<lparr>frames := f\<rparr>) root S T"
      using n(5,7,8) frames_ok_mono [OF n(6), of S] by (intro space_frames [OF u]) auto
    moreover have "p \<noteq> 0" "p < unat (total_pages (pma_normal f))" using page_free_bounds [OF frames_okD(1) [OF U(10)] n(4)] n(7) by simp_all
    moreover have "p \<notin> S" "T m \<noteq> Some p" for m using frames_okD(3) [OF U(10)] U(7) n(4) by blast+
    ultimately show ?thesis using that(2) a n(2,4,5,8) by blast
  qed
qed

lemma memset_frame:
  assumes u: "user_space pg root S T" and p: "p \<noteq> 0" "p < unat (total_pages (pma_normal (frames pg)))"
  shows "\<exists>m'. memset (of_nat p * 4096 + hhdm pg) 0 PAGE_SIZE m = Inr (m', of_nat p * 4096 + hhdm pg) \<and>
    (\<forall>a. \<not> in_frame (hhdm pg) p a \<longrightarrow> m' a = m a)"
proof -
  let ?b = "of_nat p * 4096 + hhdm pg"
  have safe: "range_is_safe ?b 4096" "?b \<noteq> 0" using user_spaceD(10) [OF u] p unfolding frames_ok_def page_addr_def hhdm_def by blast+
  then obtain m' where m: "memset ?b 0 PAGE_SIZE m = Inr (m', ?b)" by (simp add: memset_def PAGE_SIZE_def)
  have "unat PAGE_SIZE = 4096" by (simp add: PAGE_SIZE_def)
  then have "m' a = m a" if "\<not> in_frame (hhdm pg) p a" for a
    using memset_contract [OF m] that by (auto simp: in_frame_def byte_addr_def elim: in_range_elim)
  then show ?thesis using m by blast
qed

lemma extendsI:
  assumes "hhdm (pgs st') = hhdm (pgs st)" "T \<subseteq>\<^sub>m T'" "\<And>q. page_free (frames (pgs st')) q \<Longrightarrow> page_free (frames (pgs st)) q"
    "\<And>n p. T' n = Some p \<Longrightarrow> T n = Some p \<or> T n = None \<and> page_free (frames (pgs st)) p"
    "\<And>a. (\<And>p. page_free (frames (pgs st)) p \<Longrightarrow> \<not> in_frame (hhdm (pgs st)) p a) \<Longrightarrow> ram st' a = ram st a"
  shows "extends st T st' T'"
  using assms unfolding extends_def by blast

lemma map_small_new:
  assumes u: "user_space (pgs st) root S T" and f: "flag_ok flags" and a: "unat addr < 2 ^ 47"
    and None: "T (unat addr div 4096) = None"
  shows "\<exists>st' ok S' T'. map_small root flags addr st = Inr (st', ok) \<and> user_space (pgs st') root S' T' \<and> extends st T st' T' \<and>
    (unat addr div 4096 \<in> dom T' \<or> full st') \<and> (\<not> ok \<longrightarrow> full st')"
proof -
  let ?n = "unat addr div 4096"
  note U = user_spaceD [OF u]
  have ph: "paging_get_phys root addr (pgs st) = 0" using U(4) [OF a] None by simp
  show ?thesis
  proof (rule space_alloc [OF u])
    fix g assume g: "pma_alloc_pages 1 (frames (pgs st)) = (g, 0)" "user_space ((pgs st)\<lparr>frames := g\<rparr>) root S T"
      "hhdm ((pgs st)\<lparr>frames := g\<rparr>) = hhdm (pgs st)" "\<And>q. \<not> page_free g q"
    then have "map_small root flags addr st = Inr (st\<lparr>pgs := (pgs st)\<lparr>frames := g\<rparr>\<rparr>, False)" using ph by (simp add: map_small_def)
    moreover have "extends st T (st\<lparr>pgs := (pgs st)\<lparr>frames := g\<rparr>\<rparr>) T" using g by (intro extendsI) auto
    ultimately show ?thesis using g by (auto simp: full_def)
  next
    fix g p assume g: "pma_alloc_pages 1 (frames (pgs st)) = (g, of_nat p * 4096)" "(of_nat p * 4096 :: u64) \<noteq> 0" "user_space ((pgs st)\<lparr>frames := g\<rparr>) root S T"
      "hhdm ((pgs st)\<lparr>frames := g\<rparr>) = hhdm (pgs st)" "page_free (frames (pgs st)) p" "p \<noteq> 0" "p < unat (total_pages (pma_normal g))" "p \<notin> S" "\<And>n. T n \<noteq> Some p"
      "\<And>q. page_free g q \<longleftrightarrow> page_free (frames (pgs st)) q \<and> q \<noteq> p"
    obtain pg' S' T' where m: "paging_map_page root addr (of_nat p * 4096) flags ((pgs st)\<lparr>frames := g\<rparr>) = Inr pg'" "user_space pg' root S' T'"
      "hhdm pg' = hhdm (pgs st)" "\<forall>q. page_free (frames pg') q \<longrightarrow> page_free g q" "total_pages (pma_normal (frames pg')) = total_pages (pma_normal g)"
      "T' = T(?n \<mapsto> p) \<or> T' = T \<and> (\<forall>q. \<not> page_free (frames pg') q)"
      using space_map [OF g(3) a f g(6), simplified] g(4,7-10) by auto
    obtain m' where s: "memset (of_nat p * 4096 + hhdm pg') 0 PAGE_SIZE (ram st) = Inr (m', of_nat p * 4096 + hhdm pg')"
      "\<forall>a. \<not> in_frame (hhdm pg') p a \<longrightarrow> m' a = ram st a" using memset_frame [OF m(2) g(6)] g(7) m(5) by metis
    have "map_small root flags addr st = Inr (st\<lparr>pgs := pg', ram := m'\<rparr>, True)"
      using ph g(1,2) m(1) s(1) by (simp add: map_small_def Let_def)
    moreover have "extends st T (st\<lparr>pgs := pg', ram := m'\<rparr>) T'"
      using m(3,4,6) g(5,10) s(2) None by (intro extendsI) (auto simp: map_le_def split: if_splits)
    ultimately show ?thesis using m(2,6) by (intro exI [of _ "st\<lparr>pgs := pg', ram := m'\<rparr>"] exI [of _ True] exI [of _ S'] exI [of _ T']) (auto simp: full_def)
  qed
qed

lemma map_small_old:
  assumes u: "user_space (pgs st) root S T" and f: "flag_ok flags" and a: "unat addr < 2 ^ 47" "unat addr mod 4096 = 0"
    and Some: "T (unat addr div 4096) = Some p"
  shows "\<exists>st' ok S' T'. map_small root flags addr st = Inr (st', ok) \<and> user_space (pgs st') root S' T' \<and> extends st T st' T' \<and>
    (unat addr div 4096 \<in> dom T' \<or> full st') \<and> (\<not> ok \<longrightarrow> full st')"
proof -
  let ?n = "unat addr div 4096"
  note U = user_spaceD [OF u]
  have off: "addr AND 0xFFF = 0" using a(2) page_offset [of addr] by (simp add: PAGE_SIZE_def unat_eq_0)
  have ph: "paging_get_phys root addr (pgs st) = of_nat p * 4096" using U(4) [OF a(1)] Some off by simp
  have nz: "(of_nat p * 4096 :: u64) \<noteq> 0" using unat_pages [of p] U(5,11) [OF Some] by auto
  let ?l = "paging_level (pgs st) - 1"
  have t: "ptree (pgs st) ?l root S" using U(1) by (simp add: tables_def)
  have sl: "Suc ?l = paging_level (pgs st)" using U(2) by simp
  obtain r where r: "walk_loop ?l root addr 0 False (pgs st) = Inr (pgs st, r)"
    "if r = 0 then \<forall>x. same_page (Suc ?l) addr x \<longrightarrow> phys_loop ?l root x (pgs st) = 0 else leaf (pgs st) ?l root addr r"
    using walk_noalloc [OF t U(10) U(3) [OF a(1)]] by blast
  have sp: "same_page (Suc ?l) addr addr" by (simp add: same_page_def)
  have r0: "r \<noteq> 0" using r(2) sp ph nz by (auto simp: paging_get_phys_def)
  then have lf: "leaf (pgs st) ?l root addr r" using r(2) by simp
  let ?pte = "entry_addr r (level_index 0 addr)"
  obtain q where q: "q \<in> S" "r = page_addr (pma_memory (frames (pgs st))) q" using leaf_frame [OF t lf] by blast
  have pte: "?pte \<noteq> 0" using entry_nonzero [of r] level_index_nat [of 0 addr] frames_okD(4,5) [OF U(10) q(1)] q(2) by auto
  have "present (pt (pgs st) ?pte)" using leaf_phys [OF lf sp] ph nz by (auto simp: paging_get_phys_def leaf_value_def split: if_splits)
  then have fo: "flag_ok (combine_flags (flags_of ?pte flags (pgs st)) flags)" using combine_flag_ok [OF flags_of_ok [OF pte]] by blast
  obtain pg' S' T' where m: "paging_map_page root addr (of_nat p * 4096) (combine_flags (flags_of ?pte flags (pgs st)) flags) (pgs st) = Inr pg'"
    "user_space pg' root S' T'" "hhdm pg' = hhdm (pgs st)" "\<forall>q. page_free (frames pg') q \<longrightarrow> page_free (frames (pgs st)) q"
    "T' = T(?n \<mapsto> p) \<or> T' = T \<and> (\<forall>q. \<not> page_free (frames pg') q)"
    using space_map [OF u a(1) fo U(5-8) [OF Some]] U(9) Some by blast
  have T': "T' = T" using m(5) Some by (auto simp: fun_upd_idem)
  have "paging_get_pte root addr False (pgs st) = Inr (pgs st, ?pte)"
    using r(1) r0 by (simp add: paging_get_pte_def walk_to_level_def level_index_def)
  then have "map_small root flags addr st = Inr (st\<lparr>pgs := pg'\<rparr>, True)" using ph nz m(1) by (simp add: map_small_def Let_def)
  moreover have "extends st T (st\<lparr>pgs := pg'\<rparr>) T" using m(3,4) by (intro extendsI) auto
  ultimately show ?thesis using m(2) T' Some by (intro exI [of _ "st\<lparr>pgs := pg'\<rparr>"] exI [of _ True] exI [of _ S'] exI [of _ T]) auto
qed

lemma map_small_spec:
  assumes u: "user_space (pgs st) root S T" and f: "flag_ok flags" and a: "unat addr < 2 ^ 47" "unat addr mod 4096 = 0"
  shows "\<exists>st' ok S' T'. map_small root flags addr st = Inr (st', ok) \<and> user_space (pgs st') root S' T' \<and> extends st T st' T' \<and>
    (unat addr div 4096 \<in> dom T' \<or> full st') \<and> (\<not> ok \<longrightarrow> full st')"
  using map_small_new [OF u f a(1)] map_small_old [OF u f a] by (cases "T (unat addr div 4096)") blast+

text \<open>The loop over small pages comes to its end, and maps every page of its range unless memory runs out.\<close>

lemma small_loop_spec:
  assumes "user_space (pgs st) root S T" "flag_ok flags" "unat addr mod 4096 = 0" "unat limit mod 4096 = 0" "unat limit \<le> 2 ^ 47"
  shows "\<exists>st' ok S' T'. small_loop root flags addr limit st = Some (Inr (st', ok)) \<and> user_space (pgs st') root S' T' \<and> extends st T st' T' \<and>
    (full st' \<or> (\<forall>n. unat addr div 4096 \<le> n \<and> n < unat limit div 4096 \<longrightarrow> n \<in> dom T')) \<and> (\<not> ok \<longrightarrow> full st')"
  using assms
proof (induction "unat limit - unat addr" arbitrary: addr st S T rule: less_induct)
  case less
  show ?case
  proof (cases "addr < limit")
    case False
    then have "small_loop root flags addr limit st = Some (Inr (st, True))" by (subst small_loop.simps) simp
    moreover have "\<not> (unat addr div 4096 \<le> n \<and> n < unat limit div 4096)" for n
      using False div_le_mono [of "unat limit" "unat addr" 4096] by (auto simp: word_less_nat_alt)
    ultimately show ?thesis using less.prems(1) extends_refl by blast
  next
    case True
    then have lt: "unat addr < unat limit" by (simp add: word_less_nat_alt)
    then have a: "unat addr < 2 ^ 47" using less.prems(5) by linarith
    obtain st1 ok1 S1 T1 where m: "map_small root flags addr st = Inr (st1, ok1)" "user_space (pgs st1) root S1 T1" "extends st T st1 T1"
      "unat addr div 4096 \<in> dom T1 \<or> full st1" "\<not> ok1 \<longrightarrow> full st1"
      using map_small_spec [OF less.prems(1,2) a less.prems(3)] by blast
    have l: "small_loop root flags addr limit st = (if ok1 then small_loop root flags (addr + PAGE_SIZE) limit st1 else Some (Inr (st1, False)))"
      using True m(1) by (subst small_loop.simps) simp
    show ?thesis
    proof (cases ok1)
      case False
      then show ?thesis using l m by auto
    next
      case ok: True
      have n: "unat (addr + PAGE_SIZE) = unat addr + 4096" using a by (simp add: unat_plus_small PAGE_SIZE_def)
      have h: "unat limit - unat (addr + PAGE_SIZE) < unat limit - unat addr" "unat (addr + PAGE_SIZE) mod 4096 = 0" using n lt less.prems(3) by simp_all
      obtain st' ok S' T' where i: "small_loop root flags (addr + PAGE_SIZE) limit st1 = Some (Inr (st', ok))" "user_space (pgs st') root S' T'"
        "extends st1 T1 st' T'" "full st' \<or> (\<forall>n. unat (addr + PAGE_SIZE) div 4096 \<le> n \<and> n < unat limit div 4096 \<longrightarrow> n \<in> dom T')" "\<not> ok \<longrightarrow> full st'"
        using less.hyps [OF h(1) m(2) less.prems(2) h(2) less.prems(4,5)] by blast
      have "n \<in> dom T'" if "\<not> full st'" "unat addr div 4096 \<le> n" "n < unat limit div 4096" for n
      proof (cases "n = unat addr div 4096")
        case True
        then have "n \<in> dom T1" using m(4) extends_full [OF i(3)] that(1) by blast
        then show ?thesis by (rule extends_dom [OF i(3)])
      next
        case False
        then have "unat (addr + PAGE_SIZE) div 4096 \<le> n" using that(2) n by simp
        then show ?thesis using i(4) that by blast
      qed
      then show ?thesis using l ok i(1,2,5) extends_trans [OF m(3) i(3)] by (intro exI [of _ st'] exI [of _ ok] exI [of _ S'] exI [of _ T']) auto
    qed
  qed
qed

section \<open>Segments\<close>

text \<open>The segments of the theorem: in the lower half, and covering no whole aligned block of 2 MB.\<close>

definition small_segment :: "Elf64_Phdr \<Rightarrow> bool" where
  "small_segment ph \<longleftrightarrow> p_filesz ph \<le> p_memsz ph \<and> unat (p_vaddr ph) + unat (p_memsz ph) \<le> 2 ^ 47 \<and> \<not> huge_start ph < huge_end ph"

lemma page_base: "unat (v AND NOT (PAGE_SIZE - 1)) = unat v div 4096 * 4096"
proof -
  have "PAGE_SIZE - 1 = mask 12" by (simp add: PAGE_SIZE_def mask_eq_decr_exp)
  then show ?thesis by (simp only: unat_and_not_mask) (simp add: minus_mod_eq_div_mult)
qed

lemma huge_round: "unat (v AND NOT (PAGE_SIZE_2MB - 1)) mod 4096 = 0"
proof -
  have "PAGE_SIZE_2MB - 1 = mask 21" by (simp add: PAGE_SIZE_2MB_def mask_eq_decr_exp)
  then have "unat (v AND NOT (PAGE_SIZE_2MB - 1)) = unat v div 2097152 * (512 * 4096)"
    by (simp only: unat_and_not_mask) (simp add: minus_mod_eq_div_mult)
  then show ?thesis by (metis mod_mult_self2_is_0 mult.assoc)
qed

lemma seg_bounds:
  assumes "small_segment ph"
  shows "unat (seg_start ph) = unat (p_vaddr ph) div 4096 * 4096" "unat (seg_end ph) = (unat (p_vaddr ph) + unat (p_memsz ph) + 4095) div 4096 * 4096"
    "unat (seg_end ph) \<le> 2 ^ 47"
proof -
  have b: "unat (p_vaddr ph) + unat (p_memsz ph) \<le> 2 ^ 47" using assms by (simp add: small_segment_def)
  show "unat (seg_start ph) = unat (p_vaddr ph) div 4096 * 4096" by (simp only: seg_start_def page_base)
  have "unat (p_vaddr ph + p_memsz ph) = unat (p_vaddr ph) + unat (p_memsz ph)" using b by (simp add: unat_plus_small)
  then have "unat (p_vaddr ph + p_memsz ph + 4095) = unat (p_vaddr ph) + unat (p_memsz ph) + 4095" using b by (simp add: unat_plus_small)
  moreover have "p_vaddr ph + p_memsz ph + PAGE_SIZE - 1 = p_vaddr ph + p_memsz ph + 4095" by (simp add: PAGE_SIZE_def)
  ultimately show e: "unat (seg_end ph) = (unat (p_vaddr ph) + unat (p_memsz ph) + 4095) div 4096 * 4096" by (simp only: seg_end_def page_base)
  have "unat (p_vaddr ph) + unat (p_memsz ph) + 4095 < 2 ^ 35 * 4096 + 4096" using b by simp
  then have "(unat (p_vaddr ph) + unat (p_memsz ph) + 4095) div 4096 \<le> 2 ^ 35" by simp
  then show "unat (seg_end ph) \<le> 2 ^ 47" unfolding e by simp
qed

lemma next_part_simps [simp]:
  "next_part (Some (Inr (st, True))) f = f st" "next_part (Some (Inr (st, False))) f = Some (Inr (st, False))"
  by (simp_all add: next_part_def)

lemma map_segment_spec:
  assumes u: "user_space (pgs st) root S T" and ph: "small_segment ph"
  shows "\<exists>st' ok S' T'. map_segment root user ph st = Some (Inr (st', ok)) \<and> user_space (pgs st') root S' T' \<and> extends st T st' T' \<and>
    (full st' \<or> (\<forall>k < unat (p_memsz ph). (unat (p_vaddr ph) + k) div 4096 \<in> dom T')) \<and> (\<not> ok \<longrightarrow> full st')"
proof -
  let ?f = "segment_flags user ph"
  note b = seg_bounds [OF ph]
  have al: "unat (seg_start ph) mod 4096 = 0" "unat (seg_end ph) mod 4096 = 0" "unat (huge_start ph) mod 4096 = 0" "unat (huge_end ph) mod 4096 = 0"
    using b by (simp_all add: huge_round huge_start_def huge_end_def)
  have mn: "unat (min (huge_start ph) (seg_end ph)) = min (unat (huge_start ph)) (unat (seg_end ph))" by (simp add: min_def word_le_nat_alt)
  then have m: "unat (min (huge_start ph) (seg_end ph)) mod 4096 = 0" "unat (min (huge_start ph) (seg_end ph)) \<le> 2 ^ 47"
    using al b(3) by (auto simp: min_def)
  have he: "huge_loop root ?f (huge_start ph) (huge_end ph) s = Some (Inr (s, True))" for s
    using ph by (subst huge_loop.simps) (simp add: small_segment_def)
  obtain st1 ok1 S1 T1 where h: "small_loop root ?f (seg_start ph) (min (huge_start ph) (seg_end ph)) st = Some (Inr (st1, ok1))"
    "user_space (pgs st1) root S1 T1" "extends st T st1 T1" "\<not> ok1 \<longrightarrow> full st1"
    "full st1 \<or> (\<forall>n. unat (seg_start ph) div 4096 \<le> n \<and> n < unat (min (huge_start ph) (seg_end ph)) div 4096 \<longrightarrow> n \<in> dom T1)"
    using small_loop_spec [OF u segment_flag_ok al(1) m] by blast
  show ?thesis
  proof (cases ok1)
    case False
    then have "map_segment root user ph st = Some (Inr (st1, False))" using h(1) by (simp add: map_segment_def Let_def)
    then show ?thesis using h(2-4) False by auto
  next
    case True
    obtain st' ok S' T' where t: "small_loop root ?f (huge_end ph) (seg_end ph) st1 = Some (Inr (st', ok))"
      "user_space (pgs st') root S' T'" "extends st1 T1 st' T'" "\<not> ok \<longrightarrow> full st'"
      "full st' \<or> (\<forall>n. unat (huge_end ph) div 4096 \<le> n \<and> n < unat (seg_end ph) div 4096 \<longrightarrow> n \<in> dom T')"
      using small_loop_spec [OF h(2) segment_flag_ok al(4,2) b(3)] by blast
    have "map_segment root user ph st = Some (Inr (st', ok))" using h(1) t(1) True he by (simp add: map_segment_def Let_def)
    moreover have "n \<in> dom T'" if nf: "\<not> full st'" and n: "unat (seg_start ph) div 4096 \<le> n" "n < unat (seg_end ph) div 4096" for n
    proof (cases "n < unat (huge_start ph) div 4096")
      case True
      then have "n < unat (min (huge_start ph) (seg_end ph)) div 4096" using n(2) by (simp add: mn min_def)
      then have "n \<in> dom T1" using h(5) n(1) nf extends_full [OF t(3)] by blast
      then show ?thesis by (rule extends_dom [OF t(3)])
    next
      case False
      have "unat (huge_end ph) \<le> unat (huge_start ph)" using ph by (simp add: small_segment_def word_less_nat_alt)
      then have "unat (huge_end ph) div 4096 \<le> n" using False div_le_mono [of "unat (huge_end ph)" "unat (huge_start ph)" 4096] by linarith
      then show ?thesis using t(5) nf n(2) by blast
    qed
    moreover have "unat (seg_start ph) div 4096 \<le> (unat (p_vaddr ph) + k) div 4096 \<and> (unat (p_vaddr ph) + k) div 4096 < unat (seg_end ph) div 4096"
      if "k < unat (p_memsz ph)" for k
    proof -
      have "unat (p_vaddr ph) + k + 4096 \<le> unat (p_vaddr ph) + unat (p_memsz ph) + 4095" using that by simp
      from div_le_mono [OF this, of 4096] show ?thesis unfolding b(1,2) by (simp add: div_le_mono)
    qed
    ultimately show ?thesis using t(2,4) extends_trans [OF h(3) t(3)] by blast
  qed
qed

section \<open>Filling\<close>

lemma safe_sub:
  assumes "range_is_safe p n" "unat n \<le> 2 ^ 56" "k + unat m \<le> unat n"
  shows "range_is_safe (p + of_nat k) m"
proof (cases "m = 0")
  case False
  then have m0: "0 < unat m" by (simp add: unat_gt_0)
  then have n0: "n \<noteq> 0" using assms(3) by auto
  have w: "unat p + unat n \<le> 2 ^ 64" by (rule safe_no_wrap [OF assms(1)])
  have u: "unat (p + of_nat i) = unat p + i" if "i < unat n" for i using that w by (simp add: unat_offset)
  have e: "p + n - 1 = p + of_nat (unat n - 1)" using n0 by (simp add: of_nat_diff unat_gt_0 Suc_le_eq)
  have c: "ptr_is_canonical p" "ptr_is_canonical (p + of_nat (unat n - 1))"
    using assms(1) n0 unfolding range_is_safe_def Let_def e by (simp_all split: if_splits)
  have c': "ptr_is_canonical (p + of_nat i)" if "i < unat n" for i
    using c u [OF that] u [of "unat n - 1"] that assms(2) w unfolding canonical_iff by auto
  have e': "p + of_nat k + m - 1 = p + of_nat (k + unat m - 1)" using m0 by (simp add: of_nat_diff)
  have "unat (p + of_nat (k + unat m - 1)) = unat p + (k + unat m - 1)" "unat (p + of_nat k) = unat p + k"
    by (rule u, use m0 assms(3) in linarith)+
  then have "\<not> p + of_nat (k + unat m - 1) < p + of_nat k" using m0 by (simp add: word_less_nat_alt)
  moreover have "ptr_is_canonical (p + of_nat k)" "ptr_is_canonical (p + of_nat (k + unat m - 1))"
    by (rule c', use m0 assms(3) in linarith)+
  ultimately show ?thesis unfolding range_is_safe_def Let_def e' by simp
qed (simp add: range_is_safe_def)

text \<open>The address in the direct map of a byte of the address space.\<close>

definition virt_byte :: "u64 \<Rightarrow> (nat \<rightharpoonup> nat) \<Rightarrow> nat \<Rightarrow> u64" where
  "virt_byte h T v = (case T (v div 4096) of Some p \<Rightarrow> byte_addr h p (v mod 4096) | None \<Rightarrow> 0)"

lemma virt_byte_inj:
  assumes "user_space pg root S T" "v div 4096 \<in> dom T" "w div 4096 \<in> dom T" "virt_byte h T v = virt_byte h T w"
  shows "v = w"
proof -
  note U = user_spaceD [OF assms(1)]
  obtain p q where pq: "T (v div 4096) = Some p" "T (w div 4096) = Some q" using assms(2,3) by auto
  have "p = q \<and> v mod 4096 = w mod 4096"
    using byte_addr_inj [OF U(11) [OF pq(1)] U(11) [OF pq(2)], of "v mod 4096" "w mod 4096" h] assms(4) by (simp add: virt_byte_def pq)
  then show ?thesis using U(9) pq by (metis div_mult_mod_eq)
qed

text \<open>The bytes from \<open>s\<close> on of the address space hold \<open>val\<close>, all other memory is as before.\<close>

definition written :: "u64 \<Rightarrow> (nat \<rightharpoonup> nat) \<Rightarrow> nat \<Rightarrow> nat \<Rightarrow> (nat \<Rightarrow> u8) \<Rightarrow> memory \<Rightarrow> memory \<Rightarrow> bool" where
  "written h T s n val m m' \<longleftrightarrow> (\<forall>k<n. m' (virt_byte h T (s + k)) = val k) \<and>
     (\<forall>a. (\<forall>k<n. a \<noteq> virt_byte h T (s + k)) \<longrightarrow> m' a = m a)"

lemma written_append:
  assumes u: "user_space pg root S T" and w: "written h T s c val m m1" "written h T (s + c) d (\<lambda>k. val (c + k)) m1 m2"
    and dm: "\<And>k. k < c + d \<Longrightarrow> (s + k) div 4096 \<in> dom T"
  shows "written h T s (c + d) val m m2"
  unfolding written_def
proof (intro conjI allI impI)
  fix k assume k: "k < c + d"
  show "m2 (virt_byte h T (s + k)) = val k"
  proof (cases "k < c")
    case True
    have "virt_byte h T (s + k) \<noteq> virt_byte h T (s + c + j)" if "j < d" for j
      using virt_byte_inj [OF u dm [OF k] dm [of "c + j"], of h] that True by (auto simp: add.assoc)
    then show ?thesis using w True by (simp add: written_def)
  next
    case False
    then have "k = c + (k - c)" "k - c < d" using k by simp_all
    then show ?thesis using w(2) unfolding written_def by (metis add.assoc)
  qed
next
  fix a assume a: "\<forall>k<c + d. a \<noteq> virt_byte h T (s + k)"
  have "\<forall>k<d. a \<noteq> virt_byte h T (s + c + k)" using a by (auto simp: add.assoc)
  moreover have "\<forall>k<c. a \<noteq> virt_byte h T (s + k)" using a by simp
  ultimately show "m2 a = m a" using w by (simp add: written_def)
qed

lemma written_0: "written h T s 0 val m m"
  by (simp add: written_def)

text \<open>The first chunk of a range.\<close>

lemma chunk_target:
  fixes start sz pg
  defines "c \<equiv> unat (chunk_of start sz)" and "h \<equiv> hhdm pg"
  assumes u: "user_space pg root S T" and r: "unat start + unat sz \<le> 2 ^ 47" and nz: "sz \<noteq> 0"
  shows "0 < c" "c \<le> unat sz" "unat (start + chunk_of start sz) = unat start + c" "unat (sz - chunk_of start sz) = unat sz - c"
    "k < c \<Longrightarrow> (unat start + k) div 4096 = unat start div 4096"
    "T (unat start div 4096) = None \<Longrightarrow> paging_get_phys root (start AND NOT (PAGE_SIZE - 1)) pg = 0"
    "T (unat start div 4096) = Some p \<Longrightarrow> paging_get_phys root (start AND NOT (PAGE_SIZE - 1)) pg = of_nat p * 4096"
    "T (unat start div 4096) = Some p \<Longrightarrow> (of_nat p * 4096 :: u64) \<noteq> 0"
    "of_nat p * 4096 + h + (start AND (PAGE_SIZE - 1)) = byte_addr h p (unat start mod 4096)"
    "T (unat start div 4096) = Some p \<Longrightarrow> range_is_safe (byte_addr h p (unat start mod 4096)) (chunk_of start sz)"
    "T (unat start div 4096) = Some p \<Longrightarrow> byte_addr h p (unat start mod 4096) \<noteq> 0"
    "T (unat start div 4096) = Some p \<Longrightarrow> k < c \<Longrightarrow> virt_byte h T (unat start + k) = byte_addr h p (unat start mod 4096) + of_nat k"
    "T (unat start div 4096) = Some p \<Longrightarrow> k < c \<Longrightarrow> in_frame h p (byte_addr h p (unat start mod 4096) + of_nat k)"
proof -
  note U = user_spaceD [OF u]
  have c: "c = min (unat sz) (4096 - unat start mod 4096)" by (simp only: c_def unat_chunk)
  show c0: "0 < c" "c \<le> unat sz" using nz by (simp_all add: c unat_gt_0)
  show "unat (start + chunk_of start sz) = unat start + c" using r c0(2) by (simp add: c_def unat_plus_small)
  show "unat (sz - chunk_of start sz) = unat sz - c" by (simp only: c_def unat_minus_le [OF chunk_bounds(1)])
  have s47: "unat start < 2 ^ 47" using r nz unat_gt_0 [of sz] by linarith
  have in_page: "unat start mod 4096 + k < 4096" if "k < c" for k using that c by linarith
  have dm: "(unat start + k) div 4096 = unat start div 4096 \<and> (unat start + k) mod 4096 = unat start mod 4096 + k" if "k < c" for k
  proof -
    have "unat start + k = unat start div 4096 * 4096 + (unat start mod 4096 + k)" by simp
    moreover have "x < 4096 \<Longrightarrow> (q * 4096 + x) div 4096 = q \<and> (q * 4096 + x) mod 4096 = x" for q x :: nat by simp
    ultimately show ?thesis using in_page [OF that] by (simp only:)
  qed
  then show "k < c \<Longrightarrow> (unat start + k) div 4096 = unat start div 4096" by blast
  let ?pg = "start AND NOT (PAGE_SIZE - 1)"
  have pg: "unat ?pg = unat start div 4096 * 4096" by (rule page_base)
  have lt: "unat ?pg < 2 ^ 47" using pg s47 div_times_less_eq_dividend [of "unat start" 4096] by linarith
  have off: "?pg AND 0xFFF = 0"
  proof -
    have "unat (?pg AND (PAGE_SIZE - 1)) = 0" unfolding page_offset pg by simp
    then show ?thesis by (simp add: PAGE_SIZE_def unat_eq_0)
  qed
  have phys: "paging_get_phys root ?pg pg = (case T (unat start div 4096) of None \<Rightarrow> 0 | Some p \<Rightarrow> of_nat p * 4096)"
    using U(4) [OF lt] off by (simp add: pg split: option.splits)
  show "T (unat start div 4096) = None \<Longrightarrow> paging_get_phys root ?pg pg = 0"
    "T (unat start div 4096) = Some p \<Longrightarrow> paging_get_phys root ?pg pg = of_nat p * 4096" using phys by simp_all
  have o: "start AND (PAGE_SIZE - 1) = of_nat (unat start mod 4096)"
    by (simp only: page_offset [symmetric] of_nat_unat_id)
  show ba: "of_nat p * 4096 + h + (start AND (PAGE_SIZE - 1)) = byte_addr h p (unat start mod 4096)" by (simp only: o byte_addr_def)
  assume Some: "T (unat start div 4096) = Some p"
  show "(of_nat p * 4096 :: u64) \<noteq> 0" using unat_pages [of p] U(5,11) [OF Some] by auto
  have safe: "range_is_safe (of_nat p * 4096 + h) 4096" "of_nat p * 4096 + h \<noteq> 0" using mapped_safe [OF u Some] by (simp_all add: h_def)
  show "range_is_safe (byte_addr h p (unat start mod 4096)) (chunk_of start sz)"
    using safe_sub [OF safe(1), of "unat start mod 4096" "chunk_of start sz"] c unfolding byte_addr_def c_def by simp
  have "unat (of_nat p * 4096 + h + of_nat (unat start mod 4096)) = unat (of_nat p * 4096 + h) + unat start mod 4096"
    using safe_no_wrap [OF safe(1)] by (intro unat_offset) (simp add: less_le_trans)
  then show "byte_addr h p (unat start mod 4096) \<noteq> 0" using safe(2) unfolding byte_addr_def by (metis add_is_0 unat_0 unat_eq_zero)
  assume k: "k < c"
  have e: "byte_addr h p (unat start mod 4096) + of_nat k = byte_addr h p (unat start mod 4096 + k)" by (simp add: byte_addr_def)
  then show "virt_byte h T (unat start + k) = byte_addr h p (unat start mod 4096) + of_nat k" using dm [OF k] Some by (simp add: virt_byte_def)
  show "in_frame h p (byte_addr h p (unat start mod 4096) + of_nat k)" using in_page [OF k] e by (auto simp: in_frame_def)
qed

text \<open>The pages of a range are mapped.\<close>

definition covered :: "(nat \<rightharpoonup> nat) \<Rightarrow> nat \<Rightarrow> nat \<Rightarrow> bool" where
  "covered T s n \<longleftrightarrow> (\<forall>k<n. (s + k) div 4096 \<in> dom T)"

lemma covered_chunk:
  assumes "\<And>k. k < c \<Longrightarrow> (s + k) div 4096 = s div 4096" "0 < c" "c \<le> n"
  shows "covered T s n \<longleftrightarrow> s div 4096 \<in> dom T \<and> covered T (s + c) (n - c)"
proof -
  have "(s + k) div 4096 \<in> dom T" if "s div 4096 \<in> dom T" "covered T (s + c) (n - c)" "k < n" for k
  proof (cases "k < c")
    case False
    then have "s + k = s + c + (k - c)" "k - c < n - c" using that(3) by simp_all
    then show ?thesis using that(2) unfolding covered_def by metis
  qed (use that assms(1) in simp)
  moreover have "s div 4096 \<in> dom T" if "covered T s n" using that assms(2,3) unfolding covered_def by (metis add.right_neutral less_le_trans)
  moreover have "covered T (s + c) (n - c)" if "covered T s n" using that by (auto simp: covered_def add.assoc)
  ultimately show ?thesis unfolding covered_def by blast
qed

lemma covered_split: "c \<le> n \<Longrightarrow> covered T s n \<longleftrightarrow> covered T s c \<and> covered T (s + c) (n - c)"
proof -
  assume le: "c \<le> n"
  have "(s + k) div 4096 \<in> dom T" if "covered T s c" "covered T (s + c) (n - c)" "k < n" for k
  proof (cases "k < c")
    case False
    then have "s + k = s + c + (k - c)" "k - c < n - c" using that(3) by simp_all
    then show ?thesis using that(2) unfolding covered_def by metis
  qed (use that in \<open>simp add: covered_def\<close>)
  moreover have "covered T s c" "covered T (s + c) (n - c)" if "covered T s n" using that le unfolding covered_def by (simp, simp add: add.assoc)
  ultimately show ?thesis unfolding covered_def by blast
qed

text \<open>The source of a copy lies in no mapped frame.\<close>

definition apart :: "u64 \<Rightarrow> (nat \<rightharpoonup> nat) \<Rightarrow> u64 \<Rightarrow> nat \<Rightarrow> bool" where
  "apart h T src n \<longleftrightarrow> (\<forall>i<n. \<forall>v p. T v = Some p \<longrightarrow> \<not> in_frame h p (src + of_nat i))"

lemma copy_chunk:
  assumes u: "user_space pg root S T" and r: "unat start + unat sz \<le> 2 ^ 47" "sz \<noteq> 0" and p: "T (unat start div 4096) = Some p"
    and src: "range_is_safe src (chunk_of start sz)" "src \<noteq> 0" "apart (hhdm pg) T src (unat (chunk_of start sz))"
  shows "\<exists>m' d. memcpy (of_nat p * 4096 + hhdm pg + (start AND (PAGE_SIZE - 1))) src (chunk_of start sz) m = Inr (m', d) \<and>
    written (hhdm pg) T (unat start) (unat (chunk_of start sz)) (\<lambda>k. m (src + of_nat k)) m m'"
proof -
  let ?c = "chunk_of start sz" and ?h = "hhdm pg"
  note C = chunk_target [OF u r]
  define d where "d = byte_addr ?h p (unat start mod 4096)"
  note D = C(10) [OF p, folded d_def] C(11) [OF p, folded d_def] C(12) [OF p, folded d_def] C(13) [OF p, folded d_def]
  obtain m' where m: "memcpy d src ?c m = Inr (m', d)" using D(1,2) src(1,2) by (simp add: memcpy_def)
  have "unat d \<le> unat src \<or> unat src + unat ?c \<le> unat d"
  proof (rule ccontr)
    assume "\<not> ?thesis"
    then have i: "unat d - unat src < unat ?c" "unat src + (unat d - unat src) = unat d" by linarith+
    have "src + of_nat (unat d - unat src) = d"
      using unat_offset [of src "unat d - unat src"] i(2) unat_lt_64 [of d] by (simp add: word_unat_eq_iff)
    then have "\<not> in_frame ?h p d" using src(3) i(1) p by (auto simp: apart_def)
    then show False using D(4) [OF C(1)] by simp
  qed
  note M = memcpy_contract [OF m this]
  have "m' (virt_byte ?h T (unat start + k)) = m (src + of_nat k)" if "k < unat ?c" for k
  proof -
    have "bytes_at m' d (unat ?c) ! k = bytes_at m src (unat ?c) ! k" using M by simp
    then show ?thesis using that D(3) [OF that] by (simp add: bytes_at_def)
  qed
  moreover have "m' a = m a" if "\<forall>k<unat ?c. a \<noteq> virt_byte ?h T (unat start + k)" for a
  proof -
    have "\<not> in_range d (unat ?c) a" using that D(3) by (auto elim!: in_range_elim)
    then show ?thesis using M by simp
  qed
  ultimately show ?thesis using m C(9) [of p] by (auto simp: written_def d_def)
qed

lemma copy_loop_spec:
  assumes "user_space (pgs st) root S T" "unat start + unat sz \<le> 2 ^ 47" "range_is_safe src sz" "unat sz \<le> 2 ^ 56" "sz \<noteq> 0 \<longrightarrow> src \<noteq> 0"
    "apart (hhdm (pgs st)) T src (unat sz)"
  shows "\<exists>m. copy_loop root start sz src st = Inr (st\<lparr>ram := m\<rparr>, covered T (unat start) (unat sz)) \<and>
    (covered T (unat start) (unat sz) \<longrightarrow> written (hhdm (pgs st)) T (unat start) (unat sz) (\<lambda>k. ram st (src + of_nat k)) (ram st) m)"
  using assms
proof (induction "unat sz" arbitrary: start sz src st rule: less_induct)
  case less
  let ?c = "chunk_of start sz" and ?h = "hhdm (pgs st)" and ?n = "unat start div 4096"
  show ?case
  proof (cases "sz = 0")
    case True
    then show ?thesis by (subst copy_loop.simps) (simp add: covered_def written_0 exI [of _ "ram st"])
  next
    case nz: False
    note C = chunk_target [OF less.prems(1,2) nz]
    have cov: "covered T (unat start) (unat sz) \<longleftrightarrow> ?n \<in> dom T \<and> covered T (unat start + unat ?c) (unat sz - unat ?c)"
      by (rule covered_chunk [OF C(5,1,2)])
    show ?thesis
    proof (cases "T ?n")
      case None
      then show ?thesis using C(6) cov nz by (subst copy_loop.simps) (auto simp: Let_def intro!: exI [of _ "ram st"])
    next
      case (Some p)
      have "apart ?h T src (unat ?c)" "range_is_safe src ?c"
        using less.prems(6) C(2) safe_sub [OF less.prems(3,4), of 0 ?c] by (auto simp: apart_def)
      then obtain m1 d where m1: "memcpy (of_nat p * 4096 + ?h + (start AND (PAGE_SIZE - 1))) src ?c (ram st) = Inr (m1, d)"
        "written ?h T (unat start) (unat ?c) (\<lambda>k. ram st (src + of_nat k)) (ram st) m1"
        using copy_chunk [OF less.prems(1,2) nz Some, of src "ram st"] less.prems(5) nz by blast
      let ?st = "st\<lparr>ram := m1\<rparr>"
      have loop: "copy_loop root start sz src st = copy_loop root (start + ?c) (sz - ?c) (src + ?c) ?st"
        using C(7,8) [OF Some] m1(1) nz by (subst copy_loop.simps) (simp add: Let_def)
      have sw: "unat src + unat sz \<le> 2 ^ 64" by (rule safe_no_wrap [OF less.prems(3)])
      have src: "src + ?c + of_nat k = src + of_nat (unat ?c + k)" for k by simp
      have pre: "unat (start + ?c) + unat (sz - ?c) \<le> 2 ^ 47" "range_is_safe (src + ?c) (sz - ?c)" "unat (sz - ?c) \<le> 2 ^ 56"
        using less.prems(2,4) C(2-4) safe_sub [OF less.prems(3,4), of "unat ?c" "sz - ?c"] by simp_all
      have ap: "apart ?h T (src + ?c) (unat (sz - ?c))"
        using less.prems(6) unfolding apart_def src C(4) by (metis add.commute less_diff_conv)
      have nn: "sz - ?c \<noteq> 0 \<longrightarrow> src + ?c \<noteq> 0"
      proof
        assume "sz - ?c \<noteq> 0"
        then have "0 < unat (sz - ?c)" by (simp only: unat_gt_0) simp
        then have "unat ?c < unat sz" using C(4) by linarith
        then have "unat (src + ?c) = unat src + unat ?c" using sw by (simp add: unat_plus_small)
        then show "src + ?c \<noteq> 0" using C(1) by auto
      qed
      obtain m where m: "copy_loop root (start + ?c) (sz - ?c) (src + ?c) ?st = Inr (?st\<lparr>ram := m\<rparr>, covered T (unat start + unat ?c) (unat sz - unat ?c))"
        "covered T (unat start + unat ?c) (unat sz - unat ?c) \<longrightarrow>
           written ?h T (unat start + unat ?c) (unat sz - unat ?c) (\<lambda>k. m1 (src + of_nat (unat ?c + k))) m1 m"
        using less.hyps [of "sz - ?c" ?st "start + ?c" "src + ?c"] less.prems(1) pre ap C(1-4) nn unfolding src by auto
      have "m1 (src + of_nat (unat ?c + k)) = ram st (src + of_nat (unat ?c + k))" if "k < unat sz - unat ?c" for k
      proof -
        have "src + of_nat (unat ?c + k) \<noteq> virt_byte ?h T (unat start + j)" if "j < unat ?c" for j
          using less.prems(6) C(12,13) [OF Some that] \<open>k < unat sz - unat ?c\<close> Some unfolding apart_def by (metis add.commute less_diff_conv)
        then show ?thesis using m1(2) by (auto simp: written_def)
      qed
      then have "written ?h T (unat start + unat ?c) (unat sz - unat ?c) (\<lambda>k. ram st (src + of_nat (unat ?c + k))) m1 m"
        if "covered T (unat start + unat ?c) (unat sz - unat ?c)" using m(2) that by (simp add: written_def)
      then have "written ?h T (unat start) (unat sz) (\<lambda>k. ram st (src + of_nat k)) (ram st) m" if "covered T (unat start) (unat sz)"
        using written_append [OF less.prems(1) m1(2), of "unat sz - unat ?c" m] that cov C(2) by (simp add: covered_def)
      moreover have "covered T (unat start) (unat sz) = covered T (unat start + unat ?c) (unat sz - unat ?c)" using cov Some by auto
      ultimately show ?thesis using loop m(1) by auto
    qed
  qed
qed

lemma bss_chunk:
  assumes u: "user_space pg root S T" and r: "unat start + unat sz \<le> 2 ^ 47" "sz \<noteq> 0" and p: "T (unat start div 4096) = Some p"
  shows "\<exists>m' d. memset (of_nat p * 4096 + hhdm pg + (start AND (PAGE_SIZE - 1))) 0 (chunk_of start sz) m = Inr (m', d) \<and>
    written (hhdm pg) T (unat start) (unat (chunk_of start sz)) (\<lambda>k. 0) m m'"
proof -
  let ?c = "chunk_of start sz" and ?h = "hhdm pg"
  note C = chunk_target [OF u r]
  define d where "d = byte_addr ?h p (unat start mod 4096)"
  note D = C(10) [OF p, folded d_def] C(11) [OF p, folded d_def] C(12) [OF p, folded d_def]
  obtain m' where m: "memset d 0 ?c m = Inr (m', d)" using D(1,2) by (simp add: memset_def)
  note M = memset_contract [OF m]
  have "m' (virt_byte ?h T (unat start + k)) = 0" if "k < unat ?c" for k
  proof -
    have "bytes_at m' d (unat ?c) ! k = replicate (unat ?c) 0 ! k" using M by simp
    then show ?thesis using that D(3) [OF that] by (simp add: bytes_at_def)
  qed
  moreover have "m' a = m a" if "\<forall>k<unat ?c. a \<noteq> virt_byte ?h T (unat start + k)" for a
  proof -
    have "\<not> in_range d (unat ?c) a" using that D(3) by (auto elim!: in_range_elim)
    then show ?thesis using M by simp
  qed
  ultimately show ?thesis using m C(9) [of p] by (auto simp: written_def d_def)
qed

lemma bss_loop_spec:
  assumes "user_space (pgs st) root S T" "unat start + unat sz \<le> 2 ^ 47"
  shows "\<exists>m. bss_loop root start sz st = Inr (st\<lparr>ram := m\<rparr>, covered T (unat start) (unat sz)) \<and>
    (covered T (unat start) (unat sz) \<longrightarrow> written (hhdm (pgs st)) T (unat start) (unat sz) (\<lambda>k. 0) (ram st) m)"
  using assms
proof (induction "unat sz" arbitrary: start sz st rule: less_induct)
  case less
  let ?c = "chunk_of start sz" and ?h = "hhdm (pgs st)" and ?n = "unat start div 4096"
  show ?case
  proof (cases "sz = 0")
    case True
    then show ?thesis by (subst bss_loop.simps) (simp add: covered_def written_0 exI [of _ "ram st"])
  next
    case nz: False
    note C = chunk_target [OF less.prems(1,2) nz]
    have cov: "covered T (unat start) (unat sz) \<longleftrightarrow> ?n \<in> dom T \<and> covered T (unat start + unat ?c) (unat sz - unat ?c)"
      by (rule covered_chunk [OF C(5,1,2)])
    show ?thesis
    proof (cases "T ?n")
      case None
      then show ?thesis using C(6) cov nz by (subst bss_loop.simps) (auto simp: Let_def intro!: exI [of _ "ram st"])
    next
      case (Some p)
      then obtain m1 d where m1: "memset (of_nat p * 4096 + ?h + (start AND (PAGE_SIZE - 1))) 0 ?c (ram st) = Inr (m1, d)"
        "written ?h T (unat start) (unat ?c) (\<lambda>k. 0) (ram st) m1"
        using bss_chunk [OF less.prems(1,2) nz Some, of "ram st"] by blast
      let ?st = "st\<lparr>ram := m1\<rparr>"
      have loop: "bss_loop root start sz st = bss_loop root (start + ?c) (sz - ?c) ?st"
        using C(7,8) [OF Some] m1(1) nz by (subst bss_loop.simps) (simp add: Let_def)
      obtain m where m: "bss_loop root (start + ?c) (sz - ?c) ?st = Inr (?st\<lparr>ram := m\<rparr>, covered T (unat start + unat ?c) (unat sz - unat ?c))"
        "covered T (unat start + unat ?c) (unat sz - unat ?c) \<longrightarrow> written ?h T (unat start + unat ?c) (unat sz - unat ?c) (\<lambda>k. 0) m1 m"
        using less.hyps [of "sz - ?c" ?st "start + ?c"] less.prems C(1-4) by auto
      then have "written ?h T (unat start) (unat sz) (\<lambda>k. 0) (ram st) m" if "covered T (unat start) (unat sz)"
        using written_append [OF less.prems(1) m1(2), of "unat sz - unat ?c" m] that cov C(2) by (simp add: covered_def)
      moreover have "covered T (unat start) (unat sz) = covered T (unat start + unat ?c) (unat sz - unat ?c)" using cov Some by auto
      ultimately show ?thesis using loop m(1) by auto
    qed
  qed
qed

text \<open>The bytes a segment has: those of the file, and zeros up to its size in memory.\<close>

definition segment_byte :: "memory \<Rightarrow> u64 \<Rightarrow> Elf64_Phdr \<Rightarrow> nat \<Rightarrow> u8" where
  "segment_byte m file_data ph k = (if k < unat (p_filesz ph) then m (file_data + p_offset ph + of_nat k) else 0)"

lemma fill_segment_spec:
  assumes u: "user_space (pgs st) root S T" and ph: "small_segment ph"
    and f: "range_is_safe file_data file_size" "unat file_size \<le> 2 ^ 56" "file_data \<noteq> 0" "apart (hhdm (pgs st)) T file_data (unat file_size)"
    and o: "unat (p_offset ph) + unat (p_filesz ph) \<le> unat file_size"
  shows "\<exists>m ok. fill_segment root file_data ph st = Some (Inr (st\<lparr>ram := m\<rparr>, ok)) \<and> (ok \<longleftrightarrow> covered T (unat (p_vaddr ph)) (unat (p_memsz ph))) \<and>
    (ok \<longrightarrow> written (hhdm (pgs st)) T (unat (p_vaddr ph)) (unat (p_memsz ph)) (segment_byte (ram st) file_data ph) (ram st) m)"
proof -
  let ?v = "unat (p_vaddr ph)" and ?fs = "unat (p_filesz ph)" and ?ms = "unat (p_memsz ph)" and ?h = "hhdm (pgs st)"
  have le: "?fs \<le> ?ms" "?v + ?ms \<le> 2 ^ 47" using ph by (simp_all add: small_segment_def word_le_nat_alt)
  have sw: "unat file_data + unat file_size \<le> 2 ^ 64" by (rule safe_no_wrap [OF f(1)])
  have src: "range_is_safe (file_data + p_offset ph) (p_filesz ph)" using safe_sub [OF f(1,2) o] by simp
  have nz: "p_filesz ph \<noteq> 0 \<longrightarrow> file_data + p_offset ph \<noteq> 0"
  proof
    assume "p_filesz ph \<noteq> 0"
    then have "0 < ?fs" by (simp add: unat_gt_0)
    then have "unat (file_data + p_offset ph) = unat file_data + unat (p_offset ph)" using sw o by (simp add: unat_plus_small)
    then show "file_data + p_offset ph \<noteq> 0" using f(3) by (metis add_is_0 unat_0 unat_eq_zero)
  qed
  have ap: "apart ?h T (file_data + p_offset ph) ?fs"
  proof -
    have "file_data + p_offset ph + of_nat i = file_data + of_nat (unat (p_offset ph) + i)" for i by simp
    moreover have "unat (p_offset ph) + i < unat file_size" if "i < ?fs" for i using that o by linarith
    ultimately show ?thesis using f(4) unfolding apart_def by (simp only:) blast
  qed
  have c: "?v + ?fs \<le> 2 ^ 47" "?fs \<le> 2 ^ 56" using le o f(2) by linarith+
  obtain m1 where m1: "copy_loop root (p_vaddr ph) (p_filesz ph) (file_data + p_offset ph) st = Inr (st\<lparr>ram := m1\<rparr>, covered T ?v ?fs)"
    "covered T ?v ?fs \<longrightarrow> written ?h T ?v ?fs (\<lambda>k. ram st (file_data + p_offset ph + of_nat k)) (ram st) m1"
    using copy_loop_spec [OF u c(1) src c(2) nz ap] by blast
  show ?thesis
  proof (cases "covered T ?v ?fs")
    case False
    then have "\<not> covered T ?v ?ms" using covered_split [OF le(1)] by blast
    then show ?thesis using m1(1) False by (auto simp: fill_segment_def)
  next
    case cov: True
    let ?st = "st\<lparr>ram := m1\<rparr>"
    have w1: "written ?h T ?v ?fs (segment_byte (ram st) file_data ph) (ram st) m1"
      using m1(2) cov by (simp add: written_def segment_byte_def)
    show ?thesis
    proof (cases "p_memsz ph > p_filesz ph")
      case False
      then have "?ms = ?fs" using le(1) by (simp add: word_less_nat_alt)
      then show ?thesis using m1(1) cov w1 False by (auto simp: fill_segment_def)
    next
      case True
      have b: "unat (p_vaddr ph + p_filesz ph) = ?v + ?fs" "unat (p_memsz ph - p_filesz ph) = ?ms - ?fs"
        using le c by (simp_all add: unat_plus_small unat_minus_le word_le_nat_alt)
      obtain m where m: "bss_loop root (p_vaddr ph + p_filesz ph) (p_memsz ph - p_filesz ph) ?st = Inr (?st\<lparr>ram := m\<rparr>, covered T (?v + ?fs) (?ms - ?fs))"
        "covered T (?v + ?fs) (?ms - ?fs) \<longrightarrow> written ?h T (?v + ?fs) (?ms - ?fs) (\<lambda>k. 0) m1 m"
        using bss_loop_spec [of ?st root S T "p_vaddr ph + p_filesz ph" "p_memsz ph - p_filesz ph"] u le unfolding b by auto
      have "fill_segment root file_data ph st = Some (Inr (st\<lparr>ram := m\<rparr>, covered T (?v + ?fs) (?ms - ?fs)))"
        using m1(1) m(1) cov True by (simp add: fill_segment_def)
      moreover have cc: "covered T (?v + ?fs) (?ms - ?fs) \<longleftrightarrow> covered T ?v ?ms"
        using covered_split [OF le(1)] cov by simp
      moreover have "written ?h T ?v ?ms (segment_byte (ram st) file_data ph) (ram st) m" if "covered T ?v ?ms"
      proof -
        have "written ?h T (?v + ?fs) (?ms - ?fs) (\<lambda>k. segment_byte (ram st) file_data ph (?fs + k)) m1 m"
          using m(2) cc that by (simp add: segment_byte_def)
        then show ?thesis using written_append [OF u w1, of "?ms - ?fs" m] that le(1) by (simp add: covered_def)
      qed
      ultimately show ?thesis by blast
    qed
  qed
qed

section \<open>The whole file\<close>

text \<open>The bytes of the file lie in no frame that is free or mapped.\<close>

definition file_apart :: "elf_state \<Rightarrow> (nat \<rightharpoonup> nat) \<Rightarrow> u64 \<Rightarrow> nat \<Rightarrow> bool" where
  "file_apart st T f n \<longleftrightarrow> (\<forall>i<n. \<forall>p. page_free (frames (pgs st)) p \<or> p \<in> ran T \<longrightarrow> \<not> in_frame (hhdm (pgs st)) p (f + of_nat i))"

definition same_file :: "memory \<Rightarrow> memory \<Rightarrow> u64 \<Rightarrow> nat \<Rightarrow> bool" where
  "same_file m m' f n \<longleftrightarrow> (\<forall>i<n. m' (f + of_nat i) = m (f + of_nat i))"

lemma file_extends:
  assumes "extends st T st' T'" "file_apart st T f n"
  shows "file_apart st' T' f n" "same_file (ram st) (ram st') f n"
proof -
  have "page_free (frames (pgs st)) p \<or> p \<in> ran T" if "page_free (frames (pgs st')) p \<or> p \<in> ran T'" for p
    using assms(1) that unfolding extends_def ran_def by blast
  then show "file_apart st' T' f n" using assms unfolding file_apart_def extends_def by (simp only:) blast
  show "same_file (ram st) (ram st') f n" using assms unfolding file_apart_def extends_def same_file_def by blast
qed

lemma virt_byte_frame: "T (v div 4096) = Some p \<Longrightarrow> in_frame h p (virt_byte h T v)"
  unfolding virt_byte_def in_frame_def by (intro exI [of _ "v mod 4096"]) simp

text \<open>A byte of the address space is in no free frame, so mapping keeps it.\<close>

lemma byte_extends:
  assumes u: "user_space (pgs st) root S T" and e: "extends st T st' T'" and v: "v div 4096 \<in> dom T"
  shows "virt_byte h T' v = virt_byte h T v" "ram st' (virt_byte (hhdm (pgs st)) T v) = ram st (virt_byte (hhdm (pgs st)) T v)"
proof -
  note U = user_spaceD [OF u]
  obtain p where p: "T (v div 4096) = Some p" using v by auto
  show "virt_byte h T' v = virt_byte h T v" using extends_map [OF e p] p by (simp add: virt_byte_def)
  have "\<not> in_frame (hhdm (pgs st)) q (virt_byte (hhdm (pgs st)) T v)" if q: "page_free (frames (pgs st)) q" for q
  proof
    assume "in_frame (hhdm (pgs st)) q (virt_byte (hhdm (pgs st)) T v)"
    then obtain i j where "i < 4096" "j < 4096" "byte_addr (hhdm (pgs st)) q i = byte_addr (hhdm (pgs st)) p j"
      using virt_byte_frame [of T v p "hhdm (pgs st)"] p by (auto simp: in_frame_def)
    moreover have "q < 2 ^ 36"
      using page_free_bounds(2) [OF frames_okD(1) [OF U(10)] q] pma_invD(5) [OF frames_okD(1) [OF U(10)]] by linarith
    ultimately have "q = p" using byte_addr_inj U(11) [OF p] by blast
    then show False using q U(7) [OF p] by simp
  qed
  then show "ram st' (virt_byte (hhdm (pgs st)) T v) = ram st (virt_byte (hhdm (pgs st)) T v)" using e unfolding extends_def by blast
qed

lemma written_file:
  assumes "written h T s n val m m'" "covered T s n" "apart h T f k"
  shows "same_file m m' f k"
  unfolding same_file_def
proof (intro allI impI)
  fix i assume i: "i < k"
  have "f + of_nat i \<noteq> virt_byte h T (s + j)" if j: "j < n" for j
  proof -
    obtain p where p: "T ((s + j) div 4096) = Some p" using assms(2) j by (auto simp: covered_def)
    show ?thesis using virt_byte_frame [of T "s + j" p h] assms(3) i p unfolding apart_def by metis
  qed
  then show "m' (f + of_nat i) = m (f + of_nat i)" using assms(1) by (auto simp: written_def)
qed

lemma segment_byte_same:
  assumes "same_file m m' f n" "unat (p_offset ph) + unat (p_filesz ph) \<le> n"
  shows "segment_byte m' f ph k = segment_byte m f ph k"
proof -
  have "f + p_offset ph + of_nat k = f + of_nat (unat (p_offset ph) + k)" by simp
  moreover have "unat (p_offset ph) + k < n" if "k < unat (p_filesz ph)" using that assms(2) by linarith
  ultimately show ?thesis using assms(1) unfolding segment_byte_def same_file_def by presburger
qed

lemma load_segment_spec:
  assumes u: "user_space (pgs st) root S T" and ph: "small_segment ph" and a: "file_apart st T f (unat n)"
    and f: "range_is_safe f n" "unat n \<le> 2 ^ 56" "f \<noteq> 0" and o: "unat (p_offset ph) + unat (p_filesz ph) \<le> unat n"
  shows "\<exists>st' ok S' T'. load_segment root user f n ph st = Some (Inr (st', ok)) \<and> (\<not> ok \<longrightarrow> full st') \<and>
    (ok \<longrightarrow> user_space (pgs st') root S' T' \<and> hhdm (pgs st') = hhdm (pgs st) \<and> file_apart st' T' f (unat n) \<and> same_file (ram st) (ram st') f (unat n) \<and>
      covered T' (unat (p_vaddr ph)) (unat (p_memsz ph)) \<and>
      (\<forall>k<unat (p_memsz ph). ram st' (virt_byte (hhdm (pgs st)) T' (unat (p_vaddr ph) + k)) = segment_byte (ram st) f ph k) \<and>
      (\<forall>v. v div 4096 \<in> dom T \<longrightarrow> v div 4096 \<in> dom T' \<and>
        (v \<notin> {unat (p_vaddr ph)..<unat (p_vaddr ph) + unat (p_memsz ph)} \<longrightarrow>
           ram st' (virt_byte (hhdm (pgs st)) T' v) = ram st (virt_byte (hhdm (pgs st)) T v))))"
proof -
  let ?v = "unat (p_vaddr ph)" and ?ms = "unat (p_memsz ph)" and ?h = "hhdm (pgs st)"
  have "unat (p_offset ph + p_filesz ph) = unat (p_offset ph) + unat (p_filesz ph)" using o unat_less_exp [of n] by (intro unat_plus_small) linarith
  then have chk: "\<not> p_offset ph + p_filesz ph > n" using o by (simp add: word_less_nat_alt)
  obtain st1 ok1 S1 T1 where m: "map_segment root user ph st = Some (Inr (st1, ok1))" "user_space (pgs st1) root S1 T1" "extends st T st1 T1"
    "full st1 \<or> covered T1 ?v ?ms" "\<not> ok1 \<longrightarrow> full st1"
    using map_segment_spec [OF u ph] unfolding covered_def by blast
  note F = file_extends [OF m(3) a]
  have h1: "hhdm (pgs st1) = ?h" using m(3) by (simp add: extends_def)
  have ap: "apart ?h T1 f (unat n)" using F(1) unfolding file_apart_def apart_def ran_def h1 by blast
  show ?thesis
  proof (cases ok1)
    case False
    then show ?thesis using m(1,5) chk by (auto simp: load_segment_def)
  next
    case True
    obtain m' ok where w: "fill_segment root f ph st1 = Some (Inr (st1\<lparr>ram := m'\<rparr>, ok))" "ok \<longleftrightarrow> covered T1 ?v ?ms"
      "ok \<longrightarrow> written ?h T1 ?v ?ms (segment_byte (ram st1) f ph) (ram st1) m'"
      using fill_segment_spec [OF m(2) ph f _ o] ap unfolding h1 by blast
    let ?st = "st1\<lparr>ram := m'\<rparr>"
    have run: "load_segment root user f n ph st = Some (Inr (?st, ok))" using m(1) w(1) True chk by (simp add: load_segment_def)
    show ?thesis
    proof (cases ok)
      case False
      then have "full ?st" using m(4) w(2) by (simp add: full_def)
      then show ?thesis using run False by blast
    next
      case ok: True
      have cov: "covered T1 ?v ?ms" and wr: "written ?h T1 ?v ?ms (segment_byte (ram st1) f ph) (ram st1) m'" using ok w by blast+
      have sb: "segment_byte (ram st1) f ph k = segment_byte (ram st) f ph k" for k by (rule segment_byte_same [OF F(2) o])
      have keep: "v div 4096 \<in> dom T1 \<and> (v \<notin> {?v..<?v + ?ms} \<longrightarrow> m' (virt_byte ?h T1 v) = ram st (virt_byte ?h T v))" if v: "v div 4096 \<in> dom T" for v
      proof -
        have d: "v div 4096 \<in> dom T1" by (rule extends_dom [OF m(3) v])
        have "virt_byte ?h T1 v \<noteq> virt_byte ?h T1 (?v + k)" if "v \<notin> {?v..<?v + ?ms}" "k < ?ms" for k
          using virt_byte_inj [OF m(2) d, of "?v + k" ?h] cov that by (auto simp: covered_def)
        then have "m' (virt_byte ?h T1 v) = ram st1 (virt_byte ?h T1 v)" if "v \<notin> {?v..<?v + ?ms}" using wr that by (auto simp: written_def)
        then show ?thesis using byte_extends [OF u m(3) v] d by simp
      qed
      have "same_file (ram st) (ram ?st) f (unat n)" using F(2) written_file [OF wr cov ap] by (simp add: same_file_def)
      moreover have "file_apart ?st T1 f (unat n)" using F(1) by (simp add: file_apart_def)
      ultimately show ?thesis
        using run ok m(2) cov keep wr sb h1
        by (intro exI [of _ ?st] exI [of _ True] exI [of _ S1] exI [of _ T1]) (simp add: written_def)
    qed
  qed
qed

text \<open>The headers are read from the file.\<close>

lemma bytes_same: "same_file m m' f n \<Longrightarrow> off + k \<le> n \<Longrightarrow> bytes_at m' (f + of_nat off) k = bytes_at m (f + of_nat off) k"
proof (rule bytes_at_eqI)
  fix i assume s: "same_file m m' f n" "off + k \<le> n" "i < k"
  have "f + of_nat off + of_nat i = f + of_nat (off + i)" by simp
  moreover have "off + i < n" using s(2,3) by linarith
  ultimately show "m' (f + of_nat off + of_nat i) = m (f + of_nat off + of_nat i)" using s(1) by (simp only: same_file_def)
qed

lemma rd_same:
  assumes "same_file m m' f n"
  shows "off + 2 \<le> n \<Longrightarrow> rd16 m' (f + of_nat off) = rd16 m (f + of_nat off)"
    "off + 4 \<le> n \<Longrightarrow> rd32 m' (f + of_nat off) = rd32 m (f + of_nat off)"
    "off + 8 \<le> n \<Longrightarrow> rd64 m' (f + of_nat off) = rd64 m (f + of_nat off)"
  using bytes_same [OF assms] by (simp_all only: rd16_def rd32_def rd64_def)

lemma ehdr_same:
  assumes s: "same_file m m' f n" and n: "64 \<le> n"
  shows "ehdr_at m' f = ehdr_at m f"
proof -
  have b: "bytes_at m' f 16 = bytes_at m f 16" using bytes_same [OF s, of 0 16] n by (simp del: bytes_at_eval)
  note r = rd_same(1) [OF s, of "numeral k" for k, simplified] rd_same(2) [OF s, of "numeral k" for k, simplified]
    rd_same(3) [OF s, of "numeral k" for k, simplified]
  show ?thesis using n unfolding ehdr_at_def EI_NIDENT_def b by (simp add: r)
qed

lemma phdr_same:
  assumes s: "same_file m m' f n" and n: "off + 56 \<le> n"
  shows "phdr_at m' (f + of_nat off) = phdr_at m (f + of_nat off)"
proof -
  have e: "f + of_nat off + 4 = f + of_nat (off + 4)" "f + of_nat off + 8 = f + of_nat (off + 8)" "f + of_nat off + 16 = f + of_nat (off + 16)"
    "f + of_nat off + 24 = f + of_nat (off + 24)" "f + of_nat off + 32 = f + of_nat (off + 32)" "f + of_nat off + 40 = f + of_nat (off + 40)"
    "f + of_nat off + 48 = f + of_nat (off + 48)" by simp_all
  have "rd32 m' (f + of_nat off) = rd32 m (f + of_nat off)" "rd32 m' (f + of_nat (off + 4)) = rd32 m (f + of_nat (off + 4))"
    "rd64 m' (f + of_nat (off + 8)) = rd64 m (f + of_nat (off + 8))" "rd64 m' (f + of_nat (off + 16)) = rd64 m (f + of_nat (off + 16))"
    "rd64 m' (f + of_nat (off + 24)) = rd64 m (f + of_nat (off + 24))" "rd64 m' (f + of_nat (off + 32)) = rd64 m (f + of_nat (off + 32))"
    "rd64 m' (f + of_nat (off + 40)) = rd64 m (f + of_nat (off + 40))" "rd64 m' (f + of_nat (off + 48)) = rd64 m (f + of_nat (off + 48))"
    by (rule rd_same [OF s], use n in linarith)+
  then show ?thesis unfolding phdr_at_def e by (simp only:)
qed

lemma phdr_addr_nat:
  "phdr_addr m f i = f + of_nat (unat (e_phoff (ehdr_at m f)) + unat i * unat (e_phentsize (ehdr_at m f)))"
proof -
  have "(ucast x :: u64) = of_nat (unat x)" for x :: u16 by (rule word_unat_eq_iff [THEN iffD2]) (simp add: unat_ucast_up unat_of_nat)
  then show ?thesis by (simp add: phdr_addr_def)
qed

text \<open>Program header \<open>i\<close>, and the files of the theorem.\<close>

definition phdr :: "memory \<Rightarrow> u64 \<Rightarrow> nat \<Rightarrow> Elf64_Phdr" where
  "phdr m f i = phdr_at m (phdr_addr m f (of_nat i))"

definition elf_file :: "memory \<Rightarrow> u64 \<Rightarrow> u64 \<Rightarrow> bool" where
  "elf_file m f n \<longleftrightarrow> (let eh = ehdr_at m f in
     f \<noteq> 0 \<and> range_is_safe f n \<and> 64 \<le> unat n \<and> unat n \<le> 2 ^ 56 \<and> ident_ok eh \<and> (e_type eh = ET_EXEC \<or> e_type eh = ET_DYN) \<and>
     56 \<le> unat (e_phentsize eh) \<and> unat (e_phoff eh) + unat (e_phnum eh) * unat (e_phentsize eh) \<le> unat n \<and>
     (\<forall>i < unat (e_phnum eh). p_type (phdr m f i) = PT_LOAD \<longrightarrow>
        small_segment (phdr m f i) \<and> unat (p_offset (phdr m f i)) + unat (p_filesz (phdr m f i)) \<le> unat n) \<and>
     (\<forall>i < unat (e_phnum eh). \<forall>j < i. p_type (phdr m f i) = PT_LOAD \<longrightarrow> p_type (phdr m f j) = PT_LOAD \<longrightarrow>
        {unat (p_vaddr (phdr m f i))..<unat (p_vaddr (phdr m f i)) + unat (p_memsz (phdr m f i))} \<inter>
        {unat (p_vaddr (phdr m f j))..<unat (p_vaddr (phdr m f j)) + unat (p_memsz (phdr m f j))} = {}))"

lemma phdr_reread:
  assumes e: "elf_file m f n" and s: "same_file m m' f (unat n)" and i: "i < unat (e_phnum (ehdr_at m f))"
  shows "phdr m' f i = phdr m f i"
proof -
  let ?eh = "ehdr_at m f" and ?off = "unat (e_phoff (ehdr_at m f)) + i * unat (e_phentsize (ehdr_at m f))"
  have eh: "ehdr_at m' f = ?eh" using ehdr_same [OF s] e by (simp add: elf_file_def Let_def)
  have "Suc i * unat (e_phentsize ?eh) \<le> unat (e_phnum ?eh) * unat (e_phentsize ?eh)" using i by (intro mult_le_mono1) simp
  then have b: "?off + 56 \<le> unat n" using e by (simp add: elf_file_def Let_def)
  have "i < 2 ^ 16" using less_trans [OF i unat_less_exp] by simp
  then have u: "unat (of_nat i :: u16) = i" by (simp add: unat_of_nat)
  show ?thesis using phdr_same [OF s b] by (simp only: phdr_def phdr_addr_nat eh u)
qed

text \<open>The segments before \<open>i\<close> are in memory.\<close>

definition loaded :: "memory \<Rightarrow> u64 \<Rightarrow> nat \<Rightarrow> u64 \<Rightarrow> elf_state \<Rightarrow> (nat \<rightharpoonup> nat) \<Rightarrow> bool" where
  "loaded m f i hi st T \<longleftrightarrow> (\<forall>j<i. p_type (phdr m f j) = PT_LOAD \<longrightarrow> seg_end (phdr m f j) \<le> hi \<and>
     covered T (unat (p_vaddr (phdr m f j))) (unat (p_memsz (phdr m f j))) \<and>
     (\<forall>k<unat (p_memsz (phdr m f j)). ram st (virt_byte (hhdm (pgs st)) T (unat (p_vaddr (phdr m f j)) + k)) = segment_byte m f (phdr m f j) k))"

lemma loaded_step:
  assumes l: "loaded m f i hi st T" and h: "hhdm (pgs st') = hhdm (pgs st)" and hi: "hi \<le> hi'"
    and keep: "\<And>v. v div 4096 \<in> dom T \<Longrightarrow> v div 4096 \<in> dom T' \<and>
        (v \<notin> {unat (p_vaddr (phdr m f i))..<unat (p_vaddr (phdr m f i)) + unat (p_memsz (phdr m f i))} \<longrightarrow>
           ram st' (virt_byte (hhdm (pgs st)) T' v) = ram st (virt_byte (hhdm (pgs st)) T v))"
    and disj: "\<And>j. j < i \<Longrightarrow> p_type (phdr m f j) = PT_LOAD \<Longrightarrow>
        {unat (p_vaddr (phdr m f i))..<unat (p_vaddr (phdr m f i)) + unat (p_memsz (phdr m f i))} \<inter>
        {unat (p_vaddr (phdr m f j))..<unat (p_vaddr (phdr m f j)) + unat (p_memsz (phdr m f j))} = {}"
  shows "loaded m f i hi' st' T'"
  unfolding loaded_def
proof (intro allI impI)
  fix j assume j: "j < i" "p_type (phdr m f j) = PT_LOAD"
  let ?v = "unat (p_vaddr (phdr m f j))" and ?ms = "unat (p_memsz (phdr m f j))"
  have L: "seg_end (phdr m f j) \<le> hi" "covered T ?v ?ms"
    "\<forall>k<?ms. ram st (virt_byte (hhdm (pgs st)) T (?v + k)) = segment_byte m f (phdr m f j) k" using l j unfolding loaded_def by blast+
  have "ram st' (virt_byte (hhdm (pgs st')) T' (?v + k)) = segment_byte m f (phdr m f j) k \<and> (?v + k) div 4096 \<in> dom T'" if k: "k < ?ms" for k
  proof -
    have "?v + k \<in> {?v..<?v + ?ms}" using k by simp
    then have "?v + k \<notin> {unat (p_vaddr (phdr m f i))..<unat (p_vaddr (phdr m f i)) + unat (p_memsz (phdr m f i))}" using disj [OF j] by blast
    moreover have "(?v + k) div 4096 \<in> dom T" using L(2) k by (simp add: covered_def)
    ultimately show ?thesis using keep L(3) k h by simp
  qed
  then show "seg_end (phdr m f j) \<le> hi' \<and> covered T' ?v ?ms \<and>
      (\<forall>k<?ms. ram st' (virt_byte (hhdm (pgs st')) T' (?v + k)) = segment_byte m f (phdr m f j) k)"
    using L(1) hi by (auto simp: covered_def)
qed

lemma segments_loop_spec:
  assumes e: "elf_file m f n"
  shows "i \<le> unat (e_phnum (ehdr_at m f)) \<Longrightarrow> user_space (pgs st) root S T \<Longrightarrow> file_apart st T f (unat n) \<Longrightarrow> same_file m (ram st) f (unat n) \<Longrightarrow>
    loaded m f i hi st T \<Longrightarrow>
    \<exists>st' hi' ok S' T'. segments_loop root user f n (of_nat i) hi st = Some (Inr (st', hi', ok)) \<and> (\<not> ok \<longrightarrow> full st') \<and>
      (ok \<longrightarrow> user_space (pgs st') root S' T' \<and> same_file m (ram st') f (unat n) \<and> loaded m f (unat (e_phnum (ehdr_at m f))) hi' st' T')"
proof (induction "unat (e_phnum (ehdr_at m f)) - i" arbitrary: i st S T hi)
  case 0
  let ?N = "e_phnum (ehdr_at m f)"
  have iN: "i = unat ?N" using 0(1,2) by simp
  then have oi: "(of_nat i :: u16) = ?N" by simp
  have "ehdr_at (ram st) f = ehdr_at m f" using ehdr_same [OF 0(5)] e by (simp add: elf_file_def Let_def)
  then have "segments_loop root user f n (of_nat i) hi st = Some (Inr (st, hi, True))" by (subst segments_loop.simps) (simp add: oi)
  then show ?case using 0(3,5,6) iN by blast
next
  case (Suc d)
  let ?N = "e_phnum (ehdr_at m f)" and ?ph = "phdr m f i"
  have iN: "i < unat ?N" using Suc(2) by simp
  have "i < 2 ^ 16" using less_trans [OF iN unat_less_exp] by simp
  then have ui: "unat (of_nat i :: u16) = i" by (simp add: unat_of_nat)
  have lt: "(of_nat i :: u16) < ?N" using iN by (simp add: word_less_nat_alt ui)
  have inc: "(of_nat i + 1 :: u16) = of_nat (Suc i)" by simp
  have eh: "ehdr_at (ram st) f = ehdr_at m f" using ehdr_same [OF Suc.prems(4)] e by (simp add: elf_file_def Let_def)
  have ph: "phdr_at (ram st) (phdr_addr (ram st) f (of_nat i)) = ?ph" using phdr_reread [OF e Suc.prems(4) iN] by (simp add: phdr_def)
  have d: "d = unat ?N - Suc i" "Suc i \<le> unat ?N" using Suc(2) iN by simp_all
  show ?case
  proof (cases "p_type ?ph = PT_LOAD")
    case False
    then have "segments_loop root user f n (of_nat i) hi st = segments_loop root user f n (of_nat (Suc i)) hi st"
      unfolding inc [symmetric] by (subst segments_loop.simps) (simp add: eh lt ph Let_def)
    moreover have "loaded m f (Suc i) hi st T" using Suc.prems(5) False by (simp add: loaded_def less_Suc_eq)
    ultimately show ?thesis using Suc(1) [OF d Suc.prems(2-4)] by simp
  next
    case True
    have sg: "small_segment ?ph" "unat (p_offset ?ph) + unat (p_filesz ?ph) \<le> unat n" and fl: "range_is_safe f n" "unat n \<le> 2 ^ 56" "f \<noteq> 0"
      using e iN True unfolding elf_file_def Let_def by blast+
    obtain st1 ok S1 T1 where L: "load_segment root user f n ?ph st = Some (Inr (st1, ok))" "\<not> ok \<longrightarrow> full st1"
      "ok \<longrightarrow> user_space (pgs st1) root S1 T1 \<and> hhdm (pgs st1) = hhdm (pgs st) \<and> file_apart st1 T1 f (unat n) \<and> same_file (ram st) (ram st1) f (unat n) \<and>
      covered T1 (unat (p_vaddr ?ph)) (unat (p_memsz ?ph)) \<and>
      (\<forall>k<unat (p_memsz ?ph). ram st1 (virt_byte (hhdm (pgs st)) T1 (unat (p_vaddr ?ph) + k)) = segment_byte (ram st) f ?ph k) \<and>
      (\<forall>v. v div 4096 \<in> dom T \<longrightarrow> v div 4096 \<in> dom T1 \<and>
        (v \<notin> {unat (p_vaddr ?ph)..<unat (p_vaddr ?ph) + unat (p_memsz ?ph)} \<longrightarrow>
           ram st1 (virt_byte (hhdm (pgs st)) T1 v) = ram st (virt_byte (hhdm (pgs st)) T v)))"
      using load_segment_spec [OF Suc.prems(2) sg(1) Suc.prems(3) fl sg(2), of user] by blast
    let ?hi = "if seg_end ?ph > hi then seg_end ?ph else hi"
    have run: "segments_loop root user f n (of_nat i) hi st =
        (if ok then segments_loop root user f n (of_nat (Suc i)) ?hi st1 else Some (Inr (st1, hi, False)))"
      unfolding inc [symmetric] by (subst segments_loop.simps) (simp add: eh lt ph Let_def True L(1))
    show ?thesis
    proof (cases ok)
      case False
      then show ?thesis using run L(2) by auto
    next
      case ok: True
      have disj: "{unat (p_vaddr ?ph)..<unat (p_vaddr ?ph) + unat (p_memsz ?ph)} \<inter>
          {unat (p_vaddr (phdr m f j))..<unat (p_vaddr (phdr m f j)) + unat (p_memsz (phdr m f j))} = {}"
        if "j < i" "p_type (phdr m f j) = PT_LOAD" for j using e iN True that unfolding elf_file_def Let_def by blast
      have "loaded m f i ?hi st1 T1" by (rule loaded_step [OF Suc.prems(5)]) (use L(3) ok disj in auto)
      moreover have "seg_end ?ph \<le> ?hi" by (simp add: not_less)
      moreover have "segment_byte (ram st) f ?ph k = segment_byte m f ?ph k" for k by (rule segment_byte_same [OF Suc.prems(4) sg(2)])
      ultimately have ld: "loaded m f (Suc i) ?hi st1 T1" using L(3) ok unfolding loaded_def less_Suc_eq by auto
      have "same_file m (ram st1) f (unat n)" using L(3) ok Suc.prems(4) by (simp add: same_file_def)
      then show ?thesis using Suc(1) [OF d, of st1 S1 T1 ?hi] L(3) ok ld run by simp
    qed
  qed
qed

section \<open>Property\<close>

lemma header_check:
  fixes phoff n :: u64 and num es :: u16
  assumes "unat phoff + unat num * unat es \<le> unat n"
  shows "\<not> phoff + ucast num * ucast es > n"
proof -
  have lt: "unat phoff + unat num * unat es < 2 ^ 64" using assms unat_lt_64 [of n] by linarith
  have u: "unat (ucast x :: u64) = unat x" for x :: u16 by (simp add: unat_ucast_up)
  have "unat (ucast num * ucast es :: u64) = unat num * unat es" using lt u by (subst unat_mult_small) simp_all
  then have "unat (phoff + ucast num * ucast es) = unat phoff + unat num * unat es" using lt by (subst unat_plus_small) simp_all
  then show ?thesis using assms by (simp add: word_less_nat_alt)
qed

text \<open>The byte at an address of the lower half, found as the processor finds it.\<close>

lemma virt_byte_phys:
  assumes u: "user_space pg root S T" and v: "unat v < 2 ^ 47" "unat v div 4096 \<in> dom T"
  shows "paging_get_phys root v pg \<noteq> 0" "paging_get_phys root v pg + hhdm pg = virt_byte (hhdm pg) T (unat v)"
proof -
  note U = user_spaceD [OF u]
  obtain p where p: "T (unat v div 4096) = Some p" using v(2) by auto
  have "v AND 0xFFF = of_nat (unat v mod 4096)"
    using page_offset [of v] of_nat_unat_id [of "v AND 0xFFF"] by (simp add: PAGE_SIZE_def)
  then have e: "paging_get_phys root v pg = of_nat p * 4096 + of_nat (unat v mod 4096)" using U(4) [OF v(1)] p by simp
  show "paging_get_phys root v pg + hhdm pg = virt_byte (hhdm pg) T (unat v)" by (simp add: e virt_byte_def p byte_addr_def)
  have "unat (paging_get_phys root v pg) = p * 4096 + unat v mod 4096"
    unfolding e using U(11) [OF p] by (simp add: unat_plus_small unat_pages unat_of_nat_small)
  then show "paging_get_phys root v pg \<noteq> 0" using U(5) [OF p] by auto
qed

text \<open>
  C16. Loading a well-formed program file into an address space of small pages, where the bytes of the file are in
  no frame that is free or mapped and no segment covers a whole aligned block of 2 MB: the loader returns
  without a panic. Either it reports failure, and then no page of memory is free, or it returns the entry point
  of the file, every byte of every loadable segment translates to a physical address, the byte there is the one of the
  file, or zero beyond the part that is in the file, and the returned top is not below the end of any segment.
\<close>

theorem elf64_parse_loads:
  assumes "user_space (pgs st) (phys + hhdm (pgs st)) S T" and "elf_file (ram st) f n" and "file_apart st T f (unat n)"
  shows "\<exists>st' ret. elf64_parse f n phys user st = Some (Inr (st', ret)) \<and>
    (if ret_status ret = 0 then full st'
     else ret_entry ret = e_entry (ehdr_at (ram st) f) \<and>
       (\<forall>i < unat (e_phnum (ehdr_at (ram st) f)). let ph = phdr (ram st) f i in p_type ph = PT_LOAD \<longrightarrow> seg_end ph \<le> ret_top_vaddr ret \<and>
         (\<forall>k < unat (p_memsz ph). let a = paging_get_phys (phys + hhdm (pgs st)) (p_vaddr ph + of_nat k) (pgs st') in
            a \<noteq> 0 \<and> ram st' (a + hhdm (pgs st')) = segment_byte (ram st) f ph k)))"
proof -
  let ?root = "phys + hhdm (pgs st)" and ?m = "ram st" and ?eh = "ehdr_at (ram st) f"
  have chk: "\<not> e_phoff ?eh + ucast (e_phnum ?eh) * ucast (e_phentsize ?eh) > n" and ty: "ident_ok ?eh" "e_type ?eh = ET_EXEC \<or> e_type ?eh = ET_DYN" "f \<noteq> 0"
    using assms(2) header_check [of "e_phoff ?eh" "e_phnum ?eh" "e_phentsize ?eh" n] by (auto simp: elf_file_def Let_def)
  have z: "(of_nat 0 :: u16) = 0" by simp
  have sf: "same_file ?m ?m f (unat n)" and l0: "loaded ?m f 0 0 st T" by (simp_all add: same_file_def loaded_def)
  obtain st' hi ok S' T' where L: "segments_loop ?root user f n 0 0 st = Some (Inr (st', hi, ok))" "\<not> ok \<longrightarrow> full st'"
    "ok \<longrightarrow> user_space (pgs st') ?root S' T' \<and> same_file ?m (ram st') f (unat n) \<and> loaded ?m f (unat (e_phnum ?eh)) hi st' T'"
    using segments_loop_spec [OF assms(2) le0 assms(1,3) sf l0, of user] unfolding z by blast
  have run: "elf64_parse f n phys user st = Some (Inr (st', if ok then \<lparr>ret_status = 1, ret_entry = e_entry (ehdr_at (ram st') f),
      ret_phnum = ucast (e_phnum (ehdr_at (ram st') f)), ret_top_vaddr = hi\<rparr> else no_ret))"
    using chk ty L(1) by (auto simp: elf64_parse_def Let_def)
  show ?thesis
  proof (cases ok)
    case False
    then show ?thesis using run L(2) by (simp add: no_ret_def)
  next
    case True
    have eh: "ehdr_at (ram st') f = ?eh" using ehdr_same [of ?m "ram st'" f "unat n"] L(3) True assms(2) by (simp add: elf_file_def Let_def)
    have "seg_end ph \<le> hi \<and> (\<forall>k < unat (p_memsz ph). let a = paging_get_phys ?root (p_vaddr ph + of_nat k) (pgs st') in
        a \<noteq> 0 \<and> ram st' (a + hhdm (pgs st')) = segment_byte ?m f ph k)"
      if i: "i < unat (e_phnum ?eh)" "ph = phdr ?m f i" "p_type ph = PT_LOAD" for i ph
    proof -
      have sm: "small_segment ph" using assms(2) i unfolding elf_file_def Let_def by blast
      have l: "seg_end ph \<le> hi" "covered T' (unat (p_vaddr ph)) (unat (p_memsz ph))"
        "\<forall>k<unat (p_memsz ph). ram st' (virt_byte (hhdm (pgs st')) T' (unat (p_vaddr ph) + k)) = segment_byte ?m f ph k"
        using L(3) True i unfolding loaded_def by blast+
      have "let a = paging_get_phys ?root (p_vaddr ph + of_nat k) (pgs st') in a \<noteq> 0 \<and> ram st' (a + hhdm (pgs st')) = segment_byte ?m f ph k"
        if k: "k < unat (p_memsz ph)" for k
      proof -
        have v: "unat (p_vaddr ph + of_nat k) = unat (p_vaddr ph) + k" "unat (p_vaddr ph) + k < 2 ^ 47"
          using k sm by (simp_all add: small_segment_def unat_offset)
        then show ?thesis using virt_byte_phys [of "pgs st'" ?root S' T' "p_vaddr ph + of_nat k"] L(3) True l(2,3) k by (simp add: covered_def Let_def)
      qed
      then show ?thesis using l(1) by blast
    qed
    then show ?thesis using run True eh by (simp add: Let_def)
  qed
qed

text \<open>A program of one segment of four bytes and four zeros, loaded into the empty address space of \<open>demo_paging\<close>.\<close>

definition demo_file :: "u8 list" where
  "demo_file = [0x7f, 0x45, 0x4c, 0x46, 2, 1, 1, 0, 0, 0, 0, 0, 0, 0, 0, 0] @ le_bytes 2 2 @ le_bytes 2 62 @ le_bytes 4 1 @ le_bytes 8 0x400000 @ le_bytes 8 64 @
     replicate 14 0 @ le_bytes 2 56 @ le_bytes 2 1 @ replicate 6 0 @
     le_bytes 4 1 @ le_bytes 4 5 @ le_bytes 8 120 @ le_bytes 8 0x400000 @ le_bytes 8 0 @ le_bytes 8 4 @ le_bytes 8 8 @ le_bytes 8 4096 @ [10, 20, 30, 40]"

definition demo_elf :: elf_state where
  "demo_elf = \<lparr>pgs = demo_paging, ram = mem_of 0x200000 demo_file\<rparr>"

lemma demo_read: "k + n \<le> 124 \<Longrightarrow> bytes_at (ram demo_elf) (0x200000 + of_nat k) n = take n (drop k demo_file)"
proof -
  assume "k + n \<le> 124"
  moreover have "length demo_file = 124" by (simp add: demo_file_def)
  ultimately show ?thesis unfolding demo_elf_def elf_state.select_convs by (intro mem_of_bytes) simp_all
qed

lemma demo_bytes:
  "bytes_at (ram demo_elf) 0x200000 16 = [127, 69, 76, 70, 2, 1, 1, 0, 0, 0, 0, 0, 0, 0, 0, 0]"
  "bytes_at (ram demo_elf) 0x200010 2 = [2, 0]"
  "bytes_at (ram demo_elf) 0x200012 2 = [62, 0]"
  "bytes_at (ram demo_elf) 0x200018 8 = [0, 0, 64, 0, 0, 0, 0, 0]"
  "bytes_at (ram demo_elf) 0x200020 8 = [64, 0, 0, 0, 0, 0, 0, 0]"
  "bytes_at (ram demo_elf) 0x200036 2 = [56, 0]"
  "bytes_at (ram demo_elf) 0x200038 2 = [1, 0]"
  "bytes_at (ram demo_elf) 0x200040 4 = [1, 0, 0, 0]"
  "bytes_at (ram demo_elf) 0x200044 4 = [5, 0, 0, 0]"
  "bytes_at (ram demo_elf) 0x200048 8 = [120, 0, 0, 0, 0, 0, 0, 0]"
  "bytes_at (ram demo_elf) 0x200050 8 = [0, 0, 64, 0, 0, 0, 0, 0]"
  "bytes_at (ram demo_elf) 0x200058 8 = [0, 0, 0, 0, 0, 0, 0, 0]"
  "bytes_at (ram demo_elf) 0x200060 8 = [4, 0, 0, 0, 0, 0, 0, 0]"
  "bytes_at (ram demo_elf) 0x200068 8 = [8, 0, 0, 0, 0, 0, 0, 0]"
  "bytes_at (ram demo_elf) 0x200070 8 = [0, 16, 0, 0, 0, 0, 0, 0]"
  using demo_read [of 0 16]
    demo_read [of 16 2]
    demo_read [of 18 2]
    demo_read [of 24 8]
    demo_read [of 32 8]
    demo_read [of 54 2]
    demo_read [of 56 2]
    demo_read [of 64 4]
    demo_read [of 68 4]
    demo_read [of 72 8]
    demo_read [of 80 8]
    demo_read [of 88 8]
    demo_read [of 96 8]
    demo_read [of 104 8]
    demo_read [of 112 8]
  by (simp_all add: demo_file_def del: bytes_at_eval)

lemma demo_ehdr:
  "ident_ok (ehdr_at (ram demo_elf) 0x200000)" "e_type (ehdr_at (ram demo_elf) 0x200000) = ET_EXEC" "e_phnum (ehdr_at (ram demo_elf) 0x200000) = 1"
  "e_phentsize (ehdr_at (ram demo_elf) 0x200000) = 56" "e_phoff (ehdr_at (ram demo_elf) 0x200000) = 64" "e_entry (ehdr_at (ram demo_elf) 0x200000) = 0x400000"
  by (simp_all add: ident_ok_def ehdr_at_def rd16_def rd64_def elf_constants demo_bytes del: bytes_at_eval)

lemma demo_phdr: "phdr (ram demo_elf) 0x200000 0 =
    \<lparr>p_type = PT_LOAD, p_flags = 5, p_offset = 120, p_vaddr = 0x400000, p_paddr = 0, p_filesz = 4, p_memsz = 8, p_align = 4096\<rparr>"
  by (simp add: phdr_def phdr_addr_def demo_ehdr phdr_at_def rd32_def rd64_def PT_LOAD_def demo_bytes del: bytes_at_eval)

lemma demo_elf_file: "elf_file (ram demo_elf) 0x200000 124"
proof -
  let ?ph = "phdr (ram demo_elf) 0x200000 0"
  have "small_segment ?ph" unfolding demo_phdr small_segment_def huge_start_def huge_end_def seg_start_def seg_end_def PAGE_SIZE_def PAGE_SIZE_2MB_def by simp
  moreover have "range_is_safe 0x200000 124" by code_simp
  ultimately show ?thesis using demo_ehdr by (simp add: elf_file_def demo_phdr)
qed

lemma demo_user_space: "user_space demo_paging (0x4000 + hhdm demo_paging) {4} Map.empty"
proof -
  have h: "0x4000 + hhdm demo_paging = 0x104000" by (simp add: demo_paging_def hhdm_def demo_pma_def)
  have a: "page_addr (pma_memory (frames demo_paging)) 4 = 0x104000" by (simp add: demo_paging_def demo_pma_def page_addr_def)
  have z: "\<And>j. j < 512 \<Longrightarrow> pt demo_paging (cell demo_paging 4 j) = 0" by (simp add: demo_paging_def)
  have "phys_loop l 0x104000 v demo_paging = 0" for l v using zero_table(2) [where p = 4 and st = demo_paging, OF _ z] by (simp add: a)
  then have p: "paging_get_phys 0x104000 v demo_paging = 0" for v by (simp add: paging_get_phys_def)
  have "4 \<le> paging_level demo_paging" by (simp add: demo_paging_def)
  then show ?thesis unfolding h user_space_def using demo_tables p by simp
qed

theorem elf64_parse_loads_witness:
  "\<exists>st' ret. elf64_parse 0x200000 124 0x4000 False demo_elf = Some (Inr (st', ret)) \<and>
    (full st' \<or> ret_entry ret = 0x400000 \<and> ram st' (paging_get_phys 0x104000 0x400002 (pgs st') + hhdm (pgs st')) = 30 \<and>
       ram st' (paging_get_phys 0x104000 0x400006 (pgs st') + hhdm (pgs st')) = 0)"
proof -
  have ap: "file_apart demo_elf Map.empty 0x200000 (unat (124 :: u64))"
    unfolding file_apart_def
  proof (intro allI impI notI)
    fix i p assume i: "i < unat (124 :: u64)" and p: "page_free (frames (pgs demo_elf)) p \<or> p \<in> ran Map.empty"
      and f: "in_frame (hhdm (pgs demo_elf)) p (0x200000 + of_nat i)"
    have p4: "p < 4" using p by (simp add: demo_elf_def demo_paging_def demo_free)
    obtain j where j: "j < 4096" "(0x200000 :: u64) + of_nat i = of_nat p * 4096 + 0x100000 + of_nat j"
      using f by (auto simp: in_frame_def byte_addr_def demo_elf_def demo_paging_def hhdm_def demo_pma_def)
    have "(0x200000 :: u64) + of_nat i = of_nat (0x200000 + i)" "of_nat p * 4096 + 0x100000 + of_nat j = (of_nat (p * 4096 + 0x100000 + j) :: u64)" by simp_all
    then have "unat (of_nat (0x200000 + i) :: u64) = unat (of_nat (p * 4096 + 0x100000 + j) :: u64)" using j(2) by (simp only:)
    moreover have "unat (of_nat (0x200000 + i) :: u64) = 0x200000 + i" using i by (intro unat_of_nat_small) simp
    moreover have "unat (of_nat (p * 4096 + 0x100000 + j) :: u64) = p * 4096 + 0x100000 + j" using p4 j(1) by (intro unat_of_nat_small) simp
    ultimately have "0x200000 + i = p * 4096 + 0x100000 + j" by linarith
    then show False using p4 j(1) by simp
  qed
  have u: "user_space (pgs demo_elf) (0x4000 + hhdm (pgs demo_elf)) {4} Map.empty" using demo_user_space by (simp add: demo_elf_def)
  have h: "0x4000 + hhdm (pgs demo_elf) = 0x104000" by (simp add: demo_elf_def demo_paging_def hhdm_def demo_pma_def)
  obtain st' ret where r: "elf64_parse 0x200000 124 0x4000 False demo_elf = Some (Inr (st', ret))"
    "ret_status ret = 0 \<Longrightarrow> full st'" "ret_status ret \<noteq> 0 \<Longrightarrow> ret_entry ret = 0x400000"
    "ret_status ret \<noteq> 0 \<Longrightarrow> \<forall>i<1. let ph = phdr (ram demo_elf) 0x200000 i in p_type ph = PT_LOAD \<longrightarrow> seg_end ph \<le> ret_top_vaddr ret \<and>
        (\<forall>k < unat (p_memsz ph). let a = paging_get_phys 0x104000 (p_vaddr ph + of_nat k) (pgs st') in
            a \<noteq> 0 \<and> ram st' (a + hhdm (pgs st')) = segment_byte (ram demo_elf) 0x200000 ph k)"
    using elf64_parse_loads [OF u demo_elf_file ap, of False] unfolding h demo_ehdr unat_1 by (auto split: if_splits)
  have b: "ram demo_elf 0x20007A = 30" using demo_read [of 122 1] by (simp add: demo_file_def)
  have "\<forall>k<8. ram st' (paging_get_phys 0x104000 (0x400000 + of_nat k) (pgs st') + hhdm (pgs st')) = segment_byte (ram demo_elf) 0x200000 (phdr (ram demo_elf) 0x200000 0) k"
    if "ret_status ret \<noteq> 0" using r(4) [OF that] by (simp add: demo_phdr Let_def)
  from this [THEN spec, of 2] this [THEN spec, of 6]
  have "ram st' (paging_get_phys 0x104000 0x400002 (pgs st') + hhdm (pgs st')) = 30" "ram st' (paging_get_phys 0x104000 0x400006 (pgs st') + hhdm (pgs st')) = 0"
    if "ret_status ret \<noteq> 0" using that b by (simp_all add: segment_byte_def demo_phdr demo_file_def)
  then show ?thesis using r(1-3) by blast
qed

end
