(* ===== verification/Cuterm.thy ===== *)
theory Cuterm
  imports Layout CharDev
begin

text \<open>
  The framebuffer terminal (\<^verbatim>\<open>src/graphics/ui/cuterm.c\<close>): a character device that draws glyphs into a
  linear framebuffer, scrolls it, and interprets the colour sequences of ANSI terminals.

  The framebuffer is part of the memory, read and written by address. The three components of a colour
  are one \<open>rgb_t\<close>. C's \<^verbatim>\<open>int\<close> is \<open>int\<close>; a parameter of an escape sequence is kept at 32 bits. The
  glyphs (\<^verbatim>\<open>cuterm_font.h\<close>, 16 bytes per character) are the argument \<open>font\<close>. Colour masks are at most
  8 bits wide and the framebuffer is less than 4G pixels wide, as the shifts and the column counter in
  the code require.
\<close>

section \<open>State\<close>

definition ANSI_MAX_PARAMS :: int where "ANSI_MAX_PARAMS = 16"
definition CUTERM_CHAR_WIDTH :: int where "CUTERM_CHAR_WIDTH = 8"
definition CUTERM_CHAR_HEIGHT :: int where "CUTERM_CHAR_HEIGHT = 16"

datatype ansi_state_t = ANSI_STATE_NORMAL | ANSI_STATE_ESC | ANSI_STATE_CSI

record rgb_t =
  red :: u8
  green :: u8
  blue :: u8

record pixelf_t =
  red_size :: u8
  red_shift :: u8
  green_size :: u8
  green_shift :: u8
  blue_size :: u8
  blue_shift :: u8

record linear_framebuffer_t =
  address :: u64
  width :: u64
  height :: u64
  pitch :: u64
  bpp :: u16
  pixelf :: pixelf_t
  memory_model :: u8

record cuterm_state_t =
  fb_info :: linear_framebuffer_t
  cursor_x :: int
  cursor_y :: int
  ansi_state :: ansi_state_t
  ansi_params :: "int list"
  ansi_param_count :: int
  ansi_cur_param :: int
  ansi_has_digit :: bool
  cur_fg :: rgb_t
  cur_bg :: rgb_t
  vram :: memory

definition rgb :: "u8 \<Rightarrow> u8 \<Rightarrow> u8 \<Rightarrow> rgb_t" where
  "rgb r g b = \<lparr>red = r, green = g, blue = b\<rparr>"

definition ansi_basic_colors :: "rgb_t list" where
  "ansi_basic_colors =
     [rgb 0 0 0, rgb 205 0 0, rgb 0 205 0, rgb 205 205 0, rgb 0 0 238, rgb 205 0 205, rgb 0 205 205, rgb 229 229 229,
      rgb 127 127 127, rgb 255 0 0, rgb 0 255 0, rgb 255 255 0, rgb 92 92 255, rgb 255 0 255, rgb 0 255 255, rgb 255 255 255]"

definition ansi_cube_levels :: "u8 list" where
  "ansi_cube_levels = [0, 95, 135, 175, 215, 255]"

text \<open>The initial value of the static state; its framebuffer is set by \<^verbatim>\<open>cuterm_init\<close>.\<close>

definition g_cuterm_state :: "linear_framebuffer_t \<Rightarrow> memory \<Rightarrow> cuterm_state_t" where
  "g_cuterm_state fb m = \<lparr>fb_info = fb, cursor_x = 0, cursor_y = 0, ansi_state = ANSI_STATE_NORMAL, ansi_params = replicate 16 0,
     ansi_param_count = 0, ansi_cur_param = 0, ansi_has_digit = False, cur_fg = rgb 255 255 255, cur_bg = rgb 0 0 0, vram = m\<rparr>"

definition cuterm_init :: "linear_framebuffer_t \<Rightarrow> cuterm_state_t \<Rightarrow> cuterm_state_t" where
  "cuterm_init fb st = st\<lparr>fb_info := fb\<rparr>"

section \<open>Pixels\<close>

text \<open>Assigning to an \<^verbatim>\<open>int\<close>.\<close>

definition c_int :: "u64 \<Rightarrow> int" where "c_int x = sint (ucast x :: u32)"

fun store :: "u64 \<Rightarrow> u8 list \<Rightarrow> memory \<Rightarrow> memory" where
  "store p [] m = m"
| "store p (b # bs) m = store (p + 1) bs (m(p := b))"

text \<open>\<^verbatim>\<open>memcpy\<close> from a local variable, whose address is never null and always canonical.\<close>

definition memcpy_local :: "u64 \<Rightarrow> u8 list \<Rightarrow> memory \<Rightarrow> memory outcome" where
  "memcpy_local dest bs m =
     (if dest = 0 then Inl (Panic ''MEMORY'' ''memcpy dest is null'')
      else if \<not> range_is_safe dest (of_nat (length bs)) then Inl (Panic ''MEMORY'' ''memcpy dest is out of range'')
      else Inr (store dest bs m))"

definition channel :: "u8 \<Rightarrow> u8 \<Rightarrow> u8 \<Rightarrow> u32" where
  "channel v sz shift = push_bit (unat shift) (ucast (drop_bit (8 - unat sz) v))"

definition pack_color :: "rgb_t \<Rightarrow> cuterm_state_t \<Rightarrow> u32" where
  "pack_color c st =
     (let f = pixelf (fb_info st) in
      channel (red c) (red_size f) (red_shift f) OR channel (green c) (green_size f) (green_shift f) OR channel (blue c) (blue_size f) (blue_shift f))"

definition set_pixel :: "int \<Rightarrow> int \<Rightarrow> rgb_t \<Rightarrow> cuterm_state_t \<Rightarrow> cuterm_state_t" where
  "set_pixel x y c st =
     (let fb = fb_info st;
          addr = address fb + (of_int y * pitch fb) + of_int (x * (uint (bpp fb) div 8));
          color = pack_color c st in
      if bpp fb = 32 then st\<lparr>vram := store addr (le_bytes 4 (unat color)) (vram st)\<rparr>
      else if bpp fb = 24 then st\<lparr>vram := store addr (le_bytes 3 (unat color)) (vram st)\<rparr>
      else st)"

text \<open>Filling one row of pixels from column \<open>x\<close> on, with \<open>k\<close> pixels to go.\<close>

fun fill_row :: "nat \<Rightarrow> u8 list \<Rightarrow> u64 \<Rightarrow> nat \<Rightarrow> nat \<Rightarrow> memory \<Rightarrow> memory outcome" where
  "fill_row bits bs row x 0 m = Inr m"
| "fill_row bits bs row x (Suc k) m =
     (if bits = 32 then and_then (memcpy_local (row + ucast (of_nat x * 4 :: u32)) bs m) (fill_row bits bs row (Suc x) k)
      else fill_row bits bs row (Suc x) k (store (row + ucast (of_nat x * 3 :: u32)) bs m))"

fun fill_rows :: "linear_framebuffer_t \<Rightarrow> u32 \<Rightarrow> u64 \<Rightarrow> nat \<Rightarrow> nat \<Rightarrow> memory \<Rightarrow> memory outcome" where
  "fill_rows fb color base y 0 m = Inr m"
| "fill_rows fb color base y (Suc k) m =
     (let row = base + of_nat y * pitch fb in
      and_then
        (if bpp fb = 32 then fill_row 32 (le_bytes 4 (unat color)) row 0 (unat (width fb)) m
         else if bpp fb = 24 then fill_row 24 (le_bytes 3 (unat color)) row 0 (unat (width fb)) m
         else Inr m)
        (fill_rows fb color base (Suc y) k))"

definition clear_rows :: "int \<Rightarrow> int \<Rightarrow> cuterm_state_t \<Rightarrow> cuterm_state_t outcome" where
  "clear_rows y_start height_px st =
     (if height_px \<le> 0 then Inr st
      else
        let fb = fb_info st;
            base = address fb + of_int y_start * pitch fb in
        and_then (fill_rows fb (pack_color (cur_bg st) st) base 0 (nat height_px) (vram st)) (\<lambda>m. Inr (st\<lparr>vram := m\<rparr>)))"

definition cuterm_scroll :: "cuterm_state_t \<Rightarrow> cuterm_state_t outcome" where
  "cuterm_scroll st =
     (let fb = fb_info st;
          row_bytes = pitch fb * of_int CUTERM_CHAR_HEIGHT;
          total_bytes = pitch fb * height fb;
          base = address fb in
      and_then (memmove base (base + row_bytes) (total_bytes - row_bytes) (vram st)) (\<lambda>(m, _).
        clear_rows (c_int (height fb) - CUTERM_CHAR_HEIGHT) CUTERM_CHAR_HEIGHT (st\<lparr>vram := m\<rparr>)))"

definition cuterm_newline :: "cuterm_state_t \<Rightarrow> cuterm_state_t outcome" where
  "cuterm_newline st0 =
     (let st = st0\<lparr>cursor_y := cursor_y st0 + 1\<rparr>;
          rows = c_int (height (fb_info st) div of_int CUTERM_CHAR_HEIGHT) in
      if rows \<le> cursor_y st then and_then (cuterm_scroll st) (\<lambda>st. Inr (st\<lparr>cursor_y := rows - 1\<rparr>))
      else Inr st)"

section \<open>Colours\<close>

definition ansi_256_to_rgb :: "u8 \<Rightarrow> rgb_t" where
  "ansi_256_to_rgb code =
     (if code < 16 then ansi_basic_colors ! unat code
      else if code \<ge> 232 then (let v = 8 + (code - 232) * 10 in rgb v v v)
      else
        let idx = unat (code - 16) in
        rgb (ansi_cube_levels ! (idx div 36)) (ansi_cube_levels ! ((idx div 6) mod 6)) (ansi_cube_levels ! (idx mod 6)))"

definition ansi_reset_colors :: "cuterm_state_t \<Rightarrow> cuterm_state_t" where
  "ansi_reset_colors st = st\<lparr>cur_fg := rgb 200 200 200, cur_bg := rgb 0 0 0\<rparr>"

text \<open>One round of the loop over the parameters: the new state and the index of the last parameter used.\<close>

definition sgr_step :: "int \<Rightarrow> cuterm_state_t \<Rightarrow> cuterm_state_t \<times> int" where
  "sgr_step i st =
     (let p = ansi_params st ! nat i in
      if p = 0 then (ansi_reset_colors st, i)
      else if 30 \<le> p \<and> p \<le> 37 then (st\<lparr>cur_fg := ansi_basic_colors ! nat (p - 30)\<rparr>, i)
      else if p = 38 \<and> i + 2 < ansi_param_count st \<and> ansi_params st ! nat (i + 1) = 5
      then (st\<lparr>cur_fg := ansi_256_to_rgb (word_of_int (ansi_params st ! nat (i + 2)))\<rparr>, i + 2)
      else if p = 39 then (st\<lparr>cur_fg := rgb 255 255 255\<rparr>, i)
      else if 40 \<le> p \<and> p \<le> 47 then (st\<lparr>cur_bg := ansi_basic_colors ! nat (p - 40)\<rparr>, i)
      else if p = 48 \<and> i + 2 < ansi_param_count st \<and> ansi_params st ! nat (i + 1) = 5
      then (st\<lparr>cur_bg := ansi_256_to_rgb (word_of_int (ansi_params st ! nat (i + 2)))\<rparr>, i + 2)
      else if p = 49 then (st\<lparr>cur_bg := rgb 0 0 0\<rparr>, i)
      else if 90 \<le> p \<and> p \<le> 97 then (st\<lparr>cur_fg := ansi_basic_colors ! nat (p - 90 + 8)\<rparr>, i)
      else if 100 \<le> p \<and> p \<le> 107 then (st\<lparr>cur_bg := ansi_basic_colors ! nat (p - 100 + 8)\<rparr>, i)
      else (st, i))"

lemma sgr_step_frame [simp]: "ansi_param_count (fst (sgr_step i st)) = ansi_param_count st" "i \<le> snd (sgr_step i st)"
  by (simp_all add: sgr_step_def Let_def ansi_reset_colors_def)

function sgr_loop :: "int \<Rightarrow> cuterm_state_t \<Rightarrow> cuterm_state_t" where
  "sgr_loop i st = (if i < ansi_param_count st then sgr_loop (snd (sgr_step i st) + 1) (fst (sgr_step i st)) else st)"
  by pat_completeness auto

termination
proof (relation "measure (\<lambda>(i, st). nat (ansi_param_count st - i))")
  show "((snd (sgr_step i st) + 1, fst (sgr_step i st)), i, st) \<in> measure (\<lambda>(i, st). nat (ansi_param_count st - i))"
    if "i < ansi_param_count st" for i st
  proof -
    have "i \<le> snd (sgr_step i st)" by simp
    then have "nat (ansi_param_count st - (snd (sgr_step i st) + 1)) < nat (ansi_param_count st - i)" using that by linarith
    then show ?thesis by simp
  qed
qed simp

declare sgr_loop.simps [simp del]

definition ansi_apply_sgr :: "cuterm_state_t \<Rightarrow> cuterm_state_t" where
  "ansi_apply_sgr st = (if ansi_param_count st = 0 then ansi_reset_colors st else sgr_loop 0 st)"

definition ansi_push_param :: "cuterm_state_t \<Rightarrow> cuterm_state_t" where
  "ansi_push_param st =
     (let st1 = (if ansi_param_count st < ANSI_MAX_PARAMS
        then st\<lparr>ansi_params := (ansi_params st)[nat (ansi_param_count st) := (if ansi_has_digit st then ansi_cur_param st else 0)],
                ansi_param_count := ansi_param_count st + 1\<rparr>
        else st) in
      st1\<lparr>ansi_cur_param := 0, ansi_has_digit := False\<rparr>)"

definition chr :: "char \<Rightarrow> nat" where "chr c = of_char c"

text \<open>The second result says that the character was part of an escape sequence.\<close>

definition ansi_feed :: "char \<Rightarrow> cuterm_state_t \<Rightarrow> cuterm_state_t \<times> bool" where
  "ansi_feed c st =
     (case ansi_state st of
        ANSI_STATE_NORMAL \<Rightarrow> if chr c = 0x1B then (st\<lparr>ansi_state := ANSI_STATE_ESC\<rparr>, True) else (st, False)
      | ANSI_STATE_ESC \<Rightarrow>
          (if c = CHR ''['' then st\<lparr>ansi_state := ANSI_STATE_CSI, ansi_param_count := 0, ansi_cur_param := 0, ansi_has_digit := False\<rparr>
           else st\<lparr>ansi_state := ANSI_STATE_NORMAL\<rparr>, True)
      | ANSI_STATE_CSI \<Rightarrow>
          if 48 \<le> chr c \<and> chr c \<le> 57
          then (st\<lparr>ansi_cur_param := signed_take_bit 31 (ansi_cur_param st * 10 + (int (chr c) - 48)), ansi_has_digit := True\<rparr>, True)
          else if c = CHR '';'' then (ansi_push_param st, True)
          else
            let st1 = ansi_push_param st;
                st2 = (if c = CHR ''m'' then ansi_apply_sgr st1 else st1) in
            (st2\<lparr>ansi_state := ANSI_STATE_NORMAL\<rparr>, True))"

section \<open>Output\<close>

definition glyph_pixel :: "(nat \<Rightarrow> u8) \<Rightarrow> char \<Rightarrow> int \<Rightarrow> int \<Rightarrow> cuterm_state_t \<Rightarrow> cuterm_state_t" where
  "glyph_pixel font c y x st =
     (let font_idx = int (chr c) * CUTERM_CHAR_HEIGHT;
          pos_x = cursor_x st * CUTERM_CHAR_WIDTH;
          pos_y = cursor_y st * CUTERM_CHAR_HEIGHT;
          row = font (nat (font_idx + y)) in
      if drop_bit (nat (7 - x)) row AND 1 \<noteq> 0 then set_pixel (pos_x + x) (pos_y + y) (cur_fg st) st
      else set_pixel (pos_x + x) (pos_y + y) (cur_bg st) st)"

definition draw_char :: "(nat \<Rightarrow> u8) \<Rightarrow> char \<Rightarrow> cuterm_state_t \<Rightarrow> cuterm_state_t" where
  "draw_char font c = fold (\<lambda>y. fold (glyph_pixel font c y) [0..CUTERM_CHAR_WIDTH - 1]) [0..CUTERM_CHAR_HEIGHT - 1]"

definition cuterm_putc :: "(nat \<Rightarrow> u8) \<Rightarrow> char \<Rightarrow> cuterm_state_t \<Rightarrow> cuterm_state_t outcome" where
  "cuterm_putc font c st0 =
     (case ansi_feed c st0 of (st, consumed) \<Rightarrow>
        if consumed then Inr st
        else if chr c = 10 then cuterm_newline (st\<lparr>cursor_x := 0\<rparr>)
        else
          let st1 = draw_char font c st;
              st2 = st1\<lparr>cursor_x := cursor_x st1 + 1\<rparr> in
          if width (fb_info st2) div of_int CUTERM_CHAR_WIDTH \<le> ucast (of_int (cursor_x st2) :: u32)
          then cuterm_newline (st2\<lparr>cursor_x := 0\<rparr>)
          else Inr st2)"

text \<open>The device; a panic does not return.\<close>

definition cuterm_dev :: "(nat \<Rightarrow> u8) \<Rightarrow> cuterm_state_t kernel_char_dev_t" where
  "cuterm_dev font = \<lparr>DevCAP = CHAR_IS_ERROR_HANDLER,
     putc = Some (\<lambda>c st. case cuterm_putc font c st of Inl _ \<Rightarrow> None | Inr st' \<Rightarrow> Some st'), initialized = False\<rparr>"

section \<open>Writes to the framebuffer\<close>

lemma store_at:
  assumes "unat p + length bs \<le> 2 ^ 64"
  shows "store p bs m a = (if in_range p (length bs) a then bs ! (unat a - unat p) else m a)"
  using assms
proof (induction bs arbitrary: p m)
  case (Cons b bs)
  show ?case
  proof (cases "bs = []")
    case False
    then have "unat p + 1 < 2 ^ 64" using Cons.prems by (cases bs) auto
    then have p1: "unat (p + 1) = unat p + 1" using unat_offset [of p 1] by simp
    have "store (p + 1) bs (m(p := b)) a = (if in_range (p + 1) (length bs) a then bs ! (unat a - unat (p + 1)) else (m(p := b)) a)"
      using Cons.prems p1 by (intro Cons.IH) simp
    then show ?thesis
      using p1 by (auto simp: in_range_def nth_Cons' word_unat_eq_iff split: if_splits)
  qed (auto simp: in_range_def word_unat_eq_iff)
qed (auto simp: in_range_def)

definition cell :: "linear_framebuffer_t \<Rightarrow> nat" where
  "cell fb = unat (bpp fb) div 8"

text \<open>A framebuffer in one half of the address space, of at least one character cell, with 3 or 4 bytes per pixel.\<close>

definition fb_ok :: "linear_framebuffer_t \<Rightarrow> bool" where
  "fb_ok fb \<longleftrightarrow> (bpp fb = 24 \<or> bpp fb = 32) \<and> 8 \<le> unat (width fb) \<and> unat (width fb) < 2 ^ 28 \<and> 16 \<le> unat (height fb) \<and> unat (height fb) < 2 ^ 28 \<and>
     unat (width fb) * cell fb \<le> unat (pitch fb) \<and> address fb \<noteq> 0 \<and>
     (unat (address fb) + unat (pitch fb) * unat (height fb) \<le> 2 ^ 56 \<or>
      2 ^ 64 - 2 ^ 56 \<le> unat (address fb) \<and> unat (address fb) + unat (pitch fb) * unat (height fb) < 2 ^ 64)"

definition on_screen :: "linear_framebuffer_t \<Rightarrow> u64 \<Rightarrow> bool" where
  "on_screen fb a \<longleftrightarrow> in_range (address fb) (unat (pitch fb) * unat (height fb)) a"

definition pixel_off :: "linear_framebuffer_t \<Rightarrow> nat \<Rightarrow> nat \<Rightarrow> nat" where
  "pixel_off fb x y = y * unat (pitch fb) + x * cell fb"

lemma cell_values: "fb_ok fb \<Longrightarrow> cell fb = 3 \<or> cell fb = 4"
  by (auto simp: fb_ok_def cell_def)

lemma pixel_fits:
  assumes "fb_ok fb" "x < unat (width fb)" "y < unat (height fb)"
  shows "pixel_off fb x y + cell fb \<le> unat (pitch fb) * unat (height fb)" "x * cell fb + cell fb \<le> unat (pitch fb)"
proof -
  have "x * cell fb + cell fb = Suc x * cell fb" by simp
  also have "\<dots> \<le> unat (width fb) * cell fb" using assms(2) by (intro mult_le_mono1) simp
  also have "\<dots> \<le> unat (pitch fb)" using assms(1) by (simp add: fb_ok_def)
  finally show xb: "x * cell fb + cell fb \<le> unat (pitch fb)" .
  then have "pixel_off fb x y + cell fb \<le> Suc y * unat (pitch fb)" by (simp add: pixel_off_def)
  also have "\<dots> \<le> unat (height fb) * unat (pitch fb)" using assms(3) by (intro mult_le_mono1) simp
  finally show "pixel_off fb x y + cell fb \<le> unat (pitch fb) * unat (height fb)" by (simp add: mult.commute)
qed

lemma screen_bound: "fb_ok fb \<Longrightarrow> unat (address fb) + unat (pitch fb) * unat (height fb) \<le> 2 ^ 64"
  by (auto simp: fb_ok_def)

lemma pixel_addr:
  assumes "fb_ok fb" "x < unat (width fb)" "y < unat (height fb)"
  shows "unat (address fb + of_nat (pixel_off fb x y)) = unat (address fb) + pixel_off fb x y"
    "unat (address fb) + pixel_off fb x y + cell fb \<le> 2 ^ 64"
proof -
  show b: "unat (address fb) + pixel_off fb x y + cell fb \<le> 2 ^ 64" using pixel_fits [OF assms] screen_bound [OF assms(1)] by linarith
  show "unat (address fb + of_nat (pixel_off fb x y)) = unat (address fb) + pixel_off fb x y"
    using b cell_values [OF assms(1)] by (intro unat_offset) auto
qed

lemma pixel_disjoint:
  assumes "fb_ok fb" "x < unat (width fb)" "y < unat (height fb)" "x' < unat (width fb)" "y' < unat (height fb)" "(x, y) \<noteq> (x', y')"
  shows "pixel_off fb x y + cell fb \<le> pixel_off fb x' y' \<or> pixel_off fb x' y' + cell fb \<le> pixel_off fb x y"
proof -
  have row: "pixel_off fb a b + cell fb \<le> pixel_off fb a' b'" if "b < b'" "a < unat (width fb)" for a b a' b'
  proof -
    have "pixel_off fb a b + cell fb \<le> Suc b * unat (pitch fb)"
      using pixel_fits(2) [OF assms(1) that(2) assms(3)] by (simp add: pixel_off_def)
    also have "\<dots> \<le> b' * unat (pitch fb)" using that(1) by (intro mult_le_mono1) simp
    finally show ?thesis by (simp add: pixel_off_def)
  qed
  have col: "pixel_off fb a b + cell fb \<le> pixel_off fb a' b" if "a < a'" for a a' b
  proof -
    have "Suc a * cell fb \<le> a' * cell fb" using that by (intro mult_le_mono1) simp
    then show ?thesis by (simp add: pixel_off_def)
  qed
  show ?thesis using row [of y y' x x'] row [of y' y x' x] col [of x x' y] col [of x' x y] assms
    by (cases y y' rule: linorder_cases; cases x x' rule: linorder_cases) auto
qed

definition pix :: "linear_framebuffer_t \<Rightarrow> memory \<Rightarrow> nat \<Rightarrow> nat \<Rightarrow> u8 list" where
  "pix fb m x y = bytes_at m (address fb + of_nat (pixel_off fb x y)) (cell fb)"

abbreviation pixel_at :: "cuterm_state_t \<Rightarrow> nat \<Rightarrow> nat \<Rightarrow> u8 list" where
  "pixel_at st \<equiv> pix (fb_info st) (vram st)"

lemma store_pixel:
  fixes m :: memory
  assumes ok: "fb_ok fb" and x: "x < unat (width fb)" and y: "y < unat (height fb)" and bs: "length bs = cell fb"
  defines "m' \<equiv> store (address fb + of_nat (pixel_off fb x y)) bs m"
  shows "x' < unat (width fb) \<Longrightarrow> y' < unat (height fb) \<Longrightarrow> pix fb m' x' y' = (if x' = x \<and> y' = y then bs else pix fb m x' y')"
    and "\<not> on_screen fb a \<Longrightarrow> m' a = m a"
proof -
  let ?p = "address fb + of_nat (pixel_off fb x y)"
  note pa = pixel_addr [OF ok x y]
  have v: "m' a = (if in_range ?p (cell fb) a then bs ! (unat a - unat ?p) else m a)" for a
    using store_at [of ?p bs m a] pa bs by (simp add: m'_def)
  show "m' a = m a" if "\<not> on_screen fb a"
    using that pixel_fits(1) [OF ok x y] by (auto simp: v in_range_def on_screen_def pa(1))
  assume x': "x' < unat (width fb)" and y': "y' < unat (height fb)"
  note pa' = pixel_addr [OF ok x' y']
  have q: "unat (address fb + of_nat (pixel_off fb x' y') + of_nat i) = unat (address fb) + pixel_off fb x' y' + i" if "i < cell fb" for i
    using pa' that by (simp add: unat_offset)
  show "pix fb m' x' y' = (if x' = x \<and> y' = y then bs else pix fb m x' y')"
  proof (cases "x' = x \<and> y' = y")
    case True
    then show ?thesis
      using q pa(1) bs by (intro nth_equalityI) (auto simp: pix_def bytes_at_def v in_range_def)
  next
    case False
    then have "pixel_off fb x y + cell fb \<le> pixel_off fb x' y' \<or> pixel_off fb x' y' + cell fb \<le> pixel_off fb x y"
      using pixel_disjoint [OF ok x y x' y'] by auto
    then have "\<not> in_range ?p (cell fb) (address fb + of_nat (pixel_off fb x' y') + of_nat i)" if "i < cell fb" for i
      using that q [OF that] pa(1) by (auto simp: in_range_def)
    then show ?thesis using False by (intro nth_equalityI) (auto simp: pix_def bytes_at_def v)
  qed
qed

lemma set_pixel_store:
  assumes "fb_ok (fb_info st)"
  shows "set_pixel (int x) (int y) c st = st\<lparr>vram := store (address (fb_info st) + of_nat (pixel_off (fb_info st) x y))
    (le_bytes (cell (fb_info st)) (unat (pack_color c st))) (vram st)\<rparr>"
proof -
  have "of_int (int x * (uint (bpp (fb_info st)) div 8)) = (of_nat x * of_nat (cell (fb_info st)) :: u64)"
  proof -
    have "uint (bpp (fb_info st)) div 8 = int (cell (fb_info st))" by (simp add: cell_def zdiv_int)
    then show ?thesis by simp
  qed
  then have a: "address (fb_info st) + (of_int (int y) * pitch (fb_info st)) + of_int (int x * (uint (bpp (fb_info st)) div 8)) =
      address (fb_info st) + of_nat (pixel_off (fb_info st) x y)"
    by (simp add: pixel_off_def)
  have "bpp (fb_info st) = 32 \<and> cell (fb_info st) = 4 \<or> bpp (fb_info st) = 24 \<and> cell (fb_info st) = 3"
    using assms by (auto simp: fb_ok_def cell_def)
  then show ?thesis unfolding set_pixel_def Let_def a by (elim disjE conjE) (simp_all del: le_bytes_numeral)
qed

lemma set_pixel_spec:
  assumes ok: "fb_ok (fb_info st)" and x: "x < unat (width (fb_info st))" and y: "y < unat (height (fb_info st))"
  shows "x' < unat (width (fb_info st)) \<Longrightarrow> y' < unat (height (fb_info st)) \<Longrightarrow>
      pixel_at (set_pixel (int x) (int y) c st) x' y' = (if x' = x \<and> y' = y then le_bytes (cell (fb_info st)) (unat (pack_color c st)) else pixel_at st x' y')"
    and "\<not> on_screen (fb_info st) a \<Longrightarrow> vram (set_pixel (int x) (int y) c st) a = vram st a"
  using store_pixel [OF ok x y, of "le_bytes (cell (fb_info st)) (unat (pack_color c st))"]
  by (simp_all add: set_pixel_store [OF ok])

section \<open>Drawing a character\<close>

text \<open>Everything but the memory.\<close>

definition same_but_vram :: "cuterm_state_t \<Rightarrow> cuterm_state_t \<Rightarrow> bool" where
  "same_but_vram st st' \<longleftrightarrow> (\<exists>m. st' = st\<lparr>vram := m\<rparr>)"

text \<open>What the pixel \<open>(x, y)\<close> of the glyph of \<open>c\<close> looks like.\<close>

definition glyph_color :: "(nat \<Rightarrow> u8) \<Rightarrow> char \<Rightarrow> cuterm_state_t \<Rightarrow> nat \<Rightarrow> nat \<Rightarrow> u8 list" where
  "glyph_color font c st x y = le_bytes (cell (fb_info st))
     (unat (pack_color (if bit (font (chr c * 16 + y)) (7 - x) then cur_fg st else cur_bg st) st))"

definition text_cell :: "cuterm_state_t \<Rightarrow> bool" where
  "text_cell st \<longleftrightarrow> 0 \<le> cursor_x st \<and> nat (cursor_x st) < unat (width (fb_info st)) div 8 \<and> 0 \<le> cursor_y st \<and>
     nat (cursor_y st) < unat (height (fb_info st)) div 16"

lemma text_cell_pixels:
  assumes "text_cell st" "x < 8" "y < 16"
  shows "nat (cursor_x st) * 8 + x < unat (width (fb_info st))" "nat (cursor_y st) * 16 + y < unat (height (fb_info st))"
  using assms by (auto simp: text_cell_def)

lemma glyph_pixel_set:
  assumes "text_cell st" "x < 8"
  shows "glyph_pixel font c (int y) (int x) st = set_pixel (int (nat (cursor_x st) * 8 + x)) (int (nat (cursor_y st) * 16 + y))
    (if bit (font (chr c * 16 + y)) (7 - x) then cur_fg st else cur_bg st) st"
proof -
  have n: "nat (7 - int x) = 7 - x" "nat (int (chr c) * 16 + int y) = chr c * 16 + y" using assms(2) by auto
  have "drop_bit k (w :: u8) AND 1 \<noteq> 0 \<longleftrightarrow> bit w k" for w k
    by (simp add: bit_iff_odd_drop_bit and_one_eq odd_iff_mod_2_eq_one)
  then show ?thesis
    using assms(1) by (simp add: glyph_pixel_def Let_def CUTERM_CHAR_HEIGHT_def CUTERM_CHAR_WIDTH_def n text_cell_def mult.commute)
qed

lemma same_but_vram_fields:
  assumes "same_but_vram st st'"
  shows "fb_info st' = fb_info st" "cursor_x st' = cursor_x st" "cursor_y st' = cursor_y st" "cur_fg st' = cur_fg st" "cur_bg st' = cur_bg st"
    "ansi_state st' = ansi_state st" "ansi_params st' = ansi_params st" "ansi_param_count st' = ansi_param_count st"
    "text_cell st' = text_cell st" "glyph_color font c st' x y = glyph_color font c st x y" "pack_color col st' = pack_color col st"
  using assms by (auto simp: same_but_vram_def text_cell_def glyph_color_def pack_color_def)

lemma same_but_vram_trans: "same_but_vram a b \<Longrightarrow> same_but_vram b c \<Longrightarrow> same_but_vram a c"
  by (auto simp: same_but_vram_def)

text \<open>Drawing the pixels of \<open>ps\<close> of a glyph.\<close>

definition drawn :: "(nat \<Rightarrow> u8) \<Rightarrow> char \<Rightarrow> (nat \<times> nat) set \<Rightarrow> cuterm_state_t \<Rightarrow> cuterm_state_t \<Rightarrow> bool" where
  "drawn font c ps st st' \<longleftrightarrow> same_but_vram st st' \<and> (\<forall>a. \<not> on_screen (fb_info st) a \<longrightarrow> vram st' a = vram st a) \<and>
     (\<forall>px < unat (width (fb_info st)). \<forall>py < unat (height (fb_info st)).
        pixel_at st' px py =
          (if nat (cursor_x st) * 8 \<le> px \<and> nat (cursor_y st) * 16 \<le> py \<and> (px - nat (cursor_x st) * 8, py - nat (cursor_y st) * 16) \<in> ps
           then glyph_color font c st (px - nat (cursor_x st) * 8) (py - nat (cursor_y st) * 16) else pixel_at st px py))"

lemma drawn_trans:
  assumes "drawn font c P a b" "drawn font c Q b d"
  shows "drawn font c (P \<union> Q) a d"
proof -
  have s: "same_but_vram a b" "same_but_vram b d" using assms by (auto simp: drawn_def)
  show ?thesis
    using assms same_but_vram_trans [OF s] same_but_vram_fields [OF s(1)] unfolding drawn_def by auto
qed

lemma drawn_none: "drawn font c {} st st"
  by (auto simp: drawn_def same_but_vram_def) (metis cuterm_state_t.surjective cuterm_state_t.update_convs(11))

lemma draw_pixel:
  assumes ok: "fb_ok (fb_info st)" and t: "text_cell st" and xy: "x < 8" "y < 16"
  shows "drawn font c {(x, y)} st (glyph_pixel font c (int y) (int x) st)"
proof -
  define X Y where "X = nat (cursor_x st) * 8 + x" and "Y = nat (cursor_y st) * 16 + y"
  have b: "X < unat (width (fb_info st))" "Y < unat (height (fb_info st))" using text_cell_pixels [OF t xy] by (simp_all add: X_def Y_def)
  note p = set_pixel_spec [OF ok b] and g = glyph_pixel_set [OF t xy(1), where y = y and font = font and c = c, folded X_def Y_def]
  have "same_but_vram st (glyph_pixel font c (int y) (int x) st)"
    unfolding g set_pixel_store [OF ok] same_but_vram_def by blast
  moreover have "pixel_at (glyph_pixel font c (int y) (int x) st) x' y' =
      (if nat (cursor_x st) * 8 \<le> x' \<and> nat (cursor_y st) * 16 \<le> y' \<and> (x' - nat (cursor_x st) * 8, y' - nat (cursor_y st) * 16) \<in> {(x, y)}
       then glyph_color font c st (x' - nat (cursor_x st) * 8) (y' - nat (cursor_y st) * 16) else pixel_at st x' y')"
    if xy': "x' < unat (width (fb_info st))" "y' < unat (height (fb_info st))" for x' y'
  proof (cases "x' = X \<and> y' = Y")
    case True
    then have "x' - nat (cursor_x st) * 8 = x" "y' - nat (cursor_y st) * 16 = y" "nat (cursor_x st) * 8 \<le> x'" "nat (cursor_y st) * 16 \<le> y'"
      by (simp_all add: X_def Y_def)
    then show ?thesis unfolding g p(1) [OF xy'] using True by (simp add: glyph_color_def)
  next
    case False
    then have "\<not> (nat (cursor_x st) * 8 \<le> x' \<and> nat (cursor_y st) * 16 \<le> y' \<and> (x' - nat (cursor_x st) * 8, y' - nat (cursor_y st) * 16) \<in> {(x, y)})"
      by (auto simp: X_def Y_def)
    then show ?thesis unfolding g p(1) [OF xy'] using False by (simp only: if_False)
  qed
  ultimately show ?thesis unfolding drawn_def using p(2) g by simp
qed

lemma draw_row:
  assumes ok: "fb_ok (fb_info st)" and t: "text_cell st" and xs: "\<forall>x\<in>set xs. x < 8" and y: "y < 16"
  shows "drawn font c (set xs \<times> {y}) st (fold (glyph_pixel font c (int y)) (map int xs) st)"
  using ok t xs
proof (induction xs arbitrary: st)
  case (Cons x xs)
  let ?s = "glyph_pixel font c (int y) (int x) st"
  have d: "drawn font c {(x, y)} st ?s" using Cons.prems y by (intro draw_pixel) auto
  then have "fb_ok (fb_info ?s)" "text_cell ?s" using Cons.prems same_but_vram_fields by (auto simp: drawn_def)
  with Cons have "drawn font c (set xs \<times> {y}) ?s (fold (glyph_pixel font c (int y)) (map int xs) ?s)" by simp
  from drawn_trans [OF d this] show ?case by (simp add: insert_Times_insert)
qed (simp add: drawn_none)

lemma draw_rows:
  assumes ok: "fb_ok (fb_info st)" and t: "text_cell st" and ys: "\<forall>y\<in>set ys. y < 16"
  shows "drawn font c ({..<8} \<times> set ys) st (fold (\<lambda>y. fold (glyph_pixel font c y) (map int [0..<8])) (map int ys) st)"
  using ok t ys
proof (induction ys arbitrary: st)
  case (Cons y ys)
  let ?s = "fold (glyph_pixel font c (int y)) (map int [0..<8]) st"
  have d: "drawn font c (set [0..<8] \<times> {y}) st ?s" using Cons.prems by (intro draw_row) auto
  then have "fb_ok (fb_info ?s)" "text_cell ?s" using Cons.prems same_but_vram_fields by (auto simp: drawn_def)
  with Cons have "drawn font c ({..<8} \<times> set ys) ?s (fold (\<lambda>y. fold (glyph_pixel font c y) (map int [0..<8])) (map int ys) ?s)" by simp
  from drawn_trans [OF d this] have "drawn font c (set [0..<8] \<times> {y} \<union> {..<8} \<times> set ys) st (fold (\<lambda>y. fold (glyph_pixel font c y) (map int [0..<8])) (map int ys) ?s)" .
  moreover have "set [0..<8] \<times> {y} \<union> {..<8} \<times> set ys = {..<8::nat} \<times> set (y # ys)" by auto
  ultimately show ?case by simp
qed (simp add: drawn_none)

lemma draw_char_spec:
  assumes "fb_ok (fb_info st)" "text_cell st"
  shows "drawn font c ({..<8} \<times> {..<16}) st (draw_char font c st)"
proof -
  have "[0..CUTERM_CHAR_WIDTH - 1] = map int [0..<8]" "[0..CUTERM_CHAR_HEIGHT - 1] = map int [0..<16]"
    by (simp_all add: CUTERM_CHAR_WIDTH_def CUTERM_CHAR_HEIGHT_def upto_rec1 upt_rec)
  moreover have "set [0..<16] = {..<16::nat}" by auto
  ultimately show ?thesis using draw_rows [OF assms, of "[0..<16]"] by (simp add: draw_char_def)
qed

section \<open>Scrolling\<close>

lemma screen_range:
  assumes ok: "fb_ok fb" and n: "0 < n" "off + n \<le> unat (pitch fb) * unat (height fb)"
  shows "range_is_safe (address fb + of_nat off) (of_nat n)" "address fb + of_nat off \<noteq> 0"
    "unat (address fb + of_nat off) = unat (address fb) + off"
proof -
  have b: "unat (address fb) + unat (pitch fb) * unat (height fb) \<le> 2 ^ 64" by (rule screen_bound [OF ok])
  have lt: "unat (address fb) + off < 2 ^ 64" "unat (address fb) + (off + (n - 1)) < 2 ^ 64" "n \<le> 2 ^ 64" "0 < unat (address fb)"
    using b n ok by (auto simp: fb_ok_def unat_gt_0)
  show a: "unat (address fb + of_nat off) = unat (address fb) + off" by (rule unat_offset [OF lt(1)])
  have "unat (address fb + of_nat off) \<noteq> unat 0" using a lt(4) by simp
  then show "address fb + of_nat off \<noteq> 0" by metis
  have n64: "n < 2 ^ 64" using lt(2,4) n(1) by linarith
  have e: "address fb + of_nat off + of_nat n - 1 = address fb + of_nat (off + (n - 1))" using n(1) by (simp add: of_nat_diff)
  have ue: "unat (address fb + of_nat (off + (n - 1))) = unat (address fb) + (off + (n - 1))" by (rule unat_offset [OF lt(2)])
  have "ptr_is_canonical (address fb + of_nat off)" "ptr_is_canonical (address fb + of_nat (off + (n - 1)))"
    unfolding canonical_iff a ue using ok n by (auto simp: fb_ok_def)
  moreover have "\<not> address fb + of_nat (off + (n - 1)) < address fb + of_nat off" unfolding word_less_nat_alt a ue by simp
  ultimately show "range_is_safe (address fb + of_nat off) (of_nat n)"
    unfolding range_is_safe_def Let_def e by simp
qed

lemma fill_row_spec:
  assumes ok: "fb_ok fb" and r: "r < unat (height fb)" and bs: "length bs = cell fb" "bits = unat (bpp fb)" and x: "x + k \<le> unat (width fb)"
  shows "\<exists>m'. fill_row bits bs (address fb + of_nat (r * unat (pitch fb))) x k m = Inr m' \<and> (\<forall>a. \<not> on_screen fb a \<longrightarrow> m' a = m a) \<and>
    (\<forall>x' < unat (width fb). \<forall>y' < unat (height fb). pix fb m' x' y' = (if y' = r \<and> x \<le> x' \<and> x' < x + k then bs else pix fb m x' y'))"
  using x
proof (induction k arbitrary: x m)
  case (Suc k)
  let ?p = "address fb + of_nat (pixel_off fb x r)"
  let ?m = "store ?p bs m"
  have xw: "x < unat (width fb)" using Suc.prems by simp
  note sp = store_pixel [OF ok xw r bs(1), where m = m]
  have c: "bits = 32 \<and> cell fb = 4 \<or> bits = 24 \<and> cell fb = 3" using ok bs(2) by (auto simp: fb_ok_def cell_def)
  have "x < 2 ^ 28" using xw ok by (simp add: fb_ok_def)
  then have u: "ucast (of_nat x * 4 :: u32) = (of_nat (x * 4) :: u64)" "ucast (of_nat x * 3 :: u32) = (of_nat (x * 3) :: u64)"
    by (simp_all add: word_unat_eq_iff unat_word_ariths unat_of_nat unsigned_ucast_eq take_bit_nat_def)
  have p: "address fb + of_nat (r * unat (pitch fb)) + of_nat (x * cell fb) = ?p" by (simp add: pixel_off_def)
  have "memcpy_local ?p bs m = Inr ?m"
    using screen_range [OF ok, of "cell fb" "pixel_off fb x r"] pixel_fits(1) [OF ok xw r] c bs(1) by (auto simp: memcpy_local_def)
  then have "fill_row bits bs (address fb + of_nat (r * unat (pitch fb))) x (Suc k) m = fill_row bits bs (address fb + of_nat (r * unat (pitch fb))) (Suc x) k ?m"
  proof -
    have "address fb + of_nat (r * unat (pitch fb)) + ucast (of_nat x * 4 :: u32) = ?p" if "cell fb = 4" using p [unfolded that] by (simp only: u)
    moreover have "address fb + of_nat (r * unat (pitch fb)) + ucast (of_nat x * 3 :: u32) = ?p" if "cell fb = 3" using p [unfolded that] by (simp only: u)
    moreover have "((24::nat) = 32) = False" by simp
    ultimately show ?thesis using c \<open>memcpy_local ?p bs m = Inr ?m\<close>
      by (elim disjE conjE) (simp_all only: fill_row.simps and_then_Inr if_True if_False simp_thms)
  qed
  moreover obtain m' where m': "fill_row bits bs (address fb + of_nat (r * unat (pitch fb))) (Suc x) k ?m = Inr m'" "\<forall>a. \<not> on_screen fb a \<longrightarrow> m' a = ?m a"
    "\<forall>x' < unat (width fb). \<forall>y' < unat (height fb). pix fb m' x' y' = (if y' = r \<and> Suc x \<le> x' \<and> x' < Suc x + k then bs else pix fb ?m x' y')"
    using Suc.IH [of "Suc x" ?m] Suc.prems by auto
  ultimately show ?case using sp by (intro exI [of _ m']) auto
qed auto

lemma fill_rows_spec:
  assumes ok: "fb_ok fb" and y: "y0 + (y + k) \<le> unat (height fb)"
  shows "\<exists>m'. fill_rows fb color (address fb + of_nat (y0 * unat (pitch fb))) y k m = Inr m' \<and> (\<forall>a. \<not> on_screen fb a \<longrightarrow> m' a = m a) \<and>
    (\<forall>x' < unat (width fb). \<forall>y' < unat (height fb). pix fb m' x' y' =
      (if y0 + y \<le> y' \<and> y' < y0 + (y + k) then le_bytes (cell fb) (unat color) else pix fb m x' y'))"
  using y
proof (induction k arbitrary: y m)
  case (Suc k)
  let ?row = "address fb + of_nat (y0 * unat (pitch fb)) + of_nat y * pitch fb"
  have row: "?row = address fb + of_nat ((y0 + y) * unat (pitch fb))" by (simp add: algebra_simps)
  have c: "bpp fb = 32 \<and> cell fb = 4 \<or> bpp fb = 24 \<and> bpp fb \<noteq> 32 \<and> cell fb = 3" using ok by (auto simp: fb_ok_def cell_def)
  obtain m1 where m1: "fill_row (unat (bpp fb)) (le_bytes (cell fb) (unat color)) (address fb + of_nat ((y0 + y) * unat (pitch fb))) 0 (unat (width fb)) m = Inr m1"
    "\<forall>a. \<not> on_screen fb a \<longrightarrow> m1 a = m a"
    "\<forall>x' < unat (width fb). \<forall>y' < unat (height fb). pix fb m1 x' y' = (if y' = y0 + y \<and> 0 \<le> x' \<and> x' < 0 + unat (width fb) then le_bytes (cell fb) (unat color) else pix fb m x' y')"
    using fill_row_spec [OF ok, of "y0 + y" "le_bytes (cell fb) (unat color)" "unat (bpp fb)" 0 "unat (width fb)" m] Suc.prems by auto
  have "fill_rows fb color (address fb + of_nat (y0 * unat (pitch fb))) y (Suc k) m =
      fill_rows fb color (address fb + of_nat (y0 * unat (pitch fb))) (Suc y) k m1"
    using c m1(1) unfolding fill_rows.simps Let_def row by (elim disjE conjE) (simp_all del: le_bytes_numeral)
  moreover obtain m' where m': "fill_rows fb color (address fb + of_nat (y0 * unat (pitch fb))) (Suc y) k m1 = Inr m'" "\<forall>a. \<not> on_screen fb a \<longrightarrow> m' a = m1 a"
    "\<forall>x' < unat (width fb). \<forall>y' < unat (height fb). pix fb m' x' y' =
      (if y0 + Suc y \<le> y' \<and> y' < y0 + (Suc y + k) then le_bytes (cell fb) (unat color) else pix fb m1 x' y')"
    using Suc.IH [of "Suc y" m1] Suc.prems by auto
  ultimately show ?case using m1(2,3) by (intro exI [of _ m']) auto
qed auto

lemma memmove_up:
  assumes "range_is_safe d n" "range_is_safe s n" "d \<noteq> 0" "s \<noteq> 0" "d < s"
  shows "\<exists>m'. memmove d s n m = Inr (m', d) \<and> (\<forall>a. m' a = (if unat d \<le> unat a \<and> unat a < unat d + unat n then m (s + (a - d)) else m a))"
proof -
  note w = safe_no_wrap [OF assms(1)] safe_no_wrap [OF assms(2)]
  have "copy_up (unat n) 0 d s m a = (if unat d \<le> unat a \<and> unat a < unat d + unat n then m (s + (a - d)) else m a)" for a
    using copy_up_spec [of d 0 "unat n" s m a] w assms(5) by (simp add: word_less_nat_alt)
  then show ?thesis using assms by (auto simp: memmove_def)
qed

lemma c_int_small: "unat w < 2 ^ 31 \<Longrightarrow> c_int w = int (unat w)"
proof -
  assume a: "unat w < 2 ^ 31"
  then have "unat (ucast w :: u32) = unat w" by (simp add: unsigned_ucast_eq take_bit_nat_eq_self)
  then have "uint (ucast w :: u32) = int (unat w)" by (metis of_nat_unat)
  moreover have "int (unat w) < int (2 ^ 31)" using a unfolding of_nat_less_iff .
  moreover have "0 \<le> uint w" by simp
  then have "- 2147483648 \<le> uint w" by linarith
  ultimately show ?thesis by (simp add: c_int_def sint_uint signed_take_bit_int_eq_self_iff)
qed

lemma scroll_move:
  assumes ok: "fb_ok fb"
  shows "\<exists>m'. memmove (address fb) (address fb + pitch fb * 16) (pitch fb * height fb - pitch fb * 16) m = Inr (m', address fb) \<and>
    (\<forall>a. \<not> on_screen fb a \<longrightarrow> m' a = m a) \<and>
    (\<forall>x < unat (width fb). \<forall>y. y + 16 < unat (height fb) \<longrightarrow> pix fb m' x y = pix fb m x (y + 16))"
proof -
  let ?P = "unat (pitch fb)" and ?H = "unat (height fb)" and ?a = "address fb"
  let ?n = "?P * ?H - ?P * 16"
  have h: "16 \<le> ?H" "?a \<noteq> 0" "?P \<noteq> 0" using ok cell_values [OF ok] by (auto simp: fb_ok_def)
  have b: "unat ?a + ?P * ?H < 2 ^ 64" using ok by (auto simp: fb_ok_def)
  have le: "?P * 16 \<le> ?P * ?H" using h(1) by (intro mult_le_mono2)
  have s: "?a + pitch fb * 16 = ?a + of_nat (?P * 16)" by simp
  have n: "pitch fb * height fb - pitch fb * 16 = of_nat ?n" using le by (simp add: of_nat_diff)
  have us: "unat (?a + of_nat (?P * 16)) = unat ?a + ?P * 16" using b le by (intro unat_offset) linarith
  have un: "unat (of_nat ?n :: u64) = ?n" using b by (intro unat_of_nat_small) simp
  have "?a < ?a + of_nat (?P * 16)" unfolding word_less_nat_alt us using h(3) by simp
  moreover have "?a + of_nat (?P * 16) \<noteq> 0" using calculation by (metis word_not_simps(1))
  moreover have "range_is_safe ?a (of_nat ?n)" "range_is_safe (?a + of_nat (?P * 16)) (of_nat ?n)"
    using screen_range(1) [OF ok, of ?n 0] screen_range(1) [OF ok, of ?n "?P * 16"] le
    by (cases "?n = 0"; simp add: range_is_safe_def)+
  ultimately obtain m' where m': "memmove ?a (?a + of_nat (?P * 16)) (of_nat ?n) m = Inr (m', ?a)"
    "\<And>a. m' a = (if unat ?a \<le> unat a \<and> unat a < unat ?a + ?n then m (?a + of_nat (?P * 16) + (a - ?a)) else m a)"
    using memmove_up [of ?a "of_nat ?n" "?a + of_nat (?P * 16)" m] h(2) un by auto
  have "m' a = m a" if "\<not> on_screen fb a" for a using that m'(2) [of a] by (auto simp: on_screen_def in_range_def)
  moreover have "pix fb m' x y = pix fb m x (y + 16)" if x: "x < unat (width fb)" and y: "y + 16 < ?H" for x y
  proof -
    have "m' (?a + of_nat (pixel_off fb x y) + of_nat i) = m (?a + of_nat (pixel_off fb x (y + 16)) + of_nat i)" if i: "i < cell fb" for i
    proof -
      have "pixel_off fb x y + cell fb \<le> Suc y * ?P" using pixel_fits(2) [OF ok x, of 0] h by (simp add: pixel_off_def)
      also have "\<dots> \<le> (?H - 16) * ?P" using y by (intro mult_le_mono1) linarith
      finally have off: "pixel_off fb x y + i < ?n" using i by (simp add: algebra_simps diff_mult_distrib)
      then have "unat (?a + of_nat (pixel_off fb x y + i)) = unat ?a + (pixel_off fb x y + i)" using b by (intro unat_offset) linarith
      then have "m' (?a + of_nat (pixel_off fb x y + i)) = m (?a + of_nat (?P * 16) + of_nat (pixel_off fb x y + i))" using m'(2) off by simp
      then show ?thesis by (simp add: pixel_off_def algebra_simps)
    qed
    then show ?thesis by (simp add: pix_def bytes_at_def)
  qed
  ultimately show ?thesis using m'(1) unfolding s n by (intro exI [of _ m']) simp
qed

lemma scroll_spec:
  assumes ok: "fb_ok (fb_info st)"
  shows "\<exists>m'. cuterm_scroll st = Inr (st\<lparr>vram := m'\<rparr>) \<and> (\<forall>a. \<not> on_screen (fb_info st) a \<longrightarrow> m' a = vram st a) \<and>
    (\<forall>x < unat (width (fb_info st)). \<forall>y < unat (height (fb_info st)). pix (fb_info st) m' x y =
      (if y + 16 < unat (height (fb_info st)) then pixel_at st x (y + 16) else le_bytes (cell (fb_info st)) (unat (pack_color (cur_bg st) st))))"
proof -
  let ?fb = "fb_info st" and ?H = "unat (height (fb_info st))"
  have h: "16 \<le> ?H" "?H < 2 ^ 28" using ok by (auto simp: fb_ok_def)
  obtain m1 where m1: "memmove (address ?fb) (address ?fb + pitch ?fb * 16) (pitch ?fb * height ?fb - pitch ?fb * 16) (vram st) = Inr (m1, address ?fb)"
    "\<forall>a. \<not> on_screen ?fb a \<longrightarrow> m1 a = vram st a"
    "\<forall>x < unat (width ?fb). \<forall>y. y + 16 < ?H \<longrightarrow> pix ?fb m1 x y = pixel_at st x (y + 16)"
    using scroll_move [OF ok] by blast
  have c: "c_int (height ?fb) - 16 = int (?H - 16)" using h by (simp add: c_int_small of_nat_diff)
  have base: "address ?fb + of_int (int (?H - 16)) * pitch ?fb = address ?fb + of_nat ((?H - 16) * unat (pitch ?fb))" by simp
  have pc: "pack_color (cur_bg st) (st\<lparr>vram := m1\<rparr>) = pack_color (cur_bg st) st" by (simp add: pack_color_def)
  obtain m' where m': "fill_rows ?fb (pack_color (cur_bg st) st) (address ?fb + of_nat ((?H - 16) * unat (pitch ?fb))) 0 16 m1 = Inr m'"
    "\<forall>a. \<not> on_screen ?fb a \<longrightarrow> m' a = m1 a"
    "\<forall>x' < unat (width ?fb). \<forall>y' < ?H. pix ?fb m' x' y' =
      (if ?H - 16 + 0 \<le> y' \<and> y' < ?H - 16 + (0 + 16) then le_bytes (cell ?fb) (unat (pack_color (cur_bg st) st)) else pix ?fb m1 x' y')"
    using fill_rows_spec [OF ok, of "?H - 16" 0 16] h by force
  have "clear_rows (c_int (height ?fb) - 16) 16 (st\<lparr>vram := m1\<rparr>) = Inr (st\<lparr>vram := m'\<rparr>)"
  proof -
    have "and_then (fill_rows ?fb (pack_color (cur_bg st) st) (address ?fb + of_int (int (?H - 16)) * pitch ?fb) 0 (nat 16) m1) (\<lambda>m. Inr (st\<lparr>vram := m\<rparr>)) = Inr (st\<lparr>vram := m'\<rparr>)"
      unfolding base using m'(1) by simp
    then show ?thesis unfolding clear_rows_def Let_def c by (simp add: pc del: of_int_of_nat_eq)
  qed
  then have "cuterm_scroll st = Inr (st\<lparr>vram := m'\<rparr>)"
    by (simp add: cuterm_scroll_def Let_def CUTERM_CHAR_HEIGHT_def m1(1))
  then show ?thesis using m1(2,3) m'(2,3) h by (intro exI [of _ m']) auto
qed

section \<open>The terminal as a picture\<close>

definition term_ok :: "cuterm_state_t \<Rightarrow> bool" where
  "term_ok st \<longleftrightarrow> fb_ok (fb_info st) \<and> text_cell st \<and> length (ansi_params st) = 16 \<and> 0 \<le> ansi_param_count st \<and> ansi_param_count st \<le> 16"

text \<open>A picture gives the bytes of every pixel; scrolling moves it up by one text row.\<close>

definition scrolled :: "cuterm_state_t \<Rightarrow> (nat \<Rightarrow> nat \<Rightarrow> u8 list) \<Rightarrow> nat \<Rightarrow> nat \<Rightarrow> u8 list" where
  "scrolled st pic x y = (if y + 16 < unat (height (fb_info st)) then pic x (y + 16) else le_bytes (cell (fb_info st)) (unat (pack_color (cur_bg st) st)))"

definition with_glyph :: "(nat \<Rightarrow> u8) \<Rightarrow> char \<Rightarrow> cuterm_state_t \<Rightarrow> nat \<Rightarrow> nat \<Rightarrow> u8 list" where
  "with_glyph font c st x y =
     (if x div 8 = nat (cursor_x st) \<and> y div 16 = nat (cursor_y st) then glyph_color font c st (x mod 8) (y mod 16) else pixel_at st x y)"

definition displays :: "cuterm_state_t \<Rightarrow> (nat \<Rightarrow> nat \<Rightarrow> u8 list) \<Rightarrow> bool" where
  "displays st pic \<longleftrightarrow> (\<forall>x < unat (width (fb_info st)). \<forall>y < unat (height (fb_info st)). pixel_at st x y = pic x y)"

lemma draw_char_shows:
  assumes "fb_ok (fb_info st)" "text_cell st"
  shows "same_but_vram st (draw_char font c st)" "displays (draw_char font c st) (with_glyph font c st)"
    "\<not> on_screen (fb_info st) a \<Longrightarrow> vram (draw_char font c st) a = vram st a"
proof -
  note d = draw_char_spec [OF assms, of font c, unfolded drawn_def]
  show s: "same_but_vram st (draw_char font c st)" and "\<not> on_screen (fb_info st) a \<Longrightarrow> vram (draw_char font c st) a = vram st a"
    using d by auto
  have cell: "X * 8 \<le> x \<and> Y * 16 \<le> y \<and> (x - X * 8, y - Y * 16) \<in> {..<8} \<times> {..<16} \<longleftrightarrow> x div 8 = X \<and> y div 16 = Y" for x y X Y :: nat
    by auto
  have off: "x div 8 = X \<Longrightarrow> x - X * 8 = x mod 8" "y div 16 = Y \<Longrightarrow> y - Y * 16 = y mod 16" for x y X Y :: nat
    by (auto simp: minus_div_mult_eq_mod)
  show "displays (draw_char font c st) (with_glyph font c st)"
    using d same_but_vram_fields(1) [OF s] unfolding displays_def with_glyph_def cell by (auto simp: off)
qed

lemma sgr_loop_frame: "\<exists>f b. sgr_loop i st = st\<lparr>cur_fg := f, cur_bg := b\<rparr>"
proof (induction i st rule: sgr_loop.induct)
  case (1 i st)
  have keep: "\<exists>f b. st = st\<lparr>cur_fg := f, cur_bg := b\<rparr>"
    by (rule exI [of _ "cur_fg st"], rule exI [of _ "cur_bg st"]) simp
  define R where "R s \<longleftrightarrow> (\<exists>f b. s = st\<lparr>cur_fg := f, cur_bg := b\<rparr>)" for s
  have "R (st\<lparr>cur_fg := f\<rparr>)" for f unfolding R_def by (rule exI [of _ f], rule exI [of _ "cur_bg st"]) simp
  moreover have "R (st\<lparr>cur_bg := b\<rparr>)" for b unfolding R_def by (rule exI [of _ "cur_fg st"], rule exI [of _ b]) simp
  moreover have "R st" "R (st\<lparr>cur_fg := f, cur_bg := b\<rparr>)" for f b using keep unfolding R_def by blast+
  ultimately have "R (fst (sgr_step i st))" by (simp add: sgr_step_def Let_def ansi_reset_colors_def)
  then have "\<exists>f b. fst (sgr_step i st) = st\<lparr>cur_fg := f, cur_bg := b\<rparr>" unfolding R_def .
  then show ?case using 1 keep by (subst sgr_loop.simps) (auto split: if_splits)
qed

lemma ansi_feed_frame:
  assumes "term_ok st"
  shows "term_ok (fst (ansi_feed c st))" "fb_info (fst (ansi_feed c st)) = fb_info st" "vram (fst (ansi_feed c st)) = vram st"
    "cursor_x (fst (ansi_feed c st)) = cursor_x st" "cursor_y (fst (ansi_feed c st)) = cursor_y st"
proof -
  have a: "\<exists>f b. ansi_apply_sgr s = s\<lparr>cur_fg := f, cur_bg := b\<rparr>" for s
    using sgr_loop_frame [of 0 s] by (auto simp: ansi_apply_sgr_def ansi_reset_colors_def)
  obtain f b where ab: "ansi_apply_sgr (ansi_push_param st) = (ansi_push_param st)\<lparr>cur_fg := f, cur_bg := b\<rparr>" using a by blast
  have p: "fb_info (ansi_push_param st) = fb_info st" "vram (ansi_push_param st) = vram st" "cursor_x (ansi_push_param st) = cursor_x st"
    "cursor_y (ansi_push_param st) = cursor_y st" "length (ansi_params (ansi_push_param st)) = length (ansi_params st)"
    "0 \<le> ansi_param_count (ansi_push_param st) \<and> ansi_param_count (ansi_push_param st) \<le> 16"
    using assms by (auto simp: ansi_push_param_def Let_def term_ok_def ANSI_MAX_PARAMS_def)
  show "term_ok (fst (ansi_feed c st))" "fb_info (fst (ansi_feed c st)) = fb_info st" "vram (fst (ansi_feed c st)) = vram st"
    "cursor_x (fst (ansi_feed c st)) = cursor_x st" "cursor_y (fst (ansi_feed c st)) = cursor_y st"
    using assms p by (auto simp: ansi_feed_def ab Let_def term_ok_def text_cell_def split: ansi_state_t.split)
qed

lemma newline_spec:
  assumes ok: "fb_ok (fb_info st)" and y: "0 \<le> cursor_y st" "nat (cursor_y st) < unat (height (fb_info st)) div 16"
  defines "full \<equiv> unat (height (fb_info st)) div 16 \<le> nat (cursor_y st) + 1"
  shows "\<exists>m'. cuterm_newline st = Inr (st\<lparr>cursor_y := (if full then cursor_y st else cursor_y st + 1), vram := m'\<rparr>) \<and>
    (\<forall>a. \<not> on_screen (fb_info st) a \<longrightarrow> m' a = vram st a) \<and>
    (\<forall>px < unat (width (fb_info st)). \<forall>py < unat (height (fb_info st)).
       pix (fb_info st) m' px py = (if full then scrolled st (pixel_at st) px py else pixel_at st px py))"
proof -
  let ?fb = "fb_info st"
  let ?s = "st\<lparr>cursor_y := cursor_y st + 1\<rparr>"
  have "unat (height ?fb div 16) = unat (height ?fb) div 16" by (simp add: unat_div)
  moreover have "unat (height ?fb) < 2 ^ 28" using ok by (simp add: fb_ok_def)
  ultimately have r: "c_int (height ?fb div 16) = int (unat (height ?fb) div 16)" by (subst c_int_small) auto
  show ?thesis
  proof (cases full)
    case True
    obtain m' where m': "cuterm_scroll ?s = Inr (?s\<lparr>vram := m'\<rparr>)" "\<forall>a. \<not> on_screen ?fb a \<longrightarrow> m' a = vram st a"
      "\<forall>x < unat (width ?fb). \<forall>y < unat (height ?fb). pix ?fb m' x y = scrolled st (pixel_at st) x y"
      using scroll_spec [of ?s] ok by (auto simp: scrolled_def pack_color_def)
    have "int (unat (height ?fb) div 16) - 1 = cursor_y st" "int (unat (height ?fb) div 16) \<le> cursor_y st + 1"
      using True y by (auto simp: full_def nat_less_iff)
    then have "cuterm_newline st = Inr (st\<lparr>cursor_y := cursor_y st, vram := m'\<rparr>)"
      using m'(1) r by (simp add: cuterm_newline_def Let_def CUTERM_CHAR_HEIGHT_def)
    then show ?thesis using True m'(2,3) by auto
  next
    case False
    then have "\<not> int (unat (height ?fb) div 16) \<le> cursor_y st + 1" using y by (auto simp: full_def)
    then have "cuterm_newline st = Inr (st\<lparr>cursor_y := cursor_y st + 1, vram := vram st\<rparr>)"
      using r by (simp add: cuterm_newline_def Let_def CUTERM_CHAR_HEIGHT_def)
    then show ?thesis using False by (intro exI [of _ "vram st"]) simp
  qed
qed

section \<open>Escape sequences\<close>

fun decimal :: "nat \<Rightarrow> string" where
  "decimal n = (if n < 10 then [char_of (48 + n)] else decimal (n div 10) @ [char_of (48 + n mod 10)])"

declare decimal.simps [simp del]

fun sgr_text :: "nat list \<Rightarrow> string" where
  "sgr_text [] = ''m''"
| "sgr_text [p] = decimal p @ ''m''"
| "sgr_text (p # q # ps) = decimal p @ '';'' @ sgr_text (q # ps)"

text \<open>
  Feeding a text to \<open>ansi_feed\<close>, with the conjunction of its results, and writing a text to the terminal.
  A text whose every character is consumed is never drawn.
\<close>

fun feed_all :: "string \<Rightarrow> cuterm_state_t \<Rightarrow> cuterm_state_t \<times> bool" where
  "feed_all [] st = (st, True)"
| "feed_all (c # cs) st =
     (case ansi_feed c st of (st1, consumed) \<Rightarrow>
        (case feed_all cs st1 of (st2, rest_consumed) \<Rightarrow> (st2, consumed \<and> rest_consumed)))"

fun putc_all :: "(nat \<Rightarrow> u8) \<Rightarrow> string \<Rightarrow> cuterm_state_t \<Rightarrow> cuterm_state_t outcome" where
  "putc_all font [] st = Inr st"
| "putc_all font (c # cs) st = and_then (cuterm_putc font c st) (putc_all font cs)"

lemma feed_all_append: "feed_all cs st = (st1, True) \<Longrightarrow> feed_all (cs @ ds) st = feed_all ds st1"
  by (induction cs arbitrary: st) (auto split: prod.splits)

lemma putc_consumed: "feed_all cs st = (st', True) \<Longrightarrow> putc_all font cs st = Inr st'"
  by (induction cs arbitrary: st) (auto simp: cuterm_putc_def split: prod.splits)

text \<open>What a list of graphic rendition parameters does to the colours.\<close>

definition sgr_fg :: "nat \<Rightarrow> rgb_t \<Rightarrow> rgb_t" where
  "sgr_fg p f =
     (if p = 0 then rgb 200 200 200
      else if 30 \<le> p \<and> p \<le> 37 then ansi_basic_colors ! (p - 30)
      else if p = 39 then rgb 255 255 255
      else if 90 \<le> p \<and> p \<le> 97 then ansi_basic_colors ! (p - 82)
      else f)"

definition sgr_bg :: "nat \<Rightarrow> rgb_t \<Rightarrow> rgb_t" where
  "sgr_bg p b =
     (if p = 0 \<or> p = 49 then rgb 0 0 0
      else if 40 \<le> p \<and> p \<le> 47 then ansi_basic_colors ! (p - 40)
      else if 100 \<le> p \<and> p \<le> 107 then ansi_basic_colors ! (p - 92)
      else b)"

function sgr_colors :: "nat list \<Rightarrow> rgb_t \<Rightarrow> rgb_t \<Rightarrow> rgb_t \<times> rgb_t" where
  "sgr_colors ps f b =
     (case ps of
        [] \<Rightarrow> (f, b)
      | p # rest \<Rightarrow>
          if p \<in> {38, 48} \<and> 2 \<le> length rest \<and> rest ! 0 = 5
          then (let c = ansi_256_to_rgb (of_nat (rest ! 1)) in
                if p = 38 then sgr_colors (drop 2 rest) c b else sgr_colors (drop 2 rest) f c)
          else sgr_colors rest (sgr_fg p f) (sgr_bg p b))"
  by pat_completeness auto
termination
  by (relation "measure (\<lambda>(ps, f, b). length ps)") auto

declare sgr_colors.simps [simp del]

lemma chr_simps [simp]: "chr (char_of n) = n mod 256" "chr CHR '';'' = 59" "chr CHR ''m'' = 109" "chr CHR ''['' = 91"
  by (simp_all add: chr_def)

lemma feed_digit:
  assumes "ansi_state st = ANSI_STATE_CSI" "d < 10" "0 \<le> ansi_cur_param st" "ansi_cur_param st * 10 + int d < 2 ^ 31"
  shows "ansi_feed (char_of (48 + d)) st = (st\<lparr>ansi_cur_param := ansi_cur_param st * 10 + int d, ansi_has_digit := True\<rparr>, True)"
proof -
  have "- (2 ^ 31) \<le> ansi_cur_param st * 10 + int d" using assms(3) by simp
  then have "signed_take_bit 31 (ansi_cur_param st * 10 + int d) = ansi_cur_param st * 10 + int d"
    using assms(4) by (simp add: signed_take_bit_int_eq_self_iff)
  then show ?thesis using assms(1,2) by (simp add: ansi_feed_def)
qed

lemma feed_decimal:
  assumes "ansi_state st = ANSI_STATE_CSI" "n < 2 ^ 31" "ansi_cur_param st = 0"
  shows "feed_all (decimal n) st = (st\<lparr>ansi_cur_param := int n, ansi_has_digit := True\<rparr>, True)"
  using assms
proof (induction n rule: decimal.induct)
  case (1 n)
  show ?case
  proof (cases "n < 10")
    case True
    then show ?thesis using feed_digit [of st n] 1 by (simp add: decimal.simps [of n])
  next
    case False
    let ?s = "st\<lparr>ansi_cur_param := int (n div 10), ansi_has_digit := True\<rparr>"
    have ih: "feed_all (decimal (n div 10)) st = (?s, True)" using 1 False by auto
    have n: "int (n div 10) * 10 + int (n mod 10) = int n" by (simp add: zdiv_int zmod_int)
    have "ansi_feed (char_of (48 + n mod 10)) ?s = (st\<lparr>ansi_cur_param := int n, ansi_has_digit := True\<rparr>, True)"
      using feed_digit [of ?s "n mod 10"] 1 n by simp
    then show ?thesis using False by (subst decimal.simps) (simp add: feed_all_append [OF ih])
  qed
qed

text \<open>The parameters read so far are \<open>qs\<close>.\<close>

definition params_are :: "cuterm_state_t \<Rightarrow> nat list \<Rightarrow> bool" where
  "params_are st qs \<longleftrightarrow> ansi_param_count st = int (length qs) \<and> take (length qs) (ansi_params st) = map int qs \<and> length (ansi_params st) = 16"

text \<open>What a sequence leaves alone before its last character.\<close>

definition reading :: "cuterm_state_t \<Rightarrow> cuterm_state_t \<Rightarrow> bool" where
  "reading st st' \<longleftrightarrow> fb_info st' = fb_info st \<and> cursor_x st' = cursor_x st \<and> cursor_y st' = cursor_y st \<and>
     cur_fg st' = cur_fg st \<and> cur_bg st' = cur_bg st \<and> vram st' = vram st"

lemma reading_trans: "reading a b \<Longrightarrow> reading b c \<Longrightarrow> reading a c"
  by (auto simp: reading_def)

lemma push_param:
  assumes "params_are st qs" "length qs < 16" "ansi_has_digit st" "ansi_cur_param st = int p"
  shows "params_are (ansi_push_param st) (qs @ [p])" "ansi_cur_param (ansi_push_param st) = 0" "reading st (ansi_push_param st)"
  using assms list_update_length [of "map int qs" "ansi_params st ! length qs" "[]" "int p"]
  by (auto simp: params_are_def ansi_push_param_def Let_def ANSI_MAX_PARAMS_def take_Suc_conv_app_nth take_update_swap reading_def)

lemma feed_params:
  assumes "ansi_state st = ANSI_STATE_CSI" "params_are st qs" "ansi_cur_param st = 0" "ps \<noteq> []" "length qs + length ps \<le> 16" "\<forall>p\<in>set ps. p < 2 ^ 31"
  shows "\<exists>st'. reading st st' \<and> params_are st' (qs @ ps) \<and> feed_all (sgr_text ps) st = ((ansi_apply_sgr st')\<lparr>ansi_state := ANSI_STATE_NORMAL\<rparr>, True)"
  using assms
proof (induction ps arbitrary: st qs rule: sgr_text.induct)
  case (2 p)
  let ?s = "st\<lparr>ansi_cur_param := int p, ansi_has_digit := True\<rparr>"
  have f: "feed_all (decimal p) st = (?s, True)" using 2 by (intro feed_decimal) auto
  have q: "params_are ?s qs" using 2 by (simp add: params_are_def)
  note pp = push_param [of ?s qs p, OF q]
  have "reading st (ansi_push_param ?s)" using pp(3) 2 by (simp add: reading_def)
  moreover have "feed_all (sgr_text [p]) st = ((ansi_apply_sgr (ansi_push_param ?s))\<lparr>ansi_state := ANSI_STATE_NORMAL\<rparr>, True)"
    using 2 by (simp add: feed_all_append [OF f] ansi_feed_def Let_def)
  ultimately show ?case using pp(1) 2 by (intro exI [of _ "ansi_push_param ?s"]) simp
next
  case (3 p q ps)
  let ?s = "st\<lparr>ansi_cur_param := int p, ansi_has_digit := True\<rparr>"
  let ?t = "ansi_push_param ?s"
  have f: "feed_all (decimal p) st = (?s, True)" using 3 by (intro feed_decimal) auto
  have pq: "params_are ?s qs" using 3 by (simp add: params_are_def)
  note pp = push_param [of ?s qs p, OF pq]
  have r: "reading st ?t" using pp(3) 3 by (simp add: reading_def)
  have "ansi_state ?t = ANSI_STATE_CSI" using 3 by (simp add: ansi_push_param_def Let_def)
  then obtain st' where st': "reading ?t st'" "params_are st' ((qs @ [p]) @ q # ps)"
    "feed_all (sgr_text (q # ps)) ?t = ((ansi_apply_sgr st')\<lparr>ansi_state := ANSI_STATE_NORMAL\<rparr>, True)"
    using 3(1) [of ?t "qs @ [p]"] pp(1,2) 3(2-) by auto
  have "feed_all (sgr_text (p # q # ps)) st = feed_all (sgr_text (q # ps)) ?t"
    using 3 by (simp add: feed_all_append [OF f] ansi_feed_def split: prod.splits)
  then show ?case using st' reading_trans [OF r] by auto
qed simp

text \<open>The loop over the stored parameters computes the colours.\<close>

lemma param_at: "params_are st ps \<Longrightarrow> i < length ps \<Longrightarrow> ansi_params st ! i = int (ps ! i)"
  unfolding params_are_def by (metis nth_take nth_map)

lemma sgr_step_params: "ansi_params (fst (sgr_step i st)) = ansi_params st"
  by (simp add: sgr_step_def Let_def ansi_reset_colors_def)

lemma sgr_step_basic:
  assumes "ansi_params st ! i = int p" and "\<not> (p \<in> {38, 48} \<and> int i + 2 < ansi_param_count st \<and> ansi_params st ! (i + 1) = 5)"
  shows "cur_fg (fst (sgr_step (int i) st)) = sgr_fg p (cur_fg st)" "cur_bg (fst (sgr_step (int i) st)) = sgr_bg p (cur_bg st)"
    "snd (sgr_step (int i) st) = int i"
proof -
  have n: "nat (int i + 1) = i + 1" "nat (int i + 2) = i + 2" by simp_all
  have m: "nat (int p - 30) = p - 30" "nat (int p - 40) = p - 40" by simp_all
  have k: "nat (int p - 82) = p - 82" "nat (int p - 92) = p - 92" by simp_all
  show "cur_fg (fst (sgr_step (int i) st)) = sgr_fg p (cur_fg st)" "cur_bg (fst (sgr_step (int i) st)) = sgr_bg p (cur_bg st)"
    "snd (sgr_step (int i) st) = int i"
    using assms(2) unfolding sgr_step_def Let_def nat_int assms(1) n m sgr_fg_def sgr_bg_def
    by (auto simp: ansi_reset_colors_def k)
qed

lemma sgr_step_256:
  assumes "ansi_params st ! i = int p" and "p \<in> {38, 48}" and "int i + 2 < ansi_param_count st" and "ansi_params st ! (i + 1) = 5"
    and "ansi_params st ! (i + 2) = int c"
  shows "sgr_step (int i) st = (if p = 38 then st\<lparr>cur_fg := ansi_256_to_rgb (of_nat c)\<rparr> else st\<lparr>cur_bg := ansi_256_to_rgb (of_nat c)\<rparr>, int i + 2)"
proof -
  have e: "nat (int i + 1) = i + 1" "nat (int i + 2) = i + 2" by simp_all
  have w: "(word_of_int (int c) :: u8) = of_nat c" by simp
  consider "int p = 38" "p = 38" | "int p = 48" "p \<noteq> 38" using assms(2) by auto
  then show ?thesis
    unfolding sgr_step_def Let_def nat_int e assms(1,4,5) w
    by cases (simp_all only: assms(3) if_True if_False simp_thms, simp_all)
qed

lemma sgr_loop_colors:
  "params_are st ps \<Longrightarrow> i \<le> length ps \<Longrightarrow>
     (cur_fg (sgr_loop (int i) st), cur_bg (sgr_loop (int i) st)) = sgr_colors (drop i ps) (cur_fg st) (cur_bg st)"
proof (induction "length ps - i" arbitrary: i st rule: less_induct)
  case less
  note cnt = less.prems(1) [unfolded params_are_def, THEN conjunct1]
  show ?case
  proof (cases "i = length ps")
    case True
    then show ?thesis using cnt by (simp add: sgr_loop.simps sgr_colors.simps)
  next
    case False
    then have i: "i < length ps" using less.prems(2) by simp
    then have lt: "int i < ansi_param_count st" using cnt by simp
    let ?s = "fst (sgr_step (int i) st)"
    have pa: "params_are ?s ps" using less.prems(1) by (simp add: params_are_def sgr_step_params)
    have loop: "sgr_loop (int i) st = sgr_loop (snd (sgr_step (int i) st) + 1) ?s"
      using lt by (subst sgr_loop.simps) simp
    have d: "drop i ps = ps ! i # drop (Suc i) ps" using i by (rule Cons_nth_drop_Suc [symmetric])
    note pi = param_at [OF less.prems(1) i]
    have cond: "2 \<le> length (drop (Suc i) ps) \<and> drop (Suc i) ps ! 0 = 5 \<longleftrightarrow>
        int i + 2 < ansi_param_count st \<and> ansi_params st ! (i + 1) = 5"
      using cnt param_at [OF less.prems(1), of "i + 1"] by auto
    show ?thesis
    proof (cases "ps ! i \<in> {38, 48} \<and> int i + 2 < ansi_param_count st \<and> ansi_params st ! (i + 1) = 5")
      case True
      then have l: "i + 2 < length ps" using cnt by simp
      note st = sgr_step_256 [OF pi _ _ _ param_at [OF less.prems(1) l]]
      have n: "int i + 2 + 1 = int (i + 3)" by simp
      have dd: "drop 2 (drop (Suc i) ps) = drop (i + 3) ps" "drop (Suc i) ps ! 1 = ps ! (i + 2)"
        using l by (simp_all add: add.commute numeral_3_eq_3)
      have ih: "(cur_fg (sgr_loop (int (i + 3)) ?s), cur_bg (sgr_loop (int (i + 3)) ?s)) = sgr_colors (drop (i + 3) ps) (cur_fg ?s) (cur_bg ?s)"
        using l by (intro less.hyps pa) simp_all
      show ?thesis
        unfolding loop using True st ih cond dd
        by (subst sgr_colors.simps) (auto simp: d n Let_def)
    next
      case False
      note st = sgr_step_basic [OF pi False]
      have n: "int i + 1 = int (Suc i)" by simp
      have "(cur_fg (sgr_loop (int (Suc i)) ?s), cur_bg (sgr_loop (int (Suc i)) ?s)) = sgr_colors (drop (Suc i) ps) (cur_fg ?s) (cur_bg ?s)"
        using i by (intro less.hyps pa) simp_all
      then show ?thesis
        unfolding loop st n using False cond by (subst sgr_colors.simps) (auto simp: d)
    qed
  qed
qed

lemma column_test:
  assumes "term_ok st"
  shows "width (fb_info st) div 8 \<le> ucast (of_int (cursor_x st + 1) :: u32) \<longleftrightarrow> unat (width (fb_info st)) div 8 \<le> nat (cursor_x st) + 1"
proof -
  have c: "0 \<le> cursor_x st" "nat (cursor_x st) < unat (width (fb_info st)) div 8" "unat (width (fb_info st)) < 2 ^ 28"
    using assms by (auto simp: term_ok_def text_cell_def fb_ok_def)
  then have n: "nat (cursor_x st) + 1 < 2 ^ 32" by simp
  have "(of_int (cursor_x st + 1) :: u32) = of_nat (nat (cursor_x st) + 1)" using c(1) by simp
  then have "unat (ucast (of_int (cursor_x st + 1) :: u32) :: u64) = nat (cursor_x st) + 1"
    using n unat_of_nat_small [of "nat (cursor_x st) + 1", where 'a = 32] by (simp add: unat_ucast_up del: of_int_add of_nat_add)
  then show ?thesis by (simp add: word_le_nat_alt unat_div)
qed

lemma putc_drawn:
  assumes ok: "term_ok st" and c: "ansi_state st = ANSI_STATE_NORMAL" "chr c \<noteq> 0x1B" "chr c \<noteq> 10"
  defines "wraps \<equiv> unat (width (fb_info st)) div 8 \<le> nat (cursor_x st) + 1"
    and "bottom \<equiv> unat (height (fb_info st)) div 16 \<le> nat (cursor_y st) + 1"
  shows "\<exists>m'. cuterm_putc font c st = Inr (st\<lparr>cursor_x := (if wraps then 0 else cursor_x st + 1),
      cursor_y := (if wraps \<and> \<not> bottom then cursor_y st + 1 else cursor_y st), vram := m'\<rparr>) \<and>
    (\<forall>a. \<not> on_screen (fb_info st) a \<longrightarrow> m' a = vram st a) \<and>
    (\<forall>x < unat (width (fb_info st)). \<forall>y < unat (height (fb_info st)). pix (fb_info st) m' x y =
      (if wraps \<and> bottom then scrolled st (with_glyph font c st) x y else with_glyph font c st x y))"
proof -
  have o: "fb_ok (fb_info st)" "text_cell st" using ok by (auto simp: term_ok_def)
  obtain m1 where d: "draw_char font c st = st\<lparr>vram := m1\<rparr>" using draw_char_shows(1) [OF o] by (auto simp: same_but_vram_def)
  have m1: "\<forall>a. \<not> on_screen (fb_info st) a \<longrightarrow> m1 a = vram st a"
    "\<forall>x < unat (width (fb_info st)). \<forall>y < unat (height (fb_info st)). pix (fb_info st) m1 x y = with_glyph font c st x y"
    using draw_char_shows(2) [OF o, of font c] draw_char_shows(3) [OF o, of _ font c] by (auto simp: d displays_def)
  have f: "ansi_feed c st = (st, False)" using c by (simp add: ansi_feed_def)
  show ?thesis
  proof (cases wraps)
    case False
    then have "cuterm_putc font c st = Inr (st\<lparr>cursor_x := cursor_x st + 1, vram := m1\<rparr>)"
      using c f column_test [OF ok] by (simp add: cuterm_putc_def d Let_def CUTERM_CHAR_WIDTH_def wraps_def)
    then show ?thesis using False m1 by (intro exI [of _ m1]) simp
  next
    case True
    let ?s = "st\<lparr>vram := m1, cursor_x := 0\<rparr>"
    obtain m' where m': "cuterm_newline ?s = Inr (?s\<lparr>cursor_y := (if bottom then cursor_y st else cursor_y st + 1), vram := m'\<rparr>)"
      "\<forall>a. \<not> on_screen (fb_info st) a \<longrightarrow> m' a = m1 a"
      "\<forall>px < unat (width (fb_info st)). \<forall>py < unat (height (fb_info st)).
         pix (fb_info st) m' px py = (if bottom then scrolled ?s (pix (fb_info st) m1) px py else pix (fb_info st) m1 px py)"
      using newline_spec [of ?s] o by (auto simp: text_cell_def bottom_def cong: if_cong)
    have "cuterm_putc font c st = cuterm_newline ?s"
      using c f True column_test [OF ok] by (simp add: cuterm_putc_def d Let_def CUTERM_CHAR_WIDTH_def wraps_def)
    moreover have "scrolled ?s (pix (fb_info st) m1) x y = scrolled st (with_glyph font c st) x y"
      if "x < unat (width (fb_info st))" "y < unat (height (fb_info st))" for x y
      using that m1(2) by (simp add: scrolled_def pack_color_def)
    ultimately show ?thesis using True m'(2,3) m1 unfolding m'(1) by (intro exI [of _ m']) simp
  qed
qed

section \<open>Properties\<close>

text \<open>
  C28. On a well-formed terminal \<^verbatim>\<open>cuterm_putc\<close> never panics whatever character it gets, in text or in an escape
  sequence: the cursor stays on the screen, the parameter buffer is not overrun, and no byte outside the framebuffer changes.
\<close>

theorem cuterm_putc_safe:
  assumes "term_ok st"
  shows "\<exists>st'. cuterm_putc font c st = Inr st' \<and> term_ok st' \<and> fb_info st' = fb_info st \<and>
    (\<forall>a. \<not> on_screen (fb_info st) a \<longrightarrow> vram st' a = vram st a)"
proof -
  note f = ansi_feed_frame [OF assms, of c]
  consider "snd (ansi_feed c st)" | "\<not> snd (ansi_feed c st)" "chr c = 10" | "\<not> snd (ansi_feed c st)" "chr c \<noteq> 10" by blast
  then show ?thesis
  proof cases
    case 1
    then have "cuterm_putc font c st = Inr (fst (ansi_feed c st))" by (cases "ansi_feed c st") (simp add: cuterm_putc_def)
    then show ?thesis using f by simp
  next
    case 2
    let ?s = "(fst (ansi_feed c st))\<lparr>cursor_x := 0\<rparr>"
    have "fb_ok (fb_info ?s)" "0 \<le> cursor_y ?s" "nat (cursor_y ?s) < unat (height (fb_info ?s)) div 16" using f assms by (auto simp: term_ok_def text_cell_def)
    note n = newline_spec [OF this]
    define y' where "y' = (if unat (height (fb_info ?s)) div 16 \<le> nat (cursor_y ?s) + 1 then cursor_y ?s else cursor_y ?s + 1)"
    from n obtain m' where "cuterm_newline ?s = Inr (?s\<lparr>cursor_y := y', vram := m'\<rparr>)" "\<forall>a. \<not> on_screen (fb_info ?s) a \<longrightarrow> m' a = vram ?s a"
      unfolding y'_def by blast
    moreover have "0 \<le> y'" "nat y' < unat (height (fb_info st)) div 16" using f assms by (auto simp: y'_def term_ok_def text_cell_def)
    moreover have "cuterm_putc font c st = cuterm_newline ?s" using 2 by (cases "ansi_feed c st") (simp add: cuterm_putc_def)
    moreover have "8 \<le> unat (width (fb_info st))" using assms by (simp add: term_ok_def fb_ok_def)
    ultimately show ?thesis using f assms by (auto simp: term_ok_def text_cell_def)
  next
    case 3
    then have n: "ansi_state st = ANSI_STATE_NORMAL" "chr c \<noteq> 0x1B" by (auto simp: ansi_feed_def Let_def split: ansi_state_t.splits if_splits)
    have "8 \<le> unat (width (fb_info st))" using assms by (simp add: term_ok_def fb_ok_def)
    then show ?thesis using putc_drawn [OF assms n 3(2), of font] assms by (auto simp: term_ok_def text_cell_def)
  qed
qed

text \<open>
  C29. A character outside escape sequences other than a newline is drawn: the pixels of the cell under the cursor show the glyph in the
  current colours and all others keep theirs; the cursor moves to the next cell, at the end of a row to the next row; at the
  end of the last row the picture moves up by one text row and the row that appears has the background colour.
\<close>

theorem cuterm_putc_draws:
  assumes "term_ok st" and "ansi_state st = ANSI_STATE_NORMAL" and "chr c \<noteq> 0x1B" and "chr c \<noteq> 10"
  shows "\<exists>st'. cuterm_putc font c st = Inr st' \<and>
    (let wraps = unat (width (fb_info st)) div 8 \<le> nat (cursor_x st) + 1;
         bottom = unat (height (fb_info st)) div 16 \<le> nat (cursor_y st) + 1 in
     cursor_x st' = (if wraps then 0 else cursor_x st + 1) \<and>
     cursor_y st' = (if wraps \<and> \<not> bottom then cursor_y st + 1 else cursor_y st) \<and>
     displays st' (if wraps \<and> bottom then scrolled st (with_glyph font c st) else with_glyph font c st))"
  using putc_drawn [OF assms, of font] by (auto simp: displays_def Let_def)

text \<open>
  C30. Every character of the sequence \<^verbatim>\<open>ESC [ p ; ... ; p m\<close>, with one to 16 decimal parameters below \<open>2 ^ 31\<close>, is
  consumed: writing it draws nothing, leaves the cursor and the framebuffer alone and ends outside escape sequences.
  The parameters are stored as written, and the colours change exactly as they say, from left to right: 0
  resets both, 30 to 37 and 90 to 97 choose a foreground, 40 to 47 and 100 to 107 a background, 39 and 49 the
  defaults, \<^verbatim>\<open>38;5;n\<close> and \<^verbatim>\<open>48;5;n\<close> one of 256 colours; other parameters change nothing.
\<close>

theorem ansi_sgr_roundtrip:
  assumes "ansi_state st = ANSI_STATE_NORMAL" and "length (ansi_params st) = 16" and "ps \<noteq> []" and "length ps \<le> 16" and "\<forall>p\<in>set ps. p < 2 ^ 31"
  shows "\<exists>st'. feed_all (char_of (0x1B :: nat) # ''['' @ sgr_text ps) st = (st', True) \<and>
    putc_all font (char_of (0x1B :: nat) # ''['' @ sgr_text ps) st = Inr st' \<and>
    fb_info st' = fb_info st \<and> vram st' = vram st \<and> cursor_x st' = cursor_x st \<and> cursor_y st' = cursor_y st \<and>
    ansi_state st' = ANSI_STATE_NORMAL \<and>
    ansi_param_count st' = int (length ps) \<and> take (length ps) (ansi_params st') = map int ps \<and>
    (cur_fg st', cur_bg st') = sgr_colors ps (cur_fg st) (cur_bg st)"
proof -
  let ?s = "st\<lparr>ansi_state := ANSI_STATE_CSI, ansi_param_count := 0, ansi_cur_param := 0, ansi_has_digit := False\<rparr>"
  let ?seq = "char_of (0x1B :: nat) # ''['' @ sgr_text ps"
  have s: "feed_all ?seq st = feed_all (sgr_text ps) ?s"
    using assms(1) by (simp add: ansi_feed_def split: prod.splits)
  have "params_are ?s []" using assms(2) by (simp add: params_are_def)
  then obtain r where r: "reading ?s r" "params_are r ps"
    "feed_all (sgr_text ps) ?s = ((ansi_apply_sgr r)\<lparr>ansi_state := ANSI_STATE_NORMAL\<rparr>, True)"
    using feed_params [of ?s "[]" ps] assms(3-5) by auto
  have "ansi_param_count r \<noteq> 0" using r(2) assms(3) by (simp add: params_are_def)
  then have a: "ansi_apply_sgr r = sgr_loop (int 0) r" by (simp add: ansi_apply_sgr_def)
  obtain f b where l: "sgr_loop (int 0) r = r\<lparr>cur_fg := f, cur_bg := b\<rparr>" using sgr_loop_frame by blast
  have c: "(f, b) = sgr_colors ps (cur_fg st) (cur_bg st)"
    using sgr_loop_colors [OF r(2), of 0] r(1) unfolding l by (simp add: reading_def)
  let ?e = "(r\<lparr>cur_fg := f, cur_bg := b\<rparr>)\<lparr>ansi_state := ANSI_STATE_NORMAL\<rparr>"
  have fed: "feed_all ?seq st = (?e, True)" using s r(3) a l by simp
  show ?thesis
    using fed putc_consumed [OF fed] r(1,2) c by (intro exI [of _ ?e]) (simp add: reading_def params_are_def)
qed

definition demo_fb :: linear_framebuffer_t where
  "demo_fb = \<lparr>address = 0x10000, width = 16, height = 32, pitch = 64, bpp = 32,
     pixelf = \<lparr>red_size = 8, red_shift = 16, green_size = 8, green_shift = 8, blue_size = 8, blue_shift = 0\<rparr>, memory_model = 1\<rparr>"

definition demo_term :: cuterm_state_t where
  "demo_term = g_cuterm_state demo_fb (\<lambda>_. 0)"

lemma demo_term_ok: "term_ok demo_term" "ansi_state demo_term = ANSI_STATE_NORMAL" "length (ansi_params demo_term) = 16"
  by (simp_all add: term_ok_def fb_ok_def text_cell_def cell_def demo_term_def demo_fb_def g_cuterm_state_def)

theorem cuterm_putc_safe_witness:
  "\<exists>st'. cuterm_putc (\<lambda>_. 0) CHR ''a'' demo_term = Inr st' \<and> term_ok st' \<and> fb_info st' = fb_info demo_term \<and>
    (\<forall>a. \<not> on_screen (fb_info demo_term) a \<longrightarrow> vram st' a = vram demo_term a)"
  by (rule cuterm_putc_safe [OF demo_term_ok(1)])

theorem cuterm_putc_draws_witness:
  "\<exists>st'. cuterm_putc (\<lambda>_. 0x81) CHR ''a'' demo_term = Inr st' \<and> cursor_x st' = 1 \<and> cursor_y st' = 0 \<and>
    displays st' (with_glyph (\<lambda>_. 0x81) CHR ''a'' demo_term)"
proof -
  have "chr CHR ''a'' = 97" by (simp add: chr_def)
  then show ?thesis
    using cuterm_putc_draws [OF demo_term_ok(1,2), of "CHR ''a''" "\<lambda>_. 0x81"]
    by (simp add: demo_term_def demo_fb_def g_cuterm_state_def)
qed

lemma demo_small: "(3::nat) \<le> 16" "\<forall>p\<in>set [38, 5, 208 :: nat]. p < 2 ^ 31"
  by simp_all

theorem ansi_sgr_roundtrip_witness:
  "\<exists>st'. putc_all (\<lambda>_. 0) (char_of (0x1B :: nat) # ''['' @ ''38;5;208m'') demo_term = Inr st' \<and>
    vram st' = vram demo_term \<and> cursor_x st' = 0 \<and> cur_fg st' = rgb 255 135 0 \<and> cur_bg st' = rgb 0 0 0"
proof -
  have t: "sgr_text [38, 5, 208] = ''38;5;208m''" by (simp add: decimal.simps) (simp add: char_of_def bit_0)
  have c: "sgr_colors [38, 5, 208] (cur_fg demo_term) (cur_bg demo_term) = (rgb 255 135 0, rgb 0 0 0)"
    by (simp add: sgr_colors.simps ansi_256_to_rgb_def ansi_cube_levels_def demo_term_def g_cuterm_state_def Let_def)
  have "cursor_x demo_term = 0" by (simp add: demo_term_def g_cuterm_state_def)
  then show ?thesis
    using ansi_sgr_roundtrip [OF demo_term_ok(2,3), of "[38, 5, 208]" "\<lambda>_. 0"] demo_small unfolding t c by auto
qed

end
