(* ===== verification/Irq.thy ===== *)
theory Irq
  imports Stdio CharDev Registry
begin

text \<open>
  Interrupts and processor tables: the assembly stubs, descriptor tables, dispatch and the exception report
  of \<^verbatim>\<open>src/cpu/IDT.c\<close>, \<^verbatim>\<open>src/cpu/IRQHL.h\<close> and \<^verbatim>\<open>src/cpu/IRQ.h\<close>, and \<^verbatim>\<open>src/cpu/GDT.c\<close>, \<^verbatim>\<open>src/cpu/MSR.c\<close>.

  The stubs are lists of instructions of a small machine: the general registers, the segment and control
  registers that the stubs read, and the stack as a store of aligned 64-bit words. The arithmetic flags are not
  tracked, because the stubs never read them and \<^verbatim>\<open>iretq\<close> replaces them. The compiler loads the operand \<^verbatim>\<open>%0\<close>
  of an interrupt stub into a register of its choice before the first instruction; that register is an argument.
  What a called function does is the argument \<open>callf\<close>.
\<close>

section \<open>The machine\<close>

datatype reg = RAX | RBX | RCX | RDX | RSI | RDI | RBP | RSP | R8 | R9 | R10 | R11 | R12 | R13 | R14 | R15

datatype seg = DS | ES | FS | GS

record cpu =
  gpr :: "reg \<Rightarrow> u64"
  seg_reg :: "seg \<Rightarrow> u16"
  cr2 :: u64
  cr3 :: u64
  cr4 :: u64
  rip :: u64
  cs :: u64
  rflags :: u64
  ss :: u64
  stk :: "u64 \<Rightarrow> u64"

datatype instr =
    PUSH reg | PUSHI u64 | POP reg | MOV reg reg | MOVI reg u64 | XORQ reg reg | ANDI reg u64 | ADDI reg u64 | SUBI reg u64
  | MOVW_SEG seg | MOV_CR2 | MOV_CR3 | MOV_CR4 | CALL reg | CALLI u64 | IRETQ

definition push :: "u64 \<Rightarrow> cpu \<Rightarrow> cpu" where
  "push v st = st\<lparr>gpr := (gpr st)(RSP := gpr st RSP - 8), stk := (stk st)(gpr st RSP - 8 := v)\<rparr>"

definition set_reg :: "reg \<Rightarrow> u64 \<Rightarrow> cpu \<Rightarrow> cpu" where
  "set_reg r v st = st\<lparr>gpr := (gpr st)(r := v)\<rparr>"

text \<open>
  \<open>callf a\<close> is the effect of the function at address \<open>a\<close>, from its entry with the return address on the
  stack to after its return. \<^verbatim>\<open>MOVW_SEG\<close> is \<^verbatim>\<open>movw %seg, %ax\<close>, the control registers are read into \<^verbatim>\<open>rax\<close>.
\<close>

fun exec1 :: "(u64 \<Rightarrow> cpu \<Rightarrow> cpu) \<Rightarrow> instr \<Rightarrow> cpu \<Rightarrow> cpu" where
  "exec1 callf (PUSH r) st = push (gpr st r) st"
| "exec1 callf (PUSHI v) st = push v st"
| "exec1 callf (POP r) st = set_reg r (stk st (gpr st RSP)) (set_reg RSP (gpr st RSP + 8) st)"
| "exec1 callf (MOV d s) st = set_reg d (gpr st s) st"
| "exec1 callf (MOVI d v) st = set_reg d v st"
| "exec1 callf (XORQ d s) st = set_reg d (gpr st d XOR gpr st s) st"
| "exec1 callf (ANDI d v) st = set_reg d (gpr st d AND v) st"
| "exec1 callf (ADDI d v) st = set_reg d (gpr st d + v) st"
| "exec1 callf (SUBI d v) st = set_reg d (gpr st d - v) st"
| "exec1 callf (MOVW_SEG s) st = set_reg RAX ((gpr st RAX AND NOT 0xFFFF) OR ucast (seg_reg st s)) st"
| "exec1 callf MOV_CR2 st = set_reg RAX (cr2 st) st"
| "exec1 callf MOV_CR3 st = set_reg RAX (cr3 st) st"
| "exec1 callf MOV_CR4 st = set_reg RAX (cr4 st) st"
| "exec1 callf (CALL r) st = callf (gpr st r) (push (rip st) st)"
| "exec1 callf (CALLI a) st = callf a (push (rip st) st)"
| "exec1 callf IRETQ st =
     (let sp = gpr st RSP in
      st\<lparr>gpr := (gpr st)(RSP := stk st (sp + 24)), rip := stk st sp, cs := stk st (sp + 8), rflags := stk st (sp + 16), ss := stk st (sp + 32)\<rparr>)"

fun exec :: "(u64 \<Rightarrow> cpu \<Rightarrow> cpu) \<Rightarrow> instr list \<Rightarrow> cpu \<Rightarrow> cpu" where
  "exec callf [] st = st"
| "exec callf (i # is) st = exec callf is (exec1 callf i st)"

text \<open>What the processor does when it accepts an interrupt in kernel mode: it aligns the stack and pushes the frame, with an error code for some exceptions.\<close>

definition interrupt :: "u64 option \<Rightarrow> cpu \<Rightarrow> cpu" where
  "interrupt err st =
     (let sp = gpr st RSP;
          s = fold push [ss st, sp, rflags st, cs st, rip st] (set_reg RSP (sp AND NOT 0xF) st) in
      case err of None \<Rightarrow> s | Some e \<Rightarrow> push e s)"

section \<open>Stubs\<close>

definition saved_regs :: "reg list" where
  "saved_regs = [RAX, RBX, RCX, RDX, RSI, RDI, RBP, R8, R9, R10, R11, R12, R13, R14, R15]"

text \<open>\<^verbatim>\<open>DEF_IRQ_HANDLER(index, target)\<close>; \<open>op\<close> is the register of the operand \<^verbatim>\<open>%0\<close>.\<close>

definition irq_prologue :: "reg \<Rightarrow> u64 \<Rightarrow> u64 \<Rightarrow> instr list" where
  "irq_prologue op index target =
     [MOVI op target, PUSHI index] @ map PUSH saved_regs @ replicate 7 (PUSHI 0) @
     [MOV RDI RSP, MOV RBP RSP, ANDI RSP (- 16), SUBI RSP 8, MOV RAX op]"

definition irq_epilogue :: "instr list" where
  "irq_epilogue = [MOV RSP RAX, ADDI RSP 56] @ map POP (rev saved_regs) @ [ADDI RSP 8, IRETQ]"

definition irq_stub :: "reg \<Rightarrow> u64 \<Rightarrow> u64 \<Rightarrow> instr list" where
  "irq_stub op index target = irq_prologue op index target @ [CALL RAX] @ irq_epilogue"

text \<open>\<^verbatim>\<open>DEF_EXCEPTION_HANDLER(index, name, has_err)\<close>; \<open>name\<close> is the address of the string, \<open>main\<close> that of \<^verbatim>\<open>exception_main\<close>.\<close>

definition exception_prologue :: "u64 \<Rightarrow> bool \<Rightarrow> instr list" where
  "exception_prologue name has_err =
     (if has_err then [] else [PUSHI 0]) @ map PUSH saved_regs @
     [XORQ RAX RAX, MOVW_SEG GS, PUSH RAX, MOVW_SEG FS, PUSH RAX, MOVW_SEG ES, PUSH RAX, MOVW_SEG DS, PUSH RAX,
      MOV_CR4, PUSH RAX, MOV_CR3, PUSH RAX, MOV_CR2, PUSH RAX, MOV RDI RSP, MOVI RSI name, ANDI RSP (- 16)]"

definition exception_stub :: "u64 \<Rightarrow> bool \<Rightarrow> u64 \<Rightarrow> instr list" where
  "exception_stub name has_err main = exception_prologue name has_err @ [CALLI main]"

text \<open>The instances: names and error codes of the exceptions, and the target of the interrupt stubs.\<close>

definition exception_table :: "(string \<times> bool) list" where
  "exception_table =
     [(''Divide By Zero'', False), (''Debug'', False), (''Non-Maskable Interrupt'', False), (''Breakpoint'', False),
      (''Overflow'', False), (''Bound Range Exceeded'', False), (''Invalid Opcode'', False), (''Device Not Available'', False),
      (''Double Fault'', True), (''Coprocessor Segment Overrun'', False), (''Invalid TSS'', True), (''Segment Not Present'', True),
      (''Stack-Segment Fault'', True), (''General Protection Fault'', True), (''Page Fault'', True), (''Reserved'', False),
      (''x87 Floating-Point Exception'', False), (''Alignment Check'', True), (''Machine Check'', False),
      (''SIMD Floating-Point Exception'', False), (''Virtualization Exception'', False), (''Control Protection Exception'', True),
      (''Reserved'', False), (''Reserved'', False), (''Reserved'', False), (''Reserved'', False), (''Reserved'', False), (''Reserved'', False),
      (''Hypervisor Injection Exception'', False), (''VMM Communication Exception'', True), (''Security Exception'', True), (''Reserved'', False)]"

datatype irq_target = irq_dispatch_target | irq_drunk_target

datatype stub = Exception_stub nat | Irq_stub nat irq_target

definition irq_handlers :: "nat \<Rightarrow> stub" where
  "irq_handlers n = Irq_stub n irq_dispatch_target"

definition interrupt_handlers :: "stub option list" where
  "interrupt_handlers = map (\<lambda>n. Some (Exception_stub n)) [0..<32] @ map (\<lambda>n. Some (irq_handlers n)) [32..<255] @ [Some (Irq_stub 255 irq_drunk_target)]"

section \<open>Descriptor tables\<close>

record idt_entry =
  offset_low :: u16
  selector :: u16
  ist :: u8
  type_attr :: u8
  offset_mid :: u16
  offset_high :: u32
  idt_zero :: u32

definition idt_set_gate :: "nat \<Rightarrow> u64 \<Rightarrow> u16 \<Rightarrow> u8 \<Rightarrow> idt_entry list \<Rightarrow> idt_entry list" where
  "idt_set_gate n h sel flags idt =
     idt[n := \<lparr>offset_low = ucast (h AND 0xFFFF), selector = sel, ist = 0, type_attr = flags,
       offset_mid = ucast (drop_bit 16 h AND 0xFFFF), offset_high = ucast (drop_bit 32 h), idt_zero = 0\<rparr>]"

definition absent_gate :: idt_entry where
  "absent_gate = \<lparr>offset_low = 0, selector = 0, ist = 0, type_attr = 0, offset_mid = 0, offset_high = 0, idt_zero = 0\<rparr>"

text \<open>\<open>entry_of\<close> gives the address of a stub.\<close>

fun idt_loop :: "(stub \<Rightarrow> u64) \<Rightarrow> stub option list \<Rightarrow> nat \<Rightarrow> nat \<Rightarrow> idt_entry list \<Rightarrow> idt_entry list" where
  "idt_loop entry_of hs i 0 idt = idt"
| "idt_loop entry_of hs i (Suc k) idt = idt_loop entry_of hs (Suc i) k
     (case hs ! i of Some s \<Rightarrow> idt_set_gate i (entry_of s) 0x08 0x8E idt | None \<Rightarrow> idt[i := absent_gate])"

definition idt_init :: "(stub \<Rightarrow> u64) \<Rightarrow> idt_entry list \<Rightarrow> idt_entry list" where
  "idt_init entry_of idt = idt_loop entry_of interrupt_handlers 0 256 idt"

record gdt_entry =
  limit_low :: u16
  base_low :: u16
  base_mid :: u8
  access :: u8
  granularity :: u8
  base_high :: u8

definition gdt_set :: "nat \<Rightarrow> u32 \<Rightarrow> u32 \<Rightarrow> u8 \<Rightarrow> u8 \<Rightarrow> gdt_entry list \<Rightarrow> gdt_entry list" where
  "gdt_set i base limit acc gran gdt =
     gdt[i := \<lparr>limit_low = ucast (limit AND 0xFFFF), base_low = ucast (base AND 0xFFFF), base_mid = ucast (drop_bit 16 base AND 0xFF),
       access = acc, granularity = ucast (drop_bit 16 limit AND 0x0F) OR (gran AND 0xF0), base_high = ucast (drop_bit 24 base AND 0xFF)\<rparr>]"

definition gdt_init :: "gdt_entry list \<Rightarrow> gdt_entry list" where
  "gdt_init gdt = gdt_set 2 0 0xFFFFFFFF 0x92 0xA0 (gdt_set 1 0 0xFFFFFFFF 0x9A 0xA0 (gdt_set 0 0 0 0 0 gdt))"

text \<open>The limit fields of the table registers.\<close>

definition idtp_limit :: u16 where "idtp_limit = of_nat (256 * 16 - 1)"
definition gp_limit :: u16 where "gp_limit = of_nat (3 * 8 - 1)"

text \<open>Model specific registers: the instruction moves the halves in \<^verbatim>\<open>edx\<close> and \<^verbatim>\<open>eax\<close>.\<close>

definition read_msr :: "u32 \<Rightarrow> (u32 \<Rightarrow> u32 \<times> u32) \<Rightarrow> u64" where
  "read_msr msr msrs = (case msrs msr of (high, low) \<Rightarrow> push_bit 32 (ucast high) OR ucast low)"

definition WRITE_MSR :: "u32 \<Rightarrow> u64 \<Rightarrow> (u32 \<Rightarrow> u32 \<times> u32) \<Rightarrow> u32 \<Rightarrow> u32 \<times> u32" where
  "WRITE_MSR msr val msrs = msrs(msr := (ucast (drop_bit 32 val), ucast (val AND 0xFFFFFFFF)))"

section \<open>Handlers\<close>

definition MAX_HANDLERS_PER_VECTOR :: nat where "MAX_HANDLERS_PER_VECTOR = 4"

text \<open>
  A handler is the address of its code. The part of \<^verbatim>\<open>coreinfo_t\<close> that interrupts use; the table \<^verbatim>\<open>cpu_blocks\<close>
  has a core once it is initialised; its length is the build option \<^verbatim>\<open>SMP_MAX_CORES\<close>. The local controller is its
  address, the writes to its registers, oldest first, and the number of reads.
\<close>

record lapic_state =
  lapic_base :: u64
  cached_lapic_calibration :: u32
  lapic_writes :: "(u64 \<times> u32) list"
  lapic_reads :: nat

definition LAPIC_REG_EOI :: u32 where "LAPIC_REG_EOI = 0xB0"

definition lapic_write :: "u32 \<Rightarrow> u32 \<Rightarrow> lapic_state \<Rightarrow> lapic_state" where
  "lapic_write reg data l = l\<lparr>lapic_writes := lapic_writes l @ [(lapic_base l + ucast reg, data)]\<rparr>"

definition lapic_eoi :: "lapic_state \<Rightarrow> lapic_state" where
  "lapic_eoi l = (if lapic_base l \<noteq> 0 then lapic_write LAPIC_REG_EOI 0 l else l)"

record irq_vector_chain_t =
  handlers :: "u64 list"
  chain_count :: u8

record core_irqs =
  routines :: "irq_vector_chain_t list"
  irq_stats :: "u64 list"

record 'm irq_state =
  cpu_blocks :: "core_irqs option list"
  lapic :: lapic_state
  rest :: 'm

definition core_of :: "nat \<Rightarrow> 'm irq_state \<Rightarrow> core_irqs option" where
  "core_of c st = (if c < length (cpu_blocks st) then cpu_blocks st ! c else None)"

definition set_core :: "nat \<Rightarrow> core_irqs \<Rightarrow> 'm irq_state \<Rightarrow> 'm irq_state" where
  "set_core c k st = st\<lparr>cpu_blocks := (cpu_blocks st)[c := Some k]\<rparr>"

definition irq_install_handler :: "u32 \<Rightarrow> u8 \<Rightarrow> u64 \<Rightarrow> 'm irq_state \<Rightarrow> 'm irq_state outcome" where
  "irq_install_handler logical_id vector h st =
     (if length (cpu_blocks st) \<le> unat logical_id \<or> core_of (unat logical_id) st = None
      then Inl (Panic ''IRQ'' ''Attempted to install handler on uninitialized or invalid CPU'')
      else
        let target_cpu = the (core_of (unat logical_id) st);
            chain = routines target_cpu ! unat vector in
        if unat (chain_count chain) < MAX_HANDLERS_PER_VECTOR
        then Inr (set_core (unat logical_id) (target_cpu\<lparr>routines := (routines target_cpu)[unat vector :=
               chain\<lparr>handlers := (handlers chain)[unat (chain_count chain) := h], chain_count := chain_count chain + 1\<rparr>]\<rparr>) st)
        else Inl (Panic ''IRQ'' ''too many handlers sharing vector''))"

text \<open>
  \<open>run h tf\<close> is the effect of the handler at address \<open>h\<close>; a handler may panic, or return another frame or null.
  The loop reads the chain again in every round, because a handler may change it; \<open>my\<close> is the current core.
\<close>

definition chain_at :: "nat \<Rightarrow> nat \<Rightarrow> 'm irq_state \<Rightarrow> irq_vector_chain_t" where
  "chain_at my vector st = routines (the (core_of my st)) ! vector"

function dispatch_loop :: "(u64 \<Rightarrow> u64 \<Rightarrow> 'm irq_state \<Rightarrow> ('m irq_state \<times> u64) outcome) \<Rightarrow> nat \<Rightarrow> nat \<Rightarrow> u64 \<Rightarrow> nat \<Rightarrow> u64 \<Rightarrow> 'm irq_state \<Rightarrow> ('m irq_state \<times> u64) outcome" where
  "dispatch_loop run my vector tf i ret_tf st =
     (if i < unat (chain_count (chain_at my vector st)) then
        (case run (handlers (chain_at my vector st) ! i) tf st of
           Inl e \<Rightarrow> Inl e
         | Inr (st', temp_tf) \<Rightarrow> dispatch_loop run my vector tf (Suc i) (if temp_tf \<noteq> 0 then temp_tf else ret_tf) st')
      else Inr (st, ret_tf))"
  by pat_completeness auto

termination
proof (relation "measure (\<lambda>(run, my, vector, tf, i, ret_tf, st). 256 - i)", goal_cases)
  case (2 run my vector tf i ret_tf st e x y)
  have "i < 256" using 2(1) unat_bounds(1) [of "chain_count (chain_at my vector st)"] by linarith
  then show ?case by simp
qed simp

declare dispatch_loop.simps [simp del]

definition irq_dispatch :: "(u64 \<Rightarrow> u64 \<Rightarrow> 'm irq_state \<Rightarrow> ('m irq_state \<times> u64) outcome) \<Rightarrow> nat \<Rightarrow> u64 \<Rightarrow> u64 \<Rightarrow> 'm irq_state \<Rightarrow> ('m irq_state \<times> u64) outcome" where
  "irq_dispatch run my vector tf st =
     (let my_cpu = the (core_of my st);
          st1 = set_core my (my_cpu\<lparr>irq_stats := (irq_stats my_cpu)[unat vector := irq_stats my_cpu ! unat vector + 1]\<rparr>) st in
      and_then (dispatch_loop run my (unat vector) tf 0 tf st1) (\<lambda>(st2, ret_tf). Inr (st2\<lparr>lapic := lapic_eoi (lapic st2)\<rparr>, ret_tf)))"

text \<open>
  The exception report, written to every registered character device that can show errors; \<open>dev_at\<close> gives the
  device at an address and \<open>tf\<close> the 28 words of the frame. The processor is then halted, so the result is what the
  devices have received, or \<open>None\<close> when a device never becomes ready.
\<close>

definition frame_labels :: "string list" where
  "frame_labels = [''CR2'', ''CR3'', ''CR4'', ''DS '', ''ES '', ''FS '', ''GS '', ''R15'', ''R14'', ''R13'', ''R12'', ''R11'', ''R10'', ''R9 '', ''R8 '',
     ''RBP'', ''RDI'', ''RSI'', ''RDX'', ''RCX'', ''RBX'', ''RAX'', ''ERR'', ''RIP'', ''CS '', ''FLG'', ''RSP'', ''SS '']"

text \<open>The strings written for one device; \<^verbatim>\<open>ptrthex\<close> ends its text with a null character.\<close>

definition frame_lines :: "u64 list \<Rightarrow> string list" where
  "frame_lines tf = concat (map (\<lambda>j. [frame_labels ! j, '': 0x'', butlast (ptrthex (tf ! j)), [CHR 0x0A]]) [0..<28])"

definition exception_text :: "u64 list \<Rightarrow> string option \<Rightarrow> string list" where
  "exception_text tf description =
     [CHR 0x0A # ''*** CPU EXCEPTION: '', case description of Some d \<Rightarrow> d | None \<Rightarrow> ''UNKNOWN'', '' ***'' @ [CHR 0x0A]] @ frame_lines tf"

fun puts_all :: "'s kernel_char_dev_t \<Rightarrow> string list \<Rightarrow> 's \<Rightarrow> puts_error + 's option" where
  "puts_all dev [] s = Inr (Some s)"
| "puts_all dev (x # xs) s =
     (case dev_puts dev x s of Inl e \<Rightarrow> Inl e | Inr None \<Rightarrow> Inr None | Inr (Some s') \<Rightarrow> puts_all dev xs s')"

fun report_loop :: "(u64 \<Rightarrow> 's kernel_char_dev_t) \<Rightarrow> string list \<Rightarrow> device_registry_entry_t list \<Rightarrow> 's \<Rightarrow> puts_error + 's option" where
  "report_loop dev_at text [] s = Inr (Some s)"
| "report_loop dev_at text (e # es) s =
     (if dev_type e \<noteq> CHAR_DEV then report_loop dev_at text es s
      else if DevCAP (dev_at (dev_ptr e)) AND CHAR_IS_ERROR_HANDLER \<noteq> CHAR_IS_ERROR_HANDLER then report_loop dev_at text es s
      else case puts_all (dev_at (dev_ptr e)) text s of Inl x \<Rightarrow> Inl x | Inr None \<Rightarrow> Inr None | Inr (Some s') \<Rightarrow> report_loop dev_at text es s')"

definition exception_main :: "(u64 \<Rightarrow> 's kernel_char_dev_t) \<Rightarrow> registry_state \<Rightarrow> u64 list \<Rightarrow> string option \<Rightarrow> 's \<Rightarrow> puts_error + 's option" where
  "exception_main dev_at reg tf description s =
     report_loop dev_at (exception_text tf description) (take (registry_count reg) (registry reg)) s"

section \<open>Frames\<close>

text \<open>The words of the stack from an address up; a trap frame has 28.\<close>

definition words_at :: "(u64 \<Rightarrow> u64) \<Rightarrow> u64 \<Rightarrow> nat \<Rightarrow> u64 list" where
  "words_at m p n = map (\<lambda>i. m (p + 8 * of_nat i)) [0..<n]"

lemma push_simps [simp]:
  "gpr (push v st) = (gpr st)(RSP := gpr st RSP - 8)" "seg_reg (push v st) = seg_reg st" "rip (push v st) = rip st"
  "cs (push v st) = cs st" "rflags (push v st) = rflags st" "ss (push v st) = ss st"
  "cr2 (push v st) = cr2 st" "cr3 (push v st) = cr3 st" "cr4 (push v st) = cr4 st"
  by (simp_all add: push_def)

lemma set_reg_simps [simp]:
  "gpr (set_reg r v st) = (gpr st)(r := v)" "stk (set_reg r v st) = stk st" "seg_reg (set_reg r v st) = seg_reg st"
  "rip (set_reg r v st) = rip st" "cs (set_reg r v st) = cs st" "rflags (set_reg r v st) = rflags st" "ss (set_reg r v st) = ss st"
  "cr2 (set_reg r v st) = cr2 st" "cr3 (set_reg r v st) = cr3 st" "cr4 (set_reg r v st) = cr4 st"
  by (simp_all add: set_reg_def)

lemma push_set_reg: "r \<noteq> RSP \<Longrightarrow> push v (set_reg r w st) = set_reg r w (push v st)"
  by (simp add: push_def set_reg_def fun_upd_twist)

lemma exec_append: "exec callf (xs @ ys) st = exec callf ys (exec callf xs st)"
  by (induction xs arbitrary: st) simp_all

lemma length_words_at [simp]: "length (words_at m p n) = n"
  by (simp add: words_at_def)

lemma words_at_Suc: "words_at m p (Suc n) = m p # words_at m (p + 8) n"
  unfolding words_at_def by (subst upt_conv_Cons, simp, subst map_Suc_upt [symmetric]) (simp add: o_def algebra_simps)

lemma words_at_upd:
  assumes "0 < k" "8 * (n + k) \<le> (2::nat) ^ 64"
  shows "words_at (m(p := v)) (p + 8 * of_nat k) n = words_at m (p + 8 * of_nat k) n"
proof -
  have "p + 8 * of_nat k + 8 * of_nat i \<noteq> p" if "i < n" for i
  proof
    assume "p + 8 * of_nat k + 8 * of_nat i = p"
    then have "(8 * of_nat k + 8 * of_nat i :: u64) = 0" by (simp add: add.assoc)
    then have "(of_nat (8 * k + 8 * i) :: u64) = 0" by simp
    then have "unat (of_nat (8 * k + 8 * i) :: u64) = 0" by (simp only: unsigned_0)
    moreover have "unat (of_nat (8 * k + 8 * i) :: u64) = 8 * k + 8 * i"
      unfolding unat_of_nat using that assms by (intro mod_less) simp
    ultimately show False using assms(1) by linarith
  qed
  then show ?thesis by (simp add: words_at_def)
qed

text \<open>Pushing a list of words leaves it on the stack, the last one lowest.\<close>

lemma pushes:
  assumes "8 * (length vs + k) \<le> (2::nat) ^ 64"
  shows "gpr (fold push vs st) = (gpr st)(RSP := gpr st RSP - 8 * of_nat (length vs))"
    and "words_at (stk (fold push vs st)) (gpr st RSP - 8 * of_nat (length vs)) (length vs + k) = rev vs @ words_at (stk st) (gpr st RSP) k"
  using assms
proof (induction vs arbitrary: st k)
  case (Cons v vs)
  { case 1
    then show ?case using Cons(1) [of k "push v st"] by (simp add: fun_eq_iff algebra_simps)
  next
    case 2
    let ?s = "push v st"
    have "8 * (k + 1) \<le> (2::nat) ^ 64" using 2 by simp
    then have "words_at (stk ?s) (gpr ?s RSP) (Suc k) = v # words_at (stk st) (gpr st RSP) k"
      using words_at_upd [of 1 k "stk st" "gpr st RSP - 8" v] by (simp add: words_at_Suc) (simp add: push_def)
    then show ?case using Cons(2) [of "Suc k" ?s] 2 by (simp add: algebra_simps) }
qed simp_all

lemma fold_push_simps [simp]:
  "seg_reg (fold push vs st) = seg_reg st" "rip (fold push vs st) = rip st" "cs (fold push vs st) = cs st" "rflags (fold push vs st) = rflags st"
  "ss (fold push vs st) = ss st" "cr2 (fold push vs st) = cr2 st" "cr3 (fold push vs st) = cr3 st" "cr4 (fold push vs st) = cr4 st"
  by (induction vs arbitrary: st) simp_all

section \<open>Saving and switching\<close>

text \<open>The registers of a trap frame, by the order of the fields of \<^verbatim>\<open>struct trap_frame\<close>, and the state \<^verbatim>\<open>iretq\<close> continues with.\<close>

fun frame_reg :: "u64 list \<Rightarrow> reg \<Rightarrow> u64" where
  "frame_reg f R15 = f ! 7" | "frame_reg f R14 = f ! 8" | "frame_reg f R13 = f ! 9" | "frame_reg f R12 = f ! 10"
| "frame_reg f R11 = f ! 11" | "frame_reg f R10 = f ! 12" | "frame_reg f R9 = f ! 13" | "frame_reg f R8 = f ! 14"
| "frame_reg f RBP = f ! 15" | "frame_reg f RDI = f ! 16" | "frame_reg f RSI = f ! 17" | "frame_reg f RDX = f ! 18"
| "frame_reg f RCX = f ! 19" | "frame_reg f RBX = f ! 20" | "frame_reg f RAX = f ! 21" | "frame_reg f RSP = f ! 26"

definition resume :: "u64 list \<Rightarrow> cpu \<Rightarrow> cpu" where
  "resume f st = st\<lparr>gpr := frame_reg f, rip := f ! 23, cs := f ! 24, rflags := f ! 25, ss := f ! 27\<rparr>"

text \<open>The frame of a context: control and segment words, registers, error code, and the words the processor pushed.\<close>

definition context_frame :: "u64 list \<Rightarrow> (reg \<Rightarrow> u64) \<Rightarrow> u64 \<Rightarrow> cpu \<Rightarrow> u64 list" where
  "context_frame special g err st = special @ map g (rev saved_regs) @ [err, rip st, cs st, rflags st, gpr st RSP, ss st]"

lemma reg_cases: "(\<forall>r. P r) \<longleftrightarrow> P RAX \<and> P RBX \<and> P RCX \<and> P RDX \<and> P RSI \<and> P RDI \<and> P RBP \<and> P RSP \<and> P R8 \<and> P R9 \<and> P R10 \<and> P R11 \<and> P R12 \<and> P R13 \<and> P R14 \<and> P R15"
proof (intro iffI allI)
  fix r
  assume "P RAX \<and> P RBX \<and> P RCX \<and> P RDX \<and> P RSI \<and> P RDI \<and> P RBP \<and> P RSP \<and> P R8 \<and> P R9 \<and> P R10 \<and> P R11 \<and> P R12 \<and> P R13 \<and> P R14 \<and> P R15"
  then show "P r" by (cases r) simp_all
qed simp

lemma frame_reg_context:
  assumes "length special = 7"
  shows "frame_reg (context_frame special g err st) = g(RSP := gpr st RSP)"
proof -
  have n: "(special @ xs) ! k = xs ! (k - 7)" if "7 \<le> k" for xs k using that assms by (simp add: nth_append)
  show ?thesis unfolding fun_eq_iff reg_cases context_frame_def by (simp add: n saved_regs_def)
qed

lemma context_frame_nth:
  assumes "length special = 7"
  shows "context_frame special g err st ! 23 = rip st" "context_frame special g err st ! 24 = cs st"
    "context_frame special g err st ! 25 = rflags st" "context_frame special g err st ! 27 = ss st" "context_frame special g err st ! 22 = err"
    "length (context_frame special g err st) = 28"
  using assms by (simp_all add: context_frame_def nth_append saved_regs_def)

lemma mask15: "(0xF :: u64) = mask 4"
  by (simp add: mask_eq_exp_minus_1)

lemma minus16: "(- 16 :: u64) = NOT (mask 4)"
  unfolding mask15 [symmetric] by simp

lemma align16: "(x :: u64) AND NOT 0xF = push_bit 4 (drop_bit 4 x)"
  unfolding mask15 by (rule bit_eqI) (auto simp: bit_simps)

lemma align16_id: "push_bit 4 (y :: u64) AND (- 16) = push_bit 4 y"
  unfolding minus16 by (rule bit_eqI) (auto simp: bit_simps)

lemma align16_sub: "push_bit 4 (y :: u64) - 224 = push_bit 4 (y - 14)"
  by (simp add: push_bit_eq_mult algebra_simps)

lemma align16_low: "(push_bit 4 (y :: u64) - 8) AND 0xF = 8"
proof -
  have e: "(8 :: u64) = 2 ^ 3" by simp
  have b: "bit (8 :: u64) n \<longleftrightarrow> n = 3" for n unfolding e by (subst bit_exp_iff) auto
  have "push_bit 4 y - 8 = push_bit 4 (y - 1) + 8" by (simp add: push_bit_eq_mult algebra_simps)
  also have "\<dots> = push_bit 4 (y - 1) OR 8"
    by (rule disjunctive_add) (simp only: bit_push_bit_iff b, auto)
  also have "\<dots> AND 0xF = 8" unfolding mask15 by (rule bit_eqI) (simp only: bit_and_iff bit_or_iff bit_push_bit_iff bit_mask_iff b, auto)
  finally show ?thesis .
qed

section \<open>The interrupt stub\<close>

lemma exec_pushes: "RSP \<notin> set rs \<Longrightarrow> exec callf (map PUSH rs) st = fold push (map (gpr st) rs) st"
proof (induction rs arbitrary: st)
  case (Cons r rs)
  then have "map (gpr (push (gpr st r) st)) rs = map (gpr st) rs" by auto
  then show ?case using Cons by simp
qed simp

lemma exec_pushis: "exec callf (replicate n (PUSHI v)) st = fold push (replicate n v) st"
  by (induction n arbitrary: st) simp_all

lemma exec_pops:
  assumes "RSP \<notin> set rs" "distinct rs"
  shows "exec callf (map POP rs) st = st\<lparr>gpr := (\<lambda>r. if r = RSP then gpr st RSP + 8 * of_nat (length rs)
     else case map_of (zip rs (words_at (stk st) (gpr st RSP) (length rs))) r of Some v \<Rightarrow> v | None \<Rightarrow> gpr st r)\<rparr>"
  using assms
proof (induction rs arbitrary: st)
  case (Cons r rs)
  let ?s = "set_reg r (stk st (gpr st RSP)) (set_reg RSP (gpr st RSP + 8) st)"
  have "exec callf (map POP (r # rs)) st = exec callf (map POP rs) ?s" by simp
  also have "\<dots> = ?s\<lparr>gpr := (\<lambda>q. if q = RSP then gpr ?s RSP + 8 * of_nat (length rs)
     else case map_of (zip rs (words_at (stk ?s) (gpr ?s RSP) (length rs))) q of Some v \<Rightarrow> v | None \<Rightarrow> gpr ?s q)\<rparr>"
    using Cons by simp
  also have "\<dots> = st\<lparr>gpr := (\<lambda>q. if q = RSP then gpr st RSP + 8 * of_nat (length (r # rs))
     else case map_of (zip (r # rs) (words_at (stk st) (gpr st RSP) (length (r # rs)))) q of Some v \<Rightarrow> v | None \<Rightarrow> gpr st q)\<rparr>"
  proof -
    have n: "map_of (zip rs (words_at m p (length rs))) r = None" for m p using Cons.prems(2) by (simp add: map_of_zip_is_None)
    have w: "words_at (stk st) (gpr st RSP) (length (r # rs)) = stk st (gpr st RSP) # words_at (stk st) (gpr st RSP + 8) (length rs)"
      by (simp only: list.size(4) add_0_right add_Suc_right words_at_Suc One_nat_def)
    have "(if q = RSP then gpr ?s RSP + 8 * of_nat (length rs)
       else case map_of (zip rs (words_at (stk ?s) (gpr ?s RSP) (length rs))) q of Some v \<Rightarrow> v | None \<Rightarrow> gpr ?s q) =
      (if q = RSP then gpr st RSP + 8 * of_nat (length (r # rs))
       else case map_of (zip (r # rs) (words_at (stk st) (gpr st RSP) (length (r # rs)))) q of Some v \<Rightarrow> v | None \<Rightarrow> gpr st q)" for q
      unfolding w using Cons.prems n by (cases "q = r"; cases "q = RSP") (auto simp: algebra_simps dest: set_zip_leftD split: option.split)
    then show ?thesis by (simp add: set_reg_def)
  qed
  finally show ?case .
qed (simp add: fun_eq_iff)

lemma fold_push_set_reg: "r \<noteq> RSP \<Longrightarrow> fold push vs (set_reg r w st) = set_reg r w (fold push vs st)"
  by (induction vs arbitrary: st) (simp_all add: push_set_reg)

lemma fold_push_gpr: "gpr (fold push vs st) = (gpr st)(RSP := gpr st RSP - 8 * of_nat (length vs))"
  by (induction vs arbitrary: st) (simp_all add: fun_eq_iff algebra_simps)

lemma RSP_saved: "RSP \<notin> set saved_regs" "distinct saved_regs"
  by (simp_all add: saved_regs_def)

text \<open>The words on the stack when an interrupt stub calls its target.\<close>

definition irq_words :: "reg \<Rightarrow> u64 \<Rightarrow> u64 \<Rightarrow> cpu \<Rightarrow> u64 list" where
  "irq_words op index target st = context_frame (replicate 7 0) ((gpr st)(op := target)) index st"

lemma irq_prologue_pushes:
  fixes st :: cpu
  assumes "op \<notin> {RSP, RDI, RBP}"
  defines "sp \<equiv> push_bit 4 (drop_bit 4 (gpr st RSP))"
  shows "exec callf (irq_prologue op index target) (interrupt None st) =
    (let s = fold push (rev (irq_words op index target st)) (set_reg op target (set_reg RSP sp st)) in
     set_reg RAX target (set_reg RSP (sp - 232) (set_reg RBP (sp - 224) (set_reg RDI (sp - 224) s))))"
proof -
  let ?base = "set_reg op target (set_reg RSP sp st)"
  let ?vs = "[ss st, gpr st RSP, rflags st, cs st, rip st]"
  let ?g = "(gpr st)(op := target)"
  let ?s = "fold push (rev (irq_words op index target st)) ?base"
  have op: "op \<noteq> RSP" using assms(1) by simp
  have i: "interrupt None st = fold push ?vs (set_reg RSP sp st)" by (simp add: interrupt_def sp_def align16 [simplified] Let_def)
  have m: "map (gpr (fold push (?vs @ [index]) ?base)) saved_regs = map ?g saved_regs"
    using RSP_saved(1) by (auto simp: fold_push_gpr)
  have "exec callf [MOVI op target, PUSHI index] (interrupt None st) = fold push (?vs @ [index]) ?base"
    using op by (simp add: i push_set_reg)
  then have "exec callf ([MOVI op target, PUSHI index] @ map PUSH saved_regs @ replicate 7 (PUSHI 0)) (interrupt None st) =
      fold push (replicate 7 0) (fold push (map ?g saved_regs) (fold push (?vs @ [index]) ?base))"
    by (simp only: exec_append exec_pushes [OF RSP_saved(1)] exec_pushis m)
  moreover have "rev (irq_words op index target st) = (?vs @ [index]) @ map ?g saved_regs @ replicate 7 0"
    by (simp add: irq_words_def context_frame_def rev_map [symmetric])
  ultimately have e: "exec callf ([MOVI op target, PUSHI index] @ map PUSH saved_regs @ replicate 7 (PUSHI 0)) (interrupt None st) = ?s"
    by (simp only: fold_append o_apply)
  have len: "length (rev (irq_words op index target st)) = 28" by (simp add: irq_words_def context_frame_nth(6))
  have r: "gpr ?s RSP = sp - 224" "gpr ?s op = target"
    using op len unfolding fold_push_gpr by simp_all
  let ?tail = "[MOV RDI RSP, MOV RBP RSP, ANDI RSP (- 16), SUBI RSP 8, MOV RAX op]"
  have "irq_prologue op index target = ([MOVI op target, PUSHI index] @ map PUSH saved_regs @ replicate 7 (PUSHI 0)) @ ?tail"
    by (simp add: irq_prologue_def)
  then have "exec callf (irq_prologue op index target) (interrupt None st) = exec callf ?tail ?s" by (simp only: exec_append [of callf _ ?tail] e)
  moreover have "exec callf ?tail s = set_reg RAX target (set_reg RSP (sp - 232) (set_reg RBP (sp - 224) (set_reg RDI (sp - 224) s)))"
    if "gpr s RSP = sp - 224" "gpr s op = target" for s
  proof -
    have "(sp - 224) AND - 16 = sp - 224" unfolding sp_def align16_sub by (rule align16_id)
    then show ?thesis using assms(1) that by simp
  qed
  ultimately show ?thesis using r by (simp add: Let_def)
qed

lemma irq_epilogue_resumes: "exec callf irq_epilogue st = resume (words_at (stk st) (gpr st RAX) 28) st"
proof -
  let ?p = "gpr st RAX"
  let ?s = "set_reg RSP (?p + 56) st"
  have n: "words_at m p k ! i = m (p + 8 * of_nat i)" if "i < k" for m p k i using that by (simp add: words_at_def)
  have w: "words_at (stk st) (?p + 56) 15 = map (\<lambda>i. words_at (stk st) ?p 28 ! (7 + i)) [0..<15]"
    by (simp add: words_at_def algebra_simps)
  have "exec callf (map POP (rev saved_regs)) ?s = st\<lparr>gpr := (\<lambda>r. if r = RSP then ?p + 176 else frame_reg (words_at (stk st) ?p 28) r)\<rparr>"
  proof -
    have "exec callf (map POP (rev saved_regs)) ?s = ?s\<lparr>gpr := (\<lambda>r. if r = RSP then gpr ?s RSP + 8 * of_nat (length (rev saved_regs))
       else case map_of (zip (rev saved_regs) (words_at (stk ?s) (gpr ?s RSP) (length (rev saved_regs)))) r of Some v \<Rightarrow> v | None \<Rightarrow> gpr ?s r)\<rparr>"
      using RSP_saved by (intro exec_pops) simp_all
    moreover have "length saved_regs = 15" by (simp add: saved_regs_def)
    moreover have "(case map_of (zip (rev saved_regs) (map (\<lambda>i. words_at (stk st) ?p 28 ! (7 + i)) [0..<15])) r of Some v \<Rightarrow> v | None \<Rightarrow> gpr ?s r) =
       frame_reg (words_at (stk st) ?p 28) r" if "r \<noteq> RSP" for r
      using that by (cases r) (simp_all add: saved_regs_def upt_rec)
    ultimately show ?thesis by (simp add: w set_reg_def fun_eq_iff cong: if_cong)
  qed
  moreover have "(\<lambda>r. if r = RSP then ?p + 176 else frame_reg (words_at (stk st) ?p 28) r)(RSP := stk st (208 + ?p)) = frame_reg (words_at (stk st) ?p 28)"
    by (simp add: fun_eq_iff n add.commute)
  ultimately show ?thesis by (simp add: irq_epilogue_def exec_append Let_def resume_def set_reg_def n add.commute)
qed

text \<open>
  C33. An interrupt stub saves the interrupted context as a trap frame and hands its address to the handler; when
  the handler returns, the processor continues with the context of the frame whose address was returned, so that
  returning another frame switches tasks, and returning the same frame continues the interrupted code with every
  register as it was but the one that the compiler chose for the handler's address. The handler is entered with the
  stack pointer a multiple of 16.
\<close>

theorem irq_stub_switches:
  fixes st :: cpu and op index target callf
  assumes op: "op \<notin> {RSP, RDI, RBP}"
  defines "tf \<equiv> (gpr st RSP AND NOT 0xF) - 224"
    and "s1 \<equiv> exec callf (irq_prologue op index target) (interrupt None st)"
  defines "s2 \<equiv> callf target (push (rip s1) s1)"
  defines "fin \<equiv> exec callf (irq_stub op index target) (interrupt None st)"
  shows "gpr s1 RDI = tf \<and> words_at (stk s1) tf 28 = irq_words op index target st \<and> gpr (push (rip s1) s1) RSP AND 0xF = 0 \<and>
    fin = resume (words_at (stk s2) (gpr s2 RAX) 28) s2 \<and>
    (words_at (stk s2) (gpr s2 RAX) 28 = irq_words op index target st \<longrightarrow>
       gpr fin = (gpr st)(op := target) \<and> rip fin = rip st \<and> cs fin = cs st \<and> rflags fin = rflags st \<and> ss fin = ss st)"
proof -
  let ?sp = "push_bit 4 (drop_bit 4 (gpr st RSP))"
  let ?base = "set_reg op target (set_reg RSP ?sp st)"
  let ?vs = "rev (irq_words op index target st)"
  let ?s = "fold push ?vs ?base"
  have tf: "tf = ?sp - 224" unfolding tf_def align16 ..
  have s1: "s1 = set_reg RAX target (set_reg RSP (?sp - 232) (set_reg RBP tf (set_reg RDI tf ?s)))"
    unfolding s1_def tf using irq_prologue_pushes [OF op] by (simp add: Let_def)
  have len: "length ?vs = 28" by (simp add: irq_words_def context_frame_nth(6))
  have b: "gpr ?base RSP = ?sp" using op by auto
  have "words_at (stk ?s) (gpr ?base RSP - 8 * of_nat (length ?vs)) (length ?vs + 0) = rev ?vs @ words_at (stk ?base) (gpr ?base RSP) 0"
    by (rule pushes(2)) (simp only: len, simp)
  then have w: "words_at (stk ?s) tf 28 = irq_words op index target st" unfolding b len tf by (simp add: words_at_def)
  have "gpr (push (rip s1) s1) RSP = push_bit 4 (drop_bit 4 (gpr st RSP) - 15)"
    by (simp add: s1 push_bit_eq_mult algebra_simps)
  then have al: "gpr (push (rip s1) s1) RSP AND 0xF = 0" unfolding mask15 by (auto intro!: bit_eqI simp: bit_simps)
  have "exec callf [CALL RAX] s1 = s2" by (simp add: s2_def) (simp add: s1)
  then have fin: "fin = resume (words_at (stk s2) (gpr s2 RAX) 28) s2"
    by (simp only: fin_def irq_stub_def exec_append s1_def [symmetric] irq_epilogue_resumes)
  have "gpr fin = (gpr st)(op := target) \<and> rip fin = rip st \<and> cs fin = cs st \<and> rflags fin = rflags st \<and> ss fin = ss st"
    if "words_at (stk s2) (gpr s2 RAX) 28 = irq_words op index target st"
    using op unfolding fin that resume_def irq_words_def
    by (simp add: frame_reg_context context_frame_nth) (auto simp: fun_eq_iff)
  then show ?thesis using w al fin by (simp add: s1)
qed

theorem irq_stub_switches_witness:
  "let st = \<lparr>gpr = (\<lambda>r. if r = RSP then 0x9008 else 7), seg_reg = (\<lambda>_. 0), cr2 = 0, cr3 = 0, cr4 = 0, rip = 0x1234, cs = 8, rflags = 0x202, ss = 16, stk = (\<lambda>_. 0)\<rparr>;
       fin = exec (\<lambda>a s. set_reg RAX (gpr s RDI) s) (irq_stub RAX 32 0x5000) (interrupt None st) in
   gpr fin = (gpr st)(RAX := 0x5000) \<and> rip fin = 0x1234 \<and> rflags fin = 0x202"
proof -
  let ?st = "\<lparr>gpr = (\<lambda>r. if r = RSP then 0x9008 else 7), seg_reg = (\<lambda>_. 0), cr2 = 0, cr3 = 0, cr4 = 0, rip = 0x1234, cs = 8, rflags = 0x202, ss = 16, stk = (\<lambda>_. 0)\<rparr>"
  let ?callf = "\<lambda>(a :: u64) s. set_reg RAX (gpr s RDI) s"
  let ?s1 = "exec ?callf (irq_prologue RAX 32 0x5000) (interrupt None ?st)"
  have op: "RAX \<notin> {RSP, RDI, RBP}" by simp
  note t = irq_stub_switches [OF op, of ?callf 32 "0x5000" ?st]
  have tf: "gpr ?s1 RDI = 0x8F20" "gpr (push (rip ?s1) ?s1) RSP = 0x8F10"
    using irq_prologue_pushes [of RAX ?callf 32 "0x5000" ?st] by (simp_all add: Let_def)
  then have "stk (push (rip ?s1) ?s1) = (stk ?s1)(0x8F10 := rip ?s1)" by (simp add: push_def)
  then have "words_at (stk (push (rip ?s1) ?s1)) 0x8F20 28 = words_at (stk ?s1) 0x8F20 28"
    using words_at_upd [of 2 28 "stk ?s1" "0x8F10"] by simp
  moreover have "words_at (stk ?s1) 0x8F20 28 = irq_words RAX 32 0x5000 ?st" using t tf(1) by simp
  moreover have "stk (?callf 0x5000 (push (rip ?s1) ?s1)) = stk (push (rip ?s1) ?s1)" "gpr (?callf 0x5000 (push (rip ?s1) ?s1)) RAX = 0x8F20"
    using tf(1) by simp_all
  ultimately have "words_at (stk (?callf 0x5000 (push (rip ?s1) ?s1))) (gpr (?callf 0x5000 (push (rip ?s1) ?s1)) RAX) 28 = irq_words RAX 32 0x5000 ?st"
    by (simp only:)
  from t [THEN conjunct2, THEN conjunct2, THEN conjunct2, THEN conjunct2, THEN mp, OF this] show ?thesis
    unfolding Let_def by (simp only: cpu.simps)
qed

section \<open>The exception stub\<close>

lemma segment_word: "ucast (x :: u16) AND NOT 0xFFFF = (0 :: u64)"
proof -
  have "(0xFFFF :: u64) = mask 16" by (simp add: mask_eq_exp_minus_1)
  show ?thesis unfolding \<open>0xFFFF = mask 16\<close> by (rule bit_eqI) (auto simp: bit_simps dest: bit_imp_le_length)
qed

text \<open>The words an exception stub reports: control and segment registers, general registers, error code, return state.\<close>

definition exception_words :: "u64 \<Rightarrow> cpu \<Rightarrow> u64 list" where
  "exception_words err st =
     context_frame [cr2 st, cr3 st, cr4 st, ucast (seg_reg st DS), ucast (seg_reg st ES), ucast (seg_reg st FS), ucast (seg_reg st GS)] (gpr st) err st"

lemma exception_frame:
  fixes st :: cpu and callf name err
  defines "tf \<equiv> (gpr st RSP AND NOT 0xF) - 224"
    and "s1 \<equiv> exec callf (exception_prologue name (err \<noteq> None)) (interrupt err st)"
  shows "gpr s1 RDI = tf \<and> gpr s1 RSI = name \<and> gpr s1 RSP = tf \<and> words_at (stk s1) tf 28 = exception_words (case err of Some e \<Rightarrow> e | None \<Rightarrow> 0) st"
proof -
  let ?sp = "push_bit 4 (drop_bit 4 (gpr st RSP))"
  let ?base = "set_reg RSP ?sp st"
  let ?e = "case err of Some e \<Rightarrow> e | None \<Rightarrow> 0"
  let ?v1 = "[ss st, gpr st RSP, rflags st, cs st, rip st, ?e]"
  let ?v2 = "map (gpr st) saved_regs"
  let ?v3 = "[ucast (seg_reg st GS), ucast (seg_reg st FS), ucast (seg_reg st ES), ucast (seg_reg st DS), cr4 st, cr3 st, cr2 st]"
  have tf: "tf = ?sp - 224" unfolding tf_def align16 ..
  have i: "exec callf (if err \<noteq> None then [] else [PUSHI 0]) (interrupt err st) = fold push ?v1 ?base"
    by (cases err) (simp_all add: interrupt_def align16 [simplified] Let_def)
  have "map (gpr (fold push ?v1 ?base)) saved_regs = ?v2" using RSP_saved(1) by (auto simp: fold_push_gpr)
  then have p: "exec callf (map PUSH saved_regs) (fold push ?v1 ?base) = fold push (?v1 @ ?v2) ?base"
    by (simp only: exec_pushes [OF RSP_saved(1)] fold_append o_apply)
  let ?tail = "[XORQ RAX RAX, MOVW_SEG GS, PUSH RAX, MOVW_SEG FS, PUSH RAX, MOVW_SEG ES, PUSH RAX, MOVW_SEG DS, PUSH RAX,
      MOV_CR4, PUSH RAX, MOV_CR3, PUSH RAX, MOV_CR2, PUSH RAX]"
  have t: "exec callf ?tail s = set_reg RAX (cr2 s) (fold push [ucast (seg_reg s GS), ucast (seg_reg s FS), ucast (seg_reg s ES), ucast (seg_reg s DS), cr4 s, cr3 s, cr2 s] s)" for s
    by (simp add: segment_word [simplified] push_set_reg set_reg_def push_def) (rule cpu.equality, simp_all add: fun_upd_twist)
  let ?s = "fold push (rev (exception_words ?e st)) ?base"
  have r: "rev (exception_words ?e st) = (?v1 @ ?v2) @ ?v3" by (simp add: exception_words_def context_frame_def rev_map [symmetric])
  let ?last = "[MOV RDI RSP, MOVI RSI name, ANDI RSP (- 16)]"
  have "exception_prologue name (err \<noteq> None) = (((if err \<noteq> None then [] else [PUSHI 0]) @ map PUSH saved_regs) @ ?tail) @ ?last"
    by (simp add: exception_prologue_def)
  then have s1: "s1 = exec callf ?last (set_reg RAX (cr2 st) ?s)"
    unfolding s1_def by (simp only: exec_append [of callf _ ?last] exec_append [of callf _ ?tail] exec_append [of callf _ "map PUSH saved_regs"] i p t r
        fold_append o_apply fold_push_simps set_reg_simps)
  have len: "length (rev (exception_words ?e st)) = 28" by (simp add: exception_words_def context_frame_nth(6))
  have "gpr ?s RSP = tf" unfolding fold_push_gpr len tf by simp
  moreover have "tf AND - 16 = tf" unfolding tf align16_sub by (rule align16_id)
  moreover have "words_at (stk ?s) (gpr ?base RSP - 8 * of_nat (length (rev (exception_words ?e st)))) (length (rev (exception_words ?e st)) + 0) =
      rev (rev (exception_words ?e st)) @ words_at (stk ?base) (gpr ?base RSP) 0"
    by (rule pushes(2)) (simp only: len, simp)
  then have "words_at (stk ?s) tf 28 = exception_words ?e st" unfolding len tf by (simp add: words_at_def)
  ultimately show ?thesis by (simp add: s1)
qed

section \<open>The interrupt table\<close>

definition gate_offset :: "idt_entry \<Rightarrow> u64" where
  "gate_offset e = push_bit 32 (ucast (offset_high e)) OR push_bit 16 (ucast (offset_mid e)) OR ucast (offset_low e)"

lemma word_pieces:
  "push_bit 32 (ucast (ucast (drop_bit 32 h) :: u32)) OR push_bit 16 (ucast (ucast (drop_bit 16 h AND 0xFFFF) :: u16)) OR
   ucast (ucast (h AND 0xFFFF) :: u16) = (h :: u64)"
proof -
  have m: "(0xFFFF :: u64) = mask 16" by (simp add: mask_eq_exp_minus_1)
  show ?thesis unfolding m
  proof (rule bit_eqI)
    fix k
    show "bit (push_bit 32 (ucast (ucast (drop_bit 32 h) :: u32)) OR push_bit 16 (ucast (ucast (drop_bit 16 h AND mask 16) :: u16)) OR
       ucast (ucast (h AND mask 16) :: u16) :: u64) k = bit h k"
      by (cases "k < 32") (auto simp: bit_simps dest: bit_imp_le_length)
  qed
qed

lemma gate_roundtrip: "n < length idt \<Longrightarrow> gate_offset (idt_set_gate n h sel flags idt ! n) = h"
  by (simp add: gate_offset_def idt_set_gate_def word_pieces)

lemma idt_loop_nth:
  "i + k \<le> length idt \<Longrightarrow> n < length idt \<Longrightarrow> idt_loop entry_of hs i k idt ! n =
     (if i \<le> n \<and> n < i + k then (case hs ! n of Some s \<Rightarrow> idt_set_gate n (entry_of s) 0x08 0x8E idt ! n | None \<Rightarrow> absent_gate) else idt ! n)"
proof (induction k arbitrary: i idt)
  case (Suc k)
  let ?idt = "case hs ! i of Some s \<Rightarrow> idt_set_gate i (entry_of s) 0x08 0x8E idt | None \<Rightarrow> idt[i := absent_gate]"
  have "length ?idt = length idt" "\<And>m. m \<noteq> i \<Longrightarrow> ?idt ! m = idt ! m" by (auto simp: idt_set_gate_def split: option.split)
  then show ?case using Suc.IH [of "Suc i" ?idt] Suc.prems
    by (cases "n = i") (auto simp: idt_set_gate_def split: option.split)
qed auto

text \<open>The stub of a vector, and the exceptions for which the processor pushes an error code.\<close>

definition stub_of :: "nat \<Rightarrow> stub" where
  "stub_of n = (if n < 32 then Exception_stub n else Irq_stub n (if n = 255 then irq_drunk_target else irq_dispatch_target))"

definition has_error_code :: "nat \<Rightarrow> bool" where
  "has_error_code n \<longleftrightarrow> n \<in> {8, 10, 11, 12, 13, 14, 17, 21, 29, 30}"

lemma interrupt_handlers_nth: "n < 256 \<Longrightarrow> interrupt_handlers ! n = Some (stub_of n)"
proof -
  assume n: "n < 256"
  have l: "length (map (\<lambda>n. Some (Exception_stub n)) [0..<32]) = 32" "length (map (\<lambda>n. Some (irq_handlers n)) [32..<255]) = 223" by simp_all
  have m: "map (\<lambda>n. Some (irq_handlers n)) [32..<255] ! k = Some (irq_handlers (32 + k))" if "k < 223" for k
    using that nth_map [of k "[32..<255]"] nth_upt [of 32 k 255] by (simp only: length_upt) simp
  consider "n < 32" | "32 \<le> n" "n < 255" | "n = 255" using n by linarith
  then show ?thesis
  proof cases
    case 1
    then show ?thesis unfolding interrupt_handlers_def nth_append l using nth_map [of n "[0..<32]"] nth_upt [of 0 n 32]
      by (simp only: length_upt stub_of_def) simp
  next
    case 2
    then show ?thesis unfolding interrupt_handlers_def nth_append l using m [of "n - 32"] by (simp add: stub_of_def irq_handlers_def)
  next
    case 3
    then show ?thesis unfolding interrupt_handlers_def nth_append l by (simp add: stub_of_def)
  qed
qed

lemma exception_table_errors: "n < 32 \<Longrightarrow> snd (exception_table ! n) = has_error_code n"
proof -
  have "list_all (\<lambda>n. snd (exception_table ! n) = has_error_code n) [0..<32]"
    by (simp add: exception_table_def has_error_code_def upt_rec)
  then show "n < 32 \<Longrightarrow> snd (exception_table ! n) = has_error_code n" by (simp add: list_all_iff)
qed

text \<open>
  C34. After initialisation each of the 256 vectors has a present interrupt gate to its own stub, through the code
  segment of the kernel, which is a present flat 64-bit segment. For every exception the stub agrees with the
  processor on whether an error code is pushed, so the frame it reports is complete: control and segment registers,
  general registers, error code and the interrupted state.
\<close>

theorem idt_init_gates:
  fixes idt gdt n entry_of
  assumes "length idt = 256" "length gdt = 3" "n < 256"
  defines "e \<equiv> idt_init entry_of idt ! n"
  shows "gate_offset e = entry_of (stub_of n) \<and> type_attr e = 0x8E \<and> ist e = 0 \<and>
    gdt_init gdt ! (unat (selector e) div 8) = \<lparr>limit_low = 0xFFFF, base_low = 0, base_mid = 0, access = 0x9A, granularity = 0xAF, base_high = 0\<rparr> \<and>
    (n < 32 \<longrightarrow> (\<forall>st callf name err. (err \<noteq> None \<longleftrightarrow> has_error_code n) \<longrightarrow>
       (let s = exec callf (exception_prologue name (snd (exception_table ! n))) (interrupt err st) in
        words_at (stk s) (gpr s RDI) 28 = exception_words (case err of Some c \<Rightarrow> c | None \<Rightarrow> 0) st \<and> gpr s RSI = name)))"
proof -
  have "e = idt_set_gate n (entry_of (stub_of n)) 0x08 0x8E idt ! n"
    using assms idt_loop_nth [of 0 256 idt n entry_of interrupt_handlers] interrupt_handlers_nth [of n] by (simp add: idt_init_def)
  then have "gate_offset e = entry_of (stub_of n)" "type_attr e = 0x8E" "ist e = 0" "selector e = 8"
    using assms(1,3) gate_roundtrip [of n idt] by (simp_all add: idt_set_gate_def)
  moreover have "gdt_init gdt ! 1 = \<lparr>limit_low = 0xFFFF, base_low = 0, base_mid = 0, access = 0x9A, granularity = 0xAF, base_high = 0\<rparr>"
    using assms(2) by (simp add: gdt_init_def gdt_set_def drop_bit_eq_div)
  moreover have "words_at (stk s) (gpr s RDI) 28 = exception_words (case err of Some c \<Rightarrow> c | None \<Rightarrow> 0) st \<and> gpr s RSI = name"
    if "n < 32" "err \<noteq> None \<longleftrightarrow> has_error_code n" "s = exec callf (exception_prologue name (snd (exception_table ! n))) (interrupt err st)" for st callf name err s
    using exception_frame [of callf name err st] that exception_table_errors [of n] by simp
  ultimately show ?thesis by (simp add: Let_def)
qed

theorem idt_init_gates_witness:
  "gate_offset (idt_init (\<lambda>s. if s = Exception_stub 14 then 0xFFFFFFFF80001230 else 0) (replicate 256 absent_gate) ! 14) = 0xFFFFFFFF80001230"
  using idt_init_gates [of "replicate 256 absent_gate" "replicate 3 \<lparr>limit_low = 0, base_low = 0, base_mid = 0, access = 0, granularity = 0, base_high = 0\<rparr>" 14
      "\<lambda>s. if s = Exception_stub 14 then 0xFFFFFFFF80001230 else 0"]
  by (simp add: stub_of_def)

section \<open>Chains of handlers\<close>

definition core_ok :: "core_irqs \<Rightarrow> bool" where
  "core_ok k \<longleftrightarrow> length (routines k) = 256 \<and> length (irq_stats k) = 256 \<and>
     (\<forall>ch \<in> set (routines k). length (handlers ch) = MAX_HANDLERS_PER_VECTOR \<and> unat (chain_count ch) \<le> MAX_HANDLERS_PER_VECTOR)"

definition irqs_ok :: "'m irq_state \<Rightarrow> bool" where
  "irqs_ok st \<longleftrightarrow> (\<forall>c k. core_of c st = Some k \<longrightarrow> core_ok k)"

text \<open>The handlers installed for a vector of a core, in order.\<close>

definition live_chain :: "nat \<Rightarrow> nat \<Rightarrow> 'm irq_state \<Rightarrow> u64 list" where
  "live_chain c v st = (case core_of c st of None \<Rightarrow> [] | Some k \<Rightarrow> take (unat (chain_count (routines k ! v))) (handlers (routines k ! v)))"

fun run_all :: "(u64 \<Rightarrow> u64 \<Rightarrow> 'm irq_state \<Rightarrow> ('m irq_state \<times> u64) outcome) \<Rightarrow> u64 \<Rightarrow> u64 list \<Rightarrow> u64 \<Rightarrow> 'm irq_state \<Rightarrow> ('m irq_state \<times> u64) outcome" where
  "run_all run tf [] ret st = Inr (st, ret)"
| "run_all run tf (h # hs) ret st =
     (case run h tf st of Inl e \<Rightarrow> Inl e | Inr (st', t) \<Rightarrow> run_all run tf hs (if t \<noteq> 0 then t else ret) st')"

text \<open>Handlers that leave a core and its chain in place.\<close>

definition keeps_chain :: "(u64 \<Rightarrow> u64 \<Rightarrow> 'm irq_state \<Rightarrow> ('m irq_state \<times> u64) outcome) \<Rightarrow> nat \<Rightarrow> nat \<Rightarrow> bool" where
  "keeps_chain run c v \<longleftrightarrow> (\<forall>h tf st st' t. run h tf st = Inr (st', t) \<longrightarrow>
     (core_of c st' = None \<longleftrightarrow> core_of c st = None) \<and> (core_of c st \<noteq> None \<longrightarrow> chain_at c v st' = chain_at c v st))"

lemma core_of_set: "core_of c (set_core d k st) = (if c = d \<and> d < length (cpu_blocks st) then Some k else core_of c st)"
  by (simp add: core_of_def set_core_def)

lemma dispatch_loop_run_all:
  assumes "keeps_chain run c v" "core_of c st \<noteq> None" "unat (chain_count (chain_at c v st)) \<le> length (handlers (chain_at c v st))"
  shows "dispatch_loop run c v tf i ret st = run_all run tf (drop i (take (unat (chain_count (chain_at c v st))) (handlers (chain_at c v st)))) ret st"
  using assms(2,3)
proof (induction "256 - i" arbitrary: i ret st rule: less_induct)
  case less
  let ?ch = "chain_at c v st"
  have lt: "unat (chain_count ?ch) < 256" by simp
  show ?case
  proof (cases "i < unat (chain_count ?ch)")
    case True
    then have d: "drop i (take (unat (chain_count ?ch)) (handlers ?ch)) = handlers ?ch ! i # drop (Suc i) (take (unat (chain_count ?ch)) (handlers ?ch))"
      using less.prems(2) by (simp add: Cons_nth_drop_Suc [symmetric])
    show ?thesis
    proof (cases "run (handlers ?ch ! i) tf st")
      case (Inr p)
      obtain st' t where p: "p = (st', t)" by (cases p)
      then have k: "core_of c st' \<noteq> None" "chain_at c v st' = ?ch" using assms(1) Inr less.prems(1) unfolding keeps_chain_def by metis+
      have "dispatch_loop run c v tf (Suc i) (if t \<noteq> 0 then t else ret) st' =
          run_all run tf (drop (Suc i) (take (unat (chain_count ?ch)) (handlers ?ch))) (if t \<noteq> 0 then t else ret) st'"
      proof -
        have "256 - Suc i < 256 - i" using True lt by linarith
        then show ?thesis using less.hyps [of "Suc i" st'] k less.prems(2) by simp
      qed
      then show ?thesis using True Inr p d by (subst dispatch_loop.simps) simp
    qed (use True d in \<open>subst dispatch_loop.simps, simp\<close>)
  qed (subst dispatch_loop.simps, simp)
qed

text \<open>The state in which the handlers start: the interrupt has been counted.\<close>

definition counted :: "nat \<Rightarrow> nat \<Rightarrow> 'm irq_state \<Rightarrow> 'm irq_state" where
  "counted c v st = set_core c ((the (core_of c st))\<lparr>irq_stats := (irq_stats (the (core_of c st)))[v := irq_stats (the (core_of c st)) ! v + 1]\<rparr>) st"

lemma irq_dispatch_runs:
  assumes "irqs_ok st" "core_of c st \<noteq> None" "keeps_chain run c (unat v)" "v < 256"
  shows "irq_dispatch run c v tf st = and_then (run_all run tf (live_chain c (unat v) st) tf (counted c (unat v) st))
     (\<lambda>(s, r). Inr (s\<lparr>lapic := lapic_eoi (lapic s)\<rparr>, r))"
proof -
  obtain k where k: "core_of c st = Some k" using assms(2) by blast
  then have ok: "core_ok k" and c: "c < length (cpu_blocks st)" using assms(1) by (auto simp: irqs_ok_def core_of_def split: if_splits)
  let ?s = "counted c (unat v) st"
  have s: "core_of c ?s \<noteq> None" "chain_at c (unat v) ?s = routines k ! unat v"
    using k c by (simp_all add: counted_def core_of_set chain_at_def)
  have "unat v < 256" using assms(4) by (simp add: word_less_nat_alt)
  then have "routines k ! unat v \<in> set (routines k)" using ok by (simp add: core_ok_def)
  then have "unat (chain_count (routines k ! unat v)) \<le> length (handlers (routines k ! unat v))" using ok by (auto simp: core_ok_def)
  then have "dispatch_loop run c (unat v) tf 0 tf ?s = run_all run tf (live_chain c (unat v) st) tf ?s"
    using dispatch_loop_run_all [OF assms(3) s(1)] s(2) k by (simp add: live_chain_def)
  then show ?thesis by (simp add: irq_dispatch_def Let_def counted_def)
qed

text \<open>
  C35. Installing a handler appends it to the chain of its vector on its core and changes no other chain; it fails
  exactly when the core does not exist or the chain has four handlers. From then on the vector runs all handlers of
  the chain in the order they were installed, each with the interrupted frame, continues with the last frame a
  handler returned, or the interrupted one, and acknowledges the interrupt once at the end.
\<close>

theorem irq_install_dispatch:
  assumes ok: "irqs_ok st" and keep: "keeps_chain run (unat c) (unat v)"
  shows "case irq_install_handler c v h st of
     Inl e \<Rightarrow> core_of (unat c) st = None \<or> length (live_chain (unat c) (unat v) st) = MAX_HANDLERS_PER_VECTOR
   | Inr st' \<Rightarrow> irqs_ok st' \<and> live_chain (unat c) (unat v) st' = live_chain (unat c) (unat v) st @ [h] \<and>
       (\<forall>c' v'. (c', v') \<noteq> (unat c, unat v) \<longrightarrow> live_chain c' v' st' = live_chain c' v' st) \<and>
       irq_dispatch run (unat c) (ucast v) tf st' = and_then (run_all run tf (live_chain (unat c) (unat v) st @ [h]) tf (counted (unat c) (unat v) st'))
         (\<lambda>(s, r). Inr (s\<lparr>lapic := lapic_eoi (lapic s)\<rparr>, r))"
proof (cases "core_of (unat c) st")
  case None
  then show ?thesis by (simp add: irq_install_handler_def)
next
  case (Some k)
  let ?ch = "routines k ! unat v"
  let ?n = "unat (chain_count ?ch)"
  have kok: "core_ok k" and c: "unat c < length (cpu_blocks st)" using ok Some by (auto simp: irqs_ok_def core_of_def split: if_splits)
  have v: "unat v < 256" by simp
  then have "?ch \<in> set (routines k)" using kok by (simp add: core_ok_def)
  then have ch: "length (handlers ?ch) = 4" "?n \<le> 4" using kok by (auto simp: core_ok_def MAX_HANDLERS_PER_VECTOR_def)
  show ?thesis
  proof (cases "?n < 4")
    case False
    then show ?thesis using Some ch c by (simp add: irq_install_handler_def MAX_HANDLERS_PER_VECTOR_def Let_def live_chain_def)
  next
    case True
    let ?new = "?ch\<lparr>handlers := (handlers ?ch)[?n := h], chain_count := chain_count ?ch + 1\<rparr>"
    let ?k = "k\<lparr>routines := (routines k)[unat v := ?new]\<rparr>"
    let ?st = "set_core (unat c) ?k st"
    have i: "irq_install_handler c v h st = Inr ?st"
      using Some True c by (simp add: irq_install_handler_def MAX_HANDLERS_PER_VECTOR_def Let_def)
    have n1: "unat (chain_count ?ch + 1) = Suc ?n" using True by (subst unat_plus_small) simp_all
    have "core_ok ?k" using kok ch True n1 by (auto simp: core_ok_def MAX_HANDLERS_PER_VECTOR_def dest!: set_update_subset_insert [THEN subsetD])
    then have iok: "irqs_ok ?st" using ok c by (auto simp: irqs_ok_def core_of_set)
    have lc: "live_chain (unat c) (unat v) ?st = live_chain (unat c) (unat v) st @ [h]"
      using Some c ch True n1 kok by (simp add: live_chain_def core_of_set core_ok_def take_Suc_conv_app_nth)
    have "irq_dispatch run (unat c) (ucast v) tf ?st = and_then (run_all run tf (live_chain (unat c) (unat v) ?st) tf (counted (unat c) (unat v) ?st))
         (\<lambda>(s, r). Inr (s\<lparr>lapic := lapic_eoi (lapic s)\<rparr>, r))"
      using irq_dispatch_runs [OF iok, of "unat c" run "ucast v" tf] keep c
      by (simp add: core_of_set unat_ucast_up word_less_nat_alt)
    moreover have "live_chain c' v' ?st = live_chain c' v' st" if "(c', v') \<noteq> (unat c, unat v)" for c' v'
      using that Some c by (auto simp: live_chain_def core_of_set)
    ultimately show ?thesis using i iok lc by simp
  qed
qed

text \<open>One core with no handlers.\<close>

definition demo_irqs :: "unit irq_state" where
  "demo_irqs = \<lparr>cpu_blocks = [Some \<lparr>routines = replicate 256 \<lparr>handlers = [0, 0, 0, 0], chain_count = 0\<rparr>, irq_stats = replicate 256 0\<rparr>],
     lapic = \<lparr>lapic_base = 0x1000, cached_lapic_calibration = 0, lapic_writes = [], lapic_reads = 0\<rparr>, rest = ()\<rparr>"

theorem irq_install_dispatch_witness:
  "\<exists>st'. irq_install_handler 0 33 0x7000 demo_irqs = Inr st' \<and> live_chain 0 33 st' = [0x7000] \<and>
     (\<exists>st2. irq_dispatch (\<lambda>h tf st. Inr (st, h)) 0 33 0x9000 st' = Inr (st2, 0x7000))"
proof -
  have "core_of 0 demo_irqs = Some \<lparr>routines = replicate 256 \<lparr>handlers = [0, 0, 0, 0], chain_count = 0\<rparr>, irq_stats = replicate 256 0\<rparr>"
    by (simp add: core_of_def demo_irqs_def)
  moreover have "core_of c demo_irqs = None" if "c \<noteq> 0" for c using that by (simp add: core_of_def demo_irqs_def)
  ultimately have cases: "k = \<lparr>routines = replicate 256 \<lparr>handlers = [0, 0, 0, 0], chain_count = 0\<rparr>, irq_stats = replicate 256 0\<rparr>"
    if "core_of c demo_irqs = Some k" for c k using that by (cases "c = 0") simp_all
  have ok: "irqs_ok demo_irqs" unfolding irqs_ok_def by (auto dest!: cases simp: core_ok_def MAX_HANDLERS_PER_VECTOR_def)
  have l: "live_chain 0 33 demo_irqs = []" by (simp add: live_chain_def core_of_def demo_irqs_def)
  have k: "keeps_chain (\<lambda>h tf st. Inr (st, h)) (unat (0 :: u32)) (unat (33 :: u8))" by (simp add: keeps_chain_def)
  obtain st' where i: "irq_install_handler 0 33 0x7000 demo_irqs = Inr st'"
    by (simp add: irq_install_handler_def core_of_def demo_irqs_def Let_def MAX_HANDLERS_PER_VECTOR_def)
  show ?thesis using irq_install_dispatch [OF ok k, of "0x7000" "0x9000"] i l by auto
qed

end
