(* ===== verification/Acpi.thy ===== *)
theory Acpi
  imports Layout Time
begin

text \<open>
  The ACPI tables (\<^verbatim>\<open>src/firmware/acpi\<close>): the walk over the root table, the checksum, and the parsers of
  the MADT (interrupt routing), MCFG (memory mapped PCI configuration), FADT (power management), CEDT
  (CXL windows), WAET and BGRT tables; the HPET parser is in theory \<open>Time\<close>.

  The tables are read from memory by address, at the offsets of the packed structures. The static
  variables of the parsers are one record; the null pointer is 0 and the arrays \<^verbatim>\<open>isos\<close> and its count
  are the list of the entries in use. A walk whose records never reach the end of their table has no value.
\<close>

section \<open>State\<close>

record madt_iso_t =
  bus_source :: u8
  gsi :: u32
  iso_flags :: u16

record cedt_ret_t =
  phys_base :: u64
  cxl_size :: u64
  host_bridge_uid :: u32
  cxl_found :: bool

record acpi_state =
  xsdt :: u64
  is_xsdt :: bool
  lapic_phys :: u64
  ioapic_phys :: u64
  isos :: "madt_iso_t list"
  mcfg_ptr :: u64
  mcfg_entry_count :: u64
  primary_entry :: u64
  mcfg_is_initialized :: bool
  fadt :: u64
  g_cxl_info :: cedt_ret_t
  bgrt_vaddr :: u64
  waet_notes :: "string list"
  hpet :: hpet_state
  tables :: paging_state

text \<open>The part of a table header that is used.\<close>

definition SDT_HEADER_SIZE :: u64 where "SDT_HEADER_SIZE = 36"

definition sdt_length :: "memory \<Rightarrow> u64 \<Rightarrow> u32" where "sdt_length m table = rd32 m (table + 4)"

fun checksum_loop :: "memory \<Rightarrow> u64 \<Rightarrow> nat \<Rightarrow> nat \<Rightarrow> u8 \<Rightarrow> u8" where
  "checksum_loop m table i 0 acc = acc"
| "checksum_loop m table i (Suc k) acc = checksum_loop m table (Suc i) k (acc + m (table + of_nat i))"

definition acpi_checksum :: "memory \<Rightarrow> u64 \<Rightarrow> bool" where
  "acpi_checksum m table \<longleftrightarrow> checksum_loop m table 0 (unat (sdt_length m table)) 0 = 0"

text \<open>The checks of \<^verbatim>\<open>memcpy\<close> and \<^verbatim>\<open>memcmp\<close> on the operand that lies in a table; the other one is a local variable or a constant.\<close>

definition checked :: "string \<Rightarrow> u64 \<Rightarrow> nat \<Rightarrow> unit outcome" where
  "checked operand p n =
     (if p = 0 then Inl (Panic ''MEMORY'' (operand @ '' is null''))
      else if \<not> range_is_safe p (of_nat n) then Inl (Panic ''MEMORY'' (operand @ '' is out of range''))
      else Inr ())"

section \<open>MADT\<close>

definition MADT_TYPE_LAPIC :: u8 where "MADT_TYPE_LAPIC = 0"
definition MADT_TYPE_IOAPIC :: u8 where "MADT_TYPE_IOAPIC = 1"
definition MADT_TYPE_ISO :: u8 where "MADT_TYPE_ISO = 2"
definition IOAPIC_POLARITY_LOW :: u32 where "IOAPIC_POLARITY_LOW = push_bit 13 1"
definition IOAPIC_POLARITY_HIGH :: u32 where "IOAPIC_POLARITY_HIGH = push_bit 13 0"
definition IOAPIC_TRIGGER_LEVEL :: u32 where "IOAPIC_TRIGGER_LEVEL = push_bit 15 1"
definition IOAPIC_TRIGGER_EDGE :: u32 where "IOAPIC_TRIGGER_EDGE = push_bit 15 0"

text \<open>One record of the table.\<close>

definition madt_entry :: "memory \<Rightarrow> u64 \<Rightarrow> acpi_state \<Rightarrow> acpi_state outcome" where
  "madt_entry m p st =
     (let type = m p in
      if type = MADT_TYPE_LAPIC then Inr st
      else if type = MADT_TYPE_IOAPIC then
        and_then (checked ''memcpy src'' (p + 4) 4) (\<lambda>_. Inr (st\<lparr>ioapic_phys := ucast (rd32 m (p + 4))\<rparr>))
      else if type = MADT_TYPE_ISO then
        (if length (isos st) < 16
         then and_then (checked ''memcpy src'' (p + 4) 4) (\<lambda>_. and_then (checked ''memcpy src'' (p + 8) 2) (\<lambda>_.
           Inr (st\<lparr>isos := isos st @ [\<lparr>bus_source = m (p + 3), gsi = rd32 m (p + 4), iso_flags = rd16 m (p + 8)\<rparr>]\<rparr>)))
         else Inr st)
      else Inr st)"

partial_function (option) madt_loop :: "memory \<Rightarrow> u64 \<Rightarrow> u64 \<Rightarrow> acpi_state \<Rightarrow> acpi_state outcome option" where
  "madt_loop m fin p st =
     (if p < fin then
        (let len = m (p + 1) in
         if len = 0 then Some (Inr st)
         else case madt_entry m p st of Inl e \<Rightarrow> Some (Inl e) | Inr st' \<Rightarrow> madt_loop m fin (p + ucast len) st')
      else Some (Inr st))"

definition madt_init :: "memory \<Rightarrow> u64 \<Rightarrow> acpi_state \<Rightarrow> acpi_state outcome option" where
  "madt_init m table st =
     madt_loop m (table + ucast (sdt_length m table)) (table + 44) (st\<lparr>lapic_phys := ucast (rd32 m (table + 36))\<rparr>)"

fun query_loop :: "u8 \<Rightarrow> madt_iso_t list \<Rightarrow> (u8 \<times> u32) \<Rightarrow> u8 \<times> u32" where
  "query_loop irq [] out = out"
| "query_loop irq (e # es) (pin, flags) =
     (if bus_source e = irq then
        (let f1 = (if iso_flags e AND 3 = 3 then (flags OR IOAPIC_POLARITY_LOW) else flags);
             f2 = (if drop_bit 2 (iso_flags e) AND 3 = 3 then (f1 OR IOAPIC_TRIGGER_LEVEL) else f1) in
         (ucast (gsi e), f2))
      else query_loop irq es (pin, flags))"

definition madt_query_irq :: "u8 \<Rightarrow> acpi_state \<Rightarrow> u8 \<times> u32" where
  "madt_query_irq irq st = query_loop irq (isos st) (irq, IOAPIC_TRIGGER_EDGE OR IOAPIC_POLARITY_HIGH)"

definition madt_get_lapic_base :: "acpi_state \<Rightarrow> u64" where "madt_get_lapic_base st = lapic_phys st"
definition madt_get_ioapic_base :: "acpi_state \<Rightarrow> u64" where "madt_get_ioapic_base st = ioapic_phys st"

section \<open>MCFG\<close>

text \<open>The table header is 44 bytes, an entry 16: base, segment group, first and last bus.\<close>

definition mcfg_entry_at :: "u64 \<Rightarrow> nat \<Rightarrow> u64" where "mcfg_entry_at table i = table + 44 + 16 * of_nat i"
definition base_address :: "memory \<Rightarrow> u64 \<Rightarrow> u64" where "base_address m e = rd64 m e"
definition segment_group :: "memory \<Rightarrow> u64 \<Rightarrow> u16" where "segment_group m e = rd16 m (e + 8)"
definition start_bus :: "memory \<Rightarrow> u64 \<Rightarrow> u8" where "start_bus m e = m (e + 10)"
definition end_bus :: "memory \<Rightarrow> u64 \<Rightarrow> u8" where "end_bus m e = m (e + 11)"

definition mcfg_init :: "memory \<Rightarrow> u64 \<Rightarrow> acpi_state \<Rightarrow> acpi_state" where
  "mcfg_init m table st =
     (let count = (ucast (sdt_length m table) - 44) div 16;
          st1 = st\<lparr>mcfg_ptr := table, mcfg_entry_count := count\<rparr>;
          st2 = (if 0 < count \<and> segment_group m (mcfg_entry_at table 0) = 0 then st1\<lparr>primary_entry := mcfg_entry_at table 0\<rparr> else st1) in
      st2\<lparr>mcfg_is_initialized := True\<rparr>)"

fun mcfg_find :: "memory \<Rightarrow> u64 \<Rightarrow> u16 \<Rightarrow> u8 \<Rightarrow> nat \<Rightarrow> nat \<Rightarrow> u64" where
  "mcfg_find m table segment bus i 0 = 0"
| "mcfg_find m table segment bus i (Suc k) =
     (let e = mcfg_entry_at table i in
      if segment_group m e = segment \<and> start_bus m e \<le> bus \<and> bus \<le> end_bus m e then e else mcfg_find m table segment bus (Suc i) k)"

definition mcfg_get_device_addr :: "memory \<Rightarrow> u64 \<Rightarrow> acpi_state \<Rightarrow> u16 \<Rightarrow> u8 \<Rightarrow> u8 \<Rightarrow> u8 \<Rightarrow> u64" where
  "mcfg_get_device_addr m hhdm_off st segment bus slot func =
     (if mcfg_ptr st = 0 then 0
      else
        let entry = (if primary_entry st \<noteq> 0 \<and> segment = 0 \<and> bus \<le> end_bus m (primary_entry st) then primary_entry st
                     else mcfg_find m (mcfg_ptr st) segment bus 0 (unat (mcfg_entry_count st))) in
        if entry = 0 then 0
        else
          let base = base_address m entry + hhdm_off;
              bus_off = word_of_int (uint bus - uint (start_bus m entry)) :: u32 in
          base + ucast (push_bit 20 bus_off OR push_bit 15 (ucast slot) OR push_bit 12 (ucast func)))"

section \<open>FADT\<close>

text \<open>The offsets are those of the structure in \<^verbatim>\<open>fadt.h\<close>.\<close>

definition fadt_init :: "u64 \<Rightarrow> acpi_state \<Rightarrow> acpi_state" where
  "fadt_init table st = st\<lparr>fadt := table\<rparr>"

definition fadt_dsdt :: "memory \<Rightarrow> u64 \<Rightarrow> u32" where "fadt_dsdt m t = rd32 m (t + 40)"
definition fadt_pm1a_cnt_blk :: "memory \<Rightarrow> u64 \<Rightarrow> u32" where "fadt_pm1a_cnt_blk m t = rd32 m (t + 64)"
definition fadt_x_dsdt :: "memory \<Rightarrow> u64 \<Rightarrow> u64" where "fadt_x_dsdt m t = rd64 m (t + 136)"
definition fadt_x_pm1a_space :: "memory \<Rightarrow> u64 \<Rightarrow> u8" where "fadt_x_pm1a_space m t = m (t + 168)"
definition fadt_x_pm1a_address :: "memory \<Rightarrow> u64 \<Rightarrow> u64" where "fadt_x_pm1a_address m t = rd64 m (t + 172)"

definition fadt_get_pm1a_cnt :: "memory \<Rightarrow> acpi_state \<Rightarrow> u64" where
  "fadt_get_pm1a_cnt m st =
     (if fadt st = 0 then 0
      else if 244 \<le> sdt_length m (fadt st) \<and> fadt_x_pm1a_address m (fadt st) \<noteq> 0 then fadt_x_pm1a_address m (fadt st)
      else ucast (fadt_pm1a_cnt_blk m (fadt st)))"

definition fadt_is_pm1a_mmio :: "memory \<Rightarrow> acpi_state \<Rightarrow> bool" where
  "fadt_is_pm1a_mmio m st =
     (if fadt st = 0 then False
      else if 244 \<le> sdt_length m (fadt st) \<and> fadt_x_pm1a_address m (fadt st) \<noteq> 0 then fadt_x_pm1a_space m (fadt st) = 0
      else False)"

text \<open>The search for the S5 package in the byte code of the DSDT; the counter has 32 bits.\<close>

definition S5_NAME :: "u8 list" where "S5_NAME = map of_char ''_S5_''"

partial_function (option) s5_loop :: "memory \<Rightarrow> u64 \<Rightarrow> u32 \<Rightarrow> u32 \<Rightarrow> u16 outcome option" where
  "s5_loop m dsdt dsdt_len i =
     (if i < dsdt_len - 8 then
        (case checked ''memcmp s1'' (dsdt + ucast i) 4 of
           Inl e \<Rightarrow> Some (Inl e)
         | Inr _ \<Rightarrow>
             if bytes_at m (dsdt + ucast i) 4 = S5_NAME then
               (let i4 = i + 4 in
                if m (dsdt + ucast i4) = 0x12 then
                  (let i5 = i4 + 1;
                       pkg_len = m (dsdt + ucast i5);
                       k = drop_bit 6 pkg_len;
                       i6 = (if k = 0 then i5 + 1 else if k = 1 then i5 + 2 else if k = 2 then i5 + 3 else i5 + 4);
                       i7 = i6 + 1 in
                   Some (Inr (push_bit 10 (ucast (m (dsdt + ucast i7))))))
                else s5_loop m dsdt dsdt_len (i4 + 1))
             else s5_loop m dsdt dsdt_len (i + 1))
      else Some (Inr (push_bit 10 5)))"

definition fadt_get_s5_types :: "memory \<Rightarrow> u64 \<Rightarrow> acpi_state \<Rightarrow> u16 outcome option" where
  "fadt_get_s5_types m hhdm_off st =
     (if fadt st = 0 then Some (Inr (push_bit 10 5))
      else
        let dsdt = (if 148 \<le> sdt_length m (fadt st) \<and> fadt_x_dsdt m (fadt st) \<noteq> 0 then fadt_x_dsdt m (fadt st) + hhdm_off
                    else ucast (fadt_dsdt m (fadt st)) + hhdm_off) in
        case checked ''memcpy src'' (dsdt + 4) 4 of
          Inl e \<Rightarrow> Some (Inl e)
        | Inr _ \<Rightarrow> s5_loop m dsdt (rd32 m (dsdt + 4)) 0)"

section \<open>CEDT\<close>

definition ACPI_CEDT_TYPE_CHBS :: u8 where "ACPI_CEDT_TYPE_CHBS = 0"
definition ACPI_CEDT_TYPE_CFMWS :: u8 where "ACPI_CEDT_TYPE_CFMWS = 1"
definition ACPI_CEDT_CFMWS_RESTRICT_TYPE3 :: u16 where "ACPI_CEDT_CFMWS_RESTRICT_TYPE3 = push_bit 1 1"
definition ACPI_CEDT_CFMWS_RESTRICT_CXL_RAM :: u16 where "ACPI_CEDT_CFMWS_RESTRICT_CXL_RAM = push_bit 3 1"

definition cedt_get_info :: "acpi_state \<Rightarrow> cedt_ret_t option" where
  "cedt_get_info st = (if \<not> cxl_found (g_cxl_info st) then None else Some (g_cxl_info st))"

text \<open>The targets of a window; the uid of the first accepted one.\<close>

fun cfmws_target :: "memory \<Rightarrow> u64 \<Rightarrow> u32 option \<Rightarrow> nat \<Rightarrow> nat \<Rightarrow> u32 option" where
  "cfmws_target m p uid i 0 = None"
| "cfmws_target m p uid i (Suc k) =
     (let t = rd32 m (p + 36 + 4 * of_nat i) in
      if uid = None \<or> uid = Some t then Some t else cfmws_target m p uid (Suc i) k)"

partial_function (option) cedt_loop :: "memory \<Rightarrow> u64 \<Rightarrow> u64 \<Rightarrow> u32 option \<Rightarrow> acpi_state \<Rightarrow> acpi_state option" where
  "cedt_loop m fin p uid st =
     (if p < fin then
        (let len = rd16 m (p + 2) in
         if len = 0 then Some st
         else if m p = ACPI_CEDT_TYPE_CHBS then cedt_loop m fin (p + ucast len) (Some (rd32 m (p + 4))) st
         else if m p = ACPI_CEDT_TYPE_CFMWS then
           (let restrict = rd16 m (p + 34);
                valid = (restrict = 0 \<or> restrict AND (ACPI_CEDT_CFMWS_RESTRICT_TYPE3 OR ACPI_CEDT_CFMWS_RESTRICT_CXL_RAM) \<noteq> 0);
                num_targets = (push_bit (unat (rd32 m (p + 28)) mod 32) 1 :: u32) in
            case (if valid then cfmws_target m p uid 0 (unat num_targets) else None) of
              Some t \<Rightarrow> Some (st\<lparr>g_cxl_info := \<lparr>phys_base = rd64 m (p + 8), cxl_size = rd64 m (p + 16), host_bridge_uid = t, cxl_found = True\<rparr>\<rparr>)
            | None \<Rightarrow> cedt_loop m fin (p + ucast len) uid st)
         else cedt_loop m fin (p + ucast len) uid st)
      else Some st)"

definition cedt_init :: "memory \<Rightarrow> u64 \<Rightarrow> acpi_state \<Rightarrow> acpi_state option" where
  "cedt_init m table st = cedt_loop m (table + ucast (sdt_length m table)) (table + SDT_HEADER_SIZE) None st"

section \<open>WAET and BGRT\<close>

definition waet_init :: "memory \<Rightarrow> u64 \<Rightarrow> acpi_state \<Rightarrow> acpi_state" where
  "waet_init m table st =
     (let flags = rd32 m (table + 36);
          st1 = (if flags AND 1 \<noteq> 0 then st\<lparr>waet_notes := waet_notes st @ [''[ ACPI ] WAET reports RTC CMOS at non-standard index'' @ [CHR 0x0A]]\<rparr> else st) in
      if flags AND 2 \<noteq> 0 then st1\<lparr>waet_notes := waet_notes st1 @ [''[ ACPI ] WAET reports ACPI Power Management supported'' @ [CHR 0x0A]]\<rparr> else st1)"

definition bgrt_init :: "memory \<Rightarrow> u64 \<Rightarrow> u64 \<Rightarrow> acpi_state \<Rightarrow> acpi_state" where
  "bgrt_init m hhdm_off table st =
     (if m (table + 38) AND 1 = 0 \<or> m (table + 39) \<noteq> 0 then st
      else st\<lparr>bgrt_vaddr := rd64 m (table + 40) + hhdm_off\<rparr>)"

section \<open>The root table\<close>

text \<open>
  A handler may not return, may panic (mapping the HPET may run out of memory), or change the state.
  The argument \<open>dev\<close> gives the root of the page tables and the HPET's capability register.
\<close>

type_synonym handler = "u64 \<Rightarrow> acpi_state \<Rightarrow> acpi_state outcome option"

definition hpet_handler :: "memory \<Rightarrow> u64 \<Rightarrow> u64 \<Rightarrow> handler" where
  "hpet_handler m pml4 caps table st =
     Some (and_then (hpet_init pml4 (rd64 m (table + 44)) caps (hpet st) (tables st)) (\<lambda>(h, pg). Inr (st\<lparr>hpet := h, tables := pg\<rparr>)))"

definition acpi_discovery_table :: "memory \<Rightarrow> u64 \<Rightarrow> u64 \<Rightarrow> u64 \<Rightarrow> (string \<times> handler) list" where
  "acpi_discovery_table m hhdm_off pml4 caps =
     [(''APIC'', madt_init m),
      (''FACP'', \<lambda>t st. Some (Inr (fadt_init t st))),
      (''MCFG'', \<lambda>t st. Some (Inr (mcfg_init m t st))),
      (''CEDT'', \<lambda>t st. map_option Inr (cedt_init m t st)),
      (''HPET'', hpet_handler m pml4 caps),
      (''WAET'', \<lambda>t st. Some (Inr (waet_init m t st))),
      (''BGRT'', \<lambda>t st. Some (Inr (bgrt_init m hhdm_off t st)))]"

fun dispatch :: "memory \<Rightarrow> (string \<times> handler) list \<Rightarrow> handler" where
  "dispatch m [] table st = Some (Inr st)"
| "dispatch m ((sig, h) # hs) table st =
     (case checked ''memcmp s1'' table 4 of
        Inl e \<Rightarrow> Some (Inl e)
      | Inr _ \<Rightarrow> if bytes_at m table 4 = map of_char sig then h table st else dispatch m hs table st)"

text \<open>The entry \<open>i\<close> of the root table.\<close>

definition root_entry :: "memory \<Rightarrow> acpi_state \<Rightarrow> nat \<Rightarrow> u64 outcome" where
  "root_entry m st i =
     (let base = xsdt st + SDT_HEADER_SIZE in
      if is_xsdt st then and_then (checked ''memcpy src'' (base + of_nat i * 8) 8) (\<lambda>_. Inr (rd64 m (base + of_nat i * 8)))
      else and_then (checked ''memcpy src'' (base + of_nat i * 4) 4) (\<lambda>_. Inr (ucast (rd32 m (base + of_nat i * 4)))))"

text \<open>The tables from entry \<open>i\<close> on, with \<open>k\<close> to go. The signature of a table is copied for the log before the checksum decides.\<close>

fun acpi_tables :: "memory \<Rightarrow> u64 \<Rightarrow> (string \<times> handler) list \<Rightarrow> nat \<Rightarrow> nat \<Rightarrow> acpi_state \<Rightarrow> acpi_state outcome option" where
  "acpi_tables m hhdm_off hs i 0 st = Some (Inr st)"
| "acpi_tables m hhdm_off hs i (Suc k) st =
     (case root_entry m st i of
        Inl e \<Rightarrow> Some (Inl e)
      | Inr table_phys \<Rightarrow>
          let table = table_phys + hhdm_off in
          if table_phys = 0 then acpi_tables m hhdm_off hs (Suc i) k st
          else
            case checked ''memcpy src'' table 4 of
              Inl e \<Rightarrow> Some (Inl e)
            | Inr _ \<Rightarrow>
                if \<not> acpi_checksum m table then acpi_tables m hhdm_off hs (Suc i) k st
                else
                  case dispatch m hs table st of
                    None \<Rightarrow> None
                  | Some (Inl e) \<Rightarrow> Some (Inl e)
                  | Some (Inr st') \<Rightarrow> acpi_tables m hhdm_off hs (Suc i) k st')"

definition acpi_init :: "memory \<Rightarrow> u64 \<Rightarrow> (string \<times> handler) list \<Rightarrow> u64 \<Rightarrow> acpi_state \<Rightarrow> acpi_state outcome option" where
  "acpi_init m hhdm_off hs rsdp st0 =
     (let st = (if 2 \<le> m (rsdp + 15) \<and> rd64 m (rsdp + 24) \<noteq> 0
            then st0\<lparr>xsdt := rd64 m (rsdp + 24) + hhdm_off, is_xsdt := True\<rparr>
            else st0\<lparr>xsdt := ucast (rd32 m (rsdp + 16)) + hhdm_off, is_xsdt := False\<rparr>) in
      if xsdt st = 0 then Some (Inr st)
      else
        let ptr_size = (if is_xsdt st then 8 else 4 :: u64);
            entries = sint (ucast ((ucast (sdt_length m (xsdt st)) - SDT_HEADER_SIZE) div ptr_size) :: u32) in
        acpi_tables m hhdm_off hs 0 (nat entries) st)"

section \<open>Records in memory\<close>

text \<open>A record of the MADT as the bytes of the table, and what it says.\<close>

definition madt_record :: "u8 list \<Rightarrow> bool" where
  "madt_record e \<longleftrightarrow> 2 \<le> length e \<and> unat (e ! 1) = length e \<and> (e ! 0 = MADT_TYPE_IOAPIC \<longrightarrow> 8 \<le> length e) \<and> (e ! 0 = MADT_TYPE_ISO \<longrightarrow> 10 \<le> length e)"

definition iso_of :: "u8 list \<Rightarrow> madt_iso_t" where
  "iso_of e = \<lparr>bus_source = e ! 3, gsi = of_nat (le_value (take 4 (drop 4 e))), iso_flags = of_nat (le_value (take 2 (drop 8 e)))\<rparr>"

definition ioapic_of :: "u8 list \<Rightarrow> u64" where
  "ioapic_of e = ucast (of_nat (le_value (take 4 (drop 4 e))) :: u32)"

fun read_records :: "u8 list list \<Rightarrow> acpi_state \<Rightarrow> acpi_state" where
  "read_records [] st = st"
| "read_records (e # es) st = read_records es
     (if e ! 0 = MADT_TYPE_IOAPIC then st\<lparr>ioapic_phys := ioapic_of e\<rparr>
      else if e ! 0 = MADT_TYPE_ISO then st\<lparr>isos := take 16 (isos st @ [iso_of e])\<rparr>
      else st)"

lemma bytes_at_nth: "i < n \<Longrightarrow> bytes_at m p n = e \<Longrightarrow> m (p + of_nat i) = e ! i"
  by (auto simp: bytes_at_def)

lemma bytes_at_part: "bytes_at m p (length e) = e \<Longrightarrow> k + n \<le> length e \<Longrightarrow> bytes_at m (p + of_nat k) n = take n (drop k e)"
  using bytes_at_drop [of k "length e" m p] bytes_at_take [of n "length e - k" m "p + of_nat k"] by simp

text \<open>Tables are reached through the direct map, in the upper half of the address space.\<close>

definition upper :: "u64 \<Rightarrow> nat \<Rightarrow> bool" where
  "upper p n \<longleftrightarrow> 2 ^ 64 - 2 ^ 56 \<le> unat p \<and> unat p + n < 2 ^ 64"

lemma upper_part: "upper p n \<Longrightarrow> k + j \<le> n \<Longrightarrow> upper (p + of_nat k) j"
  using unat_offset [of p k] by (simp add: upper_def)

lemma upper_checked:
  assumes "upper p n"
  shows "checked operand p n = Inr ()"
proof (cases n)
  case 0
  then show ?thesis using assms by (auto simp: checked_def range_is_safe_def upper_def)
next
  case (Suc k)
  have e: "p + of_nat n - 1 = p + of_nat k" using Suc by simp
  have u: "unat (p + of_nat k) = unat p + k" using assms Suc by (intro unat_offset) (simp add: upper_def)
  have "p \<noteq> 0" using assms by (auto simp: upper_def)
  moreover have "range_is_safe p (of_nat n)"
    unfolding range_is_safe_def Let_def e canonical_iff word_less_nat_alt u using assms Suc by (auto simp: upper_def)
  ultimately show ?thesis by (simp add: checked_def)
qed

lemma madt_entry_record:
  assumes r: "madt_record e" and b: "bytes_at m p (length e) = e" and l: "length (isos st) \<le> 16" and u: "upper p (length e)"
  shows "madt_entry m p st = Inr (if e ! 0 = MADT_TYPE_IOAPIC then st\<lparr>ioapic_phys := ioapic_of e\<rparr>
      else if e ! 0 = MADT_TYPE_ISO then st\<lparr>isos := take 16 (isos st @ [iso_of e])\<rparr> else st)"
proof -
  have l2: "2 \<le> length e" using r by (simp add: madt_record_def)
  have t: "m p = e ! 0" using bytes_at_nth [of 0 "length e" m p e] b l2 by (cases e) simp_all
  have io: "rd32 m (p + 4) = of_nat (le_value (take 4 (drop 4 e)))" if "8 \<le> length e"
    using bytes_at_part [OF b, of 4 4] that by (simp add: rd32_def)
  have fl: "rd16 m (p + 8) = of_nat (le_value (take 2 (drop 8 e)))" if "10 \<le> length e"
    using bytes_at_part [OF b, of 8 2] that by (simp add: rd16_def)
  have bs: "m (p + 3) = e ! 3" if "10 \<le> length e" using bytes_at_nth [of 3 "length e" m p e] b that by simp
  have ck: "checked operand (p + 4) 4 = Inr ()" if "8 \<le> length e" for operand
    using upper_checked [OF upper_part [OF u, of 4 4]] that by simp
  have ck8: "checked operand (p + 8) 2 = Inr ()" if "10 \<le> length e" for operand
    using upper_checked [OF upper_part [OF u, of 8 2]] that by simp
  have ne: "MADT_TYPE_LAPIC \<noteq> MADT_TYPE_IOAPIC" "MADT_TYPE_LAPIC \<noteq> MADT_TYPE_ISO" "MADT_TYPE_IOAPIC \<noteq> MADT_TYPE_ISO"
    by (simp_all add: MADT_TYPE_LAPIC_def MADT_TYPE_IOAPIC_def MADT_TYPE_ISO_def)
  have full: "take 16 (isos st @ [x]) = (if length (isos st) < 16 then isos st @ [x] else isos st)" for x
    using l by (auto simp: take_append)
  consider "e ! 0 = MADT_TYPE_IOAPIC" | "e ! 0 = MADT_TYPE_ISO" | "e ! 0 \<noteq> MADT_TYPE_IOAPIC" "e ! 0 \<noteq> MADT_TYPE_ISO" by blast
  then show ?thesis
  proof cases
    case 1
    then have "8 \<le> length e" using r by (simp add: madt_record_def)
    then show ?thesis using 1 ne io ck by (simp add: madt_entry_def Let_def t ioapic_of_def)
  next
    case 2
    then have "10 \<le> length e" using r by (simp add: madt_record_def)
    then show ?thesis using 2 ne io fl bs l ck ck8 by (cases "length (isos st) < 16") (simp_all add: madt_entry_def Let_def t iso_of_def full)
  next
    case 3
    then show ?thesis by (simp add: madt_entry_def Let_def t)
  qed
qed

lemma read_records_length: "length (isos st) \<le> 16 \<Longrightarrow> length (isos (read_records es st)) \<le> 16"
  by (induction es arbitrary: st) auto

lemma len_le: "LENGTH(8) \<le> LENGTH(64)"
  by simp

lemma madt_loop_records:
  assumes "\<forall>e\<in>set es. madt_record e" and "bytes_at m p (length (concat es)) = concat es" and "length (isos st) \<le> 16"
    and "upper p (length (concat es))" and "fin = p + of_nat (length (concat es))"
  shows "madt_loop m fin p st = Some (Inr (read_records es st))"
  using assms
proof (induction es arbitrary: p st)
  case Nil
  then show ?case by (subst madt_loop.simps) simp
next
  case (Cons e es)
  have r: "madt_record e" using Cons.prems(1) by simp
  then have l: "2 \<le> length e" "unat (e ! 1) = length e" by (auto simp: madt_record_def)
  have b: "bytes_at m p (length e) = e" "bytes_at m (p + of_nat (length e)) (length (concat es)) = concat es"
    using Cons.prems(2) bytes_at_append [of m p "length e" "length (concat es)"] by auto
  have m1: "m (p + 1) = e ! 1" using bytes_at_nth [of 1 "length e" m p e] b(1) l(1) by simp
  have nz: "e ! 1 \<noteq> 0" using l by auto
  have len: "ucast (e ! 1) = (of_nat (length e) :: u64)"
    using l(2) unat_ucast_up [of "e ! 1", where 'b = 64] by (metis of_nat_unat_id len_le)
  have fin: "fin = p + of_nat (length e) + of_nat (length (concat es))" using Cons.prems(5) by simp
  have "unat (p + of_nat (length (concat (e # es)))) = unat p + length (concat (e # es))" using Cons.prems(4) by (intro unat_offset) (simp add: upper_def)
  moreover have "0 < length (concat (e # es))" using l(1) by (cases e) simp_all
  ultimately have "p < fin" using Cons.prems(5) by (simp only: word_less_nat_alt)
  have u: "upper p (length e)" "upper (p + of_nat (length e)) (length (concat es))"
    using upper_part [OF Cons.prems(4), of 0 "length e"] upper_part [OF Cons.prems(4), of "length e" "length (concat es)"] by simp_all
  obtain st1 where st1: "madt_entry m p st = Inr st1" "read_records (e # es) st = read_records es st1" "length (isos st1) \<le> 16"
    using madt_entry_record [OF r b(1) Cons.prems(3) u(1)] Cons.prems(3) by (cases "e ! 0 = MADT_TYPE_IOAPIC"; cases "e ! 0 = MADT_TYPE_ISO") auto
  have "madt_loop m fin p st = madt_loop m fin (p + of_nat (length e)) st1"
    using nz len st1(1) \<open>p < fin\<close> by (subst madt_loop.simps) (simp add: m1 Let_def)
  also have "\<dots> = Some (Inr (read_records es st1))"
    using Cons.prems(1) fin b(2) u(2) st1(3) by (intro Cons.IH) auto
  finally show ?case using st1(2) by simp
qed

lemma read_records_isos:
  assumes "length (isos st) \<le> 16"
  shows "isos (read_records es st) = take 16 (isos st @ map iso_of (filter (\<lambda>e. e ! 0 = MADT_TYPE_ISO) es))"
  using assms
proof (induction es arbitrary: st)
  case (Cons e es)
  have ne: "MADT_TYPE_IOAPIC \<noteq> MADT_TYPE_ISO" by (simp add: MADT_TYPE_IOAPIC_def MADT_TYPE_ISO_def)
  have tk: "take 16 (take 16 (xs @ [y]) @ ys) = take 16 (xs @ y # ys)" for xs ys and y :: madt_iso_t
    by (cases "length xs < 16") (auto simp: take_append)
  show ?case
  proof (cases "e ! 0 = MADT_TYPE_ISO")
    case True
    let ?s = "st\<lparr>isos := take 16 (isos st @ [iso_of e])\<rparr>"
    have "isos (read_records (e # es) st) = take 16 (isos ?s @ map iso_of (filter (\<lambda>e. e ! 0 = MADT_TYPE_ISO) es))"
      using Cons.IH [of ?s] True ne by simp
    also have "\<dots> = take 16 (isos st @ iso_of e # map iso_of (filter (\<lambda>e. e ! 0 = MADT_TYPE_ISO) es))"
    proof -
      have "isos ?s = take 16 (isos st @ [iso_of e])" by simp
      then show ?thesis by (simp only: tk)
    qed
    finally show ?thesis using True by (simp only: filter.simps list.map if_True simp_thms)
  next
    case False
    then show ?thesis using Cons by simp
  qed
qed simp

section \<open>Configuration windows\<close>

text \<open>The offset of a function's configuration space in the window of its segment.\<close>

definition ecam_offset :: "u8 \<Rightarrow> u8 \<Rightarrow> u8 \<Rightarrow> u8 \<Rightarrow> nat" where
  "ecam_offset first bus slot func = (unat bus - unat first) * 2 ^ 20 + unat slot * 2 ^ 15 + unat func * 2 ^ 12"

lemma bit_le_unat32: "bit (w :: u32) k \<Longrightarrow> 2 ^ k \<le> unat w"
proof -
  assume "bit w k"
  then have "bit (unat w) k" by (simp add: bit_unsigned_iff)
  then have "odd (unat w div 2 ^ k)" by (simp add: bit_iff_odd)
  then show ?thesis by (metis div_less even_zero not_less)
qed

lemma or_disjoint_add:
  assumes y: "unat (y :: u32) < 2 ^ n" and s: "x * 2 ^ n + unat y < 2 ^ 32"
  shows "unat (push_bit n (of_nat x) OR y) = x * 2 ^ n + unat y"
proof -
  have p: "push_bit n (of_nat x) = (of_nat (x * 2 ^ n) :: u32)" by (simp add: push_bit_eq_mult)
  have "\<not> bit y k" if "n \<le> k" for k
  proof
    assume "bit y k"
    then have "2 ^ k \<le> unat y" by (rule bit_le_unat32)
    moreover have "(2::nat) ^ n \<le> 2 ^ k" using that by (intro power_increasing) simp_all
    ultimately show False using y by linarith
  qed
  then have "push_bit n (of_nat x) + y = push_bit n (of_nat x) OR y" by (intro disjunctive_add) (auto simp: bit_simps)
  moreover have "of_nat (x * 2 ^ n) + y = (of_nat (x * 2 ^ n + unat y) :: u32)" by simp
  ultimately have "push_bit n (of_nat x) OR y = of_nat (x * 2 ^ n + unat y)" using p by simp
  then show ?thesis using s by (simp only: unat_of_nat) simp
qed

lemma ecam_word:
  assumes "slot < 32" "func < 8" "unat (first :: u8) \<le> unat (bus :: u8)"
  shows "unat (push_bit 20 (word_of_int (uint bus - uint first) :: u32) OR push_bit 15 (ucast (slot :: u8)) OR push_bit 12 (ucast (func :: u8)))
       = ecam_offset first bus slot func"
proof -
  have s: "unat slot < 32" "unat func < 8" using assms(1,2) by (simp_all add: word_less_nat_alt)
  have u: "ucast slot = (of_nat (unat slot) :: u32)" "ucast func = (of_nat (unat func) :: u32)" by simp_all
  have b: "word_of_int (uint bus - uint first) = (of_nat (unat bus - unat first) :: u32)"
    using assms(3) by (simp add: of_nat_diff)
  from unat_bounds(1) [of bus] have d: "unat bus - unat first < 256" by (rule order_le_less_trans [OF diff_le_self])
  have f: "unat (push_bit 12 (of_nat (unat func)) :: u32) = unat func * 2 ^ 12"
    using or_disjoint_add [of 0 12 "unat func"] s by simp
  have sf: "unat (push_bit 15 (of_nat (unat slot)) OR push_bit 12 (of_nat (unat func)) :: u32) = unat slot * 2 ^ 15 + unat func * 2 ^ 12"
    using or_disjoint_add [of "push_bit 12 (of_nat (unat func))" 15 "unat slot"] f s by simp
  show ?thesis
    using or_disjoint_add [of "push_bit 15 (of_nat (unat slot)) OR push_bit 12 (of_nat (unat func))" 20 "unat bus - unat first"] sf s d
    unfolding u b by (simp add: ecam_offset_def add.assoc)
qed

text \<open>What the table promises: the first entry that covers a bus of a segment gives the window.\<close>

definition covers :: "memory \<Rightarrow> u16 \<Rightarrow> u8 \<Rightarrow> u64 \<Rightarrow> bool" where
  "covers m segment bus e \<longleftrightarrow> segment_group m e = segment \<and> start_bus m e \<le> bus \<and> bus \<le> end_bus m e"

definition mcfg_entries :: "memory \<Rightarrow> u64 \<Rightarrow> u64 list" where
  "mcfg_entries m table = map (mcfg_entry_at table) [0..<(unat (sdt_length m table) - 44) div 16]"

definition device_window :: "memory \<Rightarrow> u64 \<Rightarrow> u64 \<Rightarrow> u16 \<Rightarrow> u8 \<Rightarrow> u8 \<Rightarrow> u8 \<Rightarrow> u64" where
  "device_window m hhdm_off table segment bus slot func =
     (case find (covers m segment bus) (mcfg_entries m table) of
        None \<Rightarrow> 0
      | Some e \<Rightarrow> base_address m e + hhdm_off + of_nat (ecam_offset (start_bus m e) bus slot func))"

lemma mcfg_find_entries:
  "(\<forall>j. i \<le> j \<and> j < i + k \<longrightarrow> mcfg_entry_at table j \<noteq> 0) \<Longrightarrow>
   mcfg_find m table segment bus i k = (case find (covers m segment bus) (map (mcfg_entry_at table) [i..<i + k]) of None \<Rightarrow> 0 | Some e \<Rightarrow> e)"
  by (induction k arbitrary: i) (auto simp: Let_def covers_def upt_conv_Cons simp del: upt_Suc)

lemma find_mem: "find P xs = Some x \<Longrightarrow> x \<in> set xs \<and> P x"
  by (auto simp: find_Some_iff)

lemma mcfg_count:
  assumes "44 \<le> sdt_length m table"
  shows "unat ((ucast (sdt_length m table) - 44 :: u64) div 16) = (unat (sdt_length m table) - 44) div 16"
proof -
  have "44 \<le> unat (sdt_length m table)" using assms by (simp add: word_le_nat_alt)
  moreover have u: "unat (ucast (sdt_length m table) :: u64) = unat (sdt_length m table)" by (rule unat_ucast_up) simp
  ultimately have "(44 :: u64) \<le> ucast (sdt_length m table)" by (simp add: word_le_nat_alt)
  then show ?thesis using u by (simp add: unat_div unat_sub)
qed

lemma mcfg_entry_nonzero:
  assumes "table \<noteq> 0" "unat table + unat (sdt_length m table) < 2 ^ 64" "i < (unat (sdt_length m table) - 44) div 16"
  shows "mcfg_entry_at table i \<noteq> 0"
proof -
  have "44 + 16 * i \<le> unat (sdt_length m table)" using assms(3) by linarith
  then have "unat (table + of_nat (44 + 16 * i)) = unat table + (44 + 16 * i)" using assms(2) by (intro unat_offset) linarith
  then have "unat (table + of_nat (44 + 16 * i)) \<noteq> 0" by linarith
  then show ?thesis by (auto simp: mcfg_entry_at_def add.assoc)
qed

lemma ecam_bounds:
  assumes "slot < 32" "func < 8" "unat first \<le> unat bus" "unat bus \<le> unat fin"
  shows "ecam_offset first bus slot func + 4096 \<le> (unat fin - unat first + 1) * 2 ^ 20"
  using assms by (simp add: ecam_offset_def word_less_nat_alt)

lemma digits_inj:
  assumes "(a * 32 + s) * 8 + f = (a' * 32 + s') * 8 + f'" "s < 32" "f < 8" "s' < 32" "f' < (8 :: nat)"
  shows "a = a' \<and> s = s' \<and> f = f'"
proof -
  have q: "x = x' \<and> y = y'" if "x * n + y = x' * n + y'" "y < n" "y' < n" for x y x' y' n :: nat
  proof -
    have "(x * n + y) div n = (x' * n + y') div n" "(x * n + y) mod n = (x' * n + y') mod n" using that(1) by simp_all
    then show ?thesis using that(2,3) by simp
  qed
  show ?thesis using q [OF assms(1)] q [of a 32 s a' s'] assms(2-5) by simp
qed

lemma ecam_apart:
  assumes "slot < 32" "func < 8" "slot' < 32" "func' < 8" "unat first \<le> unat bus" "unat first \<le> unat bus'"
    and ne: "(bus, slot, func) \<noteq> (bus', slot', func')"
  shows "ecam_offset first bus slot func + 4096 \<le> ecam_offset first bus' slot' func' \<or> ecam_offset first bus' slot' func' + 4096 \<le> ecam_offset first bus slot func"
proof -
  let ?n = "\<lambda>b s f. ((unat b - unat first) * 32 + unat s) * 8 + unat f"
  have o: "ecam_offset first b s f = ?n b s f * 4096" for b s f by (simp add: ecam_offset_def algebra_simps)
  have r: "unat slot < 32" "unat func < 8" "unat slot' < 32" "unat func' < 8" using assms by (simp_all add: word_less_nat_alt)
  have "?n bus slot func \<noteq> ?n bus' slot' func'"
  proof
    assume "?n bus slot func = ?n bus' slot' func'"
    then have "unat bus - unat first = unat bus' - unat first \<and> unat slot = unat slot' \<and> unat func = unat func'" using r by (intro digits_inj)
    then show False using ne assms(5,6) by (auto simp: word_unat_eq_iff)
  qed
  then have "?n bus slot func + 1 \<le> ?n bus' slot' func' \<or> ?n bus' slot' func' + 1 \<le> ?n bus slot func" by linarith
  then have "(?n bus slot func + 1) * 4096 \<le> ?n bus' slot' func' * 4096 \<or> (?n bus' slot' func' + 1) * 4096 \<le> ?n bus slot func * 4096"
    by (metis mult_le_mono1)
  then show ?thesis unfolding o by (simp only: add_mult_distrib mult_1)
qed

section \<open>What the tables give\<close>

lemma ucast_as_nat: "ucast (w :: u32) = (of_nat (unat w) :: u64)"
  by simp

lemma read_records_ioapic:
  "ioapic_phys (read_records es st) = last (ioapic_phys st # map ioapic_of (filter (\<lambda>e. e ! 0 = MADT_TYPE_IOAPIC) es))"
  by (induction es arbitrary: st) (auto simp: MADT_TYPE_IOAPIC_def MADT_TYPE_ISO_def)

lemma read_records_lapic: "lapic_phys (read_records es st) = lapic_phys st"
  by (induction es arbitrary: st) auto

text \<open>The pin and the flags an interrupt line is routed with.\<close>

definition route_of :: "madt_iso_t \<Rightarrow> u8 \<times> u32" where
  "route_of e = (ucast (gsi e), (if iso_flags e AND 3 = 3 then 0x2000 else 0) OR (if drop_bit 2 (iso_flags e) AND 3 = 3 then 0x8000 else 0))"

lemma query_loop_find:
  "query_loop irq es (irq, 0) = (case find (\<lambda>e. bus_source e = irq) es of None \<Rightarrow> (irq, 0) | Some e \<Rightarrow> route_of e)"
  by (induction es) (auto simp: route_of_def Let_def IOAPIC_POLARITY_LOW_def IOAPIC_TRIGGER_LEVEL_def push_bit_eq_mult)

text \<open>
  C31. Reading the interrupt routing table ends for every table that is a sequence of complete records: the
  local controller's address is the one of the header, the I/O controller's that of the last such record, the
  source overrides are kept in order up to the sixteen there is room for, and a query answers with the first
  override of the line, or with the line itself, edge triggered and active high.
\<close>

theorem madt_init_parses:
  assumes "\<forall>e\<in>set es. madt_record e" "bytes_at m (table + 44) (length (concat es)) = concat es"
    and "unat (sdt_length m table) = 44 + length (concat es)" "upper table (unat (sdt_length m table))" "isos st = []"
  shows "\<exists>st'. madt_init m table st = Some (Inr st') \<and>
     madt_get_lapic_base st' = ucast (rd32 m (table + 36)) \<and>
     madt_get_ioapic_base st' = last (ioapic_phys st # map ioapic_of (filter (\<lambda>e. e ! 0 = MADT_TYPE_IOAPIC) es)) \<and>
     isos st' = take 16 (map iso_of (filter (\<lambda>e. e ! 0 = MADT_TYPE_ISO) es)) \<and>
     (\<forall>irq. madt_query_irq irq st' = (case find (\<lambda>e. bus_source e = irq) (isos st') of None \<Rightarrow> (irq, 0) | Some e \<Rightarrow> route_of e))"
proof -
  let ?st = "st\<lparr>lapic_phys := ucast (rd32 m (table + 36))\<rparr>"
  have len: "ucast (sdt_length m table) = (of_nat (44 + length (concat es)) :: u64)" using assms(3) by (metis ucast_as_nat)
  have "upper (table + 44) (length (concat es))" using upper_part [OF assms(4), of 44 "length (concat es)"] assms(3) by simp
  then have "madt_loop m (table + ucast (sdt_length m table)) (table + 44) ?st = Some (Inr (read_records es ?st))"
    using assms len by (intro madt_loop_records) (simp_all add: add.assoc)
  then have "madt_init m table st = Some (Inr (read_records es ?st))" by (simp add: madt_init_def)
  moreover have "madt_query_irq irq s = (case find (\<lambda>e. bus_source e = irq) (isos s) of None \<Rightarrow> (irq, 0) | Some e \<Rightarrow> route_of e)" for irq s
    using query_loop_find by (simp add: madt_query_irq_def IOAPIC_TRIGGER_EDGE_def IOAPIC_POLARITY_HIGH_def)
  ultimately show ?thesis using assms(5)
    by (simp add: madt_get_lapic_base_def madt_get_ioapic_base_def read_records_ioapic read_records_lapic read_records_isos)
qed

text \<open>
  C32. The configuration window of a function is the one of the first entry of the table that covers its bus,
  at the function's offset, and no function of an uncovered bus has one; when the first entry is the one of
  segment 0 it has to start at bus 0, which the code takes for granted. Each window lies in the region of
  its entry, and the windows of distinct functions of a region do not overlap.
\<close>

theorem mcfg_windows:
  assumes "44 \<le> sdt_length m table" "table \<noteq> 0" "unat table + unat (sdt_length m table) < 2 ^ 64" "primary_entry st0 = 0"
    and p: "segment_group m (mcfg_entry_at table 0) = 0 \<Longrightarrow> start_bus m (mcfg_entry_at table 0) = 0"
    and "slot < 32" "func < 8"
  shows "mcfg_get_device_addr m hhdm_off (mcfg_init m table st0) segment bus slot func = device_window m hhdm_off table segment bus slot func \<and>
     (\<forall>e. covers m segment bus e \<longrightarrow>
        ecam_offset (start_bus m e) bus slot func + 4096 \<le> (unat (end_bus m e) - unat (start_bus m e) + 1) * 2 ^ 20 \<and>
        (\<forall>bus' slot' func'. covers m segment bus' e \<and> slot' < 32 \<and> func' < 8 \<and> (bus, slot, func) \<noteq> (bus', slot', func') \<longrightarrow>
           ecam_offset (start_bus m e) bus slot func + 4096 \<le> ecam_offset (start_bus m e) bus' slot' func' \<or>
           ecam_offset (start_bus m e) bus' slot' func' + 4096 \<le> ecam_offset (start_bus m e) bus slot func))"
proof -
  let ?n = "(unat (sdt_length m table) - 44) div 16"
  let ?st = "mcfg_init m table st0" and ?e0 = "mcfg_entry_at table 0"
  note nz = mcfg_entry_nonzero [OF assms(2,3)]
  have cnt: "unat ((ucast (sdt_length m table) - 44 :: u64) div 16) = ?n" by (rule mcfg_count [OF assms(1)])
  then have c0: "0 < (ucast (sdt_length m table) - 44 :: u64) div 16 \<longleftrightarrow> 0 < ?n" by (simp add: word_less_nat_alt)
  have st: "mcfg_ptr ?st = table" "unat (mcfg_entry_count ?st) = ?n"
    "primary_entry ?st = (if 0 < ?n \<and> segment_group m ?e0 = 0 then ?e0 else 0)"
    using cnt c0 assms(4) by (simp_all add: mcfg_init_def Let_def)
  have fnd: "mcfg_find m table segment bus 0 ?n = (case find (covers m segment bus) (mcfg_entries m table) of None \<Rightarrow> 0 | Some e \<Rightarrow> e)"
    using nz mcfg_find_entries [of 0 ?n] by (simp add: mcfg_entries_def)
  have prim: "find (covers m segment bus) (mcfg_entries m table) = Some ?e0"
    if "0 < ?n" "segment_group m ?e0 = 0" "segment = 0" "bus \<le> end_bus m ?e0"
    using that p by (simp add: mcfg_entries_def upt_conv_Cons covers_def)
  let ?entry = "if primary_entry ?st \<noteq> 0 \<and> segment = 0 \<and> bus \<le> end_bus m (primary_entry ?st) then primary_entry ?st
                else mcfg_find m (mcfg_ptr ?st) segment bus 0 (unat (mcfg_entry_count ?st))"
  have ent: "?entry = (case find (covers m segment bus) (mcfg_entries m table) of None \<Rightarrow> 0 | Some e \<Rightarrow> e)"
    unfolding st using fnd prim nz by (auto split: if_splits)
  have win: "of_nat (ecam_offset (start_bus m e) bus slot func) = (ucast (push_bit 20 (word_of_int (uint bus - uint (start_bus m e)) :: u32) OR
      push_bit 15 (ucast slot) OR push_bit 12 (ucast func)) :: u64)" if "covers m segment bus e" for e
    using that ecam_word [OF assms(6,7), of "start_bus m e" bus] by (metis covers_def ucast_as_nat word_le_nat_alt)
  have "mcfg_get_device_addr m hhdm_off ?st segment bus slot func = device_window m hhdm_off table segment bus slot func"
  proof (cases "find (covers m segment bus) (mcfg_entries m table)")
    case None
    then show ?thesis using ent st(1) assms(2) by (simp only: mcfg_get_device_addr_def device_window_def Let_def option.case if_False if_True refl)
  next
    case (Some e)
    then have "covers m segment bus e" "e \<noteq> 0" using find_mem [OF Some] nz by (auto simp: mcfg_entries_def)
    then show ?thesis using ent st(1) assms(2) Some win
      by (simp only: mcfg_get_device_addr_def device_window_def Let_def option.case if_False if_True refl)
  qed
  moreover have "unat (start_bus m e) \<le> unat b \<and> unat b \<le> unat (end_bus m e)" if "covers m segment b e" for b e
    using that by (simp add: covers_def word_le_nat_alt)
  ultimately show ?thesis using ecam_bounds [OF assms(6,7)] ecam_apart [OF assms(6,7)] by blast
qed

section \<open>Instances\<close>

text \<open>The parsers' variables before start-up, and a routing table and a configuration table in the direct map.\<close>

definition acpi_state0 :: "paging_state \<Rightarrow> acpi_state" where
  "acpi_state0 pg = \<lparr>xsdt = 0, is_xsdt = False, lapic_phys = 0, ioapic_phys = 0, isos = [], mcfg_ptr = 0, mcfg_entry_count = 0,
     primary_entry = 0, mcfg_is_initialized = False, fadt = 0,
     g_cxl_info = \<lparr>phys_base = 0, cxl_size = 0, host_bridge_uid = 0, cxl_found = False\<rparr>, bgrt_vaddr = 0, waet_notes = [],
     hpet = \<lparr>hpet_base = 0, femtoseconds_per_tick = 0, hpet_config = 0\<rparr>, tables = pg\<rparr>"

definition acpi_demo :: acpi_state where
  "acpi_demo = acpi_state0 \<lparr>pt = (\<lambda>_. 0), paging_level = 4, frames = demo_pma, flushes = []\<rparr>"

definition demo_records :: "u8 list list" where
  "demo_records = [[1, 12, 0, 0, 0, 0, 0xC0, 0xFE, 0, 0, 0, 0], [2, 10, 0, 0, 2, 0, 0, 0, 15, 0]]"

definition demo_madt :: memory where
  "demo_madt = mem_of 0xFFFF800000001000 ([0, 0, 0, 0, 66, 0, 0, 0] @ [0, 0, 0, 0, 0, 0, 0, 0, 0, 0, 0, 0, 0, 0, 0, 0, 0, 0, 0, 0, 0, 0, 0, 0, 0, 0, 0, 0] @ [0, 0, 0xE0, 0xFE, 1, 0, 0, 0] @ concat demo_records)"

definition demo_mcfg :: memory where
  "demo_mcfg = mem_of 0xFFFF800000001000 ([0, 0, 0, 0, 60, 0, 0, 0] @ [0, 0, 0, 0, 0, 0, 0, 0, 0, 0, 0, 0, 0, 0, 0, 0, 0, 0, 0, 0, 0, 0, 0, 0, 0, 0, 0, 0, 0, 0, 0, 0, 0, 0, 0, 0] @ [0, 0, 0, 0xB0, 0, 0, 0, 0, 0, 0, 0, 0xFF, 0, 0, 0, 0])"

theorem madt_init_parses_witness:
  "\<exists>st'. madt_init demo_madt 0xFFFF800000001000 acpi_demo = Some (Inr st') \<and> madt_get_lapic_base st' = 0xFEE00000 \<and>
     madt_get_ioapic_base st' = 0xFEC00000 \<and> madt_query_irq 0 st' = (2, 0xA000) \<and> madt_query_irq 1 st' = (1, 0)"
proof -
  have len: "sdt_length demo_madt 0xFFFF800000001000 = 66" and lapic: "rd32 demo_madt 0xFFFF800000001024 = 0xFEE00000"
    by (simp_all add: sdt_length_def rd32_def demo_madt_def demo_records_def mem_of_def)
  have n: "length (concat demo_records) = 22" by (simp add: demo_records_def)
  have b: "bytes_at demo_madt (0xFFFF800000001000 + 44) (length (concat demo_records)) = concat demo_records"
    unfolding n by (simp add: demo_madt_def demo_records_def mem_of_def)
  have r: "\<forall>e\<in>set demo_records. madt_record e"
    by (simp add: demo_records_def madt_record_def MADT_TYPE_IOAPIC_def MADT_TYPE_ISO_def)
  have "isos acpi_demo = []" "ioapic_phys acpi_demo = 0" by (simp_all add: acpi_demo_def acpi_state0_def)
  then show ?thesis using madt_init_parses [OF r b, of acpi_demo] len lapic
    by (auto simp: upper_def demo_records_def ioapic_of_def iso_of_def route_of_def MADT_TYPE_IOAPIC_def MADT_TYPE_ISO_def)
qed

theorem mcfg_windows_witness:
  "mcfg_get_device_addr demo_mcfg 0xFFFF800000000000 (mcfg_init demo_mcfg 0xFFFF800000001000 acpi_demo) 0 1 2 3 = 0xFFFF8000B0113000"
proof -
  have l: "sdt_length demo_mcfg 0xFFFF800000001000 = 60" by (simp add: sdt_length_def rd32_def demo_mcfg_def mem_of_def)
  have e: "segment_group demo_mcfg 0xFFFF80000000102C = 0" "start_bus demo_mcfg 0xFFFF80000000102C = 0" "end_bus demo_mcfg 0xFFFF80000000102C = 255" "base_address demo_mcfg 0xFFFF80000000102C = 0xB0000000"
    by (simp_all add: segment_group_def start_bus_def end_bus_def base_address_def rd16_def rd64_def demo_mcfg_def mem_of_def)
  have a: "mcfg_entry_at 0xFFFF800000001000 0 = 0xFFFF80000000102C" by (simp add: mcfg_entry_at_def)
  have "device_window demo_mcfg 0xFFFF800000000000 0xFFFF800000001000 0 1 2 3 = 0xFFFF8000B0113000"
    by (simp add: device_window_def mcfg_entries_def l a covers_def e ecam_offset_def)
  moreover have "primary_entry acpi_demo = 0" by (simp add: acpi_demo_def acpi_state0_def)
  ultimately show ?thesis using l e a
      mcfg_windows [where m = demo_mcfg and table = "0xFFFF800000001000" and ?st0.0 = acpi_demo and slot = 2 and func = 3 and hhdm_off = "0xFFFF800000000000" and segment = 0 and bus = 1]
    by simp
qed

end
