(* ===== verification/Apic.thy ===== *)
theory Apic
  imports Irq Acpi Vmm
begin

text \<open>
  The interrupt controllers: \<^verbatim>\<open>src/cpu/apic/lapic.c\<close> and \<^verbatim>\<open>src/cpu/apic/ioapic.c\<close>.

  The registers are memory mapped. A driver appends its register writes to a list; the value of a read is an
  arbitrary function of the writes so far, the number of earlier reads and the address (\<open>lapic_hw\<close>). Waiting for a
  device has no value when the device never answers. A fault is a panic or a division by zero.
\<close>

section \<open>Local controller\<close>

type_synonym lapic_hw = "(u64 \<times> u32) list \<Rightarrow> nat \<Rightarrow> u64 \<Rightarrow> u32"

definition LAPIC_REG_ID :: u32 where "LAPIC_REG_ID = 0x20"
definition LAPIC_REG_TPR :: u32 where "LAPIC_REG_TPR = 0x80"
definition LAPIC_REG_SPURIOUS :: u32 where "LAPIC_REG_SPURIOUS = 0xF0"
definition LAPIC_REG_ICR_LOW :: u32 where "LAPIC_REG_ICR_LOW = 0x300"
definition LAPIC_REG_ICR_HIGH :: u32 where "LAPIC_REG_ICR_HIGH = 0x310"
definition LAPIC_REG_LVT_TIMER :: u32 where "LAPIC_REG_LVT_TIMER = 0x320"
definition LAPIC_REG_TIMER_INIT :: u32 where "LAPIC_REG_TIMER_INIT = 0x380"
definition LAPIC_REG_TIMER_DIV :: u32 where "LAPIC_REG_TIMER_DIV = 0x3E0"
definition LAPIC_REG_TIMER_CURRENT :: u32 where "LAPIC_REG_TIMER_CURRENT = 0x390"
definition ICR_FIXED :: u32 where "ICR_FIXED = 0"
definition ICR_INIT :: u32 where "ICR_INIT = 0x500"
definition ICR_STARTUP :: u32 where "ICR_STARTUP = 0x600"
definition ICR_PHYSICAL :: u32 where "ICR_PHYSICAL = 0"
definition ICR_LEVEL_ASSERT :: u32 where "ICR_LEVEL_ASSERT = 0x4000"
definition ICR_LEVEL_DEASSERT :: u32 where "ICR_LEVEL_DEASSERT = 0"
definition ICR_SEND_PENDING :: u32 where "ICR_SEND_PENDING = 0x1000"
definition MSR_IA32_APIC_BASE :: u32 where "MSR_IA32_APIC_BASE = 0x1B"

definition lapic_read :: "lapic_hw \<Rightarrow> u32 \<Rightarrow> lapic_state \<Rightarrow> u32 \<times> lapic_state" where
  "lapic_read hw reg l = (hw (lapic_writes l) (lapic_reads l) (lapic_base l + ucast reg), l\<lparr>lapic_reads := Suc (lapic_reads l)\<rparr>)"

partial_function (option) lapic_wait_for_delivery :: "lapic_hw \<Rightarrow> lapic_state \<Rightarrow> lapic_state option" where
  "lapic_wait_for_delivery hw l =
     (case lapic_read hw LAPIC_REG_ICR_LOW l of
        (v, l') \<Rightarrow> if v AND ICR_SEND_PENDING \<noteq> 0 then lapic_wait_for_delivery hw l' else Some l')"

definition lapic_send_ipi :: "lapic_hw \<Rightarrow> u8 \<Rightarrow> u8 \<Rightarrow> lapic_state \<Rightarrow> lapic_state option" where
  "lapic_send_ipi hw target_lapic_id vector l =
     map_option (\<lambda>l. lapic_write LAPIC_REG_ICR_LOW (ICR_PHYSICAL OR ICR_LEVEL_ASSERT OR ICR_FIXED OR ucast vector)
        (lapic_write LAPIC_REG_ICR_HIGH (push_bit 24 (ucast target_lapic_id)) l)) (lapic_wait_for_delivery hw l)"

definition lapic_send_init :: "lapic_hw \<Rightarrow> u8 \<Rightarrow> lapic_state \<Rightarrow> lapic_state option" where
  "lapic_send_init hw target_lapic_id l =
     (case lapic_wait_for_delivery hw l of
        None \<Rightarrow> None
      | Some l1 \<Rightarrow>
          let l2 = lapic_write LAPIC_REG_ICR_HIGH (push_bit 24 (ucast target_lapic_id)) l1;
              l3 = lapic_write LAPIC_REG_ICR_LOW (ICR_INIT OR ICR_PHYSICAL OR ICR_LEVEL_ASSERT) l2 in
          map_option (lapic_write LAPIC_REG_ICR_LOW (ICR_INIT OR ICR_PHYSICAL OR ICR_LEVEL_DEASSERT)) (lapic_wait_for_delivery hw l3))"

definition lapic_send_sipi :: "lapic_hw \<Rightarrow> u8 \<Rightarrow> u64 \<Rightarrow> lapic_state \<Rightarrow> lapic_state option" where
  "lapic_send_sipi hw target_lapic_id entry_point l =
     (case lapic_wait_for_delivery hw l of
        None \<Rightarrow> None
      | Some l1 \<Rightarrow>
          let l2 = lapic_write LAPIC_REG_ICR_HIGH (push_bit 24 (ucast target_lapic_id)) l1;
              vector = (ucast (drop_bit 12 entry_point AND 0xFF) :: u8) in
          Some (lapic_write LAPIC_REG_ICR_LOW (ICR_STARTUP OR ICR_PHYSICAL OR ucast vector) l2))"

definition lapic_get_id :: "lapic_hw \<Rightarrow> lapic_state \<Rightarrow> u32 \<times> lapic_state" where
  "lapic_get_id hw l = (case lapic_read hw LAPIC_REG_ID l of (v, l') \<Rightarrow> (drop_bit 24 v, l'))"

text \<open>
  Initialisation. The argument \<open>pml4\<close> is the page table register, \<open>phys\<close> the address in the MADT, \<open>timer\<close> the HPET, \<open>malloc_ok\<close>
  whether the address allocator gets a node from the heap, \<open>ticks\<close> the readings of the HPET counter.
\<close>

datatype fault = Panicked panic | DivideError

record apic_sys =
  controller :: lapic_state
  addresses :: vmm_state
  page_tables :: paging_state
  msrs :: "u32 \<Rightarrow> u32 \<times> u32"
  hpet_reads :: nat

definition lapic_map :: "bool \<Rightarrow> u64 \<Rightarrow> u64 \<Rightarrow> apic_sys \<Rightarrow> apic_sys outcome" where
  "lapic_map malloc_ok pml4 phys st =
     (if lapic_base (controller st) \<noteq> 0 then Inr st
      else
        and_then (vmm_alloc_pages malloc_ok 1 (addresses st)) (\<lambda>(v, base).
        and_then (paging_map_page pml4 base phys (PTE_PRESENT OR PTE_WRITABLE OR PTE_CACHE_DISABLE) (page_tables st)) (\<lambda>pg.
        Inr (st\<lparr>controller := (controller st)\<lparr>lapic_base := base\<rparr>, addresses := v, page_tables := pg\<rparr>))))"

definition lapic_enable :: "apic_sys \<Rightarrow> apic_sys" where
  "lapic_enable st =
     (let apic_base = read_msr MSR_IA32_APIC_BASE (msrs st) in
      if apic_base AND push_bit 11 1 = 0 then st\<lparr>msrs := WRITE_MSR MSR_IA32_APIC_BASE (apic_base OR push_bit 11 1) (msrs st)\<rparr> else st)"

partial_function (option) calibration_wait :: "(nat \<Rightarrow> u64) \<Rightarrow> u64 \<Rightarrow> nat \<Rightarrow> nat option" where
  "calibration_wait ticks target n =
     (case hpet_get_ticks ticks n of (t, n') \<Rightarrow> if t < target then calibration_wait ticks target n' else Some n')"

definition lapic_calibrate :: "lapic_hw \<Rightarrow> (nat \<Rightarrow> u64) \<Rightarrow> hpet_state \<Rightarrow> u32 \<Rightarrow> apic_sys \<Rightarrow> (fault + apic_sys) option" where
  "lapic_calibrate hw ticks timer frequency_hz st =
     (if cached_lapic_calibration (controller st) \<noteq> 0 then Some (Inr st)
      else
        let l1 = lapic_write LAPIC_REG_TIMER_INIT 0xFFFFFFFF (controller st) in
        case hpet_get_frequency timer of
          Inl _ \<Rightarrow> Some (Inl DivideError)
        | Inr hpet_freq \<Rightarrow>
            case hpet_get_ticks ticks (hpet_reads st) of (t0, n) \<Rightarrow>
            case calibration_wait ticks (t0 + hpet_freq div 100) n of
              None \<Rightarrow> None
            | Some n \<Rightarrow>
                case lapic_read hw LAPIC_REG_TIMER_CURRENT l1 of (cur, l2) \<Rightarrow>
                  let elapsed = 0xFFFFFFFF - cur in
                  if frequency_hz = 0 then Some (Inl DivideError)
                  else Some (Inr (st\<lparr>controller := l2\<lparr>cached_lapic_calibration := (elapsed * 100) div frequency_hz\<rparr>, hpet_reads := n\<rparr>)))"

definition lapic_init :: "lapic_hw \<Rightarrow> (nat \<Rightarrow> u64) \<Rightarrow> hpet_state \<Rightarrow> bool \<Rightarrow> u64 \<Rightarrow> u64 \<Rightarrow> u32 \<Rightarrow> apic_sys \<Rightarrow> (fault + apic_sys) option" where
  "lapic_init hw ticks timer malloc_ok pml4 phys frequency_hz st =
     (case lapic_map malloc_ok pml4 phys st of
        Inl e \<Rightarrow> Some (Inl (Panicked e))
      | Inr st1 \<Rightarrow>
          let st2 = lapic_enable st1;
              l = lapic_write LAPIC_REG_TIMER_DIV 0x3 (lapic_write LAPIC_REG_SPURIOUS 0x1FF (lapic_write LAPIC_REG_TPR 0 (controller st2))) in
          case lapic_calibrate hw ticks timer frequency_hz (st2\<lparr>controller := l\<rparr>) of
            None \<Rightarrow> None
          | Some (Inl f) \<Rightarrow> Some (Inl f)
          | Some (Inr st3) \<Rightarrow>
              let l = lapic_write LAPIC_REG_TIMER_INIT (cached_lapic_calibration (controller st3)) (controller st3) in
              Some (Inr (st3\<lparr>controller := lapic_write LAPIC_REG_LVT_TIMER (32 OR push_bit 17 1) l\<rparr>)))"

section \<open>I/O controller\<close>

record ioapic_state =
  ioapic_virt_base :: u64
  pin_to_vector :: "u8 list"
  next_free_vector :: u8
  ioapic_writes :: "(u64 \<times> u32) list"


definition IOAPIC_REG_SEL :: u64 where "IOAPIC_REG_SEL = 0"
definition IOAPIC_REG_WIN :: u64 where "IOAPIC_REG_WIN = 0x10"
definition IOAPIC_PAGE_COUNT :: u64 where "IOAPIC_PAGE_COUNT = 1"

definition ioapic_write :: "u32 \<Rightarrow> u32 \<Rightarrow> ioapic_state \<Rightarrow> ioapic_state" where
  "ioapic_write reg value io =
     io\<lparr>ioapic_writes := ioapic_writes io @ [(ioapic_virt_base io + IOAPIC_REG_SEL, reg), (ioapic_virt_base io + IOAPIC_REG_WIN, value)]\<rparr>"

definition ioapic_map_irq :: "u8 \<Rightarrow> u8 \<Rightarrow> u8 \<Rightarrow> u32 \<Rightarrow> ioapic_state \<Rightarrow> ioapic_state" where
  "ioapic_map_irq irq_pin vector cpu_apic_id flags io =
     (let low_index = 0x10 + (ucast irq_pin * 2) in
      ioapic_write low_index (ucast vector OR flags) (ioapic_write (low_index + 1) (push_bit 24 (ucast cpu_apic_id)) io))"


text \<open>The routing comes from the MADT; the identifier read for the log is left out.\<close>

definition ioapic_init :: "bool \<Rightarrow> u64 \<Rightarrow> u64 \<Rightarrow> acpi_state \<Rightarrow> vmm_state \<Rightarrow> paging_state \<Rightarrow> ioapic_state \<Rightarrow> (vmm_state \<times> paging_state \<times> ioapic_state) outcome" where
  "ioapic_init malloc_ok pml4 phys_addr acpi v pg io =
     and_then (vmm_alloc_pages malloc_ok IOAPIC_PAGE_COUNT v) (\<lambda>(v, base).
       let io = io\<lparr>ioapic_virt_base := base\<rparr> in
       if base = 0 then Inr (v, pg, io)
       else
         and_then (paging_map_page pml4 base phys_addr (PTE_PRESENT OR PTE_WRITABLE OR PTE_CACHE_DISABLE) pg) (\<lambda>pg.
           let io = io\<lparr>ioapic_writes := ioapic_writes io @ [(base + IOAPIC_REG_SEL, 0)]\<rparr>;
               io = (case madt_query_irq 0 acpi of (pin, flags) \<Rightarrow> ioapic_map_irq pin 32 0 flags io);
               io = (case madt_query_irq 4 acpi of (pin, flags) \<Rightarrow> ioapic_map_irq pin 36 0 flags io) in
           Inr (v, pg, io)))"

section \<open>The redirection table\<close>





lemma ioapic_map_irq_simps [simp]:
  "pin_to_vector (ioapic_map_irq p v c f io) = pin_to_vector io" "next_free_vector (ioapic_map_irq p v c f io) = next_free_vector io"
  "ioapic_virt_base (ioapic_map_irq p v c f io) = ioapic_virt_base io"
  by (simp_all add: ioapic_map_irq_def ioapic_write_def Let_def)














end
