(* ===== verification/Smp.thy ===== *)
theory Smp
  imports Apic
begin

text \<open>
  Secondary processors and the mailboxes through which work is sent to them: \<^verbatim>\<open>src/cpu/smp/init.c\<close> and
  \<^verbatim>\<open>src/cpu/smp/mailbox.c\<close>.

  The blocks of the processors are a list with \<open>None\<close> for a null pointer. Sending and serving run on different
  processors: the statements of \<^verbatim>\<open>mailbox_send\<close> and of the service loop of \<^verbatim>\<open>AP_kstartc\<close> that touch the shared
  block are the steps of a transition system for one mailbox, any number of senders and its owner, interleaved
  in any order. A function that is run is recorded by its address; it takes effect in one step.
\<close>

section \<open>Blocks\<close>

datatype cpu_status_t = CPU_IDLE | CPU_BUSY | CPU_HALTED | CPU_PANIC

record mailbox_t =
  mb_func :: u64
  mb_data :: u64
  mb_pending :: bool

record coreinfo_t =
  logical_id :: u32
  core_lapic_id :: u32
  core_ticks :: u64
  status :: cpu_status_t
  mailbox :: mailbox_t

record smp_state =
  blocks :: "coreinfo_t option list"
  cpu_blocks_c :: u32
  cpu_online_count :: u64

text \<open>Registration of a processor, between taking and releasing the lock; \<open>zalloc_ok\<close> is whether the block could be allocated. Without it the code writes to address 0.\<close>

datatype smp_error = NullBlock

definition AP_register :: "bool \<Rightarrow> u32 \<Rightarrow> smp_state \<Rightarrow> smp_error + smp_state \<times> coreinfo_t" where
  "AP_register zalloc_ok mp_lapic_id st =
     (let my_index = cpu_blocks_c st;
          st = st\<lparr>cpu_blocks_c := my_index + 1\<rparr>;
          my_cpu = \<lparr>logical_id = my_index, core_lapic_id = mp_lapic_id, core_ticks = 1, status = CPU_IDLE,
                    mailbox = \<lparr>mb_func = 0, mb_data = 0, mb_pending = False\<rparr>\<rparr> in
      if \<not> zalloc_ok then Inl NullBlock
      else Inr (st\<lparr>blocks := (blocks st)[unat my_index := Some my_cpu], cpu_online_count := cpu_online_count st + 1\<rparr>, my_cpu))"

definition AP_clock_tick_irq :: "coreinfo_t \<Rightarrow> u64 \<Rightarrow> coreinfo_t \<times> u64" where
  "AP_clock_tick_irq my_cpu tf = (my_cpu\<lparr>core_ticks := core_ticks my_cpu + 1\<rparr>, tf)"

definition AP_ipi_wakeup_irq :: "u64 \<Rightarrow> u64" where "AP_ipi_wakeup_irq tf = tf"

text \<open>\<open>self\<close> is the index of the calling processor's block.\<close>

fun idle_loop :: "nat \<Rightarrow> nat \<Rightarrow> nat \<Rightarrow> coreinfo_t option list \<Rightarrow> int" where
  "idle_loop self i 0 bs = -1"
| "idle_loop self i (Suc k) bs =
     (case bs ! i of
        None \<Rightarrow> idle_loop self (Suc i) k bs
      | Some cpu \<Rightarrow>
          if i = self then idle_loop self (Suc i) k bs
          else if status cpu = CPU_IDLE \<and> \<not> mb_pending (mailbox cpu) then int i
          else idle_loop self (Suc i) k bs)"

definition get_idle_core :: "nat \<Rightarrow> smp_state \<Rightarrow> int" where
  "get_idle_core self st = idle_loop self 0 (unat (cpu_blocks_c st)) (blocks st)"

section \<open>Sending\<close>

text \<open>
  \<^verbatim>\<open>mailbox_send\<close> when no other processor runs in between: the mailbox is written and the interrupt sent; while the
  mailbox is pending the call waits, without an end if nobody serves it.
\<close>

definition mailbox_send :: "lapic_hw \<Rightarrow> u32 \<Rightarrow> u64 \<Rightarrow> u64 \<Rightarrow> smp_state \<Rightarrow> lapic_state \<Rightarrow> (smp_state \<times> lapic_state) outcome option" where
  "mailbox_send hw target func data st l =
     (case blocks st ! unat target of
        None \<Rightarrow> Some (Inl (Panic ''MAILBOX'' (''passed logical_id not found'' @ [CHR 0x0A])))
      | Some cpu \<Rightarrow>
          if mb_pending (mailbox cpu) then None
          else
            let cpu' = cpu\<lparr>mailbox := \<lparr>mb_func = func, mb_data = data, mb_pending = True\<rparr>\<rparr> in
            map_option (\<lambda>l. Inr (st\<lparr>blocks := (blocks st)[unat target := Some cpu']\<rparr>, l))
              (lapic_send_ipi hw (ucast (core_lapic_id cpu)) 40 l))"

definition mailbox_send_fc :: "lapic_hw \<Rightarrow> nat \<Rightarrow> u64 \<Rightarrow> u64 \<Rightarrow> smp_state \<Rightarrow> lapic_state \<Rightarrow> (smp_state \<times> lapic_state \<times> bool) outcome option" where
  "mailbox_send_fc hw self func data st l =
     (let target = get_idle_core self st in
      if target = -1 then Some (Inr (st, l, False))
      else map_option (\<lambda>r. and_then r (\<lambda>(st, l). Inr (st, l, True))) (mailbox_send hw (of_int target) func data st l))"

text \<open>Sending to every other processor; the function itself then runs here, which is the last result.\<close>

fun mailman_loop :: "lapic_hw \<Rightarrow> nat \<Rightarrow> u64 \<Rightarrow> u64 \<Rightarrow> nat \<Rightarrow> nat \<Rightarrow> smp_state \<Rightarrow> lapic_state \<Rightarrow> (smp_state \<times> lapic_state) outcome option" where
  "mailman_loop hw self func data i 0 st l = Some (Inr (st, l))"
| "mailman_loop hw self func data i (Suc k) st l =
     (if i = self then mailman_loop hw self func data (Suc i) k st l
      else case mailbox_send hw (of_nat i) func data st l of
        None \<Rightarrow> None
      | Some (Inl e) \<Rightarrow> Some (Inl e)
      | Some (Inr (st', l')) \<Rightarrow> mailman_loop hw self func data (Suc i) k st' l')"

definition mailman_send :: "lapic_hw \<Rightarrow> nat \<Rightarrow> u64 \<Rightarrow> u64 \<Rightarrow> smp_state \<Rightarrow> lapic_state \<Rightarrow> (smp_state \<times> lapic_state \<times> u64) outcome option" where
  "mailman_send hw self func data st l =
     map_option (\<lambda>r. and_then r (\<lambda>(st, l). Inr (st, l, func))) (mailman_loop hw self func data 0 (unat (cpu_online_count st)) st l)"

section \<open>Senders and owner interleaved\<close>

datatype sender_pc = Poll | Write_func | Write_data | Publish | Send_ipi

datatype owner_pc = Set_idle | Sleep | Load_pending | Set_busy | Run_func | Clear_pending

text \<open>A sender has the calls it still has to make; the head is the one in progress.\<close>

record mail_state =
  box :: mailbox_t
  owner :: owner_pc
  owner_status :: cpu_status_t
  sender_at :: "nat \<Rightarrow> sender_pc"
  calls :: "nat \<Rightarrow> (u64 \<times> u64) list"
  ran :: "u64 list"
  ipis :: nat

definition at :: "nat \<Rightarrow> sender_pc \<Rightarrow> mail_state \<Rightarrow> mail_state" where
  "at i pc s = s\<lparr>sender_at := (sender_at s)(i := pc)\<rparr>"

inductive mail_step :: "mail_state \<Rightarrow> mail_state \<Rightarrow> bool" where
  poll_pending: "sender_at s i = Poll \<Longrightarrow> calls s i \<noteq> [] \<Longrightarrow> mb_pending (box s) \<Longrightarrow> mail_step s s"
| poll_free: "sender_at s i = Poll \<Longrightarrow> calls s i \<noteq> [] \<Longrightarrow> \<not> mb_pending (box s) \<Longrightarrow> mail_step s (at i Write_func s)"
| write_func: "sender_at s i = Write_func \<Longrightarrow> mail_step s (at i Write_data (s\<lparr>box := (box s)\<lparr>mb_func := fst (hd (calls s i))\<rparr>\<rparr>))"
| write_data: "sender_at s i = Write_data \<Longrightarrow> mail_step s (at i Publish (s\<lparr>box := (box s)\<lparr>mb_data := snd (hd (calls s i))\<rparr>\<rparr>))"
| publish: "sender_at s i = Publish \<Longrightarrow> mail_step s (at i Send_ipi (s\<lparr>box := (box s)\<lparr>mb_pending := True\<rparr>\<rparr>))"
| send_ipi: "sender_at s i = Send_ipi \<Longrightarrow> mail_step s (at i Poll (s\<lparr>calls := (calls s)(i := tl (calls s i)), ipis := Suc (ipis s)\<rparr>))"
| set_idle: "owner s = Set_idle \<Longrightarrow> mail_step s (s\<lparr>owner_status := CPU_IDLE, owner := Sleep\<rparr>)"
| wake: "owner s = Sleep \<Longrightarrow> mail_step s (s\<lparr>owner := Load_pending\<rparr>)"
| load_true: "owner s = Load_pending \<Longrightarrow> mb_pending (box s) \<Longrightarrow> mail_step s (s\<lparr>owner := Set_busy\<rparr>)"
| load_false: "owner s = Load_pending \<Longrightarrow> \<not> mb_pending (box s) \<Longrightarrow> mail_step s (s\<lparr>owner := Set_idle\<rparr>)"
| set_busy: "owner s = Set_busy \<Longrightarrow> mail_step s (s\<lparr>owner_status := CPU_BUSY, owner := Run_func\<rparr>)"
| run_func: "owner s = Run_func \<Longrightarrow> mail_step s (s\<lparr>ran := (if mb_func (box s) \<noteq> 0 then ran s @ [mb_func (box s)] else ran s), owner := Clear_pending\<rparr>)"
| clear_pending: "owner s = Clear_pending \<Longrightarrow> mail_step s (s\<lparr>box := (box s)\<lparr>mb_pending := False\<rparr>, owner := Set_idle\<rparr>)"

inductive mail_run :: "mail_state \<Rightarrow> mail_state \<Rightarrow> bool" where
  mail_refl: "mail_run s s"
| mail_trans: "mail_run s t \<Longrightarrow> mail_step t u \<Longrightarrow> mail_run s u"

definition mail_start :: "(nat \<Rightarrow> (u64 \<times> u64) list) \<Rightarrow> mail_state" where
  "mail_start js = \<lparr>box = \<lparr>mb_func = 0, mb_data = 0, mb_pending = False\<rparr>, owner = Set_idle, owner_status = CPU_IDLE,
     sender_at = (\<lambda>_. Poll), calls = js, ran = [], ipis = 0\<rparr>"

section \<open>One sender\<close>

definition run_list :: "(u64 \<times> u64) list \<Rightarrow> u64 list" where
  "run_list js = filter (\<lambda>f. f \<noteq> 0) (map fst js)"

text \<open>The number of messages that have been published.\<close>

definition published :: "(u64 \<times> u64) list \<Rightarrow> mail_state \<Rightarrow> nat" where
  "published js s = length js - length (calls s 0) + (if sender_at s 0 = Send_ipi then 1 else 0)"

definition single_inv :: "(u64 \<times> u64) list \<Rightarrow> mail_state \<Rightarrow> bool" where
  "single_inv js s \<longleftrightarrow>
     (\<forall>i. i \<noteq> 0 \<longrightarrow> sender_at s i = Poll \<and> calls s i = []) \<and>
     (\<exists>d \<le> length js. calls s 0 = drop d js \<and> (sender_at s 0 \<noteq> Poll \<longrightarrow> d < length js)) \<and>
     (mb_pending (box s) \<longrightarrow> 0 < published js s \<and> mb_func (box s) = fst (js ! (published js s - 1)) \<and>
        ran s = run_list (take (if owner s = Clear_pending then published js s else published js s - 1) js)) \<and>
     (\<not> mb_pending (box s) \<longrightarrow> ran s = run_list (take (published js s) js) \<and> owner s \<notin> {Set_busy, Run_func, Clear_pending}) \<and>
     (sender_at s 0 \<in> {Write_func, Write_data, Publish} \<longrightarrow> \<not> mb_pending (box s)) \<and>
     (sender_at s 0 \<in> {Write_data, Publish} \<longrightarrow> mb_func (box s) = fst (hd (calls s 0)))"

lemma single_inv_start: "js 0 = xs \<Longrightarrow> (\<forall>i. i \<noteq> 0 \<longrightarrow> js i = []) \<Longrightarrow> single_inv xs (mail_start js)"
  by (auto simp: single_inv_def mail_start_def published_def run_list_def)

lemma published_bound: "single_inv js s \<Longrightarrow> published js s \<le> length js"
proof -
  assume s: "single_inv js s"
  then obtain d where "d \<le> length js" "calls s 0 = drop d js" "sender_at s 0 \<noteq> Poll \<longrightarrow> d < length js"
    unfolding single_inv_def by blast
  then show ?thesis by (auto simp: published_def)
qed

lemma run_list_snoc: "p < length js \<Longrightarrow> run_list (take (Suc p) js) = run_list (take p js) @ (if fst (js ! p) \<noteq> 0 then [fst (js ! p)] else [])"
  by (simp add: run_list_def take_Suc_conv_app_nth)

lemma single_inv_step:
  assumes inv: "single_inv js s" and st: "mail_step s t"
  shows "single_inv js t"
proof -
  note I = inv [unfolded single_inv_def]
  obtain d where d: "d \<le> length js" "calls s 0 = drop d js" "sender_at s 0 \<noteq> Poll \<longrightarrow> d < length js" using I by blast
  have p: "published js s = d + (if sender_at s 0 = Send_ipi then 1 else 0)" using d by (simp add: published_def)
  have hd: "hd (drop d js) = js ! d" if "d < length js" using that by (rule hd_drop_conv_nth)
  have z: "i = 0" if "sender_at s i \<noteq> Poll \<or> calls s i \<noteq> []" for i using I that by blast
  from st show ?thesis
  proof (cases rule: mail_step.cases)
    case (poll_pending i)
    then show ?thesis using inv by simp
  next
    case (poll_free i)
    then have "i = 0" using z by blast
    then show ?thesis using poll_free I d p by (auto simp: single_inv_def at_def published_def)
  next
    case (write_func i)
    then have "i = 0" using z by simp
    then show ?thesis using write_func I d p hd by (auto simp: single_inv_def at_def published_def)
  next
    case (write_data i)
    then have "i = 0" using z by simp
    then show ?thesis using write_data I d p hd by (auto simp: single_inv_def at_def published_def)
  next
    case (publish i)
    then have "i = 0" using z by simp
    then show ?thesis using publish I d p hd by (auto simp: single_inv_def at_def published_def)
  next
    case (send_ipi i)
    then have i: "i = 0" using z by simp
    then have "d < length js" "tl (drop d js) = drop (Suc d) js" using send_ipi d by (simp_all add: drop_Suc drop_tl)
    moreover from this(1) have "\<exists>e\<le>length js. drop (Suc d) js = drop e js" by (intro exI [of _ "Suc d"]) simp
    ultimately show ?thesis using send_ipi i I d(2) p by (simp add: single_inv_def at_def published_def)
  next
    case run_func
    have "published js s \<le> length js" by (rule published_bound [OF inv])
    moreover have pe: "mb_pending (box s)" using I run_func by auto
    moreover have "run_list (take (Suc (published js s - 1)) js) = run_list (take (published js s - 1) js) @
        (if fst (js ! (published js s - 1)) \<noteq> 0 then [fst (js ! (published js s - 1))] else [])"
      using I pe calculation(1) by (intro run_list_snoc) linarith
    ultimately show ?thesis using run_func I by (auto simp: single_inv_def published_def)
  next
    case clear_pending
    have "mb_pending (box s)" using I clear_pending by auto
    then show ?thesis using clear_pending I by (auto simp: single_inv_def published_def)
  qed (use I in \<open>auto simp: single_inv_def published_def\<close>)
qed

lemma single_inv_run: "mail_run s t \<Longrightarrow> single_inv js s \<Longrightarrow> single_inv js t"
  by (induction rule: mail_run.induct) (auto intro: single_inv_step)

text \<open>
  C37. When only one processor sends to a mailbox, its owner runs the functions exactly once each and in the order
  they were sent, however the two are interleaved: at any time it has run those of a prefix of the calls that is at
  most one call away from the calls that have returned, and all of them once the sender is done and the mailbox empty.
\<close>

theorem mailbox_exactly_once:
  assumes "\<forall>i. i \<noteq> 0 \<longrightarrow> js i = []" "mail_run (mail_start js) s"
  shows "(\<exists>k \<le> length (js 0). ran s = run_list (take k (js 0)) \<and>
      length (js 0) - length (calls s 0) \<le> k + 1 \<and> k \<le> length (js 0) - length (calls s 0) + 1) \<and>
    (calls s 0 = [] \<and> sender_at s 0 = Poll \<and> \<not> mb_pending (box s) \<longrightarrow> ran s = run_list (js 0))"
proof -
  have inv: "single_inv (js 0) s" using single_inv_run [OF assms(2)] single_inv_start [of js] assms(1) by blast
  note I = inv [unfolded single_inv_def]
  let ?p = "published (js 0) s"
  have p: "?p \<le> length (js 0)" by (rule published_bound [OF inv])
  have b: "length (js 0) - length (calls s 0) \<le> ?p" "?p \<le> length (js 0) - length (calls s 0) + 1" by (simp_all add: published_def)
  have r: "\<exists>k. (k = ?p \<or> k = ?p - 1) \<and> ran s = run_list (take k (js 0))" using I by (cases "mb_pending (box s)") auto
  then obtain k where k: "k = ?p \<or> k = ?p - 1" "ran s = run_list (take k (js 0))" by blast
  then have "k \<le> length (js 0)" "length (js 0) - length (calls s 0) \<le> k + 1" "k \<le> length (js 0) - length (calls s 0) + 1" using p b by linarith+
  moreover have "ran s = run_list (js 0)" if "calls s 0 = []" "sender_at s 0 = Poll" "\<not> mb_pending (box s)"
    using I that by (simp add: published_def)
  ultimately show ?thesis using k(2) by blast
qed

section \<open>Two senders\<close>

text \<open>
  C38. The mailbox has no lock: two processors that send at the same time can both find it free, and then the
  owner runs only the function that was written last although both calls return.
\<close>

theorem mailbox_two_senders_lose:
  "\<exists>s. mail_run (mail_start (\<lambda>i. if i = 0 then [(0x10, 0)] else if i = 1 then [(0x20, 0)] else [])) s \<and>
     (\<forall>i. calls s i = [] \<and> sender_at s i = Poll) \<and> \<not> mb_pending (box s) \<and> owner s = Set_idle \<and> ran s = [0x20]"
proof -
  define js :: "nat \<Rightarrow> (u64 \<times> u64) list" where "js = (\<lambda>i. if i = 0 then [(0x10, 0)] else if i = 1 then [(0x20, 0)] else [])"
  let ?s = "\<lambda>f d pe ow os p q c0 c1 r n. \<lparr>box = \<lparr>mb_func = f, mb_data = d, mb_pending = pe\<rparr>, owner = ow, owner_status = os,
     sender_at = (\<lambda>_. Poll)(0 := p, Suc 0 := q), calls = js(0 := c0, Suc 0 := c1), ran = r, ipis = n\<rparr> :: mail_state"
  have 0: "mail_run (mail_start js) (?s 0 0 False Set_idle CPU_IDLE Poll Poll [(0x10, 0)] [(0x20, 0)] [] 0)"
  proof -
    have "mail_start js = ?s 0 0 False Set_idle CPU_IDLE Poll Poll [(0x10, 0)] [(0x20, 0)] [] 0" by (simp add: mail_start_def js_def fun_eq_iff)
    then show ?thesis using mail_refl [of "mail_start js"] by (simp only:)
  qed
  have e: "f(0 := a, Suc 0 := b, 0 := c) = f(0 := c, Suc 0 := b)" for f :: "nat \<Rightarrow> 'a" and a b c by (simp add: fun_eq_iff)
  have "mail_run (mail_start js) (?s 0 0 False Set_idle CPU_IDLE Write_func Poll [(0x10, 0)] [(0x20, 0)] [] 0)"
    using mail_trans [OF 0 poll_free [of _ 0]] by (simp add: at_def e)
  from mail_trans [OF this poll_free [of _ "Suc 0"]] have "mail_run (mail_start js) (?s 0 0 False Set_idle CPU_IDLE Write_func Write_func [(0x10, 0)] [(0x20, 0)] [] 0)"
    by (simp add: at_def e)
  from mail_trans [OF this write_func [of _ 0]] have "mail_run (mail_start js) (?s 0x10 0 False Set_idle CPU_IDLE Write_data Write_func [(0x10, 0)] [(0x20, 0)] [] 0)"
    by (simp add: at_def e)
  from mail_trans [OF this write_data [of _ 0]] have "mail_run (mail_start js) (?s 0x10 0 False Set_idle CPU_IDLE Publish Write_func [(0x10, 0)] [(0x20, 0)] [] 0)"
    by (simp add: at_def e)
  from mail_trans [OF this publish [of _ 0]] have "mail_run (mail_start js) (?s 0x10 0 True Set_idle CPU_IDLE Send_ipi Write_func [(0x10, 0)] [(0x20, 0)] [] 0)"
    by (simp add: at_def e)
  from mail_trans [OF this send_ipi [of _ 0]] have "mail_run (mail_start js) (?s 0x10 0 True Set_idle CPU_IDLE Poll Write_func [] [(0x20, 0)] [] 1)"
    by (simp add: at_def e)
  from mail_trans [OF this write_func [of _ "Suc 0"]] have "mail_run (mail_start js) (?s 0x20 0 True Set_idle CPU_IDLE Poll Write_data [] [(0x20, 0)] [] 1)"
    by (simp add: at_def e)
  from mail_trans [OF this write_data [of _ "Suc 0"]] have "mail_run (mail_start js) (?s 0x20 0 True Set_idle CPU_IDLE Poll Publish [] [(0x20, 0)] [] 1)"
    by (simp add: at_def e)
  from mail_trans [OF this publish [of _ "Suc 0"]] have "mail_run (mail_start js) (?s 0x20 0 True Set_idle CPU_IDLE Poll Send_ipi [] [(0x20, 0)] [] 1)"
    by (simp add: at_def e)
  from mail_trans [OF this send_ipi [of _ "Suc 0"]] have "mail_run (mail_start js) (?s 0x20 0 True Set_idle CPU_IDLE Poll Poll [] [] [] 2)"
    by (simp add: at_def e numeral_2_eq_2)
  from mail_trans [OF this set_idle] have "mail_run (mail_start js) (?s 0x20 0 True Sleep CPU_IDLE Poll Poll [] [] [] 2)" by simp
  from mail_trans [OF this wake] have "mail_run (mail_start js) (?s 0x20 0 True Load_pending CPU_IDLE Poll Poll [] [] [] 2)" by simp
  from mail_trans [OF this load_true] have "mail_run (mail_start js) (?s 0x20 0 True Set_busy CPU_IDLE Poll Poll [] [] [] 2)" by simp
  from mail_trans [OF this set_busy] have "mail_run (mail_start js) (?s 0x20 0 True Run_func CPU_BUSY Poll Poll [] [] [] 2)" by simp
  from mail_trans [OF this run_func] have "mail_run (mail_start js) (?s 0x20 0 True Clear_pending CPU_BUSY Poll Poll [] [] [0x20] 2)" by simp
  from mail_trans [OF this clear_pending] have "mail_run (mail_start js) (?s 0x20 0 False Set_idle CPU_BUSY Poll Poll [] [] [0x20] 2)" by simp
  then show ?thesis unfolding js_def [symmetric] by (intro exI conjI) (auto simp: js_def)
qed

section \<open>A run that delivers every message\<close>

lemma mail_run_trans: "mail_run t u \<Longrightarrow> mail_run s t \<Longrightarrow> mail_run s u"
  by (induction rule: mail_run.induct) (auto intro: mail_trans)

definition quiet :: "mail_state \<Rightarrow> bool" where
  "quiet s \<longleftrightarrow> sender_at s 0 = Poll \<and> \<not> mb_pending (box s) \<and> owner s = Set_idle"

lemma mail_cycle:
  assumes "quiet s" and "calls s 0 = m # ms"
  shows "\<exists>t. mail_run s t \<and> quiet t \<and> calls t 0 = ms"
proof -
  note q = assms(1) [unfolded quiet_def]
  define s1 where "s1 = at 0 Write_func s"
  have 1: "mail_run s s1" using mail_trans [OF mail_refl poll_free [of s 0]] q assms(2) by (simp add: s1_def)
  define s2 where "s2 = at 0 Write_data (s1\<lparr>box := (box s1)\<lparr>mb_func := fst (hd (calls s1 0))\<rparr>\<rparr>)"
  have 2: "mail_run s s2" using mail_trans [OF 1 write_func [of s1 0]] by (simp add: s1_def s2_def at_def)
  define s3 where "s3 = at 0 Publish (s2\<lparr>box := (box s2)\<lparr>mb_data := snd (hd (calls s2 0))\<rparr>\<rparr>)"
  have 3: "mail_run s s3" using mail_trans [OF 2 write_data [of s2 0]] by (simp add: s2_def s3_def at_def)
  define s4 where "s4 = at 0 Send_ipi (s3\<lparr>box := (box s3)\<lparr>mb_pending := True\<rparr>\<rparr>)"
  have 4: "mail_run s s4" using mail_trans [OF 3 publish [of s3 0]] by (simp add: s3_def s4_def at_def)
  define s5 where "s5 = at 0 Poll (s4\<lparr>calls := (calls s4)(0 := tl (calls s4 0)), ipis := Suc (ipis s4)\<rparr>)"
  have 5: "mail_run s s5" using mail_trans [OF 4 send_ipi [of s4 0]] by (simp add: s4_def s5_def at_def)
  have f: "sender_at s5 0 = Poll" "calls s5 0 = ms" "mb_pending (box s5)" "owner s5 = Set_idle"
    using q assms(2) by (simp_all add: s1_def s2_def s3_def s4_def s5_def at_def)
  from mail_trans [OF 5 set_idle] f(4) have "mail_run s (s5\<lparr>owner_status := CPU_IDLE, owner := Sleep\<rparr>)" by simp
  from mail_trans [OF this wake] have "mail_run s (s5\<lparr>owner_status := CPU_IDLE, owner := Load_pending\<rparr>)" by simp
  from mail_trans [OF this load_true] f(3) have "mail_run s (s5\<lparr>owner_status := CPU_IDLE, owner := Set_busy\<rparr>)" by simp
  from mail_trans [OF this set_busy] have "mail_run s (s5\<lparr>owner_status := CPU_BUSY, owner := Run_func\<rparr>)" by simp
  note busy = this
  define r where "r = (if mb_func (box s5) \<noteq> 0 then ran s5 @ [mb_func (box s5)] else ran s5)"
  have r: "mail_run s (s5\<lparr>owner_status := CPU_BUSY, ran := r, owner := Clear_pending\<rparr>)"
    using mail_trans [OF busy run_func] unfolding r_def by (cases "mb_func (box s5) = 0") simp_all
  define t where "t = (s5\<lparr>owner_status := CPU_BUSY, ran := r, owner := Clear_pending\<rparr>)\<lparr>box := (box s5)\<lparr>mb_pending := False\<rparr>, owner := Set_idle\<rparr>"
  have "mail_run s t" using mail_trans [OF r clear_pending] by (simp add: t_def)
  moreover have "quiet t" "calls t 0 = ms" using f by (simp_all add: t_def quiet_def)
  ultimately show ?thesis by blast
qed

lemma mail_delivers: "quiet s \<Longrightarrow> \<exists>t. mail_run s t \<and> quiet t \<and> calls t 0 = []"
proof (induction "calls s 0" arbitrary: s)
  case Nil
  then show ?case using mail_refl by metis
next
  case (Cons m ms)
  then show ?case using mail_cycle [of s m ms] mail_run_trans by metis
qed

text \<open>Two messages are sent, served and run, in this order.\<close>

theorem mailbox_exactly_once_witness:
  "\<exists>s. mail_run (mail_start (\<lambda>i. if i = 0 then [(0x10, 1), (0x20, 2)] else [])) s \<and> calls s 0 = [] \<and> ran s = [0x10, 0x20]"
proof -
  let ?js = "\<lambda>i :: nat. if i = 0 then [(0x10, 1), (0x20, 2)] else [] :: (u64 \<times> u64) list"
  have "quiet (mail_start ?js)" by (simp add: quiet_def mail_start_def)
  then obtain s where s: "mail_run (mail_start ?js) s" "quiet s" "calls s 0 = []" using mail_delivers by blast
  have "ran s = run_list (?js 0)" using mailbox_exactly_once [OF _ s(1)] s(2,3) by (simp add: quiet_def)
  then show ?thesis using s by (auto simp: run_list_def)
qed

end
