(* ===== verification/Pci.thy ===== *)
theory Pci
  imports Acpi
begin

text \<open>
  PCI enumeration: configuration access, base address registers, the sweep over all functions and the matching of
  drivers (\<^verbatim>\<open>src/pci/pci.c\<close>, \<^verbatim>\<open>src/pci/pci.h\<close>, \<^verbatim>\<open>src/pci/dtable.c\<close>).

  The machine is a state \<open>'m\<close> with the accesses the code makes: memory mapped loads and stores and the two
  configuration ports (\<open>pci_hw\<close>). Where the configuration windows are is the function \<^verbatim>\<open>mcfg_get_device_addr\<close> of
  theory \<open>Acpi\<close> for segment 0. The locale \<open>config_space\<close> is the contract of configuration accesses: reads return the
  register, writes change the writable bits; it is interpreted for the port mechanism. The drivers are named by
  their initialisation functions, whose effect is an argument. The array of devices in the heap is a list;
  \<open>heap_ok\<close> says for which capacities the heap grants the memory, and a refusal is a write to address 0.
\<close>

section \<open>Configuration access\<close>

record 'm pci_hw =
  load32 :: "u64 \<Rightarrow> 'm \<Rightarrow> u32 \<times> 'm"
  store32 :: "u64 \<Rightarrow> u32 \<Rightarrow> 'm \<Rightarrow> 'm"
  load8 :: "u64 \<Rightarrow> 'm \<Rightarrow> u8 \<times> 'm"
  store8 :: "u64 \<Rightarrow> u8 \<Rightarrow> 'm \<Rightarrow> 'm"
  port_in :: "u16 \<Rightarrow> 'm \<Rightarrow> u32 \<times> 'm"
  port_out :: "u16 \<Rightarrow> u32 \<Rightarrow> 'm \<Rightarrow> 'm"
  device_addr :: "u8 \<Rightarrow> u8 \<Rightarrow> u8 \<Rightarrow> u64"

definition PCI_CONFIG_ADDRESS :: u16 where "PCI_CONFIG_ADDRESS = 0xCF8"
definition PCI_CONFIG_DATA :: u16 where "PCI_CONFIG_DATA = 0xCFC"

definition config_address :: "u16 \<Rightarrow> u16 \<Rightarrow> u16 \<Rightarrow> u16 \<Rightarrow> u32" where
  "config_address bus slot func offset =
     push_bit 16 (ucast bus) OR push_bit 11 (ucast slot) OR push_bit 8 (ucast func) OR ucast (offset AND 0xFC) OR 0x80000000"

definition pci_read :: "'m pci_hw \<Rightarrow> u16 \<Rightarrow> u16 \<Rightarrow> u16 \<Rightarrow> u16 \<Rightarrow> 'm \<Rightarrow> u32 \<times> 'm" where
  "pci_read hw bus slot func offset m =
     (let addr = device_addr hw (ucast bus) (ucast slot) (ucast func) in
      if addr \<noteq> 0 then load32 hw (addr + ucast (offset AND 0xFFF)) m
      else port_in hw PCI_CONFIG_DATA (port_out hw PCI_CONFIG_ADDRESS (config_address bus slot func offset) m))"

definition pci_write :: "'m pci_hw \<Rightarrow> u16 \<Rightarrow> u16 \<Rightarrow> u16 \<Rightarrow> u16 \<Rightarrow> u32 \<Rightarrow> 'm \<Rightarrow> 'm" where
  "pci_write hw bus slot func offset data m =
     (let addr = device_addr hw (ucast bus) (ucast slot) (ucast func) in
      if addr \<noteq> 0 then store32 hw (addr + ucast (offset AND 0xFFF)) data m
      else port_out hw PCI_CONFIG_DATA data (port_out hw PCI_CONFIG_ADDRESS (config_address bus slot func offset) m))"

definition pci_read_byte :: "'m pci_hw \<Rightarrow> u16 \<Rightarrow> u16 \<Rightarrow> u16 \<Rightarrow> u16 \<Rightarrow> 'm \<Rightarrow> u8 \<times> 'm" where
  "pci_read_byte hw bus slot func offset m =
     (let addr = device_addr hw (ucast bus) (ucast slot) (ucast func) in
      if addr \<noteq> 0 then load8 hw (addr + ucast (offset AND 0xFFF)) m
      else case port_in hw PCI_CONFIG_DATA (port_out hw PCI_CONFIG_ADDRESS (config_address bus slot func offset) m) of
        (v, m) \<Rightarrow> (ucast (drop_bit (unat (offset AND 3) * 8) v AND 0xFF), m))"

definition pci_write_byte :: "'m pci_hw \<Rightarrow> u16 \<Rightarrow> u16 \<Rightarrow> u16 \<Rightarrow> u16 \<Rightarrow> u8 \<Rightarrow> 'm \<Rightarrow> 'm" where
  "pci_write_byte hw bus slot func offset data m =
     (let addr = device_addr hw (ucast bus) (ucast slot) (ucast func) in
      if addr \<noteq> 0 then store8 hw (addr + ucast (offset AND 0xFFF)) data m
      else case port_in hw PCI_CONFIG_DATA (port_out hw PCI_CONFIG_ADDRESS (config_address bus slot func offset) m) of
        (tmp, m) \<Rightarrow>
          let sh = unat (offset AND 3) * 8 in
          port_out hw PCI_CONFIG_DATA ((tmp AND NOT (push_bit sh 0xFF)) OR push_bit sh (ucast data)) m)"

section \<open>Devices\<close>

record pci_bar_t =
  bar_base :: u64
  bar_size :: u64
  is_io :: bool

definition no_bar :: pci_bar_t where "no_bar = \<lparr>bar_base = 0, bar_size = 0, is_io = False\<rparr>"

text \<open>The location of a function: bus, slot and function number.\<close>

type_synonym pci_loc = "u8 \<times> u8 \<times> u8"

definition rd :: "'m pci_hw \<Rightarrow> pci_loc \<Rightarrow> u16 \<Rightarrow> 'm \<Rightarrow> u32 \<times> 'm" where
  "rd hw l offset m = (case l of (bus, slot, func) \<Rightarrow> pci_read hw (ucast bus) (ucast slot) (ucast func) offset m)"

definition wr :: "'m pci_hw \<Rightarrow> pci_loc \<Rightarrow> u16 \<Rightarrow> u32 \<Rightarrow> 'm \<Rightarrow> 'm" where
  "wr hw l offset v m = (case l of (bus, slot, func) \<Rightarrow> pci_write hw (ucast bus) (ucast slot) (ucast func) offset v m)"

definition pci_get_bar :: "'m pci_hw \<Rightarrow> pci_loc \<Rightarrow> u8 \<Rightarrow> 'm \<Rightarrow> pci_bar_t \<times> 'm" where
  "pci_get_bar hw l bar_index m =
     (let offset = 0x10 + (ucast bar_index * 4) in
      case rd hw l offset m of (low, m) \<Rightarrow>
        if low = 0 then (no_bar, m)
        else
          let m = wr hw l offset 0xFFFFFFFF m in
          case rd hw l offset m of (readback, m) \<Rightarrow>
            let m = wr hw l offset low m in
            if low AND 1 \<noteq> 0 then
              (\<lparr>bar_base = ucast (low AND NOT 3), bar_size = ucast (NOT (readback AND NOT 3) + 1), is_io = True\<rparr>, m)
            else if low AND 6 = 4 then
              (case rd hw l (offset + 4) m of (high, m) \<Rightarrow>
                 let m = wr hw l (offset + 4) 0xFFFFFFFF m in
                 case rd hw l (offset + 4) m of (readback_high, m) \<Rightarrow>
                   let m = wr hw l (offset + 4) high m;
                       combined_readback = push_bit 32 (ucast readback_high) OR ucast (readback AND NOT 0xF) in
                   (\<lparr>bar_base = ucast (low AND NOT 0xF) OR push_bit 32 (ucast high), bar_size = NOT combined_readback + 1, is_io = False\<rparr>, m))
            else (\<lparr>bar_base = ucast (low AND NOT 0xF), bar_size = ucast (NOT (readback AND NOT 0xF) + 1), is_io = False\<rparr>, m))"

definition pci_enable_capabilities :: "'m pci_hw \<Rightarrow> pci_loc \<Rightarrow> 'm \<Rightarrow> 'm" where
  "pci_enable_capabilities hw l m =
     (case rd hw l 0x04 m of (cmd, m) \<Rightarrow> wr hw l 0x04 ((cmd OR 0x07) AND NOT (push_bit 10 1)) m)"

record pci_dev_t =
  vendor_id :: u16
  device_id :: u16
  class_id :: u8
  subclass_id :: u8
  progif :: u8
  pci_irq :: u8
  loc :: pci_loc
  bars :: "pci_bar_t list"
  claimed :: bool

text \<open>The six base address registers; a 64-bit one takes two, and the entry of its upper half keeps what the memory held.\<close>

function bars_loop :: "'m pci_hw \<Rightarrow> pci_loc \<Rightarrow> nat \<Rightarrow> pci_bar_t list \<Rightarrow> 'm \<Rightarrow> pci_bar_t list \<times> 'm" where
  "bars_loop hw l b bs m =
     (if b < 6 then
        (case pci_get_bar hw l (of_nat b) m of (bar, m) \<Rightarrow>
         case rd hw l (0x10 + of_nat b * 4) m of (raw, m) \<Rightarrow>
           bars_loop hw l (if raw AND 1 = 0 \<and> raw AND 6 = 4 then b + 2 else b + 1) (bs[b := bar]) m)
      else (bs, m))"
  by pat_completeness auto

termination
  by (relation "measure (\<lambda>(hw, l, b, bs, m). 6 - b)") auto

declare bars_loop.simps [simp del]

definition read_function :: "'m pci_hw \<Rightarrow> pci_bar_t list \<Rightarrow> pci_loc \<Rightarrow> u32 \<Rightarrow> 'm \<Rightarrow> pci_dev_t \<times> 'm" where
  "read_function hw junk l id_reg m =
     (case rd hw l 0x08 m of (class_reg, m) \<Rightarrow>
      case rd hw l 0x3C m of (irq_reg, m) \<Rightarrow>
      case bars_loop hw l 0 junk m of (bs, m) \<Rightarrow>
        (\<lparr>vendor_id = ucast (id_reg AND 0xFFFF), device_id = ucast (drop_bit 16 id_reg), class_id = ucast (drop_bit 24 class_reg AND 0xFF),
          subclass_id = ucast (drop_bit 16 class_reg AND 0xFF), progif = ucast (drop_bit 8 class_reg AND 0xFF), pci_irq = ucast (irq_reg AND 0xFF),
          loc = l, bars = bs, claimed = False\<rparr>, m))"

datatype pci_error = NullWrite

record 'm scan =
  discovered :: "pci_dev_t list"
  capacity :: nat
  machine :: 'm

text \<open>One function: \<open>junk\<close> gives the contents of fresh heap memory.\<close>

definition scan_function :: "'m pci_hw \<Rightarrow> (nat \<Rightarrow> bool) \<Rightarrow> (nat \<Rightarrow> pci_bar_t list) \<Rightarrow> pci_loc \<Rightarrow> 'm scan \<Rightarrow> pci_error + 'm scan" where
  "scan_function hw heap_ok junk l s =
     (case rd hw l 0x00 (machine s) of (id_reg, m) \<Rightarrow>
        if id_reg AND 0xFFFF = 0xFFFF then Inr (s\<lparr>machine := m\<rparr>)
        else
          let cap = (if capacity s \<le> length (discovered s) then capacity s * 2 else capacity s) in
          if \<not> heap_ok cap then Inl NullWrite
          else case read_function hw (junk (length (discovered s))) l id_reg m of
            (d, m) \<Rightarrow> Inr \<lparr>discovered = discovered s @ [d], capacity = cap, machine = m\<rparr>)"

fun functions_loop :: "'m pci_hw \<Rightarrow> (nat \<Rightarrow> bool) \<Rightarrow> (nat \<Rightarrow> pci_bar_t list) \<Rightarrow> u8 \<Rightarrow> u8 \<Rightarrow> nat \<Rightarrow> nat \<Rightarrow> 'm scan \<Rightarrow> pci_error + 'm scan" where
  "functions_loop hw heap_ok junk bus slot func 0 s = Inr s"
| "functions_loop hw heap_ok junk bus slot func (Suc k) s =
     and_then (scan_function hw heap_ok junk (bus, slot, of_nat func) s) (functions_loop hw heap_ok junk bus slot (Suc func) k)"

definition scan_slot :: "'m pci_hw \<Rightarrow> (nat \<Rightarrow> bool) \<Rightarrow> (nat \<Rightarrow> pci_bar_t list) \<Rightarrow> u8 \<Rightarrow> u8 \<Rightarrow> 'm scan \<Rightarrow> pci_error + 'm scan" where
  "scan_slot hw heap_ok junk bus slot s =
     (case rd hw (bus, slot, 0) 0x00 (machine s) of (id_reg, m) \<Rightarrow>
        if id_reg AND 0xFFFF = 0xFFFF then Inr (s\<lparr>machine := m\<rparr>)
        else case rd hw (bus, slot, 0) 0x0C m of (hdr, m) \<Rightarrow>
          let header_type = (ucast (drop_bit 16 hdr AND 0xFF) :: u8);
              max_func = (if header_type AND 0x80 \<noteq> 0 then 8 else 1) in
          functions_loop hw heap_ok junk bus slot 0 max_func (s\<lparr>machine := m\<rparr>))"

fun sweep :: "'m pci_hw \<Rightarrow> (nat \<Rightarrow> bool) \<Rightarrow> (nat \<Rightarrow> pci_bar_t list) \<Rightarrow> (u8 \<times> u8) list \<Rightarrow> 'm scan \<Rightarrow> pci_error + 'm scan" where
  "sweep hw heap_ok junk [] s = Inr s"
| "sweep hw heap_ok junk ((bus, slot) # ls) s = and_then (scan_slot hw heap_ok junk bus slot s) (sweep hw heap_ok junk ls)"

definition all_slots :: "(u8 \<times> u8) list" where
  "all_slots = concat (map (\<lambda>bus. map (\<lambda>slot. (of_nat bus, of_nat slot)) [0..<32]) [0..<256])"

section \<open>Drivers\<close>

datatype driver = cxl_init | ivshmem_init | ac97_init | e1000_init | rtl8139_init | ahci_init | ide_init

datatype pci_driver_status =
    DRIVER_OK | CORRUPTED_FIRMWARE_TABLE | HOST_HARDWARE_FAILURE | CARD_HARDWARE_FAILURE | CARD_HARDWARE_STALLING | INVALID_BAR
  | DOWNLOAD_MORE_RAM | DOWNLOAD_MORE_RAM_32BIT | CARD_NOT_PRESENT | DRIVER_UNSUPPORTED_CARD | DRIVER_UNSUPPORTED_HOST

definition pci_status_table :: "(pci_driver_status \<times> string) list" where
  "pci_status_table =
     [(DRIVER_OK, ''OK''), (CORRUPTED_FIRMWARE_TABLE, ''Corrupted Firmware Table''), (HOST_HARDWARE_FAILURE, ''Host Hardware Failure''),
      (CARD_HARDWARE_FAILURE, ''Card Hardware Failure''), (CARD_HARDWARE_STALLING, ''Card Hardware Stalling''), (INVALID_BAR, ''Invalid BAR configuration''),
      (DOWNLOAD_MORE_RAM, ''Out of memory''), (DOWNLOAD_MORE_RAM_32BIT, ''Out of memory (< 4GB)''), (CARD_NOT_PRESENT, ''Card not present''),
      (DRIVER_UNSUPPORTED_CARD, ''Unsupported card''), (DRIVER_UNSUPPORTED_HOST, ''Unsupported host'')]"

fun status_loop :: "pci_driver_status \<Rightarrow> (pci_driver_status \<times> string) list \<Rightarrow> string" where
  "status_loop s [] = ''Unknown''"
| "status_loop s ((t, msg) # ts) = (if t = s then msg else status_loop s ts)"

definition pci_driver_status_to_string :: "pci_driver_status \<Rightarrow> string" where
  "pci_driver_status_to_string s = status_loop s pci_status_table"

record pci_driver_entry_t =
  e_vendor_id :: u16
  e_device_id :: u16
  e_class_id :: u8
  e_subclass_id :: u8
  e_progif :: u8
  group_id :: u16
  required_capabilities :: u32
  e_name :: string
  e_init :: "driver option"

definition PCI_VENDOR_INTEL :: u16 where "PCI_VENDOR_INTEL = 0x8086"
definition PCI_VENDOR_REALTEK :: u16 where "PCI_VENDOR_REALTEK = 0x10EC"
definition PCI_VENDOR_REDHAT :: u16 where "PCI_VENDOR_REDHAT = 0x1AF4"
definition PCI_DEVICE_E1000_QEMU :: u16 where "PCI_DEVICE_E1000_QEMU = 0x100E"
definition PCI_DEVICE_RTL8139 :: u16 where "PCI_DEVICE_RTL8139 = 0x8139"
definition PCI_DEVICE_IVSHMEM :: u16 where "PCI_DEVICE_IVSHMEM = 0x1110"
definition PCI_CLASS_STORAGE :: u8 where "PCI_CLASS_STORAGE = 0x01"
definition PCI_SUBCLASS_IDE :: u8 where "PCI_SUBCLASS_IDE = 0x01"
definition PCI_SUBCLASS_SATA :: u8 where "PCI_SUBCLASS_SATA = 0x06"
definition PCI_CLASS_NETWORK :: u8 where "PCI_CLASS_NETWORK = 0x02"
definition PCI_SUBCLASS_ETHERNET :: u8 where "PCI_SUBCLASS_ETHERNET = 0x00"
definition PCI_CLASS_MULTIMEDIA :: u8 where "PCI_CLASS_MULTIMEDIA = 0x04"
definition PCI_SUBCLASS_AUDIO :: u8 where "PCI_SUBCLASS_AUDIO = 0x01"
definition PCI_CLASS_MEMORY :: u8 where "PCI_CLASS_MEMORY = 0x05"
definition PCI_SUBCLASS_RAM_CTRL :: u8 where "PCI_SUBCLASS_RAM_CTRL = 0x00"
definition PCI_SUBCLASS_CXL_DEVICE :: u8 where "PCI_SUBCLASS_CXL_DEVICE = 0x02"
definition PCI_CLASS_BRIDGE :: u8 where "PCI_CLASS_BRIDGE = 0x06"
definition PCI_SUBCLASS_HOST_BRIDGE :: u8 where "PCI_SUBCLASS_HOST_BRIDGE = 0x00"
definition PCI_CLASS_SERIAL :: u8 where "PCI_CLASS_SERIAL = 0x0C"
definition PCI_SUBCLASS_USB :: u8 where "PCI_SUBCLASS_USB = 0x03"
definition PCI_PROGIF_EHCI :: u8 where "PCI_PROGIF_EHCI = 0x20"
definition PCI_PROGIF_XHCI :: u8 where "PCI_PROGIF_XHCI = 0x30"
definition PCI_CLASS_ACCELERATOR :: u8 where "PCI_CLASS_ACCELERATOR = 0x12"
definition PCI_SUBCLASS_ACCEL_CXL :: u8 where "PCI_SUBCLASS_ACCEL_CXL = 0x00"
definition PCI_PROGIF_ANY :: u8 where "PCI_PROGIF_ANY = 0xFF"
definition PCI_VENDOR_ANY :: u16 where "PCI_VENDOR_ANY = 0xFFFF"
definition PCI_DEVICE_ANY :: u16 where "PCI_DEVICE_ANY = 0xFFFF"
definition PCI_ID_ANY :: u8 where "PCI_ID_ANY = 0xFF"
definition PCI_CAP_ECAM :: u32 where "PCI_CAP_ECAM = push_bit 0 1"

lemmas pci_ids = PCI_VENDOR_INTEL_def PCI_VENDOR_REALTEK_def PCI_VENDOR_REDHAT_def PCI_DEVICE_E1000_QEMU_def PCI_DEVICE_RTL8139_def PCI_DEVICE_IVSHMEM_def
  PCI_CLASS_STORAGE_def PCI_SUBCLASS_IDE_def PCI_SUBCLASS_SATA_def PCI_CLASS_NETWORK_def PCI_SUBCLASS_ETHERNET_def PCI_CLASS_MULTIMEDIA_def
  PCI_SUBCLASS_AUDIO_def PCI_CLASS_MEMORY_def PCI_SUBCLASS_RAM_CTRL_def PCI_SUBCLASS_CXL_DEVICE_def PCI_CLASS_BRIDGE_def PCI_SUBCLASS_HOST_BRIDGE_def
  PCI_CLASS_SERIAL_def PCI_SUBCLASS_USB_def PCI_PROGIF_EHCI_def PCI_PROGIF_XHCI_def PCI_CLASS_ACCELERATOR_def PCI_SUBCLASS_ACCEL_CXL_def
  PCI_PROGIF_ANY_def PCI_VENDOR_ANY_def PCI_DEVICE_ANY_def PCI_ID_ANY_def

text \<open>The table; \<open>enabled\<close> is the set of drivers that the build includes.\<close>

definition generic_entry :: "string \<Rightarrow> u16 \<Rightarrow> u8 \<Rightarrow> u8 \<Rightarrow> u8 \<Rightarrow> u32 \<Rightarrow> driver option \<Rightarrow> pci_driver_entry_t" where
  "generic_entry nm g c sc p caps drv = \<lparr>e_vendor_id = PCI_VENDOR_ANY, e_device_id = PCI_DEVICE_ANY, e_class_id = c, e_subclass_id = sc,
     e_progif = p, group_id = g, required_capabilities = caps, e_name = nm, e_init = drv\<rparr>"

definition pci_discovery_table :: "driver set \<Rightarrow> pci_driver_entry_t list" where
  "pci_discovery_table enabled =
     (let on = (\<lambda>d. if d \<in> enabled then Some d else None) in
      [generic_entry ''Host Bridge'' 0 PCI_CLASS_BRIDGE PCI_SUBCLASS_HOST_BRIDGE PCI_PROGIF_ANY 0 None,
       generic_entry ''xHCI USB Controller'' 3 PCI_CLASS_SERIAL PCI_SUBCLASS_USB PCI_PROGIF_XHCI 0 None,
       generic_entry ''EHCI USB Controller'' 3 PCI_CLASS_SERIAL PCI_SUBCLASS_USB PCI_PROGIF_EHCI 0 None,
       generic_entry ''Compute Express Link Memory'' 0 PCI_CLASS_MEMORY PCI_SUBCLASS_CXL_DEVICE PCI_PROGIF_ANY PCI_CAP_ECAM (on cxl_init),
       generic_entry ''Compute Express Link Accelerator'' 0 PCI_CLASS_ACCELERATOR PCI_SUBCLASS_ACCEL_CXL PCI_PROGIF_ANY PCI_CAP_ECAM (on cxl_init),
       (generic_entry ''IVSHMEM'' 0 PCI_CLASS_MEMORY PCI_SUBCLASS_RAM_CTRL PCI_PROGIF_ANY 0 (on ivshmem_init))\<lparr>e_vendor_id := PCI_VENDOR_REDHAT, e_device_id := PCI_DEVICE_IVSHMEM\<rparr>,
       generic_entry ''AC'97 Audio Controller'' 1 PCI_CLASS_MULTIMEDIA PCI_SUBCLASS_AUDIO PCI_PROGIF_ANY 0 (on ac97_init),
       (generic_entry ''Intel E1000 Ethernet Controller'' 2 PCI_CLASS_NETWORK PCI_SUBCLASS_ETHERNET PCI_PROGIF_ANY 0 (on e1000_init))\<lparr>e_vendor_id := PCI_VENDOR_INTEL, e_device_id := PCI_DEVICE_E1000_QEMU\<rparr>,
       (generic_entry ''RTL8139 Ethernet Controller'' 2 PCI_CLASS_NETWORK PCI_SUBCLASS_ETHERNET PCI_PROGIF_ANY 0 (on rtl8139_init))\<lparr>e_vendor_id := PCI_VENDOR_REALTEK, e_device_id := PCI_DEVICE_RTL8139\<rparr>,
       generic_entry ''Generic SATA Controller'' 0 PCI_CLASS_STORAGE PCI_SUBCLASS_SATA PCI_PROGIF_ANY 0 (on ahci_init),
       generic_entry ''Generic IDE Controller'' 0 PCI_CLASS_STORAGE PCI_SUBCLASS_IDE PCI_PROGIF_ANY 0 (on ide_init)])"

definition pci_check_driver_capabilities :: "bool \<Rightarrow> u32 \<Rightarrow> bool" where
  "pci_check_driver_capabilities ecam required_caps \<longleftrightarrow> \<not> (required_caps AND PCI_CAP_ECAM \<noteq> 0 \<and> \<not> ecam)"

definition entry_matches :: "pci_driver_entry_t \<Rightarrow> pci_dev_t \<Rightarrow> bool" where
  "entry_matches e d \<longleftrightarrow>
     (e_vendor_id e = PCI_VENDOR_ANY \<or> e_vendor_id e = vendor_id d) \<and>
     (e_device_id e = PCI_DEVICE_ANY \<or> e_device_id e = device_id d) \<and>
     (e_class_id e = PCI_ID_ANY \<or> class_id d = e_class_id e \<and> (e_subclass_id e = PCI_ID_ANY \<or> subclass_id d = e_subclass_id e)) \<and>
     (e_progif e = PCI_ID_ANY \<or> progif d = e_progif e)"

text \<open>
  Matching. The started drivers are recorded with the index of the device, in order; \<open>start_fn\<close> is the effect of an
  initialisation function. A group bit is a shift of a C \<open>int\<close>, whose count the processor takes modulo 32.
\<close>

record 'm matching =
  devs :: "pci_dev_t list"
  claimed_groups :: u32
  started :: "(pci_driver_entry_t \<times> nat) list"
  failures :: "(string \<times> string) list"
  mach :: 'm

definition group_bit :: "u16 \<Rightarrow> u32" where
  "group_bit g = push_bit (unat g mod 32) 1"

definition start_driver :: "'m pci_hw \<Rightarrow> (driver \<Rightarrow> pci_dev_t \<Rightarrow> 'm \<Rightarrow> pci_driver_status \<times> 'm) \<Rightarrow> pci_driver_entry_t \<Rightarrow> nat \<Rightarrow> 'm matching \<Rightarrow> 'm matching" where
  "start_driver hw start_fn e j s =
     (case e_init e of
        None \<Rightarrow> s
      | Some drv \<Rightarrow>
          let d = devs s ! j;
              m = pci_enable_capabilities hw (loc d) (mach s) in
          case start_fn drv d m of (st, m) \<Rightarrow>
            s\<lparr>mach := m, started := started s @ [(e, j)],
              failures := failures s @ (if st \<noteq> DRIVER_OK then [(e_name e, pci_driver_status_to_string st)] else [])\<rparr>)"

fun devices_loop :: "'m pci_hw \<Rightarrow> (driver \<Rightarrow> pci_dev_t \<Rightarrow> 'm \<Rightarrow> pci_driver_status \<times> 'm) \<Rightarrow> bool \<Rightarrow> pci_driver_entry_t \<Rightarrow> nat \<Rightarrow> nat \<Rightarrow> 'm matching \<Rightarrow> 'm matching" where
  "devices_loop hw start_fn ecam e j 0 s = s"
| "devices_loop hw start_fn ecam e j (Suc k) s =
     (let d = devs s ! j in
      if claimed d \<or> \<not> entry_matches e d then devices_loop hw start_fn ecam e (Suc j) k s
      else
        let s1 = s\<lparr>devs := (devs s)[j := d\<lparr>claimed := True\<rparr>]\<rparr> in
        if \<not> pci_check_driver_capabilities ecam (required_capabilities e) then devices_loop hw start_fn ecam e (Suc j) k s1
        else
          let s2 = (if group_id e \<noteq> 0 then s1\<lparr>claimed_groups := claimed_groups s1 OR group_bit (group_id e)\<rparr> else s1);
              s3 = start_driver hw start_fn e j s2 in
          if group_id e \<noteq> 0 then s3 else devices_loop hw start_fn ecam e (Suc j) k s3)"

fun entries_loop :: "'m pci_hw \<Rightarrow> (driver \<Rightarrow> pci_dev_t \<Rightarrow> 'm \<Rightarrow> pci_driver_status \<times> 'm) \<Rightarrow> bool \<Rightarrow> pci_driver_entry_t list \<Rightarrow> 'm matching \<Rightarrow> 'm matching" where
  "entries_loop hw start_fn ecam [] s = s"
| "entries_loop hw start_fn ecam (e # es) s = entries_loop hw start_fn ecam es
     (if group_id e \<noteq> 0 \<and> claimed_groups s AND group_bit (group_id e) \<noteq> 0 then s
      else devices_loop hw start_fn ecam e 0 (length (devs s)) s)"

definition pci_init :: "'m pci_hw \<Rightarrow> (nat \<Rightarrow> bool) \<Rightarrow> (nat \<Rightarrow> pci_bar_t list) \<Rightarrow> (driver \<Rightarrow> pci_dev_t \<Rightarrow> 'm \<Rightarrow> pci_driver_status \<times> 'm) \<Rightarrow> bool \<Rightarrow> driver set \<Rightarrow> 'm \<Rightarrow> pci_error + 'm matching" where
  "pci_init hw heap_ok junk start_fn ecam enabled m =
     and_then (sweep hw heap_ok junk all_slots \<lparr>discovered = [], capacity = 20, machine = m\<rparr>) (\<lambda>s.
       Inr (entries_loop hw start_fn ecam (pci_discovery_table enabled)
         \<lparr>devs = discovered s, claimed_groups = 0, started = [], failures = [], mach = machine s\<rparr>))"

section \<open>Matching\<close>

text \<open>Claims only grow and nothing else of a device changes.\<close>

definition grows :: "'m matching \<Rightarrow> 'm matching \<Rightarrow> bool" where
  "grows s t \<longleftrightarrow> length (devs t) = length (devs s) \<and>
     (\<forall>i < length (devs s). (claimed (devs s ! i) \<longrightarrow> claimed (devs t ! i)) \<and> (devs t ! i)\<lparr>claimed := False\<rparr> = (devs s ! i)\<lparr>claimed := False\<rparr>) \<and>
     (\<forall>x. claimed_groups s AND x \<noteq> 0 \<longrightarrow> claimed_groups t AND x \<noteq> 0)"

lemma grows_refl [simp]: "grows s s"
  by (simp add: grows_def)

lemma grows_trans: "grows s t \<Longrightarrow> grows t u \<Longrightarrow> grows s u"
  by (simp add: grows_def)

lemma entry_matches_claimed [simp]: "entry_matches e (d\<lparr>claimed := c\<rparr>) = entry_matches e d"
  by (simp add: entry_matches_def)

lemma grows_matches: "grows s t \<Longrightarrow> i < length (devs s) \<Longrightarrow> entry_matches e (devs t ! i) = entry_matches e (devs s ! i)"
  by (metis entry_matches_claimed grows_def)

text \<open>What holds of the drivers started so far.\<close>

definition start_ok :: "bool \<Rightarrow> 'm matching \<Rightarrow> pci_driver_entry_t \<Rightarrow> nat \<Rightarrow> bool" where
  "start_ok ecam s e j \<longleftrightarrow> j < length (devs s) \<and> claimed (devs s ! j) \<and> entry_matches e (devs s ! j) \<and> e_init e \<noteq> None \<and>
     pci_check_driver_capabilities ecam (required_capabilities e) \<and> (group_id e \<noteq> 0 \<longrightarrow> claimed_groups s AND group_bit (group_id e) \<noteq> 0)"

definition starts_ok :: "bool \<Rightarrow> 'm matching \<Rightarrow> bool" where
  "starts_ok ecam s \<longleftrightarrow> distinct (map snd (started s)) \<and> (\<forall>(e, j) \<in> set (started s). start_ok ecam s e j) \<and>
     (\<forall>(e, j) \<in> set (started s). \<forall>(e', j') \<in> set (started s). group_id e \<noteq> 0 \<and> group_id e = group_id e' \<longrightarrow> (e, j) = (e', j'))"

text \<open>An entry has had its chance: every device that matches is claimed, unless its group has been served.\<close>

definition entry_done :: "pci_driver_entry_t \<Rightarrow> 'm matching \<Rightarrow> bool" where
  "entry_done e s \<longleftrightarrow> (group_id e \<noteq> 0 \<and> claimed_groups s AND group_bit (group_id e) \<noteq> 0) \<or>
     (\<forall>i < length (devs s). entry_matches e (devs s ! i) \<longrightarrow> claimed (devs s ! i))"

lemma entry_done_grows: "entry_done e s \<Longrightarrow> grows s t \<Longrightarrow> entry_done e t"
  unfolding entry_done_def by (metis grows_def grows_matches)

lemma group_bit_self: "group_bit g \<noteq> 0"
proof -
  have "bit (group_bit g) (unat g mod 32)" by (simp add: group_bit_def bit_simps)
  then show ?thesis by auto
qed

lemma or_and_nonzero: "(a OR b) AND b = (b :: u32)"
  by (rule bit_eqI) (auto simp: bit_simps)

lemma or_and_mono: "(a :: u32) AND x \<noteq> 0 \<Longrightarrow> (a OR b) AND x \<noteq> 0"
  by (metis (no_types, lifting) and.commute bit.conj_disj_distrib or_eq_0_iff)

text \<open>Claiming a device and starting its driver.\<close>

lemma claim_grows:
  assumes "j < length (devs s)"
  shows "grows s (s\<lparr>devs := (devs s)[j := (devs s ! j)\<lparr>claimed := True\<rparr>], claimed_groups := claimed_groups s OR b\<rparr>)"
  using assms or_and_mono by (auto simp: grows_def nth_list_update)

lemma start_ok_grows: "start_ok ecam s e j \<Longrightarrow> grows s t \<Longrightarrow> start_ok ecam t e j"
  unfolding start_ok_def using grows_matches [of s t j e] by (simp add: grows_def)

lemma starts_ok_grows: "starts_ok ecam s \<Longrightarrow> grows s t \<Longrightarrow> started t = started s \<Longrightarrow> starts_ok ecam t"
  unfolding starts_ok_def using start_ok_grows [of ecam s _ _ t] by auto

lemma start_driver_simps [simp]:
  "devs (start_driver hw f e j s) = devs s" "claimed_groups (start_driver hw f e j s) = claimed_groups s"
  "started (start_driver hw f e j s) = started s @ (if e_init e \<noteq> None then [(e, j)] else [])"
  by (auto simp: start_driver_def Let_def split: option.split prod.split)

lemma grows_start: "grows s (start_driver hw f e j t) = grows s t"
  by (simp add: grows_def)

lemma starts_ok_start:
  assumes "starts_ok ecam s" "start_ok ecam s e j \<or> e_init e = None" "j \<notin> snd ` set (started s)"
    and "group_id e \<noteq> 0 \<Longrightarrow> \<forall>(e', j') \<in> set (started s). group_id e' \<noteq> group_id e"
  shows "starts_ok ecam (start_driver hw f e j s)"
proof -
  have so: "start_ok ecam (start_driver hw f e j s) e' j' = start_ok ecam s e' j'" for e' j' by (simp add: start_ok_def)
  show ?thesis
  proof (cases "e_init e = None")
    case True
    then show ?thesis using assms(1) by (simp add: starts_ok_def so)
  next
    case False
    then show ?thesis using assms unfolding starts_ok_def so start_driver_simps by (fastforce simp: image_iff)
  qed
qed

lemma not_started_group:
  assumes "starts_ok ecam s" "group_id e \<noteq> 0" "claimed_groups s AND group_bit (group_id e) = 0"
  shows "\<forall>(e', j') \<in> set (started s). group_id e' \<noteq> group_id e"
  using assms unfolding starts_ok_def start_ok_def by fastforce

lemma not_started_device:
  assumes "starts_ok ecam s" "\<not> claimed (devs s ! j)"
  shows "j \<notin> snd ` set (started s)"
  using assms unfolding starts_ok_def start_ok_def by fastforce

lemma devices_loop_ok:
  assumes "starts_ok ecam s" "group_id e \<noteq> 0 \<longrightarrow> claimed_groups s AND group_bit (group_id e) = 0"
    and "j + k = length (devs s)" "\<forall>i < j. entry_matches e (devs s ! i) \<longrightarrow> claimed (devs s ! i)"
  shows "let t = devices_loop hw f ecam e j k s in
     starts_ok ecam t \<and> grows s t \<and> entry_done e t \<and> set (map fst (started t)) \<subseteq> insert e (set (map fst (started s)))"
  using assms
proof (induction k arbitrary: j s)
  case 0
  then show ?case by (auto simp: entry_done_def Let_def)
next
  case (Suc k)
  let ?d = "devs s ! j"
  let ?s1 = "s\<lparr>devs := (devs s)[j := ?d\<lparr>claimed := True\<rparr>]\<rparr>"
  have j: "j < length (devs s)" using Suc.prems(3) by simp
  have g1: "grows s ?s1" using claim_grows [OF j, of 0] by (simp add: grows_def)
  have o1: "starts_ok ecam ?s1" by (rule starts_ok_grows [OF Suc.prems(1) g1]) simp
  have less: "i < Suc j \<longleftrightarrow> i < j \<or> i = j" for i by auto
  have m1: "\<forall>i < Suc j. entry_matches e (devs ?s1 ! i) \<longrightarrow> claimed (devs ?s1 ! i)"
    using Suc.prems(4) j by (auto simp: nth_list_update less)
  show ?case
  proof (cases "claimed ?d \<or> \<not> entry_matches e ?d")
    case True
    then have "entry_matches e ?d \<longrightarrow> claimed ?d" by blast
    with True show ?thesis using Suc.IH [of s "Suc j"] Suc.prems by (simp add: less)
  next
    case unclaimed: False
    show ?thesis
    proof (cases "pci_check_driver_capabilities ecam (required_capabilities e)")
      case False
      have "let t = devices_loop hw f ecam e (Suc j) k ?s1 in
        starts_ok ecam t \<and> grows ?s1 t \<and> entry_done e t \<and> set (map fst (started t)) \<subseteq> insert e (set (map fst (started ?s1)))"
        by (rule Suc.IH) (use o1 m1 Suc.prems in simp_all)
      then show ?thesis using unclaimed False g1 grows_trans [OF g1] by (auto simp: Let_def)
    next
      case caps: True
      have nd: "j \<notin> snd ` set (started s)" using not_started_device [OF Suc.prems(1)] unclaimed by blast
      let ?s2 = "if group_id e \<noteq> 0 then ?s1\<lparr>claimed_groups := claimed_groups ?s1 OR group_bit (group_id e)\<rparr> else ?s1"
      let ?s3 = "start_driver hw f e j ?s2"
      have g2: "grows s ?s2" using claim_grows [OF j, of "group_bit (group_id e)"] g1 by simp
      have o2: "starts_ok ecam ?s2" by (rule starts_ok_grows [OF Suc.prems(1) g2]) simp
      have st: "start_ok ecam ?s2 e j \<or> e_init e = None"
        using j unclaimed caps or_and_nonzero [of "claimed_groups s"] group_bit_self by (auto simp: start_ok_def)
      have o3: "starts_ok ecam ?s3"
        by (rule starts_ok_start [OF o2 st]) (use nd not_started_group [OF Suc.prems(1), of e] Suc.prems(2) in simp_all)
      have g3: "grows s ?s3" using g2 by (simp add: grows_start)
      show ?thesis
      proof (cases "group_id e = 0")
        case False
        have "entry_done e ?s3" using False or_and_nonzero [of "claimed_groups s"] group_bit_self by (simp add: entry_done_def)
        then show ?thesis using unclaimed caps False o3 g3 by (auto simp: Let_def)
      next
        case True
        have "let t = devices_loop hw f ecam e (Suc j) k ?s3 in
          starts_ok ecam t \<and> grows ?s3 t \<and> entry_done e t \<and> set (map fst (started t)) \<subseteq> insert e (set (map fst (started ?s3)))"
          by (rule Suc.IH) (use o3 m1 Suc.prems True in simp_all)
        then show ?thesis using unclaimed caps True grows_trans [OF g3] by (auto simp: Let_def split: if_splits)
      qed
    qed
  qed
qed

lemma entries_loop_ok:
  assumes "starts_ok ecam s"
  shows "let t = entries_loop hw f ecam es s in starts_ok ecam t \<and> grows s t \<and> (\<forall>e \<in> set es. entry_done e t) \<and>
     set (map fst (started t)) \<subseteq> set es \<union> set (map fst (started s))"
  using assms
proof (induction es arbitrary: s)
  case (Cons e es)
  let ?s = "if group_id e \<noteq> 0 \<and> claimed_groups s AND group_bit (group_id e) \<noteq> 0 then s else devices_loop hw f ecam e 0 (length (devs s)) s"
  have d: "starts_ok ecam ?s \<and> grows s ?s \<and> entry_done e ?s \<and> set (map fst (started ?s)) \<subseteq> insert e (set (map fst (started s)))"
    using devices_loop_ok [OF Cons.prems, of e 0 "length (devs s)" hw f] Cons.prems
    by (cases "group_id e \<noteq> 0 \<and> claimed_groups s AND group_bit (group_id e) \<noteq> 0") (auto simp: entry_done_def Let_def)
  then have "let t = entries_loop hw f ecam es ?s in starts_ok ecam t \<and> grows ?s t \<and> (\<forall>e \<in> set es. entry_done e t) \<and>
     set (map fst (started t)) \<subseteq> set es \<union> set (map fst (started ?s))" by (intro Cons.IH) blast
  then show ?case using d grows_trans entry_done_grows unfolding Let_def entries_loop.simps set_simps by blast
qed simp

text \<open>Who claimed a device: an entry that matches it, whose driver was started if it has one and the host can run it.\<close>

definition claims_ok :: "bool \<Rightarrow> pci_driver_entry_t set \<Rightarrow> 'm matching \<Rightarrow> bool" where
  "claims_ok ecam es s \<longleftrightarrow> (\<forall>j < length (devs s). claimed (devs s ! j) \<longrightarrow>
     (\<exists>e \<in> es. entry_matches e (devs s ! j) \<and>
        (e_init e \<noteq> None \<and> pci_check_driver_capabilities ecam (required_capabilities e) \<longrightarrow> (e, j) \<in> set (started s))))"

lemma claims_ok_step:
  assumes "claims_ok ecam es s" and "e \<in> es" and "j < length (devs s)" and "entry_matches e (devs s ! j)"
    and "devs t = (devs s)[j := (devs s ! j)\<lparr>claimed := True\<rparr>]" and "set (started s) \<subseteq> set (started t)"
    and "e_init e \<noteq> None \<and> pci_check_driver_capabilities ecam (required_capabilities e) \<longrightarrow> (e, j) \<in> set (started t)"
  shows "claims_ok ecam es t"
  unfolding claims_ok_def
proof (intro allI impI)
  fix i
  assume i: "i < length (devs t)" "claimed (devs t ! i)"
  show "\<exists>e \<in> es. entry_matches e (devs t ! i) \<and>
      (e_init e \<noteq> None \<and> pci_check_driver_capabilities ecam (required_capabilities e) \<longrightarrow> (e, i) \<in> set (started t))"
  proof (cases "i = j")
    case True
    then show ?thesis using assms by (intro bexI [of _ e]) simp_all
  next
    case False
    then have "devs t ! i = devs s ! i" "i < length (devs s)" using assms(5) i(1) by simp_all
    then show ?thesis using assms(1,6) i(2) unfolding claims_ok_def by (metis subsetD)
  qed
qed

lemma devices_loop_claims:
  "claims_ok ecam es s \<Longrightarrow> e \<in> es \<Longrightarrow> j + k = length (devs s) \<Longrightarrow> claims_ok ecam es (devices_loop hw f ecam e j k s)"
proof (induction k arbitrary: j s)
  case (Suc k)
  let ?d = "devs s ! j"
  let ?s1 = "s\<lparr>devs := (devs s)[j := ?d\<lparr>claimed := True\<rparr>]\<rparr>"
  let ?s2 = "if group_id e \<noteq> 0 then ?s1\<lparr>claimed_groups := claimed_groups ?s1 OR group_bit (group_id e)\<rparr> else ?s1"
  let ?s3 = "start_driver hw f e j ?s2"
  have j: "j < length (devs s)" using Suc.prems(3) by simp
  show ?case
  proof (cases "claimed ?d \<or> \<not> entry_matches e ?d")
    case True
    then show ?thesis using Suc.IH [of s "Suc j"] Suc.prems by simp
  next
    case unclaimed: False
    then have m: "entry_matches e ?d" by blast
    show ?thesis
    proof (cases "pci_check_driver_capabilities ecam (required_capabilities e)")
      case False
      then have "claims_ok ecam es ?s1" by (intro claims_ok_step [OF Suc.prems(1,2) j m]) simp_all
      then have "claims_ok ecam es (devices_loop hw f ecam e (Suc j) k ?s1)" using Suc.prems by (intro Suc.IH) simp_all
      then show ?thesis using unclaimed False by simp
    next
      case True
      have c3: "claims_ok ecam es ?s3" by (rule claims_ok_step [OF Suc.prems(1,2) j m]) auto
      then have "claims_ok ecam es (devices_loop hw f ecam e (Suc j) k ?s3)" using Suc.prems by (intro Suc.IH) simp_all
      then show ?thesis using c3 unclaimed True by (cases "group_id e = 0") (simp_all add: Let_def)
    qed
  qed
qed simp

lemma entries_loop_claims:
  "claims_ok ecam es s \<Longrightarrow> set us \<subseteq> es \<Longrightarrow> claims_ok ecam es (entries_loop hw f ecam us s)"
proof (induction us arbitrary: s)
  case (Cons e us)
  have "claims_ok ecam es (devices_loop hw f ecam e 0 (length (devs s)) s)"
    by (rule devices_loop_claims) (use Cons.prems in simp_all)
  then show ?case using Cons by simp
qed simp

text \<open>Enumeration leaves every device unclaimed.\<close>

definition unclaimed :: "'m scan \<Rightarrow> bool" where
  "unclaimed s \<longleftrightarrow> (\<forall>d \<in> set (discovered s). \<not> claimed d)"

lemma scan_function_unclaimed: "unclaimed s \<Longrightarrow> scan_function hw h junk l s = Inr t \<Longrightarrow> unclaimed t"
  by (auto simp: unclaimed_def scan_function_def read_function_def Let_def split: prod.splits if_splits)

lemma functions_loop_unclaimed: "unclaimed s \<Longrightarrow> functions_loop hw h junk b sl fn k s = Inr t \<Longrightarrow> unclaimed t"
  by (induction k arbitrary: fn s) (auto simp: and_then_eq_Inr dest: scan_function_unclaimed)

lemma sweep_unclaimed: "unclaimed s \<Longrightarrow> sweep hw h junk ls s = Inr t \<Longrightarrow> unclaimed t"
proof (induction ls arbitrary: s)
  case (Cons a ls)
  obtain b sl where a: "a = (b, sl)" by (cases a)
  obtain u where u: "scan_slot hw h junk b sl s = Inr u" "sweep hw h junk ls u = Inr t"
    using Cons.prems(2) by (auto simp: a and_then_eq_Inr)
  have "unclaimed (s\<lparr>machine := m\<rparr>)" for m using Cons.prems(1) by (simp add: unclaimed_def)
  then have "unclaimed u" using u(1) unfolding scan_slot_def Let_def
    by (auto simp del: functions_loop.simps split: prod.splits if_splits elim: functions_loop_unclaimed [rotated])
  then show ?case using Cons.IH u(2) by blast
qed simp

text \<open>
  C39. After enumeration no device has had two drivers started for it and no group more than one, every driver that
  was started belongs to an entry of the table that matches its device and whose required capabilities the host
  has, and every device that an entry matches has been claimed, unless a driver of the entry's group was chosen.
  A claimed device was claimed by an entry that matches it, and the driver of that entry, if it has one, was
  started for the device unless the host lacks its capabilities; in that case the device stays claimed, so that no
  other entry is tried for it, against the comment in the code.
\<close>

theorem pci_init_matches:
  fixes m :: 'm
  assumes "pci_init hw heap_ok junk f ecam enabled m = Inr t"
  shows "distinct (map snd (started t)) \<and>
    (\<forall>(e, j) \<in> set (started t). e \<in> set (pci_discovery_table enabled) \<and> j < length (devs t) \<and> claimed (devs t ! j) \<and>
       entry_matches e (devs t ! j) \<and> e_init e \<noteq> None \<and> pci_check_driver_capabilities ecam (required_capabilities e)) \<and>
    (\<forall>(e, j) \<in> set (started t). \<forall>(e', j') \<in> set (started t). group_id e \<noteq> 0 \<and> group_id e = group_id e' \<longrightarrow> (e, j) = (e', j')) \<and>
    (\<forall>e \<in> set (pci_discovery_table enabled). \<forall>i < length (devs t). entry_matches e (devs t ! i) \<longrightarrow>
       claimed (devs t ! i) \<or> (group_id e \<noteq> 0 \<and> claimed_groups t AND group_bit (group_id e) \<noteq> 0)) \<and>
    (\<forall>j < length (devs t). claimed (devs t ! j) \<longrightarrow>
       (\<exists>e \<in> set (pci_discovery_table enabled). entry_matches e (devs t ! j) \<and>
          (e_init e \<noteq> None \<and> pci_check_driver_capabilities ecam (required_capabilities e) \<longrightarrow> (e, j) \<in> set (started t))))"
proof -
  obtain s :: "'m scan" where t: "t = entries_loop hw f ecam (pci_discovery_table enabled)
      \<lparr>devs = discovered s, claimed_groups = 0, started = [], failures = [], mach = machine s\<rparr>"
    and s: "sweep hw heap_ok junk all_slots \<lparr>discovered = [], capacity = 20, machine = m\<rparr> = Inr s"
    using assms unfolding pci_init_def and_then_eq_Inr by (metis Inr_inject)
  have "unclaimed s" by (rule sweep_unclaimed [OF _ s]) (simp add: unclaimed_def)
  then have "claims_ok ecam (set (pci_discovery_table enabled))
      \<lparr>devs = discovered s, claimed_groups = 0, started = [], failures = [], mach = machine s\<rparr>"
    by (auto simp: claims_ok_def unclaimed_def)
  then have claims: "claims_ok ecam (set (pci_discovery_table enabled)) t" unfolding t by (rule entries_loop_claims) simp
  have "starts_ok ecam \<lparr>devs = discovered s, claimed_groups = 0, started = [], failures = [], mach = machine s\<rparr>" by (simp add: starts_ok_def)
  from entries_loop_ok [OF this, of hw f "pci_discovery_table enabled"]
  have ok: "starts_ok ecam t" "\<forall>e \<in> set (pci_discovery_table enabled). entry_done e t" "set (map fst (started t)) \<subseteq> set (pci_discovery_table enabled)"
    by (simp_all add: t Let_def)
  have "e \<in> set (pci_discovery_table enabled)" if "(e, j) \<in> set (started t)" for e j
    using ok(3) that by (metis fst_conv image_eqI list.set_map subsetD)
  moreover have "start_ok ecam t e j" if "(e, j) \<in> set (started t)" for e j using ok(1) that unfolding starts_ok_def by blast
  ultimately have "\<forall>(e, j) \<in> set (started t). e \<in> set (pci_discovery_table enabled) \<and> j < length (devs t) \<and> claimed (devs t ! j) \<and>
       entry_matches e (devs t ! j) \<and> e_init e \<noteq> None \<and> pci_check_driver_capabilities ecam (required_capabilities e)"
    unfolding start_ok_def by blast
  moreover have "distinct (map snd (started t))"
    "\<forall>(e, j) \<in> set (started t). \<forall>(e', j') \<in> set (started t). group_id e \<noteq> 0 \<and> group_id e = group_id e' \<longrightarrow> (e, j) = (e', j')"
    using ok(1) unfolding starts_ok_def by (rule conjunct1, blast)
  moreover have "\<forall>e \<in> set (pci_discovery_table enabled). \<forall>i < length (devs t). entry_matches e (devs t ! i) \<longrightarrow>
       claimed (devs t ! i) \<or> (group_id e \<noteq> 0 \<and> claimed_groups t AND group_bit (group_id e) \<noteq> 0)"
    using ok(2) unfolding entry_done_def by blast
  ultimately show ?thesis using claims unfolding claims_ok_def by (intro conjI)
qed

section \<open>Base address registers\<close>

text \<open>
  The contract of configuration accesses: a read returns the register and changes none, a write changes the writable
  bits of its register and nothing else. \<open>valid\<close> are the locations and registers for which it holds.
\<close>

locale config_space =
  fixes hw :: "'m pci_hw" and space :: "'m \<Rightarrow> pci_loc \<Rightarrow> u16 \<Rightarrow> u32" and writable :: "pci_loc \<Rightarrow> u16 \<Rightarrow> u32" and valid :: "pci_loc \<Rightarrow> u16 \<Rightarrow> bool"
  assumes rd_space: "valid l off \<Longrightarrow> \<exists>m'. rd hw l off m = (space m l off, m') \<and> space m' = space m"
    and wr_space: "valid l off \<Longrightarrow>
      space (wr hw l off v m) = (space m)(l := (space m l)(off := (v AND writable l off) OR (space m l off AND NOT (writable l off))))"
begin

text \<open>Writing all ones, reading the register back and restoring it.\<close>

lemma probe:
  assumes "valid l off"
  shows "\<exists>m'. rd hw l off (wr hw l off 0xFFFFFFFF m) = (writable l off OR (space m l off AND NOT (writable l off)), m') \<and>
     space (wr hw l off (space m l off) m') = space m"
proof -
  let ?W = "writable l off" and ?v = "space m l off"
  have "(0xFFFFFFFF :: u32) = - 1" by simp
  then have ones: "(0xFFFFFFFF :: u32) AND ?W = ?W" by (simp only: and.left_neutral)
  obtain m' where m': "rd hw l off (wr hw l off 0xFFFFFFFF m) = (space (wr hw l off 0xFFFFFFFF m) l off, m')" "space m' = space (wr hw l off 0xFFFFFFFF m)"
    using rd_space [OF assms] by blast
  have s: "space (wr hw l off 0xFFFFFFFF m) = (space m)(l := (space m l)(off := ?W OR (?v AND NOT ?W)))"
    using wr_space [OF assms] by (simp only: ones)
  have "(?v AND ?W) OR ((?W OR (?v AND NOT ?W)) AND NOT ?W) = ?v" by (rule bit_eqI) (auto simp: bit_simps)
  then have "space (wr hw l off ?v m') = space m" using wr_space [OF assms, of ?v m'] m'(2) s by simp
  then show ?thesis using m' s by auto
qed

lemma get_bar_steps:
  assumes v: "valid l off" and off: "off = 0x10 + ucast i * 4" and nz: "space m l off \<noteq> 0"
    and v4: "space m l off AND 1 = 0 \<Longrightarrow> space m l off AND 6 = 4 \<Longrightarrow> valid l (off + 4)"
  defines "low \<equiv> space m l off" and "rb \<equiv> writable l off OR (space m l off AND NOT (writable l off))"
    and "high \<equiv> space m l (off + 4)" and "rbh \<equiv> writable l (off + 4) OR (space m l (off + 4) AND NOT (writable l (off + 4)))"
  shows "fst (pci_get_bar hw l i m) =
      (if low AND 1 \<noteq> 0 then \<lparr>bar_base = ucast (low AND NOT 3), bar_size = ucast (NOT (rb AND NOT 3) + 1), is_io = True\<rparr>
       else if low AND 6 = 4 then \<lparr>bar_base = ucast (low AND NOT 0xF) OR push_bit 32 (ucast high),
           bar_size = NOT (push_bit 32 (ucast rbh) OR ucast (rb AND NOT 0xF)) + 1, is_io = False\<rparr>
       else \<lparr>bar_base = ucast (low AND NOT 0xF), bar_size = ucast (NOT (rb AND NOT 0xF) + 1), is_io = False\<rparr>) \<and>
    space (snd (pci_get_bar hw l i m)) = space m"
proof -
  obtain m1 where m1: "rd hw l off m = (low, m1)" "space m1 = space m" using rd_space [OF v] unfolding low_def by blast
  obtain m2 where m2: "rd hw l off (wr hw l off 0xFFFFFFFF m1) = (rb, m2)" "space (wr hw l off low m2) = space m"
    using probe [OF v, of m1] m1(2) unfolding low_def rb_def by auto
  let ?m3 = "wr hw l off low m2"
  show ?thesis
  proof (cases "low AND 1 = 0 \<and> low AND 6 = 4")
    case False
    then show ?thesis using nz m1(1) m2 unfolding pci_get_bar_def Let_def off [symmetric] by (auto simp: low_def)
  next
    case True
    then have w: "valid l (off + 4)" using v4 by (simp add: low_def)
    obtain m4 where m4: "rd hw l (off + 4) ?m3 = (high, m4)" "space m4 = space m" using rd_space [OF w, of ?m3] m2(2) unfolding high_def by auto
    obtain m5 where m5: "rd hw l (off + 4) (wr hw l (off + 4) 0xFFFFFFFF m4) = (rbh, m5)" "space (wr hw l (off + 4) high m5) = space m"
      using probe [OF w, of m4] m4(2) unfolding high_def rbh_def by auto
    show ?thesis using True nz m1(1) m2(1) m4(1) m5 unfolding pci_get_bar_def Let_def off [symmetric] by (simp add: low_def)
  qed
qed

end

lemma size_small:
  assumes "t \<le> k" "k < 32" "v AND mask k AND NOT (mask t) = (0 :: u32)"
  shows "ucast (NOT ((NOT (mask k) OR (v AND NOT (NOT (mask k)))) AND NOT (mask t)) + 1 :: u32) = (2 ^ k :: u64)"
proof -
  have b: "i < t" if "i < 32" "bit v i" "i < k" for i
  proof (rule ccontr)
    assume "\<not> i < t"
    then have "bit (v AND mask k AND NOT (mask t)) i" using that by (simp add: bit_simps)
    then show False using assms(3) by simp
  qed
  have "(NOT (mask k) OR (v AND NOT (NOT (mask k)))) AND NOT (mask t) = (NOT (mask k) :: u32)"
    using b assms(1) by (intro bit_eqI) (auto simp: bit_simps)
  then have "NOT ((NOT (mask k) OR (v AND NOT (NOT (mask k)))) AND NOT (mask t)) + 1 = (mask k + 1 :: u32)" by simp
  also have "\<dots> = 2 ^ k" by (simp add: mask_eq_exp_minus_1)
  finally have e: "NOT ((NOT (mask k) OR (v AND NOT (NOT (mask k)))) AND NOT (mask t)) + 1 = (2 ^ k :: u32)" .
  have "ucast (2 ^ k :: u32) = (2 ^ k :: u64)" using assms(2) by (intro bit_eqI) (auto simp: bit_unsigned_iff bit_exp_iff)
  then show ?thesis unfolding e .
qed

lemma size_large:
  fixes low high :: u32 and k :: nat
  defines "wl \<equiv> ucast (NOT (mask k) :: u64) :: u32" and "wh \<equiv> ucast (drop_bit 32 (NOT (mask k) :: u64)) :: u32"
  assumes "4 \<le> k" "k < 64" "(push_bit 32 (ucast high) OR ucast low) AND mask k AND NOT (mask 4) = (0 :: u64)"
  shows "NOT (push_bit 32 (ucast (wh OR (high AND NOT wh))) OR ucast ((wl OR (low AND NOT wl)) AND NOT (mask 4))) + 1 = (2 ^ k :: u64)"
proof -
  have b: "i < 4" if "i < 64" "bit (push_bit 32 (ucast high) OR ucast low :: u64) i" "i < k" for i
  proof (rule ccontr)
    assume "\<not> i < 4"
    then have "bit ((push_bit 32 (ucast high) OR ucast low :: u64) AND mask k AND NOT (mask 4)) i" using that by (simp add: bit_simps)
    then show False using assms(5) by simp
  qed
  have "push_bit 32 (ucast (wh OR (high AND NOT wh))) OR ucast ((wl OR (low AND NOT wl)) AND NOT (mask 4)) = (NOT (mask k) :: u64)"
  proof (rule bit_eqI)
    fix i
    assume "possible_bit TYPE(u64) i"
    then have i: "i < 64" by (simp add: possible_bit_def)
    show "bit (push_bit 32 (ucast (wh OR (high AND NOT wh))) OR ucast ((wl OR (low AND NOT wl)) AND NOT (mask 4)) :: u64) i = bit (NOT (mask k) :: u64) i"
      using b [OF i] i assms(3) by (cases "i < 32") (auto simp: bit_simps wl_def wh_def dest: bit_imp_le_length)
  qed
  then have "NOT (push_bit 32 (ucast (wh OR (high AND NOT wh))) OR ucast ((wl OR (low AND NOT wl)) AND NOT (mask 4))) + 1 = (mask k + 1 :: u64)" by simp
  then show ?thesis by (simp add: mask_eq_exp_minus_1)
qed

text \<open>
  C40. Probing a base address register finds its address and its size and leaves the configuration space as it was,
  for every device whose register behaves as one: a power of two in size, naturally aligned, with exactly the address
  bits above the size writable. This covers I/O registers, 32-bit and 64-bit memory registers, except that a
  register which reads 0 is reported as absent, with size 0: this is also what a 32-bit memory register reads to
  which no address has been assigned.
\<close>

theorem pci_get_bar_correct:
  fixes m :: 'm
  assumes cs: "config_space hw space writable valid" and v: "valid l off" "valid l (off + 4)" and off: "off = 0x10 + ucast i * 4"
  defines "low \<equiv> space m l off" and "high \<equiv> space m l (off + 4)" and "r \<equiv> pci_get_bar hw l i m"
  shows "space (snd r) = space m \<and>
    (low = 0 \<longrightarrow> fst r = no_bar) \<and>
    (low AND 1 \<noteq> 0 \<and> 2 \<le> k \<and> k < 32 \<and> writable l off = NOT (mask k) \<and> low AND mask k AND NOT (mask 2) = 0 \<longrightarrow>
       fst r = \<lparr>bar_base = ucast (low AND NOT (mask 2)), bar_size = 2 ^ k, is_io = True\<rparr>) \<and>
    (low \<noteq> 0 \<and> low AND 1 = 0 \<and> low AND 6 \<noteq> 4 \<and> 4 \<le> k \<and> k < 32 \<and> writable l off = NOT (mask k) \<and> low AND mask k AND NOT (mask 4) = 0 \<longrightarrow>
       fst r = \<lparr>bar_base = ucast (low AND NOT (mask 4)), bar_size = 2 ^ k, is_io = False\<rparr>) \<and>
    (low AND 1 = 0 \<and> low AND 6 = 4 \<and> 4 \<le> k \<and> k < 64 \<and> writable l off = ucast (NOT (mask k) :: u64) \<and>
       writable l (off + 4) = ucast (drop_bit 32 (NOT (mask k) :: u64)) \<and> (push_bit 32 (ucast high) OR ucast low) AND mask k AND NOT (mask 4) = (0 :: u64) \<longrightarrow>
       fst r = \<lparr>bar_base = ucast (low AND NOT (mask 4)) OR push_bit 32 (ucast high), bar_size = 2 ^ k, is_io = False\<rparr>)"
proof (cases "low = 0")
  case True
  then obtain m1 where "rd hw l off m = (0, m1)" "space m1 = space m"
    using config_space.rd_space [OF cs v(1), of m] unfolding low_def by auto
  then have "fst r = no_bar" "space (snd r) = space m" unfolding r_def pci_get_bar_def Let_def off [symmetric] by simp_all
  then show ?thesis using True by simp
next
  case False
  then have nz: "space m l off \<noteq> 0" by (simp add: low_def)
  have m: "(3 :: u32) = mask 2" "(0xF :: u32) = mask 4" by (simp_all add: mask_eq_exp_minus_1)
  have g: "fst r =
      (if low AND 1 \<noteq> 0 then \<lparr>bar_base = ucast (low AND NOT (mask 2)),
           bar_size = ucast (NOT ((writable l off OR (low AND NOT (writable l off))) AND NOT (mask 2)) + 1), is_io = True\<rparr>
       else if low AND 6 = 4 then \<lparr>bar_base = ucast (low AND NOT (mask 4)) OR push_bit 32 (ucast high),
           bar_size = NOT (push_bit 32 (ucast (writable l (off + 4) OR (high AND NOT (writable l (off + 4))))) OR
             ucast ((writable l off OR (low AND NOT (writable l off))) AND NOT (mask 4))) + 1, is_io = False\<rparr>
       else \<lparr>bar_base = ucast (low AND NOT (mask 4)),
           bar_size = ucast (NOT ((writable l off OR (low AND NOT (writable l off))) AND NOT (mask 4)) + 1), is_io = False\<rparr>) \<and>
    space (snd r) = space m"
    unfolding r_def low_def high_def by (rule config_space.get_bar_steps [OF cs v(1) off nz v(2), unfolded m])
  show ?thesis
    using g False size_small [of 2 k low] size_small [of 4 k low] size_large [of k high low] by (auto simp only: if_True if_False simp_thms split: if_split)
qed

section \<open>The configuration ports\<close>

text \<open>A host whose configuration space is reached through the ports: an address latch and the registers of all functions.\<close>

record port_machine =
  latch :: u32
  registers :: "pci_loc \<Rightarrow> u16 \<Rightarrow> u32"

definition selected :: "u32 \<Rightarrow> pci_loc \<times> u16" where
  "selected a = ((ucast (drop_bit 16 a AND mask 8), ucast (drop_bit 11 a AND mask 5), ucast (drop_bit 8 a AND mask 3)), ucast (a AND 0xFC))"

definition port_write :: "(pci_loc \<Rightarrow> u16 \<Rightarrow> u32) \<Rightarrow> u16 \<Rightarrow> u32 \<Rightarrow> port_machine \<Rightarrow> port_machine" where
  "port_write writable p v s =
     (if p = PCI_CONFIG_ADDRESS then s\<lparr>latch := v\<rparr>
      else if p = PCI_CONFIG_DATA then
        (case selected (latch s) of (l, off) \<Rightarrow>
           s\<lparr>registers := (registers s)(l := (registers s l)(off := (v AND writable l off) OR (registers s l off AND NOT (writable l off))))\<rparr>)
      else s)"

definition port_read :: "u16 \<Rightarrow> port_machine \<Rightarrow> u32 \<times> port_machine" where
  "port_read p s = (if p = PCI_CONFIG_DATA then (case selected (latch s) of (l, off) \<Rightarrow> (registers s l off, s)) else (0xFFFFFFFF, s))"

definition port_hw :: "(pci_loc \<Rightarrow> u16 \<Rightarrow> u32) \<Rightarrow> port_machine pci_hw" where
  "port_hw writable = \<lparr>load32 = \<lambda>a s. (0xFFFFFFFF, s), store32 = \<lambda>a v s. s, load8 = \<lambda>a s. (0xFF, s), store8 = \<lambda>a v s. s,
     port_in = port_read, port_out = port_write writable, device_addr = \<lambda>b s f. 0\<rparr>"

definition port_valid :: "pci_loc \<Rightarrow> u16 \<Rightarrow> bool" where
  "port_valid l off \<longleftrightarrow> (case l of (b, s, f) \<Rightarrow> s < 32 \<and> f < 8) \<and> off AND 0xFC = off"

lemma high_bits: "bit w i \<Longrightarrow> unat (w :: u8) < 2 ^ n \<Longrightarrow> i < n"
proof (rule ccontr)
  assume a: "bit w i" "unat w < 2 ^ n" "\<not> i < n"
  have "bit (unat w) i" using a(1) by (simp add: bit_unsigned_iff)
  then have "odd (unat w div 2 ^ i)" by (simp add: bit_iff_odd)
  then have "2 ^ i \<le> unat w" by (metis div_less even_zero not_less)
  moreover have "(2 :: nat) ^ n \<le> 2 ^ i" using a(3) by (intro power_increasing) simp_all
  ultimately show False using a(2) by linarith
qed

lemma fc_bits: "bit (0xFC :: u16) i \<longleftrightarrow> 2 \<le> i \<and> i < 8" "bit (0xFC :: u32) i \<longleftrightarrow> 2 \<le> i \<and> i < 8"
proof -
  have e: "(0xFC :: u16) = mask 8 AND NOT (mask 2)" "(0xFC :: u32) = mask 8 AND NOT (mask 2)" by (simp_all add: mask_eq_exp_minus_1)
  show "bit (0xFC :: u16) i \<longleftrightarrow> 2 \<le> i \<and> i < 8" "bit (0xFC :: u32) i \<longleftrightarrow> 2 \<le> i \<and> i < 8"
    unfolding e by (auto simp: bit_simps)
qed

lemma selected_address:
  assumes "port_valid (b, s, f) off"
  shows "selected (config_address (ucast b) (ucast s) (ucast f) off) = ((b, s, f), off)"
proof -
  let ?a = "config_address (ucast b) (ucast s) (ucast f) off"
  have sf: "\<And>i. bit s i \<Longrightarrow> i < 5" "\<And>i. bit f i \<Longrightarrow> i < 3"
    using assms high_bits [of s _ 5] high_bits [of f _ 3] by (auto simp: port_valid_def word_less_nat_alt)
  have o: "bit off i \<Longrightarrow> 2 \<le> i \<and> i < 8" for i
    using assms by (metis (no_types, lifting) bit_and_iff case_prod_conv fc_bits(1) port_valid_def)
  have top: "bit (0x80000000 :: u32) i \<longleftrightarrow> i = 31" for i
  proof -
    have "(0x80000000 :: u32) = 2 ^ 31" by simp
    then show ?thesis by (simp only: bit_exp_iff) auto
  qed
  have bits: "bit ?a i \<longleftrightarrow> i < 32 \<and> (16 \<le> i \<and> bit b (i - 16) \<or> 11 \<le> i \<and> bit s (i - 11) \<or> 8 \<le> i \<and> bit f (i - 8) \<or> bit off i \<or> i = 31)" for i
  proof -
    have field: "bit (push_bit n (ucast (ucast (x :: u8) :: u16)) :: u32) i \<longleftrightarrow> i < 32 \<and> n \<le> i \<and> bit x (i - n)" for n x
      using bit_imp_le_length [of x "i - n"] by (auto simp: bit_push_bit_iff bit_unsigned_iff)
    have "off AND 0xFC = off" using assms by (simp add: port_valid_def)
    then have low: "bit (ucast (off AND 0xFC) :: u32) i \<longleftrightarrow> i < 32 \<and> bit off i" by (simp add: bit_unsigned_iff)
    show ?thesis unfolding config_address_def by (simp only: bit_or_iff field low top) auto
  qed
  have "(ucast (drop_bit 16 ?a AND mask 8) :: u8) = b"
    by (rule bit_eqI) (auto simp: bit_unsigned_iff bit_and_iff bit_drop_bit_eq bit_mask_iff bits dest: sf o)
  moreover have "(ucast (drop_bit 11 ?a AND mask 5) :: u8) = s"
    by (rule bit_eqI) (auto simp: bit_unsigned_iff bit_and_iff bit_drop_bit_eq bit_mask_iff bits dest: sf o)
  moreover have "(ucast (drop_bit 8 ?a AND mask 3) :: u8) = f"
    by (rule bit_eqI) (auto simp: bit_unsigned_iff bit_and_iff bit_drop_bit_eq bit_mask_iff bits dest: sf o)
  moreover have "(ucast (?a AND 0xFC) :: u16) = off"
    by (rule bit_eqI) (simp only: bit_unsigned_iff bit_and_iff fc_bits bits, use sf o in fastforce)
  ultimately show ?thesis by (simp add: selected_def)
qed

interpretation ports: config_space "port_hw writable" registers writable port_valid for writable
proof
  fix l off m
  assume v: "port_valid l off"
  obtain b s f where l: "l = (b, s, f)" by (cases l)
  note sel = selected_address [OF v [unfolded l]]
  show "\<exists>m'. rd (port_hw writable) l off m = (registers m l off, m') \<and> registers m' = registers m"
    by (simp add: rd_def pci_read_def port_hw_def port_read_def port_write_def l sel PCI_CONFIG_ADDRESS_def PCI_CONFIG_DATA_def)
  fix v'
  show "registers (wr (port_hw writable) l off v' m) =
      (registers m)(l := (registers m l)(off := (v' AND writable l off) OR (registers m l off AND NOT (writable l off))))"
    by (simp add: wr_def pci_write_def port_hw_def port_read_def port_write_def l sel PCI_CONFIG_ADDRESS_def PCI_CONFIG_DATA_def)
qed

section \<open>Instances\<close>

text \<open>A 4 KB memory register at 0xFEB00000 of the function 0:3.0.\<close>

theorem pci_get_bar_correct_witness:
  "let s = \<lparr>latch = 0, registers = (\<lambda>l off. if l = (0, 3, 0) \<and> off = 0x10 then 0xFEB00000 else 0)\<rparr>;
       r = pci_get_bar (port_hw (\<lambda>l off. NOT (mask 12))) (0, 3, 0) 0 s in
   fst r = \<lparr>bar_base = 0xFEB00000, bar_size = 4096, is_io = False\<rparr> \<and> registers (snd r) = registers s"
proof -
  let ?s = "\<lparr>latch = 0, registers = (\<lambda>l off. if l = (0, 3, 0) \<and> off = 0x10 then 0xFEB00000 else 0)\<rparr> :: port_machine"
  have v: "port_valid (0, 3, 0) 0x10" "port_valid (0, 3, 0) (0x10 + 4)" by (simp_all add: port_valid_def)
  have o: "(0x10 :: u16) = 0x10 + ucast (0 :: u8) * 4" by simp
  have m: "(mask 12 :: u32) = 0xFFF" "(mask 4 :: u32) = 0xF" by (simp_all add: mask_eq_exp_minus_1)
  show ?thesis using pci_get_bar_correct [OF ports.config_space_axioms [of "\<lambda>l off. NOT (mask 12)"] v o, where k = 12] unfolding Let_def m by simp
qed

text \<open>A host with one function, a network card at 0:0.0 whose base address registers are empty.\<close>

definition demo_hw :: "unit pci_hw" where
  "demo_hw = \<lparr>load32 = \<lambda>a m. (if a = 0x1000 then 0x813910EC else if a = 0x1008 then 0x02000000 else if a < 0x2000 then 0 else 0xFFFFFFFF, ()),
     store32 = \<lambda>a v m. m, load8 = \<lambda>a m. (0xFF, m), store8 = \<lambda>a v m. m, port_in = \<lambda>p m. (0xFFFFFFFF, m), port_out = \<lambda>p v m. m,
     device_addr = \<lambda>b s f. if b = 0 \<and> s = 0 \<and> f = 0 then 0x1000 else 0x2000\<rparr>"

lemma demo_rd: "rd demo_hw (b, s, f) off m =
   (if b = 0 \<and> s = 0 \<and> f = 0 then fst (load32 demo_hw (0x1000 + ucast (off AND 0xFFF)) ()) else 0xFFFFFFFF, ())"
proof -
  have "unat (off AND 0xFFF) < 4096"
  proof -
    have "off AND 0xFFF \<le> 0xFFF" by (rule word_and_le1)
    then show ?thesis by (simp add: word_le_nat_alt)
  qed
  then have "unat (0x2000 + ucast (off AND 0xFFF) :: u64) = 0x2000 + unat (off AND 0xFFF)" by (simp add: unat_plus_small unat_ucast_up)
  then have "\<not> (0x2000 + ucast (off AND 0xFFF) :: u64) < 0x2000" "(0x2000 + ucast (off AND 0xFFF) :: u64) \<noteq> 0x1000" "(0x2000 + ucast (off AND 0xFFF) :: u64) \<noteq> 0x1008"
    by (auto simp: word_less_nat_alt word_unat_eq_iff)
  moreover have "(ucast (ucast (x :: u8) :: u16) :: u8) = x" for x by (rule bit_eqI) (auto simp: bit_unsigned_iff dest: bit_imp_le_length)
  ultimately show ?thesis by (simp add: rd_def pci_read_def demo_hw_def Let_def)
qed

lemma sweep_absent: "\<forall>(b, s) \<in> set ls. (b, s) \<noteq> (0, 0) \<Longrightarrow> sweep demo_hw h j ls x = Inr x"
proof (induction ls)
  case (Cons a ls)
  obtain b s where a: "a = (b, s)" by (cases a)
  then have "scan_slot demo_hw h j b s x = Inr x" using Cons.prems by (auto simp: scan_slot_def demo_rd)
  then show ?case using Cons a by simp
qed simp

lemma all_slots_Cons: "\<exists>ls. all_slots = (0, 0) # ls \<and> (\<forall>(b, s) \<in> set ls. (b, s) \<noteq> (0, 0))"
proof -
  let ?row = "\<lambda>bus k. map (\<lambda>slot. (of_nat bus :: u8, of_nat slot :: u8)) [k..<32]"
  have "[0..<256] = 0 # [1..<256 :: nat]" "[0..<32] = 0 # [1..<32 :: nat]" by (simp_all add: upt_conv_Cons)
  then have "all_slots = (0, 0) # (?row 0 1 @ concat (map (\<lambda>bus. ?row bus 0) [1..<256]))" by (simp only: all_slots_def list.map concat.simps) simp
  moreover have "(of_nat n :: u8) \<noteq> 0" if "0 < n" "n < 256" for n
  proof
    assume "(of_nat n :: u8) = 0"
    then have "unat (of_nat n :: u8) = 0" by simp
    then show False using that by (simp add: unat_of_nat)
  qed
  then have "\<forall>(b, s) \<in> set (?row 0 1 @ concat (map (\<lambda>bus. ?row bus 0) [1..<256])). (b, s) \<noteq> (0, 0)" by force
  ultimately show ?thesis by blast
qed

theorem pci_init_matches_witness:
  "\<exists>t. pci_init demo_hw (\<lambda>_. True) (\<lambda>_. replicate 6 no_bar) (\<lambda>d dev m. (DRIVER_OK, m)) False {rtl8139_init} () = Inr t \<and>
     length (devs t) = 1 \<and> claimed (devs t ! 0) \<and> distinct (map snd (started t)) \<and> map (e_init \<circ> fst) (started t) = [Some rtl8139_init] \<and>
     (\<exists>e \<in> set (pci_discovery_table {rtl8139_init}). entry_matches e (devs t ! 0) \<and>
        (e_init e \<noteq> None \<and> pci_check_driver_capabilities False (required_capabilities e) \<longrightarrow> (e, 0) \<in> set (started t)))"
proof -
  obtain ls where ls: "all_slots = (0, 0) # ls" "\<forall>(b, s) \<in> set ls. (b, s) \<noteq> (0, 0)" using all_slots_Cons by blast
  define card where "card = \<lparr>vendor_id = 0x10EC, device_id = 0x8139, class_id = 2, subclass_id = 0, progif = 0, pci_irq = 0, loc = (0, 0, 0),
     bars = replicate 6 no_bar, claimed = False\<rparr>"
  have bar: "pci_get_bar demo_hw (0, 0, 0) i () = (no_bar, ())" if "i < 6" for i
  proof -
    have "i = 0 \<or> i = 1 \<or> i = 2 \<or> i = 3 \<or> i = 4 \<or> i = 5"
    proof -
      have "unat i < 6" using that by (simp add: word_less_nat_alt)
      then have "unat i = 0 \<or> unat i = 1 \<or> unat i = 2 \<or> unat i = 3 \<or> unat i = 4 \<or> unat i = 5" by linarith
      then show ?thesis by (simp add: word_unat_eq_iff)
    qed
    then show ?thesis by (elim disjE) (simp_all add: pci_get_bar_def demo_rd, simp_all add: demo_hw_def)
  qed
  have raw: "rd demo_hw (0, 0, 0) (0x10 + of_nat b * 4) () = (0, ())" if "b < 6" for b
  proof -
    have "b = 0 \<or> b = 1 \<or> b = 2 \<or> b = 3 \<or> b = 4 \<or> b = 5" using that by linarith
    then show ?thesis by (elim disjE) (simp_all add: demo_rd, simp_all add: demo_hw_def)
  qed
  have same: "(replicate 6 no_bar)[b := no_bar] = replicate 6 no_bar" if "b < 6" for b
    using that by (intro nth_equalityI) (auto simp: nth_list_update)
  have "bars_loop demo_hw (0, 0, 0) b (replicate 6 no_bar) () = (replicate 6 no_bar, ())" for b
  proof (induction "6 - b" arbitrary: b)
    case (Suc k)
    then have b: "b < 6" by linarith
    then have "(of_nat b :: u8) < 6" by (simp add: word_less_nat_alt unat_of_nat)
    then show ?case using bar [of "of_nat b"] raw [OF b] same [OF b] Suc.hyps(1) [of "b + 1"] Suc.hyps(2) b by (subst bars_loop.simps) simp
  qed (subst bars_loop.simps, simp)
  then have rf: "read_function demo_hw (replicate 6 no_bar) (0, 0, 0) 0x813910EC () = (card, ())"
    by (simp add: read_function_def demo_rd card_def) (simp add: demo_hw_def drop_bit_eq_div)
  have sf: "scan_function demo_hw (\<lambda>_. True) (\<lambda>_. replicate 6 no_bar) (0, 0, 0) \<lparr>discovered = [], capacity = 20, machine = ()\<rparr> =
      Inr \<lparr>discovered = [card], capacity = 20, machine = ()\<rparr>"
  proof -
    have "rd demo_hw (0, 0, 0) 0 () = (0x813910EC, ())" by (simp add: demo_rd) (simp add: demo_hw_def)
    then show ?thesis using rf by (simp add: scan_function_def)
  qed
  have "rd demo_hw (0, 0, 0) 0 () = (0x813910EC, ())" "rd demo_hw (0, 0, 0) 0xC () = (0, ())" by (simp_all add: demo_rd, simp_all add: demo_hw_def)
  then have "scan_slot demo_hw (\<lambda>_. True) (\<lambda>_. replicate 6 no_bar) 0 0 \<lparr>discovered = [], capacity = 20, machine = ()\<rparr> =
      Inr \<lparr>discovered = [card], capacity = 20, machine = ()\<rparr>"
    using sf by (simp add: scan_slot_def)
  then have "sweep demo_hw (\<lambda>_. True) (\<lambda>_. replicate 6 no_bar) all_slots \<lparr>discovered = [], capacity = 20, machine = ()\<rparr> =
      Inr \<lparr>discovered = [card], capacity = 20, machine = ()\<rparr>"
    using sweep_absent [OF ls(2)] by (simp add: ls(1))
  then obtain t where t: "pci_init demo_hw (\<lambda>_. True) (\<lambda>_. replicate 6 no_bar) (\<lambda>d dev m. (DRIVER_OK, m)) False {rtl8139_init} () = Inr t"
    "t = entries_loop demo_hw (\<lambda>d dev m. (DRIVER_OK, m)) False (pci_discovery_table {rtl8139_init})
       \<lparr>devs = [card], claimed_groups = 0, started = [], failures = [], mach = ()\<rparr>"
    by (simp add: pci_init_def)
  have c: "length (devs t) = 1 \<and> claimed (devs t ! 0) \<and> map (e_init \<circ> fst) (started t) = [Some rtl8139_init]"
    unfolding t(2) pci_discovery_table_def Let_def generic_entry_def pci_ids
    by (simp add: entry_matches_def card_def pci_ids PCI_CAP_ECAM_def group_bit_def
        pci_check_driver_capabilities_def start_driver_def pci_enable_capabilities_def demo_rd split_beta)
  have "distinct (map snd (started t))" by (rule pci_init_matches [OF t(1), THEN conjunct1])
  moreover have "\<exists>e \<in> set (pci_discovery_table {rtl8139_init}). entry_matches e (devs t ! 0) \<and>
      (e_init e \<noteq> None \<and> pci_check_driver_capabilities False (required_capabilities e) \<longrightarrow> (e, 0) \<in> set (started t))"
    using pci_init_matches [OF t(1)] c by (metis less_numeral_extra(1))
  ultimately show ?thesis using t(1) c by (intro exI [of _ t]) blast
qed

end
