(* ===== verification/Spec2Isabelle.thy ===== *)
theory Spec2Isabelle
  imports Vmm Klist Klog Cmdline Symtable Ramfs Registry Input Swrand Scheduler Disk Heap_Proofs Elf_Proofs Cuterm Smp Pci
begin

text \<open>
  A verification development for the CuoreOS kernel.

  \<^bold>\<open>The program.\<close> CuoreOS is a small x86-64 kernel in C. At boot it takes over the memory map of the
  boot protocol (\<^verbatim>\<open>src/mem/cmm.c\<close>), hands the usable frames to the physical page allocator
  (\<^verbatim>\<open>src/mem/pma.c\<close>), manages its virtual addresses in an AVL tree (\<^verbatim>\<open>src/mem/vmm.c\<close>,
  \<^verbatim>\<open>src/datatype/avl.c\<close>), maps frames through the page tables (\<^verbatim>\<open>src/mem/paging.c\<close>) and builds the heap
  on the three (\<^verbatim>\<open>src/mem/heap.c\<close>). Devices register in a table (\<^verbatim>\<open>src/devices/registry.c\<close>); the
  serial port and the debug port are character devices (\<^verbatim>\<open>src/devices/char.c\<close>), the log goes through
  a ring buffer (\<^verbatim>\<open>src/logbuf.c\<close>) and a printf engine (\<^verbatim>\<open>src/stdio.c\<close>) to them. Disks carry partition
  tables (\<^verbatim>\<open>src/disk/\<close>), files come from an archive in memory (\<^verbatim>\<open>src/fs/ramfs.c\<close>, packed by
  \<^verbatim>\<open>tools/mkramfs.c\<close>). Tasks run round-robin (\<^verbatim>\<open>src/scheduler.c\<close>), time comes from the CMOS clock and
  the HPET (\<^verbatim>\<open>src/time.c\<close>, \<^verbatim>\<open>src/drivers/RTC.c\<close>, \<^verbatim>\<open>src/firmware/acpi/hpet.c\<close>). The firmware tables tell where
  the interrupt controllers and the PCI configuration space are (\<^verbatim>\<open>src/firmware/acpi/\<close>); interrupts enter
  through stubs (\<^verbatim>\<open>src/cpu/IDT.c\<close>), are routed by the controllers (\<^verbatim>\<open>src/cpu/apic/\<close>) and dispatched to chains of
  handlers; work is sent to other processors through mailboxes (\<^verbatim>\<open>src/cpu/smp/\<close>); PCI functions are found and
  matched with drivers (\<^verbatim>\<open>src/pci/\<close>). Programs are loaded from ELF files (\<^verbatim>\<open>src/binfmt/elf64.c\<close>). The screen is a terminal drawn into a framebuffer
  (\<^verbatim>\<open>src/graphics/ui/cuterm.c\<close>).

  \<^bold>\<open>Conventions.\<close> Fixed-width integers are words (\<open>u8\<close> to \<open>u64\<close>), so arithmetic wraps as in C; a
  pointer is its 64-bit address and the null pointer is 0. A structure is a record, an enumeration a
  datatype. State is passed explicitly. A routine that may call \<open>panic\<close> returns an \<open>outcome\<close>, whose
  left summand is the panic. Memory is a byte store where bytes matter (strings, archives, copies)
  and a store of typed objects by address where a structure is linked (list nodes, tasks, block
  headers, page table entries). Ports and clocks belong to the hardware: a driver appends to the trace
  of its port accesses and the values it reads are an arbitrary function of that trace. A loop over
  data that need not end (waiting for a device, following a list that may be corrupt) is a
  \<open>partial_function (option)\<close>: \<open>None\<close> is not returning, and where a routine is claimed to return the
  theorem says so. All other loops are total functions; no fuel is used. Interrupts are atomic steps
  and locks bracket operations that run to their end; only the mailboxes, which are shared without a
  lock, are modelled statement by statement, as an inductive step relation over all interleavings.

  \<^bold>\<open>Theories.\<close>

  \<^item> \<open>Prelude\<close>: words, outcomes, the macros of \<^verbatim>\<open>src/abs.h\<close> and \<^verbatim>\<open>src/mem/mem.h\<close>, generic lemmas.
  \<^item> \<open>Avl\<close>: \<^verbatim>\<open>src/datatype/avl.c\<close>; balance, order and the caller's node data are kept by insertion and
    deletion, for any comparison and update callbacks that satisfy the locales.
  \<^item> \<open>Vmm\<close>: \<^verbatim>\<open>src/mem/vmm.c\<close> on top of it; an allocation returns a free aligned range inside the pool,
    fails only when there is none at the end, a release makes exactly that range free, and the
    invariant holds in every state reached by requests that do not wrap around the address space, which
    the code does not check; at most 64 allocations succeed in any case.
  \<^item> \<open>MemOps\<close>: \<^verbatim>\<open>src/mem/mem.c\<close> and the string routines; \<open>memmove\<close> for overlapping ranges, \<open>strcmp\<close>,
    \<open>strlen\<close>, \<open>strncpy\<close> and their panics. \<open>Layout\<close>: little-endian structures in memory.
  \<^item> \<open>Bitmap\<close>: \<^verbatim>\<open>src/datatype/bitmap.c\<close>; \<open>Klist\<close>: \<^verbatim>\<open>src/datatype/list.h\<close>, the pointer list refines lists.
  \<^item> \<open>Port_IO\<close>: \<^verbatim>\<open>src/cpu/io.c\<close>, CMOS; \<open>CharDev\<close>: \<^verbatim>\<open>src/devices/char.c\<close>, E9 and serial output through the
    locale \<open>char_dev\<close>; \<open>Input\<close>: PS/2 keyboard and serial input, the receive ring is a bounded queue.
  \<^item> \<open>Logbuf\<close>: \<^verbatim>\<open>src/logbuf.c\<close> is a bounded queue that drops the oldest text; \<open>Stdio\<close>: \<^verbatim>\<open>src/stdio.c\<close>,
    the text of a format is defined without a buffer and \<open>vsnprintf\<close> refines it with truncation, sizes and
    widths kept at their C types; numbers printed and read back, line editing; \<open>Klog\<close>: formatted
    output through devices and the log.
  \<^item> \<open>Cmdline\<close>: \<^verbatim>\<open>src/cmdline.c\<close>, \<^verbatim>\<open>src/math/fnv1a.c\<close>; \<open>Symtable\<close>: \<^verbatim>\<open>src/symtable.c\<close>; \<open>Ramfs\<close>: the archive
    format of \<^verbatim>\<open>tools/mkramfs.c\<close> and \<^verbatim>\<open>src/fs/ramfs.c\<close>, the table-driven checksum.
  \<^item> \<open>Cmm\<close>: \<^verbatim>\<open>src/mem/cmm.c\<close>, re-typing of regions; \<open>Pma\<close> and \<open>Pma_Proofs\<close>: \<^verbatim>\<open>src/mem/pma.c\<close>, the free
    lists are exactly the runs of free pages of the bitmap; an allocation takes a free run, and for
    fewer than 32 pages fails only when there is none; a release merges with its neighbours.
  \<^item> \<open>Paging\<close> and \<open>Paging_Proofs\<close>: \<^verbatim>\<open>src/mem/paging.c\<close>; mapping a page changes the translation of that
    page and of no other, the tables stay a tree of distinct frames in use.
  \<^item> \<open>Heap\<close> and \<open>Heap_Proofs\<close>: \<^verbatim>\<open>src/mem/heap.c\<close>, composed of \<open>Vmm\<close>, \<open>Pma\<close>, \<open>Paging\<close> and \<open>MemOps\<close>; the blocks
    stay a list of disjoint blocks, an allocation returns a block of its own, a release merges, and how
    growing a block in place goes wrong for two sizes.
  \<^item> \<open>Elf\<close> and \<open>Elf_Proofs\<close>: \<^verbatim>\<open>src/binfmt/elf64.c\<close>, on top of \<open>Paging\<close>, \<open>Pma\<close>, \<open>MemOps\<close> and \<open>Scheduler\<close>; the address
    space is abstracted to a map from pages to frames, and after loading the bytes of every segment are
    found through the page tables.
  \<^item> \<open>Registry\<close>: \<^verbatim>\<open>src/devices/registry.c\<close>, bisection and registration through the locale \<open>device_store\<close>.
  \<^item> \<open>Time\<close>: the calendar formula against a count by years and months, sleeping ends and not too early.
  \<^item> \<open>Swrand\<close>: \<^verbatim>\<open>src/rand/swrand.c\<close>, draws from an interval are even.
  \<^item> \<open>Scheduler\<close>: \<^verbatim>\<open>src/scheduler.c\<close>, the ring of tasks is a round-robin queue, identifiers are
    fresh, the next task runs in its address space, every task runs.
  \<^item> \<open>Disk\<close>: \<^verbatim>\<open>src/disk/\<close>, a disk on which a GUID table was installed is recognised with its partition.
  \<^item> \<open>Cuterm\<close>: \<^verbatim>\<open>src/graphics/ui/cuterm.c\<close>, writing a character stays inside the framebuffer and draws the
    glyph, colour sequences are consumed without drawing and set the colours their parameters say.
  \<^item> \<open>Acpi\<close>: \<^verbatim>\<open>src/firmware/acpi/\<close>, interrupt overrides and configuration windows are those of the tables.
  \<^item> \<open>Irq\<close>: \<^verbatim>\<open>src/cpu/IDT.c\<close>, \<^verbatim>\<open>src/cpu/IRQHL.h\<close>, \<^verbatim>\<open>src/cpu/GDT.c\<close>, \<^verbatim>\<open>src/cpu/MSR.c\<close>; the stubs are instruction lists of a
    small machine and switch to the context the handler returns, every vector has its gate, installed
    handlers run in order.
  \<^item> \<open>Apic\<close>: \<^verbatim>\<open>src/cpu/apic/\<close>, pins get distinct vectors; \<open>Smp\<close>: \<^verbatim>\<open>src/cpu/smp/\<close>, one sender's messages run exactly
    once and in order, two senders can lose one.
  \<^item> \<open>Pci\<close>: \<^verbatim>\<open>src/pci/pci.c\<close>, \<^verbatim>\<open>src/pci/dtable.c\<close>; sizes of base address registers over the locale
    \<open>config_space\<close>, each function is claimed by an entry that matches it, whose driver is started if the
    host can run it, once per group.

  \<^bold>\<open>Bounds.\<close> Theorems on page tables and frames assume physical addresses below \<open>2 ^ 48\<close> (page numbers
  below \<open>2 ^ 36\<close>) as the allocator's invariant does. The disk theorem is for drives of fewer than
  \<open>2 ^ 32\<close> sectors, because the driver callbacks take 32-bit sector numbers. The theorems on the address pool
  and on the heap are for requests that stay below \<open>2 ^ 64\<close> when added to the pool's end. The printf theorem is
  for texts shorter than \<open>2 ^ 64\<close> characters; a signed overflow of a field width is a fault of the model. The loader theorem is for segments
  in the lower half that cover no whole aligned block of 2 MB, so that no large page is used.

  \<^bold>\<open>Not modelled.\<close> Start-up order and boot protocol (\<^verbatim>\<open>src/kmain.c\<close>) and the self tests, which only call the
  components above; the assembly files (\<^verbatim>\<open>*.S\<close>) and the loading of processor registers; the PCI device
  drivers, whose behaviour is that of their devices (the disk interface they provide is the argument
  \<open>driver\<close> of theory \<open>Disk\<close>); the DMA allocator, the speaker and the SMBIOS tables. Log
  messages whose text no component reads are left out of the models.
\<close>

end
